(* ===== verification/Base.thy ===== *)
theory Base
  imports Main "HOL-Library.Word" "HOL-Library.Monad_Syntax" "HOL-Library.Signed_Division"
begin

text \<open>
  Shared ground of the development: bytes and byte buffers with bounds-checked access, the
  little-endian representation of fixed-width integers, arrays of such integers laid out in a
  buffer, and C's signed arithmetic.

  A buffer of the C program (a block from \<open>zmalloc\<close>, or the part of it behind a header) is a
  list of bytes.  An operation that may read or write outside its block, or overflow a signed
  integer, returns an option: \<open>None\<close> stands for the undefined behaviour of C.  A theorem
  \<open>op s = Some t\<close> therefore says, among other things, that the operation stays in bounds.
\<close>

unbundle bit_operations_syntax

type_synonym byte = "8 word"
type_synonym mem = "byte list"

named_theorems mem_ops \<open>what a bounds-checked access does on a buffer split at the access\<close>
named_theorems c_arith \<open>evaluation of the C integer conversions in range\<close>

section \<open>Bounds-checked access to a buffer\<close>

definition mem_read :: "nat \<Rightarrow> nat \<Rightarrow> mem \<Rightarrow> mem option" where
  "mem_read off n m = (if off + n \<le> length m then Some (take n (drop off m)) else None)"

definition mem_write :: "nat \<Rightarrow> mem \<Rightarrow> mem \<Rightarrow> mem option" where
  "mem_write off bs m =
     (if off + length bs \<le> length m
      then Some (take off m @ bs @ drop (off + length bs) m) else None)"

definition mem_move :: "nat \<Rightarrow> nat \<Rightarrow> nat \<Rightarrow> mem \<Rightarrow> mem option" where
  "mem_move dst src n m = do { bs \<leftarrow> mem_read src n m; mem_write dst bs m }"

text \<open>Access to one byte.\<close>

definition rd :: "nat \<Rightarrow> mem \<Rightarrow> byte option" where
  "rd i m = (if i < length m then Some (m ! i) else None)"

definition wr :: "nat \<Rightarrow> byte \<Rightarrow> mem \<Rightarrow> mem option" where
  "wr i c m = (if i < length m then Some (m[i := c]) else None)"

lemma rd_at [mem_ops]: "length a = i \<Longrightarrow> rd i (a @ c # b) = Some c"
  by (auto simp: rd_def nth_append)

lemma wr_at [mem_ops]: "length a = i \<Longrightarrow> wr i x (a @ c # b) = Some (a @ x # b)"
  by (auto simp: wr_def list_update_append)

lemma rd_append [simp]: "rd (length pre + k) (pre @ xs) = rd k xs" "rd (length pre) (pre @ xs) = rd 0 xs"
  "rd (Suc (length pre)) (pre @ xs) = rd 1 xs" "rd (Suc (Suc (length pre))) (pre @ xs) = rd 2 xs"
  by (auto simp: rd_def nth_append)

lemma rd_Cons [simp]: "rd 0 (x # xs) = Some x" "rd (Suc k) (x # xs) = rd k xs"
  "rd 2 (x # y # xs) = rd 0 xs" "rd 3 (x # y # z # xs) = rd 0 xs"
  by (auto simp: rd_def numeral_2_eq_2 numeral_3_eq_3)

text \<open>\<open>strlen\<close>, and the text of a null-terminated string.\<close>

definition strlen :: "mem \<Rightarrow> nat option" where
  "strlen m = (if 0 \<in> set m then Some (length (takeWhile (\<lambda>c. c \<noteq> 0) m)) else None)"

lemma strlen_at [mem_ops]: "0 \<notin> set a \<Longrightarrow> strlen (a @ 0 # b) = Some (length a)"
  by (auto simp: strlen_def takeWhile_append)

text \<open>
  \<open>zrealloc\<close>: the old bytes up to the new size are kept.  The bytes it adds are indeterminate
  in C; the model puts zeros there, and the theorems describe every byte of the results, so no
  operation leaves such a byte behind.
\<close>

definition zrealloc :: "nat \<Rightarrow> mem \<Rightarrow> mem" where
  "zrealloc n m = take n m @ replicate (n - length m) 0"

lemma length_zrealloc [simp]: "length (zrealloc n m) = n"
  by (simp add: zrealloc_def)

lemma zrealloc_same [simp]: "zrealloc (length m) m = m"
  by (simp add: zrealloc_def)

lemma zrealloc_grow [mem_ops]: "length m \<le> n \<Longrightarrow> zrealloc n m = m @ replicate (n - length m) 0"
  by (simp add: zrealloc_def)

lemma zrealloc_shrink [mem_ops]: "length a = n \<Longrightarrow> zrealloc n (a @ b) = a"
  by (simp add: zrealloc_def)

lemma mem_read_at [mem_ops]:
  "\<lbrakk>length a = off; length b = n\<rbrakk> \<Longrightarrow> mem_read off n (a @ b @ c) = Some b"
  by (simp add: mem_read_def)

lemma mem_write_at [mem_ops]:
  "\<lbrakk>length a = off; length b = length bs\<rbrakk>
   \<Longrightarrow> mem_write off bs (a @ b @ c) = Some (a @ bs @ c)"
  by (simp add: mem_write_def)

lemma mem_write_length: "mem_write off bs m = Some m' \<Longrightarrow> length m' = length m"
  by (auto simp: mem_write_def split: if_splits)

lemma mem_move_length: "mem_move dst src n m = Some m' \<Longrightarrow> length m' = length m"
  by (auto simp: mem_move_def bind_eq_Some_conv mem_write_length)

text \<open>Moving a block up or down by the \<open>w\<close> bytes next to it.\<close>

lemma mem_move_up:
  assumes "length z = w"
  shows "mem_move (length a + w) (length a) (length b) (a @ b @ z) = Some (a @ take w (b @ z) @ b)"
proof -
  have "b @ z = take w (b @ z) @ drop w (b @ z)" by (simp only: append_take_drop_id)
  then have "a @ b @ z = (a @ take w (b @ z)) @ drop w (b @ z) @ []"
    by (metis append.assoc append_Nil2)
  then have "mem_write (length a + w) b (a @ b @ z) = Some ((a @ take w (b @ z)) @ b @ [])"
    using assms by (simp only:) (rule mem_write_at, simp_all)
  then show ?thesis by (simp add: mem_move_def mem_ops)
qed

lemma mem_move_down:
  assumes "length x = w"
  shows "mem_move (length a) (length a + w) (length b) (a @ x @ b) = Some (a @ b @ drop (length b) (x @ b))"
proof -
  have "mem_read (length a + w) (length b) ((a @ x) @ b @ []) = Some b"
    using assms by (intro mem_read_at) simp_all
  moreover have "mem_write (length a) b (a @ take (length b) (x @ b) @ drop (length b) (x @ b))
      = Some (a @ b @ drop (length b) (x @ b))"
    by (intro mem_write_at) simp_all
  ultimately show ?thesis
    unfolding append_take_drop_id by (simp add: mem_move_def del: drop_append)
qed

section \<open>Little-endian integers\<close>

fun le_encode :: "nat \<Rightarrow> int \<Rightarrow> byte list" where
  "le_encode 0 v = []"
| "le_encode (Suc n) v = word_of_int v # le_encode n (v div 256)"

fun le_unsigned :: "byte list \<Rightarrow> int" where
  "le_unsigned [] = 0"
| "le_unsigned (b # bs) = uint b + 256 * le_unsigned bs"

definition le_signed :: "byte list \<Rightarrow> int" where
  "le_signed bs =
     (let v = le_unsigned bs
      in if v < 2 ^ (8 * length bs - 1) then v else v - 2 ^ (8 * length bs))"

text \<open>The values a two's complement integer of \<open>n\<close> bytes has.\<close>

definition in_sbytes :: "nat \<Rightarrow> int \<Rightarrow> bool" where
  "in_sbytes n v \<longleftrightarrow> - (2 ^ (8 * n - 1)) \<le> v \<and> v < 2 ^ (8 * n - 1)"

lemma length_le_encode [simp]: "length (le_encode n v) = n"
  by (induction n arbitrary: v) auto

lemma mod_mult_256: "0 < n \<Longrightarrow> (v :: int) mod (256 * n) = v mod 256 + 256 * (v div 256 mod n)"
  using zmod_zmult2_eq [of n v 256] by simp

lemma le_unsigned_encode: "le_unsigned (le_encode n v) = v mod 256 ^ n"
proof (induction n arbitrary: v)
  case 0
  show ?case by simp
next
  case (Suc n)
  have "uint (word_of_int v :: byte) = v mod 256"
    by (simp add: uint_word_of_int take_bit_eq_mod)
  then show ?case by (simp add: Suc mod_mult_256)
qed

lemma le_unsigned_bounds: "0 \<le> le_unsigned bs \<and> le_unsigned bs < 256 ^ length bs"
proof (induction bs)
  case (Cons b bs)
  have "0 \<le> uint b" "uint b < 256" using uint_lt2p [of b] by simp_all
  then show ?case using Cons by simp
qed simp

lemma le_encode_unsigned: "le_encode (length bs) (le_unsigned bs) = bs"
proof (induction bs)
  case (Cons b bs)
  have b: "0 \<le> uint b" "uint b < 256" using uint_lt2p [of b] by simp_all
  have "(uint b + 256 * le_unsigned bs) div 256 = le_unsigned bs" using b by simp
  moreover have "(word_of_int (uint b + 256 * le_unsigned bs) :: byte) = b"
  proof -
    have z: "(256 :: byte) = 0" by simp
    show ?thesis by (simp add: z flip: wi_hom_add wi_hom_mult)
  qed
  ultimately show ?case using Cons by simp
qed simp

lemma two_pow_split: "0 < n \<Longrightarrow> (2 :: int) ^ (8 * n) = 2 * 2 ^ (8 * n - 1)"
  by (cases n) (simp_all add: power_add)

lemma pow_256: "(256 :: int) ^ n = 2 ^ (8 * n)"
  by (simp add: power_mult)

lemma le_signed_encode [simp]:
  assumes "0 < n" and "in_sbytes n v"
  shows "le_signed (le_encode n v) = v"
proof -
  define H where "H = (2 :: int) ^ (8 * n - Suc 0)"
  have H: "(256 :: int) ^ n = 2 * H" "2 ^ (8 * n) = 2 * H"
    using two_pow_split [OF assms(1)] by (simp_all add: pow_256 H_def)
  have v: "- H \<le> v" "v < H" using assms(2) by (simp_all add: in_sbytes_def H_def)
  have "v mod (2 * H) = (if 0 \<le> v then v else v + 2 * H)"
  proof (cases "0 \<le> v")
    case True
    with v show ?thesis by simp
  next
    case False
    then have "v mod (2 * H) = (v + 2 * H) mod (2 * H)" by simp
    also have "\<dots> = v + 2 * H" using v False by (intro mod_pos_pos_trivial) auto
    finally show ?thesis using False by simp
  qed
  then show ?thesis
    using v by (simp add: le_signed_def le_unsigned_encode H Let_def flip: H_def)
qed

lemma in_sbytes_le_signed: "bs \<noteq> [] \<Longrightarrow> in_sbytes (length bs) (le_signed bs)"
  using le_unsigned_bounds [of bs] two_pow_split [of "length bs"]
  by (auto simp: in_sbytes_def le_signed_def Let_def pow_256)

section \<open>Arrays of fixed-width integers in a buffer\<close>

definition le_array :: "nat \<Rightarrow> int list \<Rightarrow> mem" where
  "le_array w xs = concat (map (le_encode w) xs)"

lemma le_array_Nil [simp]: "le_array w [] = []"
  by (simp add: le_array_def)

lemma le_array_Cons [simp]: "le_array w (x # xs) = le_encode w x @ le_array w xs"
  by (simp add: le_array_def)

lemma le_array_append [simp]: "le_array w (xs @ ys) = le_array w xs @ le_array w ys"
  by (simp add: le_array_def)

lemma length_le_array [simp]: "length (le_array w xs) = length xs * w"
  by (induction xs) (simp_all add: le_array_def)

lemma le_array_split:
  "i < length xs \<Longrightarrow>
   le_array w xs = le_array w (take i xs) @ le_encode w (xs ! i) @ le_array w (drop (Suc i) xs)"
  by (metis id_take_nth_drop le_array_append le_array_Cons)

lemma take_le_array: "take (i * w) (le_array w xs) = le_array w (take i xs)"
proof (cases "i \<le> length xs")
  case True
  have "le_array w xs = le_array w (take i xs) @ le_array w (drop i xs)"
    by (metis append_take_drop_id le_array_append)
  then show ?thesis using True by (metis append_eq_conv_conj length_le_array length_take min.absorb2)
next
  case False
  then have "length (le_array w xs) \<le> i * w" by (simp add: mult_le_mono1)
  then show ?thesis using False by simp
qed

lemma mem_read_le_array:
  "i < length xs \<Longrightarrow> mem_read (i * w) w (le_array w xs @ rest) = Some (le_encode w (xs ! i))"
  by (subst le_array_split [of i xs w]) (simp_all add: mem_ops)

section \<open>C's signed arithmetic\<close>

text \<open>The value of an \<open>int\<close> expression: a result that does not fit is undefined.\<close>

definition c_int :: "int \<Rightarrow> int option" where
  "c_int x = (if - (2 ^ 31) \<le> x \<and> x < 2 ^ 31 then Some x else None)"

definition c_llong :: "int \<Rightarrow> int option" where
  "c_llong x = (if - (2 ^ 63) \<le> x \<and> x < 2 ^ 63 then Some x else None)"

text \<open>Conversion to a narrower or unsigned type wraps.\<close>

definition to_uint32 :: "int \<Rightarrow> nat" where
  "to_uint32 x = nat (x mod 2 ^ 32)"

definition to_int32 :: "int \<Rightarrow> int" where
  "to_int32 x = (x + 2 ^ 31) mod 2 ^ 32 - 2 ^ 31"

lemma c_int_in_range [c_arith]: "\<lbrakk>- (2 ^ 31) \<le> x; x < 2 ^ 31\<rbrakk> \<Longrightarrow> c_int x = Some x"
  by (simp add: c_int_def)

lemma c_int_SomeD: "c_int x = Some y \<Longrightarrow> y = x \<and> - (2 ^ 31) \<le> x \<and> x < 2 ^ 31"
  by (simp add: c_int_def split: if_splits)

lemma to_uint32_in_range [c_arith]: "\<lbrakk>0 \<le> x; x < 2 ^ 32\<rbrakk> \<Longrightarrow> to_uint32 x = nat x"
  by (simp add: to_uint32_def)

lemma to_int32_in_range [c_arith]: "\<lbrakk>- (2 ^ 31) \<le> x; x < 2 ^ 31\<rbrakk> \<Longrightarrow> to_int32 x = x"
  by (simp add: to_int32_def)

text \<open>\<open>size_t\<close> is 64 bits wide; a negative \<open>int\<close> becomes a huge size.\<close>

definition to_size :: "int \<Rightarrow> nat" where
  "to_size x = nat (x mod 2 ^ 64)"

lemma to_size_in_range [c_arith]: "\<lbrakk>0 \<le> x; x < 2 ^ 64\<rbrakk> \<Longrightarrow> to_size x = nat x"
  by (simp add: to_size_def)

lemma to_size_diff [c_arith]: "\<lbrakk>b \<le> a; a < 2 ^ 64\<rbrakk> \<Longrightarrow> to_size (int a - int b) = a - b"
  by (simp add: to_size_def flip: of_nat_diff)

lemma sdiv_2_nonneg [c_arith]: "0 \<le> (x :: int) \<Longrightarrow> x sdiv 2 = x div 2"
  by (cases "x = 0") (simp_all add: signed_divide_int_def)

lemma sdiv_2_between: "a \<le> b \<Longrightarrow> a \<le> (a + b) sdiv 2 \<and> (a + b) sdiv 2 \<le> (b :: int)"
  by (cases "a + b" "0 :: int" rule: linorder_cases) (auto simp: signed_divide_int_def)

end
