(* ===== verification/Endianconv.thy ===== *)
theory Endianconv
  imports Base
begin

text \<open>
  \<open>endianconv.c\<close> and \<open>endianconv.h\<close>: the in-place byte reversals of 16, 32 and 64 bit integers,
  their by-value forms, and the \<open>ifbe\<close> macros that act on big endian hosts only.  The host's
  byte order is the argument \<open>be\<close>.  The encodings that Redis writes to disk (intsets, ziplists)
  store an integer in the host's order and reverse it in place on a big endian host; the
  theorems show that the bytes are then little-endian on every host, which is why the models of
  those encodings read and write little-endian integers directly (\<open>le_store\<close>, \<open>le_load\<close>).
\<close>

section \<open>The reversals\<close>

definition byte_swap :: "nat \<Rightarrow> nat \<Rightarrow> nat \<Rightarrow> mem \<Rightarrow> mem option" where
  "byte_swap p i j m = do {
     t \<leftarrow> mem_read (p + i) 1 m;
     u \<leftarrow> mem_read (p + j) 1 m;
     m \<leftarrow> mem_write (p + i) u m;
     mem_write (p + j) t m }"

definition memrev16 :: "nat \<Rightarrow> mem \<Rightarrow> mem option" where
  "memrev16 p m = byte_swap p 0 1 m"

definition memrev32 :: "nat \<Rightarrow> mem \<Rightarrow> mem option" where
  "memrev32 p m = do { m \<leftarrow> byte_swap p 0 3 m; byte_swap p 1 2 m }"

definition memrev64 :: "nat \<Rightarrow> mem \<Rightarrow> mem option" where
  "memrev64 p m = do {
     m \<leftarrow> byte_swap p 0 7 m;
     m \<leftarrow> byte_swap p 1 6 m;
     m \<leftarrow> byte_swap p 2 5 m;
     byte_swap p 3 4 m }"

text \<open>The object representation of an integer of \<open>n\<close> bytes on the host.\<close>

definition native_bytes :: "bool \<Rightarrow> nat \<Rightarrow> int \<Rightarrow> byte list" where
  "native_bytes be n v = (if be then rev (le_encode n v) else le_encode n v)"

definition native_signed :: "bool \<Rightarrow> byte list \<Rightarrow> int" where
  "native_signed be bs = le_signed (if be then rev bs else bs)"

definition native_unsigned :: "bool \<Rightarrow> byte list \<Rightarrow> int" where
  "native_unsigned be bs = le_unsigned (if be then rev bs else bs)"

definition intrev16 :: "bool \<Rightarrow> int \<Rightarrow> int option" where
  "intrev16 be v = do { bs \<leftarrow> memrev16 0 (native_bytes be 2 v); Some (native_unsigned be bs) }"

definition intrev32 :: "bool \<Rightarrow> int \<Rightarrow> int option" where
  "intrev32 be v = do { bs \<leftarrow> memrev32 0 (native_bytes be 4 v); Some (native_unsigned be bs) }"

definition intrev64 :: "bool \<Rightarrow> int \<Rightarrow> int option" where
  "intrev64 be v = do { bs \<leftarrow> memrev64 0 (native_bytes be 8 v); Some (native_unsigned be bs) }"

text \<open>The macros for the width \<open>n\<close>: \<open>memrev16ifbe\<close>, \<open>memrev32ifbe\<close> and \<open>memrev64ifbe\<close>.\<close>

definition memrev_ifbe :: "bool \<Rightarrow> nat \<Rightarrow> nat \<Rightarrow> mem \<Rightarrow> mem option" where
  "memrev_ifbe be n p m =
     (if \<not> be then Some m
      else if n = 2 then memrev16 p m
      else if n = 4 then memrev32 p m
      else if n = 8 then memrev64 p m
      else None)"

section \<open>Each reversal is the reversal of its bytes\<close>

lemma byte_swap_at:
  assumes "length a = p + i" "length c = j - i - 1" "i < j"
  shows "byte_swap p i j (a @ [x] @ c @ [y] @ e) = Some (a @ [y] @ c @ [x] @ e)"
proof -
  have "p + j = length a + Suc (length c)" using assms by simp
  then show ?thesis
    using assms(1) by (simp add: byte_swap_def mem_read_def mem_write_def)
qed

lemma length_Suc_exp: "length xs = Suc n \<longleftrightarrow> (\<exists>y ys. xs = y # ys \<and> length ys = n)"
  by (cases xs) auto

lemma memrev16_rev:
  "\<lbrakk>length a = p; length b = 2\<rbrakk> \<Longrightarrow> memrev16 p (a @ b @ c) = Some (a @ rev b @ c)"
  using byte_swap_at [of a p 0 "[]" 1]
  by (auto simp: memrev16_def numeral_eq_Suc length_Suc_exp)

lemma memrev32_rev:
  assumes "length a = p" "length b = 4"
  shows "memrev32 p (a @ b @ c) = Some (a @ rev b @ c)"
proof -
  obtain x0 x1 x2 x3 where b: "b = [x0, x1, x2, x3]"
    using assms(2) by (auto simp: numeral_eq_Suc length_Suc_exp)
  show ?thesis
    using assms(1) byte_swap_at [of a p 0 "[x1, x2]" 3 x0 x3 c]
      byte_swap_at [of "a @ [x3]" p 1 "[]" 2 x1 x2 "x0 # c"]
    by (simp add: memrev32_def b)
qed

lemma memrev64_rev:
  assumes "length a = p" "length b = 8"
  shows "memrev64 p (a @ b @ c) = Some (a @ rev b @ c)"
proof -
  obtain x0 x1 x2 x3 x4 x5 x6 x7 where b: "b = [x0, x1, x2, x3, x4, x5, x6, x7]"
    using assms(2) by (auto simp: numeral_eq_Suc length_Suc_exp)
  show ?thesis
    using assms(1) byte_swap_at [of a p 0 "[x1, x2, x3, x4, x5, x6]" 7 x0 x7 c]
      byte_swap_at [of "a @ [x7]" p 1 "[x2, x3, x4, x5]" 6 x1 x6 "x0 # c"]
      byte_swap_at [of "a @ [x7, x6]" p 2 "[x3, x4]" 5 x2 x5 "x1 # x0 # c"]
      byte_swap_at [of "a @ [x7, x6, x5]" p 3 "[]" 4 x3 x4 "x2 # x1 # x0 # c"]
    by (simp add: memrev64_def b)
qed

lemmas memrev_rev = memrev16_rev memrev32_rev memrev64_rev

lemma memrev_whole:
  "length b = 2 \<Longrightarrow> memrev16 0 b = Some (rev b)"
  "length b = 4 \<Longrightarrow> memrev32 0 b = Some (rev b)"
  "length b = 8 \<Longrightarrow> memrev64 0 b = Some (rev b)"
  using memrev_rev [of "[]" 0 b "[]"] by simp_all

section \<open>Stored integers do not depend on the host\<close>

definition le_store :: "nat \<Rightarrow> nat \<Rightarrow> int \<Rightarrow> mem \<Rightarrow> mem option" where
  "le_store n p v m = mem_write p (le_encode n v) m"

definition le_load :: "nat \<Rightarrow> nat \<Rightarrow> mem \<Rightarrow> int option" where
  "le_load n p m = do { bs \<leftarrow> mem_read p n m; Some (le_signed bs) }"

lemma mem_write_SomeE:
  assumes "mem_write p bs m = Some m'"
  obtains a b c where "m = a @ b @ c" "length a = p" "length b = length bs" "m' = a @ bs @ c"
proof (rule that)
  have le: "p + length bs \<le> length m" using assms by (auto simp: mem_write_def split: if_splits)
  show "m = take p m @ take (length bs) (drop p m) @ drop (p + length bs) m"
    by (metis add.commute append_take_drop_id drop_drop)
  show "m' = take p m @ bs @ drop (p + length bs) m"
    using assms le by (simp add: mem_write_def)
qed (use assms in \<open>auto simp: mem_write_def split: if_splits\<close>)

lemma memrev_ifbe_rev:
  "\<lbrakk>n \<in> {2, 4, 8}; length a = p; length b = n\<rbrakk>
   \<Longrightarrow> memrev_ifbe True n p (a @ b @ c) = Some (a @ rev b @ c)"
  by (auto simp: memrev_ifbe_def memrev_rev)

lemma native_store_le:
  assumes "n \<in> {2, 4, 8}"
  shows "do { m \<leftarrow> mem_write p (native_bytes be n v) m; memrev_ifbe be n p m } = le_store n p v m"
proof (cases be)
  case False
  then show ?thesis by (cases "mem_write p (le_encode n v) m")
      (simp_all add: le_store_def native_bytes_def memrev_ifbe_def)
next
  case True
  show ?thesis
  proof (cases "mem_write p (rev (le_encode n v)) m")
    case None
    then show ?thesis using True
      by (auto simp: le_store_def native_bytes_def mem_write_def split: if_splits)
  next
    case (Some m')
    obtain a b c where "m = a @ b @ c" and l: "length a = p" "length b = n"
      and m': "m' = a @ rev (le_encode n v) @ c"
      using mem_write_SomeE [OF Some] by auto
    then have "le_store n p v m = Some (a @ le_encode n v @ c)"
      by (simp add: le_store_def mem_ops)
    moreover have "memrev_ifbe True n p m' = Some (a @ le_encode n v @ c)"
      using memrev_ifbe_rev [OF assms l(1), of "rev (le_encode n v)"] by (simp add: m')
    ultimately show ?thesis using True Some by (simp add: native_bytes_def)
  qed
qed

lemma native_load_le:
  assumes "n \<in> {2, 4, 8}"
  shows "do { bs \<leftarrow> mem_read p n m; bs \<leftarrow> memrev_ifbe be n 0 bs; Some (native_signed be bs) }
         = le_load n p m"
proof (cases "mem_read p n m")
  case (Some bs)
  then have "length bs = n" by (auto simp: mem_read_def split: if_splits)
  then have "memrev_ifbe True n 0 bs = Some (rev bs)"
    using memrev_ifbe_rev [OF assms, of "[]" 0 bs "[]"] by simp
  with Some show ?thesis
    by (cases be) (simp_all add: le_load_def native_signed_def memrev_ifbe_def)
qed (simp add: le_load_def)

text \<open>
  C27.  An integer of 2, 4 or 8 bytes written in the host's byte order and then passed through
  the \<open>memrevNifbe\<close> macro is stored in little-endian order whatever the host; and the copy,
  macro and read by which the code loads it returns on every host the same value, the one
  stored.  Out of bounds both fail alike.
\<close>
theorem stored_integers_host_independent:
  assumes "n \<in> {2, 4, 8}" and "in_sbytes n v" and "p + n \<le> length m"
  shows "\<exists>m'. (\<forall>be. do { m \<leftarrow> mem_write p (native_bytes be n v) m; memrev_ifbe be n p m } = Some m')
           \<and> (\<forall>be. do { bs \<leftarrow> mem_read p n m'; bs \<leftarrow> memrev_ifbe be n 0 bs;
                        Some (native_signed be bs) } = Some v)
           \<and> take p m' = take p m \<and> drop (p + n) m' = drop (p + n) m"
proof -
  define m' where "m' = take p m @ le_encode n v @ drop (p + n) m"
  have w: "le_store n p v m = Some m'"
    using assms(3) by (simp add: le_store_def mem_write_def m'_def)
  have "mem_read p n m' = Some (le_encode n v)"
    unfolding m'_def using assms(3) by (intro mem_read_at) auto
  then have "le_load n p m' = Some v"
    using assms(1,2) by (auto simp: le_load_def)
  then show ?thesis
    using w assms(3) by (intro exI [of _ m']) (simp add: native_store_le [OF assms(1)]
        native_load_le [OF assms(1)] m'_def)
qed

theorem stored_integers_host_independent_witness:
  "\<exists>m'. (\<forall>be. do { m \<leftarrow> mem_write 1 (native_bytes be 2 (-2)) [7, 7, 7, 7]; memrev_ifbe be 2 1 m } = Some m')
        \<and> (\<forall>be. do { bs \<leftarrow> mem_read 1 2 m'; bs \<leftarrow> memrev_ifbe be 2 0 bs;
                     Some (native_signed be bs) } = Some (-2))
        \<and> take 1 m' = take 1 [7, 7, 7, 7 :: byte] \<and> drop (1 + 2) m' = drop (1 + 2) [7, 7, 7, 7]"
  by (rule stored_integers_host_independent) (simp_all add: in_sbytes_def)

text \<open>The by-value reversals are involutions on every host.\<close>

lemma native_bytes_unsigned: "length bs = n \<Longrightarrow> native_bytes be n (native_unsigned be bs) = bs"
  by (cases be) (use le_encode_unsigned [of "rev bs"] le_encode_unsigned [of bs] in
      \<open>auto simp: native_bytes_def native_unsigned_def\<close>)

lemma native_unsigned_bytes:
  "\<lbrakk>0 \<le> v; v < 256 ^ n\<rbrakk> \<Longrightarrow> native_unsigned be (native_bytes be n v) = v"
  by (cases be) (simp_all add: native_bytes_def native_unsigned_def le_unsigned_encode)

lemma length_native_bytes [simp]: "length (native_bytes be n v) = n"
  by (simp add: native_bytes_def)

lemma intrev32_involution:
  assumes "0 \<le> v" "v < 2 ^ 32"
  shows "do { w \<leftarrow> intrev32 be v; intrev32 be w } = Some v"
  using assms by (simp add: intrev32_def memrev_whole native_bytes_unsigned native_unsigned_bytes)

lemma intrev16_involution:
  assumes "0 \<le> v" "v < 2 ^ 16"
  shows "do { w \<leftarrow> intrev16 be v; intrev16 be w } = Some v"
  using assms by (simp add: intrev16_def memrev_whole native_bytes_unsigned native_unsigned_bytes)

lemma intrev64_involution:
  assumes "0 \<le> v" "v < 2 ^ 64"
  shows "do { w \<leftarrow> intrev64 be v; intrev64 be w } = Some v"
  using assms by (simp add: intrev64_def memrev_whole native_bytes_unsigned native_unsigned_bytes)

end
