(* ===== verification/Interfaces.thy ===== *)
theory Interfaces
  imports Base
begin

text \<open>
  The contracts between components.  A Redis set object is held by one of two providers, an
  intset or a hash table, and the set commands rely only on what both promise:
  \<open>finite_set_impl\<close>.  An operation returns the provider's new state, since a mere lookup of a
  hash table may move entries; \<open>None\<close> would be undefined behaviour, which the laws exclude.
\<close>

datatype 'a set_op = SetAdd 'a | SetRemove 'a | SetQuery 'a

primrec run_set_op ::
  "('s \<Rightarrow> 'a \<Rightarrow> ('s \<times> bool) option) \<Rightarrow> ('s \<Rightarrow> 'a \<Rightarrow> ('s \<times> bool) option) \<Rightarrow>
   ('s \<Rightarrow> 'a \<Rightarrow> ('s \<times> bool) option) \<Rightarrow> 's \<Rightarrow> 'a set_op \<Rightarrow> ('s \<times> bool) option" where
  "run_set_op add del fnd s (SetAdd x) = add s x"
| "run_set_op add del fnd s (SetRemove x) = del s x"
| "run_set_op add del fnd s (SetQuery x) = fnd s x"

primrec run_set_ops ::
  "('s \<Rightarrow> 'a \<Rightarrow> ('s \<times> bool) option) \<Rightarrow> ('s \<Rightarrow> 'a \<Rightarrow> ('s \<times> bool) option) \<Rightarrow>
   ('s \<Rightarrow> 'a \<Rightarrow> ('s \<times> bool) option) \<Rightarrow> 's \<Rightarrow> 'a set_op list \<Rightarrow> ('s \<times> bool list) option" where
  "run_set_ops add del fnd s [] = Some (s, [])"
| "run_set_ops add del fnd s (op # ops) = do {
     (s, b) \<leftarrow> run_set_op add del fnd s op;
     (s, bs) \<leftarrow> run_set_ops add del fnd s ops;
     Some (s, b # bs) }"

text \<open>The specification: the same operations on a mathematical set.\<close>

primrec spec_set_op :: "'a set \<Rightarrow> 'a set_op \<Rightarrow> 'a set \<times> bool" where
  "spec_set_op S (SetAdd x) = (insert x S, x \<notin> S)"
| "spec_set_op S (SetRemove x) = (S - {x}, x \<in> S)"
| "spec_set_op S (SetQuery x) = (S, x \<in> S)"

primrec spec_set_ops :: "'a set \<Rightarrow> 'a set_op list \<Rightarrow> 'a set \<times> bool list" where
  "spec_set_ops S [] = (S, [])"
| "spec_set_ops S (op # ops) =
     (let (S1, b) = spec_set_op S op; (S2, bs) = spec_set_ops S1 ops in (S2, b # bs))"

primrec set_op_arg :: "'a set_op \<Rightarrow> 'a" where
  "set_op_arg (SetAdd x) = x"
| "set_op_arg (SetRemove x) = x"
| "set_op_arg (SetQuery x) = x"

locale finite_set_impl =
  fixes rep :: "'s \<Rightarrow> 'a set \<Rightarrow> bool"
    and elem :: "'a \<Rightarrow> bool"
    and cap :: nat
    and add :: "'s \<Rightarrow> 'a \<Rightarrow> ('s \<times> bool) option"
    and del :: "'s \<Rightarrow> 'a \<Rightarrow> ('s \<times> bool) option"
    and fnd :: "'s \<Rightarrow> 'a \<Rightarrow> ('s \<times> bool) option"
    and sz :: "'s \<Rightarrow> nat"
  assumes rep_finite: "rep s S \<Longrightarrow> finite S"
    and rep_size: "rep s S \<Longrightarrow> sz s = card S"
    and add_law: "\<lbrakk>rep s S; elem x; card S < cap\<rbrakk> \<Longrightarrow>
      \<exists>s'. add s x = Some (s', x \<notin> S) \<and> rep s' (insert x S)"
    and del_law: "\<lbrakk>rep s S; elem x\<rbrakk> \<Longrightarrow> \<exists>s'. del s x = Some (s', x \<in> S) \<and> rep s' (S - {x})"
    and fnd_law: "\<lbrakk>rep s S; elem x\<rbrakk> \<Longrightarrow> \<exists>s'. fnd s x = Some (s', x \<in> S) \<and> rep s' S"
begin

lemma run_op_refines:
  assumes "rep s S" "elem (set_op_arg op)" "card S < cap"
  shows "\<exists>s'. run_set_op add del fnd s op = Some (s', snd (spec_set_op S op)) \<and>
    rep s' (fst (spec_set_op S op))"
  using assms add_law del_law fnd_law by (cases op) auto

lemma card_spec_op: "finite S \<Longrightarrow> card (fst (spec_set_op S op)) \<le> Suc (card S)"
  by (cases op) (auto simp: card_insert_if card_Diff_singleton_if)

text \<open>
  A client's whole run of operations answers, step by step, what a mathematical set answers,
  as long as the set cannot outgrow the provider's capacity.
\<close>

lemma run_ops_refines:
  assumes "rep s S" "\<forall>op \<in> set ops. elem (set_op_arg op)" "card S + length ops \<le> cap"
  shows "\<exists>s'. run_set_ops add del fnd s ops = Some (s', snd (spec_set_ops S ops)) \<and>
    rep s' (fst (spec_set_ops S ops))"
  using assms
proof (induction ops arbitrary: s S)
  case Nil
  then show ?case by simp
next
  case (Cons op ops)
  obtain S1 b where spec: "spec_set_op S op = (S1, b)" by fastforce
  obtain s1 where run: "run_set_op add del fnd s op = Some (s1, b)" "rep s1 S1"
    using run_op_refines [OF Cons.prems(1), of op] Cons.prems(2,3) spec by auto
  have "card S1 + length ops \<le> cap"
    using card_spec_op [OF rep_finite [OF Cons.prems(1)], of op] spec Cons.prems(3) by simp
  then obtain s2 where "run_set_ops add del fnd s1 ops = Some (s2, snd (spec_set_ops S1 ops))"
    "rep s2 (fst (spec_set_ops S1 ops))"
    using Cons.IH [OF run(2)] Cons.prems(2) by auto
  then show ?case using run(1) spec by (simp add: case_prod_beta)
qed

end

text \<open>
  The contract of a map, which the key space and the hashes are clients of.  The flag of \<open>put\<close>
  says whether the key was new, that of \<open>rem\<close> whether it was there.
\<close>

datatype ('k, 'v) map_op = MapPut 'k 'v | MapRemove 'k | MapGet 'k

datatype 'v map_reply = Flag bool | Found "'v option"

primrec run_map_op ::
  "('s \<Rightarrow> 'k \<Rightarrow> 'v \<Rightarrow> ('s \<times> bool) option) \<Rightarrow> ('s \<Rightarrow> 'k \<Rightarrow> ('s \<times> bool) option) \<Rightarrow>
   ('s \<Rightarrow> 'k \<Rightarrow> ('s \<times> 'v option) option) \<Rightarrow> 's \<Rightarrow> ('k, 'v) map_op \<Rightarrow> ('s \<times> 'v map_reply) option" where
  "run_map_op put rem get s (MapPut k v) = do { (s, b) \<leftarrow> put s k v; Some (s, Flag b) }"
| "run_map_op put rem get s (MapRemove k) = do { (s, b) \<leftarrow> rem s k; Some (s, Flag b) }"
| "run_map_op put rem get s (MapGet k) = do { (s, r) \<leftarrow> get s k; Some (s, Found r) }"

primrec run_map_ops ::
  "('s \<Rightarrow> 'k \<Rightarrow> 'v \<Rightarrow> ('s \<times> bool) option) \<Rightarrow> ('s \<Rightarrow> 'k \<Rightarrow> ('s \<times> bool) option) \<Rightarrow>
   ('s \<Rightarrow> 'k \<Rightarrow> ('s \<times> 'v option) option) \<Rightarrow> 's \<Rightarrow> ('k, 'v) map_op list \<Rightarrow>
   ('s \<times> 'v map_reply list) option" where
  "run_map_ops put rem get s [] = Some (s, [])"
| "run_map_ops put rem get s (op # ops) = do {
     (s, r) \<leftarrow> run_map_op put rem get s op;
     (s, rs) \<leftarrow> run_map_ops put rem get s ops;
     Some (s, r # rs) }"

primrec spec_map_op :: "('k \<rightharpoonup> 'v) \<Rightarrow> ('k, 'v) map_op \<Rightarrow> ('k \<rightharpoonup> 'v) \<times> 'v map_reply" where
  "spec_map_op m (MapPut k v) = (m(k \<mapsto> v), Flag (m k = None))"
| "spec_map_op m (MapRemove k) = (m(k := None), Flag (m k \<noteq> None))"
| "spec_map_op m (MapGet k) = (m, Found (m k))"

primrec spec_map_ops :: "('k \<rightharpoonup> 'v) \<Rightarrow> ('k, 'v) map_op list \<Rightarrow> ('k \<rightharpoonup> 'v) \<times> 'v map_reply list" where
  "spec_map_ops m [] = (m, [])"
| "spec_map_ops m (op # ops) =
     (let (m1, r) = spec_map_op m op; (m2, rs) = spec_map_ops m1 ops in (m2, r # rs))"

locale finite_map_impl =
  fixes rep :: "'s \<Rightarrow> ('k \<rightharpoonup> 'v) \<Rightarrow> bool"
    and cap :: nat
    and put :: "'s \<Rightarrow> 'k \<Rightarrow> 'v \<Rightarrow> ('s \<times> bool) option"
    and rem :: "'s \<Rightarrow> 'k \<Rightarrow> ('s \<times> bool) option"
    and get :: "'s \<Rightarrow> 'k \<Rightarrow> ('s \<times> 'v option) option"
    and sz :: "'s \<Rightarrow> nat"
  assumes rep_dom: "rep s m \<Longrightarrow> finite (dom m)"
    and rep_size: "rep s m \<Longrightarrow> sz s = card (dom m)"
    and put_law: "\<lbrakk>rep s m; card (dom m) < cap\<rbrakk> \<Longrightarrow>
      \<exists>s'. put s k v = Some (s', m k = None) \<and> rep s' (m(k \<mapsto> v))"
    and rem_law: "rep s m \<Longrightarrow> \<exists>s'. rem s k = Some (s', m k \<noteq> None) \<and> rep s' (m(k := None))"
    and get_law: "rep s m \<Longrightarrow> \<exists>s'. get s k = Some (s', m k) \<and> rep s' m"
begin

lemma run_op_refines:
  assumes "rep s m" "card (dom m) < cap"
  shows "\<exists>s'. run_map_op put rem get s op = Some (s', snd (spec_map_op m op)) \<and>
    rep s' (fst (spec_map_op m op))"
proof (cases op)
  case (MapPut k v)
  then show ?thesis using put_law [OF assms, of k v] by auto
next
  case (MapRemove k)
  then show ?thesis using rem_law [OF assms(1), of k] by auto
next
  case (MapGet k)
  then show ?thesis using get_law [OF assms(1), of k] by auto
qed

lemma card_spec_op: "finite (dom m) \<Longrightarrow> card (dom (fst (spec_map_op m op))) \<le> Suc (card (dom m))"
  by (cases op) (auto simp: card_insert_if card_Diff_singleton_if)

lemma run_ops_refines:
  assumes "rep s m" "card (dom m) + length ops \<le> cap"
  shows "\<exists>s'. run_map_ops put rem get s ops = Some (s', snd (spec_map_ops m ops)) \<and>
    rep s' (fst (spec_map_ops m ops))"
  using assms
proof (induction ops arbitrary: s m)
  case Nil
  then show ?case by simp
next
  case (Cons op ops)
  obtain m1 r where spec: "spec_map_op m op = (m1, r)" by fastforce
  obtain s1 where run: "run_map_op put rem get s op = Some (s1, r)" "rep s1 m1"
    using run_op_refines [OF Cons.prems(1), of op] Cons.prems(2) spec by auto
  have "card (dom m1) + length ops \<le> cap"
    using card_spec_op [OF rep_dom [OF Cons.prems(1)], of op] spec Cons.prems(2) by simp
  then obtain s2 where "run_map_ops put rem get s1 ops = Some (s2, snd (spec_map_ops m1 ops))"
    "rep s2 (fst (spec_map_ops m1 ops))"
    using Cons.IH [OF run(2)] by blast
  then show ?case using run(1) spec by (simp add: case_prod_beta)
qed

end

end
