(* ===== verification/Intset.thy ===== *)
theory Intset
  imports Endianconv Interfaces
begin

text \<open>
  \<open>intset.c\<close>: a sorted set of 64 bit integers in one block of memory, each stored in 2, 4 or 8
  bytes, the least width that fits them all.  The block behind the header is the byte buffer
  \<open>contents\<close>; every read and write of it is bounds-checked, \<open>uint32_t\<close> arithmetic wraps, and
  \<open>int\<close> overflow is undefined (\<open>None\<close>).  \<open>intset_rep is xs\<close> is the invariant: the buffer is
  the little-endian array of the strictly sorted list \<open>xs\<close>.
\<close>

section \<open>The code\<close>

record intset =
  encoding :: nat
  is_length :: nat
  contents :: mem

definition intsetValueEncoding :: "int \<Rightarrow> nat" where
  "intsetValueEncoding v =
     (if v < - (2 ^ 31) \<or> v > 2 ^ 31 - 1 then 8
      else if v < - (2 ^ 15) \<or> v > 2 ^ 15 - 1 then 4
      else 2)"

definition intsetGetEncoded :: "intset \<Rightarrow> int \<Rightarrow> nat \<Rightarrow> int option" where
  "intsetGetEncoded is pos enc =
     (if pos < 0 then None
      else if enc = 8 then le_load 8 (nat pos * 8) (contents is)
      else if enc = 4 then le_load 4 (nat pos * 4) (contents is)
      else le_load 2 (nat pos * 2) (contents is))"

definition intsetGetAt :: "intset \<Rightarrow> int \<Rightarrow> int option" where
  "intsetGetAt is pos = intsetGetEncoded is pos (encoding is)"

definition intsetSet :: "intset \<Rightarrow> int \<Rightarrow> int \<Rightarrow> intset option" where
  "intsetSet is pos value =
     (if pos < 0 then None
      else do {
        m \<leftarrow> (if encoding is = 8 then le_store 8 (nat pos * 8) value (contents is)
             else if encoding is = 4 then le_store 4 (nat pos * 4) value (contents is)
             else le_store 2 (nat pos * 2) value (contents is));
        Some (is\<lparr>contents := m\<rparr>) })"

definition intsetNew :: intset where
  "intsetNew = \<lparr>encoding = 2, is_length = 0, contents = []\<rparr>"

definition intsetResize :: "intset \<Rightarrow> nat \<Rightarrow> intset" where
  "intsetResize is len =
     is\<lparr>contents := zrealloc (len * encoding is mod 2 ^ 32) (contents is)\<rparr>"

function search_loop :: "intset \<Rightarrow> int \<Rightarrow> int \<Rightarrow> int \<Rightarrow> int \<Rightarrow> int \<Rightarrow> (int \<times> int \<times> int) option" where
  "search_loop is value lo hi mid cur =
     (if hi \<ge> lo
      then do {
        s \<leftarrow> c_int (lo + hi);
        let mid = s sdiv 2;
        cur \<leftarrow> intsetGetAt is mid;
        if value > cur then search_loop is value (mid + 1) hi mid cur
        else if value < cur then search_loop is value lo (mid - 1) mid cur
        else Some (lo, mid, cur) }
      else Some (lo, mid, cur))"
  by pat_completeness auto
termination
  by (relation "measure (\<lambda>(is, value, lo, hi, mid, cur). nat (hi - lo + 1))")
    (auto dest!: c_int_SomeD simp: c_arith dest: sdiv_2_between)

declare search_loop.simps [simp del]

definition intsetSearch :: "intset \<Rightarrow> int \<Rightarrow> (bool \<times> nat) option" where
  "intsetSearch is value =
     (let lo = 0; hi = to_int32 (int (is_length is) - 1); mid = - 1; cur = - 1;
          loop = do {
            (lo, mid, cur) \<leftarrow> search_loop is value lo hi mid cur;
            if value = cur then Some (True, to_uint32 mid) else Some (False, to_uint32 lo) }
      in if is_length is = 0 then Some (False, 0)
         else do {
           l \<leftarrow> intsetGetAt is (to_int32 (int (is_length is) - 1));
           if value > l then Some (False, is_length is)
           else do {
             f \<leftarrow> intsetGetAt is 0;
             if value < f then Some (False, 0) else loop } })"

primrec upgrade_loop :: "nat \<Rightarrow> int \<Rightarrow> nat \<Rightarrow> intset \<Rightarrow> intset option" where
  "upgrade_loop 0 prepend curenc is = Some is"
| "upgrade_loop (Suc n) prepend curenc is = do {
     v \<leftarrow> intsetGetEncoded is (int n) curenc;
     is \<leftarrow> intsetSet is (int n + prepend) v;
     upgrade_loop n prepend curenc is }"

definition intsetUpgradeAndAdd :: "intset \<Rightarrow> int \<Rightarrow> intset option" where
  "intsetUpgradeAndAdd is value =
     (let curenc = encoding is;
          newenc = intsetValueEncoding value;
          len = to_int32 (int (is_length is));
          prepend = (if value < 0 then 1 else 0);
          is = is\<lparr>encoding := newenc\<rparr>;
          is = intsetResize is ((is_length is + 1) mod 2 ^ 32)
      in if len < 0 then None
         else do {
           is \<leftarrow> upgrade_loop (nat len) prepend curenc is;
           is \<leftarrow> (if prepend = 1 then intsetSet is 0 value
                 else intsetSet is (to_int32 (int (is_length is))) value);
           Some (is\<lparr>is_length := (is_length is + 1) mod 2 ^ 32\<rparr>) })"

definition intsetMoveTail :: "intset \<Rightarrow> nat \<Rightarrow> nat \<Rightarrow> intset option" where
  "intsetMoveTail is from to =
     (let bytes = to_uint32 (int (is_length is) - int from);
          w = (if encoding is = 8 then 8 else if encoding is = 4 then 4 else 2)
      in do {
           m \<leftarrow> mem_move (to * w) (from * w) (bytes * w mod 2 ^ 32) (contents is);
           Some (is\<lparr>contents := m\<rparr>) })"

definition intsetAdd :: "intset \<Rightarrow> int \<Rightarrow> (intset \<times> bool) option" where
  "intsetAdd is value =
     (if intsetValueEncoding value > encoding is
      then do { is \<leftarrow> intsetUpgradeAndAdd is value; Some (is, True) }
      else do {
        (found, pos) \<leftarrow> intsetSearch is value;
        if found then Some (is, False)
        else do {
          let is = intsetResize is ((is_length is + 1) mod 2 ^ 32);
          is \<leftarrow> (if pos < is_length is then intsetMoveTail is pos ((pos + 1) mod 2 ^ 32)
                else Some is);
          is \<leftarrow> intsetSet is (to_int32 (int pos)) value;
          Some (is\<lparr>is_length := (is_length is + 1) mod 2 ^ 32\<rparr>, True) } })"

definition intsetRemove :: "intset \<Rightarrow> int \<Rightarrow> (intset \<times> bool) option" where
  "intsetRemove is value =
     (if intsetValueEncoding value \<le> encoding is
      then do {
        (found, pos) \<leftarrow> intsetSearch is value;
        if found
        then do {
          let len = is_length is;
          is \<leftarrow> (if pos < to_uint32 (int len - 1) then intsetMoveTail is ((pos + 1) mod 2 ^ 32) pos
                else Some is);
          let is = intsetResize is (to_uint32 (int len - 1));
          Some (is\<lparr>is_length := to_uint32 (int len - 1)\<rparr>, True) }
        else Some (is, False) }
      else Some (is, False))"

definition intsetFind :: "intset \<Rightarrow> int \<Rightarrow> bool option" where
  "intsetFind is value =
     (if intsetValueEncoding value \<le> encoding is
      then do { (found, pos) \<leftarrow> intsetSearch is value; Some found }
      else Some False)"

text \<open>\<open>rand()\<close> is the argument \<open>r\<close>; the remainder by a zero length is undefined.\<close>

definition intsetRandom :: "nat \<Rightarrow> intset \<Rightarrow> int option" where
  "intsetRandom r is =
     (if is_length is = 0 then None else intsetGetAt is (to_int32 (int (r mod is_length is))))"

definition intsetGet :: "intset \<Rightarrow> nat \<Rightarrow> int option option" where
  "intsetGet is pos =
     (if pos < is_length is
      then do { v \<leftarrow> intsetGetAt is (to_int32 (int pos)); Some (Some v) }
      else Some None)"

definition intsetLen :: "intset \<Rightarrow> nat" where
  "intsetLen is = is_length is"

definition intsetBlobLen :: "intset \<Rightarrow> nat" where
  "intsetBlobLen is = 8 + is_length is * encoding is mod 2 ^ 32"

section \<open>The invariant\<close>

definition intset_rep :: "intset \<Rightarrow> int list \<Rightarrow> bool" where
  "intset_rep is xs \<longleftrightarrow>
     encoding is \<in> {2, 4, 8} \<and>
     is_length is = length xs \<and>
     contents is = le_array (encoding is) xs \<and>
     (\<forall>x \<in> set xs. in_sbytes (encoding is) x) \<and>
     sorted_wrt (<) xs \<and>
     length xs * encoding is < 2 ^ 32"

lemma intset_repD:
  assumes "intset_rep is xs"
  shows "encoding is \<in> {2, 4, 8}" "is_length is = length xs"
    "contents is = le_array (encoding is) xs" "\<And>x. x \<in> set xs \<Longrightarrow> in_sbytes (encoding is) x"
    "sorted_wrt (<) xs" "length xs * encoding is < 2 ^ 32"
  using assms by (auto simp: intset_rep_def)

lemma intset_rep_New: "intset_rep intsetNew []"
  by (simp add: intset_rep_def intsetNew_def)

lemma intsetValueEncoding_cases: "intsetValueEncoding v \<in> {2, 4, 8}"
  by (simp add: intsetValueEncoding_def)

text \<open>The width chosen for a value is the least that holds it.\<close>

lemma in_sbytes_eval:
  "in_sbytes 2 v \<longleftrightarrow> - 32768 \<le> v \<and> v < 32768"
  "in_sbytes 4 v \<longleftrightarrow> - 2147483648 \<le> v \<and> v < 2147483648"
  "in_sbytes 8 v \<longleftrightarrow> - 9223372036854775808 \<le> v \<and> v < 9223372036854775808"
  by (simp_all add: in_sbytes_def)

lemma intsetValueEncoding_le_iff:
  "\<lbrakk>n \<in> {2, 4, 8}; in_sbytes 8 v\<rbrakk> \<Longrightarrow> intsetValueEncoding v \<le> n \<longleftrightarrow> in_sbytes n v"
  by (auto simp: intsetValueEncoding_def in_sbytes_eval)

lemma in_sbytes_mono: "\<lbrakk>m \<le> n; m \<in> {2, 4, 8}; n \<in> {2, 4, 8}; in_sbytes m v\<rbrakk> \<Longrightarrow> in_sbytes n v"
  by (auto simp: in_sbytes_eval)

text \<open>Strictly sorted 16 bit values are at most 65536, so positions always fit an \<open>int\<close>.\<close>

lemma strict_sorted_distinct: "sorted_wrt (<) (xs :: int list) \<Longrightarrow> distinct xs"
  by (simp add: strict_sorted_iff)

lemma intset_rep_length:
  assumes "intset_rep is xs"
  shows "length xs \<le> 2 ^ 30"
proof (cases "encoding is = 2")
  case True
  have "set xs \<subseteq> {- 32768..<32768}"
    using assms True by (auto simp: intset_rep_def in_sbytes_eval)
  then have "card (set xs) \<le> card {- 32768..<32768 :: int}" by (intro card_mono) auto
  moreover have "card (set xs) = length xs"
    using intset_repD(5) [OF assms] by (simp add: distinct_card strict_sorted_distinct)
  ultimately show ?thesis by simp
next
  case False
  then show ?thesis using assms by (auto simp: intset_rep_def)
qed

section \<open>Element access\<close>

lemma intsetGetEncoded_at:
  assumes "contents is = le_array w xs @ rest" "w \<in> {2, 4, 8}"
    "i < length xs" "\<forall>x \<in> set xs. in_sbytes w x"
  shows "intsetGetEncoded is (int i) w = Some (xs ! i)"
proof -
  have "le_load w (i * w) (contents is) = Some (xs ! i)"
    using assms mem_read_le_array [OF assms(3), of w rest] by (auto simp: le_load_def)
  then show ?thesis using assms(2) by (auto simp: intsetGetEncoded_def)
qed

lemma intsetGetAt_rep:
  assumes "intset_rep is xs" "i < length xs"
  shows "intsetGetAt is (int i) = Some (xs ! i)"
  using intsetGetEncoded_at [of "is" "encoding is" xs "[]" i] assms
  by (simp add: intsetGetAt_def intset_rep_def)

lemma intsetGetAt_rep_int:
  assumes "intset_rep is xs" "0 \<le> i" "i < int (length xs)"
  shows "intsetGetAt is i = Some (xs ! nat i)"
  using intsetGetAt_rep [OF assms(1), of "nat i"] assms(2,3) by simp

lemma intsetSet_at:
  assumes "contents is = a @ b @ c" "encoding is \<in> {2, 4, 8}"
    "length a = i * encoding is" "length b = encoding is"
  shows "intsetSet is (int i) v = Some (is\<lparr>contents := a @ le_encode (encoding is) v @ c\<rparr>)"
proof -
  have "le_store (encoding is) (i * encoding is) v (contents is)
        = Some (a @ le_encode (encoding is) v @ c)"
    using assms by (simp add: le_store_def mem_ops)
  then show ?thesis using assms(2) by (auto simp: intsetSet_def)
qed

section \<open>Binary search\<close>

lemma sorted_wrt_nth_mono: "\<lbrakk>sorted_wrt (<) xs; i \<le> j; j < length xs\<rbrakk> \<Longrightarrow> xs ! i \<le> (xs ! j :: int)"
  using sorted_wrt_nth_less [of "(<)" xs i j] by (cases "i = j") auto

text \<open>
  The loop's invariant: what lies left of \<open>lo\<close> is smaller than the value, what lies right of
  \<open>hi\<close> is larger, and while nothing has been read yet there is something to read.
\<close>

lemma search_loop_correct:
  assumes "intset_rep is xs" "0 \<le> lo" "hi < int (length xs)" "lo \<le> hi + 1"
    "\<forall>i < nat lo. xs ! i < v" "\<forall>i < length xs. hi < int i \<longrightarrow> v < xs ! i"
    "hi < lo \<longrightarrow> cur \<noteq> v"
  shows "\<exists>lo' mid' cur'. search_loop is v lo hi mid cur = Some (lo', mid', cur') \<and>
     (if cur' = v then 0 \<le> mid' \<and> mid' < int (length xs) \<and> xs ! nat mid' = v
      else 0 \<le> lo' \<and> lo' \<le> int (length xs) \<and> (\<forall>i < nat lo'. xs ! i < v) \<and>
           (\<forall>i < length xs. lo' \<le> int i \<longrightarrow> v < xs ! i))"
  using assms
proof (induction "is" v lo hi mid cur rule: search_loop.induct)
  case (1 st v lo hi mid cur)
  show ?case
  proof (cases "lo \<le> hi")
    case False
    then have "lo = hi + 1" using "1.prems"(4) by simp
    then show ?thesis using False "1.prems"
      by (subst search_loop.simps) auto
  next
    case True
    define m where "m = (lo + hi) div 2"
    have m: "lo \<le> m" "m \<le> hi" "0 \<le> m" using True "1.prems"(2) by (auto simp: m_def)
    have s: "c_int (lo + hi) = Some (lo + hi)"
      using intset_rep_length [OF "1.prems"(1)] True "1.prems"(2,3) by (intro c_int_in_range) auto
    have d: "(lo + hi) sdiv 2 = m"
      using True "1.prems"(2) by (simp add: m_def sdiv_2_nonneg)
    have c: "intsetGetAt st m = Some (xs ! nat m)"
      using intsetGetAt_rep_int [OF "1.prems"(1)] m "1.prems"(3) by simp
    have srt: "sorted_wrt (<) xs" by (rule intset_repD(5) [OF "1.prems"(1)])
    consider (up) "v > xs ! nat m" | (down) "v < xs ! nat m" | (hit) "v = xs ! nat m" by linarith
    then show ?thesis
    proof cases
      case up
      have "xs ! i < v" if i: "i < nat (m + 1)" for i
      proof -
        have "i \<le> nat m" "nat m < length xs" using i m "1.prems"(3) by arith+
        with sorted_wrt_nth_mono [OF srt, of i "nat m"] up show ?thesis by simp
      qed
      then have "\<exists>lo' mid' cur'. search_loop st v (m + 1) hi m (xs ! nat m) = Some (lo', mid', cur') \<and>
         (if cur' = v then 0 \<le> mid' \<and> mid' < int (length xs) \<and> xs ! nat mid' = v
          else 0 \<le> lo' \<and> lo' \<le> int (length xs) \<and> (\<forall>i < nat lo'. xs ! i < v) \<and>
               (\<forall>i < length xs. lo' \<le> int i \<longrightarrow> v < xs ! i))"
        using "1.prems" m by (intro "1.IH"(1) [OF True s d [symmetric] c up]) (use up in \<open>auto simp: less_imp_neq [OF up]\<close>)
      then show ?thesis using True up by (subst search_loop.simps) (simp add: s d c)
    next
      case down
      have "v < xs ! i" if i: "i < length xs" "m - 1 < int i" for i
      proof -
        have "nat m \<le> i" using i m by arith
        with sorted_wrt_nth_mono [OF srt, of "nat m" i] i down show ?thesis by simp
      qed
      then have "\<exists>lo' mid' cur'. search_loop st v lo (m - 1) m (xs ! nat m) = Some (lo', mid', cur') \<and>
         (if cur' = v then 0 \<le> mid' \<and> mid' < int (length xs) \<and> xs ! nat mid' = v
          else 0 \<le> lo' \<and> lo' \<le> int (length xs) \<and> (\<forall>i < nat lo'. xs ! i < v) \<and>
               (\<forall>i < length xs. lo' \<le> int i \<longrightarrow> v < xs ! i))"
        using "1.prems" m by (intro "1.IH"(2) [OF True s d [symmetric] c less_not_sym [OF down] down]) (use down in \<open>auto simp: less_imp_neq [OF down, symmetric]\<close>)
      then show ?thesis using True down by (subst search_loop.simps) (simp add: s d c)
    next
      case hit
      then show ?thesis using True m "1.prems"(3) by (subst search_loop.simps) (simp add: s d c)
    qed
  qed
qed

text \<open>The position of a value: how many elements are smaller.\<close>

definition ins_pos :: "int \<Rightarrow> int list \<Rightarrow> nat" where
  "ins_pos v xs = length (takeWhile (\<lambda>x. x < v) xs)"

lemma ins_pos_le: "ins_pos v xs \<le> length xs"
  by (simp add: ins_pos_def length_takeWhile_le)

lemma ins_pos_eqI:
  assumes "p \<le> length xs" "\<forall>i < p. xs ! i < v" "p < length xs \<Longrightarrow> v \<le> xs ! p"
  shows "ins_pos v xs = p"
proof -
  have "takeWhile (\<lambda>x. x < v) xs = take p xs"
    using assms by (intro takeWhile_eq_take_P_nth) auto
  then show ?thesis using assms(1) by (simp add: ins_pos_def)
qed

lemma ins_pos_nth: "ins_pos v xs < length xs \<Longrightarrow> v \<le> xs ! ins_pos v xs"
  unfolding ins_pos_def by (metis linorder_not_less nth_length_takeWhile)

lemma ins_pos_less: "i < ins_pos v xs \<Longrightarrow> xs ! i < v"
  unfolding ins_pos_def by (metis nth_mem set_takeWhileD takeWhile_nth)

lemma ins_pos_hit:
  assumes "sorted_wrt (<) xs" "v \<in> set xs"
  shows "ins_pos v xs < length xs \<and> xs ! ins_pos v xs = v"
proof -
  obtain j where j: "j < length xs" "xs ! j = v" using assms(2) by (auto simp: in_set_conv_nth)
  have "ins_pos v xs = j"
    using j sorted_wrt_nth_less [OF assms(1)] by (intro ins_pos_eqI) auto
  with j show ?thesis by simp
qed

lemma sorted_wrt_insert_at:
  assumes "sorted_wrt (<) xs" "v \<notin> set xs"
  defines "p \<equiv> ins_pos v xs"
  shows "sorted_wrt (<) (take p xs @ v # drop p xs)"
proof -
  have l: "x < v" if "x \<in> set (take p xs)" for x
    using that ins_pos_less by (auto simp: p_def in_set_conv_nth)
  have "v < x" if "x \<in> set (drop p xs)" for x
  proof -
    obtain i where i: "i < length xs - p" "x = xs ! (p + i)"
      using \<open>x \<in> set (drop p xs)\<close> by (auto simp: in_set_conv_nth)
    then have "v \<le> xs ! p" using ins_pos_nth [of v xs] by (simp add: p_def)
    moreover have "xs ! p \<le> x" using i sorted_wrt_nth_mono [OF assms(1), of p "p + i"] by simp
    moreover have "v \<noteq> x" using i assms(2) by auto
    ultimately show ?thesis by simp
  qed
  moreover have "sorted_wrt (<) (take p xs @ drop p xs)" using assms(1) by simp
  ultimately show ?thesis using l by (fastforce simp: sorted_wrt_append simp del: append_take_drop_id)
qed

lemma set_insert_at: "set (take p xs @ v # drop p xs) = insert v (set xs)"
  by (metis Un_insert_right append_take_drop_id list.set(2) set_append)

theorem intsetSearch_correct:
  assumes "intset_rep is xs"
  shows "intsetSearch is v = Some (v \<in> set xs, ins_pos v xs)"
proof (cases "xs = []")
  case True
  then show ?thesis using assms by (simp add: intsetSearch_def intset_rep_def ins_pos_def)
next
  case False
  have srt: "sorted_wrt (<) xs" and len: "is_length is = length xs"
    using assms by (auto dest: intset_repD)
  have small: "length xs \<le> 2 ^ 30" by (rule intset_rep_length [OF assms])
  then have idx: "to_int32 (int (length xs) - 1) = int (length xs) - 1"
    by (intro to_int32_in_range) auto
  have l: "intsetGetAt is (int (length xs) - 1) = Some (xs ! (length xs - 1))"
    using intsetGetAt_rep_int [OF assms, of "int (length xs) - 1"] False
    by (cases xs) (simp_all add: nat_diff_distrib)
  have f: "intsetGetAt is 0 = Some (xs ! 0)"
    using intsetGetAt_rep [OF assms, of 0] False by simp
  consider (above) "v > xs ! (length xs - 1)" | (below) "v < xs ! 0"
    | (inside) "xs ! 0 \<le> v" "v \<le> xs ! (length xs - 1)" by linarith
  then show ?thesis
  proof cases
    case above
    have lt: "xs ! i < v" if i: "i < length xs" for i
    proof -
      have "i \<le> length xs - 1" "length xs - 1 < length xs" using i by arith+
      with sorted_wrt_nth_mono [OF srt, of i "length xs - 1"] above show ?thesis by simp
    qed
    then have "ins_pos v xs = length xs" by (intro ins_pos_eqI) auto
    moreover have "v \<notin> set xs" using lt by (auto simp: in_set_conv_nth)
    ultimately show ?thesis using above False by (simp add: intsetSearch_def len idx l)
  next
    case below
    have gt: "v < xs ! i" if "i < length xs" for i
      using sorted_wrt_nth_mono [OF srt, of 0 i] that below False by auto
    then have "ins_pos v xs = 0" using False by (intro ins_pos_eqI) (auto simp: less_imp_le)
    moreover have "v \<notin> set xs" using gt by (force simp: in_set_conv_nth)
    moreover have "\<not> xs ! (length xs - 1) < v" using gt [of "length xs - 1"] False by simp
    ultimately show ?thesis using below False by (simp add: intsetSearch_def len idx l f)
  next
    case inside
    obtain lo' mid' cur' where
      run: "search_loop is v 0 (int (length xs) - 1) (- 1) (- 1) = Some (lo', mid', cur')" and
      res: "if cur' = v then 0 \<le> mid' \<and> mid' < int (length xs) \<and> xs ! nat mid' = v
            else 0 \<le> lo' \<and> lo' \<le> int (length xs) \<and> (\<forall>i < nat lo'. xs ! i < v) \<and>
                 (\<forall>i < length xs. lo' \<le> int i \<longrightarrow> v < xs ! i)"
      using search_loop_correct [OF assms, of 0 "int (length xs) - 1" v "- 1" "- 1"] False
      by force
    have unfolded: "intsetSearch is v =
        (if v = cur' then Some (True, to_uint32 mid') else Some (False, to_uint32 lo'))"
      using inside False by (simp add: intsetSearch_def len idx l f run)
    show ?thesis
    proof (cases "cur' = v")
      case True
      then have m: "0 \<le> mid'" "nat mid' < length xs" "xs ! nat mid' = v" using res by auto
      have "ins_pos v xs = nat mid'"
        using m sorted_wrt_nth_less [OF srt] by (intro ins_pos_eqI) auto
      moreover have "to_uint32 mid' = nat mid'" using m small by (intro to_uint32_in_range) auto
      ultimately show ?thesis using m True unfolded nth_mem [OF m(2)] by auto
    next
      case ne: False
      then have m: "0 \<le> lo'" "nat lo' \<le> length xs" "\<forall>i < nat lo'. xs ! i < v"
          "\<And>i. i < length xs \<Longrightarrow> lo' \<le> int i \<Longrightarrow> v < xs ! i" using res by auto
      have "ins_pos v xs = nat lo'" using m by (intro ins_pos_eqI) (auto simp: less_imp_le)
      moreover have "to_uint32 lo' = nat lo'" using m small by (intro to_uint32_in_range) auto
      moreover have "xs ! i \<noteq> v" if "i < length xs" for i
        using m(3,4) that by (cases "i < nat lo'") fastforce+
      then have "v \<notin> set xs" by (auto simp: in_set_conv_nth)
      ultimately show ?thesis using ne unfolded by auto
    qed
  qed
qed

section \<open>Insertion without an upgrade\<close>

lemma le_array_take_drop: "le_array w xs = le_array w (take p xs) @ le_array w (drop p xs)"
  by (metis append_take_drop_id le_array_append)

lemma resized_contents:
  assumes "intset_rep is xs" "(length xs + 1) * encoding is < 2 ^ 32"
  shows "intsetResize is ((is_length is + 1) mod 2 ^ 32) =
    is\<lparr>contents := le_array (encoding is) xs @ replicate (encoding is) 0\<rparr>"
proof -
  have "length xs + 1 < 2 ^ 32" using intset_rep_length [OF assms(1)] by simp
  moreover have "(length xs + 1) * encoding is - length xs * encoding is = encoding is" by simp
  ultimately show ?thesis
    using assms intset_repD(2,3) [OF assms(1)]
    by (simp add: intsetResize_def zrealloc_grow del: mult_Suc)
qed

lemma intsetMoveTail_eval:
  assumes "encoding is \<in> {2, 4, 8}" "from \<le> is_length is"
    "is_length is * encoding is < 2 ^ 32" "is_length is < 2 ^ 31"
  shows "intsetMoveTail is from to =
    do { m \<leftarrow> mem_move (to * encoding is) (from * encoding is) ((is_length is - from) * encoding is)
              (contents is);
         Some (is\<lparr>contents := m\<rparr>) }"
proof -
  have b: "to_uint32 (int (is_length is) - int from) = is_length is - from"
    using assms(2,4) by (simp add: to_uint32_def flip: of_nat_diff)
  have "(is_length is - from) * encoding is \<le> is_length is * encoding is" by simp
  also note assms(3)
  finally have n: "(is_length is - from) * encoding is mod 2 ^ 32 = (is_length is - from) * encoding is"
    by simp
  have w: "(if encoding is = 8 then 8 else if encoding is = 4 then 4 else 2) = encoding is"
    using assms(1) by auto
  show ?thesis unfolding intsetMoveTail_def Let_def b w n by (rule refl)
qed

lemma intsetMoveTail_up:
  assumes "contents is = a @ b @ z" "encoding is \<in> {2, 4, 8}" "length z = encoding is"
    "length a = p * encoding is" "length b = (is_length is - p) * encoding is"
    "p \<le> is_length is" "is_length is * encoding is < 2 ^ 32" "is_length is < 2 ^ 31"
  shows "\<exists>x. length x = encoding is \<and>
    intsetMoveTail is p ((p + 1) mod 2 ^ 32) = Some (is\<lparr>contents := a @ x @ b\<rparr>)"
proof -
  have "mem_move ((p + 1) * encoding is) (p * encoding is) (length b) (contents is)
        = Some (a @ take (encoding is) (b @ z) @ b)"
    using mem_move_up [OF assms(3), of a b] assms(1,4) by (simp add: add.commute)
  moreover have "(p + 1) mod 2 ^ 32 = p + 1" using assms(6,8) by simp
  ultimately show ?thesis
    using assms(3,5) intsetMoveTail_eval [OF assms(2,6,7,8)]
    by (intro exI [of _ "take (encoding is) (b @ z)"]) (simp del: mult_Suc take_append)
qed

lemma intsetAdd_insert:
  assumes rep: "intset_rep is xs" and fits: "intsetValueEncoding v \<le> encoding is"
    and v: "in_sbytes 8 v" and new: "v \<notin> set xs"
    and room: "(length xs + 1) * encoding is < 2 ^ 32"
  defines "p \<equiv> ins_pos v xs"
  shows "\<exists>is'. intsetAdd is v = Some (is', True) \<and> encoding is' = encoding is \<and>
    intset_rep is' (take p xs @ v # drop p xs)"
proof -
  define w where "w = encoding is"
  note r = intset_repD [OF rep]
  have small: "length xs \<le> 2 ^ 30" by (rule intset_rep_length [OF rep])
  have p: "p \<le> length xs" by (simp add: p_def ins_pos_le)
  define a b where "a = le_array w (take p xs)" and "b = le_array w (drop p xs)"
  have la: "length a = p * w" and lb: "length b = (length xs - p) * w"
    using p by (simp_all add: a_def b_def)
  define grown where "grown = is\<lparr>contents := a @ b @ replicate w 0\<rparr>"
  have grown: "intsetResize is ((is_length is + 1) mod 2 ^ 32) = grown"
    using resized_contents [OF rep room] le_array_take_drop [of w xs p]
    by (simp add: grown_def a_def b_def w_def)
  have grown': "intsetResize is (Suc (length xs)) = grown" using grown small r(2) by simp
  have moved: "\<exists>x. length x = w \<and>
     (if p < is_length grown then intsetMoveTail grown p ((p + 1) mod 2 ^ 32) else Some grown)
     = Some (is\<lparr>contents := a @ x @ b\<rparr>)"
  proof (cases "p < length xs")
    case True
    then show ?thesis
      using intsetMoveTail_up [of grown a b "replicate w 0" p] r la lb small
      by (simp add: grown_def w_def)
  next
    case False
    then show ?thesis using p r(2)
      by (intro exI [of _ "replicate w 0"]) (simp add: grown_def b_def)
  qed
  then obtain x where x: "length x = w"
    "(if p < is_length grown then intsetMoveTail grown p ((p + 1) mod 2 ^ 32) else Some grown)
     = Some (is\<lparr>contents := a @ x @ b\<rparr>)" by blast
  have idx: "to_int32 (int p) = int p" using p small by (intro to_int32_in_range) auto
  have "intsetSet (is\<lparr>contents := a @ x @ b\<rparr>) (int p) v
        = Some (is\<lparr>contents := a @ le_encode w v @ b\<rparr>)"
    using intsetSet_at [of "is\<lparr>contents := a @ x @ b\<rparr>" a x b p v] r la x(1) by (simp add: w_def)
  moreover have "intsetSearch is v = Some (False, p)"
    using intsetSearch_correct [OF rep] new by (simp add: p_def)
  ultimately have run: "intsetAdd is v =
      Some (is\<lparr>contents := a @ le_encode w v @ b, is_length := length xs + 1\<rparr>, True)"
    using fits x(2) small r(2) by (simp add: intsetAdd_def grown' idx Let_def)
  have "in_sbytes w v" using intsetValueEncoding_le_iff [of w v] fits v r(1) by (simp add: w_def)
  then have "intset_rep (is\<lparr>contents := a @ le_encode w v @ b, is_length := length xs + 1\<rparr>)
      (take p xs @ v # drop p xs)"
    unfolding intset_rep_def
    using r room sorted_wrt_insert_at [OF r(5) new] p
    by (auto simp: a_def b_def w_def p_def dest: in_set_takeD in_set_dropD)
  then show ?thesis using run by (intro exI) auto
qed

section \<open>Upgrading the encoding\<close>

text \<open>
  The loop widens the elements in place, from the last to the first.  Before the step for \<open>n\<close>
  elements the buffer holds the first \<open>n\<close> in the old width, free bytes, and the others in the
  new width; the free bytes suffice because the new width is larger.
\<close>

lemma upgrade_loop_correct:
  assumes "contents is = le_array cur (take n xs) @ junk @ le_array new (drop n xs) @ tail"
    "encoding is = new" "cur \<in> {2, 4, 8}" "new \<in> {2, 4, 8}" "cur \<le> new" "n \<le> length xs"
    "n * cur + length junk = (n + p) * new" "\<forall>x \<in> set xs. in_sbytes cur x"
  shows "\<exists>junk'. length junk' = p * new \<and>
    upgrade_loop n (int p) cur is = Some (is\<lparr>contents := junk' @ le_array new xs @ tail\<rparr>)"
  using assms
proof (induction n arbitrary: "is" junk)
  case 0
  then show ?case by (intro exI [of _ junk]) simp
next
  case (Suc n)
  define u where "u = le_array cur (take (Suc n) xs) @ junk"
  have lu: "length u = (n + p) * new + new" using Suc.prems(6,7) by (simp add: u_def algebra_simps)
  have get: "intsetGetEncoded is (int n) cur = Some (xs ! n)"
    using intsetGetEncoded_at [OF Suc.prems(1,3), of n] Suc.prems(6,8)
    by (auto dest: in_set_takeD)
  define u' where "u' = take ((n + p) * new) u"
  have "take (n * cur) u' = take (n * cur) u"
  proof -
    have "n * cur \<le> (n + p) * new" using Suc.prems(5) by (simp add: mult_le_mono)
    then show ?thesis by (simp add: u'_def min_def)
  qed
  also have "\<dots> = le_array cur (take n xs)"
    using Suc.prems(6) take_le_array [of n cur "take (Suc n) xs"]
    by (simp add: u_def min_def)
  finally have head: "u' = le_array cur (take n xs) @ drop (n * cur) u'"
    by (metis append_take_drop_id)
  have split: "contents is = u' @ drop ((n + p) * new) u @ le_array new (drop (Suc n) xs) @ tail"
  proof -
    have "contents is = u @ le_array new (drop (Suc n) xs) @ tail"
      using Suc.prems(1) by (simp add: u_def)
    moreover have "u = u' @ drop ((n + p) * new) u" by (simp add: u'_def)
    ultimately show ?thesis by (metis append.assoc)
  qed
  define is1 where "is1 = is\<lparr>contents := u' @ le_encode new (xs ! n) @ le_array new (drop (Suc n) xs) @ tail\<rparr>"
  have set: "intsetSet is (int (n + p)) (xs ! n) = Some is1"
    using intsetSet_at [OF split, of "n + p" "xs ! n"] Suc.prems(2,4) lu
    by (simp add: is1_def u'_def)
  have "contents is1 = le_array cur (take n xs) @ drop (n * cur) u' @ le_array new (drop n xs) @ tail"
    using Suc.prems(6) head by (simp add: is1_def flip: Cons_nth_drop_Suc)
  moreover have "n * cur + length (drop (n * cur) u') = (n + p) * new"
    using lu Suc.prems(5) by (simp add: u'_def mult_le_mono)
  ultimately obtain junk' where "length junk' = p * new"
    "upgrade_loop n (int p) cur is1 = Some (is1\<lparr>contents := junk' @ le_array new xs @ tail\<rparr>)"
    using Suc.IH [of is1 "drop (n * cur) u'"] Suc.prems by (auto simp: is1_def)
  then show ?case using get set by (auto simp: is1_def)
qed

text \<open>A value too wide for the current encoding lies below or above every element.\<close>

lemma in_sbytes_outside:
  assumes "n \<in> {2, 4, 8}" "\<not> in_sbytes n v" "in_sbytes n x"
  shows "if v < 0 then v < x else x < v"
  using assms by (auto simp: in_sbytes_eval)

lemma intsetAdd_upgrade:
  assumes rep: "intset_rep is xs" and wide: "encoding is < intsetValueEncoding v"
    and v: "in_sbytes 8 v" and room: "(length xs + 1) * intsetValueEncoding v < 2 ^ 32"
  defines "ys \<equiv> (if v < 0 then v # xs else xs @ [v])"
  shows "\<exists>is'. intsetAdd is v = Some (is', True) \<and> encoding is' = intsetValueEncoding v \<and>
    intset_rep is' ys"
proof -
  define cur new p where "cur = encoding is" and "new = intsetValueEncoding v"
    and "p = (if v < 0 then 1 else 0 :: nat)"
  note r = intset_repD [OF rep]
  have small: "length xs \<le> 2 ^ 30" by (rule intset_rep_length [OF rep])
  have new: "new \<in> {2, 4, 8}" "cur < new" using wide intsetValueEncoding_cases
    by (auto simp: new_def cur_def)
  define n where "n = length xs"
  define free where "free = replicate ((n + p) * new - n * cur) (0 :: byte)"
  define tail where "tail = replicate ((1 - p) * new) (0 :: byte)"
  have "n * cur \<le> n * new" using new by simp
  then have le: "n * cur \<le> (n + p) * new" by (simp add: trans_le_add1 algebra_simps)
  have "(n + 1) * new - n * cur = ((n + p) * new - n * cur) + (1 - p) * new"
    using le by (auto simp: p_def algebra_simps)
  then have "replicate ((n + 1) * new - n * cur) 0 = free @ tail"
    by (simp add: free_def tail_def replicate_add del: mult_Suc)
  moreover have "n * cur \<le> (n + 1) * new" using new by (intro mult_le_mono) auto
  ultimately have grown: "zrealloc ((n + 1) * new mod 2 ^ 32) (contents is)
      = le_array cur xs @ free @ tail"
    using room r(3) by (simp add: zrealloc_grow n_def new_def cur_def del: mult_Suc)
  define is1 where "is1 = is\<lparr>encoding := new, contents := le_array cur xs @ free @ tail\<rparr>"
  have resize: "intsetResize (is\<lparr>encoding := new\<rparr>) ((is_length is + 1) mod 2 ^ 32) = is1"
    using grown small r(2) by (simp add: intsetResize_def is1_def n_def)
  have len: "to_int32 (int n) = int n" using small by (intro to_int32_in_range) (auto simp: n_def)
  have "\<exists>junk'. length junk' = p * new \<and> upgrade_loop n (int p) cur is1
      = Some (is1\<lparr>contents := junk' @ le_array new xs @ tail\<rparr>)"
  proof (rule upgrade_loop_correct)
    show "contents is1 = le_array cur (take n xs) @ free @ le_array new (drop n xs) @ tail"
      by (simp add: is1_def n_def)
    show "n * cur + length free = (n + p) * new" using le by (simp add: free_def)
    show "cur \<in> {2, 4, 8}" using r(1) by (simp add: cur_def)
  qed (use new r in \<open>auto simp: is1_def n_def cur_def\<close>)
  then obtain junk' where junk': "length junk' = p * new" and
    loop: "upgrade_loop n (int p) cur is1 = Some (is1\<lparr>contents := junk' @ le_array new xs @ tail\<rparr>)"
    by blast
  define is2 where "is2 = is\<lparr>encoding := new, contents := le_array new ys, is_length := n + 1\<rparr>"
  have run: "intsetAdd is v = Some (is2, True)"
  proof (cases "v < 0")
    case True
    have "intsetSet (is1\<lparr>contents := junk' @ le_array new xs @ tail\<rparr>) 0 v
        = Some (is1\<lparr>contents := le_encode new v @ le_array new xs @ tail\<rparr>)"
      using intsetSet_at [of "is1\<lparr>contents := junk' @ le_array new xs @ tail\<rparr>" "[]" junk' "le_array new xs @ tail" 0 v]
        new junk' True by (simp add: is1_def p_def)
    then show ?thesis
      using wide True loop len resize small r(2)
      by (simp add: intsetAdd_def intsetUpgradeAndAdd_def Let_def n_def is1_def is2_def ys_def
          p_def tail_def flip: new_def cur_def)
  next
    case False
    have "intsetSet (is1\<lparr>contents := le_array new xs @ tail\<rparr>) (int n) v
        = Some (is1\<lparr>contents := le_array new xs @ le_encode new v\<rparr>)"
      using intsetSet_at [of "is1\<lparr>contents := le_array new xs @ tail\<rparr>" "le_array new xs" tail "[]" n v]
        new False by (simp add: is1_def p_def n_def tail_def)
    then show ?thesis
      using wide False loop len resize small r(2) junk'
      by (simp add: intsetAdd_def intsetUpgradeAndAdd_def Let_def n_def is1_def is2_def ys_def
          p_def flip: new_def cur_def)
  qed
  have nv: "in_sbytes new v" using intsetValueEncoding_le_iff [OF new(1) v] by (simp add: new_def)
  have nc: "\<not> in_sbytes cur v" using intsetValueEncoding_le_iff [OF _ v, of cur] r(1) wide
    by (auto simp: cur_def)
  have wider: "in_sbytes new x" if "x \<in> set xs" for x
    using in_sbytes_mono [of cur new x] r(1,4) that new by (auto simp: cur_def)
  have outside: "if v < 0 then v < x else x < v" if "x \<in> set xs" for x
    using in_sbytes_outside [OF _ nc] r(1,4) that by (auto simp: cur_def)
  have "intset_rep is2 ys"
    unfolding intset_rep_def using new nv wider outside r(5) room
    by (auto simp: is2_def ys_def n_def new_def sorted_wrt_append)
  then show ?thesis using run by (intro exI) (auto simp: is2_def new_def)
qed

section \<open>Addition, removal and lookup\<close>

lemma intsetAdd_rep:
  assumes "intset_rep is xs" "in_sbytes 8 v"
    "(length xs + 1) * max (encoding is) (intsetValueEncoding v) < 2 ^ 32"
  shows "\<exists>is' ys. intsetAdd is v = Some (is', v \<notin> set xs) \<and> intset_rep is' ys \<and>
    set ys = insert v (set xs) \<and> encoding is' = max (encoding is) (intsetValueEncoding v)"
proof (cases "encoding is < intsetValueEncoding v")
  case True
  then have "\<not> in_sbytes (encoding is) v"
    using intsetValueEncoding_le_iff [of "encoding is" v] intset_repD(1) [OF assms(1)] assms(2)
    by simp
  then have "v \<notin> set xs" using intset_repD(4) [OF assms(1)] by blast
  moreover have "max (encoding is) (intsetValueEncoding v) = intsetValueEncoding v"
    using True by simp
  moreover have "set (if v < 0 then v # xs else xs @ [v]) = insert v (set xs)" by simp
  ultimately show ?thesis
    using intsetAdd_upgrade [OF assms(1) True assms(2)] assms(3) by auto
next
  case False
  then have m: "max (encoding is) (intsetValueEncoding v) = encoding is" by simp
  show ?thesis
  proof (cases "v \<in> set xs")
    case True
    then show ?thesis using assms(1) False intsetSearch_correct [OF assms(1), of v]
      by (auto simp: intsetAdd_def m insert_absorb)
  next
    case new: False
    then show ?thesis
      using intsetAdd_insert [OF assms(1) _ assms(2) new] False assms(3) new
        set_insert_at [of "ins_pos v xs" xs v]
      unfolding m by (auto simp del: set_append)
  qed
qed

text \<open>
  C23.  Adding a 64 bit integer to a well-formed intset stays in bounds, answers whether the
  value was new, and yields a well-formed intset of exactly the old elements and the value, in
  the larger of the old width and the value's; provided the widened array still fits the
  32 bit size computation.
\<close>
theorem intsetAdd_correct:
  assumes "intset_rep is xs" "in_sbytes 8 v"
    "(length xs + 1) * max (encoding is) (intsetValueEncoding v) < 2 ^ 32"
  shows "\<exists>is' ys. intsetAdd is v = Some (is', v \<notin> set xs) \<and> intset_rep is' ys \<and>
    set ys = insert v (set xs) \<and> encoding is' = max (encoding is) (intsetValueEncoding v)"
  using assms by (rule intsetAdd_rep)

theorem intsetAdd_correct_witness:
  "\<exists>is' ys. intsetAdd \<lparr>encoding = 2, is_length = 2, contents = le_array 2 [1, 5]\<rparr> 70000
      = Some (is', (70000 :: int) \<notin> set [1, 5]) \<and> intset_rep is' ys \<and>
    set ys = insert 70000 (set [1, 5]) \<and>
    encoding is' = max (encoding \<lparr>encoding = 2, is_length = 2, contents = le_array 2 [1, 5]\<rparr>)
      (intsetValueEncoding 70000)"
  by (rule intsetAdd_correct)
    (simp_all add: intset_rep_def in_sbytes_eval intsetValueEncoding_def)

lemma intsetMoveTail_down:
  assumes "contents is = a @ x @ b" "encoding is \<in> {2, 4, 8}" "length x = encoding is"
    "length a = p * encoding is" "length b = (is_length is - Suc p) * encoding is"
    "Suc p \<le> is_length is" "is_length is * encoding is < 2 ^ 32" "is_length is < 2 ^ 31"
  shows "\<exists>z. length z = encoding is \<and>
    intsetMoveTail is ((p + 1) mod 2 ^ 32) p = Some (is\<lparr>contents := a @ b @ z\<rparr>)"
proof -
  have "mem_move (p * encoding is) ((p + 1) * encoding is) (length b) (contents is)
        = Some (a @ b @ drop (length b) (x @ b))"
    using mem_move_down [OF assms(3), of a b] assms(1,4) by (simp add: add.commute)
  moreover have "(p + 1) mod 2 ^ 32 = Suc p" using assms(6,8) by simp
  moreover have "length (drop (length b) (x @ b)) = encoding is" using assms(3) by simp
  ultimately show ?thesis
    using assms(5) intsetMoveTail_eval [OF assms(2,6,7,8)]
    by (intro exI [of _ "drop (length b) (x @ b)"]) (simp del: mult_Suc drop_append length_drop)
qed

lemma intsetRemove_rep:
  assumes "intset_rep is xs" "in_sbytes 8 v"
  shows "\<exists>is' ys. intsetRemove is v = Some (is', v \<in> set xs) \<and> intset_rep is' ys \<and>
    set ys = set xs - {v} \<and> encoding is' = encoding is"
proof (cases "v \<in> set xs")
  case False
  then show ?thesis using assms(1) intsetSearch_correct [OF assms(1), of v]
    by (intro exI [of _ "is"] exI [of _ xs]) (simp add: intsetRemove_def)
next
  case True
  define w p where "w = encoding is" and "p = ins_pos v xs"
  note r = intset_repD [OF assms(1)]
  have small: "length xs \<le> 2 ^ 30" by (rule intset_rep_length [OF assms(1)])
  have p: "p < length xs" "xs ! p = v" using ins_pos_hit [OF r(5) True] by (simp_all add: p_def)
  have fits: "intsetValueEncoding v \<le> encoding is"
    using intsetValueEncoding_le_iff [of "encoding is" v] r(1) r(4) [OF True] assms(2) by simp
  define a b ys where "a = le_array w (take p xs)" and "b = le_array w (drop (Suc p) xs)"
    and "ys = take p xs @ drop (Suc p) xs"
  have split: "contents is = a @ le_encode w v @ b"
    using le_array_split [OF p(1), of w] p(2) r(3) by (simp add: a_def b_def w_def)
  have len1: "to_uint32 (int (length xs) - 1) = length xs - 1"
    using p(1) small by (cases xs) (simp_all add: to_uint32_def)
  have "\<exists>z. length z = w \<and>
     (if p < length xs - 1 then intsetMoveTail is ((p + 1) mod 2 ^ 32) p else Some is)
      = Some (is\<lparr>contents := a @ b @ z\<rparr>)"
  proof (cases "p < length xs - 1")
    case True
    then show ?thesis
      using intsetMoveTail_down [OF split r(1)] p r small by (simp add: a_def b_def w_def)
  next
    case False
    then have "b = []" using p by (simp add: b_def)
    then show ?thesis using False split by (intro exI [of _ "le_encode w v"]) simp
  qed
  then obtain z where moved:
    "(if p < length xs - 1 then intsetMoveTail is ((p + 1) mod 2 ^ 32) p else Some is)
      = Some (is\<lparr>contents := a @ b @ z\<rparr>)" by blast
  have "(length xs - 1) * w \<le> length xs * w" by simp
  then have lim: "(length xs - 1) * w < 2 ^ 32" using r(6) unfolding w_def by linarith
  then have bytes: "(length xs - 1) * w mod 2 ^ 32 = length (a @ b)"
    using p by (simp add: a_def b_def add_mult_distrib [symmetric])
  have run: "intsetRemove is v = Some (is\<lparr>contents := a @ b, is_length := length xs - 1\<rparr>, True)"
    using fits intsetSearch_correct [OF assms(1), of v] True r(2) moved bytes len1
      zrealloc_shrink [OF refl, of "a @ b" z]
    by (simp add: intsetRemove_def intsetResize_def w_def flip: p_def)
  have ys: "set ys = set xs - {v}" "sorted_wrt (<) ys"
  proof -
    have xs: "xs = take p xs @ v # drop (Suc p) xs" using p id_take_nth_drop by metis
    have "distinct (take p xs @ v # drop (Suc p) xs)"
      using strict_sorted_distinct [OF r(5)] xs by simp
    moreover have "set xs = set (take p xs @ v # drop (Suc p) xs)" using xs by simp
    ultimately show "set ys = set xs - {v}" by (auto simp: ys_def)
    show "sorted_wrt (<) ys"
      using r(5) by (subst (asm) xs) (simp add: ys_def sorted_wrt_append)
  qed
  have "intset_rep (is\<lparr>contents := a @ b, is_length := length xs - 1\<rparr>) ys"
    unfolding intset_rep_def
  proof (intro conjI ballI)
    show "in_sbytes (encoding (is\<lparr>contents := a @ b, is_length := length xs - 1\<rparr>)) x"
      if "x \<in> set ys" for x using that ys(1) r(4) by simp
  qed (use r(1) ys(2) p(1) lim in \<open>simp_all add: a_def b_def ys_def w_def\<close>)
  then show ?thesis
    using run ys(1) True
    by (intro exI [of _ "is\<lparr>contents := a @ b, is_length := length xs - 1\<rparr>"] exI [of _ ys]) simp
qed

text \<open>
  C24.  Removing a value stays in bounds, answers whether the value was there, and leaves a
  well-formed intset of the other elements, in the same width.
\<close>
theorem intsetRemove_correct:
  assumes "intset_rep is xs" "in_sbytes 8 v"
  shows "\<exists>is' ys. intsetRemove is v = Some (is', v \<in> set xs) \<and> intset_rep is' ys \<and>
    set ys = set xs - {v} \<and> encoding is' = encoding is"
  using assms by (rule intsetRemove_rep)

theorem intsetRemove_correct_witness:
  "\<exists>is' ys. intsetRemove \<lparr>encoding = 2, is_length = 2, contents = le_array 2 [1, 5]\<rparr> 1
      = Some (is', (1 :: int) \<in> set [1, 5]) \<and> intset_rep is' ys \<and> set ys = set [1, 5] - {1} \<and>
    encoding is' = encoding \<lparr>encoding = 2, is_length = 2, contents = le_array 2 [1, 5]\<rparr>"
  by (rule intsetRemove_correct) (simp_all add: intset_rep_def in_sbytes_eval)

lemma intsetFind_correct:
  assumes "intset_rep is xs" "in_sbytes 8 v"
  shows "intsetFind is v = Some (v \<in> set xs)"
proof (cases "intsetValueEncoding v \<le> encoding is")
  case True
  then show ?thesis using intsetSearch_correct [OF assms(1)] by (simp add: intsetFind_def)
next
  case False
  then have "v \<notin> set xs"
    using intsetValueEncoding_le_iff [of "encoding is" v] assms intset_repD(1,4) [OF assms(1)]
    by blast
  then show ?thesis using False by (simp add: intsetFind_def)
qed

lemma intsetGet_correct:
  assumes "intset_rep is xs"
  shows "intsetGet is pos = Some (if pos < length xs then Some (xs ! pos) else None)"
proof (cases "pos < length xs")
  case True
  then have "to_int32 (int pos) = int pos"
    using intset_rep_length [OF assms] by (intro to_int32_in_range) auto
  then show ?thesis using True intsetGetAt_rep [OF assms True] intset_repD(2) [OF assms]
    by (simp add: intsetGet_def)
qed (use intset_repD(2) [OF assms] in \<open>simp add: intsetGet_def\<close>)

lemma intsetRandom_correct:
  assumes "intset_rep is xs" "xs \<noteq> []"
  shows "\<exists>v \<in> set xs. intsetRandom r is = Some v"
proof -
  have lt: "r mod length xs < length xs" using assms(2) by simp
  then have "to_int32 (int (r mod length xs)) = int (r mod length xs)"
    using intset_rep_length [OF assms(1)] by (intro to_int32_in_range) auto
  then show ?thesis
    using intsetGetAt_rep [OF assms(1) lt] nth_mem [OF lt] intset_repD(2) [OF assms(1)] assms(2)
    by (auto simp: intsetRandom_def)
qed

lemma intsetBlobLen_correct:
  "intset_rep is xs \<Longrightarrow> intsetBlobLen is = 8 + length (contents is)"
  by (auto simp: intsetBlobLen_def intset_rep_def)

section \<open>The intset as a provider of finite sets\<close>

definition intset_set :: "intset \<Rightarrow> int set \<Rightarrow> bool" where
  "intset_set is S \<longleftrightarrow> (\<exists>xs. intset_rep is xs \<and> set xs = S)"

definition intsetFindS :: "intset \<Rightarrow> int \<Rightarrow> (intset \<times> bool) option" where
  "intsetFindS is v = do { b \<leftarrow> intsetFind is v; Some (is, b) }"

lemma intset_rep_card: "intset_rep is xs \<Longrightarrow> card (set xs) = length xs"
  by (simp add: distinct_card strict_sorted_distinct intset_rep_def)

lemma encoding_max_le: "intset_rep is xs \<Longrightarrow> max (encoding is) (intsetValueEncoding v) \<le> 8"
  using intsetValueEncoding_cases [of v] by (auto simp: intset_rep_def)

interpretation intset: finite_set_impl intset_set "in_sbytes 8" "2 ^ 29 - 1"
  intsetAdd intsetRemove intsetFindS intsetLen
proof (unfold_locales, goal_cases)
  case (1 s S)
  then show ?case by (auto simp: intset_set_def)
next
  case (2 s S)
  then show ?case by (auto simp: intset_set_def intsetLen_def intset_rep_card dest: intset_repD(2))
next
  case (3 s S x)
  then obtain xs where xs: "intset_rep s xs" "set xs = S" by (auto simp: intset_set_def)
  then have "length xs + 1 < 2 ^ 29" using intset_rep_card [OF xs(1)] 3(3) by simp
  then have "(length xs + 1) * max (encoding s) (intsetValueEncoding x) < 2 ^ 29 * 8"
    using encoding_max_le [OF xs(1), of x] intset_repD(1) [OF xs(1)]
    by (intro mult_less_le_imp_less) auto
  then show ?case using intsetAdd_rep [OF xs(1) 3(2)] xs(2) by (auto simp: intset_set_def)
next
  case (4 s S x)
  then show ?case using intsetRemove_rep [of s _ x] by (fastforce simp: intset_set_def)
next
  case (5 s S x)
  then show ?case using intsetFind_correct [of s _ x]
    by (fastforce simp: intset_set_def intsetFindS_def)
qed

text \<open>
  C8.  From the empty intset, any run of additions, removals and lookups of 64 bit integers
  (fewer than \<open>2 ^ 29\<close>) stays in bounds and answers exactly as a mathematical set would, whatever
  upgrades of the width it makes on the way.
\<close>
theorem intset_runs_as_set:
  assumes "\<forall>op \<in> set ops. in_sbytes 8 (set_op_arg op)" "length ops < 2 ^ 29"
  shows "\<exists>is. run_set_ops intsetAdd intsetRemove intsetFindS intsetNew ops
      = Some (is, snd (spec_set_ops {} ops)) \<and> intset_set is (fst (spec_set_ops {} ops))"
proof (rule intset.run_ops_refines [OF _ assms(1)])
  show "intset_set intsetNew {}" using intset_rep_New by (auto simp: intset_set_def)
qed (use assms(2) in simp)

theorem intset_runs_as_set_witness:
  "\<exists>is. run_set_ops intsetAdd intsetRemove intsetFindS intsetNew
        [SetAdd 7, SetAdd 100000, SetRemove 7, SetQuery 100000]
      = Some (is, snd (spec_set_ops {} [SetAdd 7, SetAdd 100000, SetRemove 7, SetQuery (100000 :: int)]))
    \<and> intset_set is (fst (spec_set_ops {} [SetAdd 7, SetAdd 100000, SetRemove 7, SetQuery 100000]))"
  by (rule intset_runs_as_set) (simp_all add: in_sbytes_eval)

section \<open>The bound is needed\<close>

text \<open>
  C33.  The 32 bit size computation of \<open>intsetResize\<close> overflows: an intset of \<open>2 ^ 29 - 1\<close> 64 bit
  elements is reallocated to 0 bytes when another is added, and the addition then accesses
  memory out of bounds.
\<close>
theorem intsetAdd_resize_overflow:
  assumes "intset_rep is xs" "encoding is = 8" "length xs = 2 ^ 29 - 1"
    "in_sbytes 8 v" "v \<notin> set xs"
  shows "contents (intsetResize is ((is_length is + 1) mod 2 ^ 32)) = [] \<and> intsetAdd is v = None"
proof -
  note r = intset_repD [OF assms(1)]
  define p where "p = ins_pos v xs"
  have p: "p \<le> length xs" by (simp add: p_def ins_pos_le)
  have "zrealloc 0 m = []" for m by (simp add: zrealloc_def)
  then have res: "intsetResize is 536870912 = is\<lparr>contents := []\<rparr>"
    using assms(2) by (simp add: intsetResize_def)
  have idx: "to_int32 (int p) = int p" using p assms(3) by (intro to_int32_in_range) auto
  have "intsetSet (is\<lparr>contents := []\<rparr>) (int p) v = None"
    using assms(2) by (simp add: intsetSet_def le_store_def mem_write_def)
  moreover have "intsetMoveTail (is\<lparr>contents := []\<rparr>) p (p + 1) = None" if "p < length xs"
  proof -
    have "mem_read (p * 8) ((length xs - p) * 8) [] = None"
      using that by (simp add: mem_read_def)
    then show ?thesis
      using intsetMoveTail_eval [of "is\<lparr>contents := []\<rparr>" p "p + 1"] assms(2,3) r(2) p
      by (simp add: mem_move_def)
  qed
  moreover have "intsetSearch is v = Some (False, p)"
    using intsetSearch_correct [OF assms(1)] assms(5) by (simp add: p_def)
  moreover have "\<not> encoding is < intsetValueEncoding v"
    using assms(2) intsetValueEncoding_cases [of v] by auto
  ultimately show ?thesis
    using r(2) assms(3) res idx p by (auto simp: intsetAdd_def Let_def bind_eq_None_conv)
qed

theorem intsetAdd_resize_overflow_witness:
  "contents (intsetResize \<lparr>encoding = 8, is_length = 2 ^ 29 - 1,
        contents = le_array 8 (map int [0..<2 ^ 29 - 1])\<rparr>
      ((is_length \<lparr>encoding = 8, is_length = 2 ^ 29 - 1,
        contents = le_array 8 (map int [0..<2 ^ 29 - 1])\<rparr> + 1) mod 2 ^ 32)) = [] \<and>
   intsetAdd \<lparr>encoding = 8, is_length = 2 ^ 29 - 1,
        contents = le_array 8 (map int [0..<2 ^ 29 - 1])\<rparr> (- 5) = None"
proof (rule intsetAdd_resize_overflow [where xs = "map int [0..<2 ^ 29 - 1]"])
  have "sorted_wrt (<) (map int [0..<n])" for n
    by (simp add: sorted_wrt_map)
  then show "intset_rep \<lparr>encoding = 8, is_length = 2 ^ 29 - 1,
      contents = le_array 8 (map int [0..<2 ^ 29 - 1])\<rparr> (map int [0..<2 ^ 29 - 1])"
    by (auto simp: intset_rep_def in_sbytes_eval simp del: upt_rec_numeral upt_Suc)
qed (auto simp: in_sbytes_eval simp del: upt_rec_numeral upt_Suc)

end
