(* ===== verification/Util.thy ===== *)
theory Util
  imports Base
begin

text \<open>
  \<open>util.c\<close>: the conversions between 64 bit integers and their decimal text on which the
  integer encodings of strings, sets and lists rest, and the parser of memory sizes.  Strings are
  byte lists, without the terminating null byte.  \<open>dec\<close> and \<open>dec_int\<close> are the specification:
  the decimal text of a number.
\<close>

section \<open>Characters\<close>

definition bytes :: "string \<Rightarrow> byte list" where
  "bytes s = map of_char s"

lemma bytes_simps [simp]: "bytes [] = []" "bytes (c # cs) = of_char c # bytes cs"
  by (simp_all add: bytes_def)

definition is_digit :: "byte \<Rightarrow> bool" where
  "is_digit c \<longleftrightarrow> 48 \<le> c \<and> c \<le> 57"

definition digit_val :: "byte \<Rightarrow> nat" where
  "digit_val c = unat c - 48"

definition digit_char :: "nat \<Rightarrow> byte" where
  "digit_char d = of_nat (48 + d)"

definition char_tolower :: "byte \<Rightarrow> byte" where
  "char_tolower c = (if 65 \<le> c \<and> c \<le> 90 then c + 32 else c)"

text \<open>\<open>strcasecmp(a, b) == 0\<close>.\<close>

definition strcaseeq :: "byte list \<Rightarrow> byte list \<Rightarrow> bool" where
  "strcaseeq a b \<longleftrightarrow> map char_tolower a = map char_tolower b"

lemma unat_digit_char: "d < 10 \<Longrightarrow> unat (digit_char d) = 48 + d"
  by (simp add: digit_char_def unat_of_nat take_bit_eq_mod del: of_nat_add)

lemma is_digit_unat: "is_digit c \<longleftrightarrow> 48 \<le> unat c \<and> unat c \<le> 57"
  by (simp add: is_digit_def word_le_nat_alt)

lemma is_digit_digit_char [simp]: "d < 10 \<Longrightarrow> is_digit (digit_char d)"
  by (simp add: is_digit_unat unat_digit_char)

lemma digit_val_digit_char [simp]: "d < 10 \<Longrightarrow> digit_val (digit_char d) = d"
  by (simp add: digit_val_def unat_digit_char)

lemma digit_val_less: "is_digit c \<Longrightarrow> digit_val c < 10"
  by (auto simp: is_digit_unat digit_val_def)

lemma digit_char_digit_val [simp]: "is_digit c \<Longrightarrow> digit_char (digit_val c) = c"
  by (rule word_unat_eq_iff [THEN iffD2])
    (auto simp: is_digit_unat digit_val_def digit_char_def unat_of_nat take_bit_eq_mod)

section \<open>The code\<close>

subsection \<open>\<open>ll2string\<close>\<close>

text \<open>
  The digits are written from the end of a 32 byte buffer; \<open>acc\<close> is what it holds so far.  A
  write below the buffer is undefined, and so is the negation of the least \<open>long long\<close>.
\<close>

fun ll_digits :: "nat \<Rightarrow> byte list \<Rightarrow> byte list option" where
  "ll_digits v acc =
     (if length acc \<ge> 32 then None
      else let acc = digit_char (v mod 10) # acc; v = v div 10
           in if v = 0 then Some acc else ll_digits v acc)"

declare ll_digits.simps [simp del]

definition ll2string :: "nat \<Rightarrow> int \<Rightarrow> byte list option" where
  "ll2string len value =
     (if len = 0 then Some []
      else do {
        v \<leftarrow> (if value < 0 then c_llong (- value) else Some value);
        buf \<leftarrow> ll_digits (nat v) [];
        buf \<leftarrow> (if value < 0
               then (if length buf \<ge> 32 then None else Some (of_char (CHR ''-'') # buf))
               else Some buf);
        let l = length buf;
        let l = (if l + 1 > len then len - 1 else l);
        Some (take l buf) })"

subsection \<open>\<open>string2ll\<close> and \<open>string2l\<close>\<close>

abbreviation ULLONG_MAX :: nat where "ULLONG_MAX \<equiv> 2 ^ 64 - 1"

fun s2ll_loop :: "byte list \<Rightarrow> nat \<Rightarrow> (nat \<times> byte list) option" where
  "s2ll_loop [] v = Some (v, [])"
| "s2ll_loop (c # p) v =
     (if is_digit c
      then (if v > ULLONG_MAX div 10 then None
            else let v = v * 10
                 in if v > ULLONG_MAX - digit_val c then None
                    else s2ll_loop p (v + digit_val c))
      else Some (v, c # p))"

definition string2ll :: "byte list \<Rightarrow> int option" where
  "string2ll s =
     (if s = [] then None
      else if length s = 1 \<and> hd s = of_char (CHR ''0'') then Some 0
      else
        let negative = hd s = of_char (CHR ''-''); p = (if negative then tl s else s)
        in if p = [] then None
           else if of_char (CHR ''1'') \<le> hd p \<and> hd p \<le> of_char (CHR ''9'')
           then do {
             (v, rest) \<leftarrow> s2ll_loop (tl p) (digit_val (hd p));
             if rest \<noteq> [] then None
             else if negative
             then (if v > 2 ^ 63 then None else Some (- int v))
             else (if v > 2 ^ 63 - 1 then None else Some (int v)) }
           else if hd p = of_char (CHR ''0'') \<and> length s = 1 then Some 0
           else None)"

text \<open>\<open>long\<close> is 64 bits wide, as on the platforms Redis supports.\<close>

definition string2l :: "byte list \<Rightarrow> int option" where
  "string2l s = do {
     llval \<leftarrow> string2ll s;
     if llval < - (2 ^ 63) \<or> llval > 2 ^ 63 - 1 then None else Some llval }"

subsection \<open>\<open>memtoll\<close>\<close>

text \<open>
  C's \<open>strtoll\<close> on a text of an optional sign and digits: the value, clamped to the range of
  \<open>long long\<close>; a text without digits gives 0.
\<close>

definition dec_value :: "byte list \<Rightarrow> nat" where
  "dec_value = foldl (\<lambda>v c. 10 * v + digit_val c) 0"

definition strtoll :: "byte list \<Rightarrow> int" where
  "strtoll s =
     (if s \<noteq> [] \<and> hd s = of_char (CHR ''-'')
      then max (- (2 ^ 63)) (- int (dec_value (tl s)))
      else min (2 ^ 63 - 1) (int (dec_value s)))"

text \<open>
  The result is the value and the error flag; \<open>None\<close> is the signed overflow of the final
  multiplication.
\<close>

definition memtoll :: "byte list \<Rightarrow> (int \<times> bool) option" where
  "memtoll p =
     (let sign = (if p \<noteq> [] \<and> hd p = of_char (CHR ''-'') then take 1 p else []);
          digits = sign @ takeWhile is_digit (drop (length sign) p);
          u = drop (length digits) p;
          (err, mul) =
            (if u = [] \<or> strcaseeq u (bytes ''b'') then (False, 1)
             else if strcaseeq u (bytes ''k'') then (False, 1000)
             else if strcaseeq u (bytes ''kb'') then (False, 1024)
             else if strcaseeq u (bytes ''m'') then (False, 1000 * 1000)
             else if strcaseeq u (bytes ''mb'') then (False, 1024 * 1024)
             else if strcaseeq u (bytes ''g'') then (False, 1000 * 1000 * 1000)
             else if strcaseeq u (bytes ''gb'') then (False, 1024 * 1024 * 1024)
             else (True, 1))
      in if length digits \<ge> 128 then Some (2 ^ 63 - 1, True)
         else do { r \<leftarrow> c_llong (strtoll digits * mul); Some (r, err) })"

section \<open>The specification: decimal text\<close>

fun dec :: "nat \<Rightarrow> byte list" where
  "dec n = (if n < 10 then [digit_char n] else dec (n div 10) @ [digit_char (n mod 10)])"

declare dec.simps [simp del]

definition dec_int :: "int \<Rightarrow> byte list" where
  "dec_int n = (if n < 0 then of_char (CHR ''-'') # dec (nat (- n)) else dec (nat n))"

lemma dec_ne: "dec n \<noteq> []"
  by (subst dec.simps) simp

lemma dec_digits: "\<forall>c \<in> set (dec n). is_digit c"
proof (induction n rule: dec.induct)
  case (1 n)
  then show ?case by (cases "n < 10") (simp_all add: dec.simps [of n])
qed

lemma length_dec: "n < 10 ^ Suc k \<Longrightarrow> length (dec n) \<le> Suc k"
proof (induction k arbitrary: n)
  case 0
  then show ?case by (simp add: dec.simps [of n])
next
  case (Suc k)
  have "n div 10 < 10 ^ Suc k" using Suc.prems by (simp add: div_less_iff_less_mult)
  then show ?case using Suc.IH [of "n div 10"] by (simp add: dec.simps [of n])
qed

lemma dec_value_snoc: "dec_value (s @ [c]) = 10 * dec_value s + digit_val c"
  by (simp add: dec_value_def)

lemma dec_value_dec [simp]: "dec_value (dec n) = n"
proof (induction n rule: dec.induct)
  case (1 n)
  show ?case
  proof (cases "n < 10")
    case True
    then show ?thesis by (simp add: dec.simps [of n] dec_value_def)
  next
    case False
    then show ?thesis using 1 by (simp add: dec.simps [of n] dec_value_snoc)
  qed
qed

text \<open>A digit string that does not begin with 0 is the decimal text of its value.\<close>

lemma dec_dec_value:
  assumes "s \<noteq> []" "\<forall>c \<in> set s. is_digit c" "hd s \<noteq> digit_char 0"
  shows "dec (dec_value s) = s"
  using assms
proof (induction s rule: rev_induct)
  case (snoc c s)
  have c: "digit_val c < 10" "is_digit c" using snoc.prems(2) digit_val_less by auto
  show ?case
  proof (cases "s = []")
    case True
    then show ?thesis using c by (simp add: dec_value_def dec.simps)
  next
    case False
    then have IH: "dec (dec_value s) = s" and hd: "hd s \<noteq> digit_char 0" using snoc by auto
    have "dec_value s \<noteq> 0"
    proof
      assume "dec_value s = 0"
      then have "s = [digit_char 0]" using IH by (simp add: dec.simps)
      with hd show False by simp
    qed
    then have "\<not> 10 * dec_value s + digit_val c < 10" by simp
    moreover have "(10 * dec_value s + digit_val c) div 10 = dec_value s"
      "(10 * dec_value s + digit_val c) mod 10 = digit_val c" using c by simp_all
    ultimately show ?thesis using IH c
      by (simp add: dec_value_snoc dec.simps [of "10 * dec_value s + digit_val c"])
  qed
qed simp

lemma dec_hd_nonzero: "0 < n \<Longrightarrow> hd (dec n) \<noteq> digit_char 0"
proof (induction n rule: dec.induct)
  case (1 n)
  show ?case
  proof (cases "n < 10")
    case True
    have "digit_char n \<noteq> digit_char 0"
    proof
      assume "digit_char n = digit_char 0"
      then have "unat (digit_char n) = unat (digit_char 0)" by simp
      with True 1(2) show False by (simp add: unat_digit_char)
    qed
    then show ?thesis using True by (simp add: dec.simps [of n])
  next
    case False
    then have "hd (dec n) = hd (dec (n div 10))" by (simp add: dec.simps [of n] dec_ne)
    then show ?thesis using 1 False by auto
  qed
qed

section \<open>Printing\<close>

lemma ll_digits_dec:
  "length acc + length (dec v) \<le> 32 \<Longrightarrow> ll_digits v acc = Some (dec v @ acc)"
proof (induction v acc rule: ll_digits.induct)
  case (1 v acc)
  show ?case
  proof (cases "v < 10")
    case True
    then show ?thesis using 1(2) by (subst ll_digits.simps) (simp add: dec.simps [of v])
  next
    case False
    then have d: "dec v = dec (v div 10) @ [digit_char (v mod 10)]" by (simp add: dec.simps [of v])
    then have "ll_digits (v div 10) (digit_char (v mod 10) # acc) = Some (dec v @ acc)"
      using 1 False dec_ne [of "v div 10"] by auto
    then show ?thesis using 1(2) False d by (subst ll_digits.simps) (auto simp: Let_def)
  qed
qed

lemma length_dec_int: "in_sbytes 8 n \<Longrightarrow> length (dec_int n) \<le> 20"
proof -
  assume "in_sbytes 8 n"
  then have "nat (- n) < 10 ^ Suc 18" "nat n < 10 ^ Suc 18"
    by (auto simp: in_sbytes_def nat_less_iff)
  then have "length (dec (nat (- n))) \<le> Suc 18" "length (dec (nat n)) \<le> Suc 18"
    using length_dec [of "nat (- n)" 18] length_dec [of "nat n" 18] by blast+
  then show ?thesis by (simp add: dec_int_def)
qed

text \<open>
  C26.  \<open>ll2string\<close> prints every 64 bit integer but the least in decimal, never leaves its 32 byte
  scratch buffer, and cuts the text to what fits the caller's buffer with its null byte.
\<close>
theorem ll2string_correct:
  assumes "in_sbytes 8 n" "n \<noteq> - (2 ^ 63)" "0 < len"
  shows "ll2string len n = Some (take (len - 1) (dec_int n))"
proof -
  have l: "length (dec_int n) \<le> 20" by (rule length_dec_int [OF assms(1)])
  have "(if n < 0 then c_llong (- n) else Some n) = Some \<bar>n\<bar>"
    using assms(1,2) by (auto simp: c_llong_def in_sbytes_def)
  moreover have "ll_digits (nat \<bar>n\<bar>) [] = Some (dec (nat \<bar>n\<bar>))"
    using l by (intro ll_digits_dec [of "[]", simplified]) (auto simp: dec_int_def split: if_splits)
  ultimately show ?thesis
    using assms(3) l by (auto simp: ll2string_def dec_int_def Let_def min_def)
qed

theorem ll2string_correct_witness: "ll2string 21 (- 120) = Some (take (21 - 1) (dec_int (- 120)))"
  by (rule ll2string_correct) (simp_all add: in_sbytes_def)

text \<open>
  For the least \<open>long long\<close> the code negates a signed integer that has no negation: undefined
  behaviour for every non-empty buffer.
\<close>

lemma ll2string_min: "0 < len \<Longrightarrow> ll2string len (- (2 ^ 63)) = None"
  by (simp add: ll2string_def c_llong_def)

section \<open>Parsing\<close>

lemma foldl_dec_value: "foldl (\<lambda>v c. 10 * v + digit_val c) v p = v * 10 ^ length p + dec_value p"
proof (induction p rule: rev_induct)
  case (snoc c p)
  then show ?case by (simp add: dec_value_snoc algebra_simps)
qed (simp add: dec_value_def)

text \<open>The loop's overflow tests accept exactly the values below \<open>2 ^ 64\<close>.\<close>

lemma s2ll_loop_done:
  "s2ll_loop p v = Some (w, []) \<longleftrightarrow>
     (\<forall>c \<in> set p. is_digit c) \<and> w = v * 10 ^ length p + dec_value p \<and> (p \<noteq> [] \<longrightarrow> w < 2 ^ 64)"
proof (induction p arbitrary: v)
  case Nil
  then show ?case by (auto simp: dec_value_def)
next
  case (Cons c p)
  define v' where "v' = v * 10 + digit_val c"
  have step: "v * 10 ^ length (c # p) + dec_value (c # p) = v' * 10 ^ length p + dec_value p"
    using foldl_dec_value [of "digit_val c" p]
    by (simp add: v'_def dec_value_def algebra_simps)
  show ?case
  proof (cases "is_digit c")
    case True
    then have d: "digit_val c < 10" by (rule digit_val_less)
    have guard: "(v > ULLONG_MAX div 10 \<or> v * 10 > ULLONG_MAX - digit_val c) \<longleftrightarrow> \<not> v' < 2 ^ 64"
      using d by (simp add: v'_def) arith
    have mono: "v' \<le> v' * 10 ^ length p + dec_value p"
      by (metis add_increasing2 le0 mult_le_mono2 mult.right_neutral one_le_numeral one_le_power)
    show ?thesis
    proof (cases "v' < 2 ^ 64")
      case True
      then have "s2ll_loop (c # p) v = s2ll_loop p v'"
        using guard \<open>is_digit c\<close> by (auto simp: v'_def Let_def)
      then show ?thesis using Cons.IH [of v'] step True \<open>is_digit c\<close>
        by (cases p) (auto simp: dec_value_def)
    next
      case False
      then have "s2ll_loop (c # p) v = None" using guard \<open>is_digit c\<close> by (auto simp: Let_def)
      then show ?thesis using mono step False by auto
    qed
  qed simp
qed

lemma nonzero_digit: "of_char (CHR ''1'') \<le> c \<and> c \<le> of_char (CHR ''9'') \<longleftrightarrow> is_digit c \<and> c \<noteq> digit_char 0"
  for c :: byte
proof -
  have "c \<noteq> digit_char 0 \<longleftrightarrow> unat c \<noteq> 48" by (metis unat_digit_char word_unat_eq_iff add_0_right zero_less_numeral)
  then show ?thesis by (auto simp: is_digit_unat word_le_nat_alt)
qed

lemma string2ll_pos:
  assumes "s \<noteq> []"
  shows "(do { (v, rest) \<leftarrow> s2ll_loop (tl s) (digit_val (hd s));
            if rest \<noteq> [] then None else f v }) = Some n \<and> is_digit (hd s) \<and> hd s \<noteq> digit_char 0 \<longleftrightarrow>
         (\<exists>v. 0 < v \<and> s = dec v \<and> (tl s \<noteq> [] \<longrightarrow> v < 2 ^ 64) \<and> f v = Some n)" (is "?L \<longleftrightarrow> ?R")
proof
  have val: "digit_val (hd s) * 10 ^ length (tl s) + dec_value (tl s) = dec_value s"
    using foldl_dec_value [of "digit_val (hd s)" "tl s"] assms
    by (cases s) (simp_all add: dec_value_def)
  {
    assume L: ?L
    then obtain v where v: "s2ll_loop (tl s) (digit_val (hd s)) = Some (v, [])" "f v = Some n"
      by (auto simp: bind_eq_Some_conv split: if_splits)
    then have "\<forall>c \<in> set s. is_digit c" "v = dec_value s" "tl s \<noteq> [] \<longrightarrow> v < 2 ^ 64"
      using L assms val by (cases s; auto simp: s2ll_loop_done)+
    moreover from this have "s = dec v" using L assms dec_dec_value by simp
    moreover have "0 < v"
    proof (rule ccontr)
      assume "\<not> 0 < v"
      then have "s = [digit_char 0]" using \<open>s = dec v\<close> by (simp add: dec.simps)
      with L show False by simp
    qed
    ultimately show ?R using v(2) by blast
  next
    assume ?R
    then obtain v where v: "0 < v" "s = dec v" "tl s \<noteq> [] \<longrightarrow> v < 2 ^ 64" "f v = Some n" by blast
    have "\<forall>c \<in> set s. is_digit c" using v(2) dec_digits by simp
    moreover have "dec_value s = v" using v(2) by simp
    ultimately have "s2ll_loop (tl s) (digit_val (hd s)) = Some (v, [])"
      using val v(3) assms by (auto simp: s2ll_loop_done dest: list.set_sel(2))
    then show ?L using v dec_hd_nonzero [OF v(1)] dec_digits [of v] hd_in_set [OF assms] by auto
  }
qed

lemma minus_not_digit: "\<not> is_digit (of_char (CHR ''-''))" "of_char (CHR ''-'') \<noteq> digit_char 0"
  by (simp_all add: is_digit_def digit_char_def)

lemma string2ll_spec: "string2ll s = Some n \<longleftrightarrow> in_sbytes 8 n \<and> s = dec_int n"
proof (cases "s = [] \<or> length s = 1 \<and> hd s = of_char (CHR ''0'')")
  case True
  have zero: "dec_int n = [digit_char 0] \<longleftrightarrow> n = 0"
  proof
    assume eq: "dec_int n = [digit_char 0]"
    then have "0 \<le> n" using dec_ne [of "nat (- n)"]
      by (auto simp: dec_int_def split: if_splits)
    then have "dec (nat n) = [digit_char 0]" using eq by (simp add: dec_int_def)
    then have "dec_value (dec (nat n)) = 0" by (simp add: dec_value_def)
    then show "n = 0" using \<open>0 \<le> n\<close> by simp
  qed (simp add: dec_int_def dec.simps)
  have ne: "dec_int n \<noteq> []" by (simp add: dec_int_def dec_ne)
  have c0: "(of_char (CHR ''0'') :: byte) = digit_char 0" by (simp add: digit_char_def)
  consider "s = []" | "s = [digit_char 0]" using True c0 by (cases s) auto
  then show ?thesis
  proof cases
    case 1
    then show ?thesis using ne by (auto simp: string2ll_def)
  next
    case 2
    then have "string2ll s = Some 0" using c0 by (simp add: string2ll_def)
    moreover have "s = dec_int n \<longleftrightarrow> n = 0" using 2 zero by metis
    ultimately show ?thesis by (auto simp: in_sbytes_def)
  qed
next
  case False
  define neg p where "neg = (hd s = of_char (CHR ''-''))" and "p = (if neg then tl s else s)"
  define f where "f = (\<lambda>v. if neg then (if v > 2 ^ 63 then None else Some (- int v))
                        else (if v > 2 ^ 63 - 1 then None else Some (int v)))"
  have s: "s = (if neg then of_char (CHR ''-'') # p else p)" using False by (cases s) (auto simp: neg_def p_def)
  have f1: "(s = []) = False" and f2: "(length s = 1 \<and> hd s = of_char (CHR ''0'')) = False"
    using False by auto
  have run: "string2ll s =
      (if p = [] then None
       else if of_char (CHR ''1'') \<le> hd p \<and> hd p \<le> of_char (CHR ''9'')
       then do { (v, rest) \<leftarrow> s2ll_loop (tl p) (digit_val (hd p)); if rest \<noteq> [] then None else f v }
       else if hd p = of_char (CHR ''0'') \<and> length s = 1 then Some 0 else None)"
    unfolding string2ll_def Let_def f1 f2 if_False f_def neg_def [symmetric] p_def [symmetric]
    by (rule refl)
  have no0: "\<not> (hd p = of_char (CHR ''0'') \<and> length s = 1)" if "p \<noteq> []"
    using False that by (cases s) (auto simp: p_def)
  have "string2ll s = Some n \<longleftrightarrow> p \<noteq> [] \<and>
      (do { (v, rest) \<leftarrow> s2ll_loop (tl p) (digit_val (hd p));
            if rest \<noteq> [] then None else f v }) = Some n \<and> is_digit (hd p) \<and> hd p \<noteq> digit_char 0"
    unfolding run nonzero_digit using no0 by (cases "p = []") auto
  also have "\<dots> \<longleftrightarrow> p \<noteq> [] \<and> (\<exists>v. 0 < v \<and> p = dec v \<and> (tl p \<noteq> [] \<longrightarrow> v < 2 ^ 64) \<and> f v = Some n)"
    using string2ll_pos [of p f n] by blast
  also have "\<dots> \<longleftrightarrow> (\<exists>v. 0 < v \<and> p = dec v \<and> f v = Some n)"
    using dec_ne by (auto simp: f_def split: if_splits)
  also have "\<dots> \<longleftrightarrow> in_sbytes 8 n \<and> s = dec_int n"
  proof
    assume "\<exists>v. 0 < v \<and> p = dec v \<and> f v = Some n"
    then obtain v where "0 < v" "p = dec v" "f v = Some n" by blast
    then show "in_sbytes 8 n \<and> s = dec_int n"
      using s by (auto simp: f_def dec_int_def in_sbytes_def split: if_splits)
  next
    assume R: "in_sbytes 8 n \<and> s = dec_int n"
    have "n \<noteq> 0" using R False by (auto simp: dec_int_def dec.simps digit_char_def)
    have "neg \<longleftrightarrow> n < 0"
    proof -
      have "hd (dec (nat n)) \<noteq> of_char (CHR ''-'')"
        using dec_digits [of "nat n"] dec_ne [of "nat n"] minus_not_digit(1) by (metis hd_in_set)
      then show ?thesis using R by (auto simp: neg_def dec_int_def)
    qed
    then have "p = dec (nat \<bar>n\<bar>)" using R by (auto simp: p_def dec_int_def)
    moreover have "f (nat \<bar>n\<bar>) = Some n"
      using R \<open>neg \<longleftrightarrow> n < 0\<close> by (auto simp: f_def in_sbytes_def)
    ultimately show "\<exists>v. 0 < v \<and> p = dec v \<and> f v = Some n"
      using \<open>n \<noteq> 0\<close> by (intro exI [of _ "nat \<bar>n\<bar>"]) simp
  qed
  finally show ?thesis .
qed

text \<open>
  C25.  \<open>string2ll\<close> accepts a text exactly when it is the canonical decimal form of a 64 bit
  integer (no plus sign, no leading zeros, no \<open>-0\<close>, no spaces, no overflow), and then returns
  that integer.
\<close>
theorem string2ll_iff: "string2ll s = Some n \<longleftrightarrow> in_sbytes 8 n \<and> s = dec_int n"
  by (rule string2ll_spec)

lemma string2l_eq: "string2l s = string2ll s"
proof (cases "string2ll s")
  case (Some n)
  then have "in_sbytes 8 n" using string2ll_spec by blast
  then show ?thesis using Some by (simp add: string2l_def in_sbytes_def)
qed (simp add: string2l_def)

lemma string2ll_dec_int: "in_sbytes 8 n \<Longrightarrow> string2ll (dec_int n) = Some n"
  by (simp add: string2ll_spec)

lemma dec_int_inj: "dec_int m = dec_int n \<Longrightarrow> m = n"
proof -
  assume eq: "dec_int m = dec_int n"
  have hd: "hd (dec k) \<noteq> of_char (CHR ''-'')" for k
    using dec_digits [of k] dec_ne [of k] minus_not_digit(1) by (metis hd_in_set)
  have "m < 0 \<longleftrightarrow> n < 0" using eq hd by (auto simp: dec_int_def split: if_splits) (metis list.sel(1))+
  then have "dec (nat \<bar>m\<bar>) = dec (nat \<bar>n\<bar>)" using eq by (auto simp: dec_int_def split: if_splits)
  then have "nat \<bar>m\<bar> = nat \<bar>n\<bar>" by (metis dec_value_dec)
  then show ?thesis using \<open>m < 0 \<longleftrightarrow> n < 0\<close> by linarith
qed

section \<open>Memory sizes\<close>

lemma tolower_digit: "is_digit c \<Longrightarrow> char_tolower c = c"
  by (auto simp: is_digit_def char_tolower_def word_le_nat_alt)

lemma takeWhile_digits: "\<lbrakk>\<forall>c \<in> set a. is_digit c; b = [] \<or> \<not> is_digit (hd b)\<rbrakk> \<Longrightarrow>
    takeWhile is_digit (a @ b) = a"
  by (cases b) (auto simp: takeWhile_append)

text \<open>
  C29.  A decimal number with the suffix \<open>kb\<close> in any case is multiplied by 1024 without an error,
  and the signed multiplication overflows (is undefined) exactly when the product exceeds
  \<open>long long\<close>.
\<close>
theorem memtoll_kb:
  assumes "int n < 2 ^ 63" "strcaseeq u (bytes ''kb'')"
  shows "memtoll (dec n @ u) = (if int n * 1024 < 2 ^ 63 then Some (int n * 1024, False) else None)"
proof -
  have u: "\<exists>a b. u = [a, b] \<and> char_tolower a = of_char (CHR ''k'') \<and> char_tolower b = of_char (CHR ''b'')"
  proof -
    have "char_tolower 107 = 107" "char_tolower 98 = 98" by (simp_all add: char_tolower_def)
    then show ?thesis using assms(2) by (auto simp: strcaseeq_def map_eq_Cons_conv)
  qed
  then have "\<not> is_digit (hd u)"
    using tolower_digit [of "hd u"] by (auto simp: is_digit_def)
  then have tw: "takeWhile is_digit (dec n @ u) = dec n"
    using dec_digits [of n] by (intro takeWhile_digits) auto
  have sign: "hd (dec n @ u) \<noteq> of_char (CHR ''-'')" "hd (dec n) \<noteq> of_char (CHR ''-'')"
    using dec_digits [of n] dec_ne [of n] minus_not_digit(1) by (metis hd_append2 hd_in_set)+
  have "nat (int n) < 10 ^ Suc 18" using assms(1) by simp
  then have "length (dec n) \<le> Suc 18" using length_dec [of n 18] by simp
  moreover have "strtoll (dec n) = int n" using sign assms(1) by (simp add: strtoll_def)
  moreover have "\<not> strcaseeq u (bytes ''b'')" "\<not> strcaseeq u (bytes ''k'')" "u \<noteq> []"
    using u by (auto simp: strcaseeq_def)
  ultimately show ?thesis
    using sign tw assms(2) by (simp add: memtoll_def Let_def c_llong_def)
qed

theorem memtoll_kb_witness:
  "memtoll (dec 3 @ bytes ''kB'') = (if int 3 * 1024 < 2 ^ 63 then Some (int 3 * 1024, False) else None)"
  by (rule memtoll_kb) (simp_all add: strcaseeq_def char_tolower_def)

end
