(* ===== verification/Dict.thy ===== *)
theory Dict
  imports Interfaces Util "HOL-Library.Multiset"
begin

text \<open>
  \<open>dict.c\<close>: the chained hash table with incremental rehashing that holds the key space, the
  expires, hashes and sets of Redis.  A dictionary has two tables; while \<open>rehashidx\<close> is not -1
  every operation first moves one more bucket of the old table \<open>ht0\<close> to the new one \<open>ht1\<close>.

  A table is a list of buckets, a bucket the list of its entries in the order of the chain; a
  \<open>NULL\<close> table is the empty list.  An access outside a table, a failed \<open>assert\<close> and the overflow
  of the \<open>int\<close> counter \<open>rehashidx\<close> are \<open>None\<close>.  A pointer to an entry is its position: table,
  bucket, place in the chain.  The invariant \<open>dict_inv\<close> and the abstraction \<open>dict_map\<close> come after
  the code.
\<close>

section \<open>The code\<close>

record 'k dictType =
  hashFunction :: "'k \<Rightarrow> nat"
  keyCompare :: "'k \<Rightarrow> 'k \<Rightarrow> bool"

record ('k, 'v) dictht =
  table :: "('k \<times> 'v) list list"
  ht_size :: nat
  sizemask :: nat
  used :: nat

record ('k, 'v) dict =
  ht0 :: "('k, 'v) dictht"
  ht1 :: "('k, 'v) dictht"
  rehashidx :: int
  iterators :: int

subsection \<open>Hash functions\<close>

definition dictIntHashFunction :: "32 word \<Rightarrow> 32 word" where
  "dictIntHashFunction key =
     (let key = key + NOT (push_bit 15 key);
          key = key XOR drop_bit 10 key;
          key = key + push_bit 3 key;
          key = key XOR drop_bit 6 key;
          key = key + NOT (push_bit 11 key);
          key = key XOR drop_bit 16 key
      in key)"

definition dictIdentityHashFunction :: "32 word \<Rightarrow> 32 word" where
  "dictIdentityHashFunction key = key"

text \<open>MurmurHash2 on a little endian host.\<close>

fun murmur_loop :: "32 word \<Rightarrow> byte list \<Rightarrow> 32 word \<times> byte list" where
  "murmur_loop h (d0 # d1 # d2 # d3 # data) =
     (let m = 0x5bd1e995;
          k = ucast d0 OR push_bit 8 (ucast d1) OR push_bit 16 (ucast d2) OR push_bit 24 (ucast d3);
          k = k * m;
          k = k XOR drop_bit 24 k;
          k = k * m;
          h = h * m;
          h = h XOR k
      in murmur_loop h data)"
| "murmur_loop h data = (h, data)"

definition dictGenHashFunction :: "32 word \<Rightarrow> byte list \<Rightarrow> 32 word" where
  "dictGenHashFunction seed key =
     (let m = 0x5bd1e995;
          (h, data) = murmur_loop (seed XOR of_nat (length key)) key;
          h = (if length data = 3 then h XOR push_bit 16 (ucast (data ! 2)) else h);
          h = (if length data \<ge> 2 then h XOR push_bit 8 (ucast (data ! 1)) else h);
          h = (if length data \<ge> 1 then (h XOR ucast (data ! 0)) * m else h);
          h = h XOR drop_bit 13 h;
          h = h * m;
          h = h XOR drop_bit 15 h
      in h)"

primrec case_hash_loop :: "32 word \<Rightarrow> byte list \<Rightarrow> 32 word" where
  "case_hash_loop hash [] = hash"
| "case_hash_loop hash (c # buf) =
     case_hash_loop ((push_bit 5 hash + hash) + ucast (char_tolower c)) buf"

definition dictGenCaseHashFunction :: "32 word \<Rightarrow> byte list \<Rightarrow> 32 word" where
  "dictGenCaseHashFunction seed buf = case_hash_loop seed buf"

subsection \<open>Creation, resizing, rehashing\<close>

definition dictReset :: "('k, 'v) dictht" where
  "dictReset = \<lparr>table = [], ht_size = 0, sizemask = 0, used = 0\<rparr>"

definition dictInit :: "('k, 'v) dict" where
  "dictInit = \<lparr>ht0 = dictReset, ht1 = dictReset, rehashidx = - 1, iterators = 0\<rparr>"

definition dictCreate :: "('k, 'v) dict" where
  "dictCreate = dictInit"

definition dictIsRehashing :: "('k, 'v) dict \<Rightarrow> bool" where
  "dictIsRehashing d \<longleftrightarrow> rehashidx d \<noteq> - 1"

definition dictSize :: "('k, 'v) dict \<Rightarrow> nat" where
  "dictSize d = used (ht0 d) + used (ht1 d)"

text \<open>The loop variable \<open>i\<close> of \<open>_dictNextPower\<close> is \<open>4 * 2 ^ j\<close>.\<close>

function next_power_loop :: "nat \<Rightarrow> nat \<Rightarrow> nat" where
  "next_power_loop j sz =
     (let i = 4 * 2 ^ j in if i \<ge> sz then i else next_power_loop (Suc j) sz)"
  by pat_completeness auto
termination
proof (relation "measure (\<lambda>(j, sz). sz - 4 * 2 ^ j)")
  fix j sz i :: nat
  assume "i = 4 * 2 ^ j" "\<not> sz \<le> i"
  moreover have "(4 :: nat) * 2 ^ j < 4 * 2 ^ Suc j" by simp
  ultimately show "((Suc j, sz), j, sz) \<in> measure (\<lambda>(j, sz). sz - 4 * 2 ^ j)"
    by (simp add: diff_less_mono2)
qed simp

declare next_power_loop.simps [simp del]

definition dictNextPower :: "nat \<Rightarrow> nat" where
  "dictNextPower sz = (if sz \<ge> 2 ^ 63 - 1 then 2 ^ 63 - 1 else next_power_loop 0 sz)"

definition dictExpand :: "('k, 'v) dict \<Rightarrow> nat \<Rightarrow> ('k, 'v) dict \<times> bool" where
  "dictExpand d sz =
     (let realsize = dictNextPower sz
      in if dictIsRehashing d \<or> used (ht0 d) > sz then (d, False)
         else let n = \<lparr>table = replicate realsize [], ht_size = realsize, sizemask = realsize - 1, used = 0\<rparr>
              in if table (ht0 d) = [] then (d\<lparr>ht0 := n\<rparr>, True)
                 else (d\<lparr>ht1 := n, rehashidx := 0\<rparr>, True))"

definition dictResize :: "bool \<Rightarrow> ('k, 'v) dict \<Rightarrow> ('k, 'v) dict \<times> bool" where
  "dictResize dict_can_resize d =
     (if \<not> dict_can_resize \<or> dictIsRehashing d then (d, False)
      else let minimal = to_int32 (int (used (ht0 d)));
               minimal = (if minimal < 4 then 4 else minimal)
           in dictExpand d (nat minimal))"

definition bucket :: "('k, 'v) dictht \<Rightarrow> nat \<Rightarrow> ('k \<times> 'v) list option" where
  "bucket ht i = (if i < length (table ht) then Some (table ht ! i) else None)"

definition ulong_dec :: "nat \<Rightarrow> nat" where
  "ulong_dec n = (if n = 0 then 2 ^ 64 - 1 else n - 1)"

function skip_empty :: "('k, 'v) dictht \<Rightarrow> nat \<Rightarrow> nat option" where
  "skip_empty ht i =
     (if i < length (table ht)
      then (if table ht ! i = [] then skip_empty ht (Suc i) else Some i)
      else None)"
  by pat_completeness auto
termination by (relation "measure (\<lambda>(ht, i). length (table ht) - i)") auto

declare skip_empty.simps [simp del]

primrec move_bucket ::
  "'k dictType \<Rightarrow> ('k \<times> 'v) list \<Rightarrow> ('k, 'v) dict \<Rightarrow> ('k, 'v) dict option" where
  "move_bucket ty [] d = Some d"
| "move_bucket ty (de # rest) d =
     (let h = hashFunction ty (fst de) AND sizemask (ht1 d)
      in do {
        b \<leftarrow> bucket (ht1 d) h;
        let ht1' = (ht1 d)\<lparr>table := (table (ht1 d))[h := de # b], used := used (ht1 d) + 1\<rparr>;
        let ht0' = (ht0 d)\<lparr>used := ulong_dec (used (ht0 d))\<rparr>;
        move_bucket ty rest (d\<lparr>ht0 := ht0', ht1 := ht1'\<rparr>) })"

primrec rehash_loop :: "'k dictType \<Rightarrow> nat \<Rightarrow> ('k, 'v) dict \<Rightarrow> (('k, 'v) dict \<times> bool) option" where
  "rehash_loop ty 0 d = Some (d, True)"
| "rehash_loop ty (Suc n) d =
     (if used (ht0 d) = 0
      then Some (d\<lparr>ht0 := ht1 d, ht1 := dictReset, rehashidx := - 1\<rparr>, False)
      else if \<not> (int (ht_size (ht0 d)) > rehashidx d) then None
      else do {
        i \<leftarrow> skip_empty (ht0 d) (nat (rehashidx d));
        de \<leftarrow> bucket (ht0 d) i;
        d \<leftarrow> move_bucket ty de d;
        let d = d\<lparr>ht0 := (ht0 d)\<lparr>table := (table (ht0 d))[i := []]\<rparr>\<rparr>;
        idx \<leftarrow> c_int (int i + 1);
        rehash_loop ty n (d\<lparr>rehashidx := idx\<rparr>) })"

definition dictRehash :: "'k dictType \<Rightarrow> ('k, 'v) dict \<Rightarrow> nat \<Rightarrow> (('k, 'v) dict \<times> bool) option" where
  "dictRehash ty d n = (if \<not> dictIsRehashing d then Some (d, False) else rehash_loop ty n d)"

definition dictRehashStep :: "'k dictType \<Rightarrow> ('k, 'v) dict \<Rightarrow> ('k, 'v) dict option" where
  "dictRehashStep ty d =
     (if iterators d = 0 then do { (d, more) \<leftarrow> dictRehash ty d 1; Some d } else Some d)"

subsection \<open>Lookup and update\<close>

text \<open>The position of the first entry of a chain whose key compares equal.\<close>

primrec chain_find :: "'k dictType \<Rightarrow> 'k \<Rightarrow> ('k \<times> 'v) list \<Rightarrow> nat option" where
  "chain_find ty key [] = None"
| "chain_find ty key (he # rest) =
     (if keyCompare ty key (fst he) then Some 0 else map_option Suc (chain_find ty key rest))"

definition dictExpandIfNeeded :: "bool \<Rightarrow> ('k, 'v) dict \<Rightarrow> ('k, 'v) dict \<times> bool" where
  "dictExpandIfNeeded dict_can_resize d =
     (if dictIsRehashing d then (d, True)
      else if ht_size (ht0 d) = 0 then dictExpand d 4
      else if used (ht0 d) \<ge> ht_size (ht0 d) \<and>
              (dict_can_resize \<or> used (ht0 d) div ht_size (ht0 d) > 5)
      then dictExpand d ((if ht_size (ht0 d) > used (ht0 d) then ht_size (ht0 d) else used (ht0 d)) * 2)
      else (d, True))"

definition dictKeyIndex ::
  "'k dictType \<Rightarrow> bool \<Rightarrow> ('k, 'v) dict \<Rightarrow> 'k \<Rightarrow> (('k, 'v) dict \<times> int) option" where
  "dictKeyIndex ty dict_can_resize d key =
     (let (d, ok) = dictExpandIfNeeded dict_can_resize d
      in if \<not> ok then Some (d, - 1)
         else let h = hashFunction ty key; idx = h AND sizemask (ht0 d)
         in do {
           he \<leftarrow> bucket (ht0 d) idx;
           if chain_find ty key he \<noteq> None then Some (d, - 1)
           else if \<not> dictIsRehashing d then Some (d, to_int32 (int idx))
           else let idx = h AND sizemask (ht1 d)
           in do {
             he \<leftarrow> bucket (ht1 d) idx;
             if chain_find ty key he \<noteq> None then Some (d, - 1)
             else Some (d, to_int32 (int idx)) } })"

type_synonym entry = "nat \<times> nat \<times> nat" \<comment> \<open>table, bucket, place in the chain\<close>

definition insert_head :: "('k, 'v) dictht \<Rightarrow> nat \<Rightarrow> 'k \<times> 'v \<Rightarrow> ('k, 'v) dictht option" where
  "insert_head ht i e = do {
     b \<leftarrow> bucket ht i;
     Some (ht\<lparr>table := (table ht)[i := e # b], used := used ht + 1\<rparr>) }"

text \<open>
  \<open>dictAddRaw\<close> returns the new entry for its caller to fill; \<open>junk\<close> is the content of the value
  field of the fresh entry.
\<close>

definition dictAddRaw ::
  "'k dictType \<Rightarrow> bool \<Rightarrow> ('k, 'v) dict \<Rightarrow> 'k \<Rightarrow> 'v \<Rightarrow> (('k, 'v) dict \<times> entry option) option" where
  "dictAddRaw ty dict_can_resize d key junk = do {
     d \<leftarrow> (if dictIsRehashing d then dictRehashStep ty d else Some d);
     (d, index) \<leftarrow> dictKeyIndex ty dict_can_resize d key;
     if index = - 1 then Some (d, None)
     else if index < 0 then None
     else if dictIsRehashing d
     then do { ht \<leftarrow> insert_head (ht1 d) (nat index) (key, junk);
               Some (d\<lparr>ht1 := ht\<rparr>, Some (1, nat index, 0)) }
     else do { ht \<leftarrow> insert_head (ht0 d) (nat index) (key, junk);
               Some (d\<lparr>ht0 := ht\<rparr>, Some (0, nat index, 0)) } }"

definition ht_get :: "('k, 'v) dictht \<Rightarrow> nat \<Rightarrow> nat \<Rightarrow> ('k \<times> 'v) option" where
  "ht_get ht i j = do { b \<leftarrow> bucket ht i; if j < length b then Some (b ! j) else None }"

definition ht_set :: "('k, 'v) dictht \<Rightarrow> nat \<Rightarrow> nat \<Rightarrow> 'v \<Rightarrow> ('k, 'v) dictht option" where
  "ht_set ht i j v = do {
     b \<leftarrow> bucket ht i;
     if j < length b then Some (ht\<lparr>table := (table ht)[i := b[j := (fst (b ! j), v)]]\<rparr>) else None }"

definition dictGetEntry :: "('k, 'v) dict \<Rightarrow> entry \<Rightarrow> ('k \<times> 'v) option" where
  "dictGetEntry d e = (case e of (t, i, j) \<Rightarrow> ht_get (if t = 0 then ht0 d else ht1 d) i j)"

definition dictSetVal :: "('k, 'v) dict \<Rightarrow> entry \<Rightarrow> 'v \<Rightarrow> ('k, 'v) dict option" where
  "dictSetVal d e v = (case e of (t, i, j) \<Rightarrow>
     if t = 0 then do { ht \<leftarrow> ht_set (ht0 d) i j v; Some (d\<lparr>ht0 := ht\<rparr>) }
     else do { ht \<leftarrow> ht_set (ht1 d) i j v; Some (d\<lparr>ht1 := ht\<rparr>) })"

definition dictAdd ::
  "'k dictType \<Rightarrow> bool \<Rightarrow> ('k, 'v) dict \<Rightarrow> 'k \<Rightarrow> 'v \<Rightarrow> (('k, 'v) dict \<times> bool) option" where
  "dictAdd ty dict_can_resize d key val = do {
     (d, entry) \<leftarrow> dictAddRaw ty dict_can_resize d key val;
     case entry of
       None \<Rightarrow> Some (d, False)
     | Some e \<Rightarrow> do { d \<leftarrow> dictSetVal d e val; Some (d, True) } }"

definition dictFind ::
  "'k dictType \<Rightarrow> ('k, 'v) dict \<Rightarrow> 'k \<Rightarrow> (('k, 'v) dict \<times> entry option) option" where
  "dictFind ty d key =
     (if ht_size (ht0 d) = 0 then Some (d, None)
      else do {
        d \<leftarrow> (if dictIsRehashing d then dictRehashStep ty d else Some d);
        let h = hashFunction ty key;
        let idx = h AND sizemask (ht0 d);
        he \<leftarrow> bucket (ht0 d) idx;
        case chain_find ty key he of
          Some j \<Rightarrow> Some (d, Some (0, idx, j))
        | None \<Rightarrow>
            if \<not> dictIsRehashing d then Some (d, None)
            else let idx = h AND sizemask (ht1 d)
            in do {
              he \<leftarrow> bucket (ht1 d) idx;
              case chain_find ty key he of
                Some j \<Rightarrow> Some (d, Some (1, idx, j))
              | None \<Rightarrow> Some (d, None) } })"

definition dictFetchValue ::
  "'k dictType \<Rightarrow> ('k, 'v) dict \<Rightarrow> 'k \<Rightarrow> (('k, 'v) dict \<times> 'v option) option" where
  "dictFetchValue ty d key = do {
     (d, he) \<leftarrow> dictFind ty d key;
     case he of
       None \<Rightarrow> Some (d, None)
     | Some e \<Rightarrow> do { kv \<leftarrow> dictGetEntry d e; Some (d, Some (snd kv)) } }"

definition dictReplace ::
  "'k dictType \<Rightarrow> bool \<Rightarrow> ('k, 'v) dict \<Rightarrow> 'k \<Rightarrow> 'v \<Rightarrow> (('k, 'v) dict \<times> bool) option" where
  "dictReplace ty dict_can_resize d key val = do {
     (d, added) \<leftarrow> dictAdd ty dict_can_resize d key val;
     if added then Some (d, True)
     else do {
       (d, entry) \<leftarrow> dictFind ty d key;
       case entry of
         None \<Rightarrow> None
       | Some e \<Rightarrow> do { d \<leftarrow> dictSetVal d e val; Some (d, False) } } }"

definition dictReplaceRaw ::
  "'k dictType \<Rightarrow> bool \<Rightarrow> ('k, 'v) dict \<Rightarrow> 'k \<Rightarrow> 'v \<Rightarrow> (('k, 'v) dict \<times> entry option) option" where
  "dictReplaceRaw ty dict_can_resize d key junk = do {
     (d, entry) \<leftarrow> dictFind ty d key;
     case entry of
       Some e \<Rightarrow> Some (d, Some e)
     | None \<Rightarrow> dictAddRaw ty dict_can_resize d key junk }"

text \<open>Unlinking: the chain without its entry at a place.\<close>

definition unlink :: "('k, 'v) dictht \<Rightarrow> nat \<Rightarrow> ('k \<times> 'v) list \<Rightarrow> nat \<Rightarrow> ('k, 'v) dictht" where
  "unlink ht i he j =
     ht\<lparr>table := (table ht)[i := take j he @ drop (Suc j) he], used := ulong_dec (used ht)\<rparr>"

definition dictGenericDelete ::
  "'k dictType \<Rightarrow> ('k, 'v) dict \<Rightarrow> 'k \<Rightarrow> (('k, 'v) dict \<times> bool) option" where
  "dictGenericDelete ty d key =
     (if ht_size (ht0 d) = 0 then Some (d, False)
      else do {
        d \<leftarrow> (if dictIsRehashing d then dictRehashStep ty d else Some d);
        let h = hashFunction ty key;
        let idx = h AND sizemask (ht0 d);
        he \<leftarrow> bucket (ht0 d) idx;
        case chain_find ty key he of
          Some j \<Rightarrow> Some (d\<lparr>ht0 := unlink (ht0 d) idx he j\<rparr>, True)
        | None \<Rightarrow>
            if \<not> dictIsRehashing d then Some (d, False)
            else let idx = h AND sizemask (ht1 d)
            in do {
              he \<leftarrow> bucket (ht1 d) idx;
              case chain_find ty key he of
                Some j \<Rightarrow> Some (d\<lparr>ht1 := unlink (ht1 d) idx he j\<rparr>, True)
              | None \<Rightarrow> Some (d, False) } })"

definition dictDelete ::
  "'k dictType \<Rightarrow> ('k, 'v) dict \<Rightarrow> 'k \<Rightarrow> (('k, 'v) dict \<times> bool) option" where
  "dictDelete ty d key = dictGenericDelete ty d key"

text \<open>Clearing a table frees every entry and resets it; freed memory is not modelled.\<close>

definition dictClear :: "('k, 'v) dictht \<Rightarrow> ('k, 'v) dictht" where
  "dictClear ht = dictReset"

definition dictEmpty :: "('k, 'v) dict \<Rightarrow> ('k, 'v) dict" where
  "dictEmpty d = d\<lparr>ht0 := dictClear (ht0 d), ht1 := dictClear (ht1 d), rehashidx := - 1, iterators := 0\<rparr>"

section \<open>The invariant and the abstraction\<close>

definition entries :: "('k, 'v) dict \<Rightarrow> ('k \<times> 'v) list" where
  "entries d = concat (table (ht0 d)) @ concat (table (ht1 d))"

definition dict_map :: "('k, 'v) dict \<Rightarrow> 'k \<rightharpoonup> 'v" where
  "dict_map d = map_of (entries d)"

text \<open>An allocated table: a power of two of buckets, every entry in the bucket of its hash.\<close>

definition ht_ok :: "('k \<Rightarrow> nat) \<Rightarrow> ('k, 'v) dictht \<Rightarrow> bool" where
  "ht_ok hf ht \<longleftrightarrow>
     (\<exists>b. 2 \<le> b \<and> b \<le> 30 \<and> ht_size ht = 2 ^ b) \<and>
     length (table ht) = ht_size ht \<and>
     sizemask ht = ht_size ht - 1 \<and>
     used ht = length (concat (table ht)) \<and>
     (\<forall>i < ht_size ht. \<forall>e \<in> set (table ht ! i). hf (fst e) mod ht_size ht = i)"

definition dict_inv :: "'k dictType \<Rightarrow> ('k, 'v) dict \<Rightarrow> bool" where
  "dict_inv ty d \<longleftrightarrow>
     keyCompare ty = (=) \<and>
     distinct (map fst (entries d)) \<and>
     (if rehashidx d = - 1
      then ht1 d = dictReset \<and> (ht0 d = dictReset \<or> ht_ok (hashFunction ty) (ht0 d))
      else 0 \<le> rehashidx d \<and> rehashidx d \<le> int (ht_size (ht0 d)) \<and>
           ht_ok (hashFunction ty) (ht0 d) \<and> ht_ok (hashFunction ty) (ht1 d) \<and>
           (\<forall>i < nat (rehashidx d). table (ht0 d) ! i = []))"

named_theorems dict_simps \<open>unfolding of the dictionary's components\<close>

lemma reset_simps [simp]:
  "table dictReset = []" "ht_size dictReset = 0" "used dictReset = 0" "sizemask dictReset = 0"
  by (simp_all add: dictReset_def)

lemma and_mask_nat: "(h :: nat) AND (2 ^ b - Suc 0) = h mod 2 ^ b"
proof -
  have "(2 :: nat) ^ b - Suc 0 = mask b" by (simp add: mask_eq_exp_minus_1)
  then show ?thesis by (simp flip: take_bit_eq_mask take_bit_eq_mod)
qed

lemma ht_okD:
  assumes "ht_ok hf ht"
  shows "length (table ht) = ht_size ht" "0 < ht_size ht" "4 \<le> ht_size ht" "ht_size ht \<le> 2 ^ 30"
    "used ht = length (concat (table ht))" "h AND sizemask ht = h mod ht_size ht"
    "\<And>i e. i < ht_size ht \<Longrightarrow> e \<in> set (table ht ! i) \<Longrightarrow> hf (fst e) mod ht_size ht = i"
proof -
  obtain b where b: "2 \<le> b" "b \<le> 30" "ht_size ht = 2 ^ b" using assms by (auto simp: ht_ok_def)
  have "(2 :: nat) ^ 2 \<le> 2 ^ b" "(2 :: nat) ^ b \<le> 2 ^ 30" using b by (intro power_increasing; simp)+
  then show "4 \<le> ht_size ht" "ht_size ht \<le> 2 ^ 30" "0 < ht_size ht" using b(3) by simp_all
  show "h AND sizemask ht = h mod ht_size ht"
    using assms b(3) by (simp add: ht_ok_def and_mask_nat)
qed (use assms in \<open>auto simp: ht_ok_def\<close>)

lemma bucket_in [simp]: "i < length (table ht) \<Longrightarrow> bucket ht i = Some (table ht ! i)"
  by (simp add: bucket_def)

text \<open>Replacing a bucket exchanges its entries.\<close>

lemma mset_concat_update:
  "i < length t \<Longrightarrow> mset (concat (t[i := b])) + mset (t ! i) = mset (concat t) + mset b"
proof -
  assume i: "i < length t"
  then have "t = take i t @ t ! i # drop (Suc i) t" "t[i := b] = take i t @ b # drop (Suc i) t"
    by (simp_all add: id_take_nth_drop upd_conv_take_nth_drop)
  then have "mset (concat t) = mset (concat (take i t)) + mset (t ! i) + mset (concat (drop (Suc i) t))"
    "mset (concat (t[i := b])) = mset (concat (take i t)) + mset b + mset (concat (drop (Suc i) t))"
    by (metis concat_append concat.simps(2) mset_append add.assoc)+
  then show ?thesis by simp
qed

lemma length_concat_update:
  "i < length t \<Longrightarrow> length (concat (t[i := b])) + length (t ! i) = length (concat t) + length b"
  using arg_cong [OF mset_concat_update, of i t size b] by simp

lemma dictht_update_order [simp]:
  "ht\<lparr>used := u, table := t\<rparr> = ht\<lparr>table := t, used := u\<rparr>"
  by (cases ht) simp

lemma ht_ok_update:
  assumes "ht_ok hf ht" "i < ht_size ht" "\<forall>e \<in> set b. hf (fst e) mod ht_size ht = i"
    "u + length (table ht ! i) = used ht + length b"
  shows "ht_ok hf (ht\<lparr>table := (table ht)[i := b], used := u\<rparr>)"
  using assms length_concat_update [of i "table ht" b] ht_okD(1,5) [OF assms(1)]
  by (auto simp: ht_ok_def nth_list_update)

lemma in_bucket_iff:
  assumes "ht_ok hf ht"
  shows "(k, v) \<in> set (concat (table ht)) \<longleftrightarrow> (k, v) \<in> set (table ht ! (hf k mod ht_size ht))"
proof
  assume "(k, v) \<in> set (concat (table ht))"
  then obtain i where "i < length (table ht)" "(k, v) \<in> set (table ht ! i)"
    by (auto simp: in_set_conv_nth [where xs = "table ht"])
  then show "(k, v) \<in> set (table ht ! (hf k mod ht_size ht))"
    using ht_okD(1,7) [OF assms] by fastforce
next
  assume "(k, v) \<in> set (table ht ! (hf k mod ht_size ht))"
  moreover have "hf k mod ht_size ht < length (table ht)" using ht_okD(1,2) [OF assms] by simp
  ultimately show "(k, v) \<in> set (concat (table ht))" by (auto intro: nth_mem)
qed

text \<open>A chain search finds the key if it is in the chain.\<close>

lemma chain_find_Some:
  "keyCompare ty = (=) \<Longrightarrow> chain_find ty k c = Some j \<Longrightarrow> j < length c \<and> fst (c ! j) = k"
  by (induction c arbitrary: j) (auto split: if_splits)

lemma chain_find_None:
  "keyCompare ty = (=) \<Longrightarrow> chain_find ty k c = None \<longleftrightarrow> k \<notin> fst ` set c"
  by (induction c) auto

text \<open>Dictionaries with the same entries, in whatever order, are the same map.\<close>

lemma map_of_mset:
  assumes "distinct (map fst xs)" "mset xs = mset ys"
  shows "map_of ys = map_of xs" "distinct (map fst ys)"
proof -
  have "mset (map fst xs) = mset (map fst ys)" using assms(2) by (metis mset_map)
  then show d: "distinct (map fst ys)" using assms(1) by (metis mset_eq_imp_distinct_iff)
  show "map_of ys = map_of xs"
    using assms d by (intro map_of_eqI) (auto simp: map_of_eq_Some_iff dest: mset_eq_setD)
qed

lemma dict_map_Some:
  "dict_inv ty d \<Longrightarrow> dict_map d k = Some v \<longleftrightarrow> (k, v) \<in> set (entries d)"
  by (simp add: dict_map_def dict_inv_def)

lemma dict_map_None: "dict_map d k = None \<longleftrightarrow> k \<notin> fst ` set (entries d)"
  by (simp add: dict_map_def map_of_eq_None_iff)

section \<open>Rehashing keeps the map\<close>

lemma skip_empty_correct:
  assumes "\<exists>j. i \<le> j \<and> j < length (table ht) \<and> table ht ! j \<noteq> []"
  shows "\<exists>j. skip_empty ht i = Some j \<and> i \<le> j \<and> j < length (table ht) \<and> table ht ! j \<noteq> [] \<and>
    (\<forall>l. i \<le> l \<and> l < j \<longrightarrow> table ht ! l = [])"
  using assms
proof (induction ht i rule: skip_empty.induct)
  case (1 ht i)
  then obtain j where j: "i \<le> j" "j < length (table ht)" "table ht ! j \<noteq> []" by blast
  show ?case
  proof (cases "table ht ! i = []")
    case True
    then have "Suc i \<le> j" using j by (cases "i = j") auto
    then obtain j' where j': "skip_empty ht (Suc i) = Some j'" "Suc i \<le> j'" "j' < length (table ht)"
      "table ht ! j' \<noteq> []" "\<forall>l. Suc i \<le> l \<and> l < j' \<longrightarrow> table ht ! l = []"
      using "1.IH" [OF le_less_trans [OF j(1,2)] True] j by blast
    then have "\<forall>l. i \<le> l \<and> l < j' \<longrightarrow> table ht ! l = []"
      using True by (auto simp: Suc_le_eq dest: le_neq_implies_less)
    then show ?thesis using j' True j by (subst skip_empty.simps) auto
  next
    case False
    then show ?thesis using j by (subst skip_empty.simps) auto
  qed
qed

text \<open>
  Moving the entries of a chain: those left of the chain's rest are in the new table, and the
  used counters follow.
\<close>

lemma move_bucket_correct:
  assumes "ht_ok (hashFunction ty) (ht1 d)" "used (ht0 d) = length de + n"
  shows "\<exists>ht1'. move_bucket ty de d = Some (d\<lparr>ht0 := (ht0 d)\<lparr>used := n\<rparr>, ht1 := ht1'\<rparr>) \<and>
    ht_ok (hashFunction ty) ht1' \<and> ht_size ht1' = ht_size (ht1 d) \<and>
    mset (concat (table ht1')) = mset (concat (table (ht1 d))) + mset de"
  using assms
proof (induction de arbitrary: d)
  case Nil
  then show ?case by (intro exI [of _ "ht1 d"]) simp
next
  case (Cons e de)
  note ok = ht_okD [OF Cons.prems(1)]
  define h where "h = hashFunction ty (fst e) mod ht_size (ht1 d)"
  have h: "h < length (table (ht1 d))" using ok(1,2) by (simp add: h_def)
  define t where "t = (ht1 d)\<lparr>table := (table (ht1 d))[h := e # table (ht1 d) ! h],
                              used := used (ht1 d) + 1\<rparr>"
  define d' where "d' = d\<lparr>ht0 := (ht0 d)\<lparr>used := length de + n\<rparr>, ht1 := t\<rparr>"
  have "ht_ok (hashFunction ty) t"
    unfolding t_def by (rule ht_ok_update [OF Cons.prems(1)])
      (use h ok(1,7) in \<open>auto simp: h_def\<close>)
  then obtain ht1' where ht1': "move_bucket ty de d' = Some (d'\<lparr>ht0 := (ht0 d')\<lparr>used := n\<rparr>, ht1 := ht1'\<rparr>)"
    "ht_ok (hashFunction ty) ht1'" "ht_size ht1' = ht_size (ht1 d)"
    "mset (concat (table ht1')) = mset (concat (table t)) + mset de"
    using Cons.IH [of d'] by (auto simp: d'_def t_def)
  have "move_bucket ty (e # de) d = move_bucket ty de d'"
    using Cons.prems(2) h ok(6) by (simp add: d'_def t_def ulong_dec_def flip: h_def)
  moreover have "mset (concat (table t)) = mset (concat (table (ht1 d))) + {#e#}"
    using mset_concat_update [OF h, of "e # table (ht1 d) ! h"] by (simp add: t_def)
  ultimately show ?case using ht1' by (intro exI [of _ ht1']) (simp add: d'_def)
qed

text \<open>What rehashing keeps: the invariant, the entries, the iterator count and the table sizes.\<close>

definition rehashed :: "'k dictType \<Rightarrow> ('k, 'v) dict \<Rightarrow> ('k, 'v) dict \<Rightarrow> bool" where
  "rehashed ty d d' \<longleftrightarrow>
     dict_inv ty d' \<and> mset (entries d') = mset (entries d) \<and> iterators d' = iterators d \<and>
     (ht_size (ht0 d) \<noteq> 0 \<longrightarrow> ht_size (ht0 d') \<noteq> 0)"

lemma rehashed_map: "dict_inv ty d \<Longrightarrow> rehashed ty d d' \<Longrightarrow> dict_map d' = dict_map d"
  using map_of_mset [of "entries d" "entries d'"]
  by (auto simp: rehashed_def dict_inv_def dict_map_def)

lemma nonempty_concat: "concat t \<noteq> [] \<Longrightarrow> \<exists>j < length t. t ! j \<noteq> []"
  by (auto simp: in_set_conv_nth)

lemma rehash_one_bucket:
  assumes inv: "dict_inv ty d" and re: "rehashidx d \<noteq> - 1" and ne: "used (ht0 d) \<noteq> 0"
  shows "\<exists>d'. rehash_loop ty (Suc n) d = rehash_loop ty n d' \<and> rehashed ty d d' \<and>
    rehashidx d < rehashidx d' \<and> ht_size (ht0 d') = ht_size (ht0 d) \<and> used (ht0 d') < used (ht0 d)"
proof -
  have i: "0 \<le> rehashidx d" "ht_ok (hashFunction ty) (ht0 d)" "ht_ok (hashFunction ty) (ht1 d)"
    "\<forall>i < nat (rehashidx d). table (ht0 d) ! i = []" "keyCompare ty = (=)"
    using inv re by (auto simp: dict_inv_def)
  note ok0 = ht_okD [OF i(2)]
  obtain j where j: "j < length (table (ht0 d))" "table (ht0 d) ! j \<noteq> []"
    using nonempty_concat [of "table (ht0 d)"] ok0(5) ne by auto
  then have "nat (rehashidx d) \<le> j" using i(4) by (meson not_le)
  then obtain m where m: "skip_empty (ht0 d) (nat (rehashidx d)) = Some m" "nat (rehashidx d) \<le> m"
    "m < length (table (ht0 d))" "table (ht0 d) ! m \<noteq> []"
    "\<forall>l. nat (rehashidx d) \<le> l \<and> l < m \<longrightarrow> table (ht0 d) ! l = []"
    using skip_empty_correct [of "nat (rehashidx d)" "ht0 d"] j by blast
  define de where "de = table (ht0 d) ! m"
  have len: "length (concat ((table (ht0 d))[m := []])) + length de = used (ht0 d)"
    using length_concat_update [OF m(3), of "[]"] ok0(5) by (simp add: de_def)
  define u where "u = length (concat ((table (ht0 d))[m := []]))"
  have "0 < length de" using m(4) by (simp add: de_def)
  then have dec: "u < used (ht0 d)" using len unfolding u_def by linarith
  obtain t1 where t1: "move_bucket ty de d = Some (d\<lparr>ht0 := (ht0 d)\<lparr>used := u\<rparr>, ht1 := t1\<rparr>)"
    "ht_ok (hashFunction ty) t1" "mset (concat (table t1)) = mset (concat (table (ht1 d))) + mset de"
    using move_bucket_correct [OF i(3), of de u] len by (auto simp: u_def)
  define d' where "d' = d\<lparr>ht1 := t1, ht0 := (ht0 d)\<lparr>used := u, table := (table (ht0 d))[m := []]\<rparr>,
                          rehashidx := int m + 1\<rparr>"
  have "c_int (int m + 1) = Some (int m + 1)"
    using m(3) ok0(1,4) by (intro c_int_in_range) auto
  moreover have "rehashidx d < int (ht_size (ht0 d))" using m(2,3) ok0(1) i(1) by linarith
  ultimately have "rehash_loop ty (Suc n) d = rehash_loop ty n d'"
    using ne m t1(1) by (simp add: d'_def flip: de_def)
  moreover have "ht_ok (hashFunction ty) (ht0 d')"
    using ht_ok_update [OF i(2), of m "[]" u] m(3) ok0(1) len by (simp add: d'_def u_def de_def)
  moreover have same: "mset (entries d') = mset (entries d)"
    using mset_concat_update [OF m(3), of "[]"] t1(3) by (simp add: entries_def d'_def de_def)
  moreover have "distinct (map fst (entries d'))"
    using map_of_mset(2) [of "entries d" "entries d'"] same inv by (simp add: dict_inv_def)
  moreover have "\<forall>l < nat (rehashidx d'). table (ht0 d') ! l = []"
  proof (intro allI impI)
    fix l assume "l < nat (rehashidx d')"
    then have "l < nat (rehashidx d) \<or> nat (rehashidx d) \<le> l \<and> l < m \<or> l = m"
      by (auto simp: d'_def)
    then show "table (ht0 d') ! l = []" using m(3,5) i(4) by (auto simp: d'_def nth_list_update)
  qed
  ultimately show ?thesis
    using i(1,5) m(2,3) t1(2) ok0(1) len de_def m(4)
    by (intro exI [of _ d']) (use dec in \<open>auto simp: rehashed_def dict_inv_def d'_def u_def\<close>)
qed

lemma rehash_loop_correct:
  assumes "dict_inv ty d" "rehashidx d \<noteq> - 1"
  shows "\<exists>d' more. rehash_loop ty n d = Some (d', more) \<and> rehashed ty d d' \<and>
    (more \<longleftrightarrow> rehashidx d' \<noteq> - 1)"
  using assms
proof (induction n arbitrary: d)
  case 0
  then show ?case by (simp add: rehashed_def)
next
  case (Suc n)
  show ?case
  proof (cases "used (ht0 d) = 0")
    case True
    define d' where "d' = d\<lparr>ht0 := ht1 d, ht1 := dictReset, rehashidx := - 1\<rparr>"
    have "concat (table (ht0 d)) = []" using True Suc.prems
      by (auto simp: dict_inv_def ht_ok_def)
    then have "entries d' = entries d" by (simp add: entries_def d'_def)
    then have "rehashed ty d d'" using Suc.prems ht_okD(2) [of "hashFunction ty" "ht1 d"]
      by (auto simp: rehashed_def dict_inv_def d'_def)
    then show ?thesis using True by (intro exI [of _ d'] exI [of _ False]) (simp add: d'_def)
  next
    case False
    obtain d1 where d1: "rehash_loop ty (Suc n) d = rehash_loop ty n d1" "rehashed ty d d1"
      "rehashidx d < rehashidx d1"
      using rehash_one_bucket [OF Suc.prems False] by blast
    then have "dict_inv ty d1" "rehashidx d1 \<noteq> - 1"
      using Suc.prems by (auto simp: rehashed_def dict_inv_def)
    then obtain d' more where "rehash_loop ty n d1 = Some (d', more)" "rehashed ty d1 d'"
      "more \<longleftrightarrow> rehashidx d' \<noteq> - 1" using Suc.IH by blast
    then show ?thesis using d1 by (intro exI [of _ d'] exI [of _ more]) (auto simp: rehashed_def)
  qed
qed

lemma rehashed_refl [simp]: "dict_inv ty d \<Longrightarrow> rehashed ty d d"
  by (simp add: rehashed_def)

lemma dictRehash_correct:
  assumes "dict_inv ty d"
  shows "\<exists>d' more. dictRehash ty d n = Some (d', more) \<and> rehashed ty d d' \<and>
    (more \<longleftrightarrow> dictIsRehashing d')"
  using rehash_loop_correct [OF assms, of n] assms
  by (auto simp: dictRehash_def dictIsRehashing_def)

lemma dictRehashStep_correct:
  assumes "dict_inv ty d"
  shows "\<exists>d'. dictRehashStep ty d = Some d' \<and> rehashed ty d d'"
  using dictRehash_correct [OF assms, of 1] assms by (auto simp: dictRehashStep_def)

lemma step_if_rehashing:
  assumes "dict_inv ty d"
  shows "\<exists>d'. (if dictIsRehashing d then dictRehashStep ty d else Some d) = Some d' \<and> rehashed ty d d'"
  using dictRehashStep_correct [OF assms] assms by auto

section \<open>Lookup\<close>

lemma dict_inv_keyCompare: "dict_inv ty d \<Longrightarrow> keyCompare ty = (=)"
  by (simp add: dict_inv_def)

lemma dict_inv_ht0: "dict_inv ty d \<Longrightarrow> ht_size (ht0 d) \<noteq> 0 \<Longrightarrow> ht_ok (hashFunction ty) (ht0 d)"
  by (auto simp: dict_inv_def split: if_splits)

lemma dict_inv_rehashing:
  "dict_inv ty d \<Longrightarrow> dictIsRehashing d \<Longrightarrow>
     ht_ok (hashFunction ty) (ht0 d) \<and> ht_ok (hashFunction ty) (ht1 d)"
  by (auto simp: dict_inv_def dictIsRehashing_def)

lemma dict_inv_not_rehashing: "dict_inv ty d \<Longrightarrow> \<not> dictIsRehashing d \<Longrightarrow> ht1 d = dictReset"
  by (auto simp: dict_inv_def dictIsRehashing_def)

text \<open>Searching the one chain of a table that can hold a key decides whether the table has it.\<close>

lemma chain_search:
  fixes k :: 'k and ty :: "'k dictType" and ht :: "('k, 'v) dictht"
  assumes "ht_ok (hashFunction ty) ht" "keyCompare ty = (=)"
  defines "i \<equiv> hashFunction ty k AND sizemask ht"
  shows "bucket ht i = Some (table ht ! i)" "i = hashFunction ty k mod ht_size ht" "i < ht_size ht"
    "chain_find ty k (table ht ! i) = None \<longleftrightarrow> k \<notin> fst ` set (concat (table ht))"
    "chain_find ty k (table ht ! i) = Some j \<Longrightarrow>
       \<exists>v. ht_get ht i j = Some (k, v) \<and> (k, v) \<in> set (concat (table ht)) \<and> j < length (table ht ! i) \<and>
           table ht ! i ! j = (k, v)"
proof -
  note ok = ht_okD [OF assms(1)]
  show i: "i = hashFunction ty k mod ht_size ht" by (simp add: i_def ok(6))
  show lt: "i < ht_size ht" using ok(2) by (simp add: i)
  show b: "bucket ht i = Some (table ht ! i)" using lt ok(1) by simp
  have mem: "(k, v) \<in> set (concat (table ht)) \<longleftrightarrow> (k, v) \<in> set (table ht ! i)" for v
    using in_bucket_iff [OF assms(1)] by (simp add: i)
  have "k \<in> fst ` set (table ht ! i) \<longleftrightarrow> k \<in> fst ` set (concat (table ht))"
    using mem by (simp add: image_iff) (metis fst_conv prod.collapse)
  then show "chain_find ty k (table ht ! i) = None \<longleftrightarrow> k \<notin> fst ` set (concat (table ht))"
    using chain_find_None [OF assms(2)] by blast
  assume "chain_find ty k (table ht ! i) = Some j"
  then have j: "j < length (table ht ! i)" "fst (table ht ! i ! j) = k"
    using chain_find_Some [OF assms(2)] by blast+
  then obtain v where e: "table ht ! i ! j = (k, v)" by (metis prod.collapse)
  moreover have "(k, v) \<in> set (table ht ! i)" using nth_mem [OF j(1)] e by simp
  then have "(k, v) \<in> set (concat (table ht))" using mem by blast
  moreover have "ht_get ht i j = Some (k, v)" using j(1) b e by (simp add: ht_get_def)
  ultimately show "\<exists>v. ht_get ht i j = Some (k, v) \<and> (k, v) \<in> set (concat (table ht)) \<and>
      j < length (table ht ! i) \<and> table ht ! i ! j = (k, v)"
    using j(1) by blast
qed

lemma entries_empty: "dict_inv ty d \<Longrightarrow> ht_size (ht0 d) = 0 \<Longrightarrow> entries d = [] \<and> \<not> dictIsRehashing d"
  by (auto simp: dict_inv_def entries_def dictIsRehashing_def ht_ok_def split: if_splits)

lemma dictFind_correct:
  assumes "dict_inv ty d"
  shows "\<exists>d' e. dictFind ty d k = Some (d', e) \<and> rehashed ty d d' \<and>
    (case e of
       None \<Rightarrow> dict_map d k = None
     | Some e \<Rightarrow> \<exists>v. dictGetEntry d' e = Some (k, v) \<and> dict_map d k = Some v)"
proof (cases "ht_size (ht0 d) = 0")
  case True
  then show ?thesis using entries_empty [OF assms True] assms
    by (simp add: dictFind_def dict_map_def)
next
  case False
  obtain d1 where d1: "(if dictIsRehashing d then dictRehashStep ty d else Some d) = Some d1"
    "rehashed ty d d1" using step_if_rehashing [OF assms] by blast
  have inv: "dict_inv ty d1" using d1(2) by (simp add: rehashed_def)
  have map: "dict_map d = dict_map d1" using rehashed_map [OF assms d1(2)] by simp
  have nz: "ht_size (ht0 d1) \<noteq> 0" using d1(2) False by (simp add: rehashed_def)
  show ?thesis
  proof -
    note cmp = dict_inv_keyCompare [OF inv]
    note s0 = chain_search [OF dict_inv_ht0 [OF inv nz] cmp, of k]
    define i0 where "i0 = hashFunction ty k AND sizemask (ht0 d1)"
    note s0 = s0 [folded i0_def]
    show ?thesis
    proof (cases "chain_find ty k (table (ht0 d1) ! i0)")
      case (Some j)
      then obtain v where "ht_get (ht0 d1) i0 j = Some (k, v)" "(k, v) \<in> set (concat (table (ht0 d1)))"
        using s0(5) by blast
      then have "dictGetEntry d1 (0, i0, j) = Some (k, v)" "dict_map d1 k = Some v"
        using dict_map_Some [OF inv] by (simp_all add: dictGetEntry_def entries_def)
      then show ?thesis using False d1 s0(1) Some
        by (simp add: dictFind_def map Let_def flip: i0_def)
    next
      case None
      then have n0: "k \<notin> fst ` set (concat (table (ht0 d1)))" using s0(4) by blast
      show ?thesis
      proof (cases "dictIsRehashing d1")
        case nr: False
        then have "dict_map d1 k = None"
          using n0 dict_inv_not_rehashing [OF inv nr] by (simp add: dict_map_None entries_def)
        then show ?thesis using False d1 s0(1) None nr
          by (simp add: dictFind_def map Let_def flip: i0_def)
      next
        case re: True
        note s1 = chain_search [OF conjunct2 [OF dict_inv_rehashing [OF inv re]] cmp, of k]
        define i1 where "i1 = hashFunction ty k AND sizemask (ht1 d1)"
        note s1 = s1 [folded i1_def]
        show ?thesis
        proof (cases "chain_find ty k (table (ht1 d1) ! i1)")
          case (Some j)
          then obtain v where "ht_get (ht1 d1) i1 j = Some (k, v)" "(k, v) \<in> set (concat (table (ht1 d1)))"
            using s1(5) by blast
          then have "dictGetEntry d1 (1, i1, j) = Some (k, v)" "dict_map d1 k = Some v"
            using dict_map_Some [OF inv] by (simp_all add: dictGetEntry_def entries_def)
          then show ?thesis using False d1 s0(1) s1(1) None Some re
            by (simp add: dictFind_def map Let_def flip: i0_def i1_def)
        next
          case none1: None
          then have "dict_map d1 k = None"
            using n0 s1(4) by (auto simp: dict_map_None entries_def)
          then show ?thesis using False d1 s0(1) s1(1) None none1 re
            by (simp add: dictFind_def map Let_def flip: i0_def i1_def)
        qed
      qed
    qed
  qed
qed

section \<open>Changing one bucket\<close>

lemma map_of_mset_insert:
  assumes "distinct (map fst zs)" "k \<notin> fst ` set zs" "mset ys = add_mset (k, v) (mset zs)"
  shows "distinct (map fst ys)" "map_of ys = (map_of zs)(k \<mapsto> v)"
  using map_of_mset [of "(k, v) # zs" ys] assms by simp_all

lemma map_of_mset_delete:
  assumes "distinct (map fst xs)" "mset xs = add_mset (k, v) (mset zs)"
  shows "distinct (map fst zs)" "map_of zs = (map_of xs)(k := None)" "k \<notin> fst ` set zs"
proof -
  have m: "map_of ((k, v) # zs) = map_of xs" "distinct (map fst ((k, v) # zs))"
    using map_of_mset [of xs "(k, v) # zs"] assms by simp_all
  then show "distinct (map fst zs)" "k \<notin> fst ` set zs" by simp_all
  then have "map_of zs k = None" by (simp add: map_of_eq_None_iff)
  moreover have "map_of xs = (map_of zs)(k \<mapsto> v)" using m(1) by simp
  ultimately show "map_of zs = (map_of xs)(k := None)" by (simp add: fun_upd_idem)
qed

lemma map_of_mset_replace:
  assumes "distinct (map fst xs)" "mset xs = add_mset (k, w) N" "mset ys = add_mset (k, v) N"
  shows "distinct (map fst ys)" "map_of ys = (map_of xs)(k \<mapsto> v)"
proof -
  obtain zs where zs: "mset zs = N" using ex_mset by blast
  note d = map_of_mset_delete [OF assms(1), of k w zs, unfolded zs, OF assms(2)]
  show "distinct (map fst ys)" "map_of ys = (map_of xs)(k \<mapsto> v)"
    using map_of_mset_insert [OF d(1,3), of ys v] zs assms(3) d(2) by simp_all
qed

text \<open>The three ways an operation changes a table.\<close>

lemma insert_head_ok:
  assumes "ht_ok hf ht" "i = hf k mod ht_size ht"
  shows "\<exists>ht'. insert_head ht i (k, v) = Some ht' \<and> ht_ok hf ht' \<and> ht_size ht' = ht_size ht \<and>
    mset (concat (table ht')) = add_mset (k, v) (mset (concat (table ht))) \<and>
    used ht' = used ht + 1 \<and> table ht' = (table ht)[i := (k, v) # table ht ! i]"
proof -
  note ok = ht_okD [OF assms(1)]
  have i: "i < length (table ht)" using ok(1,2) by (simp add: assms(2))
  have "ht_ok hf (ht\<lparr>table := (table ht)[i := (k, v) # table ht ! i], used := used ht + 1\<rparr>)"
    by (rule ht_ok_update [OF assms(1)]) (use i ok(1,7) assms(2) in auto)
  then show ?thesis
    using i mset_concat_update [OF i, of "(k, v) # table ht ! i"] by (simp add: insert_head_def)
qed

lemma unlink_ok:
  assumes "ht_ok hf ht" "i < ht_size ht" "j < length (table ht ! i)"
  defines "ht' \<equiv> unlink ht i (table ht ! i) j"
  shows "ht_ok hf ht'" "ht_size ht' = ht_size ht" "used ht = used ht' + 1"
    "mset (concat (table ht)) = add_mset (table ht ! i ! j) (mset (concat (table ht')))"
proof -
  note ok = ht_okD [OF assms(1)]
  define c where "c = table ht ! i"
  have i: "i < length (table ht)" using ok(1) assms(2) by simp
  have c: "mset c = add_mset (c ! j) (mset (take j c @ drop (Suc j) c))"
    using assms(3) by (subst id_take_nth_drop [of j c]) (simp_all add: c_def)
  have b: "mset (concat ((table ht)[i := take j c @ drop (Suc j) c])) + mset c
      = mset (concat (table ht)) + mset (take j c @ drop (Suc j) c)"
    using mset_concat_update [OF i] by (simp add: c_def)
  then show ms: "mset (concat (table ht)) = add_mset (table ht ! i ! j) (mset (concat (table ht')))"
    unfolding c by (simp add: ht'_def unlink_def flip: c_def)
  have "length (concat (table ht)) = Suc (length (concat (table ht')))"
    using arg_cong [OF ms, of size] by simp
  then have u: "used ht = length (concat (table ht')) + 1" using ok(5) by simp
  then show "used ht = used ht' + 1" by (simp add: ht'_def unlink_def ulong_dec_def)
  have "length c = Suc (length (take j c @ drop (Suc j) c))"
    using arg_cong [OF c, of size] by (simp del: take_append)
  moreover have "set (take j c @ drop (Suc j) c) \<subseteq> set c" by (auto dest: in_set_takeD in_set_dropD)
  ultimately show "ht_ok hf ht'"
    unfolding ht'_def unlink_def c_def [symmetric]
    using u ok(7) [OF assms(2)] by (intro ht_ok_update [OF assms(1,2)]) (auto simp: c_def ulong_dec_def)
  show "ht_size ht' = ht_size ht" by (simp add: ht'_def unlink_def)
qed

lemma ht_set_ok:
  assumes "ht_ok hf ht" "ht_get ht i j = Some (k, w)"
  shows "\<exists>ht' N. ht_set ht i j v = Some ht' \<and> ht_ok hf ht' \<and> ht_size ht' = ht_size ht \<and>
    used ht' = used ht \<and> table ht ! i \<noteq> [] \<and>
    mset (concat (table ht)) = add_mset (k, w) N \<and> mset (concat (table ht')) = add_mset (k, v) N \<and>
    (\<forall>l. table ht ! l = [] \<longrightarrow> table ht' ! l = [])"
proof -
  note ok = ht_okD [OF assms(1)]
  define c where "c = table ht ! i"
  have ij: "i < length (table ht)" "j < length c" "c ! j = (k, w)"
    using assms(2) by (auto simp: ht_get_def bucket_def c_def bind_eq_Some_conv split: if_splits)
  define c' where "c' = c[j := (k, v)]"
  define ht' where "ht' = ht\<lparr>table := (table ht)[i := c']\<rparr>"
  have run: "ht_set ht i j v = Some ht'" using ij by (simp add: ht_set_def ht'_def c'_def flip: c_def)
  define D R where "D = mset c - {#(k, w)#}" and "R = mset (concat (table ht)) - {#(k, w)#}"
  have c: "mset c = add_mset (k, w) D" using ij(2,3) nth_mem [OF ij(2)] by (simp add: D_def)
  have c': "mset c' = add_mset (k, v) D"
    using ij(2,3) by (simp add: c'_def mset_update D_def)
  have sum: "mset (concat (table ht')) + mset c = mset (concat (table ht)) + mset c'"
    using mset_concat_update [OF ij(1), of c'] by (simp add: ht'_def c_def)
  have "(k, w) \<in> set (concat (table ht))" using ij nth_mem [OF ij(1)] nth_mem [OF ij(2)] by (auto simp: c_def)
  then have N: "mset (concat (table ht)) = add_mset (k, w) R" by (simp add: R_def)
  have "mset (concat (table ht')) = add_mset (k, v) R"
    using sum by (simp add: c c' N)
  moreover have "ht_ok hf (ht\<lparr>table := (table ht)[i := c'], used := used ht\<rparr>)"
  proof (rule ht_ok_update [OF assms(1)])
    show "\<forall>e \<in> set c'. hf (fst e) mod ht_size ht = i"
    proof
      fix e assume "e \<in> set c'"
      then have "e \<in> set c \<or> fst e = k" using set_update_subset_insert [of c j "(k, v)"] by (auto simp: c'_def)
      then show "hf (fst e) mod ht_size ht = i"
        using ok(7) [of i] ok(1) ij nth_mem [OF ij(2)] by (cases e) (auto simp: c_def)
    qed
  qed (use ij ok(1) in \<open>simp_all add: c'_def c_def\<close>)
  moreover have "ht\<lparr>table := (table ht)[i := c'], used := used ht\<rparr> = ht'" by (simp add: ht'_def)
  moreover have "\<forall>l. table ht ! l = [] \<longrightarrow> table ht' ! l = []"
    using ij by (auto simp: ht'_def c_def nth_list_update)
  ultimately show ?thesis using run N ij(2) by (intro exI [of _ ht'] exI) (auto simp: ht'_def c_def)
qed

text \<open>A changed table back in the dictionary.\<close>

lemma dict_inv_ht0_change:
  assumes "dict_inv ty d" "ht_size (ht0 d) \<noteq> 0" "ht_ok (hashFunction ty) t" "ht_size t = ht_size (ht0 d)"
    "dictIsRehashing d \<Longrightarrow> \<forall>l. table (ht0 d) ! l = [] \<longrightarrow> table t ! l = []"
    "distinct (map fst (concat (table t) @ concat (table (ht1 d))))"
  shows "dict_inv ty (d\<lparr>ht0 := t\<rparr>)"
  using assms by (auto simp: dict_inv_def entries_def dictIsRehashing_def split: if_splits)

lemma dict_inv_ht1_change:
  assumes "dict_inv ty d" "dictIsRehashing d" "ht_ok (hashFunction ty) t"
    "distinct (map fst (concat (table (ht0 d)) @ concat (table t)))"
  shows "dict_inv ty (d\<lparr>ht1 := t\<rparr>)"
  using assms by (auto simp: dict_inv_def entries_def dictIsRehashing_def)

lemma dictSetVal_correct:
  assumes inv: "dict_inv ty d" and e: "dictGetEntry d e = Some (k, w)"
  shows "\<exists>d'. dictSetVal d e v = Some d' \<and> dict_inv ty d' \<and> dict_map d' = (dict_map d)(k \<mapsto> v) \<and>
    iterators d' = iterators d \<and> dictSize d' = dictSize d"
proof -
  obtain t i j where tij: "e = (t, i, j)" by (cases e)
  have dis: "distinct (map fst (entries d))" using inv by (simp add: dict_inv_def)
  show ?thesis
  proof (cases "t = 0")
    case True
    then have g: "ht_get (ht0 d) i j = Some (k, w)" using e tij by (simp add: dictGetEntry_def)
    then have nz: "ht_size (ht0 d) \<noteq> 0" using inv
      by (auto simp: dict_inv_def ht_get_def bucket_def ht_ok_def bind_eq_Some_conv split: if_splits)
    obtain ht' N where h: "ht_set (ht0 d) i j v = Some ht'" "ht_ok (hashFunction ty) ht'"
      "ht_size ht' = ht_size (ht0 d)" "used ht' = used (ht0 d)"
      "mset (concat (table (ht0 d))) = add_mset (k, w) N" "mset (concat (table ht')) = add_mset (k, v) N"
      "\<forall>l. table (ht0 d) ! l = [] \<longrightarrow> table ht' ! l = []"
      using ht_set_ok [OF dict_inv_ht0 [OF inv nz] g] by blast
    define d' where "d' = d\<lparr>ht0 := ht'\<rparr>"
    have "mset (entries d) = add_mset (k, w) (N + mset (concat (table (ht1 d))))"
      "mset (entries d') = add_mset (k, v) (N + mset (concat (table (ht1 d))))"
      using h(5,6) by (simp_all add: entries_def d'_def)
    note r = map_of_mset_replace [OF dis this]
    have "dict_inv ty d'" unfolding d'_def
      using r(1) h by (intro dict_inv_ht0_change [OF inv nz]) (simp_all add: entries_def d'_def)
    then show ?thesis using h(1,4) r(2) True tij
      by (simp add: dictSetVal_def dict_map_def dictSize_def d'_def)
  next
    case False
    then have g: "ht_get (ht1 d) i j = Some (k, w)" using e tij by (simp add: dictGetEntry_def)
    then have re: "dictIsRehashing d" using inv
      by (auto simp: dict_inv_def dictIsRehashing_def ht_get_def bucket_def bind_eq_Some_conv split: if_splits)
    obtain ht' N where h: "ht_set (ht1 d) i j v = Some ht'" "ht_ok (hashFunction ty) ht'"
      "used ht' = used (ht1 d)"
      "mset (concat (table (ht1 d))) = add_mset (k, w) N" "mset (concat (table ht')) = add_mset (k, v) N"
      using ht_set_ok [OF _ g] dict_inv_rehashing [OF inv re] by blast
    define d' where "d' = d\<lparr>ht1 := ht'\<rparr>"
    have "mset (entries d) = add_mset (k, w) (N + mset (concat (table (ht0 d))))"
      "mset (entries d') = add_mset (k, v) (N + mset (concat (table (ht0 d))))"
      using h(4,5) by (simp_all add: entries_def d'_def)
    note r = map_of_mset_replace [OF dis this]
    have "dict_inv ty d'" unfolding d'_def
      using r(1) h by (intro dict_inv_ht1_change [OF inv re]) (simp_all add: entries_def d'_def)
    then show ?thesis using h(1,3) r(2) False tij
      by (simp add: dictSetVal_def dict_map_def dictSize_def d'_def)
  qed
qed

section \<open>Growing\<close>

lemma next_power_loop_correct:
  assumes "sz \<le> 2 ^ 30" "j \<le> 28"
  shows "\<exists>b. 2 + j \<le> b \<and> b \<le> 30 \<and> next_power_loop j sz = 2 ^ b \<and> sz \<le> 2 ^ b \<and>
    (b = 2 + j \<or> 2 ^ (b - 1) < sz)"
  using assms
proof (induction j sz rule: next_power_loop.induct)
  case (1 j sz)
  have p: "(4 :: nat) * 2 ^ j = 2 ^ (2 + j)" by (simp add: power_add)
  show ?case
  proof (cases "2 ^ (2 + j) \<ge> sz")
    case True
    then have "next_power_loop j sz = 2 ^ (2 + j)"
      by (subst next_power_loop.simps) (simp only: Let_def p if_True)
    then show ?thesis using True 1(3) by (intro exI [of _ "2 + j"]) simp
  next
    case False
    have "j < 28"
    proof (rule ccontr)
      assume "\<not> j < 28"
      then have "(2 :: nat) ^ 30 \<le> 2 ^ (2 + j)" by (intro power_increasing) auto
      with False 1(2) show False by linarith
    qed
    moreover have "\<not> 4 * 2 ^ j \<ge> sz" using False unfolding p .
    ultimately have "\<exists>b. 2 + Suc j \<le> b \<and> b \<le> 30 \<and> next_power_loop (Suc j) sz = 2 ^ b \<and> sz \<le> 2 ^ b \<and>
        (b = 2 + Suc j \<or> 2 ^ (b - 1) < sz)"
      by (intro 1(1) [OF refl _ 1(2)]) (assumption, simp)
    then obtain b where b: "2 + Suc j \<le> b" "b \<le> 30" "next_power_loop (Suc j) sz = 2 ^ b" "sz \<le> 2 ^ b"
      "b = 2 + Suc j \<or> 2 ^ (b - 1) < sz" by blast
    have "2 ^ (b - 1) < sz"
      using b(5)
    proof
      assume "b = 2 + Suc j"
      then have "b - 1 = 2 + j" by simp
      then show ?thesis using False by (simp only: not_le)
    qed
    moreover have "next_power_loop j sz = next_power_loop (Suc j) sz"
      by (subst next_power_loop.simps) (simp only: Let_def p False if_False)
    ultimately show ?thesis using b by (intro exI [of _ b]) simp
  qed
qed

lemma dictNextPower_correct:
  assumes "sz \<le> 2 ^ 30"
  shows "\<exists>b. 2 \<le> b \<and> b \<le> 30 \<and> dictNextPower sz = 2 ^ b \<and> sz \<le> 2 ^ b \<and> (b = 2 \<or> 2 ^ (b - 1) < sz)"
  using next_power_loop_correct [OF assms, of 0] assms by (simp add: dictNextPower_def)

lemma fresh_table_ok:
  assumes "2 \<le> b" "b \<le> 30"
  shows "ht_ok hf \<lparr>table = replicate (2 ^ b) [], ht_size = 2 ^ b, sizemask = 2 ^ b - 1, used = 0\<rparr>"
  using assms by (auto simp: ht_ok_def)

lemma dictExpand_correct:
  assumes "dict_inv ty d" "\<not> dictIsRehashing d" "used (ht0 d) \<le> sz" "sz \<le> 2 ^ 30"
  shows "\<exists>d'. dictExpand d sz = (d', True) \<and> dict_inv ty d' \<and> entries d' = entries d \<and>
    iterators d' = iterators d \<and> ht_size (ht0 d') \<noteq> 0 \<and> dictSize d' = dictSize d \<and>
    (ht_size (ht0 d) = 0 \<longrightarrow> \<not> dictIsRehashing d')"
proof -
  obtain b where b: "2 \<le> b" "b \<le> 30" "dictNextPower sz = 2 ^ b"
    using dictNextPower_correct [OF assms(4)] by blast
  define n :: "('a, 'b) dictht" where
    "n = \<lparr>table = replicate (2 ^ b) [], ht_size = 2 ^ b, sizemask = 2 ^ b - 1, used = 0\<rparr>"
  have n: "ht_ok (hashFunction ty) n" "concat (table n) = []" "table n \<noteq> []" "ht_size n \<noteq> 0" "used n = 0"
    using fresh_table_ok [OF b(1,2)] by (simp_all add: n_def)
  have ht1: "ht1 d = dictReset" by (rule dict_inv_not_rehashing [OF assms(1,2)])
  consider "ht0 d = dictReset" | "ht_ok (hashFunction ty) (ht0 d)"
    using assms(1,2) by (auto simp: dict_inv_def dictIsRehashing_def)
  then show ?thesis
  proof cases
    case 1
    have "dictExpand d sz = (d\<lparr>ht0 := n\<rparr>, True)"
      using 1 assms(2,3) b(3) by (simp add: dictExpand_def n_def Let_def)
    moreover have "entries (d\<lparr>ht0 := n\<rparr>) = []" "entries d = []"
      unfolding entries_def using 1 ht1 n(2) by (simp_all del: concat_eq_Nil_conv)
    ultimately show ?thesis using assms(1,2) n(1,4,5) 1 ht1
      by (auto simp: dict_inv_def dictIsRehashing_def dictSize_def)
  next
    case 2
    then have "table (ht0 d) \<noteq> []" "ht_size (ht0 d) \<noteq> 0" using ht_okD(1,2) [OF 2] by auto
    moreover from this have "dictExpand d sz = (d\<lparr>ht1 := n, rehashidx := 0\<rparr>, True)"
      using assms(2,3) b(3) by (simp add: dictExpand_def n_def Let_def)
    moreover have "entries (d\<lparr>ht1 := n, rehashidx := 0\<rparr>) = entries d"
      unfolding entries_def using ht1 n(2) by (simp del: concat_eq_Nil_conv)
    ultimately show ?thesis using assms(1,2) n(1,4,5) 2 ht1
      by (auto simp: dict_inv_def dictIsRehashing_def dictSize_def)
  qed
qed

text \<open>Up to \<open>2 ^ 29\<close> entries every growth stays within \<open>2 ^ 30\<close> buckets.\<close>

lemma dictExpandIfNeeded_correct:
  assumes "dict_inv ty d" "dictSize d \<le> 2 ^ 29"
  shows "\<exists>d'. dictExpandIfNeeded cr d = (d', True) \<and> dict_inv ty d' \<and> entries d' = entries d \<and>
    iterators d' = iterators d \<and> ht_size (ht0 d') \<noteq> 0 \<and> dictSize d' = dictSize d"
proof (cases "dictIsRehashing d")
  case True
  then show ?thesis using assms(1) ht_okD(2) dict_inv_rehashing [OF assms(1) True]
    by (fastforce simp: dictExpandIfNeeded_def)
next
  case False
  show ?thesis
  proof (cases "ht_size (ht0 d) = 0")
    case True
    then have "used (ht0 d) = 0" using assms(1)
      by (auto simp: dict_inv_def ht_ok_def split: if_splits)
    then show ?thesis using dictExpand_correct [OF assms(1) False, of 4] False True
      by (auto simp: dictExpandIfNeeded_def)
  next
    case nz: False
    define sz where "sz = (if ht_size (ht0 d) > used (ht0 d) then ht_size (ht0 d) else used (ht0 d)) * 2"
    show ?thesis
    proof (cases "used (ht0 d) \<ge> ht_size (ht0 d) \<and> (cr \<or> used (ht0 d) div ht_size (ht0 d) > 5)")
      case True
      then have "used (ht0 d) \<le> sz" "sz \<le> 2 ^ 30" using assms(2) by (auto simp: sz_def dictSize_def)
      moreover have "dictExpandIfNeeded cr d = dictExpand d sz"
        using False nz True unfolding dictExpandIfNeeded_def sz_def
        by (simp only: if_True if_False simp_thms)
      ultimately show ?thesis using dictExpand_correct [OF assms(1) False, of sz] by auto
    next
      case no: False
      then have "dictExpandIfNeeded cr d = (d, True)"
        using False nz unfolding dictExpandIfNeeded_def by (simp only: if_False)
      then show ?thesis using assms(1) nz by simp
    qed
  qed
qed

section \<open>Insertion\<close>

text \<open>The table an insertion goes to, and the index \<open>_dictKeyIndex\<close> computes for a new key.\<close>

definition target :: "('k, 'v) dict \<Rightarrow> ('k, 'v) dictht" where
  "target d = (if dictIsRehashing d then ht1 d else ht0 d)"

lemma target_ok:
  "dict_inv ty d \<Longrightarrow> ht_size (ht0 d) \<noteq> 0 \<Longrightarrow> ht_ok (hashFunction ty) (target d)"
  using dict_inv_rehashing dict_inv_ht0 by (auto simp: target_def)

lemma dictKeyIndex_correct:
  assumes "dict_inv ty d" "dictSize d \<le> 2 ^ 29"
  shows "\<exists>d'. dictKeyIndex ty cr d k = Some (d',
      if dict_map d k = None then int (hashFunction ty k mod ht_size (target d')) else - 1) \<and>
    dict_inv ty d' \<and> entries d' = entries d \<and> iterators d' = iterators d \<and> ht_size (ht0 d') \<noteq> 0"
proof -
  obtain d1 where d1: "dictExpandIfNeeded cr d = (d1, True)" "dict_inv ty d1" "entries d1 = entries d"
    "iterators d1 = iterators d" "ht_size (ht0 d1) \<noteq> 0"
    using dictExpandIfNeeded_correct [OF assms] by blast
  have map: "dict_map d = dict_map d1" by (simp add: dict_map_def d1(3))
  note cmp = dict_inv_keyCompare [OF d1(2)]
  have small: "to_int32 (int (h AND sizemask t)) = int (h mod ht_size t)"
    if t: "ht_ok (hashFunction ty) t" for h and t :: "('a, 'b) dictht"
  proof -
    have "h mod ht_size t < ht_size t" using ht_okD(2) [OF t] by simp
    then have "int (h mod ht_size t) < 2 ^ 31" using ht_okD(4) [OF t] by simp
    then show ?thesis using ht_okD(6) [OF t, of h] by (simp add: to_int32_in_range)
  qed
  have ok0: "ht_ok (hashFunction ty) (ht0 d1)" by (rule dict_inv_ht0 [OF d1(2,5)])
  note s0 = chain_search [OF ok0 cmp, of k]
  show ?thesis
  proof (cases "k \<in> fst ` set (concat (table (ht0 d1)))")
    case True
    then have "dict_map d1 k \<noteq> None" by (auto simp: dict_map_None entries_def)
    then show ?thesis using d1 s0(1,4) True
      by (simp add: dictKeyIndex_def map Let_def)
  next
    case n0: False
    show ?thesis
    proof (cases "dictIsRehashing d1")
      case nr: False
      then have "dict_map d1 k = None"
        using n0 dict_inv_not_rehashing [OF d1(2) nr] by (simp add: dict_map_None entries_def)
      then show ?thesis using d1 s0(1,4) n0 nr small [OF ok0]
        by (simp add: dictKeyIndex_def map target_def Let_def)
    next
      case re: True
      have ok1: "ht_ok (hashFunction ty) (ht1 d1)" using dict_inv_rehashing [OF d1(2) re] by simp
      note s1 = chain_search [OF ok1 cmp, of k]
      have "dict_map d1 k = None \<longleftrightarrow> k \<notin> fst ` set (concat (table (ht1 d1)))"
        using n0 by (auto simp: dict_map_None entries_def)
      then show ?thesis using d1 s0(1,4) s1(1,4) n0 re small [OF ok1]
        by (simp add: dictKeyIndex_def map target_def Let_def)
    qed
  qed
qed

lemma dictSize_entries: "dict_inv ty d \<Longrightarrow> dictSize d = length (entries d)"
  by (auto simp: dict_inv_def dictSize_def entries_def ht_ok_def split: if_splits)

lemma rehashed_dictSize: "dict_inv ty d \<Longrightarrow> rehashed ty d d' \<Longrightarrow> dictSize d' = dictSize d"
  by (metis dictSize_entries rehashed_def size_mset)

lemma dictAddRaw_correct:
  assumes "dict_inv ty d" "dictSize d \<le> 2 ^ 29"
  shows "\<exists>d' e. dictAddRaw ty cr d k v = Some (d', e) \<and> dict_inv ty d' \<and> iterators d' = iterators d \<and>
    (if dict_map d k = None
     then \<exists>e'. e = Some e' \<and> dictGetEntry d' e' = Some (k, v) \<and> dict_map d' = (dict_map d)(k \<mapsto> v)
     else e = None \<and> dict_map d' = dict_map d)"
proof -
  obtain d1 where d1: "(if dictIsRehashing d then dictRehashStep ty d else Some d) = Some d1"
    "rehashed ty d d1" using step_if_rehashing [OF assms(1)] by blast
  have inv1: "dict_inv ty d1" "dictSize d1 \<le> 2 ^ 29"
    using d1(2) rehashed_dictSize [OF assms(1) d1(2)] assms(2) by (simp_all add: rehashed_def)
  have map1: "dict_map d1 = dict_map d" by (rule rehashed_map [OF assms(1) d1(2)])
  obtain d2 where d2: "dictKeyIndex ty cr d1 k = Some (d2,
      if dict_map d1 k = None then int (hashFunction ty k mod ht_size (target d2)) else - 1)"
    "dict_inv ty d2" "entries d2 = entries d1" "iterators d2 = iterators d1" "ht_size (ht0 d2) \<noteq> 0"
    using dictKeyIndex_correct [OF inv1] by blast
  have map2: "dict_map d2 = dict_map d" using d2(3) map1 by (simp add: dict_map_def)
  have it: "iterators d2 = iterators d" using d2(4) d1(2) by (simp add: rehashed_def)
  show ?thesis
  proof (cases "dict_map d k")
    case (Some w)
    then show ?thesis using d1(1) d2 map1 map2 it by (simp add: dictAddRaw_def)
  next
    case True: None
    define i where "i = hashFunction ty k mod ht_size (target d2)"
    have index: "dictKeyIndex ty cr d1 k = Some (d2, int i)" using d2(1) map1 True by (simp add: i_def)
    obtain t where t: "insert_head (target d2) i (k, v) = Some t" "ht_ok (hashFunction ty) t"
      "ht_size t = ht_size (target d2)"
      "mset (concat (table t)) = add_mset (k, v) (mset (concat (table (target d2))))"
      "table t = (table (target d2))[i := (k, v) # table (target d2) ! i]"
      using insert_head_ok [OF target_ok [OF d2(2,5)] i_def] by blast
    have il: "i < length (table (target d2))"
      using ht_okD(1,2) [OF target_ok [OF d2(2,5)]] by (simp add: i_def)
    then have got: "ht_get t i 0 = Some (k, v)" using t(5) by (simp add: ht_get_def)
    have dis: "distinct (map fst (entries d2))" "k \<notin> fst ` set (entries d2)"
      using d2(2) True map2 by (simp_all add: dict_inv_def dict_map_None [symmetric])
    show ?thesis
    proof (cases "dictIsRehashing d2")
      case re: True
      define d' where "d' = d2\<lparr>ht1 := t\<rparr>"
      have "mset (entries d') = add_mset (k, v) (mset (entries d2))"
        using t(4) re by (simp add: entries_def d'_def target_def)
      note r = map_of_mset_insert [OF dis this]
      have "dict_inv ty d'" unfolding d'_def
        using r(1) t by (intro dict_inv_ht1_change [OF d2(2) re]) (simp_all add: entries_def d'_def)
      moreover have "dictAddRaw ty cr d k v = Some (d', Some (1, i, 0))"
        using d1(1) index re t(1) by (simp add: dictAddRaw_def d'_def target_def)
      ultimately show ?thesis using True r(2) map2 it got
        by (simp add: dict_map_def dictGetEntry_def d'_def)
    next
      case nr: False
      define d' where "d' = d2\<lparr>ht0 := t\<rparr>"
      have "mset (entries d') = add_mset (k, v) (mset (entries d2))"
        using t(4) nr by (simp add: entries_def d'_def target_def)
      note r = map_of_mset_insert [OF dis this]
      have "dict_inv ty d'" unfolding d'_def
        using r(1) t nr by (intro dict_inv_ht0_change [OF d2(2,5)])
          (simp_all add: entries_def d'_def target_def)
      moreover have "dictAddRaw ty cr d k v = Some (d', Some (0, i, 0))"
        using d1(1) index nr t(1) by (simp add: dictAddRaw_def d'_def target_def)
      ultimately show ?thesis using True r(2) map2 it got
        by (simp add: dict_map_def dictGetEntry_def d'_def)
    qed
  qed
qed

lemma dictAdd_correct:
  assumes "dict_inv ty d" "dictSize d \<le> 2 ^ 29"
  shows "\<exists>d'. dictAdd ty cr d k v = Some (d', dict_map d k = None) \<and> dict_inv ty d' \<and>
    dict_map d' = (if dict_map d k = None then (dict_map d)(k \<mapsto> v) else dict_map d) \<and>
    iterators d' = iterators d"
proof -
  obtain d1 e where r: "dictAddRaw ty cr d k v = Some (d1, e)" "dict_inv ty d1" "iterators d1 = iterators d"
    "if dict_map d k = None
     then \<exists>e'. e = Some e' \<and> dictGetEntry d1 e' = Some (k, v) \<and> dict_map d1 = (dict_map d)(k \<mapsto> v)
     else e = None \<and> dict_map d1 = dict_map d"
    using dictAddRaw_correct [OF assms] by blast
  show ?thesis
  proof (cases "dict_map d k")
    case True: None
    then obtain e' where e': "e = Some e'" "dictGetEntry d1 e' = Some (k, v)"
      "dict_map d1 = (dict_map d)(k \<mapsto> v)" using r(4) by auto
    then obtain d' where "dictSetVal d1 e' v = Some d'" "dict_inv ty d'"
      "dict_map d' = (dict_map d1)(k \<mapsto> v)" "iterators d' = iterators d1"
      using dictSetVal_correct [OF r(2) e'(2)] by blast
    then show ?thesis using r e' True by (simp add: dictAdd_def)
  qed (use r in \<open>simp add: dictAdd_def\<close>)
qed

lemma card_dom_dict:
  assumes "dict_inv ty d"
  shows "finite (dom (dict_map d))" "card (dom (dict_map d)) = dictSize d"
proof -
  have dom: "dom (dict_map d) = set (map fst (entries d))"
    by (simp add: dict_map_def dom_map_of_conv_image_fst)
  show "finite (dom (dict_map d))" by (simp add: dom)
  have "distinct (map fst (entries d))" using assms by (simp add: dict_inv_def)
  then have "card (set (map fst (entries d))) = length (entries d)"
    by (metis distinct_card length_map)
  then show "card (dom (dict_map d)) = dictSize d"
    unfolding dom dictSize_entries [OF assms] .
qed

lemma dictReplace_correct:
  assumes "dict_inv ty d" "dictSize d \<le> 2 ^ 29"
  shows "\<exists>d'. dictReplace ty cr d k v = Some (d', dict_map d k = None) \<and> dict_inv ty d' \<and>
    dict_map d' = (dict_map d)(k \<mapsto> v) \<and> iterators d' = iterators d"
proof -
  obtain d1 where r: "dictAdd ty cr d k v = Some (d1, dict_map d k = None)" "dict_inv ty d1"
    "dict_map d1 = (if dict_map d k = None then (dict_map d)(k \<mapsto> v) else dict_map d)"
    "iterators d1 = iterators d"
    using dictAdd_correct [OF assms] by blast
  show ?thesis
  proof (cases "dict_map d k")
    case None
    then show ?thesis using r by (simp add: dictReplace_def)
  next
    case (Some w)
    obtain d2 e where f: "dictFind ty d1 k = Some (d2, e)" "rehashed ty d1 d2"
      "case e of None \<Rightarrow> dict_map d1 k = None
       | Some e \<Rightarrow> \<exists>v. dictGetEntry d2 e = Some (k, v) \<and> dict_map d1 k = Some v"
      using dictFind_correct [OF r(2), of k] by blast
    then obtain e' where e': "e = Some e'" "dictGetEntry d2 e' = Some (k, w)"
      using Some r(3) by (auto split: option.splits)
    have inv2: "dict_inv ty d2" using f(2) by (simp add: rehashed_def)
    have map2: "dict_map d2 = dict_map d" using rehashed_map [OF r(2) f(2)] r(3) Some by simp
    obtain d' where "dictSetVal d2 e' v = Some d'" "dict_inv ty d'"
      "dict_map d' = (dict_map d2)(k \<mapsto> v)" "iterators d' = iterators d2"
      using dictSetVal_correct [OF inv2 e'(2)] by blast
    then show ?thesis using r f(1,2) e' Some map2 by (simp add: dictReplace_def rehashed_def)
  qed
qed

lemma dictFetchValue_correct:
  assumes "dict_inv ty d"
  shows "\<exists>d'. dictFetchValue ty d k = Some (d', dict_map d k) \<and> rehashed ty d d'"
proof -
  obtain d' e where f: "dictFind ty d k = Some (d', e)" "rehashed ty d d'"
    "case e of None \<Rightarrow> dict_map d k = None
     | Some e \<Rightarrow> \<exists>v. dictGetEntry d' e = Some (k, v) \<and> dict_map d k = Some v"
    using dictFind_correct [OF assms, of k] by blast
  then show ?thesis by (cases e) (auto simp: dictFetchValue_def)
qed

section \<open>Deletion\<close>

lemma dictDelete_correct:
  assumes "dict_inv ty d"
  shows "\<exists>d'. dictDelete ty d k = Some (d', dict_map d k \<noteq> None) \<and> dict_inv ty d' \<and>
    dict_map d' = (dict_map d)(k := None) \<and> iterators d' = iterators d"
proof (cases "ht_size (ht0 d) = 0")
  case True
  then have "dict_map d = Map.empty" using entries_empty [OF assms] by (simp add: dict_map_def)
  then show ?thesis using True assms by (simp add: dictDelete_def dictGenericDelete_def)
next
  case False
  obtain d1 where d1: "(if dictIsRehashing d then dictRehashStep ty d else Some d) = Some d1"
    "rehashed ty d d1" using step_if_rehashing [OF assms] by blast
  have inv: "dict_inv ty d1" and it: "iterators d1 = iterators d" and nz: "ht_size (ht0 d1) \<noteq> 0"
    using d1(2) False by (simp_all add: rehashed_def)
  have map: "dict_map d = dict_map d1" using rehashed_map [OF assms d1(2)] by simp
  have dis: "distinct (map fst (entries d1))" using inv by (simp add: dict_inv_def)
  note cmp = dict_inv_keyCompare [OF inv]
  have ok0: "ht_ok (hashFunction ty) (ht0 d1)" by (rule dict_inv_ht0 [OF inv nz])
  define i where "i = hashFunction ty k AND sizemask (ht0 d1)"
  note s0 = chain_search [OF ok0 cmp, of k, folded i_def]
  show ?thesis
  proof (cases "chain_find ty k (table (ht0 d1) ! i)")
    case (Some j)
    then obtain v where v: "j < length (table (ht0 d1) ! i)" "table (ht0 d1) ! i ! j = (k, v)"
      using s0(5) by blast
    define t where "t = unlink (ht0 d1) i (table (ht0 d1) ! i) j"
    note u = unlink_ok [OF ok0 s0(3) v(1), folded t_def]
    define d' where "d' = d1\<lparr>ht0 := t\<rparr>"
    have "mset (entries d1) = add_mset (k, v) (mset (entries d'))"
      using u(4) v(2) by (simp add: entries_def d'_def)
    note r = map_of_mset_delete [OF dis this]
    have "\<forall>l. table (ht0 d1) ! l = [] \<longrightarrow> table t ! l = []"
      using v(1) unfolding t_def unlink_def
      by simp (metis list.size(3) not_less_zero nth_list_update_neq)
    then have "dict_inv ty d'" unfolding d'_def
      using r(1) u by (intro dict_inv_ht0_change [OF inv nz]) (simp_all add: entries_def d'_def)
    moreover have "dict_map d1 k \<noteq> None"
      using Some s0(4) by (auto simp: dict_map_None entries_def)
    moreover have "dictDelete ty d k = Some (d', True)"
      using False d1(1) s0(1) Some
      by (simp add: dictDelete_def dictGenericDelete_def Let_def d'_def t_def flip: i_def)
    ultimately show ?thesis using r(2) map it by (simp add: dict_map_def d'_def)
  next
    case none0: None
    then have n0: "k \<notin> fst ` set (concat (table (ht0 d1)))" using s0(4) by blast
    show ?thesis
    proof (cases "dictIsRehashing d1")
      case nr: False
      then have "dict_map d1 k = None"
        using n0 dict_inv_not_rehashing [OF inv nr] by (simp add: dict_map_None entries_def)
      moreover have "dictDelete ty d k = Some (d1, False)"
        using False d1(1) s0(1) none0 nr
        by (simp add: dictDelete_def dictGenericDelete_def Let_def flip: i_def)
      ultimately show ?thesis using inv it map by (simp add: fun_upd_idem)
    next
      case re: True
      have ok1: "ht_ok (hashFunction ty) (ht1 d1)" using dict_inv_rehashing [OF inv re] by simp
      define i1 where "i1 = hashFunction ty k AND sizemask (ht1 d1)"
      note s1 = chain_search [OF ok1 cmp, of k, folded i1_def]
      show ?thesis
      proof (cases "chain_find ty k (table (ht1 d1) ! i1)")
        case (Some j)
        then obtain v where v: "j < length (table (ht1 d1) ! i1)" "table (ht1 d1) ! i1 ! j = (k, v)"
          using s1(5) by blast
        define t where "t = unlink (ht1 d1) i1 (table (ht1 d1) ! i1) j"
        note u = unlink_ok [OF ok1 s1(3) v(1), folded t_def]
        define d' where "d' = d1\<lparr>ht1 := t\<rparr>"
        have "mset (entries d1) = add_mset (k, v) (mset (entries d'))"
          using u(4) v(2) by (simp add: entries_def d'_def)
        note r = map_of_mset_delete [OF dis this]
        have "dict_inv ty d'" unfolding d'_def
          using r(1) u by (intro dict_inv_ht1_change [OF inv re]) (simp_all add: entries_def d'_def)
        moreover have "dict_map d1 k \<noteq> None"
          using Some s1(4) by (auto simp: dict_map_None entries_def)
        moreover have "dictDelete ty d k = Some (d', True)"
          using False d1(1) s0(1) none0 re s1(1) Some
          by (simp add: dictDelete_def dictGenericDelete_def Let_def d'_def t_def flip: i_def i1_def)
        ultimately show ?thesis using r(2) map it by (simp add: dict_map_def d'_def)
      next
        case none1: None
        then have "dict_map d1 k = None" using n0 s1(4) by (auto simp: dict_map_None entries_def)
        moreover have "dictDelete ty d k = Some (d1, False)"
          using False d1(1) s0(1) none0 re s1(1) none1
          by (simp add: dictDelete_def dictGenericDelete_def Let_def flip: i_def i1_def)
        ultimately show ?thesis using inv it map by (simp add: fun_upd_idem)
      qed
    qed
  qed
qed

section \<open>The dictionary as a provider of maps and sets\<close>

definition dict_rep :: "'k dictType \<Rightarrow> ('k, 'v) dict \<Rightarrow> ('k \<rightharpoonup> 'v) \<Rightarrow> bool" where
  "dict_rep ty d m \<longleftrightarrow> dict_inv ty d \<and> dict_map d = m"

text \<open>A set is a dictionary whose values are \<open>NULL\<close>, here the unit value.\<close>

definition dict_set :: "'k dictType \<Rightarrow> ('k, unit) dict \<Rightarrow> 'k set \<Rightarrow> bool" where
  "dict_set ty d S \<longleftrightarrow> dict_inv ty d \<and> dom (dict_map d) = S"

definition dictAddKey :: "'k dictType \<Rightarrow> bool \<Rightarrow> ('k, unit) dict \<Rightarrow> 'k \<Rightarrow> (('k, unit) dict \<times> bool) option" where
  "dictAddKey ty cr d k = dictAdd ty cr d k ()"

definition dictHasKey :: "'k dictType \<Rightarrow> ('k, 'v) dict \<Rightarrow> 'k \<Rightarrow> (('k, 'v) dict \<times> bool) option" where
  "dictHasKey ty d k = do { (d, e) \<leftarrow> dictFind ty d k; Some (d, e \<noteq> None) }"

lemma dict_inv_create: "keyCompare ty = (=) \<Longrightarrow> dict_inv ty dictCreate"
  by (simp add: dict_inv_def dictCreate_def dictInit_def entries_def)

lemma dict_map_create: "dict_map dictCreate = Map.empty"
  by (simp add: dict_map_def dictCreate_def dictInit_def entries_def)

lemma dictHasKey_correct:
  assumes "dict_inv ty d"
  shows "\<exists>d'. dictHasKey ty d k = Some (d', k \<in> dom (dict_map d)) \<and> dict_inv ty d' \<and> dict_map d' = dict_map d"
proof -
  obtain d' e where "dictFind ty d k = Some (d', e)" "rehashed ty d d'"
    "case e of None \<Rightarrow> dict_map d k = None
     | Some e \<Rightarrow> \<exists>v. dictGetEntry d' e = Some (k, v) \<and> dict_map d k = Some v"
    using dictFind_correct [OF assms, of k] by blast
  moreover from this have "dict_inv ty d'" "dict_map d' = dict_map d"
    using rehashed_map [OF assms] by (auto simp: rehashed_def)
  ultimately show ?thesis by (cases e) (auto simp: dictHasKey_def)
qed

interpretation dict_fm: finite_map_impl "dict_rep ty" "2 ^ 29"
    "dictReplace ty cr" "dictDelete ty" "dictFetchValue ty" dictSize
  for ty :: "'k dictType" and cr :: bool
proof (unfold_locales, goal_cases)
  case (1 s m)
  then show ?case using card_dom_dict by (auto simp: dict_rep_def)
next
  case (2 s m)
  then show ?case using card_dom_dict(2) [of ty s] by (simp add: dict_rep_def)
next
  case (3 s m k v)
  then have "dict_inv ty s" "dictSize s \<le> 2 ^ 29"
    using card_dom_dict(2) [of ty s] by (auto simp: dict_rep_def)
  from dictReplace_correct [OF this, of cr k v] 3 show ?case by (auto simp: dict_rep_def)
next
  case (4 s m k)
  then show ?case using dictDelete_correct [of ty s k] by (auto simp: dict_rep_def)
next
  case (5 s m k)
  then show ?case using dictFetchValue_correct [of ty s k] rehashed_map [of ty s]
    by (fastforce simp: dict_rep_def rehashed_def)
qed

interpretation dict_fs: finite_set_impl "dict_set ty" "\<lambda>_. True" "2 ^ 29"
    "dictAddKey ty cr" "dictDelete ty" "dictHasKey ty" dictSize
  for ty :: "'k dictType" and cr :: bool
proof (unfold_locales, goal_cases)
  case (1 s S)
  then show ?case using card_dom_dict by (auto simp: dict_set_def)
next
  case (2 s S)
  then show ?case using card_dom_dict(2) [of ty s] by (simp add: dict_set_def)
next
  case (3 s S x)
  then have "dict_inv ty s" "dictSize s \<le> 2 ^ 29" "dom (dict_map s) = S"
    using card_dom_dict(2) [of ty s] by (auto simp: dict_set_def)
  then show ?case using dictAdd_correct [of ty s cr x "()"]
    by (auto simp: dict_set_def dictAddKey_def domIff)
next
  case (4 s S x)
  then show ?case using dictDelete_correct [of ty s x] by (auto simp: dict_set_def)
next
  case (5 s S x)
  then show ?case using dictHasKey_correct [of ty s x] by (auto simp: dict_set_def)
qed

text \<open>
  C1.  From the empty dictionary, with any hash function and with resizing enabled or not, any
  run of fewer than \<open>2 ^ 29\<close> replacements, deletions and lookups never accesses a bucket that does
  not exist and answers exactly as a mathematical map would, although each operation may be
  interleaved with a step of rehashing or start a new one.
\<close>
theorem dict_runs_as_map:
  assumes "keyCompare ty = (=)" "length ops \<le> 2 ^ 29"
  shows "\<exists>d. run_map_ops (dictReplace ty cr) (dictDelete ty) (dictFetchValue ty) dictCreate ops
      = Some (d, snd (spec_map_ops Map.empty ops)) \<and>
    dict_inv ty d \<and> dict_map d = fst (spec_map_ops Map.empty ops)"
proof -
  have "dict_rep ty dictCreate Map.empty"
    using assms(1) by (simp add: dict_rep_def dict_inv_create dict_map_create)
  from dict_fm.run_ops_refines [OF this, of ops cr] assms(2) show ?thesis
    by (simp add: dict_rep_def)
qed

theorem dict_runs_as_map_witness:
  "\<exists>d. run_map_ops (dictReplace \<lparr>hashFunction = id, keyCompare = (=)\<rparr> True)
      (dictDelete \<lparr>hashFunction = id, keyCompare = (=)\<rparr>)
      (dictFetchValue \<lparr>hashFunction = id, keyCompare = (=)\<rparr>) dictCreate
      [MapPut 1 ''a'', MapPut 5 ''b'', MapRemove 1, MapGet 5]
     = Some (d, snd (spec_map_ops Map.empty [MapPut (1 :: nat) ''a'', MapPut 5 ''b'', MapRemove 1, MapGet 5]))
   \<and> dict_inv \<lparr>hashFunction = id, keyCompare = (=)\<rparr> d
   \<and> dict_map d = fst (spec_map_ops Map.empty [MapPut 1 ''a'', MapPut 5 ''b'', MapRemove 1, MapGet 5])"
  by (rule dict_runs_as_map) simp_all

lemma rehash_loop_finishes:
  assumes "dict_inv ty d" "rehashidx d \<noteq> - 1" "used (ht0 d) < n"
  shows "\<exists>d'. rehash_loop ty n d = Some (d', False)"
  using assms
proof (induction n arbitrary: d)
  case (Suc n)
  show ?case
  proof (cases "used (ht0 d) = 0")
    case False
    obtain d1 where d1: "rehash_loop ty (Suc n) d = rehash_loop ty n d1" "rehashed ty d d1"
      "rehashidx d < rehashidx d1" "used (ht0 d1) < used (ht0 d)"
      using rehash_one_bucket [OF Suc.prems(1,2) False] by blast
    have "dict_inv ty d1" "rehashidx d1 \<noteq> - 1"
      using d1(2,3) Suc.prems(1,2) by (auto simp: rehashed_def dict_inv_def)
    then show ?thesis using Suc.IH [of d1] d1(1,4) Suc.prems(3) by simp
  qed simp
qed simp

text \<open>
  C16.  Rehashing finishes: when a rehash is in progress, more steps than there are entries in the
  old table complete it.  The map is unchanged, the old table is gone and the new one holds
  every entry.
\<close>
theorem dictRehash_finishes:
  assumes "dict_inv ty d" "dictIsRehashing d" "used (ht0 d) < n"
  shows "\<exists>d'. dictRehash ty d n = Some (d', False) \<and> dict_inv ty d' \<and> \<not> dictIsRehashing d' \<and>
    ht1 d' = dictReset \<and> dict_map d' = dict_map d"
proof -
  obtain d' where d': "rehash_loop ty n d = Some (d', False)"
    using rehash_loop_finishes [OF assms(1)] assms(2,3) by (auto simp: dictIsRehashing_def)
  then have run: "dictRehash ty d n = Some (d', False)"
    using assms(2) by (simp add: dictRehash_def)
  then have r: "rehashed ty d d'" "\<not> dictIsRehashing d'"
    using dictRehash_correct [OF assms(1), of n] by auto
  then have "dict_inv ty d'" by (simp add: rehashed_def)
  then show ?thesis using run r rehashed_map [OF assms(1) r(1)] dict_inv_not_rehashing by blast
qed

lemma all_less_4: "(\<forall>i < (4 :: nat). P i) \<longleftrightarrow> P 0 \<and> P 1 \<and> P 2 \<and> P 3"
  by (auto simp: less_Suc_eq numeral_eq_Suc)

lemma ex_four: "\<exists>b. 2 \<le> b \<and> b \<le> 30 \<and> (4 :: nat) = 2 ^ b"
  by (rule exI [of _ 2]) simp

theorem dictRehash_finishes_witness:
  "\<exists>d'. dictRehash \<lparr>hashFunction = id, keyCompare = (=)\<rparr>
      \<lparr>ht0 = \<lparr>table = [[(4, 7)], [], [(2, 8)], []], ht_size = 4, sizemask = 3, used = 2\<rparr>,
       ht1 = \<lparr>table = [[], [], [], []], ht_size = 4, sizemask = 3, used = 0\<rparr>,
       rehashidx = 0, iterators = 0\<rparr> 3 = Some (d', False) \<and>
    dict_inv \<lparr>hashFunction = id, keyCompare = (=)\<rparr> d' \<and> \<not> dictIsRehashing d' \<and> ht1 d' = dictReset \<and>
    dict_map d' = dict_map
      \<lparr>ht0 = \<lparr>table = [[(4 :: nat, 7 :: nat)], [], [(2, 8)], []], ht_size = 4, sizemask = 3, used = 2\<rparr>,
       ht1 = \<lparr>table = [[], [], [], []], ht_size = 4, sizemask = 3, used = 0\<rparr>,
       rehashidx = 0, iterators = 0\<rparr>"
proof (rule dictRehash_finishes)
  have "ht_ok id \<lparr>table = [[(4 :: nat, 7 :: nat)], [], [(2, 8)], []], ht_size = 4, sizemask = 3, used = 2\<rparr>"
    "ht_ok id \<lparr>table = [[], [], [], []] :: (nat \<times> nat) list list, ht_size = 4, sizemask = 3, used = 0\<rparr>"
    using ex_four by (simp_all add: ht_ok_def all_less_4)
  then show "dict_inv \<lparr>hashFunction = id, keyCompare = (=)\<rparr>
      \<lparr>ht0 = \<lparr>table = [[(4 :: nat, 7 :: nat)], [], [(2, 8)], []], ht_size = 4, sizemask = 3, used = 2\<rparr>,
       ht1 = \<lparr>table = [[], [], [], []], ht_size = 4, sizemask = 3, used = 0\<rparr>,
       rehashidx = 0, iterators = 0\<rparr>"
    by (simp add: dict_inv_def entries_def)
qed (simp_all add: dictIsRehashing_def)

end
