(* ===== verification/DictIter.thy ===== *)
theory DictIter
  imports Dict
begin

text \<open>
  The iterators and the random choice of \<open>dict.c\<close>.  An iterator keeps the chain that starts at
  its current entry and the chain behind it; \<open>[]\<close> is \<open>NULL\<close>.  A chain behind the entry that was
  returned does not change while the caller deletes that entry, which is all a safe iterator
  permits.  \<open>random()\<close> is a list of the numbers it returns; running out of them is \<open>None\<close>.

  \<open>it_rest d it\<close> is what the iterator has still to return.  The properties: an iteration returns
  every entry of the dictionary exactly once, in the order of the tables, and ends; a random key
  is an entry of the dictionary, and every entry can be chosen.
\<close>

section \<open>The code\<close>

record ('k, 'v) dictIterator =
  it_table :: nat
  it_index :: int
  it_safe :: bool
  it_entry :: "('k \<times> 'v) list"
  it_next :: "('k \<times> 'v) list"

definition dictGetIterator :: "('k, 'v) dictIterator" where
  "dictGetIterator = \<lparr>it_table = 0, it_index = - 1, it_safe = False, it_entry = [], it_next = []\<rparr>"

definition dictGetSafeIterator :: "('k, 'v) dictIterator" where
  "dictGetSafeIterator = dictGetIterator\<lparr>it_safe := True\<rparr>"

text \<open>
  The step of \<open>dictNext\<close> from an exhausted chain to the next bucket; the flag is false at the
  \<open>break\<close>.
\<close>

definition iter_advance ::
  "('k, 'v) dict \<Rightarrow> ('k, 'v) dictIterator \<Rightarrow> (('k, 'v) dict \<times> ('k, 'v) dictIterator \<times> bool) option" where
  "iter_advance d it = do {
     let ht = (if it_table it = 0 then ht0 d else ht1 d);
     let d = (if it_safe it \<and> it_index it = - 1 \<and> it_table it = 0
              then d\<lparr>iterators := iterators d + 1\<rparr> else d);
     index \<leftarrow> c_int (it_index it + 1);
     if index \<ge> to_int32 (int (ht_size ht))
     then (if dictIsRehashing d \<and> it_table it = 0
           then do { b \<leftarrow> bucket (ht1 d) 0;
                     Some (d, it\<lparr>it_table := 1, it_index := 0, it_entry := b\<rparr>, True) }
           else Some (d, it\<lparr>it_index := index\<rparr>, False))
     else if index < 0 then None
     else do { b \<leftarrow> bucket ht (nat index);
               Some (d, it\<lparr>it_index := index, it_entry := b\<rparr>, True) } }"

lemma iter_advance_Some:
  assumes "iter_advance d it = Some (d', it', True)"
  shows "ht0 d' = ht0 d" "ht1 d' = ht1 d" "rehashidx d' = rehashidx d"
    "it_table it = 0 \<and> it_table it' = 1 \<and> it_index it' = 0 \<or>
     it_table it' = it_table it \<and> it_index it' = it_index it + 1 \<and> 0 \<le> it_index it' \<and>
     nat (it_index it') < length (table (if it_table it = 0 then ht0 d else ht1 d))"
  using assms
  by (auto simp: iter_advance_def Let_def bind_eq_Some_conv bucket_def split: if_splits dest!: c_int_SomeD)

definition iter_left :: "('k, 'v) dict \<Rightarrow> ('k, 'v) dictIterator \<Rightarrow> nat" where
  "iter_left d it = length (table (if it_table it = 0 then ht0 d else ht1 d)) - nat (it_index it + 1)"

lemma iter_advance_less:
  "iter_advance d it = Some (d', it', True) \<Longrightarrow>
   it_table it = 0 \<and> it_table it' \<noteq> 0 \<or> it_table it' = it_table it \<and> iter_left d' it' < iter_left d it"
  using iter_advance_Some [of d it d' it'] by (auto simp: iter_left_def)

function dictNext ::
  "('k, 'v) dict \<Rightarrow> ('k, 'v) dictIterator \<Rightarrow> (('k, 'v) dict \<times> ('k, 'v) dictIterator \<times> ('k \<times> 'v) option) option" where
  "dictNext d it =
     (case (if it_entry it = [] then iter_advance d it
            else Some (d, it\<lparr>it_entry := it_next it\<rparr>, True)) of
        None \<Rightarrow> None
      | Some (d', it', found) \<Rightarrow>
          if \<not> found then Some (d', it', None)
          else (case it_entry it' of
                  e # rest \<Rightarrow> Some (d', it'\<lparr>it_next := rest\<rparr>, Some e)
                | [] \<Rightarrow> dictNext d' it'))"
  by pat_completeness auto

termination
  by (relation "measures [\<lambda>(d, it). if it_table it = 0 then 1 else 0, \<lambda>(d, it). iter_left d it,
        \<lambda>(d, it). length (it_entry it)]")
    (auto split: if_splits simp: iter_left_def dest!: iter_advance_less)

declare dictNext.simps [simp del]

text \<open>Releasing an iterator gives up its share of the lock that suspends rehashing.\<close>

definition dictReleaseIterator :: "('k, 'v) dict \<Rightarrow> ('k, 'v) dictIterator \<Rightarrow> ('k, 'v) dict" where
  "dictReleaseIterator d it =
     (if it_safe it \<and> \<not> (it_index it = - 1 \<and> it_table it = 0)
      then d\<lparr>iterators := iterators d - 1\<rparr> else d)"

text \<open>\<open>dictGetRandomKey\<close>: drawing buckets until one is not empty.\<close>

fun random_bucket :: "('k, 'v) dict \<Rightarrow> nat list \<Rightarrow> (('k \<times> 'v) list \<times> nat list) option" where
  "random_bucket d [] = None"
| "random_bucket d (r # rs) = do {
     he \<leftarrow> (if dictIsRehashing d
           then (let h = to_uint32 (int (r mod (ht_size (ht0 d) + ht_size (ht1 d))))
                 in if h \<ge> ht_size (ht0 d) then bucket (ht1 d) (h - ht_size (ht0 d)) else bucket (ht0 d) h)
           else bucket (ht0 d) (to_uint32 (int (r AND sizemask (ht0 d)))));
     if he = [] then random_bucket d rs else Some (he, rs) }"

definition dictGetRandomKey ::
  "'k dictType \<Rightarrow> ('k, 'v) dict \<Rightarrow> nat list \<Rightarrow> (('k, 'v) dict \<times> ('k \<times> 'v) option) option" where
  "dictGetRandomKey ty d rnd =
     (if dictSize d = 0 then Some (d, None)
      else do {
        d \<leftarrow> (if dictIsRehashing d then dictRehashStep ty d else Some d);
        (he, rs) \<leftarrow> random_bucket d rnd;
        case rs of
          [] \<Rightarrow> None
        | r # rs \<Rightarrow> do { listele \<leftarrow> c_int (int (length he));
                         let listele = r mod length he;
                         Some (d, Some (he ! listele)) } })"

section \<open>Iteration\<close>

text \<open>What an iterator has still to return.\<close>

definition it_rest :: "('k, 'v) dict \<Rightarrow> ('k, 'v) dictIterator \<Rightarrow> ('k \<times> 'v) list" where
  "it_rest d it =
     (if it_entry it = [] then [] else it_next it) @
     (if it_table it = 0
      then concat (drop (nat (it_index it + 1)) (table (ht0 d))) @ concat (table (ht1 d))
      else concat (drop (nat (it_index it + 1)) (table (ht1 d))))"

definition it_ok :: "('k, 'v) dict \<Rightarrow> ('k, 'v) dictIterator \<Rightarrow> bool" where
  "it_ok d it \<longleftrightarrow>
     (if it_table it = 0 then - 1 \<le> it_index it \<and> it_index it < int (ht_size (ht0 d))
      else it_table it = 1 \<and> dictIsRehashing d \<and> 0 \<le> it_index it \<and> it_index it < int (ht_size (ht1 d)))"

text \<open>Only the count of iterators may differ.\<close>

definition same_tables :: "('k, 'v) dict \<Rightarrow> ('k, 'v) dict \<Rightarrow> bool" where
  "same_tables d d' \<longleftrightarrow> ht0 d' = ht0 d \<and> ht1 d' = ht1 d \<and> rehashidx d' = rehashidx d"

lemma same_tables_trans: "same_tables a b \<Longrightarrow> same_tables b c \<Longrightarrow> same_tables a c"
  by (simp add: same_tables_def)

lemma same_tables_cong:
  "same_tables d d' \<Longrightarrow> it_rest d' it = it_rest d it \<and> it_ok d' it = it_ok d it \<and>
    dict_inv ty d' = dict_inv ty d \<and> entries d' = entries d"
  by (simp add: same_tables_def it_rest_def it_ok_def dict_inv_def entries_def dictIsRehashing_def)

lemma dict_inv_sizes:
  assumes "dict_inv ty d"
  shows "length (table (ht0 d)) = ht_size (ht0 d)" "length (table (ht1 d)) = ht_size (ht1 d)"
    "ht_size (ht0 d) \<le> 2 ^ 30" "ht_size (ht1 d) \<le> 2 ^ 30" "dictIsRehashing d \<Longrightarrow> 0 < ht_size (ht1 d)"
    "\<not> dictIsRehashing d \<Longrightarrow> table (ht1 d) = []"
  using assms ht_okD(1,2,4) by (force simp: dict_inv_def dictIsRehashing_def split: if_splits)+

text \<open>Advancing past the current chain.\<close>

lemma iter_advance_correct:
  assumes "dict_inv ty d" "it_ok d it" "it_entry it = []"
  shows "\<exists>d' it' found. iter_advance d it = Some (d', it', found) \<and> same_tables d d' \<and>
    (if found then it_ok d' it' \<and> it_rest d it = it_entry it' @ it_rest d' (it'\<lparr>it_entry := []\<rparr>)
     else it_rest d it = [])"
proof -
  note sz = dict_inv_sizes [OF assms(1)]
  define n where "n = nat (it_index it + 1)"
  have n: "it_index it + 1 = int n" "n \<le> 2 ^ 30"
    using assms(2) sz(3,4) by (auto simp: n_def it_ok_def split: if_splits)
  have c: "c_int (it_index it + 1) = Some (int n)" using n by (simp add: c_arith)
  have sn: "to_int32 (int (ht_size (ht0 d))) = int (ht_size (ht0 d))"
    "to_int32 (int (ht_size (ht1 d))) = int (ht_size (ht1 d))" using sz(3,4) by (simp_all add: c_arith)
  define d1 where "d1 = (if it_safe it \<and> it_index it = - 1 \<and> it_table it = 0
    then d\<lparr>iterators := iterators d + 1\<rparr> else d)"
  have d1: "same_tables d d1" "dictIsRehashing d1 = dictIsRehashing d" "ht0 d1 = ht0 d" "ht1 d1 = ht1 d"
    by (simp_all add: d1_def same_tables_def dictIsRehashing_def)
  note run = iter_advance_def [of d it, unfolded Let_def d1_def [symmetric] c bind.bind_lunit]
  consider "it_table it = 0" "n < ht_size (ht0 d)"
    | "it_table it = 0" "\<not> n < ht_size (ht0 d)" "dictIsRehashing d"
    | "it_table it = 0" "\<not> n < ht_size (ht0 d)" "\<not> dictIsRehashing d"
    | "it_table it = 1" "dictIsRehashing d" "n < ht_size (ht1 d)"
    | "it_table it = 1" "dictIsRehashing d" "\<not> n < ht_size (ht1 d)"
    using assms(2) by (auto simp: it_ok_def split: if_splits)
  then show ?thesis
  proof cases
    case 1
    then have "iter_advance d it = Some (d1, it\<lparr>it_index := int n, it_entry := table (ht0 d) ! n\<rparr>, True)"
      using sz(1) by (simp add: run sn)
    moreover have "drop n (table (ht0 d)) = table (ht0 d) ! n # drop (Suc n) (table (ht0 d))"
      using 1 sz(1) by (simp add: Cons_nth_drop_Suc)
    ultimately show ?thesis using d1 1 assms(3) by (simp add: it_ok_def it_rest_def n nat_add_distrib ex_bool_eq)
  next
    case 2
    obtain b bs where b: "table (ht1 d) = b # bs" using 2 sz(2,5) by (cases "table (ht1 d)") auto
    then have "iter_advance d it = Some (d1, it\<lparr>it_table := 1, it_index := 0, it_entry := b\<rparr>, True)"
      using 2 d1 by (simp add: run sn bucket_def)
    then show ?thesis using d1 2 assms(3) b sz(1,5) by (simp add: it_ok_def it_rest_def n ex_bool_eq)
  next
    case 3
    then have "iter_advance d it = Some (d1, it\<lparr>it_index := int n\<rparr>, False)"
      using d1 by (simp add: run sn)
    then show ?thesis using d1 3 assms(3) sz(1,6) by (simp add: it_rest_def n ex_bool_eq)
  next
    case 4
    then have "iter_advance d it = Some (d1, it\<lparr>it_index := int n, it_entry := table (ht1 d) ! n\<rparr>, True)"
      using sz(2) by (simp add: run sn)
    moreover have "drop n (table (ht1 d)) = table (ht1 d) ! n # drop (Suc n) (table (ht1 d))"
      using 4 sz(2) by (simp add: Cons_nth_drop_Suc)
    ultimately show ?thesis using d1 4 assms(3) by (simp add: it_ok_def it_rest_def n nat_add_distrib ex_bool_eq)
  next
    case 5
    then have "iter_advance d it = Some (d1, it\<lparr>it_index := int n\<rparr>, False)"
      using d1 by (simp add: run sn)
    then show ?thesis using d1 5 assms(3) sz(2) by (simp add: it_rest_def n ex_bool_eq)
  qed
qed

lemma dictNext_correct:
  assumes "dict_inv ty d" "it_ok d it"
  shows "\<exists>d' it'. dictNext d it = Some (d', it', case it_rest d it of [] \<Rightarrow> None | e # _ \<Rightarrow> Some e) \<and>
    same_tables d d' \<and> (it_rest d it \<noteq> [] \<longrightarrow> it_ok d' it' \<and> it_rest d' it' = tl (it_rest d it))"
  using assms
proof (induction d it rule: dictNext.induct)
  case (1 d it)
  define stp where "stp = (if it_entry it = [] then iter_advance d it
            else Some (d, it\<lparr>it_entry := it_next it\<rparr>, True))"
  obtain d1 it1 found where s: "stp = Some (d1, it1, found)" "same_tables d d1"
    "if found then it_ok d1 it1 \<and> it_rest d it = it_entry it1 @ it_rest d1 (it1\<lparr>it_entry := []\<rparr>)
     else it_rest d it = []"
  proof (cases "it_entry it = []")
    case True
    then show thesis using iter_advance_correct [OF 1(2,3) True] that by (auto simp: stp_def)
  next
    case False
    then show thesis using 1(3) that [of d "it\<lparr>it_entry := it_next it\<rparr>" True]
      by (cases "it_table it = 0") (simp_all add: stp_def same_tables_def it_ok_def it_rest_def)
  qed
  have eq: "dictNext d it = (if \<not> found then Some (d1, it1, None)
      else case it_entry it1 of e # rest \<Rightarrow> Some (d1, it1\<lparr>it_next := rest\<rparr>, Some e) | [] \<Rightarrow> dictNext d1 it1)"
    by (subst dictNext.simps) (simp add: stp_def [symmetric] s(1))
  show ?case
  proof (cases found)
    case False
    then show ?thesis using s by (simp add: eq)
  next
    case True
    then have ok: "it_ok d1 it1" "it_rest d it = it_entry it1 @ it_rest d1 (it1\<lparr>it_entry := []\<rparr>)"
      using s(3) by simp_all
    show ?thesis
    proof (cases "it_entry it1")
      case Nil
      then have rest: "it_rest d it = it_rest d1 it1" using ok(2) by (simp add: it_rest_def)
      have "dict_inv ty d1" using 1(2) same_tables_cong [OF s(2)] by blast
      then have "\<exists>d' it'. dictNext d1 it1 = Some (d', it', case it_rest d1 it1 of [] \<Rightarrow> None | e # _ \<Rightarrow> Some e) \<and>
        same_tables d1 d' \<and> (it_rest d1 it1 \<noteq> [] \<longrightarrow> it_ok d' it' \<and> it_rest d' it' = tl (it_rest d1 it1))"
        using 1(1) [unfolded stp_def [symmetric], OF s(1)] True Nil ok(1) by auto
      then show ?thesis using s(2) same_tables_trans True Nil unfolding eq rest by fastforce
    next
      case (Cons e rest)
      then show ?thesis using True ok s(2)
        by (cases "it_table it1 = 0") (simp_all add: eq it_ok_def it_rest_def)
    qed
  qed
qed

text \<open>A whole iteration: the entries returned until \<open>NULL\<close>, at most \<open>n\<close> of them.\<close>

primrec iterate :: "nat \<Rightarrow> ('k, 'v) dict \<Rightarrow> ('k, 'v) dictIterator \<Rightarrow>
    (('k, 'v) dict \<times> ('k, 'v) dictIterator \<times> ('k \<times> 'v) list) option" where
  "iterate 0 d it = None"
| "iterate (Suc n) d it = do {
     (d, it, r) \<leftarrow> dictNext d it;
     case r of
       None \<Rightarrow> Some (d, it, [])
     | Some e \<Rightarrow> do { (d, it, es) \<leftarrow> iterate n d it; Some (d, it, e # es) } }"

lemma iterate_correct:
  assumes "dict_inv ty d" "it_ok d it" "length (it_rest d it) < n"
  shows "\<exists>d' it'. iterate n d it = Some (d', it', it_rest d it) \<and> same_tables d d'"
  using assms
proof (induction n arbitrary: d it)
  case (Suc n)
  obtain d1 it1 where s: "dictNext d it = Some (d1, it1, case it_rest d it of [] \<Rightarrow> None | e # _ \<Rightarrow> Some e)"
    "same_tables d d1" "it_rest d it \<noteq> [] \<longrightarrow> it_ok d1 it1 \<and> it_rest d1 it1 = tl (it_rest d it)"
    using dictNext_correct [OF Suc.prems(1,2)] by blast
  show ?case
  proof (cases "it_rest d it")
    case Nil
    then show ?thesis using s by simp
  next
    case (Cons e es)
    have "dict_inv ty d1" using Suc.prems(1) same_tables_cong [OF s(2)] by blast
    then show ?thesis using Suc.IH [of d1 it1] s Cons Suc.prems(3) same_tables_trans [OF s(2)] by fastforce
  qed
qed simp

lemma it_rest_start: "it_rest d dictGetIterator = entries d" "it_rest d dictGetSafeIterator = entries d"
  by (simp_all add: it_rest_def dictGetIterator_def dictGetSafeIterator_def entries_def)

lemma it_ok_start: "it_ok d dictGetIterator" "it_ok d dictGetSafeIterator"
  by (simp_all add: it_ok_def dictGetIterator_def dictGetSafeIterator_def)

text \<open>
  C20.  An iteration over a dictionary returns each of its entries exactly once, in the order of
  the tables, whether or not a rehash is in progress, and then \<open>NULL\<close>; it stays within the
  tables and leaves them unchanged.
\<close>
theorem dictNext_visits_all:
  assumes "dict_inv ty d" "it \<in> {dictGetIterator, dictGetSafeIterator}"
  shows "\<exists>d' it'. iterate (dictSize d + 1) d it = Some (d', it', entries d) \<and>
    distinct (map fst (entries d)) \<and> set (entries d) = {(k, v). dict_map d k = Some v} \<and>
    ht0 d' = ht0 d \<and> ht1 d' = ht1 d \<and> rehashidx d' = rehashidx d"
proof -
  have "it_ok d it" "it_rest d it = entries d"
    using assms(2) it_rest_start it_ok_start by auto
  then have "\<exists>d' it'. iterate (dictSize d + 1) d it = Some (d', it', entries d) \<and> same_tables d d'"
    using iterate_correct [OF assms(1), of it "dictSize d + 1"] dictSize_entries [OF assms(1)] by simp
  moreover have "distinct (map fst (entries d))" using assms(1) by (simp add: dict_inv_def)
  moreover from this have "set (entries d) = {(k, v). dict_map d k = Some v}"
    by (auto simp: dict_map_def)
  ultimately show ?thesis by (simp add: same_tables_def)
qed

definition small_dict :: "(nat, nat) dict" where
  "small_dict =
     \<lparr>ht0 = \<lparr>table = [[(4, 7)], [], [(2, 8)], []], ht_size = 4, sizemask = 3, used = 2\<rparr>,
      ht1 = \<lparr>table = [[], [], [], []], ht_size = 4, sizemask = 3, used = 0\<rparr>,
      rehashidx = 0, iterators = 0\<rparr>"

lemma small_dict_inv: "dict_inv \<lparr>hashFunction = id, keyCompare = (=)\<rparr> small_dict"
  using ex_four by (simp add: small_dict_def dict_inv_def entries_def ht_ok_def all_less_4)

theorem dictNext_visits_all_witness:
  "\<exists>d' it'. iterate (dictSize small_dict + 1) small_dict dictGetSafeIterator = Some (d', it', entries small_dict) \<and>
    distinct (map fst (entries small_dict)) \<and> set (entries small_dict) = {(k, v). dict_map small_dict k = Some v} \<and>
    ht0 d' = ht0 small_dict \<and> ht1 d' = ht1 small_dict \<and> rehashidx d' = rehashidx small_dict"
  by (rule dictNext_visits_all [OF small_dict_inv]) simp

section \<open>Random keys\<close>

lemma bucket_entries:
  "bucket (ht0 d) i = Some b \<Longrightarrow> set b \<subseteq> set (entries d)"
  "bucket (ht1 d) i = Some b \<Longrightarrow> set b \<subseteq> set (entries d)"
  by (auto simp: bucket_def entries_def split: if_splits)

lemma random_bucket_Some:
  "random_bucket d rnd = Some (he, rs) \<Longrightarrow> he \<noteq> [] \<and> set he \<subseteq> set (entries d)"
proof (induction rnd)
  case (Cons r rnd)
  then show ?case using bucket_entries [of d]
    by (force simp: bind_eq_Some_conv Let_def split: if_splits)
qed simp

lemma random_bucket_hit:
  assumes "dict_inv ty d" "e \<in> set (entries d)"
  obtains r he where "\<And>rs. random_bucket d (r # rs) = Some (he, rs)" "e \<in> set he"
proof -
  note sz = dict_inv_sizes [OF assms(1)]
  consider i where "i < ht_size (ht0 d)" "e \<in> set (table (ht0 d) ! i)"
    | i where "i < ht_size (ht1 d)" "e \<in> set (table (ht1 d) ! i)" "dictIsRehashing d"
    using assms(2) sz(1,2,6) by (fastforce simp: entries_def in_set_conv_nth)
  then show thesis
  proof cases
    case 1
    then have ne: "table (ht0 d) ! i \<noteq> []" by auto
    have ok: "ht_ok (hashFunction ty) (ht0 d)" using assms(1) 1(1) dict_inv_ht0 by fastforce
    have "i mod (ht_size (ht0 d) + ht_size (ht1 d)) = i" "i AND sizemask (ht0 d) = i"
      using 1(1) ht_okD(6) [OF ok] by simp_all
    then show thesis using that [of i "table (ht0 d) ! i"] 1 ne sz(1,3) by (simp add: Let_def c_arith)
  next
    case 2
    then have ne: "table (ht1 d) ! i \<noteq> []" by auto
    have "(ht_size (ht0 d) + i) mod (ht_size (ht0 d) + ht_size (ht1 d)) = ht_size (ht0 d) + i"
      using 2(1) by simp
    moreover have "to_uint32 (int (ht_size (ht0 d) + i)) = ht_size (ht0 d) + i"
      using 2(1) sz(3,4) by (simp add: c_arith nat_add_distrib)
    ultimately show thesis using that [of "ht_size (ht0 d) + i" "table (ht1 d) ! i"] 2 ne sz(2)
      by (simp add: Let_def del: of_nat_add)
  qed
qed

lemma length_bucket_le: "he \<noteq> [] \<Longrightarrow> random_bucket d rnd = Some (he, rs) \<Longrightarrow> length he \<le> length (entries d)"
proof (induction rnd)
  case (Cons r rnd)
  have "length b \<le> length (concat t)" if "b \<in> set t" for b :: "('a \<times> 'b) list" and t
    using that by (induction t) auto
  then have "length b \<le> length (entries d)" if "bucket (ht0 d) i = Some b \<or> bucket (ht1 d) i = Some b" for i b
    using that by (fastforce simp: bucket_def entries_def trans_le_add1 trans_le_add2 split: if_splits)
  then show ?case using Cons by (force simp: bind_eq_Some_conv Let_def split: if_splits)
qed simp

lemma rehashed_entries:
  assumes "rehashed ty d d'" "dict_inv ty d"
  shows "set (entries d') = set (entries d)" "length (entries d') = length (entries d)"
  using assms(1) by (auto simp: rehashed_def dest: mset_eq_setD mset_eq_length)

lemma dictGetRandomKey_correct:
  assumes "dict_inv ty d" "dictSize d \<noteq> 0" "dictSize d < 2 ^ 31"
  shows "(\<forall>rnd d' r. dictGetRandomKey ty d rnd = Some (d', r) \<longrightarrow>
      dict_inv ty d' \<and> dict_map d' = dict_map d \<and> (\<exists>e \<in> set (entries d). r = Some e)) \<and>
    (\<forall>e \<in> set (entries d). \<exists>r1 r2 d'. dictGetRandomKey ty d [r1, r2] = Some (d', Some e))"
proof -
  obtain d1 where d1: "(if dictIsRehashing d then dictRehashStep ty d else Some d) = Some d1" "rehashed ty d d1"
    using step_if_rehashing [OF assms(1)] by blast
  have inv: "dict_inv ty d1" using d1(2) by (simp add: rehashed_def)
  note ent = rehashed_entries [OF d1(2) assms(1)]
  have len: "length (entries d1) < 2 ^ 31" using assms dictSize_entries ent(2) by metis
  have run: "dictGetRandomKey ty d rnd = do {
        (he, rs) \<leftarrow> random_bucket d1 rnd;
        case rs of
          [] \<Rightarrow> None
        | r # rs \<Rightarrow> Some (d1, Some (he ! (r mod length he))) }" for rnd
    using assms(2) d1(1) len length_bucket_le [of _ d1 rnd] random_bucket_Some [of d1 rnd]
    by (cases "random_bucket d1 rnd") (auto simp: dictGetRandomKey_def c_arith split: list.splits)
  show ?thesis
  proof (intro conjI allI impI ballI)
    fix rnd d' r
    assume "dictGetRandomKey ty d rnd = Some (d', r)"
    then obtain he r1 rs where "random_bucket d1 rnd = Some (he, r1 # rs)" "d' = d1" "r = Some (he ! (r1 mod length he))"
      unfolding run bind_eq_Some_conv by (fastforce split: list.splits)
    moreover from this have "he ! (r1 mod length he) \<in> set (entries d)"
      using random_bucket_Some [of d1 rnd] ent(1) by fastforce
    ultimately show "dict_inv ty d'" "dict_map d' = dict_map d" "\<exists>e \<in> set (entries d). r = Some e"
      using inv rehashed_map [OF assms(1) d1(2)] by auto
  next
    fix e assume "e \<in> set (entries d)"
    then have "e \<in> set (entries d1)" using ent(1) by simp
    then show "\<exists>r1 r2 d'. dictGetRandomKey ty d [r1, r2] = Some (d', Some e)"
    proof -
      obtain r he where r: "\<And>rs. random_bucket d1 (r # rs) = Some (he, rs)" "e \<in> set he"
        using random_bucket_hit [OF inv \<open>e \<in> set (entries d1)\<close>] by blast
      then obtain j where "j < length he" "he ! j = e" by (auto simp: in_set_conv_nth)
      then have "dictGetRandomKey ty d [r, j] = Some (d1, Some e)" by (simp add: run r(1) del: random_bucket.simps)
      then show ?thesis by blast
    qed
  qed
qed

text \<open>
  C21.  \<open>dictGetRandomKey\<close> on a dictionary that is not empty: what it returns is one of the
  entries, the map is unchanged, and every entry is the answer for some outcome of the two random
  numbers.
\<close>
theorem dictGetRandomKey_entries:
  assumes "dict_inv ty d" "dictSize d \<noteq> 0" "dictSize d < 2 ^ 31"
  shows "(\<forall>rnd d' r. dictGetRandomKey ty d rnd = Some (d', r) \<longrightarrow>
      dict_inv ty d' \<and> dict_map d' = dict_map d \<and> (\<exists>e \<in> set (entries d). r = Some e)) \<and>
    (\<forall>e \<in> set (entries d). \<exists>r1 r2 d'. dictGetRandomKey ty d [r1, r2] = Some (d', Some e))"
  by (rule dictGetRandomKey_correct [OF assms])

theorem dictGetRandomKey_entries_witness:
  "\<exists>r1 r2 d'. dictGetRandomKey \<lparr>hashFunction = id, keyCompare = (=)\<rparr> small_dict [r1, r2] = Some (d', Some (2, 8))"
proof -
  have "dictSize small_dict \<noteq> 0" "dictSize small_dict < 2 ^ 31" "(2, 8) \<in> set (entries small_dict)"
    by (simp_all add: small_dict_def dictSize_def entries_def)
  then show ?thesis using dictGetRandomKey_entries [OF small_dict_inv] by blast
qed

end
