(* ===== verification/Glob.thy ===== *)
theory Glob
  imports Util
begin

text \<open>
  \<open>stringmatchlen\<close> of \<open>util.c\<close>: the glob matcher behind KEYS, CONFIG GET and pattern
  subscriptions.  The pattern and the string are buffers that end in a null byte; the code's two
  pointers are indices into them and the two \<open>int\<close> lengths are kept as the code keeps them, so
  that reading behind a terminator is \<open>None\<close>.

  The specification splits a pattern into tokens (\<open>glob_parse\<close>) and matches them declaratively
  (\<open>token_match\<close>).  The code agrees with it on every non-empty string and every pattern whose
  classes do not end in a lone backslash; a theorem shows what happens to the others.
\<close>

section \<open>The code\<close>

abbreviation "CH_STAR \<equiv> (42 :: byte)"
abbreviation "CH_QMARK \<equiv> (63 :: byte)"
abbreviation "CH_OPEN \<equiv> (91 :: byte)"
abbreviation "CH_CLOSE \<equiv> (93 :: byte)"
abbreviation "CH_CARET \<equiv> (94 :: byte)"
abbreviation "CH_MINUS \<equiv> (45 :: byte)"
abbreviation "CH_ESC \<equiv> (92 :: byte)"

definition char_eq :: "bool \<Rightarrow> byte \<Rightarrow> byte \<Rightarrow> bool" where
  "char_eq nocase a b \<longleftrightarrow> (if nocase then char_tolower a = char_tolower b else a = b)"

text \<open>A range of a class compares \<open>char\<close>s, which are signed; the ends may come in either order.\<close>

definition in_range :: "bool \<Rightarrow> byte \<Rightarrow> byte \<Rightarrow> byte \<Rightarrow> bool" where
  "in_range nocase a b c =
     (let (lo, hi) = (if sint a > sint b then (b, a) else (a, b));
          f = (if nocase then char_tolower else id)
      in sint (f c) \<ge> sint (f lo) \<and> sint (f c) \<le> sint (f hi))"

text \<open>The loop over a class; \<open>sc\<close> is the byte of the string, if it can be read.\<close>

function class_loop ::
  "mem \<Rightarrow> bool \<Rightarrow> byte option \<Rightarrow> nat \<Rightarrow> int \<Rightarrow> bool \<Rightarrow> (nat \<times> int \<times> bool) option" where
  "class_loop pat nocase sc p plen m =
     (case rd p pat of
        None \<Rightarrow> None
      | Some p0 \<Rightarrow>
          if p0 = CH_ESC
          then do { p1 \<leftarrow> rd (p + 1) pat; c \<leftarrow> sc;
                    class_loop pat nocase sc (p + 2) (plen - 2) (m \<or> p1 = c) }
          else if p0 = CH_CLOSE then Some (p, plen, m)
          else if plen = 0 then Some (p - 1, plen + 1, m)
          else do {
            p1 \<leftarrow> rd (p + 1) pat;
            if p1 = CH_MINUS \<and> plen \<ge> 3
            then do { p2 \<leftarrow> rd (p + 2) pat; c \<leftarrow> sc;
                      class_loop pat nocase sc (p + 3) (plen - 3) (m \<or> in_range nocase p0 p2 c) }
            else do { c \<leftarrow> sc;
                      class_loop pat nocase sc (p + 1) (plen - 1) (m \<or> char_eq nocase p0 c) } })"
  by pat_completeness auto
termination
  by (relation "measure (\<lambda>(pat, nocase, sc, p, plen, m). length pat - p)") (auto simp: rd_def split: if_splits)

declare class_loop.simps [simp del]

text \<open>
  A pass of the main loop over anything but a star, up to the final advance of the pattern:
  \<open>None\<close> inside is \<open>return 0\<close>, otherwise the new pattern and string positions and lengths.
\<close>

type_synonym glob_pos = "nat \<times> int \<times> nat \<times> int"

definition glob_literal :: "mem \<Rightarrow> mem \<Rightarrow> bool \<Rightarrow> nat \<Rightarrow> int \<Rightarrow> nat \<Rightarrow> int \<Rightarrow> glob_pos option option" where
  "glob_literal pat str nocase p plen s slen = do {
     p0 \<leftarrow> rd p pat;
     c \<leftarrow> rd s str;
     Some (if char_eq nocase p0 c then Some (p + 1, plen - 1, s + 1, slen - 1) else None) }"

definition glob_class :: "mem \<Rightarrow> mem \<Rightarrow> bool \<Rightarrow> nat \<Rightarrow> int \<Rightarrow> nat \<Rightarrow> int \<Rightarrow> glob_pos option option" where
  "glob_class pat str nocase p plen s slen = do {
     let (p, plen) = (p + 1, plen - 1);
     p0 \<leftarrow> rd p pat;
     let neg = (p0 = CH_CARET);
     let (p, plen) = (if neg then (p + 1, plen - 1) else (p, plen));
     (p, plen, m) \<leftarrow> class_loop pat nocase (rd s str) p plen False;
     Some (if (if neg then \<not> m else m) then Some (p + 1, plen - 1, s + 1, slen - 1) else None) }"

definition glob_step :: "mem \<Rightarrow> mem \<Rightarrow> bool \<Rightarrow> nat \<Rightarrow> int \<Rightarrow> nat \<Rightarrow> int \<Rightarrow> glob_pos option option" where
  "glob_step pat str nocase p plen s slen = do {
     p0 \<leftarrow> rd p pat;
     if p0 = CH_QMARK
     then Some (if slen = 0 then None else Some (p + 1, plen - 1, s + 1, slen - 1))
     else if p0 = CH_OPEN then glob_class pat str nocase p plen s slen
     else if p0 = CH_ESC \<and> plen \<ge> 2 then glob_literal pat str nocase (p + 1) (plen - 1) s slen
     else glob_literal pat str nocase p plen s slen }"

text \<open>Skipping stars: while the byte at \<open>p + k\<close> is a star, for \<open>k\<close> 0 or 1.\<close>

function skip_stars :: "mem \<Rightarrow> nat \<Rightarrow> nat \<Rightarrow> int \<Rightarrow> (nat \<times> int) option" where
  "skip_stars pat k p plen =
     (case rd (p + k) pat of
        None \<Rightarrow> None
      | Some c \<Rightarrow> if c = CH_STAR then skip_stars pat k (p + 1) (plen - 1) else Some (p, plen))"
  by pat_completeness auto
termination
  by (relation "measure (\<lambda>(pat, k, p, plen). length pat - p)") (auto simp: rd_def split: if_splits)

declare skip_stars.simps [simp del]

text \<open>
  The loop over the string behind a star, with the recursive call as \<open>f\<close>.  It ends when the
  length is 0; from a negative length it would run down to the overflow of \<open>int\<close>.
\<close>

primrec star_loop :: "(nat \<Rightarrow> int \<Rightarrow> bool option) \<Rightarrow> nat \<Rightarrow> nat \<Rightarrow> int \<Rightarrow> bool option" where
  "star_loop f 0 s slen = (if slen = 0 then Some False else None)"
| "star_loop f (Suc n) s slen = do { b \<leftarrow> f s slen; if b then Some True else star_loop f n (s + 1) (slen - 1) }"

definition star_count :: "int \<Rightarrow> nat" where
  "star_count slen = (if slen \<ge> 0 then nat slen else nat (slen + 2 ^ 31))"

text \<open>
  The whole function.  Every pass, and every recursive call, is further on in the pattern, so
  more fuel than the pattern is long never runs out.
\<close>

fun glob :: "mem \<Rightarrow> mem \<Rightarrow> bool \<Rightarrow> nat \<Rightarrow> nat \<Rightarrow> int \<Rightarrow> nat \<Rightarrow> int \<Rightarrow> bool option" where
  "glob pat str nocase 0 p plen s slen = None"
| "glob pat str nocase (Suc n) p plen s slen =
     (if plen = 0 then Some (slen = 0)
      else do {
        p0 \<leftarrow> rd p pat;
        if p0 = CH_STAR
        then do {
          (p, plen) \<leftarrow> skip_stars pat 1 p plen;
          if plen = 1 then Some True
          else star_loop (\<lambda>s slen. glob pat str nocase n (p + 1) (plen - 1) s slen) (star_count slen) s slen }
        else do {
          r \<leftarrow> glob_step pat str nocase p plen s slen;
          case r of
            None \<Rightarrow> Some False
          | Some (p, plen, s, slen) \<Rightarrow>
              if slen = 0
              then do { (p, plen) \<leftarrow> skip_stars pat 0 p plen; Some (plen = 0 \<and> slen = 0) }
              else glob pat str nocase n p plen s slen } })"

definition stringmatchlen :: "mem \<Rightarrow> int \<Rightarrow> mem \<Rightarrow> int \<Rightarrow> bool \<Rightarrow> bool option" where
  "stringmatchlen pattern patternLen str stringLen nocase =
     glob pattern str nocase (length pattern + 1) 0 patternLen 0 stringLen"

section \<open>The specification\<close>

datatype class_item = Exact byte | Letter byte | Span byte byte

datatype token = Star | AnyOne | Lit byte | Class bool "class_item list"

function class_parse :: "byte list \<Rightarrow> (class_item list \<times> byte list) option" where
  "class_parse p =
     (case p of
        [] \<Rightarrow> Some ([], [])
      | a # r \<Rightarrow>
          if a = CH_ESC
          then (case r of [] \<Rightarrow> None | c # r \<Rightarrow> map_option (map_prod ((#) (Exact c)) id) (class_parse r))
          else if a = CH_CLOSE then Some ([], r)
          else if 2 \<le> length r \<and> hd r = CH_MINUS
          then map_option (map_prod ((#) (Span a (r ! 1))) id) (class_parse (drop 2 r))
          else map_option (map_prod ((#) (Letter a)) id) (class_parse r))"
  by pat_completeness auto
termination by (relation "measure length") auto

declare class_parse.simps [simp del]

lemma class_parse_shorter: "class_parse p = Some (items, rest) \<Longrightarrow> length rest \<le> length p"
proof (induction p arbitrary: items rule: class_parse.induct)
  case (1 p)
  then show ?case
    by (subst (asm) (4) class_parse.simps) (fastforce split: list.splits if_splits)
qed

text \<open>The pattern as tokens; \<open>None\<close> if a class ends in a lone backslash.\<close>

function glob_parse :: "byte list \<Rightarrow> token list option" where
  "glob_parse p =
     (case p of
        [] \<Rightarrow> Some []
      | a # r \<Rightarrow>
          if a = CH_STAR then map_option ((#) Star) (glob_parse r)
          else if a = CH_QMARK then map_option ((#) AnyOne) (glob_parse r)
          else if a = CH_OPEN
          then (case class_parse (if r \<noteq> [] \<and> hd r = CH_CARET then tl r else r) of
                  None \<Rightarrow> None
                | Some (items, rest) \<Rightarrow>
                    map_option ((#) (Class (r \<noteq> [] \<and> hd r = CH_CARET) items)) (glob_parse rest))
          else if a = CH_ESC \<and> r \<noteq> [] then map_option ((#) (Lit (hd r))) (glob_parse (tl r))
          else map_option ((#) (Lit a)) (glob_parse r))"
  by pat_completeness auto
termination
  by (relation "measure length") (auto dest!: class_parse_shorter split: if_splits)

declare glob_parse.simps [simp del]

primrec item_match :: "bool \<Rightarrow> byte \<Rightarrow> class_item \<Rightarrow> bool" where
  "item_match nocase c (Exact a) \<longleftrightarrow> a = c"
| "item_match nocase c (Letter a) \<longleftrightarrow> char_eq nocase a c"
| "item_match nocase c (Span a b) \<longleftrightarrow> in_range nocase a b c"

primrec one_match :: "bool \<Rightarrow> byte \<Rightarrow> token \<Rightarrow> bool" where
  "one_match nocase c Star \<longleftrightarrow> False"
| "one_match nocase c AnyOne \<longleftrightarrow> True"
| "one_match nocase c (Lit a) \<longleftrightarrow> char_eq nocase a c"
| "one_match nocase c (Class neg items) \<longleftrightarrow> (neg \<noteq> (\<exists>i \<in> set items. item_match nocase c i))"

text \<open>A star matches any run of bytes, every other token one byte.\<close>

inductive token_match :: "bool \<Rightarrow> token list \<Rightarrow> byte list \<Rightarrow> bool" for nocase where
  match_nil: "token_match nocase [] []"
| match_star: "token_match nocase ts s \<Longrightarrow> token_match nocase (Star # ts) (u @ s)"
| match_one: "one_match nocase c t \<Longrightarrow> token_match nocase ts s \<Longrightarrow> token_match nocase (t # ts) (c # s)"

inductive_simps token_match_Nil: "token_match nocase [] s"
inductive_simps token_match_Cons: "token_match nocase (t # ts) s"

section \<open>Agreement\<close>

lemma class_loop_step:
  "class_loop (pre @ CH_ESC # d # r @ [0]) nocase (Some c) (length pre) plen m =
   class_loop (pre @ CH_ESC # d # r @ [0]) nocase (Some c) (length pre + 2) (plen - 2) (m \<or> d = c)"
  "class_loop (pre @ CH_CLOSE # r @ [0]) nocase (Some c) (length pre) plen m = Some (length pre, plen, m)"
  "class_loop (pre @ [0]) nocase (Some c) (length pre) 0 m = Some (length pre - 1, 1, m)"
  "\<lbrakk>a \<notin> {CH_ESC, CH_CLOSE}; 3 \<le> plen\<rbrakk> \<Longrightarrow>
   class_loop (pre @ a # CH_MINUS # b # r @ [0]) nocase (Some c) (length pre) plen m =
   class_loop (pre @ a # CH_MINUS # b # r @ [0]) nocase (Some c) (length pre + 3) (plen - 3) (m \<or> in_range nocase a b c)"
  "\<lbrakk>a \<notin> {CH_ESC, CH_CLOSE}; plen \<noteq> 0; \<not> (hd (r @ [0]) = CH_MINUS \<and> 3 \<le> plen)\<rbrakk> \<Longrightarrow>
   class_loop (pre @ a # r @ [0]) nocase (Some c) (length pre) plen m =
   class_loop (pre @ a # r @ [0]) nocase (Some c) (length pre + 1) (plen - 1) (m \<or> char_eq nocase a c)"
proof -
  show "class_loop (pre @ CH_ESC # d # r @ [0]) nocase (Some c) (length pre) plen m =
   class_loop (pre @ CH_ESC # d # r @ [0]) nocase (Some c) (length pre + 2) (plen - 2) (m \<or> d = c)"
    by (subst class_loop.simps) simp
  show "class_loop (pre @ CH_CLOSE # r @ [0]) nocase (Some c) (length pre) plen m = Some (length pre, plen, m)"
    by (subst class_loop.simps) simp
  show "class_loop (pre @ [0]) nocase (Some c) (length pre) 0 m = Some (length pre - 1, 1, m)"
    by (subst class_loop.simps) simp
  assume a: "a \<notin> {CH_ESC, CH_CLOSE}"
  show "3 \<le> plen \<Longrightarrow>
   class_loop (pre @ a # CH_MINUS # b # r @ [0]) nocase (Some c) (length pre) plen m =
   class_loop (pre @ a # CH_MINUS # b # r @ [0]) nocase (Some c) (length pre + 3) (plen - 3) (m \<or> in_range nocase a b c)"
    using a by (subst class_loop.simps) simp
  obtain x xs where x: "r @ [0] = x # xs" by (cases "r @ [0]") auto
  show "\<lbrakk>plen \<noteq> 0; \<not> (hd (r @ [0]) = CH_MINUS \<and> 3 \<le> plen)\<rbrakk> \<Longrightarrow>
   class_loop (pre @ a # r @ [0]) nocase (Some c) (length pre) plen m =
   class_loop (pre @ a # r @ [0]) nocase (Some c) (length pre + 1) (plen - 1) (m \<or> char_eq nocase a c)"
    using a unfolding x by (subst class_loop.simps) auto
qed

lemma class_loop_correct:
  assumes "class_parse p = Some (items, rest)" "pre \<noteq> []"
  shows "\<exists>q mid. class_loop (pre @ p @ [0]) nocase (Some c) (length pre) (int (length p)) m
      = Some (q, int (length rest) + 1, m \<or> (\<exists>i \<in> set items. item_match nocase c i)) \<and>
    p = mid @ rest \<and> q + 1 = length pre + length mid"
  using assms
proof (induction p arbitrary: pre m items rule: class_parse.induct)
  case (1 p)
  have parse: "class_parse p = Some (items, rest)" by fact
  show ?case
  proof (cases p)
    case Nil
    then have "items = []" "rest = []" using parse by (simp_all add: class_parse.simps)
    then show ?thesis using Nil 1(5) class_loop_step(3) [of pre nocase c m] by auto
  next
    case (Cons a r)
    consider "a = CH_ESC" | "a = CH_CLOSE" | "a \<notin> {CH_ESC, CH_CLOSE}" "2 \<le> length r \<and> hd r = CH_MINUS"
      | "a \<notin> {CH_ESC, CH_CLOSE}" "\<not> (2 \<le> length r \<and> hd r = CH_MINUS)" by blast
    then show ?thesis
    proof cases
      case esc: 1
      then obtain d r' is1 where r: "r = d # r'" "class_parse r' = Some (is1, rest)" "items = Exact d # is1"
        using parse Cons by (subst (asm) class_parse.simps) (auto split: list.splits)
      have p: "p = CH_ESC # d # r'" using Cons r(1) esc by simp
      from "1.IH"(1) [OF Cons esc r(1,2), of "pre @ [CH_ESC, d]" "m \<or> d = c"]
      show ?thesis using class_loop_step(1) [of pre d r' nocase c "int (length p)" m]
        unfolding p r(3) by (fastforce intro: exI [of _ "CH_ESC # d # _"])
    next
      case close: 2
      then have "items = []" "rest = r" using parse Cons by (auto simp: class_parse.simps [of "CH_CLOSE # r"])
      then show ?thesis using close Cons class_loop_step(2) [of pre r nocase c "int (length p)" m]
        by (auto intro: exI [of _ "[CH_CLOSE]"])
    next
      case span: 3
      then obtain b r' where r: "r = CH_MINUS # b # r'" by (cases r; cases "tl r") auto
      then obtain is1 where i: "class_parse r' = Some (is1, rest)" "items = Span a b # is1"
        using span parse Cons by (subst (asm) class_parse.simps) auto
      have p: "p = a # CH_MINUS # b # r'" using Cons r by simp
      have ih: "\<exists>q mid. class_loop ((pre @ [a, CH_MINUS, b]) @ r' @ [0]) nocase (Some c) (length (pre @ [a, CH_MINUS, b]))
          (int (length r')) (m \<or> in_range nocase a b c)
        = Some (q, int (length rest) + 1, (m \<or> in_range nocase a b c) \<or> (\<exists>i \<in> set is1. item_match nocase c i)) \<and>
        r' = mid @ rest \<and> q + 1 = length (pre @ [a, CH_MINUS, b]) + length mid"
        using "1.IH"(2) [OF Cons, where pre = "pre @ [a, CH_MINUS, b]" and m = "m \<or> in_range nocase a b c" and items = is1]
          span i(1) r by auto
      then obtain q mid where "class_loop (pre @ p @ [0]) nocase (Some c) (length pre + 3) (int (length p) - 3) (m \<or> in_range nocase a b c)
        = Some (q, int (length rest) + 1, (m \<or> in_range nocase a b c) \<or> (\<exists>i \<in> set is1. item_match nocase c i))"
        "r' = mid @ rest" "q + 1 = length pre + 3 + length mid" by (auto simp: p numeral_3_eq_3)
      then show ?thesis using class_loop_step(4) [of a "int (length p)" pre b r' nocase c m] span
        unfolding i(2) by (intro exI [of _ q] exI [of _ "a # CH_MINUS # b # mid"]) (simp add: p)
    next
      case letter: 4
      then obtain is1 where i: "class_parse r = Some (is1, rest)" "items = Letter a # is1"
        using parse Cons by (subst (asm) class_parse.simps) auto
      have ih: "\<exists>q mid. class_loop ((pre @ [a]) @ r @ [0]) nocase (Some c) (length (pre @ [a]))
          (int (length r)) (m \<or> char_eq nocase a c)
        = Some (q, int (length rest) + 1, (m \<or> char_eq nocase a c) \<or> (\<exists>i \<in> set is1. item_match nocase c i)) \<and>
        r = mid @ rest \<and> q + 1 = length (pre @ [a]) + length mid"
        using "1.IH"(3) [OF Cons, where pre = "pre @ [a]" and m = "m \<or> char_eq nocase a c" and items = is1]
          letter i(1) by auto
      have nm: "\<not> (hd (r @ [0]) = CH_MINUS \<and> 3 \<le> int (length p))"
        using letter(2) Cons by (cases r) auto
      show ?thesis using class_loop_step(5) [of a "int (length p)" r pre nocase c m] letter(1) nm ih
        unfolding Cons i(2) by (fastforce intro: exI [of _ "a # _"])
    qed
  qed
qed

lemma skip_stars_correct:
  assumes "r = replicate j CH_STAR @ r'" "r' = [] \<or> hd r' \<noteq> CH_STAR" "length pre = p + k"
  shows "skip_stars (pre @ r @ [0]) k p plen = Some (p + j, plen - int j)"
  using assms
proof (induction j arbitrary: r pre p plen)
  case 0
  obtain x xs where x: "r' @ [0] = x # xs" "x \<noteq> CH_STAR"
    using 0(2) that [of 0 "[]"] that [of "hd r'" "tl r' @ [0]"] by (cases "r' = []") simp_all
  then have e: "pre @ r @ [0] = pre @ x # xs" using 0(1) by simp
  have "rd (p + k) (pre @ r @ [0]) = Some x" unfolding e 0(3) [symmetric] by simp
  then show ?case using x(2) by (subst skip_stars.simps) simp
next
  case (Suc j)
  have "skip_stars ((pre @ [CH_STAR]) @ (replicate j CH_STAR @ r') @ [0]) k (p + 1) (plen - 1)
      = Some (p + 1 + j, plen - 1 - int j)"
    using Suc.prems(2,3) by (intro Suc.IH) simp_all
  then show ?case using Suc.prems(1) by (subst skip_stars.simps) (simp flip: Suc.prems(3))
qed

lemma star_loop_correct:
  assumes "\<And>i. i < length s \<Longrightarrow> f (n + i) (int (length s - i)) = Some (g (drop i s))"
  shows "star_loop f (length s) n (int (length s)) = Some (\<exists>i < length s. g (drop i s))"
  using assms
proof (induction s arbitrary: n)
  case (Cons c s)
  have "star_loop f (length s) (n + 1) (int (length s)) = Some (\<exists>i < length s. g (drop i s))"
    using Cons.prems [of "Suc _"] by (intro Cons.IH) simp
  moreover have "f n (int (length (c # s))) = Some (g (c # s))" using Cons.prems [of 0] by simp
  moreover have "(\<exists>i < length (c # s). g (drop i (c # s))) \<longleftrightarrow> g (c # s) \<or> (\<exists>i < length s. g (drop i s))"
    by (auto simp: less_Suc_eq_0_disj)
  ultimately show ?case by simp
qed simp

lemma token_match_star: "token_match nocase (Star # ts) s \<longleftrightarrow> (\<exists>i \<le> length s. token_match nocase ts (drop i s))"
proof
  assume "token_match nocase (Star # ts) s"
  then obtain u v where "s = u @ v" "token_match nocase ts v" by (auto simp: token_match_Cons)
  then show "\<exists>i \<le> length s. token_match nocase ts (drop i s)" by (intro exI [of _ "length u"]) simp
next
  assume "\<exists>i \<le> length s. token_match nocase ts (drop i s)"
  then show "token_match nocase (Star # ts) s" by (metis append_take_drop_id match_star)
qed

lemma token_match_star_star: "token_match nocase (Star # Star # ts) s \<longleftrightarrow> token_match nocase (Star # ts) s"
  by (auto simp: token_match_Cons [of _ Star]) (metis append.assoc)+

lemma token_match_stars: "token_match nocase (replicate (Suc j) Star @ ts) s \<longleftrightarrow> token_match nocase (Star # ts) s"
  by (induction j) (simp_all add: token_match_star_star)

lemma token_match_one: "t \<noteq> Star \<Longrightarrow> token_match nocase (t # ts) s \<longleftrightarrow>
    (\<exists>c s1. s = c # s1 \<and> one_match nocase c t \<and> token_match nocase ts s1)"
  by (auto simp: token_match_Cons)

lemma glob_parse_stars: "glob_parse (replicate j CH_STAR @ r) = map_option ((@) (replicate j Star)) (glob_parse r)"
  by (induction j) (auto simp: glob_parse.simps [of "CH_STAR # _"] option.map_comp o_def option.map_ident)

lemma split_stars:
  obtains j r' where "r = replicate j CH_STAR @ r'" "r' = [] \<or> hd r' \<noteq> CH_STAR"
proof -
  have "\<exists>j r'. r = replicate j CH_STAR @ r' \<and> (r' = [] \<or> hd r' \<noteq> CH_STAR)"
  proof (induction r)
    case (Cons a r)
    then obtain j r' where "r = replicate j CH_STAR @ r'" "r' = [] \<or> hd r' \<noteq> CH_STAR" by blast
    then show ?case
      by (cases "a = CH_STAR")
        (auto intro: exI [of _ "Suc j"] exI [of _ r'] exI [of _ "0 :: nat"] exI [of _ "a # r"])
  qed simp
  then show thesis using that by blast
qed

text \<open>A pattern that does not start with a star starts with a token for one byte.\<close>

lemma glob_step_correct:
  assumes "glob_parse p = Some ts" "p = a # r" "a \<noteq> CH_STAR"
  shows "\<exists>t ts1 mid r1. ts = t # ts1 \<and> t \<noteq> Star \<and> p = mid @ r1 \<and> mid \<noteq> [] \<and> glob_parse r1 = Some ts1 \<and>
    (\<forall>pre spre c s1. glob_step (pre @ p @ [0]) (spre @ c # s1 @ [0]) nocase (length pre) (int (length p))
        (length spre) (int (length s1) + 1) =
      Some (if one_match nocase c t
            then Some (length pre + length mid, int (length r1), length spre + 1, int (length s1)) else None))"
proof -
  consider "a = CH_QMARK" | "a = CH_OPEN" | "a = CH_ESC" "r \<noteq> []" | "a \<notin> {CH_QMARK, CH_OPEN}" "a \<noteq> CH_ESC \<or> r = []"
    by blast
  then show ?thesis
  proof cases
    case 1
    then obtain ts1 where "ts = AnyOne # ts1" "glob_parse r = Some ts1"
      using assms by (auto simp: glob_parse.simps [of "CH_QMARK # r"])
    then show ?thesis using 1 assms(2)
      by (intro exI [of _ AnyOne] exI [of _ ts1] exI [of _ "[CH_QMARK]"] exI [of _ r]) (simp add: glob_step_def)
  next
    case 2
    define neg where "neg = (r \<noteq> [] \<and> hd r = CH_CARET)"
    define body where "body = (if neg then tl r else r)"
    obtain items rest ts1 where parse: "class_parse body = Some (items, rest)" "glob_parse rest = Some ts1"
      "ts = Class neg items # ts1"
      using assms(1,2) 2 unfolding body_def neg_def
      by (subst (asm) glob_parse.simps) (auto split: option.splits)
    define open_part where "open_part = (if neg then [CH_OPEN, CH_CARET] else [CH_OPEN])"
    have p: "p = open_part @ body" using assms(2) 2
      by (cases r) (auto simp: open_part_def body_def neg_def)
    have ne_open: "open_part \<noteq> []" by (simp add: open_part_def)
    obtain mid0 where mid0: "body = mid0 @ rest"
      using class_loop_correct [OF parse(1), of "[CH_OPEN]" nocase 0 False] by auto
    have "glob_step (pre @ p @ [0]) (spre @ c # s1 @ [0]) nocase (length pre) (int (length p))
        (length spre) (int (length s1) + 1) =
      Some (if one_match nocase c (Class neg items)
            then Some (length pre + length (open_part @ mid0), int (length rest), length spre + 1, int (length s1)) else None)"
      for pre spre c s1
    proof -
      obtain q where q: "class_loop ((pre @ open_part) @ body @ [0]) nocase (Some c) (length (pre @ open_part)) (int (length body)) False
          = Some (q, int (length rest) + 1, (\<exists>i \<in> set items. item_match nocase c i))"
        "q + 1 = length (pre @ open_part) + length mid0"
        using class_loop_correct [OF parse(1), of "pre @ open_part" nocase c False] mid0 ne_open by auto
      have pp: "pre @ p @ [0] = (pre @ open_part) @ body @ [0]" by (simp add: p)
      have r1: "rd (length pre) (pre @ p @ [0]) = Some CH_OPEN" using assms(2) 2 by simp
      obtain x where r2: "rd (length pre + 1) (pre @ p @ [0]) = Some x" "(x = CH_CARET) = neg"
        using assms(2) 2 by (cases r) (auto simp: neg_def)
      have pos: "(if neg then (length pre + 1 + 1, int (length p) - 1 - 1) else (length pre + 1, int (length p) - 1))
          = (length (pre @ open_part), int (length body))" by (simp add: p open_part_def)
      have "glob_class (pre @ p @ [0]) (spre @ c # s1 @ [0]) nocase (length pre) (int (length p))
          (length spre) (int (length s1) + 1) =
        Some (if (if neg then \<not> (\<exists>i \<in> set items. item_match nocase c i) else (\<exists>i \<in> set items. item_match nocase c i))
              then Some (q + 1, int (length rest) + 1 - 1, length spre + 1, int (length s1) + 1 - 1) else None)"
        using q(1) unfolding glob_class_def Let_def prod.case r2 bind.bind_lunit pos
        by (simp add: pp)
      moreover have "glob_step (pre @ p @ [0]) (spre @ c # s1 @ [0]) nocase (length pre) (int (length p))
          (length spre) (int (length s1) + 1) = glob_class (pre @ p @ [0]) (spre @ c # s1 @ [0]) nocase (length pre)
          (int (length p)) (length spre) (int (length s1) + 1)"
        unfolding glob_step_def r1 bind.bind_lunit by simp
      moreover have "q + 1 = length pre + length (open_part @ mid0)" using q(2) by simp
      moreover have "(if neg then \<not> (\<exists>i \<in> set items. item_match nocase c i) else (\<exists>i \<in> set items. item_match nocase c i))
          = one_match nocase c (Class neg items)" by simp
      ultimately show ?thesis by (simp only: add_diff_cancel_right')
    qed
    then show ?thesis using parse(2,3) p mid0
      by (intro exI [of _ "Class neg items"] exI [of _ ts1] exI [of _ "open_part @ mid0"] exI [of _ rest])
        (simp add: open_part_def)
  next
    case 3
    then obtain d r1 where r: "r = d # r1" by (cases r) auto
    then obtain ts1 where "ts = Lit d # ts1" "glob_parse r1 = Some ts1"
      using assms 3 by (auto simp: glob_parse.simps [of "CH_ESC # d # r1"])
    then show ?thesis using 3 assms(2) r
      by (intro exI [of _ "Lit d"] exI [of _ ts1] exI [of _ "[CH_ESC, d]"] exI [of _ r1])
        (simp add: glob_step_def glob_literal_def)
  next
    case 4
    then obtain ts1 where "ts = Lit a # ts1" "glob_parse r = Some ts1"
      using assms by (auto simp: glob_parse.simps [of "a # r"])
    then show ?thesis using 4 assms(2)
      by (intro exI [of _ "Lit a"] exI [of _ ts1] exI [of _ "[a]"] exI [of _ r])
        (auto simp: glob_step_def glob_literal_def)
  qed
qed

lemma glob_parse_Nil: "glob_parse r = Some ts \<Longrightarrow> token_match nocase ts [] \<longleftrightarrow> (\<forall>x \<in> set r. x = CH_STAR)"
proof -
  assume r: "glob_parse r = Some ts"
  obtain j r' where d: "r = replicate j CH_STAR @ r'" "r' = [] \<or> hd r' \<noteq> CH_STAR" by (rule split_stars)
  then obtain ts' where ts: "glob_parse r' = Some ts'" "ts = replicate j Star @ ts'"
    using r by (auto simp: glob_parse_stars)
  have st: "token_match nocase (replicate j Star @ ts') [] \<longleftrightarrow> token_match nocase ts' []"
    by (induction j) (auto simp: token_match_star)
  show ?thesis
  proof (cases r')
    case Nil
    then show ?thesis using d ts st by (auto simp: glob_parse.simps [of "[]"] token_match_Nil)
  next
    case (Cons a r2)
    then obtain t ts1 where "ts' = t # ts1" "t \<noteq> Star"
      using glob_step_correct [OF ts(1) Cons] d(2) Cons by (metis list.discI list.sel(1))
    then show ?thesis using d ts st Cons by (simp add: token_match_one)
  qed
qed

lemma glob_correct:
  assumes "glob_parse p = Some ts" "s \<noteq> []" "length p < n"
  shows "glob (pre @ p @ [0]) (spre @ s @ [0]) nocase n (length pre) (int (length p)) (length spre) (int (length s))
    = Some (token_match nocase ts s)"
  using assms
proof (induction n arbitrary: p ts s pre spre)
  case (Suc n)
  show ?case
  proof (cases p)
    case Nil
    then show ?thesis using Suc.prems by (simp add: glob_parse.simps [of "[]"] token_match_Nil)
  next
    case (Cons a r)
    have p0: "rd (length pre) (pre @ p @ [0]) = Some a" by (simp add: Cons)
    show ?thesis
    proof (cases "a = CH_STAR")
      case True
      obtain j r' where d: "r = replicate j CH_STAR @ r'" "r' = [] \<or> hd r' \<noteq> CH_STAR" by (rule split_stars)
      then have p: "p = replicate (Suc j) CH_STAR @ r'" using Cons True by simp
      then obtain ts' where ts: "glob_parse r' = Some ts'" "ts = replicate (Suc j) Star @ ts'"
        using Suc.prems(1) by (auto simp: glob_parse_stars simp del: replicate_Suc)
      have skip: "skip_stars (pre @ p @ [0]) 1 (length pre) (int (length p)) = Some (length pre + j, int (length p) - int j)"
        using skip_stars_correct [OF d, of "pre @ [CH_STAR]" "length pre" 1] Cons True by simp
      show ?thesis
      proof (cases "r' = []")
        case nil: True
        then have "ts' = []" using ts(1) by (simp add: glob_parse.simps [of "[]"])
        moreover have "token_match nocase [Star] s" using match_star [OF match_nil, of nocase s] by simp
        ultimately have "token_match nocase ts s" using token_match_stars [of nocase j "[]" s] ts(2) by simp
        then show ?thesis using skip nil p True Cons p0 by simp
      next
        case False
        have rec: "glob (pre @ p @ [0]) (spre @ s @ [0]) nocase n (length pre + j + 1) (int (length p) - int j - 1)
            (length spre + i) (int (length s - i)) = Some (token_match nocase ts' (drop i s))"
          if "i < length s" for i
          using Suc.IH [OF ts(1), of "drop i s" "pre @ replicate (Suc j) CH_STAR" "spre @ take i s"] that Suc.prems(3) p
            append_take_drop_id [of i s] by (simp flip: append.assoc [of "take i s"] del: append_take_drop_id)
        have sl: "star_loop (\<lambda>s' slen. glob (pre @ p @ [0]) (spre @ s @ [0]) nocase n (length pre + j + 1)
            (int (length p) - int j - 1) s' slen) (length s) (length spre) (int (length s))
          = Some (\<exists>i < length s. token_match nocase ts' (drop i s))"
          by (rule star_loop_correct) (rule rec)
        obtain a' r2 where r': "r' = a' # r2" using False by (cases r') auto
        then have "\<not> token_match nocase ts' []"
          using d(2) glob_parse_Nil [OF ts(1), of nocase] by auto
        then have "(\<exists>i < length s. token_match nocase ts' (drop i s)) \<longleftrightarrow> token_match nocase (Star # ts') s"
          unfolding token_match_star by (metis drop_all le_less order.order_iff_strict)
        then show ?thesis
          using skip sl False p True p0 ts(2) token_match_stars [of nocase j ts' s] Cons
          by (simp add: star_count_def)
      qed
    next
      case False
      obtain c s1 where s: "s = c # s1" using Suc.prems(2) by (cases s) auto
      obtain t ts1 mid r1 where st: "ts = t # ts1" "t \<noteq> Star" "p = mid @ r1" "mid \<noteq> []" "glob_parse r1 = Some ts1"
        "glob_step (pre @ p @ [0]) (spre @ c # s1 @ [0]) nocase (length pre) (int (length p))
          (length spre) (int (length s1) + 1) =
        Some (if one_match nocase c t
              then Some (length pre + length mid, int (length r1), length spre + 1, int (length s1)) else None)"
        using glob_step_correct [OF Suc.prems(1) Cons False] by meson
      have run: "glob (pre @ p @ [0]) (spre @ s @ [0]) nocase (Suc n) (length pre) (int (length p)) (length spre) (int (length s)) =
        (if one_match nocase c t
         then if s1 = []
              then do { (p, plen) \<leftarrow> skip_stars (pre @ p @ [0]) 0 (length pre + length mid) (int (length r1)); Some (plen = 0) }
              else glob (pre @ p @ [0]) (spre @ s @ [0]) nocase n (length pre + length mid) (int (length r1))
                (length spre + 1) (int (length s1))
         else Some False)"
        using p0 False st(6) Cons s by (simp add: add.commute)
      show ?thesis
      proof (cases "s1 = []")
        case True
        obtain j r' where d: "r1 = replicate j CH_STAR @ r'" "r' = [] \<or> hd r' \<noteq> CH_STAR" by (rule split_stars)
        have "skip_stars (pre @ p @ [0]) 0 (length pre + length mid) (int (length r1))
            = Some (length pre + length mid + j, int (length r1) - int j)"
          using skip_stars_correct [OF d, of "pre @ mid" "length pre + length mid" 0] st(3) by simp
        moreover have "int (length r1) - int j = 0 \<longleftrightarrow> (\<forall>x \<in> set r1. x = CH_STAR)"
          using d by (cases r') auto
        ultimately show ?thesis
          using run True s st(1,2) glob_parse_Nil [OF st(5), of nocase] by (auto simp: token_match_one)
      next
        case ne: False
        have "glob (pre @ p @ [0]) (spre @ s @ [0]) nocase n (length pre + length mid) (int (length r1))
            (length spre + 1) (int (length s1)) = Some (token_match nocase ts1 s1)"
          using Suc.IH [OF st(5) ne, of "pre @ mid" "spre @ [c]"] Suc.prems(3) st(3,4) s by (cases mid) auto
        then show ?thesis using run ne s st(1,2) by (simp add: token_match_one)
      qed
    qed
  qed
qed simp

section \<open>The properties\<close>

text \<open>
  C19.  On a non-empty string and a pattern whose classes do not end in a lone backslash, the
  matcher stays inside both buffers, terminates, and answers whether the pattern's tokens match
  the string, with and without regard to case.
\<close>
theorem stringmatchlen_correct:
  assumes "glob_parse p = Some ts" "s \<noteq> []"
  shows "stringmatchlen (p @ [0]) (int (length p)) (s @ [0]) (int (length s)) nocase
    = Some (token_match nocase ts s)"
  using glob_correct [OF assms, of "length (p @ [0]) + 1" "[]" "[]" nocase]
  by (simp add: stringmatchlen_def del: glob.simps)

theorem stringmatchlen_correct_witness:
  "stringmatchlen (bytes ''h*[a-c]'' @ [0]) (int (length (bytes ''h*[a-c]''))) (bytes ''hub'' @ [0])
     (int (length (bytes ''hub''))) True
   = Some (token_match True [Lit 104, Star, Class False [Span 97 99]] (bytes ''hub''))"
proof (rule stringmatchlen_correct)
  show "glob_parse (bytes ''h*[a-c]'') = Some [Lit 104, Star, Class False [Span 97 99]]"
    by (simp add: glob_parse.simps class_parse.simps)
qed simp

text \<open>A class that ends in a lone backslash: the loop skips the terminator and leaves the pattern.\<close>

lemma class_loop_overread:
  assumes "class_parse p = None"
  shows "class_loop (pre @ p @ [0]) nocase (Some c) (length pre) (int (length p)) m = None"
  using assms
proof (induction p arbitrary: pre m rule: class_parse.induct)
  case (1 p)
  have parse: "class_parse p = None" by fact
  then obtain a r where p: "p = a # r" by (cases p) (simp_all add: class_parse.simps)
  consider (lone) "a = CH_ESC" "r = []" | (esc) d r' where "a = CH_ESC" "r = d # r'" "class_parse r' = None"
    | (span) b r' where "a \<notin> {CH_ESC, CH_CLOSE}" "r = CH_MINUS # b # r'" "class_parse r' = None"
    | (letter) "a \<notin> {CH_ESC, CH_CLOSE}" "\<not> (2 \<le> length r \<and> hd r = CH_MINUS)" "class_parse r = None"
  proof -
    have "a \<noteq> CH_CLOSE" using parse p by (auto simp: class_parse.simps [of "CH_CLOSE # r"])
    moreover have "\<exists>b r'. r = CH_MINUS # b # r'" if "2 \<le> length r \<and> hd r = CH_MINUS"
      using that by (cases r; cases "tl r") auto
    ultimately show thesis using that parse unfolding p
      by (subst (asm) class_parse.simps) (fastforce split: list.splits if_splits)
  qed
  then show ?case
  proof cases
    case lone
    then show ?thesis unfolding p by (subst class_loop.simps, simp add: class_loop.simps rd_def)
  next
    case esc
    from "1.IH"(1) [OF p esc, of "pre @ [CH_ESC, d]" "m \<or> d = c"] show ?thesis
      using class_loop_step(1) [of pre d r' nocase c "int (length p)" m] unfolding p esc by simp
  next
    case span
    have "class_loop ((pre @ [a, CH_MINUS, b]) @ r' @ [0]) nocase (Some c) (length (pre @ [a, CH_MINUS, b]))
        (int (length r')) (m \<or> in_range nocase a b c) = None"
      using "1.IH"(2) [OF p, of "pre @ [a, CH_MINUS, b]" "m \<or> in_range nocase a b c"] span by simp
    then show ?thesis using class_loop_step(4) [OF span(1), of "int (length p)" pre b r' nocase c m]
      unfolding p span(2) by (simp add: numeral_3_eq_3)
  next
    case letter
    have "class_loop ((pre @ [a]) @ r @ [0]) nocase (Some c) (length (pre @ [a])) (int (length r)) (m \<or> char_eq nocase a c) = None"
      using "1.IH"(3) [OF p, of "pre @ [a]" "m \<or> char_eq nocase a c"] letter by simp
    moreover have "\<not> (hd (r @ [0]) = CH_MINUS \<and> 3 \<le> int (length p))"
      using letter(2) p by (cases r) auto
    ultimately show ?thesis using class_loop_step(5) [OF letter(1), of "int (length p)" r pre nocase c m]
      unfolding p by simp
  qed
qed

lemma glob_overread:
  assumes "class_parse (if r \<noteq> [] \<and> hd r = CH_CARET then tl r else r) = None"
  shows "stringmatchlen ((CH_OPEN # r) @ [0]) (int (length r) + 1) (str @ [0]) (int (length str)) nocase = None"
proof -
  let ?pat = "CH_OPEN # r @ [0]"
  let ?c = "(str @ [0]) ! 0"
  have c: "rd 0 (str @ [0]) = Some ?c" by (simp add: rd_def)
  have "r \<noteq> []" using assms by (auto simp: class_parse.simps)
  then obtain x r' where r: "r = x # r'" by (cases r) auto
  have "glob_class ?pat (str @ [0]) nocase 0 (int (length r) + 1) 0 (int (length str)) = None"
    using class_loop_overread [OF assms, of "if x = CH_CARET then [CH_OPEN, CH_CARET] else [CH_OPEN]" nocase ?c False]
    unfolding r by (auto simp: glob_class_def c rd_def Let_def split: if_splits)
  then show ?thesis by (simp add: stringmatchlen_def glob_step_def rd_def)
qed

text \<open>
  C37.  A class that ends in a lone backslash - no matter which letters, ranges and escaped characters
  stand before it, and negated or not - makes the pattern length negative and the matcher read behind
  the end of the pattern, whatever the string.
\<close>
theorem stringmatchlen_overread:
  assumes "class_parse (if r \<noteq> [] \<and> hd r = CH_CARET then tl r else r) = None"
  shows "stringmatchlen ((CH_OPEN # r) @ [0]) (int (length r) + 1) (str @ [0]) (int (length str)) nocase = None"
  using assms by (rule glob_overread)

theorem stringmatchlen_overread_witness:
  "stringmatchlen (bytes (''[^a-z'' @ [CHR 0x5C]) @ [0]) 6 (bytes ''x'' @ [0]) 1 True = None"
proof -
  let ?r = "[CH_CARET, 97, CH_MINUS, 122, CH_ESC]"
  have "class_parse (if ?r \<noteq> [] \<and> hd ?r = CH_CARET then tl ?r else ?r) = None" by (simp add: class_parse.simps)
  from stringmatchlen_overread [OF this, of "[120]" True] show ?thesis by simp
qed

end
