(* ===== verification/Sds.thy ===== *)
theory Sds
  imports Util "HOL-Library.Sublist"
begin

text \<open>
  \<open>sds.c\<close>: the length-prefixed, binary-safe strings of Redis.  A string is its header
  (\<open>len\<close> and \<open>free\<close>, both \<open>int\<close>) and the bytes behind it, whose number is the size of the
  allocation; every access is bounds-checked and \<open>None\<close> is undefined behaviour or a failed
  \<open>assert\<close>.  Allocation succeeds.  A \<open>const char *\<close> argument is the buffer it points into, with
  its terminating null byte where the code looks for one.

  \<open>sds_rep s xs\<close> is the invariant: the buffer holds the text \<open>xs\<close>, a null byte, and exactly
  \<open>free\<close> spare bytes.  The lemmas give each operation's effect on the text, and that
  no operation leaves its buffer; the two properties at the end concern the escaped notation of
  \<open>sdscatrepr\<close>, which \<open>sdssplitargs\<close> reads back, and \<open>sdssplitlen\<close>.
\<close>

section \<open>The code\<close>

record sds =
  sds_len :: int
  sds_free :: int
  sds_buf :: mem

abbreviation SDS_MAX_PREALLOC :: nat where "SDS_MAX_PREALLOC \<equiv> 1024 * 1024"

definition sdslen :: "sds \<Rightarrow> nat" where
  "sdslen s = to_size (sds_len s)"

definition sdsavail :: "sds \<Rightarrow> nat" where
  "sdsavail s = to_size (sds_free s)"

subsection \<open>Creation and space\<close>

definition sdsnewlen :: "mem option \<Rightarrow> nat \<Rightarrow> sds option" where
  "sdsnewlen init initlen = do {
     let buf = zrealloc (initlen + 1) [];
     buf \<leftarrow> (case init of
              Some t \<Rightarrow> if initlen \<noteq> 0 then do { bs \<leftarrow> mem_read 0 initlen t; mem_write 0 bs buf } else Some buf
            | None \<Rightarrow> Some buf);
     buf \<leftarrow> wr initlen 0 buf;
     Some \<lparr>sds_len = to_int32 (int initlen), sds_free = 0, sds_buf = buf\<rparr> }"

definition sdsempty :: "sds option" where
  "sdsempty = sdsnewlen (Some [0]) 0"

definition sdsnew :: "mem option \<Rightarrow> sds option" where
  "sdsnew init = do {
     initlen \<leftarrow> (case init of None \<Rightarrow> Some 0 | Some t \<Rightarrow> strlen t);
     sdsnewlen init initlen }"

definition sdsdup :: "sds \<Rightarrow> sds option" where
  "sdsdup s = sdsnewlen (Some (sds_buf s)) (sdslen s)"

definition sdsupdatelen :: "sds \<Rightarrow> sds option" where
  "sdsupdatelen s = do {
     n \<leftarrow> strlen (sds_buf s);
     let reallen = to_int32 (int n);
     d \<leftarrow> c_int (sds_len s - reallen);
     f \<leftarrow> c_int (sds_free s + d);
     Some (s\<lparr>sds_free := f, sds_len := reallen\<rparr>) }"

definition sdsclear :: "sds \<Rightarrow> sds option" where
  "sdsclear s = do {
     f \<leftarrow> c_int (sds_free s + sds_len s);
     buf \<leftarrow> wr 0 0 (sds_buf s);
     Some (s\<lparr>sds_free := f, sds_len := 0, sds_buf := buf\<rparr>) }"

definition sdsMakeRoomFor :: "sds \<Rightarrow> nat \<Rightarrow> sds" where
  "sdsMakeRoomFor s addlen =
     (let free = sdsavail s
      in if free \<ge> addlen then s
         else let len = sdslen s;
                  newlen = to_size (int len + int addlen);
                  newlen = (if newlen < SDS_MAX_PREALLOC then newlen * 2
                            else to_size (int newlen + int SDS_MAX_PREALLOC))
              in s\<lparr>sds_buf := zrealloc (newlen + 1) (sds_buf s),
                   sds_free := to_int32 (int newlen - int len)\<rparr>)"

definition sdsRemoveFreeSpace :: "sds \<Rightarrow> sds" where
  "sdsRemoveFreeSpace s = s\<lparr>sds_buf := zrealloc (to_size (sds_len s + 1)) (sds_buf s), sds_free := 0\<rparr>"

text \<open>The header takes 8 bytes.\<close>

definition sdsAllocSize :: "sds \<Rightarrow> nat" where
  "sdsAllocSize s = to_size (8 + sds_len s + sds_free s + 1)"

text \<open>A write at a negative index is out of bounds.\<close>

definition sdsIncrLen :: "sds \<Rightarrow> int \<Rightarrow> sds option" where
  "sdsIncrLen s incr =
     (if \<not> sds_free s \<ge> incr then None
      else do {
        l \<leftarrow> c_int (sds_len s + incr);
        f \<leftarrow> c_int (sds_free s - incr);
        if \<not> f \<ge> 0 \<or> l < 0 then None
        else do {
          buf \<leftarrow> wr (nat l) 0 (sds_buf s);
          Some (s\<lparr>sds_len := l, sds_free := f, sds_buf := buf\<rparr>) } })"

definition sdsgrowzero :: "sds \<Rightarrow> nat \<Rightarrow> sds option" where
  "sdsgrowzero s len =
     (let curlen = to_size (sds_len s)
      in if len \<le> curlen then Some s
         else do {
           let s = sdsMakeRoomFor s (len - curlen);
           buf \<leftarrow> mem_write curlen (replicate (len - curlen + 1) 0) (sds_buf s);
           t \<leftarrow> c_int (sds_len s + sds_free s);
           let totlen = to_size t;
           let l = to_int32 (int len);
           Some (s\<lparr>sds_buf := buf, sds_len := l, sds_free := to_int32 (int totlen - l)\<rparr>) })"

subsection \<open>Appending and copying\<close>

definition sdscatlen :: "sds \<Rightarrow> mem \<Rightarrow> nat \<Rightarrow> sds option" where
  "sdscatlen s t len = do {
     let curlen = sdslen s;
     let s = sdsMakeRoomFor s len;
     bs \<leftarrow> mem_read 0 len t;
     buf \<leftarrow> mem_write curlen bs (sds_buf s);
     buf \<leftarrow> wr (curlen + len) 0 buf;
     Some (s\<lparr>sds_len := to_int32 (int (curlen + len)), sds_free := to_int32 (sds_free s - int len),
             sds_buf := buf\<rparr>) }"

definition sdscat :: "sds \<Rightarrow> mem \<Rightarrow> sds option" where
  "sdscat s t = do { n \<leftarrow> strlen t; sdscatlen s t n }"

definition sdscatsds :: "sds \<Rightarrow> sds \<Rightarrow> sds option" where
  "sdscatsds s t = sdscatlen s (sds_buf t) (sdslen t)"

definition sdscpy_room :: "sds \<Rightarrow> nat \<Rightarrow> (sds \<times> nat) option" where
  "sdscpy_room s len = do {
     n \<leftarrow> c_int (sds_free s + sds_len s);
     let totlen = to_size n;
     if totlen < len
     then do { let s = sdsMakeRoomFor s (to_size (int len - sds_len s));
               n \<leftarrow> c_int (sds_free s + sds_len s);
               Some (s, to_size n) }
     else Some (s, totlen) }"

definition sdscpylen :: "sds \<Rightarrow> mem \<Rightarrow> nat \<Rightarrow> sds option" where
  "sdscpylen s t len = do {
     (s, totlen) \<leftarrow> sdscpy_room s len;
     bs \<leftarrow> mem_read 0 len t;
     buf \<leftarrow> mem_write 0 bs (sds_buf s);
     buf \<leftarrow> wr len 0 buf;
     Some (s\<lparr>sds_len := to_int32 (int len), sds_free := to_int32 (int totlen - int len), sds_buf := buf\<rparr>) }"

definition sdscpy :: "sds \<Rightarrow> mem \<Rightarrow> sds option" where
  "sdscpy s t = do { n \<leftarrow> strlen t; sdscpylen s t n }"

text \<open>
  \<open>sdscatvprintf\<close> for a format and arguments that print as \<open>out\<close>: \<open>vsnprintf\<close> writes what fits
  the buffer, whose size \<open>16 * 2 ^ j\<close> is doubled until the last byte but one stays null.
\<close>

definition vsnprintf_buf :: "nat \<Rightarrow> byte list \<Rightarrow> mem" where
  "vsnprintf_buf buflen out =
     (let w = take (buflen - 1) out @ [0] in w @ replicate (buflen - length w) 0)"

function vprintf_loop :: "nat \<Rightarrow> byte list \<Rightarrow> mem" where
  "vprintf_loop j out =
     (let buflen = 16 * 2 ^ j; buf = vsnprintf_buf buflen out
      in if buf ! (buflen - 2) \<noteq> 0 then vprintf_loop (Suc j) out else buf)"
  by pat_completeness auto
termination
proof (relation "measure (\<lambda>(j, out). length out - 2 ^ j)")
  fix j out buflen buf
  assume d: "buflen = 16 * 2 ^ j" "buf = vsnprintf_buf buflen out" and nz: "buf ! (buflen - 2) \<noteq> 0"
  have "buflen - 2 < length out"
  proof (rule ccontr)
    assume "\<not> buflen - 2 < length out"
    then have "buf ! (buflen - 2) = 0"
      by (auto simp: d(2) vsnprintf_buf_def Let_def nth_append nth_Cons' min_def)
    with nz show False by simp
  qed
  moreover have "(1 :: nat) \<le> 2 ^ j" by simp
  ultimately have "(2 :: nat) ^ j < length out" unfolding d(1) by linarith
  then show "((Suc j, out), j, out) \<in> measure (\<lambda>(j, out). length out - 2 ^ j)"
    by (simp add: diff_less_mono2)
qed simp

declare vprintf_loop.simps [simp del]

definition sdscatprintf :: "sds \<Rightarrow> byte list \<Rightarrow> sds option" where
  "sdscatprintf s out = sdscat s (vprintf_loop 0 out)"

subsection \<open>Trimming, ranges, case, comparison\<close>

text \<open>\<open>strchr\<close> finds the terminating null byte of the set too.\<close>

definition strchr :: "byte list \<Rightarrow> byte \<Rightarrow> bool" where
  "strchr cset c \<longleftrightarrow> c \<in> set cset \<or> c = 0"

function trim_start :: "byte list \<Rightarrow> mem \<Rightarrow> int \<Rightarrow> int \<Rightarrow> int option" where
  "trim_start cset buf sp end' =
     (if sp \<le> end'
      then (if sp < 0 \<or> sp \<ge> int (length buf) then None
            else if strchr cset (buf ! nat sp) then trim_start cset buf (sp + 1) end' else Some sp)
      else Some sp)"
  by pat_completeness auto
termination by (relation "measure (\<lambda>(cset, buf, sp, end'). nat (end' + 1 - sp))") auto

function trim_end :: "byte list \<Rightarrow> mem \<Rightarrow> int \<Rightarrow> int \<Rightarrow> int option" where
  "trim_end cset buf start ep =
     (if ep > start
      then (if ep < 0 \<or> ep \<ge> int (length buf) then None
            else if strchr cset (buf ! nat ep) then trim_end cset buf start (ep - 1) else Some ep)
      else Some ep)"
  by pat_completeness auto
termination by (relation "measure (\<lambda>(cset, buf, start, ep). nat (ep - start))") auto

declare trim_start.simps [simp del] trim_end.simps [simp del]

definition sdstrim :: "sds \<Rightarrow> byte list \<Rightarrow> sds option" where
  "sdstrim s cset = do {
     let end' = int (sdslen s) - 1;
     sp \<leftarrow> trim_start cset (sds_buf s) 0 end';
     ep \<leftarrow> trim_end cset (sds_buf s) 0 end';
     let len = (if sp > ep then 0 else nat (ep - sp + 1));
     buf \<leftarrow> (if sp \<noteq> 0 then mem_move 0 (nat sp) len (sds_buf s) else Some (sds_buf s));
     buf \<leftarrow> wr len 0 buf;
     Some (s\<lparr>sds_buf := buf, sds_free := to_int32 (sds_free s + (sds_len s - int len)),
             sds_len := to_int32 (int len)\<rparr>) }"

text \<open>The index arithmetic of \<open>sdsrange\<close>: where the range starts and its length.\<close>

definition sdsrange_bounds :: "nat \<Rightarrow> int \<Rightarrow> int \<Rightarrow> (int \<times> int) option" where
  "sdsrange_bounds len start end' =
     (let start = (if start < 0 then max 0 (to_int32 (int len + start)) else start);
          end' = (if end' < 0 then max 0 (to_int32 (int len + end')) else end');
          slen = to_int32 (int len)
      in do {
        newlen \<leftarrow> (if start > end' then Some 0 else c_int (end' - start + 1));
        Some (if newlen \<noteq> 0
              then if start \<ge> slen then (start, 0)
                   else if end' \<ge> slen
                   then let end' = to_int32 (int len - 1)
                        in (start, if start > end' then 0 else end' - start + 1)
                   else (start, newlen)
              else (0, newlen)) })"

definition sdsrange :: "sds \<Rightarrow> int \<Rightarrow> int \<Rightarrow> sds option" where
  "sdsrange s start end' =
     (let len = sdslen s
      in if len = 0 then Some s
         else do {
           (start, newlen) \<leftarrow> sdsrange_bounds len start end';
           buf \<leftarrow> (if start \<noteq> 0 \<and> newlen \<noteq> 0 then mem_move 0 (nat start) (nat newlen) (sds_buf s)
                  else Some (sds_buf s));
           buf \<leftarrow> wr (nat newlen) 0 buf;
           Some (s\<lparr>sds_buf := buf, sds_free := to_int32 (sds_free s + (sds_len s - newlen)),
                   sds_len := to_int32 newlen\<rparr>) })"

text \<open>The loops that rewrite a string byte by byte: \<open>n\<close> bytes from \<open>j\<close> on.\<close>

primrec map_bytes :: "(byte \<Rightarrow> byte) \<Rightarrow> nat \<Rightarrow> nat \<Rightarrow> mem \<Rightarrow> mem option" where
  "map_bytes f 0 j buf = Some buf"
| "map_bytes f (Suc n) j buf = do {
     c \<leftarrow> rd j buf;
     buf \<leftarrow> wr j (f c) buf;
     map_bytes f n (Suc j) buf }"

definition char_toupper :: "byte \<Rightarrow> byte" where
  "char_toupper c = (if 97 \<le> c \<and> c \<le> 122 then c - 32 else c)"

definition sdstolower :: "sds \<Rightarrow> sds option" where
  "sdstolower s = do {
     buf \<leftarrow> map_bytes char_tolower (nat (to_int32 (int (sdslen s)))) 0 (sds_buf s);
     Some (s\<lparr>sds_buf := buf\<rparr>) }"

definition sdstoupper :: "sds \<Rightarrow> sds option" where
  "sdstoupper s = do {
     buf \<leftarrow> map_bytes char_toupper (nat (to_int32 (int (sdslen s)))) 0 (sds_buf s);
     Some (s\<lparr>sds_buf := buf\<rparr>) }"

text \<open>The substitution of \<open>sdsmapchars\<close>: the first match in \<open>from\<close> decides.\<close>

fun map_char :: "byte list \<Rightarrow> byte list \<Rightarrow> byte \<Rightarrow> byte" where
  "map_char (f # from) (t # to) c = (if c = f then t else map_char from to c)"
| "map_char from to c = c"

definition sdsmapchars :: "sds \<Rightarrow> byte list \<Rightarrow> byte list \<Rightarrow> nat \<Rightarrow> sds option" where
  "sdsmapchars s from to setlen =
     (if length from < setlen \<or> length to < setlen then None
      else do {
        buf \<leftarrow> map_bytes (map_char (take setlen from) (take setlen to)) (sdslen s) 0 (sds_buf s);
        Some (s\<lparr>sds_buf := buf\<rparr>) })"

text \<open>\<open>memcmp\<close>, of whose result only the sign is specified.\<close>

fun memcmp :: "byte list \<Rightarrow> byte list \<Rightarrow> int" where
  "memcmp (a # as) (b # bs) = (if a < b then - 1 else if b < a then 1 else memcmp as bs)"
| "memcmp _ _ = 0"

definition sdscmp :: "sds \<Rightarrow> sds \<Rightarrow> int option" where
  "sdscmp s1 s2 =
     (let l1 = sdslen s1; l2 = sdslen s2; minlen = (if l1 < l2 then l1 else l2)
      in do {
        a \<leftarrow> mem_read 0 minlen (sds_buf s1);
        b \<leftarrow> mem_read 0 minlen (sds_buf s2);
        let cmp = memcmp a b;
        if cmp = 0 then Some (to_int32 (int l1 - int l2)) else Some cmp })"

definition sdsfromlonglong :: "int \<Rightarrow> sds option" where
  "sdsfromlonglong value = do {
     v \<leftarrow> (if value < 0 then c_llong (- value) else Some value);
     buf \<leftarrow> ll_digits (nat v) [];
     buf \<leftarrow> (if value < 0
            then (if length buf \<ge> 32 then None else Some (of_char (CHR ''-'') # buf))
            else Some buf);
     sdsnewlen (Some buf) (length buf) }"

subsection \<open>Splitting\<close>

text \<open>
  The array of tokens has room for \<open>slots\<close> of them; \<open>put_token\<close> is the store to the next one.
  The caller of the loop has excluded an empty separator, which would keep it from advancing.
\<close>

definition put_token :: "nat \<Rightarrow> 'a list \<Rightarrow> 'a \<Rightarrow> 'a list option" where
  "put_token slots tokens x = (if length tokens < slots then Some (tokens @ [x]) else None)"

function split_loop ::
  "mem \<Rightarrow> nat \<Rightarrow> mem \<Rightarrow> nat \<Rightarrow> nat \<Rightarrow> nat \<Rightarrow> nat \<Rightarrow> sds list \<Rightarrow> (nat \<times> nat \<times> sds list) option" where
  "split_loop s len sep seplen j start slots tokens =
     (if seplen = 0 then None
      else if int j < int len - (int seplen - 1)
      then let slots = (if slots < length tokens + 2 then slots * 2 else slots)
           in do {
             c \<leftarrow> rd j s;
             d \<leftarrow> rd 0 sep;
             hit \<leftarrow> (if seplen = 1 \<and> c = d then Some True
                    else do { a \<leftarrow> mem_read j seplen s; b \<leftarrow> mem_read 0 seplen sep;
                              Some (memcmp a b = 0) });
             if hit
             then do {
               t \<leftarrow> sdsnewlen (Some (drop start s)) (j - start);
               tokens \<leftarrow> put_token slots tokens t;
               split_loop s len sep seplen (j + seplen - 1 + 1) (j + seplen) slots tokens }
             else split_loop s len sep seplen (j + 1) start slots tokens }
      else Some (start, slots, tokens))"
  by pat_completeness auto
termination
  by (relation "measure (\<lambda>(s, len, sep, seplen, j, start, slots, tokens). len + 1 - j)") auto

declare split_loop.simps [simp del]

text \<open>The result is \<open>NULL\<close> (\<open>Inl ()\<close>) or the array of tokens.\<close>

definition sdssplitlen :: "mem \<Rightarrow> int \<Rightarrow> mem \<Rightarrow> int \<Rightarrow> (unit + sds list) option" where
  "sdssplitlen s len sep seplen =
     (if seplen < 1 \<or> len < 0 then Some (Inl ())
      else if len = 0 then Some (Inr [])
      else do {
        (start, slots, tokens) \<leftarrow> split_loop s (nat len) sep (nat seplen) 0 0 5 [];
        t \<leftarrow> sdsnewlen (Some (drop start s)) (nat len - start);
        tokens \<leftarrow> put_token slots tokens t;
        Some (Inr tokens) })"

subsection \<open>The escaped notation\<close>

abbreviation "CH_QUOTE \<equiv> (34 :: byte)" \<comment> \<open>double quote\<close>
abbreviation "CH_APOS \<equiv> (39 :: byte)"
abbreviation "CH_BSLASH \<equiv> (92 :: byte)"
abbreviation "CH_SPACE \<equiv> (32 :: byte)"

text \<open>\<open>isprint\<close> and \<open>isspace\<close> in the C locale.\<close>

definition isprint :: "byte \<Rightarrow> bool" where
  "isprint c \<longleftrightarrow> 32 \<le> c \<and> c \<le> 126"

definition isspace :: "byte \<Rightarrow> bool" where
  "isspace c \<longleftrightarrow> c = 32 \<or> 9 \<le> c \<and> c \<le> 13"

definition hex_char :: "nat \<Rightarrow> byte" where
  "hex_char d = of_nat (if d < 10 then 48 + d else 87 + d)"

definition repr_char :: "byte \<Rightarrow> sds \<Rightarrow> sds option" where
  "repr_char c s =
     (if c = CH_BSLASH \<or> c = CH_QUOTE then sdscatprintf s [CH_BSLASH, c]
      else if c = 10 then sdscatlen s (bytes [CHR 0x5C, CHR ''n'']) 2
      else if c = 13 then sdscatlen s (bytes [CHR 0x5C, CHR ''r'']) 2
      else if c = 9 then sdscatlen s (bytes [CHR 0x5C, CHR ''t'']) 2
      else if c = 7 then sdscatlen s (bytes [CHR 0x5C, CHR ''a'']) 2
      else if c = 8 then sdscatlen s (bytes [CHR 0x5C, CHR ''b'']) 2
      else if isprint c then sdscatprintf s [c]
      else sdscatprintf s [CH_BSLASH, of_char (CHR ''x''), hex_char (unat c div 16), hex_char (unat c mod 16)])"

primrec repr_loop :: "mem \<Rightarrow> nat \<Rightarrow> nat \<Rightarrow> sds \<Rightarrow> sds option" where
  "repr_loop p 0 i s = Some s"
| "repr_loop p (Suc len) i s = do {
     c \<leftarrow> rd i p;
     s \<leftarrow> repr_char c s;
     repr_loop p len (Suc i) s }"

definition sdscatrepr :: "sds \<Rightarrow> mem \<Rightarrow> nat \<Rightarrow> sds option" where
  "sdscatrepr s p len = do {
     s \<leftarrow> sdscatlen s [CH_QUOTE] 1;
     s \<leftarrow> repr_loop p len 0 s;
     sdscatlen s [CH_QUOTE] 1 }"

definition is_hex_digit :: "byte \<Rightarrow> bool" where
  "is_hex_digit c \<longleftrightarrow> 48 \<le> c \<and> c \<le> 57 \<or> 97 \<le> c \<and> c \<le> 102 \<or> 65 \<le> c \<and> c \<le> 70"

definition hex_digit_to_int :: "byte \<Rightarrow> nat" where
  "hex_digit_to_int c =
     (if 48 \<le> c \<and> c \<le> 57 then unat c - 48
      else if 97 \<le> c \<and> c \<le> 102 then unat c - 87
      else if 65 \<le> c \<and> c \<le> 70 then unat c - 55
      else 0)"

text \<open>
  The conditions of \<open>sdssplitargs\<close> read one byte after another and stop at the first that does
  not fit, so that they never look behind the terminating null byte.
\<close>

definition and_also :: "bool option \<Rightarrow> bool option \<Rightarrow> bool option" where
  "and_also a b = do { x \<leftarrow> a; if x then b else Some False }"

definition test_at :: "mem \<Rightarrow> nat \<Rightarrow> (byte \<Rightarrow> bool) \<Rightarrow> bool option" where
  "test_at line p P = do { c \<leftarrow> rd p line; Some (P c) }"

datatype tok_mode = Plain | InQuotes | InSingleQuotes

datatype tok_step = TokErr | TokDone nat sds | TokNext nat tok_mode sds

text \<open>
  One pass of the inner loop of \<open>sdssplitargs\<close> at position \<open>p\<close>, with the final \<open>if (*p) p++\<close>.
\<close>

definition tok_advance :: "mem \<Rightarrow> nat \<Rightarrow> nat option" where
  "tok_advance line p = do { c \<leftarrow> rd p line; Some (if c \<noteq> 0 then p + 1 else p) }"

definition tok_close :: "mem \<Rightarrow> nat \<Rightarrow> sds \<Rightarrow> tok_step option" where
  "tok_close line p current = do {
     bad \<leftarrow> test_at line (p + 1) (\<lambda>c. c \<noteq> 0 \<and> \<not> isspace c);
     if bad then Some TokErr
     else do { p \<leftarrow> tok_advance line p; Some (TokDone p current) } }"

definition tok_append :: "mem \<Rightarrow> nat \<Rightarrow> tok_mode \<Rightarrow> sds \<Rightarrow> byte \<Rightarrow> tok_step option" where
  "tok_append line p md current c = do {
     current \<leftarrow> sdscatlen current [c] 1;
     p \<leftarrow> tok_advance line p;
     Some (TokNext p md current) }"

definition unescape :: "byte \<Rightarrow> byte" where
  "unescape e =
     (if e = of_char (CHR ''n'') then 10 else if e = of_char (CHR ''r'') then 13
      else if e = of_char (CHR ''t'') then 9 else if e = of_char (CHR ''b'') then 8
      else if e = of_char (CHR ''a'') then 7 else e)"

definition tok_inq :: "mem \<Rightarrow> nat \<Rightarrow> sds \<Rightarrow> tok_step option" where
  "tok_inq line p current = do {
     hex \<leftarrow> and_also (test_at line p (\<lambda>c. c = CH_BSLASH))
             (and_also (test_at line (p + 1) (\<lambda>c. c = of_char (CHR ''x'')))
               (and_also (test_at line (p + 2) is_hex_digit) (test_at line (p + 3) is_hex_digit)));
     if hex
     then do {
       c1 \<leftarrow> rd (p + 2) line;
       c2 \<leftarrow> rd (p + 3) line;
       tok_append line (p + 3) InQuotes current (of_nat (hex_digit_to_int c1 * 16 + hex_digit_to_int c2)) }
     else do {
       esc \<leftarrow> and_also (test_at line p (\<lambda>c. c = CH_BSLASH)) (test_at line (p + 1) (\<lambda>c. c \<noteq> 0));
       c \<leftarrow> rd p line;
       if esc
       then do {
         e \<leftarrow> rd (p + 1) line;
         tok_append line (p + 1) InQuotes current (unescape e) }
       else if c = CH_QUOTE then tok_close line p current
       else if c = 0 then Some TokErr
       else tok_append line p InQuotes current c } }"

definition tok_insq :: "mem \<Rightarrow> nat \<Rightarrow> sds \<Rightarrow> tok_step option" where
  "tok_insq line p current = do {
     esc \<leftarrow> and_also (test_at line p (\<lambda>c. c = CH_BSLASH)) (test_at line (p + 1) (\<lambda>c. c = CH_APOS));
     if esc then tok_append line (p + 1) InSingleQuotes current CH_APOS
     else do {
       c \<leftarrow> rd p line;
       if c = CH_APOS then tok_close line p current
       else if c = 0 then Some TokErr
       else tok_append line p InSingleQuotes current c } }"

definition tok_plain :: "mem \<Rightarrow> nat \<Rightarrow> sds \<Rightarrow> tok_step option" where
  "tok_plain line p current = do {
     c \<leftarrow> rd p line;
     if c = 32 \<or> c = 10 \<or> c = 13 \<or> c = 9 \<or> c = 0
     then do { p \<leftarrow> tok_advance line p; Some (TokDone p current) }
     else if c = CH_QUOTE then do { p \<leftarrow> tok_advance line p; Some (TokNext p InQuotes current) }
     else if c = CH_APOS then do { p \<leftarrow> tok_advance line p; Some (TokNext p InSingleQuotes current) }
     else tok_append line p Plain current c }"

definition tok_pass :: "mem \<Rightarrow> nat \<Rightarrow> tok_mode \<Rightarrow> sds \<Rightarrow> tok_step option" where
  "tok_pass line p md current =
     (case md of InQuotes \<Rightarrow> tok_inq line p current
      | InSingleQuotes \<Rightarrow> tok_insq line p current
      | Plain \<Rightarrow> tok_plain line p current)"

lemma tok_advance_Some: "tok_advance line p = Some q \<Longrightarrow>
    p < length line \<and> (q = p \<and> line ! p = 0 \<or> q = p + 1 \<and> line ! p \<noteq> 0)"
  by (auto simp: tok_advance_def rd_def split: if_splits)

lemma tok_append_Some: "tok_append line p md cur c = Some st \<Longrightarrow>
    \<exists>q cur'. st = TokNext q md cur' \<and> tok_advance line p = Some q"
  by (auto simp: tok_append_def bind_eq_Some_conv)

lemma tok_close_Some: "tok_close line p cur = Some st \<Longrightarrow> st = TokErr \<or> (\<exists>q cur'. st = TokDone q cur')"
  by (auto simp: tok_close_def bind_eq_Some_conv split: if_splits)

lemma tok_pass_advances:
  assumes "tok_pass line p md cur = Some (TokNext q md' cur')"
  shows "p < q \<and> p < length line"
proof (cases md)
  case Plain
  then show ?thesis using assms
    by (auto simp: tok_pass_def tok_plain_def bind_eq_Some_conv rd_def
        dest!: tok_append_Some tok_advance_Some split: if_splits)
next
  case InQuotes
  then show ?thesis using assms
    by (auto simp: tok_pass_def tok_inq_def bind_eq_Some_conv rd_def Let_def
        dest!: tok_append_Some tok_advance_Some tok_close_Some split: if_splits)
next
  case InSingleQuotes
  then show ?thesis using assms
    by (auto simp: tok_pass_def tok_insq_def bind_eq_Some_conv rd_def
        dest!: tok_append_Some tok_advance_Some tok_close_Some split: if_splits)
qed

text \<open>The inner loop; \<open>Inl ()\<close> is the jump to \<open>err\<close>.\<close>

function tok_loop :: "mem \<Rightarrow> nat \<Rightarrow> tok_mode \<Rightarrow> sds \<Rightarrow> (unit + nat \<times> sds) option" where
  "tok_loop line p md current =
     (case tok_pass line p md current of
        None \<Rightarrow> None
      | Some TokErr \<Rightarrow> Some (Inl ())
      | Some (TokDone q cur) \<Rightarrow> Some (Inr (q, cur))
      | Some (TokNext q md' cur) \<Rightarrow> tok_loop line q md' cur)"
  by pat_completeness auto
termination
  by (relation "measure (\<lambda>(line, p, md, cur). length line - p)") (auto dest!: tok_pass_advances)

declare tok_loop.simps [simp del]

function skip_spaces :: "mem \<Rightarrow> nat \<Rightarrow> nat option" where
  "skip_spaces line p =
     (if p < length line
      then (if line ! p \<noteq> 0 \<and> isspace (line ! p) then skip_spaces line (p + 1) else Some p)
      else None)"
  by pat_completeness auto
termination by (relation "measure (\<lambda>(line, p). length line - p)") auto

declare skip_spaces.simps [simp del]

lemma skip_spaces_Some: "skip_spaces line p = Some q \<Longrightarrow> p \<le> q \<and> q < length line"
  by (induction line p rule: skip_spaces.induct) (subst (asm) skip_spaces.simps, auto split: if_splits)

text \<open>A token starts at a byte that is neither null nor blank, so the inner loop advances.\<close>

lemma tok_pass_done: "tok_pass line p md cur = Some (TokDone q c) \<Longrightarrow> p \<le> q"
  by (cases md) (auto simp: tok_pass_def tok_plain_def tok_inq_def tok_insq_def tok_close_def
      bind_eq_Some_conv Let_def dest!: tok_append_Some tok_advance_Some split: if_splits)

lemma tok_loop_mono: "tok_loop line p md cur = Some (Inr (q, c)) \<Longrightarrow> p \<le> q"
proof (induction line p md cur rule: tok_loop.induct)
  case (1 line p md cur)
  have eq: "tok_loop line p md cur =
     (case tok_pass line p md cur of
        None \<Rightarrow> None
      | Some TokErr \<Rightarrow> Some (Inl ())
      | Some (TokDone q cur) \<Rightarrow> Some (Inr (q, cur))
      | Some (TokNext q md' cur) \<Rightarrow> tok_loop line q md' cur)"
    by (rule tok_loop.simps)
  show ?case
  proof (cases "tok_pass line p md cur")
    case None
    then show ?thesis using 1(2) eq by simp
  next
    case (Some st)
    then show ?thesis using 1(2) eq tok_pass_done [of line p md cur]
        tok_pass_advances [of line p md cur] 1(1) [OF Some]
      by (cases st) force+
  qed
qed

lemma tok_loop_advances:
  assumes "tok_loop line p Plain cur = Some (Inr (q, c))" "line ! p \<noteq> 0" "\<not> isspace (line ! p)"
  shows "p < q"
proof -
  have nd: "tok_pass line p Plain cur \<noteq> Some (TokDone r c')" for r c'
    using assms(2,3) by (auto simp: tok_pass_def tok_plain_def bind_eq_Some_conv rd_def isspace_def
        dest!: tok_append_Some split: if_splits)
  obtain r md' cur' where r: "tok_pass line p Plain cur = Some (TokNext r md' cur')"
    "tok_loop line r md' cur' = Some (Inr (q, c))"
    using assms(1) nd by (subst (asm) tok_loop.simps) (auto split: option.splits tok_step.splits)
  then show ?thesis using tok_pass_advances tok_loop_mono by (meson order_less_le_trans)
qed

lemma skip_spaces_stop: "skip_spaces line p = Some q \<Longrightarrow> line ! q = 0 \<or> \<not> isspace (line ! q)"
  by (induction line p rule: skip_spaces.induct) (subst (asm) skip_spaces.simps, auto split: if_splits)

function split_args_loop :: "mem \<Rightarrow> nat \<Rightarrow> sds list \<Rightarrow> (unit + sds list) option" where
  "split_args_loop line p vector =
     (case skip_spaces line p of
        None \<Rightarrow> None
      | Some p \<Rightarrow>
          if line ! p \<noteq> 0
          then (case sdsempty of
                  None \<Rightarrow> None
                | Some current \<Rightarrow>
                    (case tok_loop line p Plain current of
                       None \<Rightarrow> None
                     | Some (Inl u) \<Rightarrow> Some (Inl ())
                     | Some (Inr (q, current)) \<Rightarrow> split_args_loop line q (vector @ [current])))
          else Some (Inr vector))"
  by pat_completeness auto
termination
proof (relation "measure (\<lambda>(line, p, vector). length line - p)")
  fix line :: mem and p :: nat and vector current p' z x q cur
  assume a: "skip_spaces line p = Some p'" "line ! p' \<noteq> 0" "tok_loop line p' Plain current = Some z"
    "z = Inr x" "(q, cur) = x"
  show "((line, q, vector @ [cur]), line, p, vector) \<in> measure (\<lambda>(line, p, vector). length line - p)"
    using skip_spaces_Some [OF a(1)] tok_loop_advances [of line p' current q cur] a skip_spaces_stop [OF a(1)]
    by auto
qed simp

definition sdssplitargs :: "mem \<Rightarrow> (unit + sds list) option" where
  "sdssplitargs line = split_args_loop line 0 []"

section \<open>The invariant\<close>

definition sds_rep :: "sds \<Rightarrow> byte list \<Rightarrow> bool" where
  "sds_rep s xs \<longleftrightarrow>
     (\<exists>rest. sds_buf s = xs @ 0 # rest \<and> sds_len s = int (length xs) \<and>
             sds_free s = int (length rest) \<and> length xs + length rest < 2 ^ 31)"

lemma sds_repE:
  assumes "sds_rep s xs"
  obtains rest where "sds_buf s = xs @ 0 # rest" "sds_len s = int (length xs)"
    "sds_free s = int (length rest)" "length xs + length rest < 2 ^ 31"
    "sdslen s = length xs" "sdsavail s = length rest"
  using assms by (auto simp: sds_rep_def sdslen_def sdsavail_def c_arith)

lemma sds_repI: "\<lbrakk>sds_buf s = xs @ 0 # rest; sds_len s = int (length xs);
    sds_free s = int (length rest); length xs + length rest < 2 ^ 31\<rbrakk> \<Longrightarrow> sds_rep s xs"
  by (auto simp: sds_rep_def)

lemma sdslen_correct: "sds_rep s xs \<Longrightarrow> sdslen s = length xs"
  by (auto elim: sds_repE)

lemma sds_rep_unique: "\<lbrakk>sds_rep s xs; sds_rep s ys\<rbrakk> \<Longrightarrow> xs = ys"
  by (auto simp: sds_rep_def)

subsection \<open>Creation and space\<close>

lemma mem_read_prefix [mem_ops]: "n \<le> length t \<Longrightarrow> mem_read 0 n t = Some (take n t)"
  by (simp add: mem_read_def)

lemma mem_write_over: "\<lbrakk>length a = off; length bs = n; length b = n\<rbrakk>
    \<Longrightarrow> mem_write off bs (a @ b) = Some (a @ bs)"
  using mem_write_at [of a off b bs "[]"] by simp

lemma sdsnewlen_rep:
  assumes "n \<le> length t" "n < 2 ^ 31"
  shows "\<exists>s. sdsnewlen (Some t) n = Some s \<and> sds_rep s (take n t)"
proof -
  have "mem_write 0 (take n t) (replicate (n + 1) 0) = Some (take n t @ [0])"
    using assms(1) mem_write_at [of "[]" 0 "replicate n 0" "take n t" "[0]"]
    by (simp add: replicate_app_Cons_same)
  moreover have "wr n 0 (take n t @ [0]) = Some (take n t @ [0])"
    using assms(1) by (intro wr_at) simp
  ultimately show ?thesis using assms
    by (cases "n = 0") (auto simp: sdsnewlen_def mem_ops zrealloc_def sds_rep_def c_arith Let_def)
qed

lemma sdsnewlen_null_rep:
  "n < 2 ^ 31 \<Longrightarrow> \<exists>s. sdsnewlen None n = Some s \<and> sds_rep s (replicate n 0)"
  by (auto simp: sdsnewlen_def zrealloc_def sds_rep_def c_arith wr_def
      replicate_append_same [symmetric] list_update_append simp del: replicate_append_same)

lemma sdsempty_rep: "\<exists>s. sdsempty = Some s \<and> sds_rep s []"
  using sdsnewlen_rep [of 0 "[0]"] by (simp add: sdsempty_def)

lemma sdsdup_rep:
  assumes "sds_rep s xs"
  shows "\<exists>t. sdsdup s = Some t \<and> sds_rep t xs"
  using assms sdsnewlen_rep [of "length xs" "sds_buf s"] by (auto simp: sdsdup_def elim!: sds_repE)

text \<open>Making room keeps the text and leaves room for \<open>n\<close> more bytes.\<close>

lemma sdsMakeRoomFor_rep:
  assumes "sds_rep s xs" "length xs + n < 2 ^ 31 - 2 ^ 20"
  shows "sds_rep (sdsMakeRoomFor s n) xs \<and> int n \<le> sds_free (sdsMakeRoomFor s n)"
proof -
  obtain rest where s: "sds_buf s = xs @ 0 # rest" "sds_len s = int (length xs)"
    "sds_free s = int (length rest)" "length xs + length rest < 2 ^ 31"
    "sdslen s = length xs" "sdsavail s = length rest" using assms(1) by (rule sds_repE)
  show ?thesis
  proof (cases "n \<le> length rest")
    case True
    then show ?thesis using assms(1) s by (simp add: sdsMakeRoomFor_def)
  next
    case False
    define m where "m = (if length xs + n < SDS_MAX_PREALLOC then (length xs + n) * 2
      else length xs + n + SDS_MAX_PREALLOC)"
    have m: "length xs + n \<le> m" "m < 2 ^ 31" using assms(2) by (auto simp: m_def)
    have "sdsMakeRoomFor s n = s\<lparr>sds_buf := zrealloc (m + 1) (sds_buf s),
        sds_free := to_int32 (int m - int (length xs))\<rparr>"
      using False s assms(2) by (auto simp: sdsMakeRoomFor_def m_def c_arith Let_def nat_add_distrib)
    moreover have "to_int32 (int m - int (length xs)) = int (m - length xs)"
      using m by (simp add: c_arith of_nat_diff)
    moreover have "zrealloc (m + 1) (sds_buf s) = xs @ 0 # (rest @ replicate (m - length xs - length rest) 0)"
      using m False s(1) by (simp add: zrealloc_def)
    ultimately show ?thesis
      using m False s(2) by (intro conjI sds_repI [where rest = "rest @ replicate (m - length xs - length rest) 0"]) auto
  qed
qed

lemma sdsMakeRoomFor_split:
  assumes "sds_rep s xs" "length xs + n < 2 ^ 31 - 2 ^ 20"
  obtains a b where "sds_buf (sdsMakeRoomFor s n) = xs @ 0 # a @ b" "length a = n"
    "sds_len (sdsMakeRoomFor s n) = int (length xs)"
    "sds_free (sdsMakeRoomFor s n) = int (n + length b)" "length xs + n + length b < 2 ^ 31"
proof -
  note r = sdsMakeRoomFor_rep [OF assms]
  then obtain rest where rest: "sds_buf (sdsMakeRoomFor s n) = xs @ 0 # rest"
    "sds_len (sdsMakeRoomFor s n) = int (length xs)"
    "sds_free (sdsMakeRoomFor s n) = int (length rest)" "length xs + length rest < 2 ^ 31"
    by (auto elim: sds_repE)
  then have "n \<le> length rest" using r by simp
  then show thesis using rest that [of "take n rest" "drop n rest"] by simp
qed

lemma sdsRemoveFreeSpace_rep: "sds_rep s xs \<Longrightarrow> sds_rep (sdsRemoveFreeSpace s) xs"
  by (erule sds_repE) (auto simp: sdsRemoveFreeSpace_def sds_rep_def zrealloc_def c_arith nat_add_distrib)

lemma sdsclear_rep: "sds_rep s xs \<Longrightarrow> \<exists>t. sdsclear s = Some t \<and> sds_rep t []"
proof (erule sds_repE)
  fix rest assume "sds_buf s = xs @ 0 # rest" "sds_len s = int (length xs)"
    "sds_free s = int (length rest)" "length xs + length rest < 2 ^ 31"
  then show ?thesis
    by (cases xs) (auto simp: sdsclear_def c_int_def wr_def sds_rep_def)
qed

lemma sdsupdatelen_rep:
  assumes "sds_rep s xs"
  shows "\<exists>t. sdsupdatelen s = Some t \<and> sds_rep t (takeWhile (\<lambda>c. c \<noteq> 0) xs)"
proof -
  obtain rest where s: "sds_buf s = xs @ 0 # rest" "sds_len s = int (length xs)"
    "sds_free s = int (length rest)" "length xs + length rest < 2 ^ 31" using assms by (rule sds_repE)
  define ys zs where "ys = takeWhile (\<lambda>c. c \<noteq> 0) xs" and "zs = tl (dropWhile (\<lambda>c. c \<noteq> 0) (xs @ [0])) @ rest"
  have d: "dropWhile (\<lambda>c. c \<noteq> 0) (xs @ [0 :: byte]) = 0 # tl (dropWhile (\<lambda>c. c \<noteq> 0) (xs @ [0]))"
    using hd_dropWhile [of "\<lambda>c. c \<noteq> 0" "xs @ [0 :: byte]"]
    by (metis (mono_tags, lifting) dropWhile_eq_Nil_conv in_set_conv_decomp list.collapse)
  have "takeWhile (\<lambda>c. c \<noteq> 0) (xs @ [0 :: byte]) = ys" by (auto simp: ys_def takeWhile_append takeWhile_eq_all_conv [THEN iffD2])
  then have "xs @ [0] = ys @ 0 # tl (dropWhile (\<lambda>c. c \<noteq> 0) (xs @ [0]))"
    using takeWhile_dropWhile_id [of "\<lambda>c. c \<noteq> 0" "xs @ [0 :: byte]"] d by simp
  then have b: "sds_buf s = ys @ 0 # zs" using s(1) by (simp add: zs_def)
  have z: "0 \<notin> set ys" by (auto simp: ys_def dest: set_takeWhileD)
  have "length xs + length rest = length ys + length zs" using arg_cong [OF b, of length] s(1) by simp
  moreover have "length ys \<le> length xs" by (simp add: ys_def length_takeWhile_le)
  moreover have "strlen (sds_buf s) = Some (length ys)" unfolding b by (rule strlen_at [OF z])
  ultimately have "\<exists>t. sdsupdatelen s = Some t \<and> sds_rep t ys"
    using s(2-4) b by (auto simp: sdsupdatelen_def c_arith sds_rep_def Let_def)
  then show ?thesis by (simp only: ys_def)
qed

lemma sdsIncrLen_rep:
  assumes "sds_buf s = xs @ ys @ c # rest" "sds_len s = int (length xs)"
    "sds_free s = int (length ys + length rest)" "length xs + length ys + length rest < 2 ^ 31"
  shows "\<exists>t. sdsIncrLen s (int (length ys)) = Some t \<and> sds_rep t (xs @ ys)"
  using assms wr_at [of "xs @ ys" "length xs + length ys" 0 c rest]
  by (auto simp: sdsIncrLen_def c_arith sds_rep_def nat_add_distrib)

lemma sdsIncrLen_trim:
  assumes "sds_rep s (xs @ ys)"
  shows "\<exists>t. sdsIncrLen s (- int (length ys)) = Some t \<and> sds_rep t xs"
proof -
  obtain rest where s: "sds_buf s = (xs @ ys) @ 0 # rest" "sds_len s = int (length (xs @ ys))"
    "sds_free s = int (length rest)" "length (xs @ ys) + length rest < 2 ^ 31"
    using assms by (rule sds_repE)
  obtain c zs where cz: "ys @ 0 # rest = c # zs" by (cases ys) auto
  then have l: "length zs = length ys + length rest"
    by (metis add_Suc_right length_Cons length_append nat.inject)
  show ?thesis using s wr_at [of xs "length xs" 0 c zs] l cz
    by (auto simp: sdsIncrLen_def c_arith sds_rep_def)
qed

subsection \<open>Appending and copying\<close>

lemma sdscatlen_rep:
  assumes "sds_rep s xs" "n \<le> length t" "length xs + n < 2 ^ 31 - 2 ^ 20"
  shows "\<exists>s'. sdscatlen s t n = Some s' \<and> sds_rep s' (xs @ take n t)"
proof -
  obtain a b where m: "sds_buf (sdsMakeRoomFor s n) = xs @ 0 # a @ b" "length a = n"
    "sds_free (sdsMakeRoomFor s n) = int (n + length b)" "length xs + n + length b < 2 ^ 31"
    using sdsMakeRoomFor_split [OF assms(1,3)] by metis
  define c y where "c = take n (0 # a)" and "y = drop n (0 # a)"
  have y: "length y = 1" "length c = n" "0 # a = c @ y" using m(2) by (simp_all add: c_def y_def)
  then obtain z where z: "y = [z]" by (auto simp: length_Suc_conv)
  have "mem_write (length xs) (take n t) (xs @ c @ y @ b) = Some (xs @ take n t @ y @ b)"
    using y assms(2) by (intro mem_write_at) simp_all
  then have w: "mem_write (length xs) (take n t) (sds_buf (sdsMakeRoomFor s n)) = Some ((xs @ take n t) @ z # b)"
    using y(3) z unfolding m(1) by (metis append.assoc append_Cons append_Nil)
  have "wr (length xs + n) 0 ((xs @ take n t) @ z # b) = Some ((xs @ take n t) @ 0 # b)"
    using assms(2) by (intro wr_at) simp
  then show ?thesis
    using w assms(2) m(3,4) sdslen_correct [OF assms(1)]
    by (auto simp: sdscatlen_def mem_ops c_arith sds_rep_def Let_def)
qed

lemma sdscat_rep:
  assumes "sds_rep s xs" "0 \<notin> set ys" "length xs + length ys < 2 ^ 31 - 2 ^ 20"
  shows "\<exists>s'. sdscat s (ys @ 0 # junk) = Some s' \<and> sds_rep s' (xs @ ys)"
  using sdscatlen_rep [OF assms(1), of "length ys" "ys @ 0 # junk"] assms(2,3)
  by (simp add: sdscat_def strlen_at)

lemma sdscatsds_rep:
  assumes "sds_rep s xs" "sds_rep t ys" "length xs + length ys < 2 ^ 31 - 2 ^ 20"
  shows "\<exists>s'. sdscatsds s t = Some s' \<and> sds_rep s' (xs @ ys)"
  using sdscatlen_rep [OF assms(1), of "length ys" "sds_buf t"] assms(2,3)
  by (auto simp: sdscatsds_def elim: sds_repE)

lemma vsnprintf_buf_fits: "length out < n \<Longrightarrow> \<exists>junk. vsnprintf_buf n out = out @ 0 # junk"
  by (simp add: vsnprintf_buf_def Let_def)

lemma vsnprintf_buf_full:
  "\<lbrakk>length out \<ge> n - 1; 2 \<le> n; 0 \<notin> set out\<rbrakk> \<Longrightarrow> vsnprintf_buf n out ! (n - 2) \<noteq> 0"
  by (auto simp: vsnprintf_buf_def Let_def nth_append min_def in_set_conv_nth)

lemma vprintf_loop_text: "0 \<notin> set out \<Longrightarrow> \<exists>junk. vprintf_loop j out = out @ 0 # junk"
proof (induction j out rule: vprintf_loop.induct)
  case (1 j out)
  define n where "n = 16 * (2 :: nat) ^ j"
  have n: "2 \<le> n" using one_le_power [of "2 :: nat" j] by (simp add: n_def)
  show ?case
  proof (cases "vsnprintf_buf n out ! (n - 2) \<noteq> 0")
    case True
    then have "vprintf_loop j out = vprintf_loop (Suc j) out"
      by (subst vprintf_loop.simps) (simp add: n_def Let_def)
    then show ?thesis using 1(1) [of n "vsnprintf_buf n out"] 1(2) True by (simp add: n_def)
  next
    case False
    then have "length out < n" using vsnprintf_buf_full [of n out] n 1(2) by fastforce
    moreover have "vprintf_loop j out = vsnprintf_buf n out"
      using False by (subst vprintf_loop.simps) (simp add: n_def Let_def)
    ultimately show ?thesis using vsnprintf_buf_fits by simp
  qed
qed

lemma sdscatprintf_rep:
  assumes "sds_rep s xs" "0 \<notin> set out" "length xs + length out < 2 ^ 31 - 2 ^ 20"
  shows "\<exists>s'. sdscatprintf s out = Some s' \<and> sds_rep s' (xs @ out)"
  using vprintf_loop_text [OF assms(2), of 0] sdscat_rep [OF assms] by (auto simp: sdscatprintf_def)

lemma sds_rep_write_text:
  assumes "length a + 1 + length b < 2 ^ 31 + 1" "sds_buf s = a @ b" "length t < length (a @ b)"
    "sds_len s' = int (length t)" "sds_free s' = int (length (a @ b)) - 1 - int (length t)"
    "sds_buf s' = t @ 0 # drop (length t + 1) (a @ b)"
  shows "sds_rep s' t"
  using assms by (auto simp: sds_rep_def)

lemma sdscpy_room_rep:
  assumes "sds_rep s xs" "length xs + n < 2 ^ 31 - 2 ^ 20"
  obtains s1 b where "sdscpy_room s n = Some (s1, length xs + length b)"
    "sds_buf s1 = xs @ 0 # b" "n \<le> length xs + length b" "length xs + length b < 2 ^ 31"
proof -
  obtain rest where s: "sds_buf s = xs @ 0 # rest" "sds_len s = int (length xs)"
    "sds_free s = int (length rest)" "length xs + length rest < 2 ^ 31" using assms(1) by (rule sds_repE)
  show thesis
  proof (cases "length rest + length xs < n")
    case True
    define k where "k = n - length xs"
    have k: "n = length xs + k" "length xs + k < 2 ^ 31 - 2 ^ 20" using True assms(2) by (simp_all add: k_def)
    obtain a b where m: "sds_buf (sdsMakeRoomFor s k) = xs @ 0 # a @ b" "length a = k"
      "sds_len (sdsMakeRoomFor s k) = int (length xs)"
      "sds_free (sdsMakeRoomFor s k) = int (k + length b)" "length xs + k + length b < 2 ^ 31"
      using assms(1) k(2) by (rule sdsMakeRoomFor_split)
    have e: "to_size (int n - int (length xs)) = k" using k to_size_diff [of "length xs" n] by simp
    have "sdscpy_room s n = Some (sdsMakeRoomFor s k, length xs + length (a @ b))"
      using True s(2-4) m by (simp add: sdscpy_room_def e c_arith nat_add_distrib Let_def)
    then show thesis using m k by (intro that [of "sdsMakeRoomFor s k" "a @ b"]) simp_all
  next
    case False
    then have "sdscpy_room s n = Some (s, length xs + length rest)"
      using s(2-4) by (simp add: sdscpy_room_def c_arith nat_add_distrib)
    then show thesis using s False by (intro that [of s rest]) simp_all
  qed
qed

lemma sdscpylen_rep:
  assumes "sds_rep s xs" "n \<le> length t" "length xs + n < 2 ^ 31 - 2 ^ 20"
  shows "\<exists>s'. sdscpylen s t n = Some s' \<and> sds_rep s' (take n t)"
proof -
  obtain s1 b where room: "sdscpy_room s n = Some (s1, length xs + length b)"
    "sds_buf s1 = xs @ 0 # b" "n \<le> length xs + length b" "length xs + length b < 2 ^ 31"
    using sdscpy_room_rep [OF assms(1,3)] by metis
  define m where "m = sds_buf s1"
  have lm: "length m = length xs + length b + 1" using room(2) by (simp add: m_def)
  have "m = [] @ take n m @ m ! n # drop (Suc n) m" using lm room(3) by (simp add: Cons_nth_drop_Suc)
  then have "mem_write 0 (take n t) m = Some (take n t @ m ! n # drop (Suc n) m)"
    using mem_write_at [of "[]" 0 "take n m" "take n t" "m ! n # drop (Suc n) m"] lm room(3) assms(2) by simp
  moreover have "wr n 0 (take n t @ m ! n # drop (Suc n) m) = Some (take n t @ 0 # drop (Suc n) m)"
    using assms(2) by (intro wr_at) simp
  ultimately have "sdscpylen s t n = Some (s1\<lparr>sds_len := to_int32 (int n),
      sds_free := to_int32 (int (length xs + length b) - int n),
      sds_buf := take n t @ 0 # drop (Suc n) m\<rparr>)"
    using assms(2) by (simp add: sdscpylen_def room(1) mem_ops m_def)
  then show ?thesis using room(3,4) lm assms(2,3)
    by (auto simp: sds_rep_def c_arith)
qed

lemma sdscpy_rep:
  assumes "sds_rep s xs" "0 \<notin> set ys" "length xs + length ys < 2 ^ 31 - 2 ^ 20"
  shows "\<exists>s'. sdscpy s (ys @ 0 # junk) = Some s' \<and> sds_rep s' ys"
  using sdscpylen_rep [OF assms(1), of "length ys" "ys @ 0 # junk"] assms(2,3)
  by (simp add: sdscpy_def strlen_at)

lemma sdsgrowzero_rep:
  assumes "sds_rep s xs" "n < 2 ^ 31 - 2 ^ 20"
  shows "\<exists>s'. sdsgrowzero s n = Some s' \<and> sds_rep s' (xs @ replicate (n - length xs) 0)"
proof (cases "n \<le> length xs")
  case True
  then show ?thesis using assms(1) sdslen_correct [OF assms(1)]
    by (simp add: sdsgrowzero_def Let_def flip: sdslen_def)
next
  case False
  define k where "k = n - length xs"
  have k: "n = length xs + k" "0 < k" using False by (simp_all add: k_def)
  obtain a b where m: "sds_buf (sdsMakeRoomFor s k) = xs @ 0 # a @ b" "length a = k"
    "sds_len (sdsMakeRoomFor s k) = int (length xs)"
    "sds_free (sdsMakeRoomFor s k) = int (k + length b)" "length xs + k + length b < 2 ^ 31"
    using sdsMakeRoomFor_split [OF assms(1), of k] assms(2) k by auto
  have w: "mem_write (length xs) (replicate (k + 1) 0) (sds_buf (sdsMakeRoomFor s k)) =
      Some (xs @ replicate (k + 1) 0 @ b)"
    using mem_write_at [of xs "length xs" "0 # a" "replicate (k + 1) 0" b] m(1,2) by simp
  have l: "to_size (sds_len s) = length xs" using sdslen_correct [OF assms(1)] by (simp add: sdslen_def)
  have "replicate (k + 1) 0 = replicate k (0 :: byte) @ [0]" by (simp add: replicate_append_same)
  then show ?thesis
    using m(3-5) assms(2) k w
    by (auto simp: sdsgrowzero_def l c_arith sds_rep_def Let_def nat_add_distrib)
qed

subsection \<open>Trimming, ranges, case, comparison\<close>

abbreviation trim :: "(byte \<Rightarrow> bool) \<Rightarrow> byte list \<Rightarrow> byte list" where
  "trim P xs \<equiv> rev (dropWhile P (rev (dropWhile P xs)))"

lemma trim_start_at:
  "trim_start cset (a @ xs @ c) (int (length a)) (int (length a + length xs) - 1) =
   Some (int (length a + length (takeWhile (strchr cset) xs)))"
proof (induction xs arbitrary: a)
  case Nil
  show ?case by (subst trim_start.simps) simp
next
  case (Cons x xs)
  show ?case using Cons [of "a @ [x]"] by (subst trim_start.simps) (simp add: ac_simps)
qed

lemma trim_end_at:
  "trim_end cset (y # xs @ c) 0 (int (length xs)) =
   Some (int (length xs - length (takeWhile (strchr cset) (rev xs))))"
proof (induction xs arbitrary: c rule: rev_induct)
  case Nil
  show ?case by (subst trim_end.simps) simp
next
  case (snoc x xs)
  have "(y # xs @ x # c) ! Suc (length xs) = x" by (simp add: nth_append)
  then show ?case using snoc [of "x # c"] by (subst trim_end.simps) (simp add: nat_add_distrib)
qed

lemma trim_split:
  assumes "\<exists>x \<in> set xs. \<not> P x"
  obtains l m r where "xs = l @ m @ r" "length l = length (takeWhile P xs)"
    "length r = length (takeWhile P (rev xs))" "m \<noteq> []" "trim P xs = m"
proof -
  define d where "d = dropWhile P xs"
  have xs: "xs = takeWhile P xs @ d" by (simp add: d_def)
  obtain x where x: "x \<in> set d" "\<not> P x"
    using assms hd_in_set [of d] hd_dropWhile [of P xs] dropWhile_eq_Nil_conv [of P xs]
    unfolding d_def by metis
  have "rev xs = rev d @ rev (takeWhile P xs)" by (subst xs) simp
  then have t: "takeWhile P (rev xs) = takeWhile P (rev d)"
    using x by (simp only:) (rule takeWhile_append1, auto)
  have d: "d = rev (dropWhile P (rev d)) @ rev (takeWhile P (rev d))"
    by (metis rev_append rev_rev_ident takeWhile_dropWhile_id)
  show thesis
  proof
    show "xs = takeWhile P xs @ rev (dropWhile P (rev d)) @ rev (takeWhile P (rev d))"
      using xs d by metis
    show "rev (dropWhile P (rev d)) \<noteq> []" using x by (auto simp: dropWhile_eq_Nil_conv)
  qed (simp_all add: t d_def)
qed

text \<open>Moving a part of the text to the front of its buffer and terminating it there.\<close>

lemma mem_cut:
  assumes "c \<noteq> []" "n = length m" "p = length l"
  shows "\<exists>b. do { buf \<leftarrow> (if p \<noteq> 0 then mem_move 0 p n (l @ m @ c) else Some (l @ m @ c)); wr n 0 buf }
      = Some (m @ 0 # b) \<and> length b + n + 1 = length (l @ m @ c)"
proof -
  define buf where "buf = l @ m @ c"
  have n: "n < length buf" using assms by (cases c) (auto simp: buf_def)
  have "mem_write 0 m ([] @ take n buf @ drop n buf) = Some ([] @ m @ drop n buf)"
    using n assms(2) by (intro mem_write_at) simp_all
  then have w: "mem_write 0 m buf = Some (m @ drop n buf)" by simp
  obtain z b where z: "drop n buf = z # b" using n by (cases "drop n buf") auto
  have "length (drop n buf) = length (z # b)" by (simp only: z)
  then have l: "length b + n + 1 = length buf" using n by simp
  have "mem_move 0 p n buf = Some (m @ z # b)"
    using w z assms(2,3) by (simp add: mem_move_def mem_read_at buf_def)
  moreover have "buf = m @ z # b" if "p = 0"
    using that assms(2,3) z by (simp add: buf_def)
  moreover have "wr n 0 (m @ z # b) = Some (m @ 0 # b)" using assms(2) by (intro wr_at) simp
  ultimately show ?thesis using l unfolding buf_def [symmetric] by (intro exI [of _ b]) auto
qed

lemma sdstrim_rep:
  assumes "sds_rep s xs"
  shows "\<exists>s'. sdstrim s cset = Some s' \<and> sds_rep s' (trim (strchr cset) xs)"
proof -
  define P where "P = strchr cset"
  obtain rest where s: "sds_buf s = xs @ 0 # rest" "sds_len s = int (length xs)"
    "sds_free s = int (length rest)" "length xs + length rest < 2 ^ 31" using assms by (rule sds_repE)
  have sl: "sdslen s = length xs" by (rule sdslen_correct [OF assms])
  have start: "trim_start cset (sds_buf s) 0 (int (length xs) - 1) = Some (int (length (takeWhile P xs)))"
    using trim_start_at [of cset "[]" xs "0 # rest"] s(1) by (simp add: P_def)
  have final: "\<exists>s'. do { buf \<leftarrow> (if p \<noteq> 0 then mem_move 0 p (length m) (sds_buf s) else Some (sds_buf s));
       buf \<leftarrow> wr (length m) 0 buf;
       Some (s\<lparr>sds_buf := buf, sds_free := to_int32 (sds_free s + (sds_len s - int (length m))),
             sds_len := to_int32 (int (length m))\<rparr>) } = Some s' \<and> sds_rep s' m"
    if x: "xs = l @ m @ r" and p: "p = length l" for p l m r
  proof -
    obtain b where b: "do { buf \<leftarrow> (if p \<noteq> 0 then mem_move 0 p (length m) (sds_buf s) else Some (sds_buf s));
        wr (length m) 0 buf } = Some (m @ 0 # b)" "length b + length m = length xs + length rest"
      using mem_cut [of "r @ 0 # rest" "length m" m p l] unfolding s(1) x append.assoc using p by auto
    have "sds_rep (s\<lparr>sds_buf := m @ 0 # b, sds_free := to_int32 (sds_free s + (sds_len s - int (length m))),
        sds_len := to_int32 (int (length m))\<rparr>) m"
      using b(2) s(2-4) x by (auto simp: sds_rep_def c_arith)
    then show ?thesis using b(1) by (auto simp: bind_eq_Some_conv)
  qed
  show ?thesis
  proof (cases "\<exists>x \<in> set xs. \<not> P x")
    case True
    then obtain l m r where d: "xs = l @ m @ r" "length l = length (takeWhile P xs)"
      "length r = length (takeWhile P (rev xs))" "m \<noteq> []" "trim P xs = m" by (rule trim_split)
    obtain y ys where y: "xs = y # ys" using True by (cases xs) auto
    have "takeWhile P (rev xs) = takeWhile P (rev ys)"
      using True y by (auto simp: takeWhile_append takeWhile_eq_all_conv [THEN iffD2])
    then have "trim_end cset (sds_buf s) 0 (int (length xs) - 1) = Some (int (length xs - 1 - length r))"
      using trim_end_at [of cset y ys "0 # rest"] s(1) y d(3) by (simp add: P_def)
    moreover have "length xs - 1 - length r = length l + length m - 1" using d(1,4) by (cases m) auto
    moreover have "int (length l + length m - 1) = int (length l) + int (length m) - 1"
      using d(4) by (cases m) auto
    ultimately show ?thesis
      using final [OF d(1) refl] start d(2,4,5) sl
      by (cases "takeWhile P xs = []") (simp_all add: sdstrim_def P_def [symmetric] Let_def)
  next
    case False
    then have tw: "takeWhile P xs = xs" "dropWhile P xs = []" by (simp_all add: dropWhile_eq_Nil_conv)
    obtain e where e: "trim_end cset (sds_buf s) 0 (int (length xs) - 1) = Some e"
      "e < int (length xs)" "xs = [] \<or> e = 0"
    proof (cases xs)
      case Nil
      then show thesis using that [of "- 1"] by (simp add: trim_end.simps)
    next
      case (Cons y ys)
      then have "length (takeWhile P (rev ys)) = length ys"
        using False by (simp add: takeWhile_eq_all_conv [THEN iffD2])
      then show thesis using that [of 0] trim_end_at [of cset y ys "0 # rest", folded P_def] s(1) Cons
        by simp
    qed
    have "(if int (length xs) > e then 0 else nat (e - int (length xs) + 1)) = 0" using e(2) by simp
    moreover have tn: "trim (strchr cset) xs = []"
      unfolding P_def [symmetric] by (simp only: tw dropWhile.simps rev.simps)
    ultimately show ?thesis
      unfolding tn using final [of xs "[]" "[]" "length xs"] start sl e(1,2) tw(1)
      by (cases "xs = []") (simp_all add: sdstrim_def)
  qed
qed

text \<open>An index of a range: a negative one counts from the end.\<close>

definition range_index :: "nat \<Rightarrow> int \<Rightarrow> int" where
  "range_index n i = (if i < 0 then max 0 (int n + i) else i)"

definition list_range :: "int \<Rightarrow> int \<Rightarrow> 'a list \<Rightarrow> 'a list" where
  "list_range i j xs =
     (let s = range_index (length xs) i; e = min (range_index (length xs) j) (int (length xs) - 1)
      in take (nat (e - s + 1)) (drop (nat s) xs))"

lemma sds_cut_rep:
  assumes "sds_rep s (l @ m @ r)"
    "p = length l \<or> m = [] \<and> p = 0"
  shows "\<exists>s'. do { buf \<leftarrow> (if p \<noteq> 0 \<and> length m \<noteq> 0 then mem_move 0 p (length m) (sds_buf s) else Some (sds_buf s));
       buf \<leftarrow> wr (length m) 0 buf;
       Some (s\<lparr>sds_buf := buf, sds_free := to_int32 (sds_free s + (sds_len s - int (length m))),
             sds_len := to_int32 (int (length m))\<rparr>) } = Some s' \<and> sds_rep s' m"
proof -
  obtain rest where s: "sds_buf s = (l @ m @ r) @ 0 # rest" "sds_len s = int (length (l @ m @ r))"
    "sds_free s = int (length rest)" "length (l @ m @ r) + length rest < 2 ^ 31"
    using assms(1) by (rule sds_repE)
  obtain b where b: "do { buf \<leftarrow> (if p \<noteq> 0 \<and> length m \<noteq> 0 then mem_move 0 p (length m) (sds_buf s) else Some (sds_buf s));
      wr (length m) 0 buf } = Some (m @ 0 # b)" "length b + length m = length (l @ m @ r) + length rest"
  proof (cases "m = []")
    case True
    obtain z b where "sds_buf s = z # b" using s(1) by (metis append_is_Nil_conv list.exhaust list.distinct(1))
    moreover from this have "length b = length (l @ m @ r) + length rest"
      using arg_cong [OF s(1), of length] by simp
    ultimately show thesis using True that [of b] by (simp add: wr_def)
  next
    case False
    then show thesis
      using mem_cut [of "r @ 0 # rest" "length m" m p l] assms(2) that unfolding s(1) append.assoc by auto
  qed
  have "sds_rep (s\<lparr>sds_buf := m @ 0 # b, sds_free := to_int32 (sds_free s + (sds_len s - int (length m))),
      sds_len := to_int32 (int (length m))\<rparr>) m"
    using b(2) s(2-4) by (auto simp: sds_rep_def c_arith)
  then show ?thesis using b(1) by (auto simp: bind_eq_Some_conv)
qed

lemma sdsrange_bounds_eval:
  assumes "0 < n" "n < 2 ^ 31" "- (2 ^ 31) \<le> i" "i < 2 ^ 31" "- (2 ^ 31) \<le> j" "j < 2 ^ 31 - 1"
  defines "a \<equiv> range_index n i" and "b \<equiv> range_index n j"
  shows "sdsrange_bounds n i j = Some (if a > b then 0 else a,
    if a > min b (int n - 1) then 0 else min b (int n - 1) - a + 1)"
proof -
  have ab: "0 \<le> a" "a < 2 ^ 31" "0 \<le> b" "b < 2 ^ 31 - 1"
    using assms by (auto simp: a_def b_def range_index_def)
  have "(if i < 0 then max 0 (to_int32 (int n + i)) else i) = a"
    "(if j < 0 then max 0 (to_int32 (int n + j)) else j) = b"
    using assms by (simp_all add: a_def b_def range_index_def c_arith)
  moreover have "to_int32 (int n) = int n" "to_int32 (int n - 1) = int n - 1"
    using assms(1,2) by (simp_all add: c_arith)
  moreover have "(if a > b then Some 0 else c_int (b - a + 1)) = Some (if a > b then 0 else b - a + 1)"
    using ab by (simp add: c_arith)
  ultimately have "sdsrange_bounds n i j =
    Some (let l = if a > b then 0 else b - a + 1
          in if l \<noteq> 0
             then if a \<ge> int n then (a, 0)
                  else if b \<ge> int n then (a, if a > int n - 1 then 0 else int n - 1 - a + 1) else (a, l)
             else (0, l))"
    unfolding sdsrange_bounds_def Let_def by (simp only: bind.bind_lunit)
  then show ?thesis using ab assms(1) by (auto simp: Let_def min_def)
qed

lemma sdsrange_rep:
  assumes "sds_rep s xs" "- (2 ^ 31) \<le> i" "i < 2 ^ 31" "- (2 ^ 31) \<le> j" "j < 2 ^ 31 - 1"
  shows "\<exists>s'. sdsrange s i j = Some s' \<and> sds_rep s' (list_range i j xs)"
proof (cases "xs = []")
  case True
  then show ?thesis using assms(1) sdslen_correct [OF assms(1)]
    by (simp add: sdsrange_def list_range_def)
next
  case False
  define n where "n = length xs"
  have n: "0 < n" "n < 2 ^ 31" "sdslen s = n"
    using False assms(1) by (auto simp: n_def elim!: sds_repE)
  define a b where "a = range_index n i" and "b = range_index n j"
  define e k where "e = min b (int n - 1)" and "k = (if a > e then 0 else e - a + 1)"
  have ab: "0 \<le> a" "0 \<le> b" using n(1) by (auto simp: a_def b_def range_index_def)
  define p where "p = (if a > b then 0 else a)"
  have bounds: "sdsrange_bounds n i j = Some (p, k)"
    using sdsrange_bounds_eval [OF n(1,2) assms(2-5)] by (simp add: p_def k_def e_def a_def b_def)
  define l m r where "l = take (nat a) xs" and "m = take (nat k) (drop (nat a) xs)"
    and "r = drop (nat k) (drop (nat a) xs)"
  have m: "m = list_range i j xs"
    by (simp add: m_def k_def list_range_def Let_def e_def a_def b_def n_def)
  have xs: "xs = l @ m @ r" by (simp only: l_def m_def r_def append_take_drop_id)
  have lm: "length m = nat k" using ab by (auto simp: m_def k_def e_def n_def)
  have "nat p = length l \<or> m = [] \<and> nat p = 0 \<or> m = []"
    using ab by (auto simp: p_def l_def m_def k_def e_def n_def)
  then obtain q where q: "q = length l \<or> m = [] \<and> q = 0"
    "(if p \<noteq> 0 \<and> k \<noteq> 0 then mem_move 0 (nat p) (nat k) (sds_buf s) else Some (sds_buf s)) =
     (if q \<noteq> 0 \<and> length m \<noteq> 0 then mem_move 0 q (length m) (sds_buf s) else Some (sds_buf s))"
    using lm ab that [of "nat p"] that [of 0] by (auto simp: p_def k_def split: if_splits)
  have k: "k = int (length m)" using lm by (simp add: k_def)
  have nz: "(n = 0) = False" using n(1) by simp
  have run: "sdsrange s i j = do {
       buf \<leftarrow> (if q \<noteq> 0 \<and> length m \<noteq> 0 then mem_move 0 q (length m) (sds_buf s) else Some (sds_buf s));
       buf \<leftarrow> wr (length m) 0 buf;
       Some (s\<lparr>sds_buf := buf, sds_free := to_int32 (sds_free s + (sds_len s - int (length m))),
               sds_len := to_int32 (int (length m))\<rparr>) }"
    by (simp only: sdsrange_def Let_def n(3) bounds bind.bind_lunit prod.case q(2) nz if_False)
      (simp only: k nat_int)
  have "sds_rep s (l @ m @ r)" using assms(1) by (simp only: xs [symmetric])
  from sds_cut_rep [OF this q(1)] show ?thesis
    by (simp only: run m xs [symmetric])
qed

lemma map_bytes_at: "map_bytes f (length b) (length a) (a @ b @ c) = Some (a @ map f b @ c)"
proof (induction b arbitrary: a)
  case (Cons x b)
  show ?case using Cons [of "a @ [f x]"] by (simp add: mem_ops)
qed simp

lemma map_bytes_rep:
  assumes "sds_rep s xs"
  shows "\<exists>buf. map_bytes f (length xs) 0 (sds_buf s) = Some buf \<and> sds_rep (s\<lparr>sds_buf := buf\<rparr>) (map f xs)"
proof -
  obtain rest where s: "sds_buf s = xs @ 0 # rest" "sds_len s = int (length xs)"
    "sds_free s = int (length rest)" "length xs + length rest < 2 ^ 31" using assms by (rule sds_repE)
  then show ?thesis using map_bytes_at [of f xs "[]" "0 # rest"] by (simp add: sds_rep_def)
qed

lemma sdstolower_rep: "sds_rep s xs \<Longrightarrow> \<exists>s'. sdstolower s = Some s' \<and> sds_rep s' (map char_tolower xs)"
  using map_bytes_rep [of s xs char_tolower]
  by (auto simp: sdstolower_def sdslen_correct c_arith elim: sds_repE)

lemma sdstoupper_rep: "sds_rep s xs \<Longrightarrow> \<exists>s'. sdstoupper s = Some s' \<and> sds_rep s' (map char_toupper xs)"
  using map_bytes_rep [of s xs char_toupper]
  by (auto simp: sdstoupper_def sdslen_correct c_arith elim: sds_repE)

lemma sdsmapchars_rep:
  "\<lbrakk>sds_rep s xs; n \<le> length from; n \<le> length to\<rbrakk> \<Longrightarrow>
   \<exists>s'. sdsmapchars s from to n = Some s' \<and> sds_rep s' (map (map_char (take n from) (take n to)) xs)"
  using map_bytes_rep [of s xs "map_char (take n from) (take n to)"]
  by (auto simp: sdsmapchars_def sdslen_correct)

text \<open>\<open>sdscmp\<close> is the lexicographic order of the bytes, a proper prefix first.\<close>

definition bytes_less :: "byte list \<Rightarrow> byte list \<Rightarrow> bool" where
  "bytes_less a b \<longleftrightarrow> (a, b) \<in> lexord {(x, y). x < y}"

lemma bytes_less_simps [simp]:
  "\<not> bytes_less a []" "bytes_less [] (y # ys)"
  "bytes_less (x # xs) (y # ys) \<longleftrightarrow> x < y \<or> x = y \<and> bytes_less xs ys"
  by (simp_all add: bytes_less_def)

lemma memcmp_sign:
  "length a = length b \<Longrightarrow> (memcmp a b = 0 \<longleftrightarrow> a = b) \<and>
   (memcmp a b < 0 \<longleftrightarrow> bytes_less a b)"
  by (induction a b rule: memcmp.induct) auto

lemma bytes_less_prefix:
  "bytes_less xs ys \<longleftrightarrow>
   (let n = min (length xs) (length ys)
    in bytes_less (take n xs) (take n ys) \<or> take n xs = take n ys \<and> length xs < length ys)"
proof (induction xs arbitrary: ys)
  case Nil
  then show ?case by (cases ys) (auto simp: Let_def)
next
  case (Cons x xs)
  then show ?case by (cases ys) (auto simp: Let_def)
qed

lemma sdscmp_correct:
  assumes "sds_rep s xs" "sds_rep t ys"
  shows "\<exists>c. sdscmp s t = Some c \<and> (c = 0 \<longleftrightarrow> xs = ys) \<and> (c < 0 \<longleftrightarrow> bytes_less xs ys)"
proof -
  define n where "n = min (length xs) (length ys)"
  have l: "length xs < 2 ^ 31" "length ys < 2 ^ 31" using assms by (auto elim!: sds_repE)
  have r: "mem_read 0 n (sds_buf s) = Some (take n xs)" "mem_read 0 n (sds_buf t) = Some (take n ys)"
    using assms by (auto simp: n_def mem_read_def elim!: sds_repE)
  have m: "(memcmp (take n xs) (take n ys) = 0 \<longleftrightarrow> take n xs = take n ys) \<and>
      (memcmp (take n xs) (take n ys) < 0 \<longleftrightarrow> bytes_less (take n xs) (take n ys))"
    by (rule memcmp_sign) (simp add: n_def)
  have nn: "(if length xs < length ys then length xs else length ys) = n" by (simp add: n_def)
  have run: "sdscmp s t = Some (if memcmp (take n xs) (take n ys) = 0
      then int (length xs) - int (length ys) else memcmp (take n xs) (take n ys))"
    using r l sdslen_correct [OF assms(1)] sdslen_correct [OF assms(2)] nn
    by (simp add: sdscmp_def Let_def c_arith)
  have irr: "\<not> bytes_less zs zs" for zs by (induction zs) auto
  have eq: "xs = ys \<longleftrightarrow> take n xs = take n ys \<and> length xs = length ys"
    by (auto simp: n_def)
  show ?thesis
    unfolding run using m irr bytes_less_prefix [of xs ys] eq
    by (auto simp: Let_def n_def [symmetric])
qed

lemma sdsfromlonglong_rep:
  assumes "in_sbytes 8 v" "v \<noteq> - (2 ^ 63)"
  shows "\<exists>s. sdsfromlonglong v = Some s \<and> sds_rep s (dec_int v)"
proof -
  have l: "length (dec_int v) \<le> 20" by (rule length_dec_int [OF assms(1)])
  have "(if v < 0 then c_llong (- v) else Some v) = Some \<bar>v\<bar>"
    using assms by (auto simp: c_llong_def in_sbytes_def)
  moreover have "ll_digits (nat \<bar>v\<bar>) [] = Some (dec (nat \<bar>v\<bar>))"
    using l by (intro ll_digits_dec [of "[]", simplified]) (auto simp: dec_int_def split: if_splits)
  moreover have "dec_int v = (if v < 0 then of_char (CHR ''-'') # dec (nat \<bar>v\<bar>) else dec (nat \<bar>v\<bar>))"
    by (auto simp: dec_int_def)
  ultimately show ?thesis
    using l sdsnewlen_rep [of "length (dec_int v)" "dec_int v"]
    by (auto simp: sdsfromlonglong_def split: if_splits)
qed

section \<open>Splitting at a separator\<close>

fun join :: "'a list \<Rightarrow> 'a list list \<Rightarrow> 'a list" where
  "join sep [] = []"
| "join sep [t] = t"
| "join sep (t # ts) = t @ sep @ join sep ts"

lemma join_snoc: "join sep (ts @ [t]) = concat (map (\<lambda>t. t @ sep) ts) @ t"
  by (induction ts rule: induct_list012) auto

lemma prefix_drop_take: "prefix sep (drop j s) \<longleftrightarrow> j + length sep \<le> length s \<and> take (length sep) (drop j s) = sep \<or> sep = []"
  by (auto simp: prefix_def) (metis append_eq_conv_conj append_take_drop_id length_append length_drop
      add.commute add_leD1 le_add1 le_diff_conv2 nat_le_linear drop_eq_Nil length_0_conv list.size(3) append_is_Nil_conv le_add_diff_inverse2, metis append_take_drop_id)

lemma memcmp_zero: "length a = length b \<Longrightarrow> memcmp a b = 0 \<longleftrightarrow> a = b"
  using memcmp_sign by blast

lemma split_hit:
  assumes "sep \<noteq> []" "j + length sep \<le> length s"
  obtains c d where "rd j s = Some c" "rd 0 sep = Some d"
    "(if length sep = 1 \<and> c = d then Some True
      else do { a \<leftarrow> mem_read j (length sep) s; b \<leftarrow> mem_read 0 (length sep) sep; Some (memcmp a b = 0) })
     = Some (prefix sep (drop j s))"
proof -
  have l: "j < length s" using assms by (cases sep) auto
  have r: "mem_read j (length sep) s = Some (take (length sep) (drop j s))"
    "mem_read 0 (length sep) sep = Some sep" using assms by (simp_all add: mem_read_def)
  have m: "memcmp (take (length sep) (drop j s)) sep = 0 \<longleftrightarrow> prefix sep (drop j s)"
    using assms by (subst memcmp_zero) (auto simp: prefix_drop_take)
  have one: "prefix sep (drop j s)" if "length sep = 1" "s ! j = sep ! 0"
  proof -
    obtain c where "sep = [c]" using \<open>length sep = 1\<close> by (auto simp: length_Suc_conv)
    then show ?thesis using that l by (simp flip: Cons_nth_drop_Suc)
  qed
  show thesis using that [of "s ! j" "sep ! 0"] one l assms(1) by (auto simp: rd_def r m)
qed

lemma split_loop_correct:
  assumes "sep \<noteq> []" "length s < 2 ^ 31" "start \<le> j" "j \<le> length s" "length tokens < slots"
    "\<forall>i. start \<le> i \<and> i < j \<longrightarrow> \<not> prefix sep (drop i s)"
  shows "\<exists>start' slots' toks ts. split_loop s (length s) sep (length sep) j start slots tokens
      = Some (start', slots', tokens @ toks) \<and> list_all2 sds_rep toks ts \<and>
    length (tokens @ toks) < slots' \<and> start' \<le> length s \<and>
    drop start s = concat (map (\<lambda>t. t @ sep) ts) @ drop start' s \<and>
    (\<forall>t \<in> set ts. \<forall>i < length t. \<not> prefix sep (drop i (t @ sep))) \<and>
    (\<forall>i \<ge> start'. \<not> prefix sep (drop i s))"
  using assms
proof (induction "length s - j" arbitrary: j start slots tokens rule: less_induct)
  case less
  note IH = less(1) and a = less(2-)
  have sep: "(length sep = 0) = False" "0 < length sep" using a(1) by auto
  define slots1 where "slots1 = (if slots < length tokens + 2 then slots * 2 else slots)"
  have s1: "length tokens + 1 < slots1" using a(5) by (auto simp: slots1_def)
  show ?case
  proof (cases "j + length sep \<le> length s")
    case False
    then have "split_loop s (length s) sep (length sep) j start slots tokens = Some (start, slots, tokens)"
      using a(1) by (subst split_loop.simps) auto
    moreover have "\<not> prefix sep (drop i s)" if "i \<ge> start" for i
      using False that a(6) a(1) by (cases "i < j") (auto simp: prefix_drop_take)
    ultimately show ?thesis using a(3-5) by (intro exI [of _ start] exI [of _ slots] exI [of _ "[]"]) auto
  next
    case True
    then have jl: "j < length s" "length s - (j + length sep) < length s - j" using sep(2) by linarith+
    from True have cond: "int j < int (length s) - (int (length sep) - 1)" by simp
    obtain c d where hit: "rd j s = Some c" "rd 0 sep = Some d"
      "(if length sep = 1 \<and> c = d then Some True
        else do { a \<leftarrow> mem_read j (length sep) s; b \<leftarrow> mem_read 0 (length sep) sep; Some (memcmp a b = 0) })
       = Some (prefix sep (drop j s))" by (rule split_hit [OF a(1) True])
    have step: "split_loop s (length s) sep (length sep) j start slots tokens =
       (if prefix sep (drop j s)
        then do { t \<leftarrow> sdsnewlen (Some (drop start s)) (j - start);
                  tokens \<leftarrow> put_token slots1 tokens t;
                  split_loop s (length s) sep (length sep) (j + length sep - 1 + 1) (j + length sep) slots1 tokens }
        else split_loop s (length s) sep (length sep) (j + 1) start slots1 tokens)"
      by (subst split_loop.simps)
        (simp only: sep if_False cond if_True Let_def slots1_def [symmetric] hit bind.bind_lunit)
    show ?thesis
    proof (cases "prefix sep (drop j s)")
      case no: False
      have "\<forall>i. start \<le> i \<and> i < j + 1 \<longrightarrow> \<not> prefix sep (drop i s)"
        using a(6) no by (metis Suc_eq_plus1 less_Suc_eq)
      then show ?thesis
        unfolding step using IH [of "j + 1" start tokens slots1] no a s1 jl by auto
    next
      case yes: True
      define u where "u = take (j - start) (drop start s)"
      have ds: "drop start s = u @ sep @ drop (j + length sep) s"
      proof -
        have "drop start s = u @ drop j s"
          using a(3) by (simp add: u_def) (metis append_take_drop_id drop_drop le_add_diff_inverse2)
        moreover have "drop j s = sep @ drop (j + length sep) s"
          using yes by (metis add.commute append_eq_conv_conj drop_drop prefix_def)
        ultimately show ?thesis by simp
      qed
      have lu: "length u = j - start" using a(3,4) by (simp add: u_def)
      have free: "\<not> prefix sep (drop i (u @ sep))" if "i < length u" for i
      proof
        assume "prefix sep (drop i (u @ sep))"
        moreover have "drop (start + i) s = drop i (u @ sep) @ drop (j + length sep) s"
          using that ds by (simp add: add.commute flip: drop_drop)
        ultimately have "prefix sep (drop (start + i) s)"
          unfolding prefix_def by (metis append.assoc)
        then show False using a(6) that lu by simp
      qed
      obtain t where t: "sdsnewlen (Some (drop start s)) (j - start) = Some t" "sds_rep t u"
        using sdsnewlen_rep [of "j - start" "drop start s"] a(2) diff_le_mono [OF a(4), of start]
          less_imp_diff_less [OF le_less_trans [OF a(4) a(2)], of start]
        by (auto simp: u_def)
      have put: "put_token slots1 tokens t = Some (tokens @ [t])" using s1 by (simp add: put_token_def)
      have jn: "j + length sep - 1 + 1 = j + length sep" using sep(2) by simp
      obtain start' slots' toks ts where r:
        "split_loop s (length s) sep (length sep) (j + length sep) (j + length sep) slots1 (tokens @ [t])
          = Some (start', slots', (tokens @ [t]) @ toks)"
        "list_all2 sds_rep toks ts" "length ((tokens @ [t]) @ toks) < slots'" "start' \<le> length s"
        "drop (j + length sep) s = concat (map (\<lambda>t. t @ sep) ts) @ drop start' s"
        "\<forall>t \<in> set ts. \<forall>i < length t. \<not> prefix sep (drop i (t @ sep))"
        "\<forall>i \<ge> start'. \<not> prefix sep (drop i s)"
        using IH [of "j + length sep" "j + length sep" "tokens @ [t]" slots1] a(1,2) True s1 jl by auto
      show ?thesis
        unfolding step t(1) put jn bind.bind_lunit r(1) using yes
      proof (intro exI conjI)
        show "list_all2 sds_rep (t # toks) (u # ts)" using t(2) r(2) by simp
        show "drop start s = concat (map (\<lambda>t. t @ sep) (u # ts)) @ drop start' s" using ds r(5) by simp
        show "\<forall>t \<in> set (u # ts). \<forall>i < length t. \<not> prefix sep (drop i (t @ sep))"
          using free r(6) by simp
      qed (use r in simp_all)
    qed
  qed
qed

lemma sdssplitlen_correct:
  assumes "s \<noteq> []" "length s < 2 ^ 31" "sep \<noteq> []"
  shows "\<exists>toks ts. sdssplitlen s (int (length s)) sep (int (length sep)) = Some (Inr toks) \<and>
    list_all2 sds_rep toks ts \<and> ts \<noteq> [] \<and> join sep ts = s \<and>
    (\<forall>t \<in> set (butlast ts). \<forall>i < length t. \<not> prefix sep (drop i (t @ sep))) \<and>
    \<not> sublist sep (last ts)"
proof -
  obtain start slots toks ts where r:
    "split_loop s (length s) sep (length sep) 0 0 5 [] = Some (start, slots, toks)"
    "list_all2 sds_rep toks ts" "length toks < slots" "start \<le> length s"
    "s = concat (map (\<lambda>t. t @ sep) ts) @ drop start s"
    "\<forall>t \<in> set ts. \<forall>i < length t. \<not> prefix sep (drop i (t @ sep))"
    "\<forall>i \<ge> start. \<not> prefix sep (drop i s)"
    using split_loop_correct [OF assms(3,2), of 0 0 "[]" 5] by auto
  obtain t where t: "sdsnewlen (Some (drop start s)) (length s - start) = Some t" "sds_rep t (drop start s)"
    using sdsnewlen_rep [of "length s - start" "drop start s"] assms(2) r(4) by fastforce
  have "sdssplitlen s (int (length s)) sep (int (length sep)) = Some (Inr (toks @ [t]))"
    using assms(1,3) r(1,3) t(1) by (simp add: sdssplitlen_def put_token_def Suc_le_eq)
  moreover have "\<not> sublist sep (drop start s)"
  proof
    assume "sublist sep (drop start s)"
    then obtain p q where "drop start s = p @ sep @ q" by (auto simp: sublist_def)
    then have "drop (length p + start) s = sep @ q" by (metis append_eq_conv_conj drop_drop)
    then show False using r(7) by (metis le_add2 prefixI)
  qed
  ultimately show ?thesis
    using r t by (intro exI [of _ "toks @ [t]"] exI [of _ "ts @ [drop start s]"])
      (auto simp: join_snoc list_all2_appendI)
qed


section \<open>Quoting and parsing arguments\<close>

text \<open>What \<open>repr_char\<close> appends for one byte, and the whole quoted text.\<close>

definition quote_byte :: "byte \<Rightarrow> byte list" where
  "quote_byte c =
     (if c = CH_BSLASH \<or> c = CH_QUOTE then [CH_BSLASH, c]
      else if c = 10 then [CH_BSLASH, of_char (CHR ''n'')]
      else if c = 13 then [CH_BSLASH, of_char (CHR ''r'')]
      else if c = 9 then [CH_BSLASH, of_char (CHR ''t'')]
      else if c = 7 then [CH_BSLASH, of_char (CHR ''a'')]
      else if c = 8 then [CH_BSLASH, of_char (CHR ''b'')]
      else if isprint c then [c]
      else [CH_BSLASH, of_char (CHR ''x''), hex_char (unat c div 16), hex_char (unat c mod 16)])"

definition quoted :: "byte list \<Rightarrow> byte list" where
  "quoted xs = CH_QUOTE # concat (map quote_byte xs) @ [CH_QUOTE]"

lemma hex_char_ne: "d < 16 \<Longrightarrow> hex_char d \<noteq> 0 \<and> is_hex_digit (hex_char d) \<and> hex_digit_to_int (hex_char d) = d"
proof -
  have "\<forall>d \<in> set [0..<16]. hex_char d \<noteq> 0 \<and> is_hex_digit (hex_char d) \<and> hex_digit_to_int (hex_char d) = d"
    by code_simp
  moreover assume "d < 16"
  ultimately show ?thesis by simp
qed

lemma quote_byte_props: "0 \<notin> set (quote_byte c)" "length (quote_byte c) \<le> 4"
proof -
  have "unat c < 2 ^ LENGTH(8)" by (rule unsigned_less)
  then have "unat c div 16 < 16" by (simp add: less_mult_imp_div_less)
  then show "0 \<notin> set (quote_byte c)"
    using hex_char_ne [of "unat c div 16"] hex_char_ne [of "unat c mod 16"]
    by (auto simp: quote_byte_def isprint_def)
qed (simp add: quote_byte_def)

lemma repr_char_rep:
  assumes "sds_rep s xs" "length xs + 4 < 2 ^ 31 - 2 ^ 20"
  shows "\<exists>s'. repr_char c s = Some s' \<and> sds_rep s' (xs @ quote_byte c)"
proof -
  have p: "\<exists>s'. sdscatprintf s (quote_byte c) = Some s' \<and> sds_rep s' (xs @ quote_byte c)"
    using sdscatprintf_rep [OF assms(1) quote_byte_props(1)] quote_byte_props(2) [of c] assms(2) by auto
  have q: "\<exists>s'. sdscatlen s [a, b] 2 = Some s' \<and> sds_rep s' (xs @ [a, b])" for a b
    using sdscatlen_rep [OF assms(1), of 2 "[a, b]"] assms(2) by simp
  have "repr_char c s = sdscatprintf s (quote_byte c) \<or>
      (\<exists>b. quote_byte c = [CH_BSLASH, b] \<and> repr_char c s = sdscatlen s [CH_BSLASH, b] 2)"
  proof (cases "c = CH_BSLASH \<or> c = CH_QUOTE")
    case True
    then show ?thesis by (simp only: repr_char_def quote_byte_def if_True simp_thms)
  next
    case False
    then show ?thesis by (simp add: repr_char_def quote_byte_def)
  qed
  then show ?thesis using p q by auto
qed

lemma repr_loop_rep:
  assumes "sds_rep s xs" "i + n \<le> length p" "length xs + 4 * n < 2 ^ 31 - 2 ^ 20"
  shows "\<exists>s'. repr_loop p n i s = Some s' \<and> sds_rep s' (xs @ concat (map quote_byte (take n (drop i p))))"
  using assms
proof (induction n arbitrary: i s xs)
  case (Suc n)
  have i: "i < length p" "take (Suc n) (drop i p) = p ! i # take n (drop (Suc i) p)"
    using Suc.prems(2) by (simp_all flip: Cons_nth_drop_Suc)
  obtain s1 where s1: "repr_char (p ! i) s = Some s1" "sds_rep s1 (xs @ quote_byte (p ! i))"
    using repr_char_rep [OF Suc.prems(1)] Suc.prems(3) by (metis add_lessD1 mult_Suc_right add.assoc)
  have "length (xs @ quote_byte (p ! i)) + 4 * n < 2 ^ 31 - 2 ^ 20"
    using Suc.prems(3) quote_byte_props(2) [of "p ! i"] by simp
  from Suc.IH [OF s1(2) _ this, of "Suc i"] show ?case
    using Suc.prems(2) i s1(1) by (simp add: rd_def)
qed simp

lemma sdscatrepr_rep:
  assumes "sds_rep s xs" "n \<le> length p" "length xs + 4 * n + 2 < 2 ^ 31 - 2 ^ 20"
  shows "\<exists>s'. sdscatrepr s p n = Some s' \<and> sds_rep s' (xs @ quoted (take n p))"
proof -
  obtain s1 where s1: "sdscatlen s [CH_QUOTE] 1 = Some s1" "sds_rep s1 (xs @ [CH_QUOTE])"
    using sdscatlen_rep [OF assms(1), of 1 "[CH_QUOTE]"] assms(3) by auto
  obtain s2 where s2: "repr_loop p n 0 s1 = Some s2"
    "sds_rep s2 ((xs @ [CH_QUOTE]) @ concat (map quote_byte (take n p)))"
    using repr_loop_rep [OF s1(2), of 0 n p] assms(2,3) by auto
  have "length (concat (map quote_byte ys)) \<le> 4 * length ys" for ys
  proof (induction ys)
    case (Cons y ys)
    then show ?case using quote_byte_props(2) [of y] by simp
  qed simp
  from this [of "take n p"] have "length ((xs @ [CH_QUOTE]) @ concat (map quote_byte (take n p))) + 1 < 2 ^ 31 - 2 ^ 20"
    using assms(2,3) by simp
  from sdscatlen_rep [OF s2(2) _ this, of "[CH_QUOTE]"] show ?thesis
    using s1(1) s2(1) by (simp add: sdscatrepr_def quoted_def)
qed

declare split_args_loop.simps [simp del]

lemma tok_append_rep:
  assumes "sds_rep cur acc" "length acc + 1 < 2 ^ 31 - 2 ^ 20" "rd p line = Some d" "d \<noteq> 0"
  shows "\<exists>cur'. tok_append line p md cur c = Some (TokNext (p + 1) md cur') \<and> sds_rep cur' (acc @ [c])"
  using sdscatlen_rep [OF assms(1), of 1 "[c]"] assms(2-4) by (auto simp: tok_append_def tok_advance_def)

lemma hex_join: "(of_nat (unat (c :: byte) div 16) * 16 + of_nat (unat c mod 16) :: byte) = c"
proof -
  have "(of_nat (unat c div 16) * 16 + of_nat (unat c mod 16) :: byte) = of_nat (unat c div 16 * 16 + unat c mod 16)"
    by (simp only: of_nat_add of_nat_mult of_nat_numeral)
  also have "\<dots> = c" by (simp only: div_mult_mod_eq) simp
  finally show ?thesis .
qed

lemma tok_quoted_byte:
  assumes "sds_rep cur acc" "length acc + 1 < 2 ^ 31 - 2 ^ 20"
  shows "\<exists>cur'. tok_pass (pre @ quote_byte c @ rest) (length pre) InQuotes cur
      = Some (TokNext (length pre + length (quote_byte c)) InQuotes cur') \<and> sds_rep cur' (acc @ [c])"
proof -
  note ap = tok_append_rep [OF assms]
  have esc: "\<exists>cur'. tok_inq (pre @ CH_BSLASH # e # rest) (length pre) cur
      = Some (TokNext (length pre + 2) InQuotes cur') \<and> sds_rep cur' (acc @ [c])"
    if "e \<noteq> of_char (CHR ''x'')" "e \<noteq> 0"
"unescape e = c" for e
    using that(1,2) ap [of "length pre + 1" "pre @ CH_BSLASH # e # rest" e InQuotes c]
    by (simp add: tok_inq_def and_also_def test_at_def that(3))
  consider "c = CH_BSLASH \<or> c = CH_QUOTE" | "c \<in> {10, 13, 9, 7, 8}"
    | "c \<notin> {CH_BSLASH, CH_QUOTE, 10, 13, 9, 7, 8}" "isprint c"
    | "c \<notin> {CH_BSLASH, CH_QUOTE, 10, 13, 9, 7, 8}" "\<not> isprint c" by blast
  then show ?thesis
  proof cases
    case 1
    then show ?thesis using esc [of c] by (auto simp: tok_pass_def quote_byte_def unescape_def)
  next
    case 2
    then show ?thesis
      using esc [of "of_char (CHR ''n'')"] esc [of "of_char (CHR ''r'')"] esc [of "of_char (CHR ''t'')"]
        esc [of "of_char (CHR ''a'')"] esc [of "of_char (CHR ''b'')"]
      by (auto simp: tok_pass_def quote_byte_def unescape_def)
  next
    case 3
    then have "c \<noteq> 0" by (auto simp: isprint_def)
    then show ?thesis using 3 ap [of "length pre" "pre @ c # rest" c InQuotes c]
      by (simp add: tok_pass_def quote_byte_def tok_inq_def and_also_def test_at_def)
  next
    case 4
    have "unat c < 2 ^ LENGTH(8)" by (rule unsigned_less)
    then have "unat c div 16 < 16" by (simp add: less_mult_imp_div_less)
    then have h: "is_hex_digit (hex_char (unat c div 16))" "is_hex_digit (hex_char (unat c mod 16))"
      "hex_digit_to_int (hex_char (unat c div 16)) = unat c div 16"
      "hex_digit_to_int (hex_char (unat c mod 16)) = unat c mod 16" "hex_char (unat c mod 16) \<noteq> 0"
      using hex_char_ne [of "unat c div 16"] hex_char_ne [of "unat c mod 16"] by simp_all
    define l where "l = pre @ CH_BSLASH # of_char (CHR ''x'') # hex_char (unat c div 16) # hex_char (unat c mod 16) # rest"
    have q: "quote_byte c = [CH_BSLASH, of_char (CHR ''x''), hex_char (unat c div 16), hex_char (unat c mod 16)]"
      using 4 by (simp add: quote_byte_def)
    have "tok_inq l (length pre) cur = tok_append l (length pre + 3) InQuotes cur c"
      using h(1-4) hex_join [of c] by (simp add: l_def tok_inq_def and_also_def test_at_def)
    moreover have "rd (length pre + 3) l = Some (hex_char (unat c mod 16))" by (simp add: l_def)
    ultimately have "\<exists>cur'. tok_inq l (length pre) cur = Some (TokNext (length pre + 3 + 1) InQuotes cur') \<and>
        sds_rep cur' (acc @ [c])"
      using ap [of "length pre + 3" l "hex_char (unat c mod 16)" InQuotes c] h(5) by presburger
    moreover have "length pre + length (quote_byte c) = length pre + 3 + 1" by (simp add: q)
    moreover have "pre @ quote_byte c @ rest = l" by (simp add: q l_def)
    ultimately show ?thesis by (simp only: tok_pass_def tok_mode.case)
  qed
qed

lemma tok_loop_quoted:
  assumes "sds_rep cur acc" "length acc + length xs < 2 ^ 31 - 2 ^ 20" "e = 0 \<or> isspace e"
  shows "\<exists>cur'. tok_loop (pre @ concat (map quote_byte xs) @ CH_QUOTE # e # post) (length pre) InQuotes cur
      = Some (Inr (length pre + length (concat (map quote_byte xs)) + 1, cur')) \<and> sds_rep cur' (acc @ xs)"
  using assms
proof (induction xs arbitrary: pre cur acc)
  case Nil
  then show ?case
    by (subst tok_loop.simps)
      (auto simp: tok_pass_def tok_inq_def tok_close_def tok_advance_def and_also_def test_at_def)
next
  case (Cons c xs)
  obtain c1 where c1: "tok_pass (pre @ quote_byte c @ concat (map quote_byte xs) @ CH_QUOTE # e # post) (length pre) InQuotes cur
      = Some (TokNext (length pre + length (quote_byte c)) InQuotes c1)" "sds_rep c1 (acc @ [c])"
    using tok_quoted_byte [OF Cons.prems(1), of pre c "concat (map quote_byte xs) @ CH_QUOTE # e # post"]
      Cons.prems(2) by auto
  show ?case
    using Cons.IH [OF c1(2), of "pre @ quote_byte c"] Cons.prems(2,3) c1(1)
    by (subst tok_loop.simps) (simp add: add.assoc)
qed

lemma tok_loop_token:
  assumes "sds_rep cur []" "length a < 2 ^ 31 - 2 ^ 20" "e = 0 \<or> isspace e"
  shows "\<exists>cur'. tok_loop (pre @ quoted a @ e # post) (length pre) Plain cur
      = Some (Inr (length pre + length (quoted a), cur')) \<and> sds_rep cur' a"
  using tok_loop_quoted [OF assms(1), of a e "pre @ [CH_QUOTE]" post] assms(2,3)
  by (subst tok_loop.simps) (simp add: tok_pass_def tok_plain_def tok_advance_def quoted_def)

lemma skip_spaces_at: "\<not> isspace c \<or> c = 0 \<Longrightarrow> skip_spaces (pre @ c # post) (length pre) = Some (length pre)"
  by (subst skip_spaces.simps) auto

lemma skip_spaces_blank: "skip_spaces (pre @ CH_SPACE # post) (length pre) = skip_spaces (pre @ CH_SPACE # post) (length pre + 1)"
  by (subst skip_spaces.simps) (simp add: isspace_def)

lemma split_args_step:
  assumes "skip_spaces line p = Some p'" "line ! p' \<noteq> 0" "sdsempty = Some cur0"
    "tok_loop line p' Plain cur0 = Some (Inr (q, cur))"
  shows "split_args_loop line p vector = split_args_loop line q (vector @ [cur])"
proof -
  have "split_args_loop line p vector =
     (case skip_spaces line p of
        None \<Rightarrow> None
      | Some p \<Rightarrow>
          if line ! p \<noteq> 0
          then (case sdsempty of
                  None \<Rightarrow> None
                | Some current \<Rightarrow>
                    (case tok_loop line p Plain current of
                       None \<Rightarrow> None
                     | Some (Inl u) \<Rightarrow> Some (Inl ())
                     | Some (Inr (q, current)) \<Rightarrow> split_args_loop line q (vector @ [current])))
          else Some (Inr vector))"
    by (rule split_args_loop.simps)
  also have "\<dots> = split_args_loop line q (vector @ [cur])"
    unfolding assms(1) option.case if_P [OF assms(2)] assms(3,4) sum.case prod.case ..
  finally show ?thesis .
qed

lemma split_args_text:
  assumes "\<forall>a \<in> set args. length a < 2 ^ 31 - 2 ^ 20"
  shows "\<exists>toks. split_args_loop (pre @ concat (map (\<lambda>a. CH_SPACE # quoted a) args) @ [0]) (length pre) vector
      = Some (Inr (vector @ toks)) \<and> list_all2 sds_rep toks args"
  using assms
proof (induction args arbitrary: pre vector)
  case Nil
  then show ?case using skip_spaces_at [of 0 pre "[]"] by (subst split_args_loop.simps) simp
next
  case (Cons a args)
  define line where "line = pre @ concat (map (\<lambda>a. CH_SPACE # quoted a) (a # args)) @ [0]"
  obtain e post where e: "concat (map (\<lambda>a. CH_SPACE # quoted a) args) @ [0] = e # post" "e = 0 \<or> isspace e"
    by (cases args) (auto simp: isspace_def)
  have l1: "line = (pre @ [CH_SPACE]) @ quoted a @ e # post"
    using e(1) by (simp add: line_def)
  obtain cur0 where c0: "sdsempty = Some cur0" "sds_rep cur0 []" using sdsempty_rep by auto
  obtain cur where tok: "tok_loop line (length pre + 1) Plain cur0
      = Some (Inr (length pre + 1 + length (quoted a), cur))" "sds_rep cur a"
    using tok_loop_token [OF c0(2) _ e(2), of a "pre @ [CH_SPACE]" post] Cons.prems by (auto simp: l1)
  have "skip_spaces line (length pre) = Some (length pre + 1)"
    using skip_spaces_blank [of pre] skip_spaces_at [of CH_QUOTE "pre @ [CH_SPACE]"]
    by (simp add: line_def quoted_def isspace_def)
  moreover have "line ! (length pre + 1) \<noteq> 0" by (simp add: line_def quoted_def nth_append)
  ultimately have step: "split_args_loop line (length pre) vector =
      split_args_loop line (length pre + 1 + length (quoted a)) (vector @ [cur])"
    using c0(1) tok(1) by (intro split_args_step)
  have "line = (pre @ [CH_SPACE] @ quoted a) @ concat (map (\<lambda>a. CH_SPACE # quoted a) args) @ [0]"
    by (simp add: line_def)
  then obtain toks where "split_args_loop line (length pre + 1 + length (quoted a)) (vector @ [cur])
      = Some (Inr ((vector @ [cur]) @ toks))" "list_all2 sds_rep toks args"
    using Cons.IH [of "pre @ [CH_SPACE] @ quoted a" "vector @ [cur]"] Cons.prems
    by (auto simp: add.assoc)
  then show ?case using step tok(2) by (intro exI [of _ "cur # toks"]) (simp add: line_def)
qed

lemma join_map_quoted: "join [CH_SPACE] (map quoted (a # as)) = quoted a @ concat (map (\<lambda>a. CH_SPACE # quoted a) as)"
  by (induction as arbitrary: a) auto

text \<open>
  C18.  Quoting and parsing are inverse: a line of arguments, each written by \<open>sdscatrepr\<close> and
  separated by single spaces, is parsed by \<open>sdssplitargs\<close> into exactly those arguments, whatever
  bytes they hold, without reading behind the end of the line.
\<close>
theorem sdssplitargs_reads_sdscatrepr:
  assumes "\<forall>a \<in> set args. 4 * length a + 2 < 2 ^ 31 - 2 ^ 20"
  shows "\<exists>reprs toks. list_all2 (\<lambda>a r. \<exists>s0 s. sdsempty = Some s0 \<and> sdscatrepr s0 a (length a) = Some s \<and> sds_rep s r) args reprs \<and>
    sdssplitargs (join [CH_SPACE] reprs @ [0]) = Some (Inr toks) \<and> list_all2 sds_rep toks args"
proof -
  obtain s0 where s0: "sdsempty = Some s0" "sds_rep s0 []" using sdsempty_rep by auto
  have "list_all2 (\<lambda>a r. \<exists>s0 s. sdsempty = Some s0 \<and> sdscatrepr s0 a (length a) = Some s \<and> sds_rep s r) args (map quoted args)"
    using assms sdscatrepr_rep [OF s0(2)] s0(1) by (fastforce simp: list_all2_map2 list_all2_same)
  moreover have "\<exists>toks. sdssplitargs (join [CH_SPACE] (map quoted args) @ [0]) = Some (Inr toks) \<and> list_all2 sds_rep toks args"
  proof (cases args)
    case Nil
    then show ?thesis using split_args_text [of "[]" "[]" "[]"] by (simp add: sdssplitargs_def)
  next
    case (Cons a as)
    define line where "line = quoted a @ concat (map (\<lambda>a. CH_SPACE # quoted a) as) @ [0]"
    obtain e post where e: "concat (map (\<lambda>a. CH_SPACE # quoted a) as) @ [0] = e # post" "e = 0 \<or> isspace e"
      by (cases as) (auto simp: isspace_def)
    obtain cur where tok: "tok_loop line 0 Plain s0 = Some (Inr (length (quoted a), cur))" "sds_rep cur a"
      using tok_loop_token [OF s0(2) _ e(2), of a "[]" post] assms Cons by (auto simp: line_def e(1))
    have "skip_spaces line 0 = Some 0" "line ! 0 \<noteq> 0"
      using skip_spaces_at [of CH_QUOTE "[]"] by (simp_all add: line_def quoted_def isspace_def)
    then have "sdssplitargs line = split_args_loop line (length (quoted a)) [cur]"
      using s0(1) tok(1) split_args_step [of line 0 0 s0 "length (quoted a)" cur "[]"]
      by (simp add: sdssplitargs_def)
    moreover obtain toks where "split_args_loop line (length (quoted a)) [cur] = Some (Inr ([cur] @ toks))"
      "list_all2 sds_rep toks as"
      using split_args_text [of as "quoted a" "[cur]"] assms Cons by (fastforce simp: line_def)
    ultimately show ?thesis using tok(2) Cons join_map_quoted [of a as]
      by (intro exI [of _ "cur # toks"]) (simp add: line_def)
  qed
  ultimately show ?thesis by blast
qed

theorem sdssplitargs_reads_sdscatrepr_witness:
  "\<exists>reprs toks. list_all2 (\<lambda>a r. \<exists>s0 s. sdsempty = Some s0 \<and> sdscatrepr s0 a (length a) = Some s \<and> sds_rep s r)
      [[97, 0, 34], [10, 255]] reprs \<and>
    sdssplitargs (join [CH_SPACE] reprs @ [0]) = Some (Inr toks) \<and> list_all2 sds_rep toks [[97, 0, 34], [10, 255]]"
  by (rule sdssplitargs_reads_sdscatrepr) simp

section \<open>The properties of the strings\<close>

text \<open>
  C22.  The tokens that \<open>sdssplitlen\<close> finds in a non-empty text, joined with the separator, give
  the text back; no token contains the separator, not even overlapping its end, so the split is
  at the leftmost separators.  The token array never overflows its slots.
\<close>
theorem sdssplitlen_tokens:
  assumes "s \<noteq> []" "length s < 2 ^ 31" "sep \<noteq> []"
  shows "\<exists>toks ts. sdssplitlen s (int (length s)) sep (int (length sep)) = Some (Inr toks) \<and>
    list_all2 sds_rep toks ts \<and> ts \<noteq> [] \<and> join sep ts = s \<and>
    (\<forall>t \<in> set (butlast ts). \<forall>i < length t. \<not> prefix sep (drop i (t @ sep))) \<and>
    \<not> sublist sep (last ts)"
  using assms by (rule sdssplitlen_correct)

theorem sdssplitlen_tokens_witness:
  "\<exists>toks ts. sdssplitlen [1, 9, 9, 2] 4 [9] 1 = Some (Inr toks) \<and> list_all2 sds_rep toks ts \<and>
    join [9] ts = [1, 9, 9, 2] \<and> \<not> sublist [9] (last ts)"
  using sdssplitlen_tokens [of "[1, 9, 9, 2]" "[9]"] by auto

text \<open>Edits of a string, on the buffer and on the text.\<close>

datatype sds_edit =
    Cat "byte list" | Cpy "byte list" | GrowZero nat | Trim "byte list" | Range int int
  | ToLower | ToUpper | Clear | DropFreeSpace

fun run_edit :: "sds \<Rightarrow> sds_edit \<Rightarrow> sds option" where
  "run_edit s (Cat t) = sdscatlen s t (length t)"
| "run_edit s (Cpy t) = sdscpylen s t (length t)"
| "run_edit s (GrowZero n) = sdsgrowzero s n"
| "run_edit s (Trim cset) = sdstrim s cset"
| "run_edit s (Range i j) = sdsrange s i j"
| "run_edit s ToLower = sdstolower s"
| "run_edit s ToUpper = sdstoupper s"
| "run_edit s Clear = sdsclear s"
| "run_edit s DropFreeSpace = Some (sdsRemoveFreeSpace s)"

primrec run_edits :: "sds \<Rightarrow> sds_edit list \<Rightarrow> sds option" where
  "run_edits s [] = Some s"
| "run_edits s (e # es) = do { s \<leftarrow> run_edit s e; run_edits s es }"

fun text_edit :: "byte list \<Rightarrow> sds_edit \<Rightarrow> byte list" where
  "text_edit xs (Cat t) = xs @ t"
| "text_edit xs (Cpy t) = t"
| "text_edit xs (GrowZero n) = xs @ replicate (n - length xs) 0"
| "text_edit xs (Trim cset) = trim (\<lambda>c. c \<in> set cset \<or> c = 0) xs"
| "text_edit xs (Range i j) = list_range i j xs"
| "text_edit xs ToLower = map char_tolower xs"
| "text_edit xs ToUpper = map char_toupper xs"
| "text_edit xs Clear = []"
| "text_edit xs DropFreeSpace = xs"

fun edit_weight :: "sds_edit \<Rightarrow> nat" where
  "edit_weight (Cat t) = length t"
| "edit_weight (Cpy t) = length t"
| "edit_weight (GrowZero n) = n"
| "edit_weight _ = 0"

fun edit_ok :: "sds_edit \<Rightarrow> bool" where
  "edit_ok (Range i j) \<longleftrightarrow> - (2 ^ 31) \<le> i \<and> i < 2 ^ 31 \<and> - (2 ^ 31) \<le> j \<and> j < 2 ^ 31 - 1"
| "edit_ok _ \<longleftrightarrow> True"

lemma length_trim: "length (trim P xs) \<le> length xs"
  by (metis length_dropWhile_le length_rev le_trans)

lemma length_text_edit: "length (text_edit xs e) \<le> length xs + edit_weight e"
  using length_trim by (cases e) (auto simp: list_range_def Let_def)

lemma run_edit_rep:
  assumes "sds_rep s xs" "length xs + edit_weight e < 2 ^ 31 - 2 ^ 20" "edit_ok e"
  shows "\<exists>s'. run_edit s e = Some s' \<and> sds_rep s' (text_edit xs e)"
proof (cases e)
  case (Cat t)
  then show ?thesis using sdscatlen_rep [OF assms(1), of "length t" t] assms(2) by simp
next
  case (Cpy t)
  then show ?thesis using sdscpylen_rep [OF assms(1), of "length t" t] assms(2) by simp
next
  case (GrowZero n)
  then show ?thesis using sdsgrowzero_rep [OF assms(1), of n] assms(2) by simp
next
  case (Trim cset)
  moreover have "strchr cset = (\<lambda>c. c \<in> set cset \<or> c = 0)" by (auto simp: strchr_def)
  ultimately show ?thesis using sdstrim_rep [OF assms(1), of cset] by simp
next
  case (Range i j)
  then show ?thesis using sdsrange_rep [OF assms(1), of i j] assms(3) by simp
qed (use sdstolower_rep [OF assms(1)] sdstoupper_rep [OF assms(1)] sdsclear_rep [OF assms(1)]
      sdsRemoveFreeSpace_rep [OF assms(1)] in simp_all)

text \<open>
  C17.  Any sequence of edits of a well-formed string (appending, copying, growing, trimming,
  cutting to a range, changing case, clearing, giving back spare space) stays inside the
  allocation, ends in a well-formed string, and changes the text as the list functions say;
  trimming strips null bytes too, since \<open>strchr\<close> finds the terminator of the set.  The texts
  together must stay 1 MB below the 2 GB that the \<open>int\<close> header can describe.
\<close>
theorem sds_edits_refine:
  assumes "sds_rep s xs" "length xs + sum_list (map edit_weight es) < 2 ^ 31 - 2 ^ 20"
    "\<forall>e \<in> set es. edit_ok e"
  shows "\<exists>s'. run_edits s es = Some s' \<and> sds_rep s' (foldl text_edit xs es)"
  using assms
proof (induction es arbitrary: s xs)
  case (Cons e es)
  obtain s1 where s1: "run_edit s e = Some s1" "sds_rep s1 (text_edit xs e)"
    using run_edit_rep [OF Cons.prems(1), of e] Cons.prems(2,3) by auto
  then show ?case
    using Cons.IH [OF s1(2)] length_text_edit [of xs e] Cons.prems(2,3) by simp
qed simp

theorem sds_edits_refine_witness:
  "\<exists>s'. run_edits \<lparr>sds_len = 1, sds_free = 0, sds_buf = [7, 0]\<rparr> [Cat [1, 2], Range 1 (- 1), Trim [2]] = Some s' \<and>
    sds_rep s' (foldl text_edit [7] [Cat [1, 2], Range 1 (- 1), Trim [2]])"
  by (rule sds_edits_refine) (simp_all add: sds_rep_def)

end
