(* ===== verification/Object.thy ===== *)
theory Object
  imports Sds Dict Intset
begin

text \<open>
  \<open>object.c\<close> and the dictionary types of \<open>redis.c\<close>: the values of the key space.  A \<open>robj\<close> is a
  datatype with one constructor per type and encoding, so that the encoding of a value and its
  contents cannot disagree.  Reference counts, the LRU clock and freeing are not modelled; where
  the code asks for the count it is an argument.

  The specification of a value is \<open>val\<close>, what a client can observe: a text or a set of texts.
  \<open>obj_rep\<close> relates the two; that the encodings of one value are interchangeable is what the
  lemmas say.  The texts of 64 bit integers exclude that of the least, which \<open>ll2string\<close> cannot
  print.
\<close>

section \<open>Generic lemmas: postconditions of partial operations\<close>

text \<open>\<open>ok m Q\<close>: the operation is defined and its result satisfies \<open>Q\<close>.\<close>

definition ok :: "'a option \<Rightarrow> ('a \<Rightarrow> bool) \<Rightarrow> bool" where
  "ok m Q \<longleftrightarrow> (case m of None \<Rightarrow> False | Some x \<Rightarrow> Q x)"

lemma ok_simps [simp]:
  "ok (Some x) Q \<longleftrightarrow> Q x"
  "\<not> ok None Q"
  "ok (Option.bind m f) Q \<longleftrightarrow> ok m (\<lambda>x. ok (f x) Q)"
  by (auto simp: ok_def split: option.splits bind_split)

lemma ok_iff: "ok m Q \<longleftrightarrow> (\<exists>x. m = Some x \<and> Q x)"
  by (auto simp: ok_def split: option.splits)

lemma ok_mono: "\<lbrakk>ok m P; \<And>x. P x \<Longrightarrow> Q x\<rbrakk> \<Longrightarrow> ok m Q"
  by (auto simp: ok_iff)

lemma ok_mono2: "\<lbrakk>ok m (\<lambda>(s, r). P s r); \<And>s r. P s r \<Longrightarrow> Q (s, r)\<rbrakk> \<Longrightarrow> ok m Q"
  by (auto simp: ok_iff)

lemma ok_if [simp]: "ok (if b then m else n) Q \<longleftrightarrow> (b \<longrightarrow> ok m Q) \<and> (\<not> b \<longrightarrow> ok n Q)"
  by simp

section \<open>The code\<close>

subsection \<open>Library functions\<close>

text \<open>
  \<open>strtoll(s, &eptr, 10)\<close> on the text before the null byte: the value, the index of \<open>eptr\<close> and
  whether \<open>errno\<close> becomes \<open>ERANGE\<close>.
\<close>

definition strtoll_end :: "byte list \<Rightarrow> int \<times> nat \<times> bool" where
  "strtoll_end s =
     (let ws = length (takeWhile isspace s);
          p = drop ws s;
          neg = (p \<noteq> [] \<and> hd p = of_char (CHR ''-''));
          sg = (if p \<noteq> [] \<and> (hd p = of_char (CHR ''-'') \<or> hd p = of_char (CHR ''+'')) then 1 else 0);
          ds = takeWhile is_digit (drop sg p);
          v = (if neg then - int (dec_value ds) else int (dec_value ds))
      in if ds = [] then (0, 0, False)
         else if v < - (2 ^ 63) then (- (2 ^ 63), ws + sg + length ds, True)
         else if v > 2 ^ 63 - 1 then (2 ^ 63 - 1, ws + sg + length ds, True)
         else (v, ws + sg + length ds, False))"

text \<open>\<open>strcmp\<close>: \<open>None\<close> is a read behind a buffer without a null byte.\<close>

fun strcmp :: "mem \<Rightarrow> mem \<Rightarrow> int option" where
  "strcmp (a # as) (b # bs) =
     (if a < b then Some (- 1) else if b < a then Some 1
      else if a = 0 then Some 0 else strcmp as bs)"
| "strcmp _ _ = None"

subsection \<open>String objects\<close>

datatype robj =
    StrRaw sds                              \<comment> \<open>\<open>REDIS_STRING\<close>, \<open>REDIS_ENCODING_RAW\<close>\<close>
  | StrInt int                              \<comment> \<open>\<open>REDIS_STRING\<close>, \<open>REDIS_ENCODING_INT\<close>\<close>
  | SetIntset intset                        \<comment> \<open>\<open>REDIS_SET\<close>, \<open>REDIS_ENCODING_INTSET\<close>\<close>
  | SetHt "(byte list, unit) dict"          \<comment> \<open>\<open>REDIS_SET\<close>, \<open>REDIS_ENCODING_HT\<close>\<close>

datatype obj_type = REDIS_STRING | REDIS_SET

fun otype :: "robj \<Rightarrow> obj_type" where
  "otype (StrRaw s) = REDIS_STRING"
| "otype (StrInt n) = REDIS_STRING"
| "otype (SetIntset s) = REDIS_SET"
| "otype (SetHt d) = REDIS_SET"

definition createStringObject :: "mem \<Rightarrow> nat \<Rightarrow> robj option" where
  "createStringObject ptr len = do { s \<leftarrow> sdsnewlen (Some ptr) len; Some (StrRaw s) }"

text \<open>A shared integer object is one with integer encoding and the same value.\<close>

definition createStringObjectFromLongLong :: "int \<Rightarrow> robj option" where
  "createStringObjectFromLongLong value =
     (if 0 \<le> value \<and> value < 10000 then Some (StrInt value)
      else if value \<ge> - (2 ^ 63) \<and> value \<le> 2 ^ 63 - 1 then Some (StrInt value)
      else do { s \<leftarrow> sdsfromlonglong value; Some (StrRaw s) })"

definition dupStringObject :: "robj \<Rightarrow> robj option" where
  "dupStringObject ob =
     (case ob of StrRaw s \<Rightarrow> createStringObject (sds_buf s) (sdslen s) | _ \<Rightarrow> None)"

definition createSetObject :: robj where
  "createSetObject = SetHt dictCreate"

definition createIntsetObject :: robj where
  "createIntsetObject = SetIntset intsetNew"

text \<open>The outer option is undefined behaviour, here a failed assertion; the inner is the code's error.\<close>

definition isObjectRepresentableAsLongLong :: "robj \<Rightarrow> int option option" where
  "isObjectRepresentableAsLongLong ob =
     (case ob of
        StrInt n \<Rightarrow> Some (Some n)
      | StrRaw s \<Rightarrow> do { t \<leftarrow> mem_read 0 (sdslen s) (sds_buf s); Some (string2ll t) }
      | _ \<Rightarrow> None)"

definition tryObjectEncoding :: "nat \<Rightarrow> robj \<Rightarrow> robj option" where
  "tryObjectEncoding refcount ob =
     (case ob of
        StrRaw s \<Rightarrow>
          if refcount > 1 then Some ob
          else do {
            t \<leftarrow> mem_read 0 (sdslen s) (sds_buf s);
            case string2l t of
              None \<Rightarrow> Some ob
            | Some value \<Rightarrow> Some (StrInt value) }
      | _ \<Rightarrow> Some ob)"

definition getDecodedObject :: "robj \<Rightarrow> robj option" where
  "getDecodedObject ob =
     (case ob of
        StrRaw s \<Rightarrow> Some ob
      | StrInt n \<Rightarrow> do { buf \<leftarrow> ll2string 32 n; createStringObject buf (length buf) }
      | _ \<Rightarrow> None)"

text \<open>The C string an object is compared as, and whether it is an sds.\<close>

definition compare_str :: "robj \<Rightarrow> (mem \<times> bool) option" where
  "compare_str ob =
     (case ob of
        StrRaw s \<Rightarrow> Some (sds_buf s, True)
      | StrInt n \<Rightarrow> do { buf \<leftarrow> ll2string 128 n; Some (buf @ [0], False) }
      | _ \<Rightarrow> None)"

definition compareStringObjects :: "bool \<Rightarrow> robj \<Rightarrow> robj \<Rightarrow> int option" where
  "compareStringObjects same_pointer a b =
     (if otype a \<noteq> REDIS_STRING \<or> otype b \<noteq> REDIS_STRING then None
      else if same_pointer then Some 0
      else case (a, b) of
        (StrRaw s, StrRaw t) \<Rightarrow> sdscmp s t
      | _ \<Rightarrow> do {
          (astr, asds) \<leftarrow> compare_str a;
          (bstr, bsds) \<leftarrow> compare_str b;
          strcmp astr bstr })"

definition equalStringObjects :: "bool \<Rightarrow> robj \<Rightarrow> robj \<Rightarrow> bool option" where
  "equalStringObjects same_pointer a b =
     (case (a, b) of
        (StrInt m, StrInt n) \<Rightarrow> Some (m = n)
      | _ \<Rightarrow> do { c \<leftarrow> compareStringObjects same_pointer a b; Some (c = 0) })"

definition stringObjectLen :: "robj \<Rightarrow> nat option" where
  "stringObjectLen ob =
     (case ob of
        StrRaw s \<Rightarrow> Some (sdslen s)
      | StrInt n \<Rightarrow> do { buf \<leftarrow> ll2string 32 n; Some (length buf) }
      | _ \<Rightarrow> None)"

definition getLongLongFromObject :: "robj option \<Rightarrow> int option option" where
  "getLongLongFromObject ob =
     (case ob of
        None \<Rightarrow> Some (Some 0)
      | Some (StrRaw s) \<Rightarrow> do {
          n \<leftarrow> strlen (sds_buf s);
          let (value, eptr, erange) = strtoll_end (take n (sds_buf s));
          c0 \<leftarrow> rd 0 (sds_buf s);
          ce \<leftarrow> rd eptr (sds_buf s);
          if isspace c0 \<or> ce \<noteq> 0 \<or> erange then Some None else Some (Some value) }
      | Some (StrInt n) \<Rightarrow> Some (Some n)
      | Some _ \<Rightarrow> None)"

definition strEncoding :: "robj \<Rightarrow> string" where
  "strEncoding ob =
     (case ob of
        StrRaw s \<Rightarrow> ''raw''
      | StrInt n \<Rightarrow> ''int''
      | SetHt d \<Rightarrow> ''hashtable''
      | SetIntset s \<Rightarrow> ''intset'')"

subsection \<open>Dictionary types\<close>

text \<open>
  The keys of the key space and of the expires are texts.  The elements of a set are string
  objects in the code, hashed and compared by their text, whatever their encoding; in the model
  a set's dictionary has the texts as its keys.
\<close>

definition dictSdsHash :: "32 word \<Rightarrow> byte list \<Rightarrow> nat" where
  "dictSdsHash seed key = unat (dictGenHashFunction seed key)"

definition dictSdsKeyCompare :: "byte list \<Rightarrow> byte list \<Rightarrow> bool" where
  "dictSdsKeyCompare key1 key2 =
     (let l1 = length key1; l2 = length key2 in if l1 \<noteq> l2 then False else memcmp key1 key2 = 0)"

definition sds_text :: "sds \<Rightarrow> byte list option" where
  "sds_text s = mem_read 0 (sdslen s) (sds_buf s)"

definition dictEncObjKeyCompare :: "robj \<Rightarrow> robj \<Rightarrow> bool option" where
  "dictEncObjKeyCompare o1 o2 =
     (case (o1, o2) of
        (StrInt m, StrInt n) \<Rightarrow> Some (m = n)
      | _ \<Rightarrow> do {
          o1 \<leftarrow> getDecodedObject o1;
          o2 \<leftarrow> getDecodedObject o2;
          case (o1, o2) of
            (StrRaw s, StrRaw t) \<Rightarrow> do { a \<leftarrow> sds_text s; b \<leftarrow> sds_text t; Some (dictSdsKeyCompare a b) }
          | _ \<Rightarrow> None })"

definition dictEncObjHash :: "32 word \<Rightarrow> robj \<Rightarrow> nat option" where
  "dictEncObjHash seed ob =
     (case ob of
        StrRaw s \<Rightarrow> do { a \<leftarrow> sds_text s; Some (dictSdsHash seed a) }
      | StrInt n \<Rightarrow> do { buf \<leftarrow> ll2string 32 n; Some (dictSdsHash seed buf) }
      | _ \<Rightarrow> None)"

definition dbDictType :: "32 word \<Rightarrow> byte list dictType" where
  "dbDictType seed = \<lparr>hashFunction = dictSdsHash seed, keyCompare = dictSdsKeyCompare\<rparr>"

definition keyptrDictType :: "32 word \<Rightarrow> byte list dictType" where
  "keyptrDictType seed = \<lparr>hashFunction = dictSdsHash seed, keyCompare = dictSdsKeyCompare\<rparr>"

definition setDictType :: "32 word \<Rightarrow> byte list dictType" where
  "setDictType seed = \<lparr>hashFunction = dictSdsHash seed, keyCompare = dictSdsKeyCompare\<rparr>"

definition htNeedsResize :: "('k, 'v) dict \<Rightarrow> bool" where
  "htNeedsResize d =
     (let size = ht_size (ht0 d) + ht_size (ht1 d); used = dictSize d
      in size \<noteq> 0 \<and> used \<noteq> 0 \<and> size > 4 \<and> used * 100 div size < 10)"

section \<open>What a client observes\<close>

datatype val = VStr "byte list" | VSet "byte list set"

fun obj_rep :: "32 word \<Rightarrow> robj \<Rightarrow> val \<Rightarrow> bool" where
  "obj_rep seed (StrRaw s) (VStr xs) \<longleftrightarrow> sds_rep s xs \<and> length xs \<le> 2 ^ 29"
| "obj_rep seed (StrInt n) (VStr xs) \<longleftrightarrow> in_sbytes 8 n \<and> n \<noteq> - (2 ^ 63) \<and> xs = dec_int n"
| "obj_rep seed (SetIntset s) (VSet S) \<longleftrightarrow>
     (\<exists>ns. intset_rep s ns \<and> - (2 ^ 63) \<notin> set ns \<and> S = dec_int ` set ns)"
| "obj_rep seed (SetHt d) (VSet S) \<longleftrightarrow> dict_set (setDictType seed) d S"
| "obj_rep seed _ _ \<longleftrightarrow> False"

text \<open>The text a client must not use: the code's printing of it is undefined.\<close>

abbreviation LLONG_MIN_text :: "byte list" where
  "LLONG_MIN_text \<equiv> dec_int (- (2 ^ 63))"

text \<open>The integer a text denotes for the commands with integer arguments.\<close>

definition parse_ll :: "byte list \<Rightarrow> int option" where
  "parse_ll xs =
     (let t = takeWhile (\<lambda>c. c \<noteq> 0) xs;
          neg = (t \<noteq> [] \<and> hd t = of_char (CHR ''-''));
          sg = (if t \<noteq> [] \<and> (hd t = of_char (CHR ''-'') \<or> hd t = of_char (CHR ''+'')) then 1 else 0);
          ds = drop sg t;
          v = (if neg then - int (dec_value ds) else int (dec_value ds))
      in if t = [] then Some 0
         else if ds \<noteq> [] \<and> list_all is_digit ds \<and> in_sbytes 8 v then Some v
         else None)"

subsection \<open>Lemmas\<close>

lemma sds_text_rep: "sds_rep s xs \<Longrightarrow> sds_text s = Some xs"
  by (auto simp: sds_text_def mem_ops elim!: sds_repE)

lemma sds_read_rep: "sds_rep s xs \<Longrightarrow> mem_read 0 (sdslen s) (sds_buf s) = Some xs"
  using sds_text_rep by (simp add: sds_text_def)

lemma ll2string_32:
  assumes "in_sbytes 8 n" "n \<noteq> - (2 ^ 63)" "21 \<le> len"
  shows "ll2string len n = Some (dec_int n)"
proof -
  have "(if n < 0 then c_llong (- n) else Some n) = Some \<bar>n\<bar>"
    using assms(1,2) by (auto simp: c_llong_def in_sbytes_def)
  moreover have "ll_digits (nat \<bar>n\<bar>) [] = Some (dec (nat \<bar>n\<bar>))"
    using length_dec_int [OF assms(1)]
    by (intro ll_digits_dec [of "[]", simplified]) (auto simp: dec_int_def split: if_splits)
  ultimately show ?thesis
    using assms(3) length_dec_int [OF assms(1)] by (auto simp: ll2string_def dec_int_def Let_def)
qed

lemma createStringObject_ok:
  "\<lbrakk>n \<le> length t; n \<le> 2 ^ 29\<rbrakk> \<Longrightarrow> ok (createStringObject t n) (\<lambda>ob. obj_rep seed ob (VStr (take n t)))"
  using sdsnewlen_rep [of n t] by (auto simp: createStringObject_def)

lemma createFromLongLong_ok:
  "\<lbrakk>in_sbytes 8 n; n \<noteq> - (2 ^ 63)\<rbrakk> \<Longrightarrow>
   createStringObjectFromLongLong n = Some (StrInt n) \<and> obj_rep seed (StrInt n) (VStr (dec_int n))"
  by (auto simp: createStringObjectFromLongLong_def in_sbytes_def)

lemma obj_rep_type: "obj_rep seed ob v \<Longrightarrow> otype ob = (case v of VStr _ \<Rightarrow> REDIS_STRING | VSet _ \<Rightarrow> REDIS_SET)"
  by (cases ob; cases v) auto

lemma obj_rep_StrE:
  assumes "obj_rep seed ob (VStr xs)"
  obtains s where "ob = StrRaw s" "sds_rep s xs" "length xs \<le> 2 ^ 29"
    | n where "ob = StrInt n" "in_sbytes 8 n" "n \<noteq> - (2 ^ 63)" "xs = dec_int n"
  using assms by (cases ob) auto

lemma tryObjectEncoding_ok:
  assumes "sds_rep s xs" "length xs \<le> 2 ^ 29" "xs \<noteq> LLONG_MIN_text"
  shows "ok (tryObjectEncoding rc (StrRaw s)) (\<lambda>ob. obj_rep seed ob (VStr xs))"
  using assms sds_read_rep [OF assms(1)]
  by (auto simp: tryObjectEncoding_def string2l_eq string2ll_spec split: option.splits)

lemma getDecodedObject_ok:
  "obj_rep seed ob (VStr xs) \<Longrightarrow> ok (getDecodedObject ob) (\<lambda>r. \<exists>s. r = StrRaw s \<and> sds_rep s xs \<and> length xs \<le> 2 ^ 29)"
proof (erule obj_rep_StrE, goal_cases)
  case (2 n)
  then show ?case
    using length_dec_int [of n] sdsnewlen_rep [of "length xs" xs]
    by (auto simp: getDecodedObject_def createStringObject_def ll2string_32)
qed (simp add: getDecodedObject_def)

lemma stringObjectLen_ok: "obj_rep seed ob (VStr xs) \<Longrightarrow> stringObjectLen ob = Some (length xs)"
  by (erule obj_rep_StrE) (auto simp: stringObjectLen_def ll2string_32 sdslen_correct)

lemma isObjectRepresentable_ok:
  "obj_rep seed ob (VStr xs) \<Longrightarrow> isObjectRepresentableAsLongLong ob = Some (string2ll xs)"
  by (erule obj_rep_StrE)
    (auto simp: isObjectRepresentableAsLongLong_def sds_read_rep string2ll_dec_int)

lemma dictSdsKeyCompare_eq: "dictSdsKeyCompare = (=)"
  by (intro ext) (auto simp: dictSdsKeyCompare_def memcmp_zero)

lemma dictTypes_keyCompare [simp]:
  "keyCompare (dbDictType seed) = (=)" "keyCompare (keyptrDictType seed) = (=)"
  "keyCompare (setDictType seed) = (=)"
  by (simp_all add: dbDictType_def keyptrDictType_def setDictType_def dictSdsKeyCompare_eq)

lemma dictEncObj_ok:
  assumes "obj_rep seed a (VStr xs)" "obj_rep seed b (VStr ys)"
  shows "dictEncObjKeyCompare a b = Some (xs = ys)" "dictEncObjHash seed a = Some (dictSdsHash seed xs)"
proof -
  obtain s t where "getDecodedObject a = Some (StrRaw s)" "sds_text s = Some xs"
    "getDecodedObject b = Some (StrRaw t)" "sds_text t = Some ys"
    using getDecodedObject_ok [OF assms(1)] getDecodedObject_ok [OF assms(2)]
    by (auto simp: ok_iff dest!: sds_text_rep)
  moreover have "m = n \<longleftrightarrow> dec_int m = dec_int n" for m n using dec_int_inj by auto
  ultimately show "dictEncObjKeyCompare a b = Some (xs = ys)"
    using assms by (cases a; cases b) (auto simp: dictEncObjKeyCompare_def dictSdsKeyCompare_eq)
  show "dictEncObjHash seed a = Some (dictSdsHash seed xs)"
    using assms(1) by (rule obj_rep_StrE) (auto simp: dictEncObjHash_def sds_text_rep ll2string_32)
qed

subsection \<open>Integer arguments\<close>

lemma space_digit: "isspace c \<Longrightarrow> \<not> is_digit c \<and> c \<noteq> of_char (CHR ''-'') \<and> c \<noteq> of_char (CHR ''+'')"
  by (auto simp: isspace_def is_digit_unat word_le_nat_alt)

lemma takeWhile_isspace_Nil: "xs = [] \<or> \<not> isspace (hd xs) \<Longrightarrow> takeWhile isspace xs = []"
  by (cases xs) auto

lemma parse_ll_dec_int:
  assumes "in_sbytes 8 n"
  shows "parse_ll (dec_int n) = Some n"
proof -
  have nz: "c \<noteq> 0" if "is_digit c" for c :: byte using that by (auto simp: is_digit_def)
  have d0: "\<forall>c \<in> set (dec m). c \<noteq> 0" for m using nz dec_digits [of m] by blast
  have t: "takeWhile (\<lambda>c. c \<noteq> 0) (dec_int n) = dec_int n" using d0 by (simp add: dec_int_def takeWhile_eq_all_conv)
  have sg: "hd (dec m) \<noteq> of_char (CHR ''-'')" "hd (dec m) \<noteq> of_char (CHR ''+'')" for m
    using dec_digits [of m] dec_ne [of m] by (auto simp: is_digit_def dest!: bspec [OF _ hd_in_set])
  show ?thesis
    using assms sg dec_ne unfolding parse_ll_def t Let_def by (auto simp: dec_int_def dec_digits list_all_iff)
qed

lemma strtoll_end_parse:
  assumes "t = takeWhile (\<lambda>c. c \<noteq> 0) xs" "t = [] \<or> \<not> isspace (hd t)"
  shows "strtoll_end t = (v, e, r) \<Longrightarrow> parse_ll xs = (if e = length t \<and> \<not> r then Some v else None)"
proof -
  define sg :: nat where
    "sg = (if t \<noteq> [] \<and> (hd t = of_char (CHR ''-'') \<or> hd t = of_char (CHR ''+'')) then 1 else 0)"
  define ds where "ds = takeWhile is_digit (drop sg t)"
  have ws: "takeWhile isspace t = []" using takeWhile_isspace_Nil assms(2) by blast
  have all: "list_all is_digit (drop sg t) \<longleftrightarrow> ds = drop sg t"
    by (auto simp: ds_def list_all_iff takeWhile_eq_all_conv)
  have len: "sg + length ds = length t \<longleftrightarrow> ds = drop sg t" if "t \<noteq> []"
  proof -
    have le: "sg \<le> length t" using that by (cases t) (auto simp: sg_def)
    have "length (takeWhile is_digit u) = length u \<longleftrightarrow> takeWhile is_digit u = u" for u
      by (metis takeWhile_eq_take take_all order_refl)
    then have "length ds = length t - sg \<longleftrightarrow> ds = drop sg t" by (metis ds_def length_drop)
    then show ?thesis using le by linarith
  qed
  define w where "w = (if t \<noteq> [] \<and> hd t = of_char (CHR ''-'') then - int (dec_value ds) else int (dec_value ds))"
  assume run: "strtoll_end t = (v, e, r)"
  have st: "strtoll_end t = (if ds = [] then (0, 0, False)
     else if w < - (2 ^ 63) then (- (2 ^ 63), sg + length ds, True)
     else if w > 2 ^ 63 - 1 then (2 ^ 63 - 1, sg + length ds, True) else (w, sg + length ds, False))"
    unfolding strtoll_end_def ws Let_def list.size drop_0 add_0 sg_def [symmetric] ds_def [symmetric]
      w_def [symmetric] by (rule refl)
  show ?thesis
  proof (cases "t = []")
    case True
    then show ?thesis using run assms(1) by (auto simp: strtoll_end_def parse_ll_def)
  next
    case False
    have p: "parse_ll xs = (if ds = drop sg t \<and> ds \<noteq> [] \<and> in_sbytes 8 w then Some w else None)"
      using False unfolding parse_ll_def assms(1) [symmetric] Let_def sg_def [symmetric] all w_def by auto
    show ?thesis
      using run unfolding st p using len [OF False] False
      by (auto simp: in_sbytes_def split: if_splits)
  qed
qed

lemma strtoll_end_le: "strtoll_end t = (v, e, r) \<Longrightarrow> e \<le> length t"
proof -
  have *: "length (takeWhile is_digit (drop k t)) \<le> length t - k" for k
    by (metis length_drop length_takeWhile_le)
  have **: "length (takeWhile isspace t) \<le> length t" by (rule length_takeWhile_le)
  define ws sg where "ws = length (takeWhile isspace t)" and
   "sg = (if drop ws t \<noteq> [] \<and> (hd (drop ws t) = of_char (CHR ''-'') \<or> hd (drop ws t) = of_char (CHR ''+'')) then 1 else 0 :: nat)"
  have "ws + sg \<le> length t" using ** by (auto simp: ws_def sg_def)
  then have "ws + sg + length (takeWhile is_digit (drop sg (drop ws t))) \<le> length t"
    using * [of "sg + ws"] by (simp add: add.commute)
  then show "strtoll_end t = (v, e, r) \<Longrightarrow> e \<le> length t"
    unfolding strtoll_end_def Let_def ws_def [symmetric] sg_def [symmetric] by (auto split: if_splits)
qed

lemma getLongLongFromObject_raw:
  assumes "sds_rep s xs"
  shows "getLongLongFromObject (Some (StrRaw s)) = Some (parse_ll xs)"
proof -
  define t where "t = takeWhile (\<lambda>c. c \<noteq> 0) xs"
  obtain rest where s: "sds_buf s = xs @ 0 # rest" using assms by (rule sds_repE)
  obtain rest' where b: "sds_buf s = t @ 0 # rest'"
  proof (cases "0 \<in> set xs")
    case True
    have "dropWhile (\<lambda>c. c \<noteq> 0) xs \<noteq> []" using True by (simp add: dropWhile_eq_Nil_conv)
    then obtain d ds where d: "dropWhile (\<lambda>c. c \<noteq> 0) xs = d # ds" by (cases "dropWhile (\<lambda>c. c \<noteq> 0) xs") auto
    then have "d = 0" using hd_dropWhile [of "\<lambda>c. c \<noteq> 0" xs] by auto
    then have "xs = t @ 0 # ds" using d by (metis t_def takeWhile_dropWhile_id)
    then show thesis using that s by auto
  next
    case False
    then have "t = xs" by (auto simp: t_def takeWhile_eq_all_conv)
    then show thesis using that s by auto
  qed
  have nt: "0 \<notin> set t" by (auto simp: t_def dest: set_takeWhileD)
  have sl: "strlen (sds_buf s) = Some (length t)" using b strlen_at [OF nt] by simp
  obtain v e r where st: "strtoll_end t = (v, e, r)" by (cases "strtoll_end t")
  have e: "e \<le> length t" using strtoll_end_le [OF st] .
  have ce: "rd e (sds_buf s) = Some (if e = length t then 0 else t ! e)"
    using e b by (auto simp: rd_def nth_append)
  have ne: "t ! e \<noteq> 0" if "e \<noteq> length t" using that e nt by (metis le_neq_implies_less nth_mem)
  have c0: "rd 0 (sds_buf s) = Some (if t = [] then 0 else hd t)"
    using b by (auto simp: rd_def nth_append hd_conv_nth)
  have run: "getLongLongFromObject (Some (StrRaw s)) =
    Some (if isspace (if t = [] then 0 else hd t) \<or> e \<noteq> length t \<or> r then None else Some v)"
    using sl st c0 ce ne b by (auto simp: getLongLongFromObject_def)
  show ?thesis
  proof (cases "t = [] \<or> \<not> isspace (hd t)")
    case True
    then have "\<not> isspace (if t = [] then 0 else hd t)" by (auto simp: isspace_def)
    then show ?thesis unfolding run using strtoll_end_parse [OF t_def True st] by auto
  next
    case False
    then have "parse_ll xs = None"
      using space_digit [of "hd t"] by (cases t) (auto simp: parse_ll_def t_def [symmetric] Let_def)
    then show ?thesis unfolding run using False by simp
  qed
qed

lemma getLongLongFromObject_ok:
  "obj_rep seed ob (VStr xs) \<Longrightarrow> getLongLongFromObject (Some ob) = Some (parse_ll xs)"
  by (erule obj_rep_StrE) (simp_all add: getLongLongFromObject_raw parse_ll_dec_int, simp add: getLongLongFromObject_def)

subsection \<open>Comparison\<close>

lemma strcmp_texts:
  "\<lbrakk>0 \<notin> set a; 0 \<notin> set b\<rbrakk> \<Longrightarrow>
   \<exists>c. strcmp (a @ 0 # r) (b @ 0 # q) = Some c \<and> (c = 0 \<longleftrightarrow> a = b) \<and> (c < 0 \<longleftrightarrow> bytes_less a b)"
proof (induction a arbitrary: b)
  case Nil
  then show ?case by (cases b) (auto simp: word_less_nat_alt unat_gt_0)
next
  case (Cons x a)
  have gt: "\<not> x < 0" "x \<noteq> 0" "0 < x" using Cons.prems(1) by (auto simp: word_less_nat_alt unat_gt_0)
  show ?case
  proof (cases b)
    case Nil
    then show ?thesis using gt by simp
  next
    case b: (Cons y b')
    then show ?thesis using Cons gt by (auto simp: neq_iff)
  qed
qed

lemma no_nul_dec_int: "0 \<notin> set (dec_int n)"
proof -
  have "0 \<notin> set (dec m)" for m using dec_digits [of m] by (auto simp: is_digit_def)
  then show ?thesis by (auto simp: dec_int_def)
qed

text \<open>
  The text that takes part in a comparison: all of it when the encodings are the same, otherwise
  the C string, up to the first null byte.
\<close>

definition compared :: "robj \<Rightarrow> robj \<Rightarrow> byte list \<Rightarrow> byte list" where
  "compared a b xs = (if strEncoding a = strEncoding b then xs else takeWhile (\<lambda>x. x \<noteq> 0) xs)"

lemma takeWhile_nul: "\<exists>r'. xs @ 0 # r = takeWhile (\<lambda>x. x \<noteq> 0) xs @ (0 :: byte) # r'"
  by (induction xs) auto

lemma takeWhile_no_nul: "0 \<notin> set xs \<Longrightarrow> takeWhile (\<lambda>x. x \<noteq> 0) xs = xs"
  by (induction xs) auto

text \<open>
  C28.  \<open>compareStringObjects\<close> orders two string objects by their texts and \<open>equalStringObjects\<close> decides
  whether the texts are equal, whatever the encodings and whatever the bytes of the texts: two objects
  of the same encoding are compared by their whole texts, mixed encodings by the texts before their
  first null byte.
\<close>
theorem compareStringObjects_correct:
  assumes "obj_rep seed a (VStr xs)" "obj_rep seed b (VStr ys)"
  shows "(\<exists>c. compareStringObjects False a b = Some c \<and> (c = 0 \<longleftrightarrow> compared a b xs = compared a b ys) \<and>
      (c < 0 \<longleftrightarrow> bytes_less (compared a b xs) (compared a b ys))) \<and>
    equalStringObjects False a b = Some (compared a b xs = compared a b ys)"
proof -
  have t: "otype a = REDIS_STRING" "otype b = REDIS_STRING"
    using assms(1,2) by (simp_all add: obj_rep_type)
  have str: "\<exists>r q. compare_str o' = Some (takeWhile (\<lambda>x. x \<noteq> 0) t @ 0 # r, q)" if "obj_rep seed o' (VStr t)" for o' t
  proof -
    have "\<exists>r q. compare_str o' = Some (t @ 0 # r, q)"
      using that by (rule obj_rep_StrE) (auto simp: compare_str_def ll2string_32 elim!: sds_repE)
    then show ?thesis using takeWhile_nul [of t] by metis
  qed
  have c: "\<exists>c. compareStringObjects False a b = Some c \<and> (c = 0 \<longleftrightarrow> compared a b xs = compared a b ys) \<and>
      (c < 0 \<longleftrightarrow> bytes_less (compared a b xs) (compared a b ys))"
  proof (cases "\<exists>s t. a = StrRaw s \<and> b = StrRaw t")
    case True
    then show ?thesis using assms(1,2) sdscmp_correct
      by (auto simp: compareStringObjects_def compared_def strEncoding_def)
  next
    case False
    then have "compared a b xs = takeWhile (\<lambda>x. x \<noteq> 0) xs" "compared a b ys = takeWhile (\<lambda>x. x \<noteq> 0) ys"
      using assms no_nul_dec_int by (auto elim!: obj_rep_StrE simp: strEncoding_def compared_def takeWhile_no_nul)
    moreover obtain r q r' q' where "compare_str a = Some (takeWhile (\<lambda>x. x \<noteq> 0) xs @ 0 # r, q)"
      "compare_str b = Some (takeWhile (\<lambda>x. x \<noteq> 0) ys @ 0 # r', q')"
      using str [OF assms(1)] str [OF assms(2)] by blast
    moreover have "0 \<notin> set (takeWhile (\<lambda>x. x \<noteq> 0) zs)" for zs :: "byte list" by (auto dest: set_takeWhileD)
    ultimately show ?thesis
      using False t strcmp_texts [of "takeWhile (\<lambda>x. x \<noteq> 0) xs" "takeWhile (\<lambda>x. x \<noteq> 0) ys" r r']
      by (auto simp: compareStringObjects_def split: robj.splits)
  qed
  have "m = n \<longleftrightarrow> dec_int m = dec_int n" for m n using dec_int_inj by auto
  then have "equalStringObjects False a b = Some (compared a b xs = compared a b ys)"
    using c assms(1,2) by (cases a; cases b) (auto simp: equalStringObjects_def compared_def strEncoding_def)
  with c show ?thesis ..
qed

text \<open>
  C38.  A raw text that begins with the text of a number and a null byte counts as equal to the
  integer-encoded number: the comparison of mixed encodings stops at the null byte.
\<close>
theorem equalStringObjects_stops_at_nul:
  assumes "in_sbytes 8 n" "n \<noteq> - (2 ^ 63)" "sds_rep s (dec_int n @ 0 # junk)"
  shows "equalStringObjects False (StrRaw s) (StrInt n) = Some True"
proof -
  obtain r where r: "sds_buf s = (dec_int n @ 0 # junk) @ 0 # r" using assms(3) by (rule sds_repE)
  then have "compareStringObjects False (StrRaw s) (StrInt n) = Some 0"
    using strcmp_texts [of "dec_int n" "dec_int n" "junk @ 0 # r" "[]"] no_nul_dec_int [of n] assms(1,2)
    by (simp add: compareStringObjects_def compare_str_def ll2string_32)
  then show ?thesis by (simp add: equalStringObjects_def)
qed

definition nul_sample :: sds where
  "nul_sample = \<lparr>sds_len = 4, sds_free = 0, sds_buf = [49, 50, 0, 120, 0]\<rparr>"

lemma nul_sample_rep: "sds_rep nul_sample (dec_int 12 @ 0 # [120])"
  by (auto simp: nul_sample_def sds_rep_def dec_int_def dec.simps digit_char_def)

theorem equalStringObjects_stops_at_nul_witness:
  "equalStringObjects False (StrRaw nul_sample) (StrInt 12) = Some True"
  by (rule equalStringObjects_stops_at_nul [OF _ _ nul_sample_rep]) (simp_all add: in_sbytes_def)

theorem compareStringObjects_correct_witness:
  "(\<exists>c. compareStringObjects False (StrRaw nul_sample) (StrInt 7) = Some c \<and> (c = 0 \<longleftrightarrow> dec_int 12 = dec_int 7) \<and>
     (c < 0 \<longleftrightarrow> bytes_less (dec_int 12) (dec_int 7))) \<and>
   equalStringObjects False (StrRaw nul_sample) (StrInt 7) = Some (dec_int 12 = dec_int 7)"
proof -
  have "compared (StrRaw nul_sample) (StrInt 7) (dec_int 12 @ 0 # [120]) = dec_int 12"
    "compared (StrRaw nul_sample) (StrInt 7) (dec_int 7) = dec_int 7"
    by (simp_all add: compared_def strEncoding_def dec_int_def dec.simps digit_char_def)
  moreover have "length (dec 12) \<le> 536870910" by (simp add: dec.simps)
  ultimately show ?thesis
    using compareStringObjects_correct [of 0 "StrRaw nul_sample" "dec_int 12 @ 0 # [120]" "StrInt 7" "dec_int 7"] nul_sample_rep
    by (simp add: in_sbytes_def dec_int_def)
qed

end
