(* ===== verification/Db.thy ===== *)
theory Db
  imports Object DictIter Glob
begin

text \<open>
  \<open>db.c\<close>: the key space of one database and the expiry of its keys.  The state has the dictionary
  of the values, the dictionary of the expire times and the part of the server's and the client's
  state that the commands write: the replies, the counter \<open>dirty\<close>, the statistics, the keys
  signalled to watching clients and the deletions propagated for expired keys.  What a command
  reads of the server and of the clock is the environment; the clock does not advance during a
  command.  A key is the text of its sds.

  The specification is the same record with maps in place of the dictionaries; \<open>db_rel\<close> relates
  the two.  A lookup of a dictionary may move its entries, so every operation returns the state.
  A failed assertion (\<open>redisAssert\<close>) is \<open>None\<close>.
\<close>

section \<open>The state\<close>

record env =
  e_seed :: "32 word"        \<comment> \<open>\<open>dict_hash_function_seed\<close>\<close>
  e_resize :: bool           \<comment> \<open>\<open>dict_can_resize\<close>\<close>
  e_now :: int               \<comment> \<open>\<open>mstime()\<close>\<close>
  e_loading :: bool          \<comment> \<open>\<open>server.loading\<close>\<close>
  e_slave :: bool            \<comment> \<open>\<open>server.masterhost != NULL\<close>\<close>
  e_set_max :: nat           \<comment> \<open>\<open>server.set_max_intset_entries\<close>\<close>
  e_argrefs :: nat           \<comment> \<open>the reference count of an argument of the command\<close>
  e_valrefs :: "byte list \<Rightarrow> nat" \<comment> \<open>the reference count of the value of a key\<close>

datatype reply =
    Status string
  | Error string             \<comment> \<open>with the code \<open>ERR\<close>\<close>
  | CodedError string        \<comment> \<open>with a code of its own\<close>
  | Integer int
  | Bulk "byte list"
  | NullBulk
  | MultiBulk int
  | Pending                  \<comment> \<open>a multi bulk length to be filled in\<close>

text \<open>What is signalled to the clients watching keys: a key, or that the database was flushed.\<close>

datatype touch = TouchKey "byte list" | TouchFlush

record server =
  out :: "reply list"
  dirty :: int
  stat_hits :: int
  stat_misses :: int
  stat_expired :: int
  touched :: "touch list"
  propagated :: "byte list list"
  rewritten :: "byte list list option" \<comment> \<open>the command vector that is propagated instead\<close>

record ('d, 'x) store =
  st_keys :: 'd
  st_expires :: 'x
  st_srv :: server

type_synonym db = "((byte list, robj) dict, (byte list, int) dict) store"
type_synonym adb = "(byte list \<rightharpoonup> val, byte list \<rightharpoonup> int) store"

definition on_srv :: "(server \<Rightarrow> server) \<Rightarrow> ('d, 'x) store \<Rightarrow> ('d, 'x) store" where
  "on_srv f st = st\<lparr>st_srv := f (st_srv st)\<rparr>"

definition addReply :: "reply \<Rightarrow> ('d, 'x) store \<Rightarrow> ('d, 'x) store" where
  "addReply r = on_srv (\<lambda>s. s\<lparr>out := out s @ [r]\<rparr>)"

definition addDirty :: "int \<Rightarrow> ('d, 'x) store \<Rightarrow> ('d, 'x) store" where
  "addDirty n = on_srv (\<lambda>s. s\<lparr>dirty := dirty s + n\<rparr>)"

definition signalModifiedKey :: "byte list \<Rightarrow> ('d, 'x) store \<Rightarrow> ('d, 'x) store" where
  "signalModifiedKey key = on_srv (\<lambda>s. s\<lparr>touched := touched s @ [TouchKey key]\<rparr>)"

definition signalFlushedDb :: "('d, 'x) store \<Rightarrow> ('d, 'x) store" where
  "signalFlushedDb = on_srv (\<lambda>s. s\<lparr>touched := touched s @ [TouchFlush]\<rparr>)"

definition propagateExpire :: "byte list \<Rightarrow> ('d, 'x) store \<Rightarrow> ('d, 'x) store" where
  "propagateExpire key = on_srv (\<lambda>s. s\<lparr>propagated := propagated s @ [key]\<rparr>)"

definition rewriteClientCommandVector :: "byte list list \<Rightarrow> ('d, 'x) store \<Rightarrow> ('d, 'x) store" where
  "rewriteClientCommandVector v = on_srv (\<lambda>s. s\<lparr>rewritten := Some v\<rparr>)"

abbreviation shared_ok :: reply where "shared_ok \<equiv> Status ''OK''"
abbreviation shared_czero :: reply where "shared_czero \<equiv> Integer 0"
abbreviation shared_cone :: reply where "shared_cone \<equiv> Integer 1"
abbreviation shared_emptybulk :: reply where "shared_emptybulk \<equiv> Bulk []"
abbreviation shared_nullbulk :: reply where "shared_nullbulk \<equiv> NullBulk"
abbreviation shared_emptymultibulk :: reply where "shared_emptymultibulk \<equiv> MultiBulk 0"
abbreviation shared_wrongtypeerr :: reply where
  "shared_wrongtypeerr \<equiv> Error ''Operation against a key holding the wrong kind of value''"
abbreviation shared_nokeyerr :: reply where "shared_nokeyerr \<equiv> Error ''no such key''"
abbreviation shared_sameobjecterr :: reply where
  "shared_sameobjecterr \<equiv> Error ''source and destination objects are the same''"
abbreviation shared_syntaxerr :: reply where "shared_syntaxerr \<equiv> Error ''syntax error''"

section \<open>The code\<close>

subsection \<open>Lookup, addition and deletion of keys\<close>

definition lookupKey :: "env \<Rightarrow> db \<Rightarrow> byte list \<Rightarrow> (db \<times> robj option) option" where
  "lookupKey e st key = do {
     (d, de) \<leftarrow> dictFind (dbDictType (e_seed e)) (st_keys st) key;
     let st = st\<lparr>st_keys := d\<rparr>;
     case de of
       Some de \<Rightarrow> do { kv \<leftarrow> dictGetEntry d de; Some (st, Some (snd kv)) }
     | None \<Rightarrow> Some (st, None) }"

definition getExpire :: "env \<Rightarrow> db \<Rightarrow> byte list \<Rightarrow> (db \<times> int) option" where
  "getExpire e st key =
     (if dictSize (st_expires st) = 0 then Some (st, - 1)
      else do {
        (x, de) \<leftarrow> dictFind (keyptrDictType (e_seed e)) (st_expires st) key;
        case de of
          None \<Rightarrow> Some (st\<lparr>st_expires := x\<rparr>, - 1)
        | Some de \<Rightarrow> do {
            (d, found) \<leftarrow> dictFind (dbDictType (e_seed e)) (st_keys st) key;
            if found = None then None
            else do {
              kv \<leftarrow> dictGetEntry x de;
              Some (st\<lparr>st_expires := x, st_keys := d\<rparr>, snd kv) } } })"

definition dbDelete :: "env \<Rightarrow> db \<Rightarrow> byte list \<Rightarrow> (db \<times> bool) option" where
  "dbDelete e st key = do {
     x \<leftarrow> (if dictSize (st_expires st) > 0
          then do { (x, b) \<leftarrow> dictDelete (keyptrDictType (e_seed e)) (st_expires st) key; Some x }
          else Some (st_expires st));
     (d, deleted) \<leftarrow> dictDelete (dbDictType (e_seed e)) (st_keys st) key;
     Some (st\<lparr>st_expires := x, st_keys := d\<rparr>, deleted) }"

definition expireIfNeeded :: "env \<Rightarrow> db \<Rightarrow> byte list \<Rightarrow> (db \<times> bool) option" where
  "expireIfNeeded e st key = do {
     (st, when) \<leftarrow> getExpire e st key;
     if when < 0 then Some (st, False)
     else if e_loading e then Some (st, False)
     else if e_slave e then Some (st, e_now e > when)
     else if e_now e \<le> when then Some (st, False)
     else do {
       let st = on_srv (\<lambda>s. s\<lparr>stat_expired := stat_expired s + 1\<rparr>) st;
       let st = propagateExpire key st;
       dbDelete e st key } }"

definition lookupKeyRead :: "env \<Rightarrow> db \<Rightarrow> byte list \<Rightarrow> (db \<times> robj option) option" where
  "lookupKeyRead e st key = do {
     (st, b) \<leftarrow> expireIfNeeded e st key;
     (st, val) \<leftarrow> lookupKey e st key;
     if val = None then Some (on_srv (\<lambda>s. s\<lparr>stat_misses := stat_misses s + 1\<rparr>) st, val)
     else Some (on_srv (\<lambda>s. s\<lparr>stat_hits := stat_hits s + 1\<rparr>) st, val) }"

definition lookupKeyWrite :: "env \<Rightarrow> db \<Rightarrow> byte list \<Rightarrow> (db \<times> robj option) option" where
  "lookupKeyWrite e st key = do {
     (st, b) \<leftarrow> expireIfNeeded e st key;
     lookupKey e st key }"

definition lookupKeyReadOrReply :: "env \<Rightarrow> db \<Rightarrow> byte list \<Rightarrow> reply \<Rightarrow> (db \<times> robj option) option" where
  "lookupKeyReadOrReply e st key reply = do {
     (st, ob) \<leftarrow> lookupKeyRead e st key;
     Some (if ob = None then addReply reply st else st, ob) }"

definition lookupKeyWriteOrReply :: "env \<Rightarrow> db \<Rightarrow> byte list \<Rightarrow> reply \<Rightarrow> (db \<times> robj option) option" where
  "lookupKeyWriteOrReply e st key reply = do {
     (st, ob) \<leftarrow> lookupKeyWrite e st key;
     Some (if ob = None then addReply reply st else st, ob) }"

definition dbAdd :: "env \<Rightarrow> db \<Rightarrow> byte list \<Rightarrow> robj \<Rightarrow> db option" where
  "dbAdd e st key val = do {
     (d, added) \<leftarrow> dictAdd (dbDictType (e_seed e)) (e_resize e) (st_keys st) key val;
     if added then Some (st\<lparr>st_keys := d\<rparr>) else None }"

definition dbOverwrite :: "env \<Rightarrow> db \<Rightarrow> byte list \<Rightarrow> robj \<Rightarrow> db option" where
  "dbOverwrite e st key val = do {
     (d, de) \<leftarrow> dictFind (dbDictType (e_seed e)) (st_keys st) key;
     if de = None then None
     else do {
       (d, b) \<leftarrow> dictReplace (dbDictType (e_seed e)) (e_resize e) d key val;
       Some (st\<lparr>st_keys := d\<rparr>) } }"

definition dbExists :: "env \<Rightarrow> db \<Rightarrow> byte list \<Rightarrow> (db \<times> bool) option" where
  "dbExists e st key = do {
     (d, de) \<leftarrow> dictFind (dbDictType (e_seed e)) (st_keys st) key;
     Some (st\<lparr>st_keys := d\<rparr>, de \<noteq> None) }"

subsection \<open>Expire times\<close>

definition removeExpire :: "env \<Rightarrow> db \<Rightarrow> byte list \<Rightarrow> (db \<times> bool) option" where
  "removeExpire e st key = do {
     (d, de) \<leftarrow> dictFind (dbDictType (e_seed e)) (st_keys st) key;
     if de = None then None
     else do {
       (x, deleted) \<leftarrow> dictDelete (keyptrDictType (e_seed e)) (st_expires st) key;
       Some (st\<lparr>st_keys := d, st_expires := x\<rparr>, deleted) } }"

definition setExpire :: "env \<Rightarrow> db \<Rightarrow> byte list \<Rightarrow> int \<Rightarrow> db option" where
  "setExpire e st key when = do {
     (d, kde) \<leftarrow> dictFind (dbDictType (e_seed e)) (st_keys st) key;
     case kde of
       None \<Rightarrow> None
     | Some kde \<Rightarrow> do {
         kv \<leftarrow> dictGetEntry d kde;
         (x, de) \<leftarrow> dictReplaceRaw (keyptrDictType (e_seed e)) (e_resize e) (st_expires st) (fst kv) 0;
         case de of
           None \<Rightarrow> None
         | Some de \<Rightarrow> do {
             x \<leftarrow> dictSetVal x de when;
             Some (st\<lparr>st_keys := d, st_expires := x\<rparr>) } } }"

definition setKey :: "env \<Rightarrow> db \<Rightarrow> byte list \<Rightarrow> robj \<Rightarrow> db option" where
  "setKey e st key val = do {
     (st, ob) \<leftarrow> lookupKeyWrite e st key;
     st \<leftarrow> (if ob = None then dbAdd e st key val else dbOverwrite e st key val);
     (st, b) \<leftarrow> removeExpire e st key;
     Some (signalModifiedKey key st) }"

subsection \<open>Updates through a pointer to a value\<close>

text \<open>
  A command that holds the pointer to the value of a key changes the object in place.  Here the
  object is a value, so the change is stored back where the dictionary has it; the tables are not
  otherwise touched.
\<close>

definition ht_poke :: "('k, 'v) dictht \<Rightarrow> 'k \<Rightarrow> 'v \<Rightarrow> ('k, 'v) dictht" where
  "ht_poke ht k v = ht\<lparr>table := map (map (\<lambda>(k', w). (k', if k' = k then v else w))) (table ht)\<rparr>"

definition dict_poke :: "('k, 'v) dict \<Rightarrow> 'k \<Rightarrow> 'v \<Rightarrow> ('k, 'v) dict" where
  "dict_poke d k v = d\<lparr>ht0 := ht_poke (ht0 d) k v, ht1 := ht_poke (ht1 d) k v\<rparr>"

definition storeObject :: "byte list \<Rightarrow> robj \<Rightarrow> db \<Rightarrow> db" where
  "storeObject key ob st = st\<lparr>st_keys := dict_poke (st_keys st) key ob\<rparr>"

text \<open>The object a pointer obtained by a lookup of \<open>key\<close> points to.\<close>

definition objectAt :: "db \<Rightarrow> byte list \<Rightarrow> robj option" where
  "objectAt st key = dict_map (st_keys st) key"

section \<open>The specification\<close>

definition db_rel :: "env \<Rightarrow> db \<Rightarrow> adb \<Rightarrow> bool" where
  "db_rel e st a \<longleftrightarrow>
     dict_inv (dbDictType (e_seed e)) (st_keys st) \<and>
     dict_inv (keyptrDictType (e_seed e)) (st_expires st) \<and>
     (\<forall>k. rel_option (obj_rep (e_seed e)) (dict_map (st_keys st) k) (st_keys a k)) \<and>
     dict_map (st_expires st) = st_expires a \<and>
     dom (st_expires a) \<subseteq> dom (st_keys a) \<and>
     st_srv st = st_srv a"

text \<open>A database as \<open>initServer\<close> creates it.\<close>

definition empty_srv :: server where
  "empty_srv = \<lparr>out = [], dirty = 0, stat_hits = 0, stat_misses = 0, stat_expired = 0,
     touched = [], propagated = [], rewritten = None\<rparr>"

definition empty_db :: db where
  "empty_db = \<lparr>st_keys = dictCreate, st_expires = dictCreate, st_srv = empty_srv\<rparr>"

definition a_empty :: adb where
  "a_empty = \<lparr>st_keys = Map.empty, st_expires = Map.empty, st_srv = empty_srv\<rparr>"

lemma empty_db_rel: "db_rel e empty_db a_empty"
  by (simp add: db_rel_def empty_db_def a_empty_def dict_map_create dict_inv_create)

text \<open>What the operations do to the maps.\<close>

definition a_put :: "byte list \<Rightarrow> val \<Rightarrow> adb \<Rightarrow> adb" where
  "a_put k v a = a\<lparr>st_keys := (st_keys a)(k \<mapsto> v)\<rparr>"

definition a_del :: "byte list \<Rightarrow> adb \<Rightarrow> adb" where
  "a_del k a = a\<lparr>st_keys := (st_keys a)(k := None), st_expires := (st_expires a)(k := None)\<rparr>"

definition a_persist :: "byte list \<Rightarrow> adb \<Rightarrow> adb" where
  "a_persist k a = a\<lparr>st_expires := (st_expires a)(k := None)\<rparr>"

definition a_setexp :: "byte list \<Rightarrow> int \<Rightarrow> adb \<Rightarrow> adb" where
  "a_setexp k w a = a\<lparr>st_expires := (st_expires a)(k \<mapsto> w)\<rparr>"

definition expired :: "env \<Rightarrow> adb \<Rightarrow> byte list \<Rightarrow> bool" where
  "expired e a k \<longleftrightarrow>
     (case st_expires a k of None \<Rightarrow> False | Some w \<Rightarrow> 0 \<le> w \<and> \<not> e_loading e \<and> w < e_now e)"

definition a_expire :: "env \<Rightarrow> byte list \<Rightarrow> adb \<Rightarrow> adb" where
  "a_expire e k a =
     (if expired e a k \<and> \<not> e_slave e
      then on_srv (\<lambda>s. s\<lparr>stat_expired := stat_expired s + 1, propagated := propagated s @ [k]\<rparr>) (a_del k a)
      else a)"

text \<open>The tables have room for \<open>n\<close> more keys.\<close>

definition room :: "nat \<Rightarrow> adb \<Rightarrow> bool" where
  "room n a \<longleftrightarrow> finite (dom (st_keys a)) \<and> card (dom (st_keys a)) + n \<le> 2 ^ 29"

section \<open>The primitive operations refine the maps\<close>

lemma dict_poke_correct:
  assumes "dict_inv ty d" "dict_map d k \<noteq> None"
  shows "dict_inv ty (dict_poke d k v)" "dict_map (dict_poke d k v) = (dict_map d)(k \<mapsto> v)"
proof -
  define f :: "'a \<times> 'b \<Rightarrow> 'a \<times> 'b" where "f = (\<lambda>(k', w). (k', if k' = k then v else w))"
  have fst: "map fst (map f es) = map fst es" for es by (induction es) (auto simp: f_def)
  have e: "entries (dict_poke d k v) = map f (entries d)"
    by (simp add: entries_def dict_poke_def ht_poke_def map_concat f_def)
  have ht: "ht_ok hf (ht_poke ht k v) = ht_ok hf ht" for hf and ht :: "('a, 'b) dictht"
  proof (cases "length (table ht) = ht_size ht")
    case True
    have ff: "fst (f es) = fst es" for es by (simp add: f_def case_prod_beta)
    show ?thesis using True
      by (simp add: ht_ok_def ht_poke_def ff map_concat [symmetric] cong: conj_cong flip: f_def)
  qed (simp add: ht_ok_def ht_poke_def)
  have r: "ht_poke dictReset k v = dictReset" by (simp add: ht_poke_def dictReset_def)
  have rr: "ht_poke ht k v = dictReset \<longleftrightarrow> ht = dictReset" for ht :: "('a, 'b) dictht"
    by (cases ht) (auto simp: ht_poke_def dictReset_def)
  have sz: "ht_size (ht_poke ht k v) = ht_size ht" for ht :: "('a, 'b) dictht" by (simp add: ht_poke_def)
  have rng: "\<forall>i < nat (rehashidx d). table (ht_poke (ht0 d) k v) ! i = []"
    if "\<forall>i < nat (rehashidx d). table (ht0 d) ! i = []" "rehashidx d \<le> int (ht_size (ht0 d))"
      "length (table (ht0 d)) = ht_size (ht0 d)"
    using that by (auto simp: ht_poke_def)
  show "dict_inv ty (dict_poke d k v)"
    using assms(1) rng unfolding dict_inv_def e fst
    by (auto simp: dict_poke_def ht r rr sz ht_okD(1) split: if_splits)
  have "map_of (map f es) k' = (if k' = k \<and> map_of es k \<noteq> None then Some v else map_of es k')" for es k'
    by (induction es) (auto simp: f_def)
  then show "dict_map (dict_poke d k v) = (dict_map d)(k \<mapsto> v)"
    using assms(2) by (auto simp: dict_map_def e fun_eq_iff)
qed

lemma db_rel_dom: "db_rel e st a \<Longrightarrow> dom (dict_map (st_keys st)) = dom (st_keys a)"
  unfolding db_rel_def by (auto simp: dom_def) (metis option.rel_distinct(1,2) not_None_eq)+

lemma db_rel_on_srv [intro!]: "db_rel e st a \<Longrightarrow> db_rel e (on_srv f st) (on_srv f a)"
  by (simp add: db_rel_def on_srv_def)

lemma db_rel_addReply [intro!]: "db_rel e st a \<Longrightarrow> db_rel e (addReply r st) (addReply r a)"
  by (auto simp: addReply_def)

lemma db_rel_addDirty [intro!]: "db_rel e st a \<Longrightarrow> db_rel e (addDirty r st) (addDirty r a)"
  by (auto simp: addDirty_def)

lemma db_rel_signal [intro!]: "db_rel e st a \<Longrightarrow> db_rel e (signalModifiedKey r st) (signalModifiedKey r a)"
  by (auto simp: signalModifiedKey_def)

lemma db_rel_flushed [intro!]: "db_rel e st a \<Longrightarrow> db_rel e (signalFlushedDb st) (signalFlushedDb a)"
  by (auto simp: signalFlushedDb_def)

lemma db_rel_rewrite [intro!]:
  "db_rel e st a \<Longrightarrow> db_rel e (rewriteClientCommandVector r st) (rewriteClientCommandVector r a)"
  by (auto simp: rewriteClientCommandVector_def)

lemma db_rel_fields:
  "db_rel e st a \<Longrightarrow> dict_inv (dbDictType (e_seed e)) (st_keys st)"
  "db_rel e st a \<Longrightarrow> dict_inv (keyptrDictType (e_seed e)) (st_expires st)"
  "db_rel e st a \<Longrightarrow> rel_option (obj_rep (e_seed e)) (dict_map (st_keys st) k) (st_keys a k)"
  "db_rel e st a \<Longrightarrow> dict_map (st_expires st) = st_expires a"
  "db_rel e st a \<Longrightarrow> st_expires a k \<noteq> None \<Longrightarrow> st_keys a k \<noteq> None"
  by (auto simp: db_rel_def dom_def)

lemma db_rel_None_iff: "db_rel e st a \<Longrightarrow> dict_map (st_keys st) k = None \<longleftrightarrow> st_keys a k = None"
  using db_rel_fields(3) [of e st a k] by (cases "st_keys a k") (auto simp: option_rel_Some2)

text \<open>Replacing a dictionary by one with the same map.\<close>

lemma db_rel_same_keys:
  "\<lbrakk>db_rel e st a; dict_inv (dbDictType (e_seed e)) d; dict_map d = dict_map (st_keys st)\<rbrakk>
   \<Longrightarrow> db_rel e (st\<lparr>st_keys := d\<rparr>) a"
  by (simp add: db_rel_def)

lemma db_rel_same_expires:
  "\<lbrakk>db_rel e st a; dict_inv (keyptrDictType (e_seed e)) x; dict_map x = dict_map (st_expires st)\<rbrakk>
   \<Longrightarrow> db_rel e (st\<lparr>st_expires := x\<rparr>) a"
  by (simp add: db_rel_def)

lemma find_keys:
  assumes "db_rel e st a"
  shows "\<exists>d de. dictFind (dbDictType (e_seed e)) (st_keys st) k = Some (d, de) \<and>
    db_rel e (st\<lparr>st_keys := d\<rparr>) a \<and> dict_map d = dict_map (st_keys st) \<and>
    dict_inv (dbDictType (e_seed e)) d \<and>
    (case de of None \<Rightarrow> st_keys a k = None
     | Some de \<Rightarrow> \<exists>ob v. dictGetEntry d de = Some (k, ob) \<and> st_keys a k = Some v \<and> obj_rep (e_seed e) ob v)"
proof -
  have inv: "dict_inv (dbDictType (e_seed e)) (st_keys st)" using assms by (rule db_rel_fields)
  obtain d de where f: "dictFind (dbDictType (e_seed e)) (st_keys st) k = Some (d, de)"
    "rehashed (dbDictType (e_seed e)) (st_keys st) d"
    "case de of None \<Rightarrow> dict_map (st_keys st) k = None
     | Some de \<Rightarrow> \<exists>v. dictGetEntry d de = Some (k, v) \<and> dict_map (st_keys st) k = Some v"
    using dictFind_correct [OF inv] by blast
  have d: "dict_inv (dbDictType (e_seed e)) d" "dict_map d = dict_map (st_keys st)"
    using f(2) rehashed_map [OF inv f(2)] by (simp_all add: rehashed_def)
  have "case de of None \<Rightarrow> st_keys a k = None
     | Some de \<Rightarrow> \<exists>ob v. dictGetEntry d de = Some (k, ob) \<and> st_keys a k = Some v \<and> obj_rep (e_seed e) ob v"
    using f(3) db_rel_fields(3) [OF assms, of k]
    by (cases de) (auto simp: option_rel_Some1)
  then show ?thesis using f(1) d db_rel_same_keys [OF assms d] by blast
qed

lemma lookupKey_ok:
  assumes "db_rel e st a"
  shows "ok (lookupKey e st k) (\<lambda>(st', r). db_rel e st' a \<and> rel_option (obj_rep (e_seed e)) r (st_keys a k))"
proof -
  obtain d de where f: "dictFind (dbDictType (e_seed e)) (st_keys st) k = Some (d, de)"
    "db_rel e (st\<lparr>st_keys := d\<rparr>) a"
    "case de of None \<Rightarrow> st_keys a k = None
     | Some de \<Rightarrow> \<exists>ob v. dictGetEntry d de = Some (k, ob) \<and> st_keys a k = Some v \<and> obj_rep (e_seed e) ob v"
    using find_keys [OF assms, of k] by blast
  then show ?thesis by (cases de) (auto simp: lookupKey_def)
qed

lemma dbExists_ok:
  assumes "db_rel e st a"
  shows "ok (dbExists e st k) (\<lambda>(st', b). db_rel e st' a \<and> b = (st_keys a k \<noteq> None))"
  using find_keys [OF assms, of k] by (auto simp: dbExists_def split: option.splits)

lemma dictSize_zero:
  assumes "dict_inv ty d" "dictSize d = 0"
  shows "dict_map d = Map.empty"
  using card_dom_dict [OF assms(1)] assms(2) by simp

lemma getExpire_ok:
  assumes "db_rel e st a"
  shows "ok (getExpire e st k)
    (\<lambda>(st', w). db_rel e st' a \<and> w = (case st_expires a k of None \<Rightarrow> - 1 | Some w \<Rightarrow> w))"
proof (cases "dictSize (st_expires st) = 0")
  case True
  then have "dict_map (st_expires st) = Map.empty"
    using dictSize_zero [OF db_rel_fields(2) [OF assms]] by simp
  then have "st_expires a k = None" using db_rel_fields(4) [OF assms] by simp
  then show ?thesis using True assms by (simp add: getExpire_def)
next
  case False
  have inv: "dict_inv (keyptrDictType (e_seed e)) (st_expires st)" by (rule db_rel_fields(2) [OF assms])
  obtain x de where f: "dictFind (keyptrDictType (e_seed e)) (st_expires st) k = Some (x, de)"
    "rehashed (keyptrDictType (e_seed e)) (st_expires st) x"
    "case de of None \<Rightarrow> dict_map (st_expires st) k = None
     | Some de \<Rightarrow> \<exists>v. dictGetEntry x de = Some (k, v) \<and> dict_map (st_expires st) k = Some v"
    using dictFind_correct [OF inv] by blast
  have x: "dict_inv (keyptrDictType (e_seed e)) x" "dict_map x = dict_map (st_expires st)"
    using f(2) rehashed_map [OF inv f(2)] by (simp_all add: rehashed_def)
  note ex = db_rel_fields(4) [OF assms]
  show ?thesis
  proof (cases de)
    case None
    then show ?thesis using f(1,3) False ex db_rel_same_expires [OF assms x] by (simp add: getExpire_def)
  next
    case (Some d')
    then obtain w where w: "dictGetEntry x d' = Some (k, w)" "st_expires a k = Some w"
      using f(3) ex by auto
    then have "st_keys a k \<noteq> None" using db_rel_fields(5) [OF assms] by simp
    then obtain d kd where "dictFind (dbDictType (e_seed e)) (st_keys st) k = Some (d, Some kd)"
      "db_rel e (st\<lparr>st_keys := d\<rparr>) a"
      using find_keys [OF assms, of k] by (auto split: option.splits)
    moreover from this have "db_rel e (st\<lparr>st_expires := x, st_keys := d\<rparr>) a"
      using x by (simp add: db_rel_def)
    ultimately show ?thesis using f(1) w False Some by (simp add: getExpire_def)
  qed
qed

lemma dbDelete_ok:
  assumes "db_rel e st a"
  shows "ok (dbDelete e st k) (\<lambda>(st', b). db_rel e st' (a_del k a) \<and> b = (st_keys a k \<noteq> None))"
proof -
  note F = db_rel_fields [OF assms]
  have "\<exists>x. (if dictSize (st_expires st) > 0
          then do { (x, b) \<leftarrow> dictDelete (keyptrDictType (e_seed e)) (st_expires st) k; Some x }
          else Some (st_expires st)) = Some x \<and> dict_inv (keyptrDictType (e_seed e)) x \<and>
        dict_map x = (dict_map (st_expires st))(k := None)"
  proof (cases "dictSize (st_expires st) > 0")
    case True
    then show ?thesis using dictDelete_correct [OF F(2), of k] by auto
  next
    case False
    then show ?thesis using dictSize_zero [OF F(2)] F(2) by simp
  qed
  then obtain x where x: "(if dictSize (st_expires st) > 0
          then do { (x, b) \<leftarrow> dictDelete (keyptrDictType (e_seed e)) (st_expires st) k; Some x }
          else Some (st_expires st)) = Some x" "dict_inv (keyptrDictType (e_seed e)) x"
        "dict_map x = (dict_map (st_expires st))(k := None)" by blast
  obtain d where d: "dictDelete (dbDictType (e_seed e)) (st_keys st) k = Some (d, dict_map (st_keys st) k \<noteq> None)"
    "dict_inv (dbDictType (e_seed e)) d" "dict_map d = (dict_map (st_keys st))(k := None)"
    using dictDelete_correct [OF F(1), of k] by blast
  have "dict_map (st_keys st) k \<noteq> None \<longleftrightarrow> st_keys a k \<noteq> None"
    using db_rel_dom [OF assms] by (auto simp: dom_def)
  moreover have "db_rel e (st\<lparr>st_expires := x, st_keys := d\<rparr>) (a_del k a)"
    using assms x(2,3) d(2,3) by (auto simp: db_rel_def a_del_def)
  ultimately show ?thesis unfolding dbDelete_def x(1) bind.bind_lunit d(1) by simp
qed

lemma expireIfNeeded_ok:
  assumes "db_rel e st a"
  shows "ok (expireIfNeeded e st k) (\<lambda>(st', b). db_rel e st' (a_expire e k a) \<and> b = expired e a k)"
proof -
  have del: "ok (dbDelete e (propagateExpire k (on_srv (\<lambda>s. s\<lparr>stat_expired := stat_expired s + 1\<rparr>) st')) k)
      (\<lambda>(st', b). db_rel e st' (a_expire e k a) \<and> b)"
    if rel: "db_rel e st' a" and k: "expired e a k" "\<not> e_slave e" for st'
  proof -
    let ?a = "propagateExpire k (on_srv (\<lambda>s. s\<lparr>stat_expired := stat_expired s + 1\<rparr>) a)"
    have "db_rel e (propagateExpire k (on_srv (\<lambda>s. s\<lparr>stat_expired := stat_expired s + 1\<rparr>) st')) ?a"
      using rel by (auto simp: propagateExpire_def)
    from dbDelete_ok [OF this, of k] show ?thesis
    proof (rule ok_mono, clarsimp, intro conjI)
      fix st2 assume "db_rel e st2 (a_del k ?a)"
      moreover have "a_del k ?a = a_expire e k a"
        using k by (simp add: a_expire_def a_del_def propagateExpire_def on_srv_def)
      ultimately show "db_rel e st2 (a_expire e k a)" by simp
      show "\<exists>y. st_keys ?a k = Some y"
        using k(1) db_rel_fields(5) [OF assms, of k]
        by (auto simp: expired_def propagateExpire_def on_srv_def split: option.splits)
    qed
  qed
  show ?thesis
    unfolding expireIfNeeded_def ok_simps
    by (rule ok_mono [OF getExpire_ok [OF assms, of k]])
      (use del in \<open>auto simp: expired_def a_expire_def split: option.splits elim!: ok_mono\<close>)
qed

text \<open>What a lookup makes of the maps: an expired key is deleted first.\<close>

definition a_look :: "env \<Rightarrow> byte list \<Rightarrow> adb \<Rightarrow> val option" where
  "a_look e k a = st_keys (a_expire e k a) k"

definition a_read :: "env \<Rightarrow> byte list \<Rightarrow> adb \<Rightarrow> adb" where
  "a_read e k a = on_srv (\<lambda>s. if a_look e k a = None then s\<lparr>stat_misses := stat_misses s + 1\<rparr>
     else s\<lparr>stat_hits := stat_hits s + 1\<rparr>) (a_expire e k a)"

lemma lookupKeyWrite_ok:
  assumes "db_rel e st a"
  shows "ok (lookupKeyWrite e st k)
    (\<lambda>(st', r). db_rel e st' (a_expire e k a) \<and> rel_option (obj_rep (e_seed e)) r (a_look e k a))"
  unfolding lookupKeyWrite_def ok_simps a_look_def
  by (rule ok_mono [OF expireIfNeeded_ok [OF assms, of k]]) (auto intro: lookupKey_ok)

lemma lookupKeyRead_ok:
  assumes "db_rel e st a"
  shows "ok (lookupKeyRead e st k)
    (\<lambda>(st', r). db_rel e st' (a_read e k a) \<and> rel_option (obj_rep (e_seed e)) r (a_look e k a))"
  unfolding lookupKeyRead_def ok_simps
proof (rule ok_mono [OF expireIfNeeded_ok [OF assms, of k]], clarsimp)
  fix st' assume "db_rel e st' (a_expire e k a)"
  from lookupKey_ok [OF this, of k]
  show "ok (lookupKey e st' k) (\<lambda>x. ok (case x of (st, val) \<Rightarrow>
      if val = None then Some (on_srv (\<lambda>s. s\<lparr>stat_misses := stat_misses s + 1\<rparr>) st, val)
      else Some (on_srv (\<lambda>s. s\<lparr>stat_hits := stat_hits s + 1\<rparr>) st, val))
      (\<lambda>(st', r). db_rel e st' (a_read e k a) \<and> rel_option (obj_rep (e_seed e)) r (a_look e k a)))"
    by (rule ok_mono) (auto simp: a_read_def a_look_def option_rel_Some1 intro!: db_rel_on_srv)
qed

subsection \<open>Updates\<close>

lemma db_rel_size:
  assumes "db_rel e st a" "room n a"
  shows "dictSize (st_keys st) + n \<le> 2 ^ 29"
  using card_dom_dict(2) [OF db_rel_fields(1) [OF assms(1)]] db_rel_dom [OF assms(1)] assms(2)
  by (simp add: room_def)

lemma dbAdd_ok:
  assumes "db_rel e st a" "room 1 a" "st_keys a k = None" "obj_rep (e_seed e) ob v"
  shows "ok (dbAdd e st k ob) (\<lambda>st'. db_rel e st' (a_put k v a))"
proof -
  note F = db_rel_fields [OF assms(1)]
  have n: "dict_map (st_keys st) k = None" using F(3) [of k] assms(3) by simp
  have "dictSize (st_keys st) \<le> 2 ^ 29" using db_rel_size [OF assms(1,2)] by simp
  then obtain d where "dictAdd (dbDictType (e_seed e)) (e_resize e) (st_keys st) k ob = Some (d, True)"
    "dict_inv (dbDictType (e_seed e)) d" "dict_map d = (dict_map (st_keys st))(k \<mapsto> ob)"
    using dictAdd_correct [OF F(1), of "e_resize e" k ob] n by auto
  then show ?thesis using assms(1,4) by (auto simp: dbAdd_def db_rel_def a_put_def)
qed

lemma dbOverwrite_ok:
  assumes "db_rel e st a" "room 0 a" "st_keys a k \<noteq> None" "obj_rep (e_seed e) ob v"
  shows "ok (dbOverwrite e st k ob) (\<lambda>st'. db_rel e st' (a_put k v a))"
proof -
  obtain d de where f: "dictFind (dbDictType (e_seed e)) (st_keys st) k = Some (d, Some de)"
    "dict_inv (dbDictType (e_seed e)) d" "dict_map d = dict_map (st_keys st)"
    "dictGetEntry d de \<noteq> None"
    using find_keys [OF assms(1), of k] assms(3) by (auto split: option.splits)
  obtain kv where kv: "dictGetEntry d de = Some kv" using f(4) by auto
  have inv: "dict_inv (dbDictType (e_seed e)) (st_keys st)" by (rule db_rel_fields(1) [OF assms(1)])
  have n: "dict_map d k \<noteq> None" using db_rel_None_iff [OF assms(1), of k] assms(3) f(3) by simp
  have sz: "dictSize d \<le> 2 ^ 29"
    using db_rel_size [OF assms(1,2)] card_dom_dict(2) [OF f(2)] card_dom_dict(2) [OF inv] f(3) by simp
  obtain d' where d': "dictReplace (dbDictType (e_seed e)) (e_resize e) d k ob = Some (d', False)"
    "dict_inv (dbDictType (e_seed e)) d'" "dict_map d' = (dict_map d)(k \<mapsto> ob)"
    using dictReplace_correct [OF f(2) sz, of "e_resize e" k ob] n by auto
  then show ?thesis using assms(1,3,4) f(1,3) by (auto simp: dbOverwrite_def db_rel_def a_put_def)
qed

lemma removeExpire_ok:
  assumes "db_rel e st a" "st_keys a k \<noteq> None"
  shows "ok (removeExpire e st k) (\<lambda>(st', b). db_rel e st' (a_persist k a) \<and> b = (st_expires a k \<noteq> None))"
proof -
  obtain d de where f: "dictFind (dbDictType (e_seed e)) (st_keys st) k = Some (d, Some de)"
    "db_rel e (st\<lparr>st_keys := d\<rparr>) a"
    using find_keys [OF assms(1), of k] assms(2) by (auto split: option.splits)
  note F = db_rel_fields [OF f(2)]
  obtain x where x: "dictDelete (keyptrDictType (e_seed e)) (st_expires st) k
      = Some (x, dict_map (st_expires st) k \<noteq> None)"
    "dict_inv (keyptrDictType (e_seed e)) x" "dict_map x = (dict_map (st_expires st))(k := None)"
    using dictDelete_correct [of _ "st_expires st" k] F(2) by auto
  have "dict_map (st_expires st) = st_expires a" using F(4) by simp
  then show ?thesis using f x by (auto simp: removeExpire_def db_rel_def a_persist_def)
qed

lemma dictReplaceRaw_correct:
  assumes "dict_inv ty d" "dict_map d k = None \<Longrightarrow> dictSize d \<le> 2 ^ 29"
  shows "\<exists>d1 en w. dictReplaceRaw ty cr d k junk = Some (d1, Some en) \<and> dict_inv ty d1 \<and>
    dictGetEntry d1 en = Some (k, w) \<and> (dict_map d1)(k := None) = (dict_map d)(k := None)"
proof -
  obtain d1 en where f: "dictFind ty d k = Some (d1, en)" "rehashed ty d d1"
    "case en of None \<Rightarrow> dict_map d k = None
     | Some en \<Rightarrow> \<exists>v. dictGetEntry d1 en = Some (k, v) \<and> dict_map d k = Some v"
    using dictFind_correct [OF assms(1)] by blast
  have d1: "dict_inv ty d1" "dict_map d1 = dict_map d"
    using f(2) rehashed_map [OF assms(1) f(2)] by (simp_all add: rehashed_def)
  show ?thesis
  proof (cases en)
    case None
    then have n: "dict_map d1 k = None" "dictSize d1 \<le> 2 ^ 29"
      using f(3) d1(2) assms rehashed_dictSize [OF assms(1) f(2)] by auto
    obtain d2 e' where "dictAddRaw ty cr d1 k junk = Some (d2, Some e')" "dict_inv ty d2"
      "dictGetEntry d2 e' = Some (k, junk)" "dict_map d2 = (dict_map d1)(k \<mapsto> junk)"
      using dictAddRaw_correct [OF d1(1) n(2), of cr k junk] n(1) by auto
    then show ?thesis using f(1) None d1(2) by (auto simp: dictReplaceRaw_def)
  next
    case (Some e')
    then show ?thesis using f d1 by (auto simp: dictReplaceRaw_def)
  qed
qed

lemma setExpire_ok:
  assumes "db_rel e st a" "room 0 a" "st_keys a k \<noteq> None"
  shows "ok (setExpire e st k w) (\<lambda>st'. db_rel e st' (a_setexp k w a))"
proof -
  obtain d kde ob where f: "dictFind (dbDictType (e_seed e)) (st_keys st) k = Some (d, Some kde)"
    "db_rel e (st\<lparr>st_keys := d\<rparr>) a" "dictGetEntry d kde = Some (k, ob)"
    using find_keys [OF assms(1), of k] assms(3) by (auto split: option.splits)
  note F = db_rel_fields [OF assms(1)]
  have sz: "dictSize (st_expires st) \<le> 2 ^ 29" if "dict_map (st_expires st) k = None"
  proof -
    have "dom (st_expires a) \<subset> dom (st_keys a)"
    proof (rule psubsetI)
      show "dom (st_expires a) \<subseteq> dom (st_keys a)" using assms(1) by (simp add: db_rel_def)
      show "dom (st_expires a) \<noteq> dom (st_keys a)" using that F(4) assms(3) by (metis domIff)
    qed
    then have "card (dom (st_expires a)) < card (dom (st_keys a))"
      using assms(2) by (intro psubset_card_mono) (auto simp: room_def)
    then show ?thesis using card_dom_dict(2) [OF F(2)] F(4) assms(2) by (simp add: room_def)
  qed
  obtain x1 en v where r: "dictReplaceRaw (keyptrDictType (e_seed e)) (e_resize e) (st_expires st) k 0 = Some (x1, Some en)"
    "dict_inv (keyptrDictType (e_seed e)) x1" "dictGetEntry x1 en = Some (k, v)"
    "(dict_map x1)(k := None) = (dict_map (st_expires st))(k := None)"
    using dictReplaceRaw_correct [OF F(2) sz] by blast
  obtain x where x: "dictSetVal x1 en w = Some x" "dict_inv (keyptrDictType (e_seed e)) x"
    "dict_map x = (dict_map x1)(k \<mapsto> w)"
    using dictSetVal_correct [OF r(2,3)] by blast
  have "dict_map x = (st_expires a)(k \<mapsto> w)" using x(3) r(4) F(4) by (metis fun_upd_upd)
  then show ?thesis using f r(1) x assms(3) by (auto simp: setExpire_def db_rel_def a_setexp_def)
qed

lemma a_expire_simps [simp]:
  "st_keys (a_expire e k a) k' = (if k' = k \<and> expired e a k \<and> \<not> e_slave e then None else st_keys a k')"
  "st_expires (a_expire e k a) k' = (if k' = k \<and> expired e a k \<and> \<not> e_slave e then None else st_expires a k')"
  by (simp_all add: a_expire_def on_srv_def a_del_def)

lemma room_le: "\<lbrakk>room n a; m \<le> n\<rbrakk> \<Longrightarrow> room m a"
  by (simp add: room_def)

lemma room_mono: "\<lbrakk>room n a; dom (st_keys b) \<subseteq> dom (st_keys a); m \<le> n\<rbrakk> \<Longrightarrow> room m b"
  using card_mono [of "dom (st_keys a)" "dom (st_keys b)"] finite_subset by (auto simp: room_def)

lemma room_expire [intro]: "room n a \<Longrightarrow> room n (a_expire e k a)"
  by (erule room_mono) (auto simp: dom_def)

lemma room_del [intro]: "room n a \<Longrightarrow> room n (a_del k a)"
  by (erule room_mono) (auto simp: a_del_def)

lemma room_on_srv [simp]: "room n (on_srv f a) = room n a"
  by (simp add: room_def on_srv_def)

lemma room_put: "room (Suc n) a \<Longrightarrow> room n (a_put k v a)"
  by (auto simp: room_def a_put_def card_insert_if)

lemma room_put_present: "\<lbrakk>room n a; st_keys a k \<noteq> None\<rbrakk> \<Longrightarrow> room n (a_put k v a)"
  by (auto simp: room_def a_put_def card_insert_if)

lemma setKey_ok:
  assumes "db_rel e st a" "room 1 a" "obj_rep (e_seed e) ob v"
  shows "ok (setKey e st k ob)
    (\<lambda>st'. db_rel e st' (signalModifiedKey k (a_persist k (a_put k v (a_expire e k a)))))"
proof -
  let ?a = "a_expire e k a"
  have upd: "ok (if r = None then dbAdd e s k ob else dbOverwrite e s k ob) (\<lambda>st'. db_rel e st' (a_put k v ?a))"
    if "db_rel e s ?a" "rel_option (obj_rep (e_seed e)) r (a_look e k a)" for s r
    using that assms(2,3) by (cases r) (auto simp: a_look_def option_rel_Some1
        intro!: dbAdd_ok dbOverwrite_ok intro: room_le)
  have rem: "ok (removeExpire e s k) (\<lambda>(st', b). db_rel e st' (a_persist k (a_put k v ?a)))"
    if "db_rel e s (a_put k v ?a)" for s
    by (rule ok_mono [OF removeExpire_ok [OF that, of k]]) (auto simp: a_put_def)
  show ?thesis
    unfolding setKey_def ok_simps
  proof (rule ok_mono [OF lookupKeyWrite_ok [OF assms(1), of k]], clarsimp simp del: ok_if split del: if_split)
    fix s r assume "db_rel e s ?a" "rel_option (obj_rep (e_seed e)) r (a_look e k a)"
    from upd [OF this]
    show "ok (if r = None then dbAdd e s k ob else dbOverwrite e s k ob)
        (\<lambda>x. ok (removeExpire e x k) (\<lambda>x. ok (case x of (st, b) \<Rightarrow> Some (signalModifiedKey k st))
        (\<lambda>st'. db_rel e st' (signalModifiedKey k (a_persist k (a_put k v ?a))))))"
      by (rule ok_mono) (auto intro!: ok_mono [OF rem])
  qed
qed

lemma storeObject_ok:
  assumes "db_rel e st a" "st_keys a k \<noteq> None" "obj_rep (e_seed e) ob v"
  shows "db_rel e (storeObject k ob st) (a_put k v a)"
proof -
  have "dict_map (st_keys st) k \<noteq> None" using db_rel_None_iff [OF assms(1), of k] assms(2) by simp
  note P = dict_poke_correct [OF db_rel_fields(1) [OF assms(1)] this]
  show ?thesis using assms P by (auto simp: db_rel_def a_put_def storeObject_def)
qed

lemma lookupKeyWriteOrReply_ok:
  assumes "db_rel e st a"
  shows "ok (lookupKeyWriteOrReply e st k r0) (\<lambda>(st', r).
    db_rel e st' (if a_look e k a = None then addReply r0 (a_expire e k a) else a_expire e k a) \<and>
    rel_option (obj_rep (e_seed e)) r (a_look e k a))"
  unfolding lookupKeyWriteOrReply_def ok_simps
  by (rule ok_mono2 [OF lookupKeyWrite_ok [OF assms, of k]]) (auto simp: option_rel_Some1)

lemma lookupKeyReadOrReply_ok:
  assumes "db_rel e st a"
  shows "ok (lookupKeyReadOrReply e st k r0) (\<lambda>(st', r).
    db_rel e st' (if a_look e k a = None then addReply r0 (a_read e k a) else a_read e k a) \<and>
    rel_option (obj_rep (e_seed e)) r (a_look e k a))"
  unfolding lookupKeyReadOrReply_def ok_simps
  by (rule ok_mono2 [OF lookupKeyRead_ok [OF assms, of k]]) (auto simp: option_rel_Some1)

text \<open>The lemmas as rules for a postcondition.\<close>

lemmas lookupKeyWrite_wp = lookupKeyWrite_ok [THEN ok_mono2]
  and lookupKeyRead_wp = lookupKeyRead_ok [THEN ok_mono2]
  and lookupKeyWriteOrReply_wp = lookupKeyWriteOrReply_ok [THEN ok_mono2]
  and lookupKeyReadOrReply_wp = lookupKeyReadOrReply_ok [THEN ok_mono2]
  and expireIfNeeded_wp = expireIfNeeded_ok [THEN ok_mono2]
  and dbExists_wp = dbExists_ok [THEN ok_mono2]
  and getExpire_wp = getExpire_ok [THEN ok_mono2]
  and dbDelete_wp = dbDelete_ok [THEN ok_mono2]
  and removeExpire_wp = removeExpire_ok [THEN ok_mono2]
  and dbAdd_wp = dbAdd_ok [THEN ok_mono]
  and dbOverwrite_wp = dbOverwrite_ok [THEN ok_mono]
  and setExpire_wp = setExpire_ok [THEN ok_mono]
  and setKey_wp = setKey_ok [THEN ok_mono]

end
