(* ===== verification/DbCmds.thy ===== *)
theory DbCmds
  imports Db
begin

text \<open>
  The commands of \<open>db.c\<close> that work on keys of any type: \<open>DEL\<close>, \<open>EXISTS\<close>, \<open>RENAME\<close>, \<open>RENAMENX\<close>,
  \<open>TYPE\<close>, \<open>DBSIZE\<close>, \<open>FLUSHDB\<close>, \<open>RANDOMKEY\<close>, \<open>EXPIRE\<close> and its relatives, \<open>TTL\<close>, \<open>PTTL\<close>,
  \<open>PERSIST\<close>, and \<open>OBJECT ENCODING\<close> of \<open>object.c\<close>.  Each has its counterpart \<open>a_...\<close> on the
  maps, and a lemma that it refines it.
\<close>

section \<open>The code\<close>

definition checkType :: "('d, 'x) store \<Rightarrow> robj \<Rightarrow> obj_type \<Rightarrow> ('d, 'x) store \<times> bool" where
  "checkType st ob ty =
     (if otype ob \<noteq> ty then (addReply shared_wrongtypeerr st, True) else (st, False))"

abbreviation err_not_integer :: reply where
  "err_not_integer \<equiv> Error ''value is not an integer or out of range''"

text \<open>The result is \<open>None\<close> when the error has been replied.\<close>

definition getLongLongFromObjectOrReply ::
  "('d, 'x) store \<Rightarrow> robj option \<Rightarrow> string option \<Rightarrow> (('d, 'x) store \<times> int option) option" where
  "getLongLongFromObjectOrReply st ob msg = do {
     r \<leftarrow> getLongLongFromObject ob;
     case r of
       Some value \<Rightarrow> Some (st, Some value)
     | None \<Rightarrow> Some (addReply (case msg of Some m \<Rightarrow> Error m | None \<Rightarrow> err_not_integer) st, None) }"

definition getLongFromObjectOrReply ::
  "('d, 'x) store \<Rightarrow> robj option \<Rightarrow> string option \<Rightarrow> (('d, 'x) store \<times> int option) option" where
  "getLongFromObjectOrReply st ob msg = do {
     (st, r) \<leftarrow> getLongLongFromObjectOrReply st ob msg;
     case r of
       None \<Rightarrow> Some (st, None)
     | Some value \<Rightarrow>
         if value < - (2 ^ 63) \<or> value > 2 ^ 63 - 1
         then Some (addReply (case msg of Some m \<Rightarrow> Error m | None \<Rightarrow> Error ''value is out of range'') st, None)
         else Some (st, Some value) }"

primrec del_loop :: "env \<Rightarrow> byte list list \<Rightarrow> db \<Rightarrow> int \<Rightarrow> (db \<times> int) option" where
  "del_loop e [] st deleted = Some (st, deleted)"
| "del_loop e (key # ks) st deleted = do {
     (st, b) \<leftarrow> dbDelete e st key;
     if b then del_loop e ks (addDirty 1 (signalModifiedKey key st)) (deleted + 1)
     else del_loop e ks st deleted }"

definition delCommand :: "env \<Rightarrow> byte list list \<Rightarrow> db \<Rightarrow> db option" where
  "delCommand e ks st = do {
     (st, deleted) \<leftarrow> del_loop e ks st 0;
     Some (addReply (Integer deleted) st) }"

definition existsCommand :: "env \<Rightarrow> byte list \<Rightarrow> db \<Rightarrow> db option" where
  "existsCommand e key st = do {
     (st, b) \<leftarrow> expireIfNeeded e st key;
     (st, b) \<leftarrow> dbExists e st key;
     if b then Some (addReply shared_cone st) else Some (addReply shared_czero st) }"

definition dbsizeCommand :: "db \<Rightarrow> db option" where
  "dbsizeCommand st = Some (addReply (Integer (int (dictSize (st_keys st)))) st)"

definition flushdbCommand :: "db \<Rightarrow> db option" where
  "flushdbCommand st = (
     let st = addDirty (int (dictSize (st_keys st))) st;
         st = signalFlushedDb st;
         st = st\<lparr>st_keys := dictEmpty (st_keys st)\<rparr>;
         st = st\<lparr>st_expires := dictEmpty (st_expires st)\<rparr>
     in Some (addReply shared_ok st))"

definition typeCommand :: "env \<Rightarrow> byte list \<Rightarrow> db \<Rightarrow> db option" where
  "typeCommand e key st = do {
     (st, ob) \<leftarrow> lookupKeyRead e st key;
     let type = (case ob of None \<Rightarrow> ''none''
                 | Some ob \<Rightarrow> (case otype ob of REDIS_STRING \<Rightarrow> ''string'' | REDIS_SET \<Rightarrow> ''set''));
     Some (addReply (Status type) st) }"

text \<open>The part of \<open>renameGenericCommand\<close> that changes the key space.\<close>

definition rename_keys :: "env \<Rightarrow> byte list \<Rightarrow> byte list \<Rightarrow> robj \<Rightarrow> int \<Rightarrow> bool \<Rightarrow> db \<Rightarrow> db option" where
  "rename_keys e src dst ob expire overwrite st = do {
     st \<leftarrow> (if overwrite then do { (st, b) \<leftarrow> dbDelete e st dst; Some st } else Some st);
     st \<leftarrow> dbAdd e st dst ob;
     st \<leftarrow> (if expire \<noteq> - 1 then setExpire e st dst expire else Some st);
     (st, b) \<leftarrow> dbDelete e st src;
     Some st }"

definition renameGenericCommand :: "env \<Rightarrow> byte list \<Rightarrow> byte list \<Rightarrow> bool \<Rightarrow> db \<Rightarrow> db option" where
  "renameGenericCommand e src dst nx st =
     (if src = dst then Some (addReply shared_sameobjecterr st)
      else do {
        (st, r) \<leftarrow> lookupKeyWriteOrReply e st src shared_nokeyerr;
        case r of
          None \<Rightarrow> Some st
        | Some ob \<Rightarrow> do {
            (st, expire) \<leftarrow> getExpire e st src;
            (st, r) \<leftarrow> lookupKeyWrite e st dst;
            if r \<noteq> None \<and> nx then Some (addReply shared_czero st)
            else do {
              st \<leftarrow> rename_keys e src dst ob expire (r \<noteq> None) st;
              let st = signalModifiedKey src st;
              let st = signalModifiedKey dst st;
              let st = addDirty 1 st;
              Some (addReply (if nx then shared_cone else shared_ok) st) } } })"

definition renameCommand :: "env \<Rightarrow> byte list \<Rightarrow> byte list \<Rightarrow> db \<Rightarrow> db option" where
  "renameCommand e src dst st = renameGenericCommand e src dst False st"

definition renamenxCommand :: "env \<Rightarrow> byte list \<Rightarrow> byte list \<Rightarrow> db \<Rightarrow> db option" where
  "renamenxCommand e src dst st = renameGenericCommand e src dst True st"

datatype time_unit = UNIT_SECONDS | UNIT_MILLISECONDS

definition expireGenericCommand ::
  "env \<Rightarrow> int \<Rightarrow> time_unit \<Rightarrow> byte list \<Rightarrow> robj \<Rightarrow> db \<Rightarrow> db option" where
  "expireGenericCommand e basetime unit key param st = do {
     (st, r) \<leftarrow> getLongLongFromObjectOrReply st (Some param) None;
     case r of
       None \<Rightarrow> Some st
     | Some when \<Rightarrow> do {
         when \<leftarrow> (if unit = UNIT_SECONDS then c_llong (when * 1000) else Some when);
         when \<leftarrow> c_llong (when + basetime);
         (d, de) \<leftarrow> dictFind (dbDictType (e_seed e)) (st_keys st) key;
         let st = st\<lparr>st_keys := d\<rparr>;
         if de = None then Some (addReply shared_czero st)
         else if when \<le> e_now e \<and> \<not> e_loading e \<and> \<not> e_slave e then do {
           (st, deleted) \<leftarrow> dbDelete e st key;
           if \<not> deleted then None
           else
             let st = addDirty 1 st;
                 st = rewriteClientCommandVector [bytes ''DEL'', key] st;
                 st = signalModifiedKey key st
             in Some (addReply shared_cone st) }
         else do {
           st \<leftarrow> setExpire e st key when;
           let st = addReply shared_cone st;
           let st = signalModifiedKey key st;
           Some (addDirty 1 st) } } }"

definition expireCommand :: "env \<Rightarrow> byte list \<Rightarrow> robj \<Rightarrow> db \<Rightarrow> db option" where
  "expireCommand e key param st = expireGenericCommand e (e_now e) UNIT_SECONDS key param st"

definition expireatCommand :: "env \<Rightarrow> byte list \<Rightarrow> robj \<Rightarrow> db \<Rightarrow> db option" where
  "expireatCommand e key param st = expireGenericCommand e 0 UNIT_SECONDS key param st"

definition pexpireCommand :: "env \<Rightarrow> byte list \<Rightarrow> robj \<Rightarrow> db \<Rightarrow> db option" where
  "pexpireCommand e key param st = expireGenericCommand e (e_now e) UNIT_MILLISECONDS key param st"

definition pexpireatCommand :: "env \<Rightarrow> byte list \<Rightarrow> robj \<Rightarrow> db \<Rightarrow> db option" where
  "pexpireatCommand e key param st = expireGenericCommand e 0 UNIT_MILLISECONDS key param st"

definition ttlGenericCommand :: "env \<Rightarrow> byte list \<Rightarrow> bool \<Rightarrow> db \<Rightarrow> db option" where
  "ttlGenericCommand e key output_ms st = do {
     (st, expire) \<leftarrow> getExpire e st key;
     ttl \<leftarrow> (if expire \<noteq> - 1
            then do { ttl \<leftarrow> c_llong (expire - e_now e); Some (if ttl < 0 then - 1 else ttl) }
            else Some (- 1));
     if ttl = - 1 then Some (addReply (Integer (- 1)) st)
     else do {
       r \<leftarrow> (if output_ms then Some ttl else do { t \<leftarrow> c_llong (ttl + 500); Some (t sdiv 1000) });
       Some (addReply (Integer r) st) } }"

definition ttlCommand :: "env \<Rightarrow> byte list \<Rightarrow> db \<Rightarrow> db option" where
  "ttlCommand e key st = ttlGenericCommand e key False st"

definition pttlCommand :: "env \<Rightarrow> byte list \<Rightarrow> db \<Rightarrow> db option" where
  "pttlCommand e key st = ttlGenericCommand e key True st"

definition persistCommand :: "env \<Rightarrow> byte list \<Rightarrow> db \<Rightarrow> db option" where
  "persistCommand e key st = do {
     (d, de) \<leftarrow> dictFind (dbDictType (e_seed e)) (st_keys st) key;
     let st = st\<lparr>st_keys := d\<rparr>;
     if de = None then Some (addReply shared_czero st)
     else do {
       (st, b) \<leftarrow> removeExpire e st key;
       if b then Some (addDirty 1 (addReply shared_cone st))
       else Some (addReply shared_czero st) } }"

text \<open>
  A list of key draws, each the two random numbers of \<open>dictGetRandomKey\<close>; a draw that runs out of
  numbers, and running out of draws, is \<open>None\<close>.
\<close>

primrec dbRandomKey :: "env \<Rightarrow> nat list list \<Rightarrow> db \<Rightarrow> (db \<times> byte list option) option" where
  "dbRandomKey e [] st =
     (if dictSize (st_keys st) = 0 then Some (st, None) else None)"
| "dbRandomKey e (rnd # rnds) st = do {
     (d, de) \<leftarrow> dictGetRandomKey (dbDictType (e_seed e)) (st_keys st) rnd;
     let st = st\<lparr>st_keys := d\<rparr>;
     case de of
       None \<Rightarrow> Some (st, None)
     | Some (key, val) \<Rightarrow> do {
         (x, xe) \<leftarrow> dictFind (keyptrDictType (e_seed e)) (st_expires st) key;
         let st = st\<lparr>st_expires := x\<rparr>;
         if xe \<noteq> None
         then do {
           (st, exp) \<leftarrow> expireIfNeeded e st key;
           if exp then dbRandomKey e rnds st else Some (st, Some key) }
         else Some (st, Some key) } }"

definition randomkeyCommand :: "env \<Rightarrow> nat list list \<Rightarrow> db \<Rightarrow> db option" where
  "randomkeyCommand e rnds st = do {
     (st, key) \<leftarrow> dbRandomKey e rnds st;
     case key of
       None \<Rightarrow> Some (addReply shared_nullbulk st)
     | Some key \<Rightarrow> Some (addReply (Bulk key) st) }"

definition objectCommandLookup :: "env \<Rightarrow> db \<Rightarrow> byte list \<Rightarrow> (db \<times> robj option) option" where
  "objectCommandLookup e st key = do {
     (d, de) \<leftarrow> dictFind (dbDictType (e_seed e)) (st_keys st) key;
     let st = st\<lparr>st_keys := d\<rparr>;
     case de of
       None \<Rightarrow> Some (st, None)
     | Some de \<Rightarrow> do { kv \<leftarrow> dictGetEntry d de; Some (st, Some (snd kv)) } }"

definition objectCommandLookupOrReply :: "env \<Rightarrow> db \<Rightarrow> byte list \<Rightarrow> reply \<Rightarrow> (db \<times> robj option) option" where
  "objectCommandLookupOrReply e st key reply = do {
     (st, ob) \<leftarrow> objectCommandLookup e st key;
     Some (if ob = None then addReply reply st else st, ob) }"

section \<open>The specification\<close>

primrec a_del_loop :: "byte list list \<Rightarrow> adb \<Rightarrow> int \<Rightarrow> adb \<times> int" where
  "a_del_loop [] a n = (a, n)"
| "a_del_loop (k # ks) a n =
     (if st_keys a k \<noteq> None then a_del_loop ks (addDirty 1 (signalModifiedKey k (a_del k a))) (n + 1)
      else a_del_loop ks (a_del k a) n)"

definition a_delCommand :: "byte list list \<Rightarrow> adb \<Rightarrow> adb" where
  "a_delCommand ks a = (let (a, n) = a_del_loop ks a 0 in addReply (Integer n) a)"

definition a_existsCommand :: "env \<Rightarrow> byte list \<Rightarrow> adb \<Rightarrow> adb" where
  "a_existsCommand e k a =
     addReply (if a_look e k a \<noteq> None then shared_cone else shared_czero) (a_expire e k a)"

definition a_dbsizeCommand :: "adb \<Rightarrow> adb" where
  "a_dbsizeCommand a = addReply (Integer (int (card (dom (st_keys a))))) a"

definition a_flushdbCommand :: "adb \<Rightarrow> adb" where
  "a_flushdbCommand a =
     addReply shared_ok (signalFlushedDb (addDirty (int (card (dom (st_keys a)))) a))
       \<lparr>st_keys := Map.empty, st_expires := Map.empty\<rparr>"

definition a_typeCommand :: "env \<Rightarrow> byte list \<Rightarrow> adb \<Rightarrow> adb" where
  "a_typeCommand e k a =
     addReply (Status (case a_look e k a of None \<Rightarrow> ''none'' | Some (VStr _) \<Rightarrow> ''string''
       | Some (VSet _) \<Rightarrow> ''set'')) (a_read e k a)"

definition a_renameGeneric :: "env \<Rightarrow> byte list \<Rightarrow> byte list \<Rightarrow> bool \<Rightarrow> adb \<Rightarrow> adb" where
  "a_renameGeneric e src dst nx a =
     (if src = dst then addReply shared_sameobjecterr a
      else case a_look e src a of
        None \<Rightarrow> addReply shared_nokeyerr (a_expire e src a)
      | Some v \<Rightarrow>
          let b = a_expire e dst (a_expire e src a)
          in if st_keys b dst \<noteq> None \<and> nx then addReply shared_czero b
             else let c = b\<lparr>st_keys := (st_keys b)(dst \<mapsto> v, src := None),
                            st_expires := (st_expires b)(dst := (case st_expires b src of
                                None \<Rightarrow> None | Some w \<Rightarrow> if w = - 1 then None else Some w), src := None)\<rparr>
                  in addReply (if nx then shared_cone else shared_ok)
                       (addDirty 1 (signalModifiedKey dst (signalModifiedKey src c))))"

text \<open>The parameter is the time after the conversion to milliseconds since the epoch.\<close>

definition a_expireAt :: "env \<Rightarrow> byte list \<Rightarrow> int \<Rightarrow> adb \<Rightarrow> adb" where
  "a_expireAt e k when a =
     (if st_keys a k = None then addReply shared_czero a
      else if when \<le> e_now e \<and> \<not> e_loading e \<and> \<not> e_slave e
      then addReply shared_cone (signalModifiedKey k
             (rewriteClientCommandVector [bytes ''DEL'', k] (addDirty 1 (a_del k a))))
      else addDirty 1 (signalModifiedKey k (addReply shared_cone (a_setexp k when a))))"

definition a_expireGeneric :: "env \<Rightarrow> int \<Rightarrow> time_unit \<Rightarrow> byte list \<Rightarrow> byte list \<Rightarrow> adb \<Rightarrow> adb" where
  "a_expireGeneric e basetime unit k param a =
     (case parse_ll param of
        None \<Rightarrow> addReply err_not_integer a
      | Some t \<Rightarrow> a_expireAt e k ((if unit = UNIT_SECONDS then t * 1000 else t) + basetime) a)"

text \<open>The arithmetic of the times does not overflow.\<close>

definition expire_arg_ok :: "int \<Rightarrow> time_unit \<Rightarrow> byte list \<Rightarrow> bool" where
  "expire_arg_ok basetime unit param \<longleftrightarrow>
     (case parse_ll param of
        None \<Rightarrow> True
      | Some t \<Rightarrow> let w = (if unit = UNIT_SECONDS then t * 1000 else t)
                 in in_sbytes 8 w \<and> in_sbytes 8 (w + basetime))"

definition a_ttlGeneric :: "env \<Rightarrow> byte list \<Rightarrow> bool \<Rightarrow> adb \<Rightarrow> adb" where
  "a_ttlGeneric e k output_ms a =
     addReply (Integer (case st_expires a k of
         None \<Rightarrow> - 1
       | Some w \<Rightarrow> if w < e_now e \<or> w = - 1 then - 1
                  else if output_ms then w - e_now e else (w - e_now e + 500) div 1000)) a"

definition a_persistCommand :: "byte list \<Rightarrow> adb \<Rightarrow> adb" where
  "a_persistCommand k a =
     (if st_expires a k \<noteq> None then addDirty 1 (addReply shared_cone (a_persist k a))
      else addReply shared_czero a)"

section \<open>The commands refine their specifications\<close>

lemma parse_ll_range: "parse_ll xs = Some v \<Longrightarrow> in_sbytes 8 v"
  by (auto simp: parse_ll_def Let_def in_sbytes_def split: if_splits)

lemma c_llong_ok: "in_sbytes 8 w \<Longrightarrow> c_llong w = Some w"
  by (simp add: c_llong_def in_sbytes_def)

lemma getLongLongOrReply_eval:
  assumes "obj_rep seed ob (VStr xs)"
  shows "getLongLongFromObjectOrReply st (Some ob) msg = Some (case parse_ll xs of
      Some v \<Rightarrow> (st, Some v)
    | None \<Rightarrow> (addReply (case msg of Some m \<Rightarrow> Error m | None \<Rightarrow> err_not_integer) st, None))"
  using getLongLongFromObject_ok [OF assms]
  by (simp add: getLongLongFromObjectOrReply_def split: option.splits)

lemma getLongOrReply_eval:
  assumes "obj_rep seed ob (VStr xs)"
  shows "getLongFromObjectOrReply st (Some ob) msg = Some (case parse_ll xs of
      Some v \<Rightarrow> (st, Some v)
    | None \<Rightarrow> (addReply (case msg of Some m \<Rightarrow> Error m | None \<Rightarrow> err_not_integer) st, None))"
  using parse_ll_range [of xs]
  by (auto simp: getLongFromObjectOrReply_def getLongLongOrReply_eval [OF assms] in_sbytes_def split: option.splits)

lemma on_srv_maps [simp]:
  "st_keys (on_srv f a) = st_keys a" "st_expires (on_srv f a) = st_expires a"
  by (simp_all add: on_srv_def)

lemma srv_op_maps [simp]:
  "st_keys (addReply r a) = st_keys a" "st_expires (addReply r a) = st_expires a"
  "st_keys (addDirty n a) = st_keys a" "st_expires (addDirty n a) = st_expires a"
  "st_keys (signalModifiedKey k a) = st_keys a" "st_expires (signalModifiedKey k a) = st_expires a"
  "st_keys (signalFlushedDb a) = st_keys a" "st_expires (signalFlushedDb a) = st_expires a"
  "st_keys (rewriteClientCommandVector v a) = st_keys a" "st_expires (rewriteClientCommandVector v a) = st_expires a"
  by (simp_all add: addReply_def addDirty_def signalModifiedKey_def rewriteClientCommandVector_def signalFlushedDb_def)

lemma room_srv_op [simp]:
  "room n (addReply r a) = room n a" "room n (addDirty m a) = room n a"
  "room n (signalModifiedKey k a) = room n a" "room n (signalFlushedDb a) = room n a"
  "room n (rewriteClientCommandVector v a) = room n a"
  by (simp_all add: room_def)

lemma a_maps [simp]:
  "st_keys (a_put k v a) = (st_keys a)(k \<mapsto> v)" "st_expires (a_put k v a) = st_expires a"
  "st_keys (a_del k a) = (st_keys a)(k := None)" "st_expires (a_del k a) = (st_expires a)(k := None)"
  "st_keys (a_persist k a) = st_keys a" "st_expires (a_persist k a) = (st_expires a)(k := None)"
  "st_srv (a_put k v a) = st_srv a" "st_srv (a_del k a) = st_srv a" "st_srv (a_persist k a) = st_srv a"
  "st_srv (a_setexp k w a) = st_srv a"
  "st_keys (a_setexp k w a) = st_keys a" "st_expires (a_setexp k w a) = (st_expires a)(k \<mapsto> w)"
  by (simp_all add: a_put_def a_del_def a_persist_def a_setexp_def)

lemma del_loop_ok:
  "db_rel e st a \<Longrightarrow> ok (del_loop e ks st n) (\<lambda>(st', m). db_rel e st' (fst (a_del_loop ks a n)) \<and> m = snd (a_del_loop ks a n))"
proof (induction ks arbitrary: st a n)
  case (Cons k ks)
  show ?case
    unfolding del_loop.simps ok_simps
    by (rule ok_mono [OF dbDelete_ok [OF Cons.prems, of k]])
      (auto intro!: Cons.IH db_rel_addDirty db_rel_signal)
qed simp

lemma delCommand_ok:
  "db_rel e st a \<Longrightarrow> ok (delCommand e ks st) (\<lambda>st'. db_rel e st' (a_delCommand ks a))"
  unfolding delCommand_def ok_simps
  by (rule ok_mono [OF del_loop_ok]) (auto simp: a_delCommand_def case_prod_beta)

lemma existsCommand_ok:
  assumes "db_rel e st a"
  shows "ok (existsCommand e k st) (\<lambda>st'. db_rel e st' (a_existsCommand e k a))"
  unfolding existsCommand_def ok_simps
proof (rule ok_mono [OF expireIfNeeded_ok [OF assms, of k]], clarsimp simp del: ok_if)
  fix s assume "db_rel e s (a_expire e k a)"
  from dbExists_ok [OF this, of k]
  show "ok (dbExists e s k) (\<lambda>x. ok (case x of (st, b) \<Rightarrow>
      if b then Some (addReply shared_cone st) else Some (addReply shared_czero st))
      (\<lambda>st'. db_rel e st' (a_existsCommand e k a)))"
    by (rule ok_mono) (auto simp: a_existsCommand_def a_look_def)
qed

lemma db_rel_dictSize: "db_rel e st a \<Longrightarrow> dictSize (st_keys st) = card (dom (st_keys a))"
  using card_dom_dict(2) [OF db_rel_fields(1)] db_rel_dom by metis

lemma dbsizeCommand_ok:
  "db_rel e st a \<Longrightarrow> ok (dbsizeCommand st) (\<lambda>st'. db_rel e st' (a_dbsizeCommand a))"
  by (auto simp: dbsizeCommand_def a_dbsizeCommand_def db_rel_dictSize)

lemma dictEmpty_correct: "dict_inv ty d \<Longrightarrow> dict_inv ty (dictEmpty d) \<and> dict_map (dictEmpty d) = Map.empty"
  by (auto simp: dict_inv_def dictEmpty_def dictClear_def entries_def dict_map_def)

lemma flushdbCommand_ok:
  assumes "db_rel e st a"
  shows "ok (flushdbCommand st) (\<lambda>st'. db_rel e st' (a_flushdbCommand a))"
proof -
  note F = db_rel_fields [OF assms]
  show ?thesis
    using dictEmpty_correct [OF F(1)] dictEmpty_correct [OF F(2)] assms
    by (simp add: flushdbCommand_def a_flushdbCommand_def db_rel_dictSize [OF assms] db_rel_def Let_def
        addReply_def signalFlushedDb_def addDirty_def on_srv_def)
qed

lemma obj_rep_typeE:
  assumes "obj_rep seed ob v"
  obtains xs where "v = VStr xs" "otype ob = REDIS_STRING" | S where "v = VSet S" "otype ob = REDIS_SET"
  using assms by (cases v) (auto simp: obj_rep_type)

lemma typeCommand_ok:
  assumes "db_rel e st a"
  shows "ok (typeCommand e k st) (\<lambda>st'. db_rel e st' (a_typeCommand e k a))"
  unfolding typeCommand_def ok_simps
  by (rule ok_mono [OF lookupKeyRead_ok [OF assms, of k]])
    (auto simp: a_typeCommand_def option_rel_Some1 option_rel_Some2 split: option.splits elim!: obj_rep_typeE)

lemma db_rel_eq: "\<lbrakk>db_rel e st a; a = b\<rbrakk> \<Longrightarrow> db_rel e st b"
  by simp

lemma store_eqI:
  "\<lbrakk>st_keys a = st_keys b; st_expires a = st_expires b; st_srv a = st_srv b\<rbrakk> \<Longrightarrow> a = (b :: ('d, 'x) store)"
  by simp

lemma rename_keys_ok:
  assumes "db_rel e st b" "room 1 b" "src \<noteq> dst" "st_keys b src = Some v" "obj_rep (e_seed e) ob v"
    and "ow = (st_keys b dst \<noteq> None)" "w = (case st_expires b src of None \<Rightarrow> - 1 | Some w \<Rightarrow> w)"
  shows "ok (rename_keys e src dst ob w ow st) (\<lambda>st'. db_rel e st'
    (b\<lparr>st_keys := (st_keys b)(dst \<mapsto> v, src := None),
       st_expires := (st_expires b)(dst := (case st_expires b src of
          None \<Rightarrow> None | Some w \<Rightarrow> if w = - 1 then None else Some w), src := None)\<rparr>))"
proof -
  have 1: "ok (if ow then do { (st, b) \<leftarrow> dbDelete e st dst; Some st } else Some st)
    (\<lambda>st'. db_rel e st' (a_del dst b))"
  proof (cases ow)
    case True
    then show ?thesis by (auto intro!: dbDelete_wp [OF assms(1)])
  next
    case False
    then have "st_keys b dst = None" "st_expires b dst = None"
      using assms(6) db_rel_fields(5) [OF assms(1), of dst] by fastforce+
    then have "a_del dst b = b" by (intro store_eqI) (auto simp: a_del_def)
    then show ?thesis using False assms(1) by simp
  qed
  have 2: "ok (dbAdd e s dst ob) (\<lambda>st'. db_rel e st' (a_put dst v (a_del dst b)))"
    if "db_rel e s (a_del dst b)" for s
    using that assms(2,5) by (intro dbAdd_ok) auto
  let ?c = "if w = - 1 then a_put dst v (a_del dst b) else a_setexp dst w (a_put dst v (a_del dst b))"
  have 3: "ok (if w \<noteq> - 1 then setExpire e s dst w else Some s) (\<lambda>st'. db_rel e st' ?c)"
    if "db_rel e s (a_put dst v (a_del dst b))" for s
  proof (cases "w = - 1")
    case False
    have "room 0 (a_put dst v (a_del dst b))" using assms(2) by (intro room_put) auto
    then show ?thesis using False that by (auto intro!: setExpire_ok)
  qed (use that in simp)
  have 4: "ok (dbDelete e s src) (\<lambda>(st', x). db_rel e st' (a_del src ?c))" if "db_rel e s ?c" for s
    by (rule ok_mono [OF dbDelete_ok [OF that, of src]]) auto
  have "a_del src ?c = b\<lparr>st_keys := (st_keys b)(dst \<mapsto> v, src := None),
       st_expires := (st_expires b)(dst := (case st_expires b src of
          None \<Rightarrow> None | Some w \<Rightarrow> if w = - 1 then None else Some w), src := None)\<rparr>"
    using assms(3,7)
    by (intro store_eqI) (auto simp: a_del_def a_put_def a_setexp_def split: option.splits)
  note 4 = 4 [unfolded this]
  show ?thesis
    unfolding rename_keys_def ok_simps
    by (rule ok_mono [OF 1], rule ok_mono [OF 2], assumption, rule ok_mono [OF 3], assumption,
        rule ok_mono [OF 4], assumption) auto
qed

lemma renameGeneric_ok:
  assumes "db_rel e st a" "room 1 a"
  shows "ok (renameGenericCommand e src dst nx st) (\<lambda>st'. db_rel e st' (a_renameGeneric e src dst nx a))"
proof (cases "src = dst \<or> a_look e src a = None")
  case True
  then show ?thesis
    using assms(1) by (auto simp: renameGenericCommand_def a_renameGeneric_def intro!: lookupKeyWriteOrReply_wp)
next
  case False
  then obtain v where v: "a_look e src a = Some v" by auto
  define b where "b = a_expire e dst (a_expire e src a)"
  have room: "room 1 b" using assms(2) by (auto simp: b_def)
  have keys: "src \<noteq> dst" "st_keys b src = Some v" "st_expires b src = st_expires (a_expire e src a) src"
    using False v by (auto simp: b_def a_look_def)
  have look: "st_keys b dst = a_look e dst (a_expire e src a)" by (simp add: b_def a_look_def)
  note run = rename_keys_ok [OF _ room keys(1,2), THEN ok_mono]
  note spec = a_renameGeneric_def [of e src dst nx a, unfolded if_not_P [OF keys(1)] v option.case b_def [symmetric] Let_def]
  show ?thesis
    unfolding renameGenericCommand_def if_not_P [OF keys(1)] ok_simps
    apply (rule lookupKeyWriteOrReply_wp [OF assms(1)], clarsimp simp: v option_rel_Some2 simp del: ok_if split del: if_split)
    apply (rule getExpire_wp, assumption, clarsimp simp del: ok_if a_expire_simps split del: if_split)
    apply (rule lookupKeyWrite_wp, assumption)
    apply (clarsimp simp: look [symmetric] b_def [symmetric] keys(3) [symmetric] simp del: ok_if a_expire_simps split del: if_split)
    subgoal for s ob s' s'' r
    proof (cases "st_keys b dst \<noteq> None \<and> nx")
      case True
      assume "db_rel e s'' b" "rel_option (obj_rep (e_seed e)) r (st_keys b dst)"
      then show ?thesis unfolding spec if_P [OF True] using True by (auto simp: option_rel_Some2)
    next
      case False
      assume *: "db_rel e s'' b" "rel_option (obj_rep (e_seed e)) r (st_keys b dst)" "obj_rep (e_seed e) ob v"
      then have r: "r \<noteq> None \<longleftrightarrow> st_keys b dst \<noteq> None" by (cases r; cases "st_keys b dst") auto
      then have nif: "\<not> ((\<exists>y. r = Some y) \<and> nx)" using False by auto
      show ?thesis
        unfolding if_not_P [OF nif] ok_simps Let_def
          spec if_not_P [OF False]
        by (rule run [OF *(1,3) r], simp only: keys(3))
          (intro db_rel_addReply db_rel_addDirty db_rel_signal)
    qed
    done
qed

lemma find_ok:
  assumes "db_rel e st a"
  shows "ok (dictFind (dbDictType (e_seed e)) (st_keys st) k)
    (\<lambda>(d, de). db_rel e (st\<lparr>st_keys := d\<rparr>) a \<and> (de = None \<longleftrightarrow> st_keys a k = None))"
proof -
  obtain d de where f: "dictFind (dbDictType (e_seed e)) (st_keys st) k = Some (d, de)"
    "db_rel e (st\<lparr>st_keys := d\<rparr>) a"
    "case de of None \<Rightarrow> st_keys a k = None
     | Some de \<Rightarrow> \<exists>ob v. dictGetEntry d de = Some (k, ob) \<and> st_keys a k = Some v \<and> obj_rep (e_seed e) ob v"
    using find_keys [OF assms, of k] by blast
  then show ?thesis by (cases de) auto
qed

lemmas find_wp = find_ok [THEN ok_mono2]

text \<open>The part of \<open>expireGenericCommand\<close> behind the arithmetic.\<close>

lemma expireGeneric_ok:
  assumes "db_rel e st a" "room 0 a" "obj_rep (e_seed e) param (VStr xs)" "expire_arg_ok basetime unit xs"
  shows "ok (expireGenericCommand e basetime unit k param st)
    (\<lambda>st'. db_rel e st' (a_expireGeneric e basetime unit k xs a))"
proof (cases "parse_ll xs")
  case None
  then show ?thesis using assms(1)
    by (auto simp: expireGenericCommand_def getLongLongOrReply_eval [OF assms(3)] a_expireGeneric_def)
next
  case (Some t)
  define w where "w = (if unit = UNIT_SECONDS then t * 1000 else t) + basetime"
  have c1: "(if unit = UNIT_SECONDS then c_llong (t * 1000) else Some t)
      = Some (if unit = UNIT_SECONDS then t * 1000 else t)"
    using assms(4) Some by (auto simp: expire_arg_ok_def Let_def c_llong_ok)
  have c2: "c_llong ((if unit = UNIT_SECONDS then t * 1000 else t) + basetime) = Some w"
    using assms(4) Some by (simp only: expire_arg_ok_def Let_def option.case c_llong_ok w_def)
  have spec: "a_expireGeneric e basetime unit k xs a = a_expireAt e k w a"
    using Some by (simp add: a_expireGeneric_def w_def)
  show ?thesis
    unfolding expireGenericCommand_def getLongLongOrReply_eval [OF assms(3)] Some option.case bind.bind_lunit
      prod.case c1 c2 spec ok_simps Let_def
  proof (rule find_wp [OF assms(1)], unfold prod.case)
    fix d de
    assume *: "db_rel e (st\<lparr>st_keys := d\<rparr>) a \<and> (de = None) = (st_keys a k = None)"
    let ?dead = "w \<le> e_now e \<and> \<not> e_loading e \<and> \<not> e_slave e"
    consider "de = None" | "de \<noteq> None" ?dead | "de \<noteq> None" "\<not> ?dead" by blast
    then show "ok (if de = None then Some (addReply shared_czero (st\<lparr>st_keys := d\<rparr>))
        else if ?dead then dbDelete e (st\<lparr>st_keys := d\<rparr>) k \<bind> (\<lambda>(st, deleted).
            if \<not> deleted then None else Some (addReply shared_cone (signalModifiedKey k
               (rewriteClientCommandVector [bytes ''DEL'', k] (addDirty 1 st)))))
        else setExpire e (st\<lparr>st_keys := d\<rparr>) k w \<bind> (\<lambda>st.
            Some (addDirty 1 (signalModifiedKey k (addReply shared_cone st)))))
      (\<lambda>st'. db_rel e st' (a_expireAt e k w a))"
    proof cases
      case 1
      then show ?thesis using * by (auto simp: a_expireAt_def)
    next
      case 2
      then show ?thesis using * by (auto simp: a_expireAt_def intro!: dbDelete_wp)
    next
      case 3
      have "ok (setExpire e (st\<lparr>st_keys := d\<rparr>) k w) (\<lambda>st'. db_rel e st' (a_setexp k w a))"
        using * 3 assms(2) by (intro setExpire_ok) auto
      then have "ok (setExpire e (st\<lparr>st_keys := d\<rparr>) k w) (\<lambda>s. db_rel e
          (addDirty 1 (signalModifiedKey k (addReply shared_cone s))) (a_expireAt e k w a))"
        by (rule ok_mono) (use * 3 in \<open>auto simp: a_expireAt_def\<close>)
      then show ?thesis unfolding if_not_P [OF 3(1)] if_not_P [OF 3(2)] ok_simps .
    qed
  qed
qed

lemma ttlGeneric_ok:
  assumes "db_rel e st a" "0 \<le> e_now e" "e_now e < 2 ^ 62"
    and "\<And>w. st_expires a k = Some w \<Longrightarrow> - (2 ^ 62) \<le> w \<and> w < 2 ^ 62"
  shows "ok (ttlGenericCommand e k ms st) (\<lambda>st'. db_rel e st' (a_ttlGeneric e k ms a))"
proof (cases "st_expires a k")
  case None
  show ?thesis
    unfolding ttlGenericCommand_def ok_simps
    by (rule getExpire_wp [OF assms(1)]) (auto simp: None a_ttlGeneric_def)
next
  case (Some w)
  have w: "- (2 ^ 62) \<le> w" "w < 2 ^ 62" using assms(4) [OF Some] by auto
  have c: "c_llong (w - e_now e) = Some (w - e_now e)"
    using w assms(2,3) by (simp add: c_llong_def)
  have d: "c_llong (w - e_now e + 500) = Some (w - e_now e + 500)"
    "(w - e_now e + 500) sdiv 1000 = (w - e_now e + 500) div 1000" if "e_now e \<le> w"
    using w assms(2,3) that by (simp_all add: c_llong_def signed_divide_int_def)
  show ?thesis
    unfolding ttlGenericCommand_def ok_simps
    by (rule getExpire_wp [OF assms(1)], cases "w = - 1"; cases "w < e_now e")
      (auto simp: Some a_ttlGeneric_def c d)
qed

lemma persistCommand_ok:
  assumes "db_rel e st a"
  shows "ok (persistCommand e k st) (\<lambda>st'. db_rel e st' (a_persistCommand k a))"
proof (cases "st_keys a k = None")
  case True
  then have "st_expires a k = None" using db_rel_fields(5) [OF assms, of k] by fastforce
  then show ?thesis
    unfolding persistCommand_def ok_simps
    by (intro find_wp [OF assms, of k]) (auto simp: True a_persistCommand_def Let_def)
next
  case False
  have *: "ok (removeExpire e s k) (\<lambda>x. ok (case x of (st, b) \<Rightarrow>
      if b then Some (addDirty 1 (addReply shared_cone st)) else Some (addReply shared_czero st))
      (\<lambda>st'. db_rel e st' (a_persistCommand k a)))" if "db_rel e s a" for s
  proof (rule removeExpire_wp [OF that False])
    fix s' b assume **: "db_rel e s' (a_persist k a) \<and> b = (st_expires a k \<noteq> None)"
    have "a_persist k a = a" if "st_expires a k = None"
      using that by (intro store_eqI) auto
    then show "ok (case (s', b) of (st, b) \<Rightarrow>
      if b then Some (addDirty 1 (addReply shared_cone st)) else Some (addReply shared_czero st))
      (\<lambda>st'. db_rel e st' (a_persistCommand k a))"
      using ** by (auto simp: a_persistCommand_def)
  qed
  show ?thesis
    unfolding persistCommand_def ok_simps
    by (rule find_wp [OF assms, of k]) (auto simp: False Let_def simp del: ok_if intro: *)
qed

subsection \<open>Random keys\<close>

lemma expire_none: "\<not> expired e a k \<Longrightarrow> a_expire e k a = a"
  by (simp add: a_expire_def)

text \<open>One draw: an entry of the key space.\<close>

lemma draw_key:
  assumes "db_rel e st a" "room 0 a" "dictGetRandomKey (dbDictType (e_seed e)) (st_keys st) rnd = Some (d, de)"
  shows "db_rel e (st\<lparr>st_keys := d\<rparr>) a"
    "case de of None \<Rightarrow> st_keys a = Map.empty | Some kv \<Rightarrow> st_keys a (fst kv) \<noteq> None"
proof -
  have inv: "dict_inv (dbDictType (e_seed e)) (st_keys st)" by (rule db_rel_fields(1) [OF assms(1)])
  have dom: "dom (dict_map (st_keys st)) = dom (st_keys a)" by (rule db_rel_dom [OF assms(1)])
  have "db_rel e (st\<lparr>st_keys := d\<rparr>) a \<and>
    (case de of None \<Rightarrow> st_keys a = Map.empty | Some kv \<Rightarrow> st_keys a (fst kv) \<noteq> None)"
  proof (cases "dictSize (st_keys st) = 0")
    case True
    then have "dict_map (st_keys st) = Map.empty" by (rule dictSize_zero [OF inv])
    then show ?thesis using True assms(1,3) dom by (auto simp: dictGetRandomKey_def)
  next
    case False
    have "dictSize (st_keys st) < 2 ^ 31" using db_rel_size [OF assms(1,2)] by simp
    from dictGetRandomKey_correct [OF inv False this] assms(3)
    obtain kv where d: "dict_inv (dbDictType (e_seed e)) d" "dict_map d = dict_map (st_keys st)"
      "kv \<in> set (entries (st_keys st))" "de = Some kv" by blast
    have "fst kv \<in> dom (dict_map (st_keys st))"
      using d(3) by (simp add: dict_map_def dom_map_of_conv_image_fst)
    then show ?thesis using d db_rel_same_keys [OF assms(1) d(1,2)] dom by auto
  qed
  then show "db_rel e (st\<lparr>st_keys := d\<rparr>) a"
    "case de of None \<Rightarrow> st_keys a = Map.empty | Some kv \<Rightarrow> st_keys a (fst kv) \<noteq> None" by auto
qed

lemma find_expires:
  assumes "db_rel e st a"
  shows "\<exists>x xe. dictFind (keyptrDictType (e_seed e)) (st_expires st) k = Some (x, xe) \<and>
    db_rel e (st\<lparr>st_expires := x\<rparr>) a \<and> (xe = None \<longleftrightarrow> st_expires a k = None)"
proof -
  have inv: "dict_inv (keyptrDictType (e_seed e)) (st_expires st)" by (rule db_rel_fields(2) [OF assms])
  obtain x xe where f: "dictFind (keyptrDictType (e_seed e)) (st_expires st) k = Some (x, xe)"
    "rehashed (keyptrDictType (e_seed e)) (st_expires st) x"
    "case xe of None \<Rightarrow> dict_map (st_expires st) k = None
     | Some de \<Rightarrow> \<exists>v. dictGetEntry x de = Some (k, v) \<and> dict_map (st_expires st) k = Some v"
    using dictFind_correct [OF inv] by blast
  have "dict_inv (keyptrDictType (e_seed e)) x" "dict_map x = dict_map (st_expires st)"
    using f(2) rehashed_map [OF inv f(2)] by (simp_all add: rehashed_def)
  then show ?thesis
    using f(1,3) db_rel_same_expires [OF assms] db_rel_fields(4) [OF assms] by (cases xe) auto
qed

lemma dbRandomKey_step:
  assumes "db_rel e st a" "room 0 a" "st_keys a \<noteq> Map.empty"
    and "dbRandomKey e (rnd # rnds) st = Some (st', r)"
  obtains k s where "st_keys a k \<noteq> None" "db_rel e s (a_expire e k a)"
    "if expired e a k then dbRandomKey e rnds s = Some (st', r) else st' = s \<and> r = Some k"
proof -
  obtain d de where d: "dictGetRandomKey (dbDictType (e_seed e)) (st_keys st) rnd = Some (d, de)"
    using assms(4) by (auto simp: bind_eq_Some_conv)
  note D = draw_key [OF assms(1,2) d]
  obtain k v where de: "de = Some (k, v)" "st_keys a k \<noteq> None" using D(2) assms(3) by (cases de) auto
  obtain x xe where x: "dictFind (keyptrDictType (e_seed e)) (st_expires st) k = Some (x, xe)"
    "db_rel e (st\<lparr>st_keys := d, st_expires := x\<rparr>) a" "xe = None \<longleftrightarrow> st_expires a k = None"
    using find_expires [OF D(1), of k] by auto
  obtain s b where s: "expireIfNeeded e (st\<lparr>st_keys := d, st_expires := x\<rparr>) k = Some (s, b)"
    "db_rel e s (a_expire e k a)" "b = expired e a k"
    using expireIfNeeded_ok [OF x(2), of k] by (auto simp: ok_iff)
  show thesis
  proof (cases "xe = None")
    case True
    then have "\<not> expired e a k" using x(3) by (simp add: expired_def)
    then show thesis using that [of k "st\<lparr>st_keys := d, st_expires := x\<rparr>"] assms(4) d de x True
      by (auto simp: expire_none)
  next
    case False
    then show thesis using that [OF de(2) s(2)] assms(4) d de x s by (auto split: if_splits)
  qed
qed

lemma dbRandomKey_correct:
  assumes "db_rel e st a" "room 0 a" "dbRandomKey e rnds st = Some (st', r)"
  shows "\<exists>ks. db_rel e st' (fold (a_expire e) ks a) \<and>
    (case r of None \<Rightarrow> st_keys (fold (a_expire e) ks a) = Map.empty
     | Some k \<Rightarrow> st_keys (fold (a_expire e) ks a) k \<noteq> None \<and> \<not> expired e (fold (a_expire e) ks a) k)"
  using assms
proof (induction rnds arbitrary: st a)
  case Nil
  then have "dict_map (st_keys st) = Map.empty"
    using dictSize_zero [OF db_rel_fields(1) [OF Nil.prems(1)]] by (auto split: if_splits)
  then have "st_keys a = Map.empty" using db_rel_dom [OF Nil.prems(1)] by auto
  then show ?case using Nil by (intro exI [of _ "[]"]) (auto split: if_splits)
next
  case (Cons rnd rnds)
  show ?case
  proof (cases "st_keys a = Map.empty")
    case True
    obtain d de where d: "dictGetRandomKey (dbDictType (e_seed e)) (st_keys st) rnd = Some (d, de)"
      using Cons.prems(3) by (auto simp: bind_eq_Some_conv)
    note D = draw_key [OF Cons.prems(1,2) d]
    have "de = None" using D(2) True by (cases de) auto
    then show ?thesis using Cons.prems(3) d D True by (intro exI [of _ "[]"]) auto
  next
    case False
    then obtain k s where k: "st_keys a k \<noteq> None" "db_rel e s (a_expire e k a)"
      "if expired e a k then dbRandomKey e rnds s = Some (st', r) else st' = s \<and> r = Some k"
      using dbRandomKey_step Cons.prems by blast
    show ?thesis
    proof (cases "expired e a k")
      case True
      then obtain ks where "db_rel e st' (fold (a_expire e) ks (a_expire e k a))"
        "case r of None \<Rightarrow> st_keys (fold (a_expire e) ks (a_expire e k a)) = Map.empty
         | Some j \<Rightarrow> st_keys (fold (a_expire e) ks (a_expire e k a)) j \<noteq> None \<and>
             \<not> expired e (fold (a_expire e) ks (a_expire e k a)) j"
        using Cons.IH [OF k(2)] k(3) Cons.prems(2) by auto
      then show ?thesis by (intro exI [of _ "k # ks"] conjI; simp only: fold.simps comp_apply)
    next
      case False
      then show ?thesis using k by (intro exI [of _ "[]"]) (auto simp: expire_none)
    qed
  qed
qed

text \<open>A key that is there and has not expired, or none when the key space has become empty.\<close>

lemma randomkeyCommand_correct:
  assumes "db_rel e st a" "room 0 a" "randomkeyCommand e rnds st = Some st'"
  shows "\<exists>ks. let b = fold (a_expire e) ks a in
    db_rel e st' (addReply NullBulk b) \<and> st_keys b = Map.empty \<or>
    (\<exists>k. db_rel e st' (addReply (Bulk k) b) \<and> st_keys b k \<noteq> None \<and> \<not> expired e b k)"
proof -
  obtain s r where r: "dbRandomKey e rnds st = Some (s, r)"
    "st' = addReply (case r of None \<Rightarrow> NullBulk | Some k \<Rightarrow> Bulk k) s"
    using assms(3) by (auto simp: randomkeyCommand_def bind_eq_Some_conv split: option.splits)
  obtain ks where ks: "db_rel e s (fold (a_expire e) ks a)"
    "case r of None \<Rightarrow> st_keys (fold (a_expire e) ks a) = Map.empty
     | Some k \<Rightarrow> st_keys (fold (a_expire e) ks a) k \<noteq> None \<and> \<not> expired e (fold (a_expire e) ks a) k"
    using dbRandomKey_correct [OF assms(1,2) r(1)] by blast
  show ?thesis
  proof (intro exI [of _ ks], cases r)
    case None
    then show "let b = fold (a_expire e) ks a in db_rel e st' (addReply NullBulk b) \<and> st_keys b = Map.empty \<or>
      (\<exists>k. db_rel e st' (addReply (Bulk k) b) \<and> st_keys b k \<noteq> None \<and> \<not> expired e b k)"
      using r(2) ks by (auto simp: Let_def)
  next
    case (Some k)
    then show "let b = fold (a_expire e) ks a in db_rel e st' (addReply NullBulk b) \<and> st_keys b = Map.empty \<or>
      (\<exists>k. db_rel e st' (addReply (Bulk k) b) \<and> st_keys b k \<noteq> None \<and> \<not> expired e b k)"
      using r(2) ks unfolding Let_def by (intro disjI2 exI [of _ k]) auto
  qed
qed

text \<open>
  C34.  On a slave whose keys have all expired \<open>RANDOMKEY\<close> does not return: whatever random numbers
  are drawn, the loop rejects every key it draws and a slave deletes none of them.
\<close>
theorem dbRandomKey_slave_stuck:
  assumes "db_rel e st a" "room 0 a" "e_slave e" "st_keys a \<noteq> Map.empty"
    and "\<forall>k \<in> dom (st_keys a). expired e a k"
  shows "dbRandomKey e rnds st = None"
  using assms
proof (induction rnds arbitrary: st)
  case Nil
  have "dom (dict_map (st_keys st)) \<noteq> {}" using db_rel_dom [OF Nil.prems(1)] Nil.prems(4) by auto
  then have "dictSize (st_keys st) \<noteq> 0"
    using dictSize_zero [OF db_rel_fields(1) [OF Nil.prems(1)]] by auto
  then show ?case by simp
next
  case (Cons rnd rnds)
  show ?case
  proof (rule ccontr)
    assume "dbRandomKey e (rnd # rnds) st \<noteq> None"
    then obtain st' r where "dbRandomKey e (rnd # rnds) st = Some (st', r)" by auto
    then obtain k s where k: "st_keys a k \<noteq> None" "db_rel e s (a_expire e k a)"
      "if expired e a k then dbRandomKey e rnds s = Some (st', r) else st' = s \<and> r = Some k"
      using dbRandomKey_step [OF Cons.prems(1,2,4)] by blast
    have "expired e a k" using k(1) Cons.prems(5) by auto
    moreover have "a_expire e k a = a" using Cons.prems(3) by (simp add: a_expire_def)
    ultimately show False using Cons.IH k(2,3) Cons.prems by auto
  qed
qed

theorem dbRandomKey_slave_stuck_witness:
  "\<exists>st a. st_keys a = [[107] \<mapsto> VStr [118]] \<and> st_expires a = [[107] \<mapsto> 5] \<and>
    db_rel \<lparr>e_seed = 5381, e_resize = True, e_now = 10, e_loading = False, e_slave = True,
      e_set_max = 512, e_argrefs = 1, e_valrefs = \<lambda>_. 1\<rparr> st a \<and>
    dbRandomKey \<lparr>e_seed = 5381, e_resize = True, e_now = 10, e_loading = False, e_slave = True,
      e_set_max = 512, e_argrefs = 1, e_valrefs = \<lambda>_. 1\<rparr> [[0, 0], [1, 0], [2, 0]] st = None"
proof -
  define e :: env where "e = \<lparr>e_seed = 5381, e_resize = True, e_now = 10, e_loading = False,
    e_slave = True, e_set_max = 512, e_argrefs = 1, e_valrefs = \<lambda>_. 1\<rparr>"
  obtain ob where ob: "obj_rep (e_seed e) ob (VStr [118])"
    using createStringObject_ok [of 1 "[118]" "e_seed e"] by (auto simp: ok_iff)
  obtain st1 where st1: "db_rel e st1 (a_put [107] (VStr [118]) a_empty)"
    using dbAdd_ok [OF empty_db_rel _ _ ob, of "[107]"] by (auto simp: ok_iff room_def a_empty_def)
  obtain st2 where st2: "db_rel e st2 (a_setexp [107] 5 (a_put [107] (VStr [118]) a_empty))"
    using setExpire_ok [OF st1, of "[107]" 5] by (auto simp: ok_iff room_def a_empty_def a_put_def)
  have "dbRandomKey e [[0, 0], [1, 0], [2, 0]] st2 = None"
    by (rule dbRandomKey_slave_stuck [OF st2])
      (auto simp: room_def a_empty_def a_put_def a_setexp_def expired_def e_def)
  then show ?thesis
    using st2 unfolding e_def
    by (intro exI [of _ st2] exI [of _ "a_setexp [107] 5 (a_put [107] (VStr [118]) a_empty)"])
      (auto simp: a_empty_def a_put_def a_setexp_def)
qed

end
