(* ===== verification/TString.thy ===== *)
theory TString
  imports DbCmds
begin

text \<open>
  \<open>t_string.c\<close>: the commands on strings, but for \<open>INCRBYFLOAT\<close> (floating point).  An argument is
  the sds of \<open>c->argv[i]\<close>.  As in \<open>DbCmds\<close> every command has its specification \<open>a_...\<close> on the
  maps and a lemma that it refines it.
\<close>

section \<open>The code\<close>

text \<open>Conversion of a \<open>size_t\<close> to \<open>long long\<close>.\<close>

definition to_int64 :: "int \<Rightarrow> int" where
  "to_int64 x = (x + 2 ^ 63) mod 2 ^ 64 - 2 ^ 63"

lemma to_int64_in_range [c_arith]: "\<lbrakk>- (2 ^ 63) \<le> x; x < 2 ^ 63\<rbrakk> \<Longrightarrow> to_int64 x = x"
  by (simp add: to_int64_def)

text \<open>The text of a string object, as it is printed in a reply.\<close>

definition obj_text :: "robj \<Rightarrow> byte list option" where
  "obj_text ob = do {
     dec \<leftarrow> getDecodedObject ob;
     case dec of StrRaw s \<Rightarrow> sds_text s | _ \<Rightarrow> None }"

definition addReplyBulk :: "robj \<Rightarrow> ('d, 'x) store \<Rightarrow> ('d, 'x) store option" where
  "addReplyBulk ob st = do { t \<leftarrow> obj_text ob; Some (addReply (Bulk t) st) }"

definition checkStringLength :: "('d, 'x) store \<Rightarrow> int \<Rightarrow> ('d, 'x) store \<times> bool" where
  "checkStringLength st sz =
     (if sz > 512 * 1024 * 1024
      then (addReply (Error ''string exceeds maximum allowed size (512MB)'') st, True)
      else (st, False))"

text \<open>The expire argument of \<open>setGenericCommand\<close>; the inner option is \<open>None\<close> after an error reply.\<close>

definition set_expire_arg ::
  "('d, 'x) store \<Rightarrow> robj option \<Rightarrow> time_unit \<Rightarrow> (('d, 'x) store \<times> int option) option" where
  "set_expire_arg st expire unit =
     (case expire of
        None \<Rightarrow> Some (st, Some 0)
      | Some ex \<Rightarrow> do {
          (st, r) \<leftarrow> getLongLongFromObjectOrReply st (Some ex) None;
          case r of
            None \<Rightarrow> Some (st, None)
          | Some ms \<Rightarrow>
              if ms \<le> 0 then Some (addReply (Error ''invalid expire time in SETEX'') st, None)
              else if unit = UNIT_SECONDS then do { ms \<leftarrow> c_llong (ms * 1000); Some (st, Some ms) }
              else Some (st, Some ms) })"

definition setGenericCommand ::
  "env \<Rightarrow> bool \<Rightarrow> byte list \<Rightarrow> robj \<Rightarrow> robj option \<Rightarrow> time_unit \<Rightarrow> db \<Rightarrow> db option" where
  "setGenericCommand e nx key val expire unit st = do {
     (st, ms) \<leftarrow> set_expire_arg st expire unit;
     case ms of
       None \<Rightarrow> Some st
     | Some ms \<Rightarrow> do {
         (st, r) \<leftarrow> (if nx then lookupKeyWrite e st key else Some (st, None));
         if r \<noteq> None then Some (addReply shared_czero st)
         else do {
           st \<leftarrow> setKey e st key val;
           let st = addDirty 1 st;
           st \<leftarrow> (if expire \<noteq> None
                 then do { w \<leftarrow> c_llong (e_now e + ms); setExpire e st key w }
                 else Some st);
           Some (addReply (if nx then shared_cone else shared_ok) st) } } }"

definition setCommand :: "env \<Rightarrow> byte list \<Rightarrow> sds \<Rightarrow> db \<Rightarrow> db option" where
  "setCommand e key val st = do {
     val \<leftarrow> tryObjectEncoding (e_argrefs e) (StrRaw val);
     setGenericCommand e False key val None UNIT_SECONDS st }"

definition setnxCommand :: "env \<Rightarrow> byte list \<Rightarrow> sds \<Rightarrow> db \<Rightarrow> db option" where
  "setnxCommand e key val st = do {
     val \<leftarrow> tryObjectEncoding (e_argrefs e) (StrRaw val);
     setGenericCommand e True key val None UNIT_SECONDS st }"

definition setexCommand :: "env \<Rightarrow> byte list \<Rightarrow> sds \<Rightarrow> sds \<Rightarrow> db \<Rightarrow> db option" where
  "setexCommand e key expire val st = do {
     val \<leftarrow> tryObjectEncoding (e_argrefs e) (StrRaw val);
     setGenericCommand e False key val (Some (StrRaw expire)) UNIT_SECONDS st }"

definition psetexCommand :: "env \<Rightarrow> byte list \<Rightarrow> sds \<Rightarrow> sds \<Rightarrow> db \<Rightarrow> db option" where
  "psetexCommand e key expire val st = do {
     val \<leftarrow> tryObjectEncoding (e_argrefs e) (StrRaw val);
     setGenericCommand e False key val (Some (StrRaw expire)) UNIT_MILLISECONDS st }"

text \<open>The flag is false for \<open>REDIS_ERR\<close>.\<close>

definition getGenericCommand :: "env \<Rightarrow> byte list \<Rightarrow> db \<Rightarrow> (db \<times> bool) option" where
  "getGenericCommand e key st = do {
     (st, ob) \<leftarrow> lookupKeyReadOrReply e st key shared_nullbulk;
     case ob of
       None \<Rightarrow> Some (st, True)
     | Some ob \<Rightarrow>
         if otype ob \<noteq> REDIS_STRING then Some (addReply shared_wrongtypeerr st, False)
         else do { st \<leftarrow> addReplyBulk ob st; Some (st, True) } }"

definition getCommand :: "env \<Rightarrow> byte list \<Rightarrow> db \<Rightarrow> db option" where
  "getCommand e key st = do { (st, b) \<leftarrow> getGenericCommand e key st; Some st }"

definition getsetCommand :: "env \<Rightarrow> byte list \<Rightarrow> sds \<Rightarrow> db \<Rightarrow> db option" where
  "getsetCommand e key val st = do {
     (st, b) \<leftarrow> getGenericCommand e key st;
     if \<not> b then Some st
     else do {
       val \<leftarrow> tryObjectEncoding (e_argrefs e) (StrRaw val);
       st \<leftarrow> setKey e st key val;
       Some (addDirty 1 st) } }"

text \<open>The copy that is made of a shared or encoded value before it is changed in place.\<close>

definition unshare :: "env \<Rightarrow> db \<Rightarrow> byte list \<Rightarrow> robj \<Rightarrow> (db \<times> sds) option" where
  "unshare e st key ob =
     (case ob of
        StrRaw s \<Rightarrow>
          if e_valrefs e key \<noteq> 1
          then do { s' \<leftarrow> sdsnewlen (Some (sds_buf s)) (sdslen s);
                    st \<leftarrow> dbOverwrite e st key (StrRaw s'); Some (st, s') }
          else Some (st, s)
      | _ \<Rightarrow> do {
          decoded \<leftarrow> getDecodedObject ob;
          case decoded of
            StrRaw s \<Rightarrow> do { s' \<leftarrow> sdsnewlen (Some (sds_buf s)) (sdslen s);
                            st \<leftarrow> dbOverwrite e st key (StrRaw s'); Some (st, s') }
          | _ \<Rightarrow> None })"

text \<open>
  The first part of \<open>setrangeCommand\<close>: the string to change, or \<open>None\<close> when the reply has been
  sent.
\<close>

definition setrange_target ::
  "env \<Rightarrow> byte list \<Rightarrow> int \<Rightarrow> sds \<Rightarrow> robj option \<Rightarrow> db \<Rightarrow> (db \<times> sds option) option" where
  "setrange_target e key offset val ob st =
     (let newlen = to_int64 (offset + int (sdslen val))
      in case ob of
        None \<Rightarrow>
          if sdslen val = 0 then Some (addReply shared_czero st, None)
          else let (st, err) = checkStringLength st newlen
          in if err then Some (st, None)
             else do { s \<leftarrow> sdsempty; st \<leftarrow> dbAdd e st key (StrRaw s); Some (st, Some s) }
      | Some ob \<Rightarrow>
          let (st, err) = checkType st ob REDIS_STRING
          in if err then Some (st, None)
             else do {
               olen \<leftarrow> stringObjectLen ob;
               if sdslen val = 0 then Some (addReply (Integer (int olen)) st, None)
               else let (st, err) = checkStringLength st newlen
               in if err then Some (st, None)
                  else do { (st, s) \<leftarrow> unshare e st key ob; Some (st, Some s) } })"

definition setrange_write :: "byte list \<Rightarrow> int \<Rightarrow> sds \<Rightarrow> sds \<Rightarrow> db \<Rightarrow> db option" where
  "setrange_write key offset val s st = do {
     (st, s) \<leftarrow> (if sdslen val > 0
       then do {
         s \<leftarrow> sdsgrowzero s (to_size (offset + int (sdslen val)));
         v \<leftarrow> mem_read 0 (sdslen val) (sds_buf val);
         buf \<leftarrow> mem_write (nat offset) v (sds_buf s);
         let s = s\<lparr>sds_buf := buf\<rparr>;
         let st = storeObject key (StrRaw s) st;
         Some (addDirty 1 (signalModifiedKey key st), s) }
       else Some (st, s));
     Some (addReply (Integer (int (sdslen s))) st) }"

definition setrangeCommand :: "env \<Rightarrow> byte list \<Rightarrow> sds \<Rightarrow> sds \<Rightarrow> db \<Rightarrow> db option" where
  "setrangeCommand e key off val st = do {
     (st, r) \<leftarrow> getLongFromObjectOrReply st (Some (StrRaw off)) None;
     case r of
       None \<Rightarrow> Some st
     | Some offset \<Rightarrow>
         if offset < 0 then Some (addReply (Error ''offset is out of range'') st)
         else do {
           (st, ob) \<leftarrow> lookupKeyWrite e st key;
           (st, s) \<leftarrow> setrange_target e key offset val ob st;
           case s of None \<Rightarrow> Some st | Some s \<Rightarrow> setrange_write key offset val s st } }"

text \<open>The indices of \<open>getrangeCommand\<close>: \<open>(unsigned)end\<close> keeps 32 bits.\<close>

definition getrange_bounds :: "nat \<Rightarrow> int \<Rightarrow> int \<Rightarrow> int \<times> int" where
  "getrange_bounds len start stop =
     (let start = (if start < 0 then to_int64 (int len + start) else start);
          stop = (if stop < 0 then to_int64 (int len + stop) else stop);
          start = (if start < 0 then 0 else start);
          stop = (if stop < 0 then 0 else stop);
          stop = (if to_uint32 stop \<ge> len then to_int64 (int len - 1) else stop)
      in (start, stop))"

definition getrangeCommand :: "env \<Rightarrow> byte list \<Rightarrow> sds \<Rightarrow> sds \<Rightarrow> db \<Rightarrow> db option" where
  "getrangeCommand e key start_arg stop_arg st = do {
     (st, r1) \<leftarrow> getLongFromObjectOrReply st (Some (StrRaw start_arg)) None;
     case r1 of
       None \<Rightarrow> Some st
     | Some start \<Rightarrow> do {
         (st, r2) \<leftarrow> getLongFromObjectOrReply st (Some (StrRaw stop_arg)) None;
         case r2 of
           None \<Rightarrow> Some st
         | Some stop \<Rightarrow> do {
             (st, ob) \<leftarrow> lookupKeyReadOrReply e st key shared_emptybulk;
             case ob of
               None \<Rightarrow> Some st
             | Some ob \<Rightarrow>
                 let (st, err) = checkType st ob REDIS_STRING
                 in if err then Some st
                    else do {
                      (str, len) \<leftarrow> (case ob of
                          StrInt n \<Rightarrow> do { t \<leftarrow> ll2string 32 n; Some (t @ [0], length t) }
                        | StrRaw s \<Rightarrow> Some (sds_buf s, sdslen s)
                        | _ \<Rightarrow> None);
                      let (start, stop) = getrange_bounds len start stop;
                      if start > stop then Some (addReply shared_emptybulk st)
                      else do {
                        t \<leftarrow> mem_read (nat start) (to_size (stop - start + 1)) str;
                        Some (addReply (Bulk t) st) } } } } }"

primrec mget_loop :: "env \<Rightarrow> byte list list \<Rightarrow> db \<Rightarrow> db option" where
  "mget_loop e [] st = Some st"
| "mget_loop e (key # ks) st = do {
     (st, ob) \<leftarrow> lookupKeyRead e st key;
     st \<leftarrow> (case ob of
            None \<Rightarrow> Some (addReply shared_nullbulk st)
          | Some ob \<Rightarrow> if otype ob \<noteq> REDIS_STRING then Some (addReply shared_nullbulk st)
                       else addReplyBulk ob st);
     mget_loop e ks st }"

definition mgetCommand :: "env \<Rightarrow> byte list list \<Rightarrow> db \<Rightarrow> db option" where
  "mgetCommand e ks st = mget_loop e ks (addReply (MultiBulk (int (length ks))) st)"

text \<open>The arguments of \<open>MSET\<close> as the code sees them: a list of alternating keys and values.\<close>

fun mset_busy :: "env \<Rightarrow> sds list \<Rightarrow> db \<Rightarrow> (db \<times> nat) option" where
  "mset_busy e (key # val # rest) st = do {
     k \<leftarrow> sds_text key;
     (st, r) \<leftarrow> lookupKeyWrite e st k;
     (st, n) \<leftarrow> mset_busy e rest st;
     Some (st, (if r \<noteq> None then 1 else 0) + n) }"
| "mset_busy e _ st = Some (st, 0)"

fun mset_loop :: "env \<Rightarrow> sds list \<Rightarrow> db \<Rightarrow> db option" where
  "mset_loop e (key # val # rest) st = do {
     val \<leftarrow> tryObjectEncoding (e_argrefs e) (StrRaw val);
     k \<leftarrow> sds_text key;
     st \<leftarrow> setKey e st k val;
     mset_loop e rest st }"
| "mset_loop e _ st = Some st"

text \<open>\<open>argc\<close> is the length of the arguments plus one.\<close>

definition msetGenericCommand :: "env \<Rightarrow> sds list \<Rightarrow> bool \<Rightarrow> db \<Rightarrow> db option" where
  "msetGenericCommand e args nx st =
     (let argc = length args + 1
      in if argc mod 2 = 0 then Some (addReply (Error ''wrong number of arguments for MSET'') st)
         else do {
           (st, busykeys) \<leftarrow> (if nx then mset_busy e args st else Some (st, 0));
           if busykeys \<noteq> 0 then Some (addReply shared_czero st)
           else do {
             st \<leftarrow> mset_loop e args st;
             let st = addDirty (int ((argc - 1) div 2)) st;
             Some (addReply (if nx then shared_cone else shared_ok) st) } })"

definition incrDecrCommand :: "env \<Rightarrow> byte list \<Rightarrow> int \<Rightarrow> db \<Rightarrow> db option" where
  "incrDecrCommand e key incr st = do {
     (st, ob) \<leftarrow> lookupKeyWrite e st key;
     let (st, err) = (case ob of None \<Rightarrow> (st, False) | Some ob \<Rightarrow> checkType st ob REDIS_STRING);
     if err then Some st
     else do {
       (st, r) \<leftarrow> getLongLongFromObjectOrReply st ob None;
       case r of
         None \<Rightarrow> Some st
       | Some oldvalue \<Rightarrow>
           if incr < 0 \<and> oldvalue < 0 \<and> incr < - (2 ^ 63) - oldvalue \<or>
              incr > 0 \<and> oldvalue > 0 \<and> incr > 2 ^ 63 - 1 - oldvalue
           then Some (addReply (Error ''increment or decrement would overflow'') st)
           else do {
             value \<leftarrow> c_llong (oldvalue + incr);
             new \<leftarrow> createStringObjectFromLongLong value;
             st \<leftarrow> (if ob \<noteq> None then dbOverwrite e st key new else dbAdd e st key new);
             let st = addDirty 1 (signalModifiedKey key st);
             t \<leftarrow> obj_text new;
             Some (addReply (Integer value) st) } } }"

definition incrCommand :: "env \<Rightarrow> byte list \<Rightarrow> db \<Rightarrow> db option" where
  "incrCommand e key st = incrDecrCommand e key 1 st"

definition decrCommand :: "env \<Rightarrow> byte list \<Rightarrow> db \<Rightarrow> db option" where
  "decrCommand e key st = incrDecrCommand e key (- 1) st"

definition incrbyCommand :: "env \<Rightarrow> byte list \<Rightarrow> sds \<Rightarrow> db \<Rightarrow> db option" where
  "incrbyCommand e key arg st = do {
     (st, r) \<leftarrow> getLongLongFromObjectOrReply st (Some (StrRaw arg)) None;
     case r of None \<Rightarrow> Some st | Some incr \<Rightarrow> incrDecrCommand e key incr st }"

definition decrbyCommand :: "env \<Rightarrow> byte list \<Rightarrow> sds \<Rightarrow> db \<Rightarrow> db option" where
  "decrbyCommand e key arg st = do {
     (st, r) \<leftarrow> getLongLongFromObjectOrReply st (Some (StrRaw arg)) None;
     case r of
       None \<Rightarrow> Some st
     | Some incr \<Rightarrow> do { neg \<leftarrow> c_llong (- incr); incrDecrCommand e key neg st } }"

definition appendCommand :: "env \<Rightarrow> byte list \<Rightarrow> sds \<Rightarrow> db \<Rightarrow> db option" where
  "appendCommand e key arg st = do {
     (st, ob) \<leftarrow> lookupKeyWrite e st key;
     case ob of
       None \<Rightarrow> do {
         val \<leftarrow> tryObjectEncoding (e_argrefs e) (StrRaw arg);
         st \<leftarrow> dbAdd e st key val;
         totlen \<leftarrow> stringObjectLen val;
         Some (addReply (Integer (int totlen)) (addDirty 1 (signalModifiedKey key st))) }
     | Some ob \<Rightarrow>
         let (st, err) = checkType st ob REDIS_STRING
         in if err then Some st
            else do {
              olen \<leftarrow> stringObjectLen ob;
              let (st, err) = checkStringLength st (to_int64 (int (olen + sdslen arg)));
              if err then Some st
              else do {
                (st, s) \<leftarrow> unshare e st key ob;
                s \<leftarrow> sdscatlen s (sds_buf arg) (sdslen arg);
                let st = storeObject key (StrRaw s) st;
                Some (addReply (Integer (int (sdslen s))) (addDirty 1 (signalModifiedKey key st))) } } }"

definition strlenCommand :: "env \<Rightarrow> byte list \<Rightarrow> db \<Rightarrow> db option" where
  "strlenCommand e key st = do {
     (st, ob) \<leftarrow> lookupKeyReadOrReply e st key shared_czero;
     case ob of
       None \<Rightarrow> Some st
     | Some ob \<Rightarrow>
         let (st, err) = checkType st ob REDIS_STRING
         in if err then Some st
            else do { n \<leftarrow> stringObjectLen ob; Some (addReply (Integer (int n)) st) } }"

section \<open>The specification\<close>

text \<open>Arguments: texts of at most 512 MB, as the protocol admits.\<close>

definition arg_rep :: "sds \<Rightarrow> byte list \<Rightarrow> bool" where
  "arg_rep s xs \<longleftrightarrow> sds_rep s xs \<and> length xs \<le> 2 ^ 29"

definition a_setKey :: "env \<Rightarrow> byte list \<Rightarrow> val \<Rightarrow> adb \<Rightarrow> adb" where
  "a_setKey e k v a = signalModifiedKey k (a_persist k (a_put k v (a_expire e k a)))"

definition set_ttl :: "byte list option \<Rightarrow> time_unit \<Rightarrow> reply + int option" where
  "set_ttl expire unit =
     (case expire of
        None \<Rightarrow> Inr None
      | Some t \<Rightarrow>
          (case parse_ll t of
             None \<Rightarrow> Inl err_not_integer
           | Some ms \<Rightarrow> if ms \<le> 0 then Inl (Error ''invalid expire time in SETEX'')
                        else Inr (Some (if unit = UNIT_SECONDS then ms * 1000 else ms))))"

definition set_ttl_ok :: "env \<Rightarrow> byte list option \<Rightarrow> time_unit \<Rightarrow> bool" where
  "set_ttl_ok e expire unit \<longleftrightarrow>
     (case set_ttl expire unit of Inr (Some ms) \<Rightarrow> in_sbytes 8 ms \<and> in_sbytes 8 (e_now e + ms) | _ \<Rightarrow> True)"

definition a_setGeneric :: "env \<Rightarrow> bool \<Rightarrow> byte list \<Rightarrow> byte list \<Rightarrow> byte list option \<Rightarrow> time_unit \<Rightarrow> adb \<Rightarrow> adb" where
  "a_setGeneric e nx k xs expire unit a =
     (case set_ttl expire unit of
        Inl err \<Rightarrow> addReply err a
      | Inr ttl \<Rightarrow>
          if nx \<and> a_look e k a \<noteq> None then addReply shared_czero (a_expire e k a)
          else let b = addDirty 1 (a_setKey e k (VStr xs) a);
                   b = (case ttl of None \<Rightarrow> b | Some ms \<Rightarrow> a_setexp k (e_now e + ms) b)
               in addReply (if nx then shared_cone else shared_ok) b)"

definition a_getGeneric :: "env \<Rightarrow> byte list \<Rightarrow> adb \<Rightarrow> adb \<times> bool" where
  "a_getGeneric e k a =
     (case a_look e k a of
        None \<Rightarrow> (addReply shared_nullbulk (a_read e k a), True)
      | Some (VStr xs) \<Rightarrow> (addReply (Bulk xs) (a_read e k a), True)
      | Some (VSet _) \<Rightarrow> (addReply shared_wrongtypeerr (a_read e k a), False))"

definition a_getset :: "env \<Rightarrow> byte list \<Rightarrow> byte list \<Rightarrow> adb \<Rightarrow> adb" where
  "a_getset e k xs a =
     (case a_getGeneric e k a of (b, good) \<Rightarrow>
        if good then addDirty 1 (a_setKey e k (VStr xs) b) else b)"

definition overwrite :: "byte list \<Rightarrow> nat \<Rightarrow> byte list \<Rightarrow> byte list" where
  "overwrite old off xs =
     take off (old @ replicate (off - length old) 0) @ xs @ drop (off + length xs) old"

text \<open>A string command on a key: what it does to the text, or to no text.\<close>

definition a_string :: "env \<Rightarrow> byte list \<Rightarrow> (byte list option \<Rightarrow> adb \<Rightarrow> adb) \<Rightarrow> adb \<Rightarrow> adb" where
  "a_string e k f a =
     (case a_look e k a of
        Some (VSet _) \<Rightarrow> addReply shared_wrongtypeerr (a_expire e k a)
      | Some (VStr xs) \<Rightarrow> f (Some xs) (a_expire e k a)
      | None \<Rightarrow> f None (a_expire e k a))"

definition a_update :: "byte list \<Rightarrow> byte list \<Rightarrow> int \<Rightarrow> adb \<Rightarrow> adb" where
  "a_update k xs n a = addReply (Integer n) (addDirty 1 (signalModifiedKey k (a_put k (VStr xs) a)))"

abbreviation err_too_long :: reply where
  "err_too_long \<equiv> Error ''string exceeds maximum allowed size (512MB)''"

definition text_of :: "byte list option \<Rightarrow> byte list" where
  "text_of t = (case t of None \<Rightarrow> [] | Some xs \<Rightarrow> xs)"

definition a_setrange :: "env \<Rightarrow> byte list \<Rightarrow> byte list \<Rightarrow> byte list \<Rightarrow> adb \<Rightarrow> adb" where
  "a_setrange e k off xs a =
     (case parse_ll off of
        None \<Rightarrow> addReply err_not_integer a
      | Some i \<Rightarrow>
          if i < 0 then addReply (Error ''offset is out of range'') a
          else a_string e k (\<lambda>old b.
            if xs = [] then addReply (Integer (int (length (text_of old)))) b
            else if i + int (length xs) > 2 ^ 29 then addReply err_too_long b
            else let new = overwrite (text_of old) (nat i) xs
                 in a_update k new (int (length new)) b) a)"

definition a_append :: "env \<Rightarrow> byte list \<Rightarrow> byte list \<Rightarrow> adb \<Rightarrow> adb" where
  "a_append e k xs a =
     a_string e k (\<lambda>old b.
       let new = text_of old @ xs
       in if old \<noteq> None \<and> length new > 2 ^ 29 then addReply err_too_long b
          else a_update k new (int (length new)) b) a"

definition a_incr :: "env \<Rightarrow> byte list \<Rightarrow> int \<Rightarrow> adb \<Rightarrow> adb" where
  "a_incr e k d a =
     a_string e k (\<lambda>old b.
       case (case old of None \<Rightarrow> Some 0 | Some xs \<Rightarrow> parse_ll xs) of
         None \<Rightarrow> addReply err_not_integer b
       | Some n \<Rightarrow>
           if in_sbytes 8 (n + d) then a_update k (dec_int (n + d)) (n + d) b
           else addReply (Error ''increment or decrement would overflow'') b) a"

definition a_strlen :: "env \<Rightarrow> byte list \<Rightarrow> adb \<Rightarrow> adb" where
  "a_strlen e k a =
     addReply (case a_look e k a of None \<Rightarrow> shared_czero | Some (VStr xs) \<Rightarrow> Integer (int (length xs))
       | Some (VSet _) \<Rightarrow> shared_wrongtypeerr) (a_read e k a)"

definition a_getrange :: "env \<Rightarrow> byte list \<Rightarrow> byte list \<Rightarrow> byte list \<Rightarrow> adb \<Rightarrow> adb" where
  "a_getrange e k start stop a =
     (case (parse_ll start, parse_ll stop) of
        (Some i, Some j) \<Rightarrow>
          addReply (case a_look e k a of None \<Rightarrow> shared_emptybulk | Some (VStr xs) \<Rightarrow> Bulk (list_range i j xs)
            | Some (VSet _) \<Rightarrow> shared_wrongtypeerr) (a_read e k a)
      | _ \<Rightarrow> addReply err_not_integer a)"

primrec a_mget_loop :: "env \<Rightarrow> byte list list \<Rightarrow> adb \<Rightarrow> adb" where
  "a_mget_loop e [] a = a"
| "a_mget_loop e (k # ks) a = a_mget_loop e ks
     (addReply (case a_look e k a of Some (VStr xs) \<Rightarrow> Bulk xs | _ \<Rightarrow> NullBulk) (a_read e k a))"

definition a_mget :: "env \<Rightarrow> byte list list \<Rightarrow> adb \<Rightarrow> adb" where
  "a_mget e ks a = a_mget_loop e ks (addReply (MultiBulk (int (length ks))) a)"

definition a_mset :: "env \<Rightarrow> (byte list \<times> byte list) list \<Rightarrow> bool \<Rightarrow> adb \<Rightarrow> adb" where
  "a_mset e kvs nx a =
     (let b = (if nx then fold (\<lambda>(k, v). a_expire e k) kvs a else a)
      in if nx \<and> (\<exists>(k, v) \<in> set kvs. a_look e k a \<noteq> None) then addReply shared_czero b
         else addReply (if nx then shared_cone else shared_ok)
                (addDirty (int (length kvs)) (fold (\<lambda>(k, v). a_setKey e k (VStr v)) kvs b)))"

section \<open>The commands refine their specifications\<close>

lemma arg_repD: "arg_rep s xs \<Longrightarrow> sds_rep s xs \<and> length xs \<le> 2 ^ 29"
  by (simp add: arg_rep_def)

lemma arg_obj_rep: "arg_rep s xs \<Longrightarrow> obj_rep seed (StrRaw s) (VStr xs)"
  by (simp add: arg_rep_def)

lemma obj_text_ok: "obj_rep seed ob (VStr xs) \<Longrightarrow> obj_text ob = Some xs"
  using getDecodedObject_ok [of seed ob xs] by (auto simp: obj_text_def ok_iff sds_text_rep)

lemma addReplyBulk_eval: "obj_rep seed ob (VStr xs) \<Longrightarrow> addReplyBulk ob st = Some (addReply (Bulk xs) st)"
  by (simp add: addReplyBulk_def obj_text_ok)

text \<open>A value by its type, with what the accessors of strings return.\<close>

lemma obj_valE:
  assumes "obj_rep seed ob v"
  obtains xs where "v = VStr xs" "otype ob = REDIS_STRING" "obj_text ob = Some xs"
      "stringObjectLen ob = Some (length xs)" "getLongLongFromObject (Some ob) = Some (parse_ll xs)"
    | S where "v = VSet S" "otype ob = REDIS_SET"
  using assms obj_text_ok stringObjectLen_ok getLongLongFromObject_ok
  by (cases v) (auto simp: obj_rep_type)

lemma setKey_rel:
  assumes "db_rel e st a" "room 1 a" "obj_rep (e_seed e) ob v"
  shows "ok (setKey e st k ob) (\<lambda>st'. db_rel e st' (a_setKey e k v a))"
  unfolding a_setKey_def by (rule setKey_ok [OF assms])

lemma a_expire_idem [simp]: "a_expire e k (a_expire e k a) = a_expire e k a"
  by (auto simp: a_expire_def expired_def split: option.splits)

lemma set_expire_arg_eval:
  assumes "rel_option (\<lambda>ob xs. obj_rep seed ob (VStr xs)) expire t" "set_ttl_ok e t unit"
  shows "set_expire_arg st expire unit = Some (case set_ttl t unit of
      Inl err \<Rightarrow> (addReply err st, None)
    | Inr ms \<Rightarrow> (st, Some (case ms of None \<Rightarrow> 0 | Some ms \<Rightarrow> ms)))"
proof (cases expire)
  case None
  then show ?thesis using assms(1) by (simp add: set_expire_arg_def set_ttl_def)
next
  case (Some ob)
  then obtain xs where xs: "t = Some xs" "obj_rep seed ob (VStr xs)" using assms(1) by (auto simp: option_rel_Some1)
  show ?thesis
    using assms(2)
    by (auto simp: getLongLongOrReply_eval [OF xs(2)] Some xs(1) set_expire_arg_def set_ttl_def set_ttl_ok_def c_llong_ok split: option.splits if_splits)
qed

lemma setGeneric_ok:
  assumes "db_rel e st a" "room 1 a" "obj_rep (e_seed e) val (VStr xs)"
    and "rel_option (\<lambda>ob xs. obj_rep (e_seed e) ob (VStr xs)) expire t" "set_ttl_ok e t unit"
  shows "ok (setGenericCommand e nx k val expire unit st) (\<lambda>st'. db_rel e st' (a_setGeneric e nx k xs t unit a))"
proof (cases "set_ttl t unit")
  case (Inl err)
  then show ?thesis
    using assms(1) by (auto simp: setGenericCommand_def set_expire_arg_eval [OF assms(4,5)] a_setGeneric_def)
next
  case (Inr ttl)
  define ms where "ms = (case ttl of None \<Rightarrow> 0 | Some ms \<Rightarrow> ms)"
  have ttl: "ttl = None \<longleftrightarrow> expire = None"
    using assms(4) Inr by (cases expire) (auto simp: set_ttl_def option_rel_Some1 split: option.splits if_splits dest: sym)
  let ?tail = "\<lambda>st. setKey e st k val \<bind> (\<lambda>st. (if expire \<noteq> None
                 then do { w \<leftarrow> c_llong (e_now e + ms); setExpire e (addDirty 1 st) k w }
                 else Some (addDirty 1 st)) \<bind> (\<lambda>st. Some (addReply (if nx then shared_cone else shared_ok) st)))"
  have tail: "ok (?tail s) (\<lambda>st'. db_rel e st' (a_setGeneric e nx k xs t unit a))"
    if s: "db_rel e s b" "b = a \<or> b = a_expire e k a" and nx: "\<not> (nx \<and> a_look e k a \<noteq> None)" for s b
  proof -
    have b: "room 1 b" "a_setKey e k v b = a_setKey e k v a" for v
      using s(2) assms(2) by (auto simp: a_setKey_def)
    have r: "room 0 (addDirty 1 (a_setKey e k (VStr xs) a))"
    proof -
      have "room 0 (a_put k (VStr xs) (a_expire e k a))"
        using assms(2) by (intro room_put) auto
      then show ?thesis by (simp add: a_setKey_def room_def)
    qed
    have 1: "ok (if expire \<noteq> None then do { w \<leftarrow> c_llong (e_now e + ms); setExpire e (addDirty 1 s') k w }
        else Some (addDirty 1 s')) (\<lambda>st'. db_rel e (addReply (if nx then shared_cone else shared_ok) st')
          (a_setGeneric e nx k xs t unit a))"
      if "db_rel e s' (a_setKey e k (VStr xs) a)" for s'
    proof (cases ttl)
      case None
      then show ?thesis using that ttl nx Inr by (auto simp: a_setGeneric_def)
    next
      case (Some m)
      then have "c_llong (e_now e + ms) = Some (e_now e + m)"
        using assms(5) Inr by (auto simp: set_ttl_ok_def ms_def c_llong_ok)
      moreover have "ok (setExpire e (addDirty 1 s') k (e_now e + m))
          (\<lambda>st'. db_rel e st' (a_setexp k (e_now e + m) (addDirty 1 (a_setKey e k (VStr xs) a))))"
        using that r by (intro setExpire_ok) (auto simp: a_setKey_def)
      then have "ok (setExpire e (addDirty 1 s') k (e_now e + m))
          (\<lambda>st'. db_rel e (addReply (if nx then shared_cone else shared_ok) st')
          (a_setGeneric e nx k xs t unit a))"
        by (rule ok_mono) (use nx Inr Some in \<open>auto simp: a_setGeneric_def\<close>)
      ultimately show ?thesis using ttl Some by simp
    qed
    show ?thesis
      unfolding ok_simps
      by (rule ok_mono [OF setKey_rel [OF s(1) b(1) assms(3), of k]]) (use 1 in \<open>auto simp: b(2)\<close>)
  qed
  have run: "setGenericCommand e nx k val expire unit st =
    (if nx then lookupKeyWrite e st k else Some (st, None)) \<bind> (\<lambda>(st, r).
       if r \<noteq> None then Some (addReply shared_czero st) else ?tail st)"
    unfolding setGenericCommand_def set_expire_arg_eval [OF assms(4,5)] Inr sum.case bind.bind_lunit
      prod.case option.case Let_def ms_def ..
  show ?thesis
  proof (cases nx)
    case False
    show ?thesis using tail [OF assms(1)] False unfolding run by simp
  next
    case True
    show ?thesis
      unfolding run ok_simps if_P [OF True, of "lookupKeyWrite e st k"]
    proof (rule lookupKeyWrite_wp [OF assms(1)], unfold prod.case)
      fix s r assume *: "db_rel e s (a_expire e k a) \<and> rel_option (obj_rep (e_seed e)) r (a_look e k a)"
      show "ok (if r \<noteq> None then Some (addReply shared_czero s) else ?tail s)
        (\<lambda>st'. db_rel e st' (a_setGeneric e nx k xs t unit a))"
      proof (cases "r = None")
        case r: True
        then show ?thesis using tail [of s "a_expire e k a"] * by auto
      next
        case False
        then show ?thesis using * True Inr by (auto simp: a_setGeneric_def option_rel_Some1)
      qed
    qed
  qed
qed

lemma encode_arg_ok:
  "\<lbrakk>arg_rep val xs; xs \<noteq> LLONG_MIN_text\<rbrakk> \<Longrightarrow> ok (tryObjectEncoding rc (StrRaw val)) (\<lambda>ob. obj_rep seed ob (VStr xs))"
  by (rule tryObjectEncoding_ok) (auto simp: arg_rep_def)

lemmas encode_arg_wp = encode_arg_ok [THEN ok_mono]

lemma set_variants_ok:
  assumes "db_rel e st a" "room 1 a" "arg_rep val xs" "xs \<noteq> LLONG_MIN_text"
  shows "ok (setCommand e k val st) (\<lambda>st'. db_rel e st' (a_setGeneric e False k xs None UNIT_SECONDS a))"
    and "ok (setnxCommand e k val st) (\<lambda>st'. db_rel e st' (a_setGeneric e True k xs None UNIT_SECONDS a))"
    and "\<lbrakk>arg_rep ex t; set_ttl_ok e (Some t) UNIT_SECONDS\<rbrakk> \<Longrightarrow>
      ok (setexCommand e k ex val st) (\<lambda>st'. db_rel e st' (a_setGeneric e False k xs (Some t) UNIT_SECONDS a))"
    and "\<lbrakk>arg_rep ex t; set_ttl_ok e (Some t) UNIT_MILLISECONDS\<rbrakk> \<Longrightarrow>
      ok (psetexCommand e k ex val st) (\<lambda>st'. db_rel e st' (a_setGeneric e False k xs (Some t) UNIT_MILLISECONDS a))"
  using assms
  by (auto simp: setCommand_def setnxCommand_def setexCommand_def psetexCommand_def set_ttl_ok_def set_ttl_def [of None]
      arg_rep_def intro!: encode_arg_wp setGeneric_ok)

lemma a_read_maps [simp]:
  "st_keys (a_read e k a) = st_keys (a_expire e k a)" "st_expires (a_read e k a) = st_expires (a_expire e k a)"
  by (simp_all add: a_read_def)

lemma room_read [intro]: "room n a \<Longrightarrow> room n (a_read e k a)"
  by (simp add: a_read_def room_expire)

lemma getGeneric_ok:
  assumes "db_rel e st a"
  shows "ok (getGenericCommand e k st) (\<lambda>(st', b). db_rel e st' (fst (a_getGeneric e k a)) \<and> b = snd (a_getGeneric e k a))"
  unfolding getGenericCommand_def ok_simps
  by (rule lookupKeyReadOrReply_wp [OF assms, of k])
    (auto simp: a_getGeneric_def option_rel_Some1 addReplyBulk_def split: option.splits elim!: obj_valE)

lemma getCommand_ok:
  assumes "db_rel e st a"
  shows "ok (getCommand e k st) (\<lambda>st'. db_rel e st' (fst (a_getGeneric e k a)))"
  unfolding getCommand_def ok_simps
  by (rule ok_mono2 [OF getGeneric_ok [OF assms, of k]]) auto

lemma room_getGeneric: "room n a \<Longrightarrow> room n (fst (a_getGeneric e k a))"
  by (auto simp: a_getGeneric_def split: option.splits val.splits)

lemma getset_ok:
  assumes "db_rel e st a" "room 1 a" "arg_rep val xs" "xs \<noteq> LLONG_MIN_text"
  shows "ok (getsetCommand e k val st) (\<lambda>st'. db_rel e st' (a_getset e k xs a))"
  unfolding getsetCommand_def ok_simps
proof (rule ok_mono2 [OF getGeneric_ok [OF assms(1), of k]], unfold prod.case)
  fix s b
  assume *: "db_rel e s (fst (a_getGeneric e k a)) \<and> b = snd (a_getGeneric e k a)"
  have "ok (setKey e s k ob) (\<lambda>st'. db_rel e (addDirty 1 st') (addDirty 1 (a_setKey e k (VStr xs) (fst (a_getGeneric e k a)))))"
    if "obj_rep (e_seed e) ob (VStr xs)" for ob
    by (rule ok_mono [OF setKey_rel [OF conjunct1 [OF *] room_getGeneric [OF assms(2)] that]]) auto
  then show "ok (if \<not> b then Some s
      else tryObjectEncoding (e_argrefs e) (StrRaw val) \<bind> (\<lambda>val. setKey e s k val \<bind> (\<lambda>st. Some (addDirty 1 st))))
      (\<lambda>st'. db_rel e st' (a_getset e k xs a))"
    using * by (auto simp: a_getset_def case_prod_beta intro!: encode_arg_wp [OF assms(3,4)])
qed

lemma strlen_ok:
  assumes "db_rel e st a"
  shows "ok (strlenCommand e k st) (\<lambda>st'. db_rel e st' (a_strlen e k a))"
  unfolding strlenCommand_def ok_simps
  by (rule lookupKeyReadOrReply_wp [OF assms, of k])
    (auto simp: a_strlen_def option_rel_Some1 checkType_def split: option.splits elim!: obj_valE)

lemma mget_loop_ok:
  "db_rel e st a \<Longrightarrow> ok (mget_loop e ks st) (\<lambda>st'. db_rel e st' (a_mget_loop e ks a))"
proof (induction ks arbitrary: st a)
  case (Cons k ks)
  show ?case
    unfolding mget_loop.simps ok_simps
    by (rule lookupKeyRead_wp [OF Cons.prems, of k])
      (auto simp: option_rel_Some1 addReplyBulk_def intro!: Cons.IH split: option.splits elim!: obj_valE)
qed simp

lemma mget_ok:
  "db_rel e st a \<Longrightarrow> ok (mgetCommand e ks st) (\<lambda>st'. db_rel e st' (a_mget e ks a))"
  unfolding mgetCommand_def a_mget_def by (rule mget_loop_ok) auto

subsection \<open>Ranges\<close>

lemma getrange_bounds_eval:
  assumes "in_sbytes 8 i" "in_sbytes 8 j" "n \<le> 2 ^ 29" "j < 2 ^ 32"
  shows "getrange_bounds n i j = (range_index n i,
    if n = 0 then - 1 else min (range_index n j) (int n - 1))"
proof -
  have "to_int64 (int n + i) = int n + i" if "i < 0" using that assms by (simp add: in_sbytes_def c_arith)
  moreover have "to_int64 (int n + j) = int n + j" if "j < 0" using that assms by (simp add: in_sbytes_def c_arith)
  moreover have "to_int64 (int n - 1) = int n - 1" using assms(3) by (simp add: c_arith)
  moreover have "0 \<le> range_index n j" "range_index n j < 2 ^ 32"
    using assms(3,4) by (auto simp: range_index_def)
  moreover from this have "to_uint32 (range_index n j) = nat (range_index n j)" by (simp add: c_arith)
  ultimately show ?thesis
    by (auto simp: getrange_bounds_def range_index_def Let_def max_def min_def)
qed

lemma getrange_read:
  assumes "in_sbytes 8 i" "in_sbytes 8 j" "length xs \<le> 2 ^ 29" "j < 2 ^ 32"
    and b: "getrange_bounds (length xs) i j = (s, t)"
  shows "if s > t then list_range i j xs = []
    else mem_read (nat s) (to_size (t - s + 1)) (xs @ rest) = Some (list_range i j xs)"
proof -
  have st: "s = range_index (length xs) i"
    "t = (if xs = [] then - 1 else min (range_index (length xs) j) (int (length xs) - 1))"
    using getrange_bounds_eval [OF assms(1,2) assms(3) assms(4)] b by auto
  have ge: "0 \<le> range_index (length xs) m" for m by (auto simp: range_index_def)
  show ?thesis
  proof (cases "s > t")
    case True
    then have "nat (min (range_index (length xs) j) (int (length xs) - 1) - s + 1) = 0 \<or> drop (nat s) xs = []"
      using st ge [of i] by (cases "xs = []") auto
    then show ?thesis using True st(1) by (auto simp: list_range_def Let_def)
  next
    case False
    have ne: "xs \<noteq> []" using False st ge [of i] by auto
    then have t: "t \<le> int (length xs) - 1" "0 \<le> s" "t = min (range_index (length xs) j) (int (length xs) - 1)"
      using st ge by auto
    have "to_size (t - s + 1) = nat (t - s + 1)" using False t assms(3) by (simp add: c_arith)
    moreover have "nat s + nat (t - s + 1) \<le> length xs" using False t by simp
    moreover have "list_range i j xs = take (nat (t - s + 1)) (drop (nat s) xs)"
      using st(1) t(3) by (simp add: list_range_def Let_def)
    ultimately show ?thesis using False by (simp add: mem_read_def)
  qed
qed

text \<open>The characters of a string value, as \<open>getrangeCommand\<close> reads them.\<close>

lemma getrange_chars:
  assumes "obj_rep seed ob (VStr xs)"
  shows "\<exists>rest. (case ob of
      StrInt n \<Rightarrow> do { t \<leftarrow> ll2string 32 n; Some (t @ [0], length t) }
    | StrRaw s \<Rightarrow> Some (sds_buf s, sdslen s)
    | _ \<Rightarrow> None) = Some (xs @ rest, length xs)"
  using assms by (rule obj_rep_StrE) (auto simp: ll2string_32 sdslen_correct elim!: sds_repE)

lemma obj_rep_length: "obj_rep seed ob (VStr xs) \<Longrightarrow> length xs \<le> 2 ^ 29"
  by (erule obj_rep_StrE) (auto dest!: length_dec_int)

lemma getrange_ok:
  assumes "db_rel e st a" "arg_rep x1 t1" "arg_rep x2 t2"
    and "\<And>j. parse_ll t2 = Some j \<Longrightarrow> j < 2 ^ 32"
  shows "ok (getrangeCommand e k x1 x2 st) (\<lambda>st'. db_rel e st' (a_getrange e k t1 t2 a))"
proof (cases "parse_ll t1 = None \<or> parse_ll t2 = None")
  case True
  then show ?thesis
    using assms(1)
    by (auto simp: getrangeCommand_def a_getrange_def getLongOrReply_eval [OF arg_obj_rep [OF assms(2)]]
        getLongOrReply_eval [OF arg_obj_rep [OF assms(3)]] split: option.splits)
next
  case False
  then obtain i j where ij: "parse_ll t1 = Some i" "parse_ll t2 = Some j" by auto
  note rng = parse_ll_range [OF ij(1)] parse_ll_range [OF ij(2)]
  show ?thesis
    unfolding getrangeCommand_def getLongOrReply_eval [OF arg_obj_rep [OF assms(2)]]
      getLongOrReply_eval [OF arg_obj_rep [OF assms(3)]] ij option.case bind.bind_lunit prod.case ok_simps
  proof (rule lookupKeyReadOrReply_wp [OF assms(1), of k], unfold prod.case)
    fix s r
    assume *: "db_rel e s (if a_look e k a = None then addReply shared_emptybulk (a_read e k a) else a_read e k a) \<and>
      rel_option (obj_rep (e_seed e)) r (a_look e k a)"
    consider "r = None" | ob S where "r = Some ob" "otype ob = REDIS_SET" "a_look e k a = Some (VSet S)"
      | ob xs where "r = Some ob" "obj_rep (e_seed e) ob (VStr xs)" "a_look e k a = Some (VStr xs)"
    proof (cases r)
      case (Some ob)
      then obtain v where v: "a_look e k a = Some v" "obj_rep (e_seed e) ob v" using * by (auto simp: option_rel_Some1)
      then show ?thesis using that Some by (cases v) (auto simp: obj_rep_type)
    qed (use that in auto)
    then show "ok (case r of None \<Rightarrow> Some s | Some ob \<Rightarrow>
                 let (st, err) = checkType s ob REDIS_STRING
                 in if err then Some st
                    else do {
                      (str, len) \<leftarrow> (case ob of
                          StrRaw s \<Rightarrow> Some (sds_buf s, sdslen s)
                        | StrInt n \<Rightarrow> do { t \<leftarrow> ll2string 32 n; Some (t @ [0], length t) }
                        | _ \<Rightarrow> None);
                      let (start, stop) = getrange_bounds len i j;
                      if start > stop then Some (addReply shared_emptybulk st)
                      else do {
                        t \<leftarrow> mem_read (nat start) (to_size (stop - start + 1)) str;
                        Some (addReply (Bulk t) st) } }) (\<lambda>st'. db_rel e st' (a_getrange e k t1 t2 a))"
    proof cases
      case 1
      then show ?thesis using * ij by (auto simp: a_getrange_def)
    next
      case 2
      then show ?thesis using * ij by (auto simp: a_getrange_def checkType_def)
    next
      case (3 ob xs)
      obtain rest where rest: "(case ob of
          StrRaw s \<Rightarrow> Some (sds_buf s, sdslen s)
        | StrInt n \<Rightarrow> do { t \<leftarrow> ll2string 32 n; Some (t @ [0], length t) }
        | _ \<Rightarrow> None) = Some (xs @ rest, length xs)" using getrange_chars [OF 3(2)] by blast
      obtain p q where pq: "getrange_bounds (length xs) i j = (p, q)" by fastforce
      have rd: "if p > q then list_range i j xs = []
        else mem_read (nat p) (to_size (q - p + 1)) (xs @ rest) = Some (list_range i j xs)"
        by (rule getrange_read [OF rng obj_rep_length [OF 3(2)] assms(4) [OF ij(2)] pq])
      have ty: "checkType s ob REDIS_STRING = (s, False)"
        using 3(2) by (simp add: checkType_def obj_rep_type)
      show ?thesis
        unfolding 3(1) option.case ty Let_def prod.case if_False rest bind.bind_lunit pq
        using rd * ij 3(3) by (auto simp: a_getrange_def split: if_splits)
    qed
  qed
qed

subsection \<open>Changing a string in place\<close>

lemma unshare_ok:
  assumes "db_rel e st a" "room 0 a" "st_keys a k = Some (VStr xs)" "obj_rep (e_seed e) ob (VStr xs)"
  shows "ok (unshare e st k ob) (\<lambda>(st', s). db_rel e st' a \<and> sds_rep s xs \<and> length xs \<le> 2 ^ 29)"
proof -
  have same: "a_put k (VStr xs) a = a" using assms(3) by (intro store_eqI) auto
  have copy: "ok (do { s' \<leftarrow> sdsnewlen (Some (sds_buf s)) (sdslen s);
                  st \<leftarrow> dbOverwrite e st k (StrRaw s'); Some (st, s') })
      (\<lambda>(st', s). db_rel e st' a \<and> sds_rep s xs \<and> length xs \<le> 2 ^ 29)"
    if s: "sds_rep s xs" "length xs \<le> 2 ^ 29" for s
  proof -
    obtain s' where s': "sdsnewlen (Some (sds_buf s)) (sdslen s) = Some s'" "sds_rep s' xs"
      using sdsdup_rep [OF s(1)] by (auto simp: sdsdup_def)
    then show ?thesis
      using dbOverwrite_wp [OF assms(1,2), of k "StrRaw s'" "VStr xs"] assms(3) s(2) by (simp add: same)
  qed
  obtain d where d: "getDecodedObject ob = Some (StrRaw d)" "sds_rep d xs" "length xs \<le> 2 ^ 29"
    using getDecodedObject_ok [OF assms(4)] by (auto simp: ok_iff)
  show ?thesis
    using assms(4)
  proof (rule obj_rep_StrE)
    fix s assume "ob = StrRaw s" "sds_rep s xs" "length xs \<le> 2 ^ 29"
    then show ?thesis using copy [of s] assms(1) by (cases "e_valrefs e k = 1") (simp_all add: unshare_def)
  next
    fix n assume "ob = StrInt n"
    then show ?thesis using d copy [of d] by (simp add: unshare_def)
  qed
qed

lemma overwrite_length: "xs \<noteq> [] \<Longrightarrow> length (overwrite old off xs) = max (length old) (off + length xs)"
  by (auto simp: overwrite_def)

lemma setrange_write_ok:
  assumes "db_rel e st a" "st_keys a k \<noteq> None" "sds_rep s old" "length old \<le> 2 ^ 29"
    and "arg_rep val xs" "xs \<noteq> []" "0 \<le> i" "i + int (length xs) \<le> 2 ^ 29"
  shows "ok (setrange_write k i val s st)
    (\<lambda>st'. db_rel e st' (a_update k (overwrite old (nat i) xs) (int (length (overwrite old (nat i) xs))) a))"
proof -
  define n where "n = nat i + length xs"
  note v = arg_repD [OF assms(5)]
  have vl: "sdslen val = length xs" using v sdslen_correct by blast
  have n: "n \<le> 2 ^ 29" "to_size (i + int (length xs)) = n"
    using assms(7,8) by (simp_all add: n_def c_arith nat_add_distrib)
  obtain s1 where s1: "sdsgrowzero s n = Some s1" "sds_rep s1 (old @ replicate (n - length old) 0)"
    using sdsgrowzero_rep [OF assms(3), of n] n(1) by auto
  obtain r where r: "sds_buf s1 = (old @ replicate (n - length old) 0) @ 0 # r"
    "sds_len s1 = int (length (old @ replicate (n - length old) 0))" "sds_free s1 = int (length r)"
    "length (old @ replicate (n - length old) 0) + length r < 2 ^ 31"
    using s1(2) by (rule sds_repE) blast
  define p where "p = old @ replicate (n - length old) 0"
  have pl: "length p = max (length old) n" by (simp add: p_def)
  define new where "new = overwrite old (nat i) xs"
  have p: "p = take (nat i) p @ take (length xs) (drop (nat i) p) @ drop n p"
    unfolding n_def add.commute [of "nat i"] drop_drop [symmetric] append_take_drop_id ..
  have new: "new = take (nat i) p @ xs @ drop n p"
    using assms(6) by (auto simp: new_def overwrite_def p_def n_def)
  have "length (take (nat i) p) = nat i" "length (take (length xs) (drop (nat i) p)) = length xs"
    using pl by (auto simp: n_def)
  then have w: "mem_write (nat i) xs (p @ 0 # r) = Some (new @ 0 # r)"
    using mem_write_at [of "take (nat i) p" "nat i" "take (length xs) (drop (nat i) p)" xs "drop n p @ 0 # r"] p new
    by (metis append.assoc)
  have nl: "length new = length p" using assms(6) by (simp add: new_def overwrite_length pl n_def)
  let ?s2 = "s1\<lparr>sds_buf := new @ 0 # r\<rparr>"
  have s2: "sds_rep ?s2 new" "length new \<le> 2 ^ 29"
    using r nl assms(4) n(1) pl by (auto simp: p_def intro!: sds_repI)
  have "db_rel e (storeObject k (StrRaw ?s2) st) (a_put k (VStr new) a)"
    using s2 by (intro storeObject_ok assms(1,2)) simp
  moreover have "mem_read 0 (length xs) (sds_buf val) = Some xs" using sds_read_rep v vl by fastforce
  moreover have "sdslen ?s2 = length new" by (rule sdslen_correct [OF s2(1)])
  ultimately show ?thesis
    using w r(1) s1(1) n(2) vl assms(6)
    by (auto simp: setrange_write_def a_update_def p_def new_def [symmetric] Let_def)
qed

text \<open>The three outcomes of the lookup of a string command.\<close>

lemma a_string_cases:
  assumes "rel_option (obj_rep seed) r (a_look e k a)"
  obtains "r = None" "a_look e k a = None" "a_string e k f a = f None (a_expire e k a)"
  | ob S where "r = Some ob" "otype ob = REDIS_SET" "a_look e k a = Some (VSet S)"
      "a_string e k f a = addReply shared_wrongtypeerr (a_expire e k a)"
  | ob xs where "r = Some ob" "otype ob = REDIS_STRING" "obj_rep seed ob (VStr xs)" "a_look e k a = Some (VStr xs)"
      "a_string e k f a = f (Some xs) (a_expire e k a)" "length xs \<le> 2 ^ 29"
proof (cases r)
  case None
  then show ?thesis using assms that(1) by (simp add: a_string_def)
next
  case (Some ob)
  then obtain v where v: "a_look e k a = Some v" "obj_rep seed ob v" using assms by (auto simp: option_rel_Some1)
  then show ?thesis using that(2,3) Some obj_rep_length by (cases v) (auto simp: obj_rep_type a_string_def)
qed

lemma room_look_put:
  assumes "room 1 a"
  shows "room 0 (a_put k v (a_expire e k a))"
  by (rule room_put) (use assms in auto)

lemma a_put_put [simp]: "a_put k v (a_put k w a) = a_put k v a"
  by (rule store_eqI) auto

lemma setrange_ok:
  assumes "db_rel e st a" "room 1 a" "arg_rep off t" "arg_rep val xs"
    and "\<And>i. parse_ll t = Some i \<Longrightarrow> i + int (length xs) < 2 ^ 63"
  shows "ok (setrangeCommand e k off val st) (\<lambda>st'. db_rel e st' (a_setrange e k t xs a))"
proof (cases "parse_ll t")
  case None
  then show ?thesis using assms(1)
    by (auto simp: setrangeCommand_def a_setrange_def getLongOrReply_eval [OF arg_obj_rep [OF assms(3)]])
next
  case (Some i)
  have vl: "sdslen val = length xs" using arg_repD [OF assms(4)] sdslen_correct by blast
  have vz: "sdslen val = 0 \<longleftrightarrow> xs = []" by (simp add: vl)
  show ?thesis
  proof (cases "i < 0")
    case True
    then show ?thesis using assms(1) Some
      by (auto simp: setrangeCommand_def a_setrange_def getLongOrReply_eval [OF arg_obj_rep [OF assms(3)]])
  next
    case False
    have sz: "to_int64 (i + int (length xs)) = i + int (length xs)"
      using False assms(5) [OF Some] by (intro to_int64_in_range) auto
    define f where "f = (\<lambda>old b. if xs = [] then addReply (Integer (int (length (text_of old)))) b
            else if i + int (length xs) > 2 ^ 29 then addReply err_too_long b
            else let new = overwrite (text_of old) (nat i) xs in a_update k new (int (length new)) b)"
    have spec: "a_setrange e k t xs a = a_string e k f a"
      using Some False by (simp add: a_setrange_def f_def)
    have main: "ok (setrange_target e k i val r s) (\<lambda>(st', tgt).
        case tgt of None \<Rightarrow> db_rel e st' (a_setrange e k t xs a)
        | Some s' \<Rightarrow> ok (setrange_write k i val s' st') (\<lambda>st'. db_rel e st' (a_setrange e k t xs a)))"
      if s: "db_rel e s (a_expire e k a)" and r: "rel_option (obj_rep (e_seed e)) r (a_look e k a)" for s r
    proof (cases "xs \<noteq> [] \<and> i + int (length xs) \<le> 2 ^ 29")
      case True
      then have c: "sdslen val \<noteq> 0" "checkStringLength s (i + int (length xs)) = (s, False)"
        using vl by (auto simp: checkStringLength_def)
      note wok = setrange_write_ok [OF _ _ _ _ assms(4) conjunct1 [OF True] _ conjunct2 [OF True]]
      show ?thesis
      proof (rule a_string_cases [OF r, where f = f])
        assume r: "r = None" "a_look e k a = None" "a_string e k f a = f None (a_expire e k a)"
        obtain e0 where e0: "sdsempty = Some e0" "sds_rep e0 []" using sdsempty_rep by blast
        have "ok (dbAdd e s k (StrRaw e0)) (\<lambda>st'. db_rel e st' (a_put k (VStr []) (a_expire e k a)))"
          using s assms(2) r(2) e0(2) by (intro dbAdd_ok) (auto simp: a_look_def)
        then have "ok (dbAdd e s k (StrRaw e0)) (\<lambda>st'. ok (setrange_write k i val e0 st') (\<lambda>st'. db_rel e st' (a_setrange e k t xs a)))"
        proof (rule ok_mono)
          fix s' assume "db_rel e s' (a_put k (VStr []) (a_expire e k a))"
          from wok [OF this _ e0(2)] show "ok (setrange_write k i val e0 s') (\<lambda>st'. db_rel e st' (a_setrange e k t xs a))"
            unfolding spec r(3) by (rule ok_mono) (use False True in \<open>auto simp: f_def text_of_def a_update_def Let_def\<close>)
        qed
        then show ?thesis using c r(1) by (simp add: setrange_target_def sz vl e0(1))
      next
        fix ob S assume "r = Some ob" "otype ob = REDIS_SET" "a_string e k f a = addReply shared_wrongtypeerr (a_expire e k a)"
        then show ?thesis using s by (auto simp: setrange_target_def checkType_def spec)
      next
        fix ob old
        assume r: "r = Some ob" "otype ob = REDIS_STRING" "obj_rep (e_seed e) ob (VStr old)" "a_look e k a = Some (VStr old)"
          "a_string e k f a = f (Some old) (a_expire e k a)" "length old \<le> 2 ^ 29"
        have "ok (unshare e s k ob) (\<lambda>(st', s'). db_rel e st' (a_expire e k a) \<and> sds_rep s' old \<and> length old \<le> 2 ^ 29)"
          using s assms(2) r by (intro unshare_ok) (auto simp: a_look_def intro: room_le)
        then have "ok (unshare e s k ob) (\<lambda>(st', s'). ok (setrange_write k i val s' st') (\<lambda>st'. db_rel e st' (a_setrange e k t xs a)))"
        proof (rule ok_mono2, unfold prod.case)
          fix st' s' assume *: "db_rel e st' (a_expire e k a) \<and> sds_rep s' old \<and> length old \<le> 2 ^ 29"
          have "st_keys (a_expire e k a) k \<noteq> None" using r(4) by (simp add: a_look_def)
          from wok [OF conjunct1 [OF *] this conjunct1 [OF conjunct2 [OF *]] r(6)]
          show "ok (setrange_write k i val s' st') (\<lambda>st'. db_rel e st' (a_setrange e k t xs a))"
            unfolding spec r(5) by (rule ok_mono) (use False True in \<open>auto simp: f_def text_of_def Let_def\<close>)
        qed
        then show ?thesis using c r(1,2) stringObjectLen_ok [OF r(3)]
          by (auto simp: setrange_target_def sz vl checkType_def elim!: ok_mono2)
      qed
    next
      case no: False
      have c: "xs \<noteq> [] \<Longrightarrow> checkStringLength s (i + int (length xs)) = (addReply err_too_long s, True)"
        using no by (auto simp: checkStringLength_def)
      note run = setrange_target_def vz vl checkType_def
      have f: "xs = [] \<Longrightarrow> f old b = addReply (Integer (int (length (text_of old)))) b"
        "xs \<noteq> [] \<Longrightarrow> f old b = addReply err_too_long b" for old b
        using no by (auto simp: f_def)
      show ?thesis
        unfolding spec
        by (rule a_string_cases [OF r, where f = f]; cases "xs = []")
          (use s c sz in \<open>auto simp: run f text_of_def stringObjectLen_ok\<close>)
    qed
    show ?thesis
      unfolding setrangeCommand_def getLongOrReply_eval [OF arg_obj_rep [OF assms(3)]] Some option.case bind.bind_lunit
        prod.case if_not_P [OF False] ok_simps
    proof (rule lookupKeyWrite_wp [OF assms(1)], unfold prod.case ok_simps, elim conjE)
      fix s r assume "db_rel e s (a_expire e k a)" "rel_option (obj_rep (e_seed e)) r (a_look e k a)"
      from main [OF this] show "ok (setrange_target e k i val r s) (\<lambda>x. ok (case x of (st, s) \<Rightarrow>
          (case s of None \<Rightarrow> Some st | Some s \<Rightarrow> setrange_write k i val s st)) (\<lambda>st'. db_rel e st' (a_setrange e k t xs a)))"
        by (rule ok_mono2) (auto split: option.splits)
    qed
  qed
qed

lemma append_ok:
  assumes "db_rel e st a" "room 1 a" "arg_rep arg xs" "xs \<noteq> LLONG_MIN_text"
  shows "ok (appendCommand e k arg st) (\<lambda>st'. db_rel e st' (a_append e k xs a))"
  unfolding appendCommand_def ok_simps
proof (rule lookupKeyWrite_wp [OF assms(1), of k], unfold prod.case, elim conjE)
  fix s r assume s: "db_rel e s (a_expire e k a)" and r: "rel_option (obj_rep (e_seed e)) r (a_look e k a)"
  note v = arg_repD [OF assms(3)]
  have vl: "sdslen arg = length xs" using v sdslen_correct by blast
  define f where "f = (\<lambda>old b. let new = text_of old @ xs
       in if old \<noteq> None \<and> length new > 2 ^ 29 then addReply err_too_long b
          else a_update k new (int (length new)) b)"
  have spec: "a_append e k xs a = a_string e k f a" by (simp add: a_append_def f_def)
  show "ok (case r of
       None \<Rightarrow> do {
         val \<leftarrow> tryObjectEncoding (e_argrefs e) (StrRaw arg);
         st \<leftarrow> dbAdd e s k val;
         totlen \<leftarrow> stringObjectLen val;
         Some (addReply (Integer (int totlen)) (addDirty 1 (signalModifiedKey k st))) }
     | Some ob \<Rightarrow>
         let (st, err) = checkType s ob REDIS_STRING
         in if err then Some st
            else do {
              olen \<leftarrow> stringObjectLen ob;
              let (st, err) = checkStringLength st (to_int64 (int (olen + sdslen arg)));
              if err then Some st
              else do {
                (st, s) \<leftarrow> unshare e st k ob;
                s \<leftarrow> sdscatlen s (sds_buf arg) (sdslen arg);
                let st = storeObject k (StrRaw s) st;
                Some (addReply (Integer (int (sdslen s))) (addDirty 1 (signalModifiedKey k st))) } })
    (\<lambda>st'. db_rel e st' (a_append e k xs a))"
  proof (rule a_string_cases [OF r, where f = f])
    assume n: "r = None" "a_look e k a = None" "a_string e k f a = f None (a_expire e k a)"
    have "ok (dbAdd e s k ob) (\<lambda>x. ok (stringObjectLen ob) (\<lambda>n. db_rel e
        (addReply (Integer (int n)) (addDirty 1 (signalModifiedKey k x))) (a_append e k xs a)))"
      if ob: "obj_rep (e_seed e) ob (VStr xs)" for ob
      unfolding spec n(3)
      by (rule dbAdd_wp [OF s _ _ ob])
        (use n(2) assms(2) stringObjectLen_ok [OF ob] in
          \<open>auto simp: a_look_def f_def text_of_def a_update_def Let_def simp del: a_expire_simps\<close>)
    then show ?thesis using n(1) by (auto intro!: encode_arg_wp [OF assms(3,4)])
  next
    fix ob S assume "r = Some ob" "otype ob = REDIS_SET" "a_string e k f a = addReply shared_wrongtypeerr (a_expire e k a)"
    then show ?thesis using s by (auto simp: checkType_def spec)
  next
    fix ob old
    assume p: "r = Some ob" "otype ob = REDIS_STRING" "obj_rep (e_seed e) ob (VStr old)" "a_look e k a = Some (VStr old)"
      "a_string e k f a = f (Some old) (a_expire e k a)" "length old \<le> 2 ^ 29"
    have sz: "to_int64 (int (length old) + int (length xs)) = int (length old) + int (length xs)"
      using p(6) v by (simp add: c_arith)
    have ty: "checkType s ob REDIS_STRING = (s, False)" using p(2) by (simp add: checkType_def)
    show ?thesis
    proof (cases "length old + length xs \<le> 2 ^ 29")
      case False
      then show ?thesis
        unfolding spec p(5) using s
        by (simp add: p(1) ty stringObjectLen_ok [OF p(3)] vl sz checkStringLength_def f_def text_of_def Let_def
            db_rel_addReply)
    next
      case True
      have cat: "ok (sdscatlen s' (sds_buf arg) (length xs)) (\<lambda>n. db_rel e
          (addReply (Integer (int (sdslen n))) (addDirty 1 (signalModifiedKey k (storeObject k (StrRaw n) st'))))
          (a_append e k xs a))"
        if h: "db_rel e st' (a_expire e k a)" "sds_rep s' old" for st' s'
      proof -
        obtain b where b: "sds_buf arg = xs @ 0 # b" using v by (auto elim!: sds_repE)
        obtain n where n: "sdscatlen s' (sds_buf arg) (length xs) = Some n" "sds_rep n (old @ xs)"
          using sdscatlen_rep [OF h(2), of "length xs" "sds_buf arg"] True b by auto
        have "db_rel e (storeObject k (StrRaw n) st') (a_put k (VStr (old @ xs)) (a_expire e k a))"
          using n(2) True p(4) by (intro storeObject_ok h) (auto simp: a_look_def)
        then show ?thesis
          unfolding spec p(5) using n sdslen_correct [OF n(2)] True
          by (auto simp: f_def text_of_def a_update_def Let_def)
      qed
      have "ok (unshare e s k ob) (\<lambda>(st', s'). ok (sdscatlen s' (sds_buf arg) (length xs)) (\<lambda>n. db_rel e
          (addReply (Integer (int (sdslen n))) (addDirty 1 (signalModifiedKey k (storeObject k (StrRaw n) st'))))
          (a_append e k xs a)))"
        by (rule ok_mono2 [OF unshare_ok [OF s _ _ p(3)]])
          (use assms(2) p(4) cat in \<open>auto simp: a_look_def simp del: a_expire_simps intro: room_le\<close>)
      then show ?thesis
        using True by (auto simp: p(1) ty stringObjectLen_ok [OF p(3)] vl sz checkStringLength_def elim!: ok_mono2)
    qed
  qed
qed

subsection \<open>Counters\<close>

text \<open>The test before the addition rejects exactly the sums that do not fit.\<close>

lemma incr_check:
  assumes "in_sbytes 8 v" "in_sbytes 8 d"
  shows "(d < 0 \<and> v < 0 \<and> d < - (2 ^ 63) - v \<or> d > 0 \<and> v > 0 \<and> d > 2 ^ 63 - 1 - v) \<longleftrightarrow> \<not> in_sbytes 8 (v + d)"
  using assms by (auto simp: in_sbytes_def)

definition counter :: "byte list option \<Rightarrow> int option" where
  "counter old = (case old of None \<Rightarrow> Some 0 | Some xs \<Rightarrow> parse_ll xs)"

lemma incrDecr_ok:
  assumes "db_rel e st a" "room 1 a" "in_sbytes 8 d"
    and "\<And>xs n. a_look e k a = Some (VStr xs) \<Longrightarrow> parse_ll xs = Some n \<Longrightarrow> n + d \<noteq> - (2 ^ 63)"
    and "a_look e k a = None \<Longrightarrow> d \<noteq> - (2 ^ 63)"
  shows "ok (incrDecrCommand e k d st) (\<lambda>st'. db_rel e st' (a_incr e k d a))"
  unfolding incrDecrCommand_def ok_simps
proof (rule lookupKeyWrite_wp [OF assms(1), of k], unfold prod.case, elim conjE)
  fix s r assume s: "db_rel e s (a_expire e k a)" and r: "rel_option (obj_rep (e_seed e)) r (a_look e k a)"
  define f where "f = (\<lambda>old b. case (case old of None \<Rightarrow> Some 0 | Some xs \<Rightarrow> parse_ll xs) of
         None \<Rightarrow> addReply err_not_integer b
       | Some n \<Rightarrow>
           if in_sbytes 8 (n + d) then a_update k (dec_int (n + d)) (n + d) b
           else addReply (Error ''increment or decrement would overflow'') b)"
  have spec: "a_incr e k d a = a_string e k f a" by (simp add: a_incr_def f_def)
  let ?tail = "\<lambda>ob s. do {
       (st, r) \<leftarrow> getLongLongFromObjectOrReply s ob None;
       case r of
         None \<Rightarrow> Some st
       | Some oldvalue \<Rightarrow>
           if d < 0 \<and> oldvalue < 0 \<and> d < - (2 ^ 63) - oldvalue \<or>
              d > 0 \<and> oldvalue > 0 \<and> d > 2 ^ 63 - 1 - oldvalue
           then Some (addReply (Error ''increment or decrement would overflow'') st)
           else do {
             value \<leftarrow> c_llong (oldvalue + d);
             new \<leftarrow> createStringObjectFromLongLong value;
             st \<leftarrow> (if ob \<noteq> None then dbOverwrite e st k new else dbAdd e st k new);
             let st = addDirty 1 (signalModifiedKey k st);
             t \<leftarrow> obj_text new;
             Some (addReply (Integer value) st) } }"
  have tail: "ok (?tail ob s) (\<lambda>st'. db_rel e st' (f old (a_expire e k a)))"
    if ll: "getLongLongFromObject ob = Some (counter old)" "\<And>n. counter old = Some n \<Longrightarrow> in_sbytes 8 n \<and> n + d \<noteq> - (2 ^ 63)"
      and ob: "ob = None \<longleftrightarrow> a_look e k a = None" for ob old
  proof (cases "counter old")
    case None
    then show ?thesis using s ll by (auto simp: getLongLongFromObjectOrReply_def f_def counter_def)
  next
    case (Some n)
    note n = ll(2) [OF Some]
    have g: "getLongLongFromObjectOrReply s ob None = Some (s, Some n)"
      using ll(1) Some by (simp add: getLongLongFromObjectOrReply_def)
    have fn: "f old b = (if in_sbytes 8 (n + d) then a_update k (dec_int (n + d)) (n + d) b
           else addReply (Error ''increment or decrement would overflow'') b)" for b
      using Some by (simp add: f_def counter_def)
    show ?thesis
    proof (cases "in_sbytes 8 (n + d)")
      case False
      show ?thesis
        unfolding g bind.bind_lunit prod.case option.case incr_check [OF conjunct1 [OF n] assms(3)] fn
        using s False by (simp add: db_rel_addReply)
    next
      case True
      note new = createFromLongLong_ok [OF True conjunct2 [OF n], of "e_seed e"]
      have upd: "ok (if ob \<noteq> None then dbOverwrite e s k (StrInt (n + d)) else dbAdd e s k (StrInt (n + d)))
          (\<lambda>st'. db_rel e st' (a_put k (VStr (dec_int (n + d))) (a_expire e k a)))"
        by (cases "ob = None")
          (use s assms(2) ob new in \<open>auto simp: a_look_def simp del: obj_rep.simps a_expire_simps
              intro!: dbAdd_ok dbOverwrite_ok intro: room_le\<close>)
      then have "ok (if ob \<noteq> None then dbOverwrite e s k (StrInt (n + d)) else dbAdd e s k (StrInt (n + d)))
          (\<lambda>st'. db_rel e (addReply (Integer (n + d)) (addDirty 1 (signalModifiedKey k st')))
            (a_update k (dec_int (n + d)) (n + d) (a_expire e k a)))"
        by (rule ok_mono) (auto simp: a_update_def)
      then show ?thesis
        unfolding g bind.bind_lunit prod.case option.case incr_check [OF conjunct1 [OF n] assms(3)] fn
          c_llong_ok [OF True] if_P [OF True] conjunct1 [OF new] Let_def obj_text_ok [OF conjunct2 [OF new]] ok_simps
        using True by (simp add: ok_mono)
    qed
  qed
  show "ok (let (st, err) = case r of None \<Rightarrow> (s, False) | Some ob \<Rightarrow> checkType s ob REDIS_STRING
     in if err then Some st else ?tail r st) (\<lambda>st'. db_rel e st' (a_incr e k d a))"
  proof (rule a_string_cases [OF r, where f = f])
    assume n: "r = None" "a_look e k a = None" "a_string e k f a = f None (a_expire e k a)"
    have "ok (?tail r s) (\<lambda>st'. db_rel e st' (f None (a_expire e k a)))"
      by (rule tail) (use n assms(5) in \<open>auto simp: getLongLongFromObject_def counter_def in_sbytes_def\<close>)
    then show ?thesis unfolding spec n(3) using n(1) by (simp only: option.case Let_def prod.case if_False)
  next
    fix ob S assume p: "r = Some ob" "otype ob = REDIS_SET" "a_string e k f a = addReply shared_wrongtypeerr (a_expire e k a)"
    then show ?thesis using s by (auto simp: checkType_def spec)
  next
    fix ob old
    assume p: "r = Some ob" "otype ob = REDIS_STRING" "obj_rep (e_seed e) ob (VStr old)" "a_look e k a = Some (VStr old)"
      "a_string e k f a = f (Some old) (a_expire e k a)" "length old \<le> 2 ^ 29"
    have "ok (?tail r s) (\<lambda>st'. db_rel e st' (f (Some old) (a_expire e k a)))"
      by (rule tail) (use p getLongLongFromObject_ok [OF p(3)] parse_ll_range assms(4) in \<open>auto simp: counter_def\<close>)
    then show ?thesis unfolding spec p(5) using p(1,2)
      by (simp only: option.case Let_def prod.case if_False checkType_def simp_thms)
  qed
qed

lemma incrby_ok:
  assumes "db_rel e st a" "room 1 a" "arg_rep arg t"
    and "\<And>d xs n. \<lbrakk>parse_ll t = Some d; a_look e k a = Some (VStr xs); parse_ll xs = Some n\<rbrakk> \<Longrightarrow> n + d \<noteq> - (2 ^ 63)"
    and "\<And>d. \<lbrakk>parse_ll t = Some d; a_look e k a = None\<rbrakk> \<Longrightarrow> d \<noteq> - (2 ^ 63)"
  shows "ok (incrbyCommand e k arg st)
    (\<lambda>st'. db_rel e st' (case parse_ll t of None \<Rightarrow> addReply err_not_integer a | Some d \<Rightarrow> a_incr e k d a))"
proof (cases "parse_ll t")
  case None
  then show ?thesis using assms(1)
    by (auto simp: incrbyCommand_def getLongLongOrReply_eval [OF arg_obj_rep [OF assms(3)]])
next
  case (Some d)
  then show ?thesis using assms(1,2,4,5) parse_ll_range [OF Some]
    by (auto simp: incrbyCommand_def getLongLongOrReply_eval [OF arg_obj_rep [OF assms(3)]] intro!: incrDecr_ok)
qed

lemma decrby_ok:
  assumes "db_rel e st a" "room 1 a" "arg_rep arg t" "parse_ll t \<noteq> Some (- (2 ^ 63))"
    and "\<And>d xs n. \<lbrakk>parse_ll t = Some d; a_look e k a = Some (VStr xs); parse_ll xs = Some n\<rbrakk> \<Longrightarrow> n - d \<noteq> - (2 ^ 63)"
  shows "ok (decrbyCommand e k arg st)
    (\<lambda>st'. db_rel e st' (case parse_ll t of None \<Rightarrow> addReply err_not_integer a | Some d \<Rightarrow> a_incr e k (- d) a))"
proof (cases "parse_ll t")
  case None
  then show ?thesis using assms(1)
    by (auto simp: decrbyCommand_def getLongLongOrReply_eval [OF arg_obj_rep [OF assms(3)]])
next
  case (Some d)
  have d: "in_sbytes 8 (- d)" "- d \<noteq> - (2 ^ 63)"
    using parse_ll_range [OF Some] assms(4) Some by (auto simp: in_sbytes_def)
  then show ?thesis using assms(1,2,5) Some
    by (auto simp: decrbyCommand_def getLongLongOrReply_eval [OF arg_obj_rep [OF assms(3)]] c_llong_ok intro!: incrDecr_ok)
qed

subsection \<open>Several keys\<close>

fun mset_args :: "sds list \<Rightarrow> (byte list \<times> byte list) list \<Rightarrow> bool" where
  "mset_args [] [] \<longleftrightarrow> True"
| "mset_args (key # val # rest) ((k, v) # kvs) \<longleftrightarrow>
     sds_rep key k \<and> arg_rep val v \<and> v \<noteq> LLONG_MIN_text \<and> mset_args rest kvs"
| "mset_args _ _ \<longleftrightarrow> False"

lemma mset_args_length: "mset_args args kvs \<Longrightarrow> length args = 2 * length kvs"
  by (induction args kvs rule: mset_args.induct) auto

lemma a_look_expire: "a_look e k (a_expire e k' a) = a_look e k a"
proof -
  have "expired e (a_expire e k' a) k \<longleftrightarrow> expired e a k \<and> (k \<noteq> k' \<or> e_slave e)"
    by (auto simp: expired_def split: option.splits if_splits)
  then show ?thesis by (auto simp: a_look_def)
qed

lemma mset_busy_ok:
  "\<lbrakk>db_rel e st a; mset_args args kvs\<rbrakk> \<Longrightarrow>
   ok (mset_busy e args st) (\<lambda>(st', n). db_rel e st' (fold (\<lambda>(k, v). a_expire e k) kvs a) \<and>
     (n \<noteq> 0 \<longleftrightarrow> (\<exists>(k, v) \<in> set kvs. a_look e k a \<noteq> None)))"
proof (induction args kvs arbitrary: st a rule: mset_args.induct)
  case (2 key val rest k v kvs)
  then have k: "sds_text key = Some k" by (simp add: sds_text_rep)
  show ?case
    unfolding mset_busy.simps k bind.bind_lunit ok_simps
  proof (rule lookupKeyWrite_wp [OF "2.prems"(1)], unfold prod.case, elim conjE)
    fix s r assume s: "db_rel e s (a_expire e k a)" "rel_option (obj_rep (e_seed e)) r (a_look e k a)"
    have r: "r = None \<longleftrightarrow> a_look e k a = None" using s(2) by (cases r; cases "a_look e k a") auto
    have IH: "ok (mset_busy e rest s) (\<lambda>(st', n). db_rel e st' (fold (\<lambda>(k, v). a_expire e k) kvs (a_expire e k a)) \<and>
      (n \<noteq> 0 \<longleftrightarrow> (\<exists>(k', v) \<in> set kvs. a_look e k' (a_expire e k a) \<noteq> None)))"
      using "2.IH" s(1) "2.prems"(2) by auto
    show "ok (mset_busy e rest s \<bind> (\<lambda>(st, n). Some (st, (if r \<noteq> None then 1 else 0) + n)))
      (\<lambda>(st', n). db_rel e st' (fold (\<lambda>(k, v). a_expire e k) ((k, v) # kvs) a) \<and>
         (n \<noteq> 0 \<longleftrightarrow> (\<exists>(k, v) \<in> set ((k, v) # kvs). a_look e k a \<noteq> None)))"
      unfolding ok_simps by (rule ok_mono2 [OF IH]) (use r in \<open>auto simp: a_look_expire\<close>)
  qed
qed auto

lemma room_setKey: "room (Suc n) a \<Longrightarrow> room n (a_setKey e k v a)"
proof -
  assume "room (Suc n) a"
  then have "room n (a_put k v (a_expire e k a))" by (intro room_put) auto
  then show ?thesis by (simp add: a_setKey_def room_def)
qed

lemma mset_loop_ok:
  "\<lbrakk>db_rel e st a; mset_args args kvs; room (length kvs) a\<rbrakk> \<Longrightarrow>
   ok (mset_loop e args st) (\<lambda>st'. db_rel e st' (fold (\<lambda>(k, v). a_setKey e k (VStr v)) kvs a))"
proof (induction args kvs arbitrary: st a rule: mset_args.induct)
  case (2 key val rest k v kvs)
  then have k: "sds_text key = Some k" "arg_rep val v" "v \<noteq> LLONG_MIN_text" "mset_args rest kvs"
    by (simp_all add: sds_text_rep)
  have "ok (setKey e st k ob) (\<lambda>x. ok (mset_loop e rest x)
      (\<lambda>st'. db_rel e st' (fold (\<lambda>(k, v). a_setKey e k (VStr v)) ((k, v) # kvs) a)))"
    if "obj_rep (e_seed e) ob (VStr v)" for ob
  proof (rule ok_mono [OF setKey_rel [OF "2.prems"(1) room_le [OF "2.prems"(3)] that]])
    fix x assume "db_rel e x (a_setKey e k (VStr v) a)"
    then show "ok (mset_loop e rest x) (\<lambda>st'. db_rel e st' (fold (\<lambda>(k, v). a_setKey e k (VStr v)) ((k, v) # kvs) a))"
      using "2.IH" k(4) room_setKey "2.prems"(3) by auto
  qed simp
  then show ?case
    unfolding mset_loop.simps k(1) bind.bind_lunit ok_simps by (rule encode_arg_wp [OF k(2,3)])
qed auto

lemma room_fold_expire: "room n a \<Longrightarrow> room n (fold (\<lambda>(k, v). a_expire e k) kvs a)"
  by (induction kvs arbitrary: a) auto

lemma mset_ok:
  assumes "db_rel e st a" "mset_args args kvs" "room (length kvs) a"
  shows "ok (msetGenericCommand e args nx st) (\<lambda>st'. db_rel e st' (a_mset e kvs nx a))"
proof -
  define b where "b = (if nx then fold (\<lambda>(k, v). a_expire e k) kvs a else a)"
  have len: "length args = 2 * length kvs" by (rule mset_args_length [OF assms(2)])
  have odd: "\<not> (length args + 1) mod 2 = 0" by (simp add: len)
  have room: "room (length kvs) b" using assms(3) by (simp add: b_def room_fold_expire)
  have busy: "ok (if nx then mset_busy e args st else Some (st, 0)) (\<lambda>(st', n). db_rel e st' b \<and>
      (n \<noteq> 0 \<longleftrightarrow> nx \<and> (\<exists>(k, v) \<in> set kvs. a_look e k a \<noteq> None)))"
    using mset_busy_ok [OF assms(1,2)] assms(1) by (simp add: b_def)
  show ?thesis
    unfolding msetGenericCommand_def Let_def if_not_P [OF odd] ok_simps
  proof (rule ok_mono2 [OF busy], unfold prod.case, elim conjE)
    fix s n assume s: "db_rel e s b" "n \<noteq> 0 \<longleftrightarrow> nx \<and> (\<exists>(k, v) \<in> set kvs. a_look e k a \<noteq> None)"
    show "ok (if n \<noteq> 0 then Some (addReply shared_czero s) else mset_loop e args s \<bind> (\<lambda>st.
        Some (addReply (if nx then shared_cone else shared_ok) (addDirty (int ((length args + 1 - 1) div 2)) st))))
      (\<lambda>st'. db_rel e st' (a_mset e kvs nx a))"
    proof (cases "n = 0")
      case True
      have "ok (mset_loop e args s) (\<lambda>st. db_rel e
          (addReply (if nx then shared_cone else shared_ok) (addDirty (int ((length args + 1 - 1) div 2)) st)) (a_mset e kvs nx a))"
        by (rule ok_mono [OF mset_loop_ok [OF s(1) assms(2) room]])
          (use True s(2) in \<open>auto simp: a_mset_def b_def len Let_def\<close>)
      then show ?thesis using True by simp
    next
      case False
      then show ?thesis using s by (auto simp: a_mset_def b_def)
    qed
  qed
qed

end
