(* ===== verification/Bitops.thy ===== *)
theory Bitops
  imports TString
begin

text \<open>
  \<open>bitops.c\<close>: \<open>SETBIT\<close>, \<open>GETBIT\<close>, \<open>BITOP\<close> and \<open>BITCOUNT\<close>, the string commands that work on single bits.
  \<open>popcount\<close> and \<open>BITOP\<close> have a fast path over machine words; the lemmas show that each computes
  what the definition on single bytes does.  A word is read in little-endian order; the results do not
  depend on it, as every operation acts on the bytes of a word alike.  As in \<open>TString\<close> every
  command has its specification \<open>a_...\<close> on the maps and a lemma that it refines it.
\<close>

section \<open>Counting bits\<close>

text \<open>The bits of a 32 bit word, by the additions of \<open>popcount\<close> on \<open>aux1\<close> to \<open>aux4\<close>.\<close>

definition aux_bits :: "32 word \<Rightarrow> 32 word" where
  "aux_bits aux =
     (let aux = aux - (drop_bit 1 aux AND 0x55555555);
          aux = (aux AND 0x33333333) + (drop_bit 2 aux AND 0x33333333)
      in drop_bit 24 (((aux + drop_bit 4 aux) AND 0x0F0F0F0F) * 0x01010101))"

definition bitsinbyte :: "nat list" where
  "bitsinbyte = [0,1,1,2,1,2,2,3,1,2,2,3,2,3,3,4,1,2,2,3,2,3,3,4,2,3,3,4,3,4,4,5,1,2,2,3,2,3,3,4,2,3,3,4,3,4,4,5,2,3,3,4,3,4,4,5,
     3,4,4,5,4,5,5,6,1,2,2,3,2,3,3,4,2,3,3,4,3,4,4,5,2,3,3,4,3,4,4,5,3,4,4,5,4,5,5,6,2,3,3,4,3,4,4,5,3,4,4,5,4,5,5,6,3,4,4,5,4,5,5,6,
     4,5,5,6,5,6,6,7,1,2,2,3,2,3,3,4,2,3,3,4,3,4,4,5,2,3,3,4,3,4,4,5,3,4,4,5,4,5,5,6,2,3,3,4,3,4,4,5,3,4,4,5,4,5,5,6,3,4,4,5,4,5,5,6,
     4,5,5,6,5,6,6,7,2,3,3,4,3,4,4,5,3,4,4,5,4,5,5,6,3,4,4,5,4,5,5,6,4,5,5,6,5,6,6,7,3,4,4,5,4,5,5,6,4,5,5,6,5,6,6,7,4,5,5,6,5,6,6,7,
     5,6,6,7,6,7,7,8]"

definition load32 :: "nat \<Rightarrow> mem \<Rightarrow> 32 word option" where
  "load32 off m = do { bs \<leftarrow> mem_read off 4 m; Some (word_of_int (le_unsigned bs)) }"

text \<open>The loop over 16 bytes at a time: the place it stops, the bytes left and the bits so far.\<close>

fun count_words :: "mem \<Rightarrow> nat \<Rightarrow> nat \<Rightarrow> int \<Rightarrow> (nat \<times> nat \<times> int) option" where
  "count_words p off cnt bits =
     (if 16 \<le> cnt then do {
        aux1 \<leftarrow> load32 off p;
        aux2 \<leftarrow> load32 (off + 4) p;
        aux3 \<leftarrow> load32 (off + 8) p;
        aux4 \<leftarrow> load32 (off + 12) p;
        count_words p (off + 16) (cnt - 16)
          (bits + uint (aux_bits aux1 + aux_bits aux2 + aux_bits aux3 + aux_bits aux4)) }
      else Some (off, cnt, bits))"

declare count_words.simps [simp del]

primrec count_tail :: "mem \<Rightarrow> nat \<Rightarrow> nat \<Rightarrow> int \<Rightarrow> int option" where
  "count_tail p off 0 bits = Some bits"
| "count_tail p off (Suc n) bits = do { b \<leftarrow> rd off p; count_tail p (off + 1) n (bits + int (bitsinbyte ! unat b)) }"

text \<open>The string starts at \<open>s\<close> of the buffer \<open>p\<close>; the count is not negative.\<close>

definition popcount :: "mem \<Rightarrow> nat \<Rightarrow> nat \<Rightarrow> int option" where
  "popcount p s cnt = do {
     (off, cnt, bits) \<leftarrow> count_words p s cnt 0;
     count_tail p off cnt bits }"

subsection \<open>The reference\<close>

definition bits_of :: "byte \<Rightarrow> nat" where
  "bits_of b = length (filter (bit b) [0..<8])"

definition bits_in :: "byte list \<Rightarrow> int" where
  "bits_in xs = (\<Sum>b \<leftarrow> xs. int (bits_of b))"

lemma bits_in_simps [simp]: "bits_in [] = 0" "bits_in (x # xs) = int (bits_of x) + bits_in xs"
  "bits_in (xs @ ys) = bits_in xs + bits_in ys"
  by (simp_all add: bits_in_def)

lemma bitsinbyte_correct: "bitsinbyte ! unat b = bits_of b"
proof -
  have "list_all (\<lambda>i. bitsinbyte ! nat i = bits_of (word_of_int i)) [0..255]" by code_simp
  moreover have "uint b \<in> set [0..255]" using uint_lt2p [of b] by simp
  ultimately have "bitsinbyte ! nat (uint b) = bits_of (word_of_int (uint b))" unfolding list_all_iff by blast
  then show ?thesis by simp
qed

subsection \<open>The additions on words\<close>

text \<open>Masks act on the low byte and on the rest.\<close>

lemma and_byte:
  fixes d m u v :: int
  assumes "0 \<le> d" "d < 256" "0 \<le> m" "m < 256"
  shows "(d + 256 * v) AND (m + 256 * u) = (d AND m) + 256 * (v AND u)"
proof -
  have s: "x + 256 * y = take_bit 8 x OR push_bit 8 y" "x = take_bit 8 x" if "0 \<le> x" "x < 256" for x y :: int
  proof -
    show t: "x = take_bit 8 x" using that by (simp add: take_bit_eq_mod)
    have "x + push_bit 8 y = x OR push_bit 8 y"
      by (rule disjunctive_add [of x "push_bit 8 y"]) (use t in \<open>metis bit_push_bit_iff bit_take_bit_iff not_less\<close>)
    then show "x + 256 * y = take_bit 8 x OR push_bit 8 y" using t by (simp add: push_bit_eq_mult mult.commute)
  qed
  have "0 \<le> d AND m" "d AND m < 256"
    using assms AND_upper1 [of d m] by (auto simp: and_nonnegative_int_iff)
  from s(1) [OF this] s(1) [OF assms(1,2)] s(1) [OF assms(3,4)] show ?thesis
    by (simp add: bit_eq_iff bit_simps) (auto simp: not_less)
qed

lemma and_low:
  fixes x m w :: int
  assumes "0 \<le> m" "m < 2 ^ n"
  shows "(x + 2 ^ n * w) AND m = x AND m"
proof -
  have m: "m = take_bit n m" using assms by (simp add: take_bit_eq_mod)
  have "a AND take_bit n m = take_bit n a AND take_bit n m" for a by (auto simp: bit_eq_iff bit_simps)
  then have *: "a AND m = take_bit n a AND m" for a using m by simp
  have "take_bit n (x + 2 ^ n * w) = take_bit n x" by (simp add: take_bit_eq_mod)
  then show ?thesis using * [of x] * [of "x + 2 ^ n * w"] by simp
qed

lemma div_and_byte:
  fixes d m u v :: int
  assumes "0 \<le> d" "d < 256" "0 \<le> m" "m < 2 ^ k" "j + k = 8"
  shows "(d + 256 * v) div 2 ^ j AND (m + 256 * u) = (d div 2 ^ j AND m) + 256 * (v div 2 ^ j AND u)"
proof -
  have p: "(256 :: int) = 2 ^ j * 2 ^ k" using assms(5) by (simp flip: power_add)
  have "(d + 256 * v) div 2 ^ j = (d + 2 ^ j * (2 ^ k * v)) div 2 ^ j" by (simp add: p mult.assoc)
  also have "\<dots> = d div 2 ^ j + 2 ^ k * v" by simp
  also have "\<dots> = d div 2 ^ j + 2 ^ k * (v mod 2 ^ j + 2 ^ j * (v div 2 ^ j))" by (simp only: mod_mult_div_eq)
  also have "\<dots> = (d div 2 ^ j + 2 ^ k * (v mod 2 ^ j)) + 256 * (v div 2 ^ j)" by (simp only: p ring_distribs ac_simps)
  finally have e: "(d + 256 * v) div 2 ^ j = (d div 2 ^ j + 2 ^ k * (v mod 2 ^ j)) + 256 * (v div 2 ^ j)" .
  have d: "0 \<le> d div 2 ^ j" using assms(1) by (simp add: pos_imp_zdiv_nonneg_iff)
  have "2 ^ j * (d div 2 ^ j) \<le> d" using pos_mod_sign [OF zero_less_power [of 2 j], of d] mult_div_mod_eq [of "2 ^ j" d] by linarith
  then have "2 ^ j * (d div 2 ^ j) < 2 ^ j * 2 ^ k" using assms(2) p by simp
  then have d: "0 \<le> d div 2 ^ j" "d div 2 ^ j < 2 ^ k" using d by simp_all
  have r: "0 \<le> v mod 2 ^ j" "v mod 2 ^ j \<le> 2 ^ j - 1" using pos_mod_bound [of "2 ^ j" v] by (simp_all add: zle_diff1_eq)
  have "2 ^ k * (v mod 2 ^ j) \<le> 2 ^ k * (2 ^ j - 1)" using r(2) by (intro mult_left_mono) auto
  then have low: "0 \<le> d div 2 ^ j + 2 ^ k * (v mod 2 ^ j)" "d div 2 ^ j + 2 ^ k * (v mod 2 ^ j) < 256"
    using d r(1) p by (simp_all add: algebra_simps)
  have m: "m < 256" using assms(4) power_increasing [of k 8 "2 :: int"] assms(5) by simp
  then show ?thesis unfolding e and_byte [OF low assms(3) m] by (simp add: and_low [OF assms(3,4)])
qed

text \<open>The value of four bytes, and what each addition does to a byte.\<close>

definition of_bytes :: "int \<Rightarrow> int \<Rightarrow> int \<Rightarrow> int \<Rightarrow> int" where
  "of_bytes a b c d = a + 256 * (b + 256 * (c + 256 * d))"

definition pairs_of :: "int \<Rightarrow> int" where "pairs_of b = b - (b div 2 AND 85)"
definition nibbles_of :: "int \<Rightarrow> int" where "nibbles_of b = (b AND 51) + (b div 4 AND 51)"

lemma byte_steps:
  assumes "0 \<le> b" "b < 256"
  shows "0 \<le> (b div 2 AND 85)" "(b div 2 AND 85) \<le> b" "0 \<le> pairs_of b" "pairs_of b < 256"
    "0 \<le> nibbles_of (pairs_of b)" "nibbles_of (pairs_of b) \<le> 68" "nibbles_of (pairs_of b) mod 16 \<le> 4"
    "(nibbles_of (pairs_of b) + nibbles_of (pairs_of b) div 16) mod 16 = int (bits_of (word_of_int b))"
    "bits_of (word_of_int b) \<le> 8"
proof -
  have "list_all (\<lambda>b. 0 \<le> (b div 2 AND 85) \<and> (b div 2 AND 85) \<le> b \<and> 0 \<le> pairs_of b \<and> pairs_of b < 256 \<and>
    0 \<le> nibbles_of (pairs_of b) \<and> nibbles_of (pairs_of b) \<le> 68 \<and> nibbles_of (pairs_of b) mod 16 \<le> 4 \<and>
    (nibbles_of (pairs_of b) + nibbles_of (pairs_of b) div 16) mod 16 = int (bits_of (word_of_int b)) \<and>
    bits_of (word_of_int b) \<le> 8) [0..255]" by code_simp
  moreover have "b \<in> set [0..255]" using assms by simp
  ultimately show "0 \<le> (b div 2 AND 85)" "(b div 2 AND 85) \<le> b" "0 \<le> pairs_of b" "pairs_of b < 256"
    "0 \<le> nibbles_of (pairs_of b)" "nibbles_of (pairs_of b) \<le> 68" "nibbles_of (pairs_of b) mod 16 \<le> 4"
    "(nibbles_of (pairs_of b) + nibbles_of (pairs_of b) div 16) mod 16 = int (bits_of (word_of_int b))"
    "bits_of (word_of_int b) \<le> 8"
    unfolding list_all_iff by blast+
qed

lemma mask_bytes:
  assumes "0 \<le> a" "a < 256" "0 \<le> b" "b < 256" "0 \<le> c" "c < 256" "0 \<le> d" "d < 256" "0 \<le> m" "m < 256"
  shows "of_bytes a b c d AND of_bytes m m m m = of_bytes (a AND m) (b AND m) (c AND m) (d AND m)"
  unfolding of_bytes_def using assms by (simp only: and_byte)

lemma shift_mask_bytes:
  assumes "0 \<le> a" "a < 256" "0 \<le> b" "b < 256" "0 \<le> c" "c < 256" "0 \<le> d" "d < 256" "0 \<le> m" "m < 2 ^ k" "j + k = 8"
  shows "of_bytes a b c d div 2 ^ j AND of_bytes m m m m =
    of_bytes (a div 2 ^ j AND m) (b div 2 ^ j AND m) (c div 2 ^ j AND m) (d div 2 ^ j AND m)"
  unfolding of_bytes_def using assms by (simp only: div_and_byte)

lemma of_bytes_range:
  assumes "0 \<le> a" "a < 256" "0 \<le> b" "b < 256" "0 \<le> c" "c < 256" "0 \<le> d" "d < 256"
  shows "0 \<le> of_bytes a b c d" "of_bytes a b c d < 2 ^ 32"
  using assms by (simp_all add: of_bytes_def)

lemma add_nibble:
  "(a + 256 * v) + (a + 256 * v) div 16 = (a + a div 16 + 16 * (v mod 16)) + 256 * (v + v div 16)" for a v :: int
proof -
  have "(a + 256 * v) div 16 = a div 16 + 16 * v" by simp
  moreover have "16 * v = 16 * (v mod 16) + 256 * (v div 16)" using mult_div_mod_eq [of 16 v] by linarith
  ultimately show ?thesis by simp
qed

text \<open>The last two steps: the sums of the nibbles, and the sum of the bytes by a multiplication.\<close>

lemma add_nibbles:
  "of_bytes a b c d + of_bytes a b c d div 16 =
    of_bytes (a + a div 16 + 16 * (b mod 16)) (b + b div 16 + 16 * (c mod 16)) (c + c div 16 + 16 * (d mod 16)) (d + d div 16)"
proof -
  have n: "(x + 256 * y) mod 16 = x mod 16" for x y :: int using mod_mult_self2 [of x 16 "16 * y"] by simp
  show ?thesis by (simp only: of_bytes_def add_nibble n)
qed

lemma nibble_bound:
  fixes x y :: int
  assumes "0 \<le> x" "x \<le> 68" "y mod 16 \<le> 4"
  shows "0 \<le> x + x div 16 + 16 * (y mod 16)" "x + x div 16 + 16 * (y mod 16) < 256" "0 \<le> x + x div 16" "x + x div 16 < 256"
proof -
  have x: "0 \<le> x div 16" using assms(1) by (simp add: pos_imp_zdiv_nonneg_iff)
  have "x div 16 \<le> 68 div 16" by (rule zdiv_mono1 [OF assms(2)]) simp
  then have "x div 16 \<le> 4" by simp
  moreover have "0 \<le> y mod 16" by simp
  moreover have "0 \<le> x + s + 16 * t \<and> x + s + 16 * t < 256 \<and> 0 \<le> x + s \<and> x + s < 256"
    if "0 \<le> s" "s \<le> 4" "0 \<le> t" "t \<le> 4" for s t :: int using that assms(1,2) by simp
  ultimately show "0 \<le> x + x div 16 + 16 * (y mod 16)" "x + x div 16 + 16 * (y mod 16) < 256" "0 \<le> x + x div 16" "x + x div 16 < 256"
    using x assms(3) by blast+
qed

lemma mod_16: "x AND 15 = x mod 16" for x :: int
  using take_bit_eq_mask [of 4 x] by (simp add: take_bit_eq_mod mask_eq_exp_minus_1)

lemma nibble_sums:
  assumes "0 \<le> a" "a \<le> 68" "a mod 16 \<le> 4" "0 \<le> b" "b \<le> 68" "b mod 16 \<le> 4" "0 \<le> c" "c \<le> 68" "c mod 16 \<le> 4"
    "0 \<le> d" "d \<le> 68" "d mod 16 \<le> 4"
  shows "0 \<le> of_bytes a b c d + of_bytes a b c d div 16" "of_bytes a b c d + of_bytes a b c d div 16 < 2 ^ 32"
    "(of_bytes a b c d + of_bytes a b c d div 16) AND of_bytes 15 15 15 15 =
     of_bytes ((a + a div 16) mod 16) ((b + b div 16) mod 16) ((c + c div 16) mod 16) ((d + d div 16) mod 16)"
proof -
  note R = nibble_bound [OF assms(1,2,6)] nibble_bound [OF assms(4,5,9)] nibble_bound [OF assms(7,8,12)] nibble_bound [OF assms(10,11,12)]
  show "0 \<le> of_bytes a b c d + of_bytes a b c d div 16" "of_bytes a b c d + of_bytes a b c d div 16 < 2 ^ 32"
    unfolding add_nibbles by (rule of_bytes_range [OF R(1,2,5,6,9,10,15,16)])+
  have m16: "(x + 16 * y) mod 16 = x mod 16" for x y :: int by simp
  have m: "(0 :: int) \<le> 15" "(15 :: int) < 256" by simp_all
  show "(of_bytes a b c d + of_bytes a b c d div 16) AND of_bytes 15 15 15 15 =
     of_bytes ((a + a div 16) mod 16) ((b + b div 16) mod 16) ((c + c div 16) mod 16) ((d + d div 16) mod 16)"
    unfolding add_nibbles mask_bytes [OF R(1,2,5,6,9,10,15,16) m] mod_16 m16 ..
qed

lemma sum_by_product:
  assumes "0 \<le> a" "a \<le> 8" "0 \<le> b" "b \<le> 8" "0 \<le> c" "c \<le> 8" "0 \<le> d" "d \<le> (8 :: int)"
  shows "(of_bytes a b c d * 0x01010101) mod 2 ^ 32 div 2 ^ 24 = a + b + c + d"
proof -
  define low where "low = a + 256 * (a + b) + 65536 * (a + b + c)"
  have "of_bytes a b c d * 0x01010101 = (low + 2 ^ 24 * (a + b + c + d)) + 2 ^ 32 * (b + c + d + 256 * (c + d) + 65536 * d)"
    by (simp add: of_bytes_def low_def)
  moreover have low: "0 \<le> low" "low < 2 ^ 24" using assms by (simp_all add: low_def)
  moreover have "low + 2 ^ 24 * (a + b + c + d) < 2 ^ 32" using assms by (simp add: low_def)
  ultimately have "(of_bytes a b c d * 0x01010101) mod 2 ^ 32 = low + 2 ^ 24 * (a + b + c + d)"
    using assms by (simp only: mod_mult_self2) (rule mod_pos_pos_trivial, simp_all)
  moreover have "(low + 2 ^ 24 * (a + b + c + d)) div 2 ^ 24 = a + b + c + d" using low by simp
  ultimately show ?thesis by simp
qed

lemma uint_aux_bits:
  assumes x: "uint x = of_bytes (uint a) (uint b) (uint c) (uint (d :: byte))"
  shows "uint (aux_bits x) = int (bits_of a + bits_of b + bits_of c + bits_of (d :: byte))"
proof -
  have r: "0 \<le> uint y" "uint y < 256" for y :: byte using uint_lt2p [of y] by simp_all
  note S = byte_steps [OF r]
  have c: "of_bytes 85 85 85 85 = 0x55555555" "of_bytes 51 51 51 51 = 0x33333333" "of_bytes 15 15 15 15 = 0x0F0F0F0F"
    by (simp_all add: of_bytes_def)
  define p where "p = (\<lambda>y :: byte. pairs_of (uint y))"
  define q where "q = (\<lambda>y :: byte. nibbles_of (p y))"
  define n where "n = (\<lambda>y :: byte. (q y + q y div 16) mod 16)"
  have n: "n y = int (bits_of y)" "0 \<le> n y" "n y \<le> 8" for y using S(8,9) [of y] by (simp_all add: n_def q_def p_def)
  define x1 where "x1 = x - (drop_bit 1 x AND 0x55555555)"
  have "uint (drop_bit 1 x AND 0x55555555) = of_bytes (uint a div 2 AND 85) (uint b div 2 AND 85) (uint c div 2 AND 85) (uint d div 2 AND 85)"
    using shift_mask_bytes [where j = 1 and k = 7 and m = 85, OF r r r r, of a b c d] by (simp add: uint_and drop_bit_eq_div uint_div x c)
  moreover from this have "drop_bit 1 x AND 0x55555555 \<le> x"
    using S(2) [of a] S(2) [of b] S(2) [of c] S(2) [of d] by (simp add: word_le_def x of_bytes_def)
  moreover from this have "uint x1 = uint x - uint (drop_bit 1 x AND 0x55555555)"
    unfolding x1_def word_le_def by (rule uint_sub_lem [THEN iffD1])
  ultimately have x1: "uint x1 = of_bytes (p a) (p b) (p c) (p d)"
    by (simp add: x p_def pairs_of_def of_bytes_def)
  have pr: "0 \<le> p y" "p y < 256" for y using S(3,4) [of y] by (simp_all add: p_def)
  define x2 where "x2 = (x1 AND 0x33333333) + (drop_bit 2 x1 AND 0x33333333)"
  have "uint (x1 AND 0x33333333) = of_bytes (p a AND 51) (p b AND 51) (p c AND 51) (p d AND 51)"
    using mask_bytes [OF pr pr pr pr, of 51 a b c d] by (simp add: uint_and x1 c)
  moreover have "uint (drop_bit 2 x1 AND 0x33333333) = of_bytes (p a div 4 AND 51) (p b div 4 AND 51) (p c div 4 AND 51) (p d div 4 AND 51)"
    using shift_mask_bytes [where j = 2 and k = 6 and m = 51, OF pr pr pr pr, of a b c d] by (simp add: uint_and drop_bit_eq_div uint_div x1 c)
  ultimately have s: "uint (x1 AND 0x33333333) + uint (drop_bit 2 x1 AND 0x33333333) = of_bytes (q a) (q b) (q c) (q d)"
    by (simp add: q_def nibbles_of_def of_bytes_def)
  have qr: "0 \<le> q y" "q y \<le> 68" "q y mod 16 \<le> 4" for y using S(5-7) [of y] by (simp_all add: q_def p_def)
  have q256: "q y < 256" for y using qr(2) [of y] by simp
  note R = of_bytes_range [OF qr(1) q256 qr(1) q256 qr(1) q256 qr(1) q256, of a b c d]
  have x2: "uint x2 = of_bytes (q a) (q b) (q c) (q d)"
    using R(2) s unfolding x2_def by (subst uint_add_lem [THEN iffD1]) simp_all
  note N = nibble_sums [OF qr qr qr qr, of a b c d]
  define x3 where "x3 = (x2 + drop_bit 4 x2) AND 0x0F0F0F0F"
  have "uint (x2 + drop_bit 4 x2) = of_bytes (q a) (q b) (q c) (q d) + of_bytes (q a) (q b) (q c) (q d) div 16"
    using N(1,2) x2 by (simp add: uint_word_ariths(1) drop_bit_eq_div uint_div)
  then have x3: "uint x3 = of_bytes (n a) (n b) (n c) (n d)"
    using N(3) by (simp add: x3_def uint_and c n_def)
  have "uint (x3 * 0x01010101) = (of_bytes (n a) (n b) (n c) (n d) * 0x01010101) mod 2 ^ 32"
    by (simp add: uint_word_ariths(3) x3)
  then have "uint (drop_bit 24 (x3 * 0x01010101)) = n a + n b + n c + n d"
    using sum_by_product [OF n(2,3) n(2,3) n(2,3) n(2,3), of a b c d] by (simp add: drop_bit_eq_div uint_div)
  moreover have "aux_bits x = drop_bit 24 (x3 * 0x01010101)" by (simp add: aux_bits_def Let_def x1_def x2_def x3_def)
  ultimately show ?thesis by (simp add: n(1))
qed

subsection \<open>The loops\<close>

lemma load32_at:
  assumes "off + 4 \<le> length p"
  shows "\<exists>x. load32 off p = Some x \<and> uint (aux_bits x) = bits_in (take 4 (drop off p))"
proof -
  have "\<exists>a b c d. xs = [a, b, c, d]" if "length xs = 4" for xs :: mem using that by (auto simp: numeral_eq_Suc length_Suc_conv)
  moreover have "length (take 4 (drop off p)) = 4" using assms by simp
  ultimately obtain a b c d where bs: "take 4 (drop off p) = [a, b, c, d]" by blast
  have r: "0 \<le> uint y" "uint y < 256" for y :: byte using uint_lt2p [of y] by simp_all
  have v: "le_unsigned [a, b, c, d] = of_bytes (uint a) (uint b) (uint c) (uint d)" by (simp add: of_bytes_def)
  have "uint (word_of_int (le_unsigned [a, b, c, d]) :: 32 word) = of_bytes (uint a) (uint b) (uint c) (uint d)"
    unfolding v using of_bytes_range [OF r r r r, of a b c d] by (simp add: uint_word_of_int take_bit_eq_mod)
  from uint_aux_bits [OF this] show ?thesis
    using assms by (simp add: load32_def mem_read_def bs)
qed

lemma bits_of_le: "bits_of b \<le> 8"
  using length_filter_le [of "bit b" "[0..<8]"] by (simp add: bits_of_def)

lemma bits_in_bounds: "0 \<le> bits_in xs \<and> bits_in xs \<le> 8 * int (length xs)"
proof (induction xs)
  case (Cons x xs)
  then show ?case using bits_of_le [of x] by simp
qed simp

text \<open>The sum of four counts does not wrap.\<close>

lemma four_counts:
  assumes "uint a \<le> 32" "uint b \<le> 32" "uint c \<le> 32" "uint d \<le> (32 :: int)"
  shows "uint (a + b + c + (d :: 32 word)) = uint a + uint b + uint c + uint d"
  using assms by (simp add: uint_word_ariths(1) mod_pos_pos_trivial)

lemma count_words_correct:
  "s + cnt \<le> length p \<Longrightarrow> \<exists>k. 16 * k \<le> cnt \<and>
    count_words p s cnt bits = Some (s + 16 * k, cnt - 16 * k, bits + bits_in (take (16 * k) (drop s p)))"
proof (induction p s cnt bits rule: count_words.induct)
  case (1 p s cnt bits)
  show ?case
  proof (cases "16 \<le> cnt")
    case True
    obtain a b c d where w: "load32 s p = Some a" "load32 (s + 4) p = Some b" "load32 (s + 8) p = Some c" "load32 (s + 12) p = Some d"
      and n: "uint (aux_bits a) = bits_in (take 4 (drop s p))" "uint (aux_bits b) = bits_in (take 4 (drop (s + 4) p))"
        "uint (aux_bits c) = bits_in (take 4 (drop (s + 8) p))" "uint (aux_bits d) = bits_in (take 4 (drop (s + 12) p))"
      using load32_at [of s p] load32_at [of "s + 4" p] load32_at [of "s + 8" p] load32_at [of "s + 12" p] True "1.prems" by auto
    let ?sum = "uint (aux_bits a + aux_bits b + aux_bits c + aux_bits d)"
    have "bits_in (take 4 xs) \<le> 32" for xs using bits_in_bounds [of "take 4 xs"] by (simp add: min_def split: if_splits)
    then have "?sum = bits_in (take 4 (drop s p)) + bits_in (take 4 (drop (s + 4) p)) + bits_in (take 4 (drop (s + 8) p)) + bits_in (take 4 (drop (s + 12) p))"
      using n by (simp add: four_counts)
    moreover have "take 16 (drop s p) = take 4 (drop s p) @ take 4 (drop (s + 4) p) @ take 4 (drop (s + 8) p) @ take 4 (drop (s + 12) p)"
      using take_add [of 4 12 "drop s p"] take_add [of 4 8 "drop (s + 4) p"] take_add [of 4 4 "drop (s + 8) p"]
      by (simp add: add.commute)
    ultimately have sum: "?sum = bits_in (take 16 (drop s p))" by simp
    have "s + 16 + (cnt - 16) \<le> length p" using True "1.prems" by simp
    then obtain k where k: "16 * k \<le> cnt - 16" "count_words p (s + 16) (cnt - 16) (bits + ?sum) =
        Some (s + 16 + 16 * k, cnt - 16 - 16 * k, bits + ?sum + bits_in (take (16 * k) (drop (s + 16) p)))"
      using "1.IH" [OF True w] by blast
    have "take (16 * Suc k) (drop s p) = take 16 (drop s p) @ take (16 * k) (drop (s + 16) p)"
      using take_add [of 16 "16 * k" "drop s p"] by (simp add: add.commute)
    then have "bits + ?sum + bits_in (take (16 * k) (drop (s + 16) p)) = bits + bits_in (take (16 * Suc k) (drop s p))" using sum by simp
    then show ?thesis using k True w
      by (intro exI [of _ "Suc k"]) (simp add: count_words.simps [of p s cnt bits])
  next
    case False
    then show ?thesis by (intro exI [of _ 0]) (simp add: count_words.simps [of p s cnt bits])
  qed
qed

lemma count_tail_correct:
  "s + cnt \<le> length p \<Longrightarrow> count_tail p s cnt bits = Some (bits + bits_in (take cnt (drop s p)))"
proof (induction cnt arbitrary: s bits)
  case (Suc cnt)
  have "drop s p = p ! s # drop (Suc s) p" using Suc.prems by (simp add: Cons_nth_drop_Suc)
  then show ?case using Suc by (simp add: rd_def bitsinbyte_correct)
qed simp

lemma popcount_eval:
  assumes "s + cnt \<le> length p"
  shows "popcount p s cnt = Some (bits_in (take cnt (drop s p)))"
proof -
  obtain k where k: "16 * k \<le> cnt"
    "count_words p s cnt 0 = Some (s + 16 * k, cnt - 16 * k, bits_in (take (16 * k) (drop s p)))"
    using count_words_correct [OF assms, of 0] by auto
  have "take cnt (drop s p) = take (16 * k) (drop s p) @ take (cnt - 16 * k) (drop (s + 16 * k) p)"
    using take_add [of "16 * k" "cnt - 16 * k" "drop s p"] k(1) by (simp add: add.commute)
  then show ?thesis using k assms by (simp add: popcount_def count_tail_correct)
qed

section \<open>Single bits\<close>

abbreviation err_bit_offset :: string where
  "err_bit_offset \<equiv> ''bit offset is not an integer or out of range''"

abbreviation err_bit_value :: string where
  "err_bit_value \<equiv> ''bit is not an integer or out of range''"

definition getBitOffsetFromArgument :: "db \<Rightarrow> sds \<Rightarrow> (db \<times> nat option) option" where
  "getBitOffsetFromArgument st arg = do {
     (st, r) \<leftarrow> getLongLongFromObjectOrReply st (Some (StrRaw arg)) (Some err_bit_offset);
     case r of
       None \<Rightarrow> Some (st, None)
     | Some loffset \<Rightarrow>
         if loffset < 0 \<or> nat loffset div 8 \<ge> 512 * 1024 * 1024
         then Some (addReply (Error err_bit_offset) st, None)
         else Some (st, Some (nat loffset)) }"

text \<open>The part of \<open>setbitCommand\<close> behind the lookup: bit \<open>7 - (bitoffset & 0x7)\<close> of a byte.\<close>

definition setbit_write :: "byte list \<Rightarrow> nat \<Rightarrow> int \<Rightarrow> sds \<Rightarrow> db \<Rightarrow> db option" where
  "setbit_write key bitoffset on1 s st = do {
     let i = bitoffset div 8;
     s \<leftarrow> sdsgrowzero s (i + 1);
     c \<leftarrow> rd i (sds_buf s);
     let byteval = uint c;
     let b = 7 - bitoffset mod 8;
     let bitval = byteval AND push_bit b 1;
     let byteval = byteval AND NOT (push_bit b 1);
     let byteval = byteval OR push_bit b (on1 AND 1);
     buf \<leftarrow> wr i (word_of_int byteval) (sds_buf s);
     let st = storeObject key (StrRaw (s\<lparr>sds_buf := buf\<rparr>)) st;
     Some (addReply (if bitval \<noteq> 0 then shared_cone else shared_czero) (addDirty 1 (signalModifiedKey key st))) }"

text \<open>The string to change, or \<open>None\<close> when the reply has been sent.\<close>

definition setbit_target :: "env \<Rightarrow> byte list \<Rightarrow> robj option \<Rightarrow> db \<Rightarrow> (db \<times> sds option) option" where
  "setbit_target e key ob st =
     (case ob of
        None \<Rightarrow> do { s \<leftarrow> sdsempty; st \<leftarrow> dbAdd e st key (StrRaw s); Some (st, Some s) }
      | Some ob \<Rightarrow>
          let (st, err) = checkType st ob REDIS_STRING
          in if err then Some (st, None)
             else do { (st, s) \<leftarrow> unshare e st key ob; Some (st, Some s) })"

definition setbitCommand :: "env \<Rightarrow> byte list \<Rightarrow> sds \<Rightarrow> sds \<Rightarrow> db \<Rightarrow> db option" where
  "setbitCommand e key off val st = do {
     (st, r) \<leftarrow> getBitOffsetFromArgument st off;
     case r of
       None \<Rightarrow> Some st
     | Some bitoffset \<Rightarrow> do {
         (st, r) \<leftarrow> getLongFromObjectOrReply st (Some (StrRaw val)) (Some err_bit_value);
         case r of
           None \<Rightarrow> Some st
         | Some on1 \<Rightarrow>
             if on1 AND NOT 1 \<noteq> 0 then Some (addReply (Error err_bit_value) st)
             else do {
               (st, ob) \<leftarrow> lookupKeyWrite e st key;
               (st, s) \<leftarrow> setbit_target e key ob st;
               case s of None \<Rightarrow> Some st | Some s \<Rightarrow> setbit_write key bitoffset on1 s st } } }"

text \<open>The characters of a string value and their number.\<close>

definition string_chars :: "robj \<Rightarrow> (mem \<times> nat) option" where
  "string_chars ob = (case ob of
      StrInt n \<Rightarrow> do { t \<leftarrow> ll2string 32 n; Some (t @ [0], length t) }
    | StrRaw s \<Rightarrow> Some (sds_buf s, sdslen s)
    | _ \<Rightarrow> None)"

definition getbitCommand :: "env \<Rightarrow> byte list \<Rightarrow> sds \<Rightarrow> db \<Rightarrow> db option" where
  "getbitCommand e key off st = do {
     (st, r) \<leftarrow> getBitOffsetFromArgument st off;
     case r of
       None \<Rightarrow> Some st
     | Some bitoffset \<Rightarrow> do {
         (st, ob) \<leftarrow> lookupKeyReadOrReply e st key shared_czero;
         case ob of
           None \<Rightarrow> Some st
         | Some ob \<Rightarrow>
             let (st, err) = checkType st ob REDIS_STRING
             in if err then Some st
                else do {
                  let i = bitoffset div 8;
                  let b = 7 - bitoffset mod 8;
                  (p, len) \<leftarrow> string_chars ob;
                  bitval \<leftarrow> (if i < len then do { c \<leftarrow> rd i p; Some (uint c AND push_bit b 1) } else Some 0);
                  Some (addReply (if bitval \<noteq> 0 then shared_cone else shared_czero) st) } } }"

section \<open>Counting the bits of a range\<close>

definition bitcount_bounds :: "nat \<Rightarrow> int \<Rightarrow> int \<Rightarrow> int \<times> int" where
  "bitcount_bounds len start stop =
     (let start = (if start < 0 then to_int64 (int len + start) else start);
          stop = (if stop < 0 then to_int64 (int len + stop) else stop);
          start = (if start < 0 then 0 else start);
          stop = (if stop < 0 then 0 else stop);
          stop = (if stop \<ge> int len then to_int64 (int len - 1) else stop)
      in (start, stop))"

text \<open>The arguments behind the key give the range; \<open>None\<close> when an error has been sent.\<close>

definition bitcount_range :: "nat \<Rightarrow> sds list \<Rightarrow> db \<Rightarrow> (db \<times> (int \<times> int) option) option" where
  "bitcount_range len args st =
     (case args of
        [start_arg, stop_arg] \<Rightarrow> do {
          (st, r) \<leftarrow> getLongFromObjectOrReply st (Some (StrRaw start_arg)) None;
          case r of
            None \<Rightarrow> Some (st, None)
          | Some start \<Rightarrow> do {
              (st, r) \<leftarrow> getLongFromObjectOrReply st (Some (StrRaw stop_arg)) None;
              case r of
                None \<Rightarrow> Some (st, None)
              | Some stop \<Rightarrow> Some (st, Some (bitcount_bounds len start stop)) } }
      | [] \<Rightarrow> Some (st, Some (0, int len - 1))
      | _ \<Rightarrow> Some (addReply shared_syntaxerr st, None))"

definition bitcountCommand :: "env \<Rightarrow> byte list \<Rightarrow> sds list \<Rightarrow> db \<Rightarrow> db option" where
  "bitcountCommand e key args st = do {
     (st, ob) \<leftarrow> lookupKeyReadOrReply e st key shared_czero;
     case ob of
       None \<Rightarrow> Some st
     | Some ob \<Rightarrow>
         let (st, err) = checkType st ob REDIS_STRING
         in if err then Some st
            else do {
              (p, len) \<leftarrow> string_chars ob;
              (st, r) \<leftarrow> bitcount_range len args st;
              case r of
                None \<Rightarrow> Some st
              | Some (start, stop) \<Rightarrow>
                  if start > stop then Some (addReply shared_czero st)
                  else do {
                    n \<leftarrow> popcount p (nat start) (nat (stop - start + 1));
                    Some (addReply (Integer n) st) } } }"

section \<open>The specifications\<close>

text \<open>Bit \<open>n\<close> of a text, the most significant bit of a byte first; there are zeros behind the text.\<close>

definition bit_at :: "byte list \<Rightarrow> nat \<Rightarrow> bool" where
  "bit_at xs n \<longleftrightarrow> n div 8 < length xs \<and> bit (xs ! (n div 8)) (7 - n mod 8)"

definition set_bit_at :: "nat \<Rightarrow> bool \<Rightarrow> byte list \<Rightarrow> byte list" where
  "set_bit_at n v xs =
     (let ys = xs @ replicate (n div 8 + 1 - length xs) 0; c = ys ! (n div 8)
      in ys[n div 8 := if v then set_bit (7 - n mod 8) c else unset_bit (7 - n mod 8) c])"

definition bit_offset :: "byte list \<Rightarrow> nat option" where
  "bit_offset t = (case parse_ll t of None \<Rightarrow> None
     | Some n \<Rightarrow> if n < 0 \<or> n \<ge> 2 ^ 32 then None else Some (nat n))"

definition bit_reply :: "bool \<Rightarrow> reply" where
  "bit_reply b = (if b then shared_cone else shared_czero)"

definition a_setbit :: "env \<Rightarrow> byte list \<Rightarrow> byte list \<Rightarrow> byte list \<Rightarrow> adb \<Rightarrow> adb" where
  "a_setbit e k off val a =
     (case bit_offset off of
        None \<Rightarrow> addReply (Error err_bit_offset) a
      | Some n \<Rightarrow>
          if parse_ll val \<noteq> Some 0 \<and> parse_ll val \<noteq> Some 1 then addReply (Error err_bit_value) a
          else a_string e k (\<lambda>old b. addReply (bit_reply (bit_at (text_of old) n)) (addDirty 1 (signalModifiedKey k
                 (a_put k (VStr (set_bit_at n (parse_ll val = Some 1) (text_of old))) b)))) a)"

definition a_getbit :: "env \<Rightarrow> byte list \<Rightarrow> byte list \<Rightarrow> adb \<Rightarrow> adb" where
  "a_getbit e k off a =
     (case bit_offset off of
        None \<Rightarrow> addReply (Error err_bit_offset) a
      | Some n \<Rightarrow> addReply (case a_look e k a of None \<Rightarrow> shared_czero | Some (VStr xs) \<Rightarrow> bit_reply (bit_at xs n)
          | Some (VSet _) \<Rightarrow> shared_wrongtypeerr) (a_read e k a))"

definition a_bitcount :: "env \<Rightarrow> byte list \<Rightarrow> byte list list \<Rightarrow> adb \<Rightarrow> adb" where
  "a_bitcount e k args a =
     addReply (case a_look e k a of
        None \<Rightarrow> shared_czero
      | Some (VSet _) \<Rightarrow> shared_wrongtypeerr
      | Some (VStr xs) \<Rightarrow>
          (case args of
             [] \<Rightarrow> Integer (bits_in xs)
           | [i, j] \<Rightarrow> (case (parse_ll i, parse_ll j) of
               (Some i, Some j) \<Rightarrow> Integer (bits_in (list_range i j xs)) | _ \<Rightarrow> err_not_integer)
           | _ \<Rightarrow> shared_syntaxerr)) (a_read e k a)"

section \<open>Reading and writing a bit\<close>

lemma bit_at_set_bit_at: "bit_at (set_bit_at n v xs) m = (if m = n then v else bit_at xs m)"
proof -
  define ys where "ys = xs @ replicate (n div 8 + 1 - length xs) 0"
  have len: "n div 8 < length ys" by (simp add: ys_def)
  have same: "bit_at ys m = bit_at xs m" for m
    by (auto simp: bit_at_def ys_def nth_append)
  have s: "bit_at (set_bit_at n v xs) m = (m div 8 < length ys \<and>
      bit (if m div 8 = n div 8 then if v then set_bit (7 - n mod 8) (ys ! (n div 8)) else unset_bit (7 - n mod 8) (ys ! (n div 8))
        else ys ! (m div 8)) (7 - m mod 8))"
  proof -
    have "set_bit_at n v xs = ys[n div 8 := if v then set_bit (7 - n mod 8) (ys ! (n div 8)) else unset_bit (7 - n mod 8) (ys ! (n div 8))]"
      unfolding set_bit_at_def ys_def Let_def ..
    then show ?thesis using len by (auto simp: bit_at_def nth_list_update)
  qed
  have eq: "m = n" if "m div 8 = n div 8" "7 - m mod 8 = 7 - n mod 8"
  proof -
    have "m mod 8 < 8" "n mod 8 < 8" by simp_all
    then have "m mod 8 = n mod 8" using that(2) by linarith
    then show ?thesis using that(1) by (metis div_mult_mod_eq)
  qed
  show ?thesis
  proof (cases "m div 8 = n div 8")
    case True
    then show ?thesis using s len same [of m] eq unfolding bit_at_def
      by (cases "7 - m mod 8 = 7 - n mod 8") (auto simp: bit_set_bit_iff bit_unset_bit_iff)
  next
    case False
    then show ?thesis using s same [of m] unfolding bit_at_def by auto
  qed
qed

lemma length_set_bit_at: "length (set_bit_at n v xs) = max (length xs) (n div 8 + 1)"
  by (simp add: set_bit_at_def Let_def)

section \<open>The commands refine their specifications\<close>

lemma bit_offset_eval:
  assumes "arg_rep arg t"
  shows "getBitOffsetFromArgument st arg = Some (case bit_offset t of
      None \<Rightarrow> (addReply (Error err_bit_offset) st, None) | Some n \<Rightarrow> (st, Some n))"
proof (cases "parse_ll t")
  case None
  then show ?thesis
    by (simp add: getBitOffsetFromArgument_def getLongLongOrReply_eval [OF arg_obj_rep [OF assms]] bit_offset_def)
next
  case (Some n)
  have "(nat n div 8 \<ge> 512 * 1024 * 1024) = (n \<ge> 2 ^ 32)" if "0 \<le> n"
    using that by (simp add: le_div_geq [symmetric] less_eq_div_iff_mult_less_eq nat_le_iff le_nat_iff)
  then show ?thesis using Some
    by (auto simp: getBitOffsetFromArgument_def getLongLongOrReply_eval [OF arg_obj_rep [OF assms]] bit_offset_def)
qed

lemma bit_offset_range: "bit_offset t = Some n \<Longrightarrow> n < 2 ^ 32"
  by (auto simp: bit_offset_def split: option.splits if_splits)

lemma test_bit_int: "uint (c :: byte) AND push_bit b 1 \<noteq> 0 \<longleftrightarrow> bit c b"
proof -
  have "uint c AND push_bit b 1 \<noteq> 0 \<longleftrightarrow> bit (uint c) b" by (simp only: bit_iff_and_push_bit_not_eq_0)
  then show ?thesis using bit_imp_le_length [of c b] by (auto simp: bit_uint_iff)
qed

lemma write_bit_int:
  assumes "b < 8" "v = 0 \<or> v = 1"
  shows "word_of_int ((uint (c :: byte) AND NOT (push_bit b 1)) OR push_bit b (v AND 1)) =
    (if v = 1 then set_bit b c else unset_bit b c)"
proof (rule bit_word_eqI)
  fix i assume i: "i < LENGTH(8)"
  show "bit (word_of_int ((uint c AND NOT (push_bit b 1)) OR push_bit b (v AND 1)) :: byte) i =
    bit (if v = 1 then set_bit b c else unset_bit b c) i"
    using i assms by (auto simp: bit_simps)
qed

lemma not_a_bit: "v AND NOT 1 \<noteq> 0 \<longleftrightarrow> v \<noteq> 0 \<and> v \<noteq> (1 :: int)"
proof -
  have "v AND NOT 1 = push_bit 1 (drop_bit 1 v)"
  proof (rule bit_eqI)
    fix n
    show "bit (v AND NOT 1) n = bit (push_bit 1 (drop_bit 1 v)) n"
      unfolding bit_and_iff bit_not_iff bit_1_iff bit_push_bit_iff bit_drop_bit_eq by (cases n) auto
  qed
  then have "v AND NOT 1 = 2 * (v div 2)" by (simp add: push_bit_eq_mult drop_bit_eq_div)
  then show ?thesis by auto
qed

lemma setbit_write_ok:
  assumes "db_rel e st a" "st_keys a k \<noteq> None" "sds_rep s old" "length old \<le> 2 ^ 29" "n < 2 ^ 32" "v = 0 \<or> v = 1"
  shows "ok (setbit_write k n v s st) (\<lambda>st'. db_rel e st' (addReply (bit_reply (bit_at old n)) (addDirty 1
    (signalModifiedKey k (a_put k (VStr (set_bit_at n (v = 1) old)) a)))))"
proof -
  define i where "i = n div 8"
  define ys where "ys = old @ replicate (i + 1 - length old) 0"
  have i: "i < 2 ^ 29" using assms(5) by (simp add: i_def)
  then have il: "i < length ys" "length ys \<le> 2 ^ 29" using assms(4) by (simp_all add: ys_def)
  obtain s1 where s1: "sdsgrowzero s (i + 1) = Some s1" "sds_rep s1 ys"
    using sdsgrowzero_rep [OF assms(3), of "i + 1"] i by (auto simp: ys_def)
  obtain r where r: "sds_buf s1 = ys @ 0 # r" "sds_len s1 = int (length ys)" "sds_free s1 = int (length r)"
    "length ys + length r < 2 ^ 31"
    using s1(2) by (rule sds_repE) blast
  define c where "c = ys ! i"
  define d where "d = (if v = 1 then set_bit (7 - n mod 8) c else unset_bit (7 - n mod 8) c)"
  have rd: "rd i (sds_buf s1) = Some c" using il(1) by (simp add: r(1) rd_def nth_append c_def)
  have wr: "wr i d (sds_buf s1) = Some (ys[i := d] @ 0 # r)" using il(1) by (simp add: r(1) wr_def list_update_append)
  have new: "set_bit_at n (v = 1) old = ys[i := d]"
    unfolding set_bit_at_def i_def [symmetric] ys_def [symmetric] c_def [symmetric] d_def Let_def ..
  have b: "7 - n mod 8 < 8" by simp
  have old: "bit c (7 - n mod 8) = bit_at old n"
    by (auto simp: bit_at_def c_def ys_def i_def nth_append)
  have "sds_rep (s1\<lparr>sds_buf := ys[i := d] @ 0 # r\<rparr>) (ys[i := d])" using r by (auto intro!: sds_repI)
  then have "db_rel e (storeObject k (StrRaw (s1\<lparr>sds_buf := ys[i := d] @ 0 # r\<rparr>)) st) (a_put k (VStr (ys[i := d])) a)"
    using il(2) by (intro storeObject_ok assms(1,2)) simp
  moreover have "word_of_int ((uint c AND NOT (push_bit (7 - n mod 8) 1)) OR push_bit (7 - n mod 8) (v AND 1)) = d"
    unfolding d_def by (rule write_bit_int [OF b assms(6)])
  ultimately show ?thesis
    unfolding setbit_write_def i_def [symmetric] Let_def s1(1) bind.bind_lunit rd test_bit_int old
    using wr by (auto simp: new bit_reply_def simp del: push_bit_of_1)
qed

lemma setbit_ok:
  assumes "db_rel e st a" "room 1 a" "arg_rep off t" "arg_rep val u"
  shows "ok (setbitCommand e k off val st) (\<lambda>st'. db_rel e st' (a_setbit e k t u a))"
proof (cases "bit_offset t")
  case None
  then show ?thesis using assms(1) by (auto simp: setbitCommand_def bit_offset_eval [OF assms(3)] a_setbit_def)
next
  case (Some n)
  show ?thesis
  proof (cases "parse_ll u = Some 0 \<or> parse_ll u = Some 1")
    case False
    have on: "w AND NOT 1 \<noteq> 0" if "parse_ll u = Some w" for w using False that not_a_bit [of w] by auto
    note run = setbitCommand_def bit_offset_eval [OF assms(3)] Some option.case bind.bind_lunit prod.case
      getLongOrReply_eval [OF arg_obj_rep [OF assms(4)]]
    show ?thesis
    proof (cases "parse_ll u")
      case None
      then show ?thesis using assms(1) unfolding run by (auto simp: a_setbit_def Some)
    next
      case w: (Some w)
      show ?thesis using assms(1) False unfolding run w if_P [OF on [OF w]] by (auto simp: a_setbit_def Some w)
    qed
  next
    case True
    then obtain v where v: "parse_ll u = Some v" "v = 0 \<or> v = 1" by auto
    define f where "f = (\<lambda>old b. addReply (bit_reply (bit_at (text_of old) n)) (addDirty 1 (signalModifiedKey k
                 (a_put k (VStr (set_bit_at n (v = 1) (text_of old))) b))))"
    have spec: "a_setbit e k t u a = a_string e k f a" using v(2) by (elim disjE) (simp_all add: a_setbit_def f_def Some v(1))
    note wok = setbit_write_ok [OF _ _ _ _ bit_offset_range [OF Some] v(2)]
    have main: "ok (setbit_target e k r s) (\<lambda>(st', tgt).
        case tgt of None \<Rightarrow> db_rel e st' (a_setbit e k t u a)
        | Some s' \<Rightarrow> ok (setbit_write k n v s' st') (\<lambda>st'. db_rel e st' (a_setbit e k t u a)))"
      if s: "db_rel e s (a_expire e k a)" and r: "rel_option (obj_rep (e_seed e)) r (a_look e k a)" for s r
    proof (rule a_string_cases [OF r, where f = f])
      assume r: "r = None" "a_look e k a = None" "a_string e k f a = f None (a_expire e k a)"
      obtain e0 where e0: "sdsempty = Some e0" "sds_rep e0 []" using sdsempty_rep by blast
      have "ok (dbAdd e s k (StrRaw e0)) (\<lambda>st'. db_rel e st' (a_put k (VStr []) (a_expire e k a)))"
        using s assms(2) r(2) e0(2) by (intro dbAdd_ok) (auto simp: a_look_def)
      then have "ok (dbAdd e s k (StrRaw e0)) (\<lambda>st'. ok (setbit_write k n v e0 st') (\<lambda>st'. db_rel e st' (a_setbit e k t u a)))"
      proof (rule ok_mono)
        fix s' assume "db_rel e s' (a_put k (VStr []) (a_expire e k a))"
        from wok [OF this _ e0(2), of k] show "ok (setbit_write k n v e0 s') (\<lambda>st'. db_rel e st' (a_setbit e k t u a))"
          unfolding spec r(3) by (simp add: f_def text_of_def)
      qed
      then show ?thesis using r(1) by (simp add: setbit_target_def e0(1))
    next
      fix ob S assume "r = Some ob" "otype ob = REDIS_SET" "a_string e k f a = addReply shared_wrongtypeerr (a_expire e k a)"
      then show ?thesis using s by (auto simp: setbit_target_def checkType_def spec)
    next
      fix ob old
      assume r: "r = Some ob" "otype ob = REDIS_STRING" "obj_rep (e_seed e) ob (VStr old)" "a_look e k a = Some (VStr old)"
        "a_string e k f a = f (Some old) (a_expire e k a)" "length old \<le> 2 ^ 29"
      have "ok (unshare e s k ob) (\<lambda>(st', s'). db_rel e st' (a_expire e k a) \<and> sds_rep s' old \<and> length old \<le> 2 ^ 29)"
        using s assms(2) r by (intro unshare_ok) (auto simp: a_look_def intro: room_le)
      then have "ok (unshare e s k ob) (\<lambda>(st', s'). ok (setbit_write k n v s' st') (\<lambda>st'. db_rel e st' (a_setbit e k t u a)))"
      proof (rule ok_mono2, unfold prod.case)
        fix st' s' assume *: "db_rel e st' (a_expire e k a) \<and> sds_rep s' old \<and> length old \<le> 2 ^ 29"
        have "st_keys (a_expire e k a) k \<noteq> None" using r(4) by (simp add: a_look_def)
        from wok [OF conjunct1 [OF *] this conjunct1 [OF conjunct2 [OF *]] r(6)]
        show "ok (setbit_write k n v s' st') (\<lambda>st'. db_rel e st' (a_setbit e k t u a))"
          unfolding spec r(5) by (simp add: f_def text_of_def)
      qed
      then show ?thesis using r(1,2) by (auto simp: setbit_target_def checkType_def elim!: ok_mono2)
    qed
    have on: "\<not> v AND NOT 1 \<noteq> 0" using v(2) not_a_bit by blast
    show ?thesis
      unfolding setbitCommand_def bit_offset_eval [OF assms(3)] Some option.case bind.bind_lunit prod.case
        getLongOrReply_eval [OF arg_obj_rep [OF assms(4)]] v(1) if_not_P [OF on] ok_simps
      by (rule lookupKeyWrite_wp [OF assms(1), of k]) (auto dest!: main elim!: ok_mono2 split: option.splits)
  qed
qed

lemma string_chars_ok:
  assumes "obj_rep seed ob (VStr xs)"
  obtains rest where "string_chars ob = Some (xs @ rest, length xs)"
  using getrange_chars [OF assms] unfolding string_chars_def by blast

text \<open>The three outcomes of the lookup of a read command.\<close>

lemma read_string_cases:
  assumes "db_rel e st a" "lookupKeyReadOrReply e st k shared_czero = Some (s, r)"
  obtains "r = None" "a_look e k a = None" "db_rel e s (addReply shared_czero (a_read e k a))"
  | ob S where "r = Some ob" "a_look e k a = Some (VSet S)" "checkType s ob REDIS_STRING = (addReply shared_wrongtypeerr s, True)"
      "db_rel e s (a_read e k a)"
  | ob xs rest where "r = Some ob" "a_look e k a = Some (VStr xs)" "checkType s ob REDIS_STRING = (s, False)"
      "string_chars ob = Some (xs @ rest, length xs)" "length xs \<le> 2 ^ 29" "db_rel e s (a_read e k a)"
proof -
  have l: "db_rel e s (if a_look e k a = None then addReply shared_czero (a_read e k a) else a_read e k a)"
    "rel_option (obj_rep (e_seed e)) r (a_look e k a)"
    using lookupKeyReadOrReply_ok [OF assms(1), of k shared_czero] assms(2) by (auto simp: ok_iff)
  show thesis
  proof (cases r)
    case None
    then show ?thesis using l that(1) by simp
  next
    case (Some ob)
    then obtain v where v: "a_look e k a = Some v" "obj_rep (e_seed e) ob v" using l(2) by (auto simp: option_rel_Some1)
    show ?thesis
    proof (cases v)
      case (VStr xs)
      then obtain rest where "string_chars ob = Some (xs @ rest, length xs)" using v(2) string_chars_ok by blast
      then show ?thesis using that(3) [of ob xs rest] Some v l(1) VStr obj_rep_length [of _ ob xs]
        by (auto simp: checkType_def obj_rep_type)
    next
      case (VSet S)
      then show ?thesis using that(2) [of ob S] Some v l(1) by (auto simp: checkType_def obj_rep_type)
    qed
  qed
qed

lemma getbit_ok:
  assumes "db_rel e st a" "arg_rep off t"
  shows "ok (getbitCommand e k off st) (\<lambda>st'. db_rel e st' (a_getbit e k t a))"
proof (cases "bit_offset t")
  case None
  then show ?thesis using assms(1) by (auto simp: getbitCommand_def bit_offset_eval [OF assms(2)] a_getbit_def)
next
  case (Some n)
  obtain s r where look: "lookupKeyReadOrReply e st k shared_czero = Some (s, r)"
    using lookupKeyReadOrReply_ok [OF assms(1), of k shared_czero] by (auto simp: ok_iff)
  note run = getbitCommand_def [of e k off st, unfolded bit_offset_eval [OF assms(2)] Some option.case bind.bind_lunit prod.case look]
  show ?thesis
    using assms(1) look
  proof (cases rule: read_string_cases)
    case 1
    then show ?thesis by (simp add: run a_getbit_def Some)
  next
    case (2 ob S)
    then show ?thesis by (auto simp: run a_getbit_def Some)
  next
    case (3 ob xs rest)
    have "(if n div 8 < length xs then do { c \<leftarrow> rd (n div 8) (xs @ rest); Some (uint c AND push_bit (7 - n mod 8) 1) } else Some 0)
      = Some (if n div 8 < length xs then uint (xs ! (n div 8)) AND push_bit (7 - n mod 8) 1 else 0)"
      by (simp add: rd_def nth_append)
    moreover have "(if n div 8 < length xs then uint (xs ! (n div 8)) AND push_bit (7 - n mod 8) 1 else 0) \<noteq> 0 \<longleftrightarrow> bit_at xs n"
      using test_bit_int [of "xs ! (n div 8)" "7 - n mod 8"] by (simp add: bit_at_def del: push_bit_of_1)
    ultimately show ?thesis
      unfolding run 3(1) option.case 3(3) Let_def prod.case if_False 3(4) bind.bind_lunit
      using 3(2,6) by (auto simp: a_getbit_def Some bit_reply_def)
  qed
qed

lemma bitcount_bounds_eval:
  assumes "in_sbytes 8 i" "in_sbytes 8 j" "n \<le> 2 ^ 29"
  shows "bitcount_bounds n i j = (range_index n i, min (range_index n j) (int n - 1))"
proof -
  have "to_int64 (int n + i) = int n + i" if "i < 0" using that assms by (simp add: in_sbytes_def c_arith)
  moreover have "to_int64 (int n + j) = int n + j" if "j < 0" using that assms by (simp add: in_sbytes_def c_arith)
  moreover have "to_int64 (int n - 1) = int n - 1" using assms(3) by (simp add: c_arith)
  ultimately show ?thesis
    by (auto simp: bitcount_bounds_def range_index_def Let_def max_def min_def)
qed

lemma bitcount_part:
  assumes "0 \<le> s" "t \<le> int (length xs) - 1"
  shows "(if s > t then Some (addReply shared_czero st) else do {
      n \<leftarrow> popcount (xs @ rest) (nat s) (nat (t - s + 1)); Some (addReply (Integer n) st) }) =
    Some (addReply (Integer (bits_in (take (nat (t - s + 1)) (drop (nat s) xs)))) st)"
proof (cases "s > t")
  case False
  then have "nat s + nat (t - s + 1) \<le> length xs" using assms by simp
  moreover from this have "take (nat (t - s + 1)) (drop (nat s) (xs @ rest)) = take (nat (t - s + 1)) (drop (nat s) xs)" by simp
  ultimately show ?thesis using False popcount_eval [of "nat s" "nat (t - s + 1)" "xs @ rest"] by simp
qed simp

lemma bitcount_ok:
  assumes "db_rel e st a" "list_all2 arg_rep args ts"
  shows "ok (bitcountCommand e k args st) (\<lambda>st'. db_rel e st' (a_bitcount e k ts a))"
proof -
  obtain s r where look: "lookupKeyReadOrReply e st k shared_czero = Some (s, r)"
    using lookupKeyReadOrReply_ok [OF assms(1), of k shared_czero] by (auto simp: ok_iff)
  note run = bitcountCommand_def [of e k args st, unfolded look option.case bind.bind_lunit prod.case]
  show ?thesis
    using assms(1) look
  proof (cases rule: read_string_cases)
    case 1
    then show ?thesis by (simp add: run a_bitcount_def)
  next
    case (2 ob S)
    then show ?thesis by (auto simp: run a_bitcount_def)
  next
    case (3 ob xs rest)
    note run3 = run [unfolded 3(1) option.case 3(3) Let_def prod.case if_False 3(4) bind.bind_lunit]
    consider "args = []" "ts = []"
      | x y i j where "args = [x, y]" "ts = [i, j]" "arg_rep x i" "arg_rep y j"
      | x where "args = [x]" "length ts = 1" | x y z zs where "args = x # y # z # zs" "2 < length ts"
      using assms(2) by (cases args; cases "tl args"; cases "tl (tl args)") (auto simp: list_all2_Cons1 list_all2_Nil dest: list_all2_lengthD)
    then show ?thesis
    proof cases
      case 1
      have "(if (0 :: int) > int (length xs) - 1 then Some (addReply shared_czero s) else do {
          n \<leftarrow> popcount (xs @ rest) (nat 0) (nat (int (length xs) - 1 - 0 + 1)); Some (addReply (Integer n) s) }) =
        Some (addReply (Integer (bits_in xs)) s)"
        by (subst bitcount_part) simp_all
      then show ?thesis using 3(2,6) 1 unfolding run3 by (auto simp: bitcount_range_def a_bitcount_def)
    next
      case (2 x y i j)
      note eval = getLongOrReply_eval [OF arg_obj_rep [OF 2(3)], of s None] getLongOrReply_eval [OF arg_obj_rep [OF 2(4)], of s None]
      show ?thesis
      proof (cases "parse_ll i = None \<or> parse_ll j = None")
        case True
        then have "bitcount_range (length xs) args s = Some (addReply err_not_integer s, None)"
          unfolding bitcount_range_def 2(1) list.case using eval by (auto split: option.splits)
        then show ?thesis using 3(2,6) 2(2) True unfolding run3 by (auto simp: a_bitcount_def split: option.splits)
      next
        case False
        then obtain p q where pq: "parse_ll i = Some p" "parse_ll j = Some q" by auto
        define u v where "u = range_index (length xs) p" and "v = min (range_index (length xs) q) (int (length xs) - 1)"
        have "bitcount_range (length xs) args s = Some (s, Some (u, v))"
          unfolding bitcount_range_def 2(1) list.case using eval pq bitcount_bounds_eval [OF parse_ll_range parse_ll_range 3(5), OF pq]
          by (simp add: u_def v_def)
        moreover have "0 \<le> u" "v \<le> int (length xs) - 1" by (auto simp: u_def v_def range_index_def)
        note bitcount_part [OF this, of s rest]
        moreover have "take (nat (v - u + 1)) (drop (nat u) xs) = list_range p q xs" by (simp add: list_range_def u_def v_def Let_def)
        ultimately show ?thesis using 3(2,6) 2(2) pq unfolding run3 by (auto simp: a_bitcount_def)
      qed
    next
      case (3 x)
      then obtain i where "ts = [i]" by (auto simp: length_Suc_conv)
      then show ?thesis using \<open>a_look e k a = Some (VStr xs)\<close> \<open>db_rel e s (a_read e k a)\<close> 3(1) unfolding run3
        by (auto simp: bitcount_range_def a_bitcount_def)
    next
      case (4 x y z zs)
      then obtain i j l ls where "ts = i # j # l # ls" by (cases ts; cases "tl ts"; cases "tl (tl ts)") auto
      then show ?thesis using 3(2,6) 4(1) unfolding run3 by (auto simp: bitcount_range_def a_bitcount_def)
    qed
  qed
qed

section \<open>Operations between strings\<close>

datatype bit_op = BITOP_AND | BITOP_OR | BITOP_XOR | BITOP_NOT

definition bitop_name :: "byte list \<Rightarrow> bit_op option" where
  "bitop_name opname =
     (let c = (case opname of [] \<Rightarrow> 0 | c # _ \<Rightarrow> c);
          low = map char_tolower (takeWhile (\<lambda>b. b \<noteq> 0) opname)
      in if (c = of_char (CHR ''a'') \<or> c = of_char (CHR ''A'')) \<and> low = bytes ''and'' then Some BITOP_AND
         else if (c = of_char (CHR ''o'') \<or> c = of_char (CHR ''O'')) \<and> low = bytes ''or'' then Some BITOP_OR
         else if (c = of_char (CHR ''x'') \<or> c = of_char (CHR ''X'')) \<and> low = bytes ''xor'' then Some BITOP_XOR
         else if (c = of_char (CHR ''n'') \<or> c = of_char (CHR ''N'')) \<and> low = bytes ''not'' then Some BITOP_NOT
         else None)"

text \<open>The operation on one word or byte; \<open>BITOP_NOT\<close> has no second operand.\<close>

definition bit_combine :: "bit_op \<Rightarrow> 'a::len word \<Rightarrow> 'a word \<Rightarrow> 'a word" where
  "bit_combine op x y = (case op of BITOP_AND \<Rightarrow> x AND y | BITOP_OR \<Rightarrow> x OR y | BITOP_XOR \<Rightarrow> x XOR y | BITOP_NOT \<Rightarrow> x)"

text \<open>The first loop: the sources, a \<open>NULL\<close> for a missing key, and the greatest and the least length.\<close>

primrec bitop_lookup :: "env \<Rightarrow> byte list list \<Rightarrow> nat \<Rightarrow> nat \<Rightarrow> nat \<Rightarrow> db
    \<Rightarrow> (db \<times> (sds option list \<times> nat \<times> nat) option) option" where
  "bitop_lookup e [] j maxlen minlen st = Some (st, Some ([], maxlen, minlen))"
| "bitop_lookup e (k # ks) j maxlen minlen st = do {
     (st, ob) \<leftarrow> lookupKeyRead e st k;
     case ob of
       None \<Rightarrow> do {
         (st, r) \<leftarrow> bitop_lookup e ks (j + 1) maxlen 0 st;
         Some (st, map_option (\<lambda>(src, n). (None # src, n)) r) }
     | Some ob \<Rightarrow>
         let (st, err) = checkType st ob REDIS_STRING
         in if err then Some (st, None)
            else do {
              d \<leftarrow> getDecodedObject ob;
              case d of
                StrRaw s \<Rightarrow> do {
                  (st, r) \<leftarrow> bitop_lookup e ks (j + 1) (if sdslen s > maxlen then sdslen s else maxlen)
                    (if j = 0 \<or> sdslen s < minlen then sdslen s else minlen) st;
                  Some (st, map_option (\<lambda>(src, n). (Some s # src, n)) r) }
              | _ \<Rightarrow> None } }"

text \<open>The fast path: four words at a time, while every source has 32 bytes more.\<close>

definition load64 :: "nat \<Rightarrow> mem \<Rightarrow> 64 word option" where
  "load64 off m = do { bs \<leftarrow> mem_read off 8 m; Some (word_of_int (le_unsigned bs)) }"

definition store64 :: "nat \<Rightarrow> 64 word \<Rightarrow> mem \<Rightarrow> mem option" where
  "store64 off w m = mem_write off (le_encode 8 (uint w)) m"

definition fast_word :: "bit_op \<Rightarrow> mem \<Rightarrow> nat \<Rightarrow> mem \<Rightarrow> mem option" where
  "fast_word op p off res = do { x \<leftarrow> load64 off res; y \<leftarrow> load64 off p; store64 off (bit_combine op x y) res }"

primrec fast_sources :: "bit_op \<Rightarrow> nat \<Rightarrow> sds option list \<Rightarrow> mem \<Rightarrow> mem option" where
  "fast_sources op pos [] res = Some res"
| "fast_sources op pos (s # ss) res = do {
     s \<leftarrow> s;
     res \<leftarrow> fast_word op (sds_buf s) pos res;
     res \<leftarrow> fast_word op (sds_buf s) (pos + 8) res;
     res \<leftarrow> fast_word op (sds_buf s) (pos + 16) res;
     res \<leftarrow> fast_word op (sds_buf s) (pos + 24) res;
     fast_sources op pos ss res }"

definition not_word :: "nat \<Rightarrow> mem \<Rightarrow> mem option" where
  "not_word off res = do { x \<leftarrow> load64 off res; store64 off (NOT x) res }"

definition fast_not :: "nat \<Rightarrow> mem \<Rightarrow> mem option" where
  "fast_not pos res = do {
     res \<leftarrow> not_word pos res;
     res \<leftarrow> not_word (pos + 8) res;
     res \<leftarrow> not_word (pos + 16) res;
     not_word (pos + 24) res }"

fun fast_loop :: "bit_op \<Rightarrow> sds option list \<Rightarrow> nat \<Rightarrow> nat \<Rightarrow> mem \<Rightarrow> (nat \<times> mem) option" where
  "fast_loop op srcs pos minlen res =
     (if 32 \<le> minlen then do {
        res \<leftarrow> (if op = BITOP_NOT then fast_not pos res else fast_sources op pos srcs res);
        fast_loop op srcs (pos + 32) (minlen - 32) res }
      else Some (pos, res))"

declare fast_loop.simps [simp del]

text \<open>The loop over the remaining bytes.\<close>

definition source_byte :: "nat \<Rightarrow> sds option \<Rightarrow> byte option" where
  "source_byte j s = (case s of None \<Rightarrow> Some 0 | Some s \<Rightarrow> if sdslen s \<le> j then Some 0 else rd j (sds_buf s))"

primrec fold_bytes :: "bit_op \<Rightarrow> nat \<Rightarrow> sds option list \<Rightarrow> byte \<Rightarrow> byte option" where
  "fold_bytes op j [] output = Some output"
| "fold_bytes op j (s # ss) output = do { c \<leftarrow> source_byte j s; fold_bytes op j ss (bit_combine op output c) }"

definition output_byte :: "bit_op \<Rightarrow> nat \<Rightarrow> sds option list \<Rightarrow> byte option" where
  "output_byte op j src =
     (case src of
        [] \<Rightarrow> None
      | s # ss \<Rightarrow> do { output \<leftarrow> source_byte j s; fold_bytes op j ss (if op = BITOP_NOT then NOT output else output) })"

primrec tail_loop :: "bit_op \<Rightarrow> sds option list \<Rightarrow> nat \<Rightarrow> nat \<Rightarrow> mem \<Rightarrow> mem option" where
  "tail_loop op src j 0 res = Some res"
| "tail_loop op src j (Suc n) res = do {
     output \<leftarrow> output_byte op j src;
     res \<leftarrow> wr j output res;
     tail_loop op src (j + 1) n res }"

definition bitop_compute :: "bit_op \<Rightarrow> sds option list \<Rightarrow> nat \<Rightarrow> nat \<Rightarrow> sds option" where
  "bitop_compute op src maxlen minlen = do {
     res \<leftarrow> sdsnewlen None maxlen;
     (j, buf) \<leftarrow> (if minlen \<noteq> 0 \<and> length src \<le> 16
       then do {
         first \<leftarrow> hd src;
         bs \<leftarrow> mem_read 0 minlen (sds_buf first);
         buf \<leftarrow> mem_write 0 bs (sds_buf res);
         fast_loop op (tl src) 0 minlen buf }
       else Some (0, sds_buf res));
     buf \<leftarrow> tail_loop op src j (maxlen - j) buf;
     Some (res\<lparr>sds_buf := buf\<rparr>) }"

definition bitopCommand :: "env \<Rightarrow> byte list \<Rightarrow> byte list \<Rightarrow> byte list list \<Rightarrow> db \<Rightarrow> db option" where
  "bitopCommand e opname targetkey ks st =
     (case bitop_name opname of
        None \<Rightarrow> Some (addReply shared_syntaxerr st)
      | Some op \<Rightarrow>
          if op = BITOP_NOT \<and> length ks \<noteq> 1
          then Some (addReply (Error ''BITOP NOT must be called with a single source key.'') st)
          else do {
            (st, r) \<leftarrow> bitop_lookup e ks 0 0 0 st;
            case r of
              None \<Rightarrow> Some st
            | Some (src, maxlen, minlen) \<Rightarrow> do {
                st \<leftarrow> (if maxlen \<noteq> 0
                  then do { res \<leftarrow> bitop_compute op src maxlen minlen; setKey e st targetkey (StrRaw res) }
                  else do { (st, b) \<leftarrow> dbDelete e st targetkey; Some (if b then signalModifiedKey targetkey st else st) });
                Some (addReply (Integer (int maxlen)) (addDirty 1 st)) } })"

subsection \<open>The reference\<close>

definition text_byte :: "nat \<Rightarrow> byte list \<Rightarrow> byte" where
  "text_byte j t = (if j < length t then t ! j else 0)"

definition bitop_byte :: "bit_op \<Rightarrow> nat \<Rightarrow> byte list list \<Rightarrow> byte" where
  "bitop_byte op j ts =
     fold (\<lambda>t output. bit_combine op output (text_byte j t)) (tl ts)
       (if op = BITOP_NOT then NOT (text_byte j (hd ts)) else text_byte j (hd ts))"

definition longest :: "byte list list \<Rightarrow> nat" where
  "longest ts = fold (\<lambda>t n. max (length t) n) ts 0"

definition bitop_text :: "bit_op \<Rightarrow> byte list list \<Rightarrow> byte list" where
  "bitop_text op ts = map (\<lambda>j. bitop_byte op j ts) [0..<longest ts]"

subsection \<open>A word is its bytes\<close>

lemma le_encode_take_bit: "le_encode n (take_bit (8 * n) v) = le_encode n v"
proof (induction n arbitrary: v)
  case (Suc n)
  have "take_bit (8 * Suc n) v div 256 = take_bit (8 * n) (v div 256)"
    using drop_bit_take_bit [of 8 "8 * Suc n" v] by (simp add: drop_bit_eq_div)
  moreover have "(word_of_int (take_bit (8 * Suc n) v) :: byte) = word_of_int v"
    by (rule bit_word_eqI) (simp add: bit_simps)
  ultimately show ?case using Suc.IH [of "v div 256"] by simp
qed simp

lemma le_encode_bitwise:
  "le_encode n (v AND w) = map2 (AND) (le_encode n v) (le_encode n w)"
  "le_encode n (v OR w) = map2 (OR) (le_encode n v) (le_encode n w)"
  "le_encode n (v XOR w) = map2 (XOR) (le_encode n v) (le_encode n w)"
  "le_encode n (NOT v) = map NOT (le_encode n v)"
proof (induction n arbitrary: v w)
  case (Suc n)
  have d: "x div 256 = drop_bit 8 x" for x :: int by (simp add: drop_bit_eq_div)
  have h: "(word_of_int (v AND w) :: byte) = word_of_int v AND word_of_int w" "(word_of_int (v OR w) :: byte) = word_of_int v OR word_of_int w"
    "(word_of_int (v XOR w) :: byte) = word_of_int v XOR word_of_int w" "(word_of_int (NOT v) :: byte) = NOT (word_of_int v)" for v w
    by (rule bit_word_eqI, simp add: bit_simps)+
  have r: "(v AND w) div 256 = (v div 256) AND (w div 256)" "(v OR w) div 256 = (v div 256) OR (w div 256)"
    "(v XOR w) div 256 = (v div 256) XOR (w div 256)" "(NOT v) div 256 = NOT (v div 256)" for v w :: int
    unfolding d by (simp_all add: bit_eq_iff bit_simps)
  case 1 show ?case by (simp add: h r Suc.IH)
  case 2 show ?case by (simp add: h r Suc.IH)
  case 3 show ?case by (simp add: h r Suc.IH)
  case 4 show ?case by (simp add: h r Suc.IH)
qed simp_all

lemma encode_decode_word:
  assumes "length xs = 8"
  shows "le_encode 8 (uint (word_of_int (le_unsigned xs) :: 64 word)) = xs"
proof -
  have "uint (word_of_int (le_unsigned xs) :: 64 word) = take_bit (8 * 8) (le_unsigned xs)" by (simp add: uint_word_of_int_eq)
  then show ?thesis unfolding \<open>uint (word_of_int (le_unsigned xs) :: 64 word) = take_bit (8 * 8) (le_unsigned xs)\<close> le_encode_take_bit
    using le_encode_unsigned [of xs] assms by simp
qed

lemma word_bytes:
  assumes "length xs = 8" "length ys = 8"
  shows "le_encode 8 (uint (bit_combine op (word_of_int (le_unsigned xs)) (word_of_int (le_unsigned ys)) :: 64 word)) = map2 (bit_combine op) xs ys"
    and "le_encode 8 (uint (NOT (word_of_int (le_unsigned xs)) :: 64 word)) = map NOT xs"
proof -
  have first: "map2 (\<lambda>x y. x) xs ys = xs" using assms by (simp add: list_eq_iff_nth_eq)
  show "le_encode 8 (uint (bit_combine op (word_of_int (le_unsigned xs)) (word_of_int (le_unsigned ys)) :: 64 word)) = map2 (bit_combine op) xs ys"
    using encode_decode_word [OF assms(1)] encode_decode_word [OF assms(2)] assms
    by (cases op) (simp_all add: bit_combine_def uint_and uint_or uint_xor le_encode_bitwise first)
  have "uint (NOT w) = take_bit (8 * 8) (NOT (uint w))" for w :: "64 word" by (simp add: bit_eq_iff bit_simps)
  then show "le_encode 8 (uint (NOT (word_of_int (le_unsigned xs)) :: 64 word)) = map NOT xs"
    by (simp only: le_encode_take_bit le_encode_bitwise encode_decode_word [OF assms(1)])
qed

subsection \<open>The loops compute the reference\<close>

text \<open>A source of \<open>BITOP\<close> and its text; a missing key counts as the empty text.\<close>

definition source_rep :: "sds option \<Rightarrow> byte list \<Rightarrow> bool" where
  "source_rep s t \<longleftrightarrow> (case s of None \<Rightarrow> t = [] | Some s \<Rightarrow> sds_rep s t \<and> length t \<le> 2 ^ 29)"

abbreviation combine_all :: "bit_op \<Rightarrow> nat \<Rightarrow> byte list list \<Rightarrow> byte \<Rightarrow> byte" where
  "combine_all op j ts x \<equiv> fold (\<lambda>t output. bit_combine op output (text_byte j t)) ts x"

lemma source_byte_ok: "source_rep s t \<Longrightarrow> source_byte j s = Some (text_byte j t)"
  by (auto simp: source_rep_def source_byte_def text_byte_def sdslen_correct rd_def nth_append split: option.splits elim!: sds_repE)

lemma fold_bytes_ok: "list_all2 source_rep ss ts \<Longrightarrow> fold_bytes op j ss x = Some (combine_all op j ts x)"
  by (induction ss ts arbitrary: x rule: list_all2_induct) (simp_all add: source_byte_ok)

lemma output_byte_ok:
  assumes "list_all2 source_rep src ts" "ts \<noteq> []"
  shows "output_byte op j src = Some (bitop_byte op j ts)"
proof (cases ts)
  case (Cons t us)
  then obtain s ss where "src = s # ss" "source_rep s t" "list_all2 source_rep ss us" using assms(1) by (auto simp: list_all2_Cons2)
  then show ?thesis using Cons by (simp add: output_byte_def bitop_byte_def source_byte_ok fold_bytes_ok)
qed (use assms(2) in simp)

lemma tail_loop_ok:
  assumes "list_all2 source_rep src ts" "ts \<noteq> []"
  shows "j + n \<le> length res \<Longrightarrow> tail_loop op src j n res =
    Some (take j res @ map (\<lambda>j. bitop_byte op j ts) [j..<j + n] @ drop (j + n) res)"
proof (induction n arbitrary: j res)
  case (Suc n)
  let ?x = "bitop_byte op j ts"
  have j: "j < length res" using Suc.prems by simp
  have "tail_loop op src (j + 1) n (res[j := ?x]) = Some (take (j + 1) (res[j := ?x]) @
      map (\<lambda>j. bitop_byte op j ts) [j + 1..<j + 1 + n] @ drop (j + 1 + n) (res[j := ?x]))"
    by (rule Suc.IH) (use Suc.prems in simp)
  moreover have "take (j + 1) (res[j := ?x]) = take j res @ [?x]" using j by (simp add: take_Suc_conv_app_nth)
  moreover have "[j..<j + Suc n] = j # [j + 1..<j + 1 + n]" by (simp add: upt_conv_Cons)
  ultimately show ?case using j by (simp add: output_byte_ok [OF assms] wr_def)
qed simp

text \<open>\<open>res'\<close> is \<open>res\<close> with \<open>f\<close> applied to the bytes from \<open>a\<close> to below \<open>b\<close>.\<close>

definition patched :: "nat \<Rightarrow> nat \<Rightarrow> (nat \<Rightarrow> byte \<Rightarrow> byte) \<Rightarrow> mem \<Rightarrow> mem \<Rightarrow> bool" where
  "patched a b f res res' \<longleftrightarrow> length res' = length res \<and>
     (\<forall>i < length res. res' ! i = (if a \<le> i \<and> i < b then f i (res ! i) else res ! i))"

lemma patched_join: "\<lbrakk>patched a b f r r1; patched b c f r1 r2; a \<le> b; b \<le> c\<rbrakk> \<Longrightarrow> patched a c f r r2"
  by (simp add: patched_def)

lemma patched_then: "\<lbrakk>patched a b f r r1; patched a b g r1 r2\<rbrakk> \<Longrightarrow> patched a b (\<lambda>i x. g i (f i x)) r r2"
  by (simp add: patched_def)

lemma patched_refl: "(\<And>i x. f i x = x) \<Longrightarrow> patched a b f r r"
  by (simp add: patched_def)

lemma patched_word:
  assumes "off + 8 \<le> length res" "length bs = 8" "\<And>i. i < 8 \<Longrightarrow> bs ! i = f (off + i) (res ! (off + i))"
  shows "\<exists>res'. mem_write off bs res = Some res' \<and> patched off (off + 8) f res res'"
proof -
  have "(take off res @ bs @ drop (off + 8) res) ! i = (if off \<le> i \<and> i < off + 8 then f i (res ! i) else res ! i)" if "i < length res" for i
    using that assms(1,2) assms(3) [of "i - off"] by (auto simp: nth_append)
  then show ?thesis using assms(1,2) by (simp add: mem_write_def patched_def)
qed

lemma load64_at:
  assumes "off + 8 \<le> length m"
  shows "load64 off m = Some (word_of_int (le_unsigned (take 8 (drop off m))))" "length (take 8 (drop off m)) = 8"
  using assms by (simp_all add: load64_def mem_read_def)

lemma fast_word_ok:
  assumes "off + 8 \<le> length res" "off + 8 \<le> length p"
  shows "\<exists>res'. fast_word op p off res = Some res' \<and> patched off (off + 8) (\<lambda>i x. bit_combine op x (p ! i)) res res'"
proof -
  note R = load64_at [OF assms(1)] and P = load64_at [OF assms(2)]
  have "\<exists>res'. mem_write off (map2 (bit_combine op) (take 8 (drop off res)) (take 8 (drop off p))) res = Some res' \<and>
      patched off (off + 8) (\<lambda>i x. bit_combine op x (p ! i)) res res'"
    by (rule patched_word [OF assms(1)]) (use assms in simp_all)
  then show ?thesis using R P by (simp add: fast_word_def store64_def word_bytes)
qed

lemma not_word_ok:
  assumes "off + 8 \<le> length res"
  shows "\<exists>res'. not_word off res = Some res' \<and> patched off (off + 8) (\<lambda>i x. NOT x) res res'"
proof -
  note R = load64_at [OF assms]
  have "\<exists>res'. mem_write off (map NOT (take 8 (drop off res))) res = Some res' \<and> patched off (off + 8) (\<lambda>i x. NOT x) res res'"
    by (rule patched_word [OF assms]) (use assms in simp_all)
  then show ?thesis using R word_bytes(2) [OF R(2) R(2)] by (simp add: not_word_def store64_def)
qed

lemma patched_length: "patched a b f r r' \<Longrightarrow> length r' = length r"
  by (simp add: patched_def)

text \<open>Four words in a row.\<close>

lemma four_words:
  assumes "\<And>off res. \<lbrakk>off + 8 \<le> length res; off + 8 \<le> n\<rbrakk> \<Longrightarrow> \<exists>res'. g off res = Some res' \<and> patched off (off + 8) f res res'"
    and "pos + 32 \<le> length res" "pos + 32 \<le> n"
  shows "\<exists>r1 r2 r3 r4. g pos res = Some r1 \<and> g (pos + 8) r1 = Some r2 \<and> g (pos + 16) r2 = Some r3 \<and> g (pos + 24) r3 = Some r4 \<and>
    patched pos (pos + 32) f res r4"
proof -
  have n: "pos + 8 + 8 = pos + 16" "pos + 16 + 8 = pos + 24" "pos + 24 + 8 = pos + 32" by simp_all
  obtain r1 where 1: "g pos res = Some r1" "patched pos (pos + 8) f res r1" using assms(1) [of pos res] assms(2,3) by auto
  obtain r2 where 2: "g (pos + 8) r1 = Some r2" "patched (pos + 8) (pos + 16) f r1 r2"
    using assms(1) [of "pos + 8" r1, unfolded n] assms(2,3) patched_length [OF 1(2)] by auto
  obtain r3 where 3: "g (pos + 16) r2 = Some r3" "patched (pos + 16) (pos + 24) f r2 r3"
    using assms(1) [of "pos + 16" r2, unfolded n] assms(2,3) patched_length [OF 1(2)] patched_length [OF 2(2)] by auto
  obtain r4 where 4: "g (pos + 24) r3 = Some r4" "patched (pos + 24) (pos + 32) f r3 r4"
    using assms(1) [of "pos + 24" r3, unfolded n] assms(2,3) patched_length [OF 1(2)] patched_length [OF 2(2)] patched_length [OF 3(2)] by auto
  have "patched pos (pos + 32) f res r4"
    by (rule patched_join [OF patched_join [OF patched_join [OF 1(2) 2(2)] 3(2)] 4(2)]) simp_all
  then show ?thesis using 1(1) 2(1) 3(1) 4(1) by blast
qed

lemma fast_not_ok:
  assumes "pos + 32 \<le> length res"
  shows "\<exists>res'. fast_not pos res = Some res' \<and> patched pos (pos + 32) (\<lambda>i x. NOT x) res res'"
  using four_words [of "length res" not_word "\<lambda>i x. NOT x" pos res] not_word_ok assms unfolding fast_not_def by fastforce

lemma fast_sources_ok:
  assumes "list_all2 source_rep ss ts" "\<forall>t \<in> set ts. pos + 32 \<le> length t" "pos + 32 \<le> length res"
  shows "\<exists>res'. fast_sources op pos ss res = Some res' \<and> patched pos (pos + 32) (\<lambda>i. combine_all op i ts) res res'"
  using assms
proof (induction ss ts arbitrary: res rule: list_all2_induct)
  case Nil
  then show ?case by (simp add: patched_refl)
next
  case (Cons s ss t ts)
  have t: "pos + 32 \<le> length t" using Cons.prems by simp
  then obtain p where p: "s = Some p" "sds_rep p t" using Cons.hyps(1) by (cases s) (auto simp: source_rep_def)
  then obtain rest where b: "sds_buf p = t @ 0 # rest" by (auto elim: sds_repE)
  obtain r1 r2 r3 r4 where r: "fast_word op (sds_buf p) pos res = Some r1" "fast_word op (sds_buf p) (pos + 8) r1 = Some r2"
      "fast_word op (sds_buf p) (pos + 16) r2 = Some r3" "fast_word op (sds_buf p) (pos + 24) r3 = Some r4"
    and f: "patched pos (pos + 32) (\<lambda>i x. bit_combine op x (sds_buf p ! i)) res r4"
    using four_words [of "length (sds_buf p)" "fast_word op (sds_buf p)" "\<lambda>i x. bit_combine op x (sds_buf p ! i)" pos res]
      fast_word_ok Cons.prems(2) t b by fastforce
  have "sds_buf p ! i = text_byte i t" if "i < pos + 32" for i using that t by (simp add: b nth_append text_byte_def)
  then have f: "patched pos (pos + 32) (\<lambda>i x. bit_combine op x (text_byte i t)) res r4" using f by (simp add: patched_def)
  obtain res' where res': "fast_sources op pos ss r4 = Some res'" "patched pos (pos + 32) (\<lambda>i. combine_all op i ts) r4 res'"
    using Cons.IH [of r4] Cons.prems patched_length [OF f] by auto
  then show ?case using patched_then [OF f res'(2)] r p(1) by auto
qed

text \<open>What the fast path does to a byte of the first source.\<close>

definition fast_byte :: "bit_op \<Rightarrow> byte list list \<Rightarrow> nat \<Rightarrow> byte \<Rightarrow> byte" where
  "fast_byte op ts i x = (if op = BITOP_NOT then NOT x else combine_all op i ts x)"

lemma fast_byte_eq: "fast_byte op ts = (if op = BITOP_NOT then (\<lambda>i. NOT) else (\<lambda>i. combine_all op i ts))"
  by (simp add: fun_eq_iff fast_byte_def)

lemma fast_loop_ok:
  assumes "list_all2 source_rep ss ts"
  shows "\<lbrakk>\<forall>t \<in> set ts. pos + m \<le> length t; pos + m \<le> length res\<rbrakk> \<Longrightarrow>
    \<exists>k res'. 32 * k \<le> m \<and> fast_loop op ss pos m res = Some (pos + 32 * k, res') \<and> patched pos (pos + 32 * k) (fast_byte op ts) res res'"
proof (induction m arbitrary: pos res rule: less_induct)
  case (less m)
  show ?case
  proof (cases "32 \<le> m")
    case True
    have "\<forall>t \<in> set ts. pos + 32 \<le> length t" using less.prems(1) True by fastforce
    moreover have p: "pos + 32 \<le> length res" using less.prems(2) True by simp
    ultimately obtain r1 where r1: "(if op = BITOP_NOT then fast_not pos res else fast_sources op pos ss res) = Some r1"
        "patched pos (pos + 32) (fast_byte op ts) res r1"
      using fast_not_ok [OF p] fast_sources_ok [OF assms _ p, of op] by (cases "op = BITOP_NOT") (auto simp: fast_byte_eq)
    have n: "pos + 32 + (m - 32) = pos + m" using True by simp
    have "\<exists>k res'. 32 * k \<le> m - 32 \<and> fast_loop op ss (pos + 32) (m - 32) r1 = Some (pos + 32 + 32 * k, res') \<and>
        patched (pos + 32) (pos + 32 + 32 * k) (fast_byte op ts) r1 res'"
      by (rule less.IH) (use True less.prems patched_length [OF r1(2)] in \<open>simp_all add: n\<close>)
    then obtain k res' where k: "32 * k \<le> m - 32" "fast_loop op ss (pos + 32) (m - 32) r1 = Some (pos + 32 + 32 * k, res')"
        "patched (pos + 32) (pos + 32 + 32 * k) (fast_byte op ts) r1 res'" by blast
    have "patched pos (pos + 32 + 32 * k) (fast_byte op ts) res res'" by (rule patched_join [OF r1(2) k(3)]) simp_all
    moreover have e: "pos + 32 + 32 * k = pos + 32 * Suc k" by simp
    moreover have "32 * Suc k \<le> m" using k(1) True by simp
    moreover have "fast_loop op ss pos m res = Some (pos + 32 * Suc k, res')"
      using k(2) r1(1) True by (simp add: fast_loop.simps [of op ss pos m res] e del: mult_Suc_right)
    ultimately show ?thesis by metis
  next
    case False
    then show ?thesis by (intro exI [of _ 0]) (auto simp: fast_loop.simps [of op ss pos m res] patched_def)
  qed
qed

lemma longest_fold: "fold (\<lambda>t n. max (length t) n) ts n = max n (longest ts)"
proof (induction ts arbitrary: n)
  case (Cons t ts)
  show ?case using Cons.IH [of "max (length t) n"] Cons.IH [of "length t"] by (simp add: longest_def max.commute max.left_commute)
qed (simp add: longest_def)

lemma longest_simps [simp]: "longest [] = 0" "longest (t # ts) = max (length t) (longest ts)"
  using longest_fold [of ts "length t"] by (simp_all add: longest_def)

lemma longest_ge: "t \<in> set ts \<Longrightarrow> length t \<le> longest ts"
  by (induction ts) auto

lemma combine_all_hd: "ts \<noteq> [] \<Longrightarrow> j < length (hd ts) \<Longrightarrow> op = BITOP_NOT \<longrightarrow> tl ts = [] \<Longrightarrow>
  bitop_byte op j ts = fast_byte op (tl ts) j (hd ts ! j)"
  by (auto simp: bitop_byte_def fast_byte_def text_byte_def)

text \<open>The whole computation: the fast path and the loop over the rest give the reference, whatever the lengths are.\<close>

lemma bitop_compute_ok:
  assumes src: "list_all2 source_rep src ts" "ts \<noteq> []" and op: "op = BITOP_NOT \<longrightarrow> length ts = 1"
    and mx: "maxlen = longest ts" "maxlen \<le> 2 ^ 29" and mn: "\<forall>t \<in> set ts. minlen \<le> length t"
  shows "\<exists>s. bitop_compute op src maxlen minlen = Some s \<and> sds_rep s (bitop_text op ts)"
proof -
  obtain r where r: "sdsnewlen None maxlen = Some r" "sds_rep r (replicate maxlen 0)"
    using sdsnewlen_null_rep [of maxlen] mx(2) by auto
  obtain rest where b: "sds_buf r = replicate maxlen 0 @ 0 # rest" "sds_len r = int maxlen" "sds_free r = int (length rest)"
    "maxlen + length rest < 2 ^ 31" using r(2) by (auto elim!: sds_repE)
  let ?F = "\<lambda>j. bitop_byte op j ts"
  have fast: "\<exists>j buf. (if minlen \<noteq> 0 \<and> length src \<le> 16
       then do {
         first \<leftarrow> hd src;
         bs \<leftarrow> mem_read 0 minlen (sds_buf first);
         buf \<leftarrow> mem_write 0 bs (sds_buf r);
         fast_loop op (tl src) 0 minlen buf }
       else Some (0, sds_buf r)) = Some (j, buf) \<and> j \<le> maxlen \<and> length buf = length (sds_buf r) \<and> take j buf = map ?F [0..<j] \<and>
       drop maxlen buf = 0 # rest"
  proof (cases "minlen \<noteq> 0 \<and> length src \<le> 16")
    case True
    obtain t us where ts: "ts = t # us" using src(2) by (cases ts) auto
    then obtain s ss where ss: "src = s # ss" "source_rep s t" "list_all2 source_rep ss us" using src(1) by (auto simp: list_all2_Cons2)
    have ml: "minlen \<le> length t" "minlen \<le> maxlen" using mn longest_ge [of t ts] mx(1) ts by auto
    then obtain p where p: "s = Some p" "sds_rep p t" using ss(2) True by (cases s) (auto simp: source_rep_def)
    then obtain rest' where pb: "sds_buf p = t @ 0 # rest'" by (auto elim: sds_repE)
    have rd: "mem_read 0 minlen (sds_buf p) = Some (take minlen t)" using ml by (simp add: mem_read_def pb)
    define buf0 where "buf0 = take minlen t @ drop minlen (sds_buf r)"
    have wr: "mem_write 0 (take minlen t) (sds_buf r) = Some buf0" using ml by (simp add: mem_write_def b(1) buf0_def)
    have len: "length buf0 = length (sds_buf r)" using ml by (simp add: buf0_def b(1))
    obtain k buf where k: "32 * k \<le> minlen" "fast_loop op ss 0 minlen buf0 = Some (32 * k, buf)" "patched 0 (32 * k) (fast_byte op us) buf0 buf"
      using fast_loop_ok [OF ss(3), of 0 minlen buf0 op] mn ml ts len by (auto simp: b(1))
    have "take (32 * k) buf = map ?F [0..<32 * k]"
    proof (rule nth_equalityI)
      fix i assume "i < length (take (32 * k) buf)"
      then have i: "i < 32 * k" by simp
      then have "buf ! i = fast_byte op us i (buf0 ! i)" using k(1,3) len ml by (simp add: patched_def b(1))
      also have "buf0 ! i = t ! i" using i k(1) ml by (simp add: buf0_def nth_append)
      finally show "take (32 * k) buf ! i = map ?F [0..<32 * k] ! i"
        using i k(1) ml combine_all_hd [of ts i op] ts op by simp
    qed (use k(1,3) len ml in \<open>simp add: patched_def b(1)\<close>)
    moreover have "drop maxlen buf = drop maxlen buf0"
      by (rule nth_equalityI) (use k(1,3) ml in \<open>auto simp: patched_def\<close>)
    moreover have "drop maxlen buf0 = 0 # rest" using ml by (simp add: buf0_def b(1))
    ultimately show ?thesis using True k len ml ss(1) p(1) rd wr patched_length [OF k(3)] by simp
  next
    case False
    then show ?thesis by (auto simp: b(1))
  qed
  then obtain j buf where j: "(if minlen \<noteq> 0 \<and> length src \<le> 16
       then do {
         first \<leftarrow> hd src;
         bs \<leftarrow> mem_read 0 minlen (sds_buf first);
         buf \<leftarrow> mem_write 0 bs (sds_buf r);
         fast_loop op (tl src) 0 minlen buf }
       else Some (0, sds_buf r)) = Some (j, buf)" "j \<le> maxlen" "length buf = length (sds_buf r)" "take j buf = map ?F [0..<j]"
       "drop maxlen buf = 0 # rest" by blast
  have "j + (maxlen - j) \<le> length buf" using j(2,3) b(1) by simp
  from tail_loop_ok [OF src this, of op] have "tail_loop op src j (maxlen - j) buf =
      Some (map ?F [0..<j] @ map ?F [j..<maxlen] @ 0 # rest)" using j(2,4,5) by simp
  moreover have "map ?F [0..<j] @ map ?F [j..<maxlen] = bitop_text op ts"
    using j(2) upt_add_eq_append [of 0 j "maxlen - j"] by (simp add: bitop_text_def mx(1) map_append [symmetric] del: map_append)
  ultimately have t: "tail_loop op src j (maxlen - j) buf = Some (bitop_text op ts @ 0 # rest)" by (metis append.assoc)
  have "sds_rep (r\<lparr>sds_buf := bitop_text op ts @ 0 # rest\<rparr>) (bitop_text op ts)"
    using b(2-4) by (intro sds_repI) (auto simp: bitop_text_def mx(1))
  then show ?thesis unfolding bitop_compute_def r(1) bind.bind_lunit j(1) prod.case t by auto
qed

subsection \<open>The command\<close>

primrec a_bitop_look :: "env \<Rightarrow> byte list list \<Rightarrow> adb \<Rightarrow> adb \<times> byte list list option" where
  "a_bitop_look e [] a = (a, Some [])"
| "a_bitop_look e (k # ks) a =
     (let b = a_read e k a
      in case a_look e k a of
           Some (VSet S) \<Rightarrow> (addReply shared_wrongtypeerr b, None)
         | Some (VStr t) \<Rightarrow> (let (c, r) = a_bitop_look e ks b in (c, map_option ((#) t) r))
         | None \<Rightarrow> (let (c, r) = a_bitop_look e ks b in (c, map_option ((#) []) r)))"

definition a_store_text :: "env \<Rightarrow> byte list \<Rightarrow> byte list \<Rightarrow> adb \<Rightarrow> adb" where
  "a_store_text e k t a =
     (if t \<noteq> [] then a_setKey e k (VStr t) a
      else if st_keys a k \<noteq> None then signalModifiedKey k (a_del k a) else a_del k a)"

definition a_bitop :: "env \<Rightarrow> byte list \<Rightarrow> byte list \<Rightarrow> byte list list \<Rightarrow> adb \<Rightarrow> adb" where
  "a_bitop e opname targetkey ks a =
     (case bitop_name opname of
        None \<Rightarrow> addReply shared_syntaxerr a
      | Some op \<Rightarrow>
          if op = BITOP_NOT \<and> length ks \<noteq> 1
          then addReply (Error ''BITOP NOT must be called with a single source key.'') a
          else (let (b, r) = a_bitop_look e ks a
                in case r of
                     None \<Rightarrow> b
                   | Some ts \<Rightarrow> addReply (Integer (int (longest ts))) (addDirty 1 (a_store_text e targetkey (bitop_text op ts) b))))"

lemma bitop_lookup_ok:
  "db_rel e st a \<Longrightarrow> ok (bitop_lookup e ks j mx mn st) (\<lambda>(st', r). case a_bitop_look e ks a of
      (b, None) \<Rightarrow> db_rel e st' b \<and> r = None
    | (b, Some ts) \<Rightarrow> db_rel e st' b \<and> length ts = length ks \<and> longest ts \<le> 2 ^ 29 \<and>
        (\<exists>src mn'. r = Some (src, max mx (longest ts), mn') \<and> list_all2 source_rep src ts \<and> (\<forall>t \<in> set ts. mn' \<le> length t) \<and> (j \<noteq> 0 \<longrightarrow> mn' \<le> mn)))"
proof (induction ks arbitrary: st a j mx mn)
  case (Cons k ks)
  show ?case
    unfolding bitop_lookup.simps ok_simps
  proof (rule lookupKeyRead_wp [OF Cons.prems, of k], unfold prod.case, elim conjE)
    fix s r assume s: "db_rel e s (a_read e k a)" and r: "rel_option (obj_rep (e_seed e)) r (a_look e k a)"
    obtain b ts where l: "a_bitop_look e ks (a_read e k a) = (b, ts)" by fastforce
    note IH = Cons.IH [OF s, of "j + 1", unfolded l prod.case]
    consider "r = None" "a_look e k a = None"
      | ob S where "r = Some ob" "obj_rep (e_seed e) ob (VSet S)" "a_look e k a = Some (VSet S)"
      | ob t where "r = Some ob" "obj_rep (e_seed e) ob (VStr t)" "a_look e k a = Some (VStr t)"
      using r by (cases "a_look e k a"; cases r) (auto, metis val.exhaust)
    then show "ok (case r of
          None \<Rightarrow> bitop_lookup e ks (j + 1) mx 0 s \<bind> (\<lambda>(st, r). Some (st, map_option (\<lambda>(src, n). (None # src, n)) r))
        | Some ob \<Rightarrow> let (st, err) = checkType s ob REDIS_STRING
            in if err then Some (st, None)
               else getDecodedObject ob \<bind> (\<lambda>d. case d of
                  StrRaw s \<Rightarrow> bitop_lookup e ks (j + 1) (if sdslen s > mx then sdslen s else mx) (if j = 0 \<or> sdslen s < mn then sdslen s else mn) st
                    \<bind> (\<lambda>(st, r). Some (st, map_option (\<lambda>(src, n). (Some s # src, n)) r))
                | _ \<Rightarrow> None))
      (\<lambda>(st', r). case a_bitop_look e (k # ks) a of
          (b, None) \<Rightarrow> db_rel e st' b \<and> r = None
        | (b, Some ts) \<Rightarrow> db_rel e st' b \<and> length ts = length (k # ks) \<and> longest ts \<le> 2 ^ 29 \<and>
            (\<exists>src mn'. r = Some (src, max mx (longest ts), mn') \<and> list_all2 source_rep src ts \<and> (\<forall>t \<in> set ts. mn' \<le> length t) \<and> (j \<noteq> 0 \<longrightarrow> mn' \<le> mn)))"
    proof cases
      case 1
      show ?thesis using IH [of mx 0] 1 l
        by (cases ts) (auto simp: ok_iff source_rep_def)
    next
      case (2 ob S)
      then show ?thesis using s by (auto simp: checkType_def obj_rep_type)
    next
      case (3 ob t)
      obtain d where d: "getDecodedObject ob = Some (StrRaw d)" "sds_rep d t" "length t \<le> 2 ^ 29"
        using getDecodedObject_ok [OF 3(2)] by (auto simp: ok_iff)
      have len: "sdslen d = length t" by (rule sdslen_correct [OF d(2)])
      have rep: "source_rep (Some d) t" using d(2,3) by (simp add: source_rep_def)
      have ty: "checkType s ob REDIS_STRING = (s, False)" using 3(2) by (simp add: checkType_def obj_rep_type)
      show ?thesis
        using IH [of "if length t > mx then length t else mx" "if j = 0 \<or> length t < mn then length t else mn"] 3(1,3) l d(1,3) rep
        by (cases ts) (auto simp: ok_iff ty len max_def split: if_splits)
    qed
  qed
qed simp

lemma room_bitop_look: "room n a \<Longrightarrow> room n (fst (a_bitop_look e ks a))"
  by (induction ks arbitrary: a) (auto simp: Let_def case_prod_beta' split: option.splits val.splits)

lemma bitop_ok:
  assumes "db_rel e st a" "room 1 a" "ks \<noteq> []"
  shows "ok (bitopCommand e opname dst ks st) (\<lambda>st'. db_rel e st' (a_bitop e opname dst ks a))"
proof (cases "bitop_name opname")
  case None
  then show ?thesis using assms(1) by (auto simp: bitopCommand_def a_bitop_def)
next
  case (Some op)
  show ?thesis
  proof (cases "op = BITOP_NOT \<and> length ks \<noteq> 1")
    case True
    then show ?thesis using assms(1) Some by (auto simp: bitopCommand_def a_bitop_def)
  next
    case False
    obtain b r where l: "a_bitop_look e ks a = (b, r)" by fastforce
    have room: "room 1 b" using room_bitop_look [OF assms(2), of e ks] l by simp
    obtain s q where look: "bitop_lookup e ks 0 0 0 st = Some (s, q)"
      and q: "case r of None \<Rightarrow> db_rel e s b \<and> q = None
        | Some ts \<Rightarrow> db_rel e s b \<and> length ts = length ks \<and> longest ts \<le> 2 ^ 29 \<and>
            (\<exists>src mn'. q = Some (src, longest ts, mn') \<and> list_all2 source_rep src ts \<and> (\<forall>t \<in> set ts. mn' \<le> length t))"
      using bitop_lookup_ok [OF assms(1), of ks 0 0 0] l by (cases r) (auto simp: ok_iff)
    note run = bitopCommand_def [of e opname dst ks st, unfolded Some option.case if_not_P [OF False] look bind.bind_lunit prod.case]
    have spec: "a_bitop e opname dst ks a = (case r of None \<Rightarrow> b
        | Some ts \<Rightarrow> addReply (Integer (int (longest ts))) (addDirty 1 (a_store_text e dst (bitop_text op ts) b)))"
      using Some False l by (auto simp: a_bitop_def)
    show ?thesis
    proof (cases r)
      case None
      then show ?thesis using q by (simp add: run spec)
    next
      case ts: (Some ts)
      then obtain src mn where src: "q = Some (src, longest ts, mn)" "list_all2 source_rep src ts" "\<forall>t \<in> set ts. mn \<le> length t"
        and s: "db_rel e s b" "length ts = length ks" "longest ts \<le> 2 ^ 29" using q by auto
      have len: "length (bitop_text op ts) = longest ts" by (simp add: bitop_text_def)
      note run = run [unfolded src(1) option.case prod.case]
      show ?thesis
      proof (cases "longest ts = 0")
        case True
        then have "bitop_text op ts = []" using len by simp
        then show ?thesis using s(1) True unfolding run
          by (auto simp: spec ts a_store_text_def intro!: dbDelete_wp)
      next
        case ne: False
        have ts_ne: "ts \<noteq> []" using s(2) assms(3) by auto
        from ne have t: "bitop_text op ts \<noteq> []" using len by auto
        obtain d where d: "bitop_compute op src (longest ts) mn = Some d" "sds_rep d (bitop_text op ts)"
          using bitop_compute_ok [OF src(2) ts_ne _ refl s(3) src(3), of op] s(2) False by auto
        have "ok (setKey e s dst (StrRaw d)) (\<lambda>st'. db_rel e st' (a_setKey e dst (VStr (bitop_text op ts)) b))"
          by (rule setKey_rel [OF s(1) room]) (use d(2) len s(3) in simp)
        then have "ok (setKey e s dst (StrRaw d)) (\<lambda>st'. db_rel e (addReply (Integer (int (longest ts))) (addDirty 1 st'))
            (a_bitop e opname dst ks a))"
          by (rule ok_mono) (use t in \<open>auto simp: spec ts a_store_text_def\<close>)
        then show ?thesis using ne d(1) by (simp add: run)
      qed
    qed
  qed
qed

section \<open>The meaning of the bits\<close>

text \<open>A bit of the result of \<open>BITOP\<close>, from the same bit of the sources.\<close>

definition op_bit :: "bit_op \<Rightarrow> bool list \<Rightarrow> bool" where
  "op_bit op bs = (case op of BITOP_AND \<Rightarrow> list_all id bs | BITOP_OR \<Rightarrow> list_ex id bs
     | BITOP_XOR \<Rightarrow> odd (length (filter id bs)) | BITOP_NOT \<Rightarrow> \<not> hd bs)"

lemma bit_at_text_byte: "bit_at t n = bit (text_byte (n div 8) t) (7 - n mod 8)"
  by (simp add: bit_at_def text_byte_def)

lemma bit_combine_all:
  "i < 8 \<Longrightarrow> bit (combine_all op j ts x) i = (case op of
      BITOP_AND \<Rightarrow> bit x i \<and> list_all (\<lambda>t. bit (text_byte j t) i) ts
    | BITOP_OR \<Rightarrow> bit x i \<or> list_ex (\<lambda>t. bit (text_byte j t) i) ts
    | BITOP_XOR \<Rightarrow> bit x i \<noteq> odd (length (filter (\<lambda>t. bit (text_byte j t) i) ts))
    | BITOP_NOT \<Rightarrow> bit x i)"
  by (induction ts arbitrary: x) (auto simp: bit_combine_def bit_simps split: bit_op.splits)

lemma bitop_text_bits:
  assumes "n < 8 * longest ts" "op = BITOP_NOT \<longrightarrow> length ts = 1"
  shows "bit_at (bitop_text op ts) n = op_bit op (map (\<lambda>t. bit_at t n) ts)"
proof -
  define j i where "j = n div 8" and "i = 7 - n mod 8"
  have j: "j < longest ts" "i < 8" using assms(1) by (simp_all add: j_def i_def)
  have "ts \<noteq> []" using assms(1) by auto
  then obtain t us where ts: "ts = t # us" by (cases ts) auto
  have "bit_at (bitop_text op ts) n = bit (bitop_byte op j ts) i"
    using j(1) by (simp add: bit_at_text_byte j_def [symmetric] i_def [symmetric] text_byte_def bitop_text_def)
  also have "\<dots> = op_bit op (map (\<lambda>t. bit_at t n) ts)"
    using j(2) assms(2) by (cases op) (auto simp: bitop_byte_def bit_combine_all op_bit_def ts bit_at_text_byte j_def [symmetric]
      i_def [symmetric] list_all_iff list_ex_iff comp_def filter_map bit_not_iff split: if_splits)
  finally show ?thesis .
qed

text \<open>
  C40.  \<open>popcount\<close>, which adds the bits of sixteen bytes at a time within 32 bit words and looks up the remaining bytes in a table, returns the
  number of set bits of the range, and reads only the range.
\<close>

theorem popcount_correct:
  assumes "s + cnt \<le> length p"
  shows "popcount p s cnt = Some (bits_in (take cnt (drop s p)))"
  using assms by (rule popcount_eval)

theorem popcount_correct_witness: "popcount (replicate 20 7) 1 18 = Some 54"
proof -
  have "bits_of 7 = 3" by code_simp
  then have "bits_in (replicate 18 7) = 54" by (simp add: bits_in_def sum_list_replicate)
  then show ?thesis using popcount_correct [of 1 18 "replicate 20 7"] by simp
qed

end
