(* ===== verification/TSet.thy ===== *)
theory TSet
  imports TString
begin

text \<open>
  \<open>t_set.c\<close>: sets.  The functions \<open>setType...\<close> hide the two encodings of a set, an intset or a
  dictionary; the commands use only them and the iterator.  A member is given by its text, since
  the dictionary identifies string objects with the same text and \<open>isObjectRepresentableAsLongLong\<close>
  depends only on it (lemma \<open>isObjectRepresentable_ok\<close>).  The commands on sets are in
  \<open>TSetCmds\<close>, \<open>TSetOps\<close> and \<open>TSetRand\<close>.

  \<open>foldo\<close> is the specification of a loop over the members.  The lemmas show that the functions
  implement the mathematical set whatever the encoding is and becomes, and that the commands
  compute unions, intersections and differences.
\<close>

section \<open>The code\<close>

subsection \<open>The set type\<close>

definition setTypeCreate :: "byte list \<Rightarrow> robj" where
  "setTypeCreate value = (if string2ll value \<noteq> None then createIntsetObject else createSetObject)"

lemma intsetGet_Some: "intsetGet s i = Some (Some v) \<Longrightarrow> i < is_length s"
  by (simp add: intsetGet_def split: if_splits)

text \<open>The loop of \<open>setTypeConvert\<close> over the elements of the intset from index \<open>i\<close>.\<close>

function convert_loop :: "env \<Rightarrow> intset \<Rightarrow> nat \<Rightarrow> (byte list, unit) dict \<Rightarrow> (byte list, unit) dict option" where
  "convert_loop e s i d =
     (case intsetGet s i of
        None \<Rightarrow> None
      | Some None \<Rightarrow> Some d
      | Some (Some intele) \<Rightarrow> do {
          element \<leftarrow> createStringObjectFromLongLong intele;
          t \<leftarrow> obj_text element;
          (d, added) \<leftarrow> dictAdd (setDictType (e_seed e)) (e_resize e) d t ();
          if added then convert_loop e s (Suc i) d else None })"
  by pat_completeness auto
termination
  by (relation "measure (\<lambda>(e, s, i, d). is_length s - i)") (auto dest: intsetGet_Some)

declare convert_loop.simps [simp del]

text \<open>The only conversion is from an intset to a dictionary; the other encodings are asserted away.\<close>

definition setTypeConvert :: "env \<Rightarrow> robj \<Rightarrow> robj option" where
  "setTypeConvert e setobj =
     (case setobj of
        SetIntset s \<Rightarrow> do {
          let (d, b) = dictExpand dictCreate (intsetLen s);
          d \<leftarrow> convert_loop e s 0 d;
          Some (SetHt d) }
      | _ \<Rightarrow> None)"

definition setTypeAdd :: "env \<Rightarrow> robj \<Rightarrow> byte list \<Rightarrow> (robj \<times> bool) option" where
  "setTypeAdd e subject value =
     (case subject of
        SetHt d \<Rightarrow> do {
          (d, added) \<leftarrow> dictAdd (setDictType (e_seed e)) (e_resize e) d value ();
          Some (SetHt d, added) }
      | SetIntset s \<Rightarrow>
          (case string2ll value of
             Some llval \<Rightarrow> do {
               (s, success) \<leftarrow> intsetAdd s llval;
               if success
               then if intsetLen s > e_set_max e
                    then do { ob \<leftarrow> setTypeConvert e (SetIntset s); Some (ob, True) }
                    else Some (SetIntset s, True)
               else Some (SetIntset s, False) }
           | None \<Rightarrow> do {
               ob \<leftarrow> setTypeConvert e (SetIntset s);
               case ob of
                 SetHt d \<Rightarrow> do {
                   (d, added) \<leftarrow> dictAdd (setDictType (e_seed e)) (e_resize e) d value ();
                   if added then Some (SetHt d, True) else None }
               | _ \<Rightarrow> None })
      | _ \<Rightarrow> None)"

definition setTypeRemove :: "env \<Rightarrow> robj \<Rightarrow> byte list \<Rightarrow> (robj \<times> bool) option" where
  "setTypeRemove e setobj value =
     (case setobj of
        SetHt d \<Rightarrow> do {
          (d, deleted) \<leftarrow> dictDelete (setDictType (e_seed e)) d value;
          if deleted
          then Some (SetHt (if htNeedsResize d then fst (dictResize (e_resize e) d) else d), True)
          else Some (SetHt d, False) }
      | SetIntset s \<Rightarrow>
          (case string2ll value of
             Some llval \<Rightarrow> do {
               (s, success) \<leftarrow> intsetRemove s llval;
               if success then Some (SetIntset s, True) else Some (SetIntset s, False) }
           | None \<Rightarrow> Some (SetIntset s, False))
      | _ \<Rightarrow> None)"

definition setTypeIsMember :: "env \<Rightarrow> robj \<Rightarrow> byte list \<Rightarrow> (robj \<times> bool) option" where
  "setTypeIsMember e subject value =
     (case subject of
        SetHt d \<Rightarrow> do {
          (d, de) \<leftarrow> dictFind (setDictType (e_seed e)) d value;
          Some (SetHt d, de \<noteq> None) }
      | SetIntset s \<Rightarrow>
          (case string2ll value of
             Some llval \<Rightarrow> do { b \<leftarrow> intsetFind s llval; Some (SetIntset s, b) }
           | None \<Rightarrow> Some (SetIntset s, False))
      | _ \<Rightarrow> None)"

definition setTypeSize :: "robj \<Rightarrow> nat option" where
  "setTypeSize subject =
     (case subject of
        SetHt d \<Rightarrow> Some (dictSize d)
      | SetIntset s \<Rightarrow> Some (intsetLen s)
      | _ \<Rightarrow> None)"

text \<open>
  The iterator of a set.  The iterator of the dictionary is not a safe one, so the iteration does
  not change the dictionary.  An element is an integer or the text of an object.
\<close>

datatype setTypeIterator = IntIter nat | HtIter "(byte list, unit) dictIterator"

datatype set_ele = IntEle int | ObjEle "byte list"

definition setTypeInitIterator :: "robj \<Rightarrow> setTypeIterator option" where
  "setTypeInitIterator subject =
     (case subject of
        SetHt d \<Rightarrow> Some (HtIter dictGetIterator)
      | SetIntset s \<Rightarrow> Some (IntIter 0)
      | _ \<Rightarrow> None)"

definition setTypeNext :: "robj \<Rightarrow> setTypeIterator \<Rightarrow> (setTypeIterator \<times> set_ele option) option" where
  "setTypeNext subject si =
     (case (subject, si) of
        (SetHt d, HtIter di) \<Rightarrow> do {
          (d, di, de) \<leftarrow> dictNext d di;
          Some (HtIter di, map_option (\<lambda>de. ObjEle (fst de)) de) }
      | (SetIntset s, IntIter ii) \<Rightarrow> do {
          r \<leftarrow> intsetGet s ii;
          Some (IntIter (ii + 1), map_option IntEle r) }
      | _ \<Rightarrow> None)"

definition setTypeNextObject :: "robj \<Rightarrow> setTypeIterator \<Rightarrow> (setTypeIterator \<times> byte list option) option" where
  "setTypeNextObject subject si = do {
     (si, r) \<leftarrow> setTypeNext subject si;
     case r of
       None \<Rightarrow> Some (si, None)
     | Some (IntEle intele) \<Rightarrow> do {
         ob \<leftarrow> createStringObjectFromLongLong intele;
         t \<leftarrow> obj_text ob;
         Some (si, Some t) }
     | Some (ObjEle t) \<Rightarrow> Some (si, Some t) }"

text \<open>A loop over a set with the body \<open>f\<close>; \<open>n\<close> is fuel, one more than the members is enough.\<close>

primrec set_foreach ::
  "nat \<Rightarrow> robj \<Rightarrow> setTypeIterator \<Rightarrow> (set_ele \<Rightarrow> 'a \<Rightarrow> 'a option) \<Rightarrow> 'a \<Rightarrow> 'a option" where
  "set_foreach 0 subject si f acc = None"
| "set_foreach (Suc n) subject si f acc = do {
     (si, r) \<leftarrow> setTypeNext subject si;
     case r of
       None \<Rightarrow> Some acc
     | Some x \<Rightarrow> do { acc \<leftarrow> f x acc; set_foreach n subject si f acc } }"

primrec set_foreach_object ::
  "nat \<Rightarrow> robj \<Rightarrow> setTypeIterator \<Rightarrow> (byte list \<Rightarrow> 'a \<Rightarrow> 'a option) \<Rightarrow> 'a \<Rightarrow> 'a option" where
  "set_foreach_object 0 subject si f acc = None"
| "set_foreach_object (Suc n) subject si f acc = do {
     (si, r) \<leftarrow> setTypeNextObject subject si;
     case r of
       None \<Rightarrow> Some acc
     | Some x \<Rightarrow> do { acc \<leftarrow> f x acc; set_foreach_object n subject si f acc } }"

text \<open>\<open>rnd\<close> are the values of \<open>random()\<close> or \<open>rand()\<close>; the key of a missing entry is undefined.\<close>

definition setTypeRandomElement :: "env \<Rightarrow> nat list \<Rightarrow> robj \<Rightarrow> (robj \<times> set_ele) option" where
  "setTypeRandomElement e rnd setobj =
     (case setobj of
        SetHt d \<Rightarrow> do {
          (d, de) \<leftarrow> dictGetRandomKey (setDictType (e_seed e)) d rnd;
          case de of Some kv \<Rightarrow> Some (SetHt d, ObjEle (fst kv)) | None \<Rightarrow> None }
      | SetIntset s \<Rightarrow>
          (case rnd of
             [] \<Rightarrow> None
           | r # rs \<Rightarrow> do { v \<leftarrow> intsetRandom r s; Some (SetIntset s, IntEle v) })
      | _ \<Rightarrow> None)"

text \<open>The text of an element, as it is put into a reply.\<close>

definition ele_print :: "set_ele \<Rightarrow> byte list option" where
  "ele_print x =
     (case x of
        IntEle n \<Rightarrow> ll2string 32 n
      | ObjEle t \<Rightarrow> Some t)"

section \<open>The set type implements sets of texts\<close>

lemma intset_rep_llong: "\<lbrakk>intset_rep s ns; n \<in> set ns\<rbrakk> \<Longrightarrow> in_sbytes 8 n"
  using intset_repD(1,4) [of s ns] in_sbytes_mono [of "encoding s" 8 n] by force

lemma dec_int_mem: "dec_int n \<in> dec_int ` N \<longleftrightarrow> n \<in> N"
  using dec_int_inj by auto

lemma card_dec_int: "card (dec_int ` N) = card N"
  by (rule card_image) (auto intro: inj_onI dest: dec_int_inj)

text \<open>The integer view of an intset object.\<close>

lemma intset_objE:
  assumes "obj_rep seed (SetIntset s) (VSet S)"
  obtains ns where "intset_rep s ns" "- (2 ^ 63) \<notin> set ns" "S = dec_int ` set ns" "card S = length ns"
    "\<And>n. n \<in> set ns \<Longrightarrow> in_sbytes 8 n" "is_length s = length ns"
    "\<And>t. string2ll t = None \<Longrightarrow> t \<notin> S" "\<And>t n. string2ll t = Some n \<Longrightarrow> t \<in> S \<longleftrightarrow> n \<in> set ns"
proof -
  obtain ns where ns: "intset_rep s ns" "- (2 ^ 63) \<notin> set ns" "S = dec_int ` set ns" using assms by auto
  have ll: "in_sbytes 8 n" if "n \<in> set ns" for n by (rule intset_rep_llong [OF ns(1) that])
  have n: "t \<notin> S" if "string2ll t = None" for t
    using that ll string2ll_dec_int by (fastforce simp: ns(3))
  have s: "t \<in> S \<longleftrightarrow> n \<in> set ns" if "string2ll t = Some n" for t n
    using that dec_int_mem by (auto simp: ns(3) string2ll_spec)
  show thesis
    by (rule that [OF ns _ ll _ n s]) (simp_all add: card_dec_int ns(3) intset_rep_card [OF ns(1)] intset_repD(2) [OF ns(1)])
qed

lemma set_obj_finite: "obj_rep seed ob (VSet S) \<Longrightarrow> finite S"
  by (cases ob) (auto simp: dict_set_def card_dom_dict)

lemma setTypeSize_ok: "obj_rep seed ob (VSet S) \<Longrightarrow> setTypeSize ob = Some (card S)"
proof (cases ob)
  case (SetIntset s)
  assume "obj_rep seed ob (VSet S)"
  then show ?thesis using SetIntset
    by (auto simp: setTypeSize_def intsetLen_def elim!: intset_objE simp del: obj_rep.simps)
next
  case (SetHt d)
  assume "obj_rep seed ob (VSet S)"
  then show ?thesis using SetHt card_dom_dict(2) [of "setDictType seed" d]
    by (auto simp: setTypeSize_def dict_set_def)
qed auto

lemma setTypeIsMember_ok:
  assumes "obj_rep (e_seed e) ob (VSet S)"
  shows "ok (setTypeIsMember e ob t) (\<lambda>(ob', b). obj_rep (e_seed e) ob' (VSet S) \<and> b = (t \<in> S) \<and>
    ((\<exists>s. ob = SetIntset s) \<longrightarrow> ob' = ob))"
proof (cases ob)
  case (SetIntset s)
  obtain ns where ns: "intset_rep s ns" "- (2 ^ 63) \<notin> set ns" "S = dec_int ` set ns"
    "\<And>t. string2ll t = None \<Longrightarrow> t \<notin> S" "\<And>t n. string2ll t = Some n \<Longrightarrow> t \<in> S \<longleftrightarrow> n \<in> set ns"
    using assms unfolding SetIntset by (erule_tac intset_objE) metis
  show ?thesis
  proof (cases "string2ll t")
    case None
    then show ?thesis using ns(4) assms by (auto simp: setTypeIsMember_def SetIntset)
  next
    case (Some n)
    then have "intsetFind s n = Some (n \<in> set ns)"
      using intsetFind_correct [OF ns(1)] by (simp add: string2ll_spec)
    then show ?thesis using Some ns(5) assms by (auto simp: setTypeIsMember_def SetIntset)
  qed
next
  case (SetHt d)
  then have d: "dict_inv (setDictType (e_seed e)) d" "dom (dict_map d) = S"
    using assms by (auto simp: dict_set_def)
  from dictHasKey_correct [OF d(1), of t]
  show ?thesis using d(2)
    by (auto simp: setTypeIsMember_def SetHt dictHasKey_def dict_set_def bind_eq_Some_conv)
qed (use assms in auto)

lemma convert_loop_ok:
  assumes "intset_rep s ns" "- (2 ^ 63) \<notin> set ns" "length ns \<le> 2 ^ 29" "i \<le> length ns"
    and "dict_set (setDictType (e_seed e)) d (dec_int ` set (take i ns))"
  shows "\<exists>d'. convert_loop e s i d = Some d' \<and> dict_set (setDictType (e_seed e)) d' (dec_int ` set ns)"
  using assms(4,5)
proof (induction "length ns - i" arbitrary: i d)
  case 0
  then have "i = length ns" by simp
  then show ?case using 0 intsetGet_correct [OF assms(1), of i] by (subst convert_loop.simps) simp
next
  case (Suc m)
  then have i: "i < length ns" by simp
  define n where "n = ns ! i"
  have nm: "n \<in> set ns" using nth_mem [OF i] by (simp add: n_def)
  then have n: "n \<in> set ns" "in_sbytes 8 n" "n \<noteq> - (2 ^ 63)"
    using assms(2) intset_rep_llong [OF assms(1) nm] by blast+
  have take: "take (Suc i) ns = take i ns @ [n]" using i by (simp add: n_def take_Suc_conv_app_nth)
  have dis: "distinct ns" using assms(1) strict_sorted_distinct by (auto simp: intset_rep_def)
  then have new: "dec_int n \<notin> dec_int ` set (take i ns)"
    using distinct_take [of ns "Suc i"] unfolding take dec_int_mem by simp
  note ob = createFromLongLong_ok [OF n(2,3), of "e_seed e"]
  have d: "dict_inv (setDictType (e_seed e)) d" "dom (dict_map d) = dec_int ` set (take i ns)"
    using Suc.prems(2) by (auto simp: dict_set_def)
  have "card (set (take i ns)) \<le> i" using card_length [of "take i ns"] by simp
  then have sz: "dictSize d \<le> 2 ^ 29" using card_dom_dict(2) [OF d(1)] d(2) i assms(3) by (simp add: card_dec_int)
  obtain d' where d': "dictAdd (setDictType (e_seed e)) (e_resize e) d (dec_int n) () = Some (d', True)"
    "dict_inv (setDictType (e_seed e)) d'" "dict_map d' = (dict_map d)(dec_int n \<mapsto> ())"
  proof -
    have "dict_map d (dec_int n) = None" using new d(2) by blast
    then show thesis
      using that dictAdd_correct [OF d(1) sz, of "e_resize e" "dec_int n" "()"] by auto
  qed
  have "dict_set (setDictType (e_seed e)) d' (dec_int ` set (take (Suc i) ns))"
    using d'(2,3) d(2) by (auto simp: dict_set_def take)
  then obtain d2 where "convert_loop e s (Suc i) d' = Some d2" "dict_set (setDictType (e_seed e)) d2 (dec_int ` set ns)"
  proof -
    assume *: "dict_set (setDictType (e_seed e)) d' (dec_int ` set (take (Suc i) ns))"
    have "m = length ns - Suc i" using Suc.hyps(2) by simp
    from Suc.hyps(1) [OF this _ *] i that show thesis by (meson Suc_leI)
  qed
  then show ?case
    using intsetGet_correct [OF assms(1), of i] i ob obj_text_ok [OF conjunct2 [OF ob]] d'(1)
    by (subst convert_loop.simps) (simp add: n_def)
qed

lemma setTypeConvert_ok:
  assumes "obj_rep (e_seed e) (SetIntset s) (VSet S)" "card S \<le> 2 ^ 29"
  shows "\<exists>d. setTypeConvert e (SetIntset s) = Some (SetHt d) \<and> obj_rep (e_seed e) (SetHt d) (VSet S)"
proof -
  obtain ns where ns: "intset_rep s ns" "- (2 ^ 63) \<notin> set ns" "S = dec_int ` set ns" "card S = length ns"
    "is_length s = length ns"
    using assms(1) by (rule intset_objE)
  have inv: "dict_inv (setDictType (e_seed e)) (dictCreate :: (byte list, unit) dict)"
    by (simp add: dict_inv_create)
  have nr: "\<not> dictIsRehashing (dictCreate :: (byte list, unit) dict)" "used (ht0 (dictCreate :: (byte list, unit) dict)) = 0"
    by (simp_all add: dictCreate_def dictInit_def dictIsRehashing_def)
  obtain d where d: "dictExpand dictCreate (length ns) = (d :: (byte list, unit) dict, True)"
    "dict_inv (setDictType (e_seed e)) d" "entries d = entries (dictCreate :: (byte list, unit) dict)"
    using dictExpand_correct [OF inv nr(1), of "length ns"] nr(2) assms(2) ns(4) by auto
  have "dict_set (setDictType (e_seed e)) d (dec_int ` set (take 0 ns))"
    using d(2,3) dict_map_create by (auto simp: dict_set_def dict_map_def)
  from convert_loop_ok [OF ns(1,2) _ _ this] assms(2) ns(4)
  obtain d' where "convert_loop e s 0 d = Some d'" "dict_set (setDictType (e_seed e)) d' (dec_int ` set ns)"
    by auto
  then show ?thesis using d(1) ns(3,5) by (auto simp: setTypeConvert_def intsetLen_def)
qed

lemma setTypeCreate_ok: "obj_rep seed (setTypeCreate t) (VSet {})"
proof -
  have "dict_set (setDictType seed) dictCreate {}"
    by (simp add: dict_set_def dict_inv_create dict_map_create)
  then show ?thesis using intset_rep_New by (auto simp: setTypeCreate_def createIntsetObject_def createSetObject_def)
qed

lemma createIntsetObject_ok: "obj_rep seed createIntsetObject (VSet {})"
  using intset_rep_New by (auto simp: createIntsetObject_def)

lemma ht_add_ok:
  assumes "dict_set (setDictType (e_seed e)) d S" "card S < 2 ^ 29"
  shows "\<exists>d'. dictAdd (setDictType (e_seed e)) (e_resize e) d t () = Some (d', t \<notin> S) \<and>
    dict_set (setDictType (e_seed e)) d' (insert t S)"
  using dict_fs.add_law [OF assms(1) TrueI assms(2), of "e_resize e" t] by (simp add: dictAddKey_def)

lemma setTypeAdd_ok:
  assumes "obj_rep (e_seed e) ob (VSet S)" "card S < 2 ^ 29 - 1" "t \<noteq> LLONG_MIN_text"
  shows "ok (setTypeAdd e ob t) (\<lambda>(ob', b). obj_rep (e_seed e) ob' (VSet (insert t S)) \<and> b = (t \<notin> S))"
proof (cases ob)
  case (SetHt d)
  then show ?thesis using assms(1,2) ht_add_ok [of e d S t] by (auto simp: setTypeAdd_def)
next
  case (SetIntset s)
  obtain ns where ns: "intset_rep s ns" "- (2 ^ 63) \<notin> set ns" "S = dec_int ` set ns" "card S = length ns"
    "\<And>t. string2ll t = None \<Longrightarrow> t \<notin> S" "\<And>t n. string2ll t = Some n \<Longrightarrow> t \<in> S \<longleftrightarrow> n \<in> set ns"
    using assms(1) unfolding SetIntset by (erule_tac intset_objE) metis
  show ?thesis
  proof (cases "string2ll t")
    case None
    obtain d where d: "setTypeConvert e ob = Some (SetHt d)" "dict_set (setDictType (e_seed e)) d S"
      using setTypeConvert_ok [of e s S] assms(1,2) SetIntset by auto
    obtain d' where "dictAdd (setDictType (e_seed e)) (e_resize e) d t () = Some (d', True)"
      "dict_set (setDictType (e_seed e)) d' (insert t S)"
      using ht_add_ok [OF d(2), of t] assms(2) ns(5) [OF None] by auto
    then show ?thesis using d(1) None SetIntset ns(5) [OF None] by (simp add: setTypeAdd_def)
  next
    case (Some n)
    then have n: "in_sbytes 8 n" "t = dec_int n" by (simp_all add: string2ll_spec)
    have "intset_set s (set ns)" "card (set ns) < 2 ^ 29 - 1"
      using ns(1,4) assms(2) intset_rep_card [OF ns(1)] by (auto simp: intset_set_def)
    from intset.add_law [OF this(1) n(1) this(2)]
    obtain s' ms where s': "intsetAdd s n = Some (s', n \<notin> set ns)" "intset_rep s' ms" "set ms = insert n (set ns)"
      by (auto simp: intset_set_def)
    have "- (2 ^ 63) \<notin> set ms" "insert t S = dec_int ` set ms"
      using s'(3) ns(2,3) n assms(3) by auto
    then have rep: "obj_rep (e_seed e) (SetIntset s') (VSet (insert t S))"
      using s'(2) by auto
    have "card (insert t S) \<le> 2 ^ 29" using assms(2) card_insert_le_m1 [of "2 ^ 29" S t] by simp
    from setTypeConvert_ok [OF rep this] rep
    show ?thesis using s'(1) Some ns(6) [OF Some] SetIntset insert_absorb [of t S]
      by (auto simp: setTypeAdd_def)
  qed
qed (use assms in auto)

lemma dictResize_ok:
  assumes "dict_inv ty d" "dictSize d \<le> 2 ^ 29"
  shows "dict_inv ty (fst (dictResize cr d)) \<and> dict_map (fst (dictResize cr d)) = dict_map d"
proof (cases "\<not> cr \<or> dictIsRehashing d")
  case False
  have u: "used (ht0 d) \<le> 2 ^ 29" using assms(2) by (simp add: dictSize_def)
  then have "to_int32 (int (used (ht0 d))) = int (used (ht0 d))" by (simp add: c_arith)
  then have "dictResize cr d = dictExpand d (if used (ht0 d) < 4 then 4 else used (ht0 d))"
    using False by (simp add: dictResize_def Let_def)
  moreover have "\<exists>d'. dictExpand d (if used (ht0 d) < 4 then 4 else used (ht0 d)) = (d', True) \<and> dict_inv ty d' \<and> entries d' = entries d"
    using dictExpand_correct [OF assms(1), of "if used (ht0 d) < 4 then 4 else used (ht0 d)"] False u by auto
  ultimately show ?thesis by (auto simp: dict_map_def)
qed (use assms in \<open>simp add: dictResize_def\<close>)

text \<open>A table that is worth shrinking is small.\<close>

lemma htNeedsResize_small:
  assumes "dict_inv ty d" "htNeedsResize d"
  shows "dictSize d \<le> 2 ^ 29"
proof -
  define sz where "sz = ht_size (ht0 d) + ht_size (ht1 d)"
  have sz: "0 < sz" "sz \<le> 2 ^ 31"
    using dict_inv_sizes(3,4) [OF assms(1)] assms(2) by (auto simp: sz_def htNeedsResize_def Let_def)
  have "dictSize d * 100 div sz < 10" using assms(2) by (simp add: htNeedsResize_def sz_def Let_def)
  then have "dictSize d * 100 < 10 * sz" using sz(1) by (simp add: div_less_iff_less_mult)
  then show ?thesis using sz(2) by simp
qed

lemma setTypeRemove_ok:
  assumes "obj_rep (e_seed e) ob (VSet S)"
  shows "ok (setTypeRemove e ob t) (\<lambda>(ob', b). obj_rep (e_seed e) ob' (VSet (S - {t})) \<and> b = (t \<in> S))"
proof (cases ob)
  case (SetHt d)
  then have d: "dict_inv (setDictType (e_seed e)) d" "dom (dict_map d) = S"
    using assms by (auto simp: dict_set_def)
  obtain d' where d': "dictDelete (setDictType (e_seed e)) d t = Some (d', t \<in> S)"
    "dict_inv (setDictType (e_seed e)) d'" "dict_map d' = (dict_map d)(t := None)"
  proof -
    have "t \<in> S \<longleftrightarrow> dict_map d t \<noteq> None" using d(2) by blast
    then show thesis using that dictDelete_correct [OF d(1), of t] by auto
  qed
  note r = dictResize_ok [OF d'(2) htNeedsResize_small [OF d'(2)], of "e_resize e"]
  have "dom (dict_map d') = S - {t}" using d'(3) d(2) by auto
  then show ?thesis using d'(1,2) r SetHt
    by (cases "t \<in> S"; cases "htNeedsResize d'") (auto simp: setTypeRemove_def dict_set_def)
next
  case (SetIntset s)
  obtain ns where ns: "intset_rep s ns" "- (2 ^ 63) \<notin> set ns" "S = dec_int ` set ns"
    "\<And>t. string2ll t = None \<Longrightarrow> t \<notin> S" "\<And>t n. string2ll t = Some n \<Longrightarrow> t \<in> S \<longleftrightarrow> n \<in> set ns"
    using assms unfolding SetIntset by (erule_tac intset_objE) metis
  show ?thesis
  proof (cases "string2ll t")
    case None
    then show ?thesis using ns(4) assms SetIntset by (auto simp: setTypeRemove_def)
  next
    case (Some n)
    then have n: "in_sbytes 8 n" "t = dec_int n" by (simp_all add: string2ll_spec)
    obtain s' ms where s': "intsetRemove s n = Some (s', n \<in> set ns)" "intset_rep s' ms" "set ms = set ns - {n}"
      using intsetRemove_rep [OF ns(1) n(1)] by blast
    have "S - {t} = dec_int ` set ms" "- (2 ^ 63) \<notin> set ms"
      using s'(3) ns(2,3) n(2) by (auto dest: dec_int_inj)
    then have "obj_rep (e_seed e) (SetIntset s') (VSet (S - {t}))"
      unfolding obj_rep.simps using s'(2) by blast
    then show ?thesis using s'(1) Some ns(5) [OF Some] SetIntset by (auto simp: setTypeRemove_def)
  qed
qed (use assms in auto)

text \<open>A set object is a provider of sets, whatever its encoding.\<close>

interpretation set_type: finite_set_impl "\<lambda>ob S. obj_rep (e_seed e) ob (VSet S)"
    "\<lambda>t. t \<noteq> LLONG_MIN_text" "2 ^ 29 - 1" "setTypeAdd e" "setTypeRemove e" "setTypeIsMember e"
    "\<lambda>ob. the (setTypeSize ob)"
  for e :: env
proof (unfold_locales, goal_cases)
  case (1 s S)
  then show ?case by (rule set_obj_finite)
next
  case (2 s S)
  then show ?case by (simp add: setTypeSize_ok)
next
  case (3 s S x)
  then show ?case using setTypeAdd_ok [of e s S x] by (auto simp: ok_iff)
next
  case (4 s S x)
  then show ?case using setTypeRemove_ok [of e s S x] by (auto simp: ok_iff)
next
  case (5 s S x)
  then show ?case using setTypeIsMember_ok [of e s S x] by (auto simp: ok_iff)
qed

text \<open>
  C7.  A set object created for its first member, as \<open>SADD\<close> does, answers any run of additions,
  removals and lookups (fewer than \<open>2 ^ 29 - 1\<close>) exactly as a mathematical set of texts, whatever
  conversions from an intset to a dictionary, rehashing and shrinking happen on the way.
\<close>
theorem set_type_runs_as_set:
  assumes "\<forall>op \<in> set ops. set_op_arg op \<noteq> LLONG_MIN_text" "length ops \<le> 2 ^ 29 - 1"
  shows "\<exists>ob. run_set_ops (setTypeAdd e) (setTypeRemove e) (setTypeIsMember e) (setTypeCreate t) ops
      = Some (ob, snd (spec_set_ops {} ops)) \<and> setTypeSize ob = Some (card (fst (spec_set_ops {} ops)))"
proof -
  from set_type.run_ops_refines [OF setTypeCreate_ok, of ops e t] assms
  show ?thesis using setTypeSize_ok by fastforce
qed

theorem set_type_runs_as_set_witness:
  "\<exists>ob. run_set_ops (setTypeAdd \<lparr>e_seed = 5381, e_resize = True, e_now = 0, e_loading = False, e_slave = False,
        e_set_max = 1, e_argrefs = 1, e_valrefs = \<lambda>_. 1\<rparr>)
      (setTypeRemove \<lparr>e_seed = 5381, e_resize = True, e_now = 0, e_loading = False, e_slave = False,
        e_set_max = 1, e_argrefs = 1, e_valrefs = \<lambda>_. 1\<rparr>)
      (setTypeIsMember \<lparr>e_seed = 5381, e_resize = True, e_now = 0, e_loading = False, e_slave = False,
        e_set_max = 1, e_argrefs = 1, e_valrefs = \<lambda>_. 1\<rparr>) (setTypeCreate [49])
      [SetAdd [49 :: byte], SetAdd [50], SetAdd [97], SetRemove [50], SetQuery [49]]
    = Some (ob, snd (spec_set_ops {} [SetAdd [49 :: byte], SetAdd [50], SetAdd [97], SetRemove [50], SetQuery [49]])) \<and>
    setTypeSize ob = Some (card (fst (spec_set_ops {} [SetAdd [49 :: byte], SetAdd [50], SetAdd [97], SetRemove [50], SetQuery [49]])))"
  by (rule set_type_runs_as_set) (auto simp: dec_int_def dec.simps)

subsection \<open>Iteration\<close>

primrec foldo :: "('x \<Rightarrow> 'a \<Rightarrow> 'a option) \<Rightarrow> 'x list \<Rightarrow> 'a \<Rightarrow> 'a option" where
  "foldo f [] acc = Some acc"
| "foldo f (x # xs) acc = do { acc \<leftarrow> f x acc; foldo f xs acc }"

definition ele_text :: "set_ele \<Rightarrow> byte list" where
  "ele_text x = (case x of IntEle n \<Rightarrow> dec_int n | ObjEle t \<Rightarrow> t)"

text \<open>The elements of a set object in the order of its iterator.\<close>

definition ele_ok :: "robj \<Rightarrow> set_ele \<Rightarrow> bool" where
  "ele_ok ob x \<longleftrightarrow>
     (case ob of
        SetIntset s \<Rightarrow> (\<exists>n. x = IntEle n \<and> in_sbytes 8 n \<and> n \<noteq> - (2 ^ 63))
      | SetHt d \<Rightarrow> (\<exists>t. x = ObjEle t)
      | _ \<Rightarrow> False)"

lemma ele_print_ok: "ele_ok ob x \<Longrightarrow> ele_print x = Some (ele_text x)"
  by (auto simp: ele_ok_def ele_print_def ele_text_def ll2string_32 split: robj.splits)

text \<open>What an iterator has still to return.\<close>

fun si_rest :: "robj \<Rightarrow> setTypeIterator \<Rightarrow> set_ele list" where
  "si_rest (SetIntset s) (IntIter i) = map (\<lambda>j. IntEle (the (the (intsetGet s j)))) [i..<is_length s]"
| "si_rest (SetHt d) (HtIter it) = map (\<lambda>kv. ObjEle (fst kv)) (it_rest d it)"
| "si_rest _ _ = []"

fun si_ok :: "32 word \<Rightarrow> robj \<Rightarrow> setTypeIterator \<Rightarrow> bool" where
  "si_ok seed (SetIntset s) (IntIter i) \<longleftrightarrow> True"
| "si_ok seed (SetHt d) (HtIter it) \<longleftrightarrow> it_ok d it"
| "si_ok seed _ _ \<longleftrightarrow> False"

lemma setTypeNext_ok:
  assumes "obj_rep seed ob (VSet S)" "si_ok seed ob si"
  shows "\<exists>si'. setTypeNext ob si = Some (si', case si_rest ob si of [] \<Rightarrow> None | x # _ \<Rightarrow> Some x) \<and>
    (si_rest ob si \<noteq> [] \<longrightarrow> si_ok seed ob si' \<and> si_rest ob si' = tl (si_rest ob si))"
proof (cases ob)
  case (SetIntset s)
  then obtain i where i: "si = IntIter i" using assms(2) by (cases si) auto
  obtain ns where ns: "intset_rep s ns" "is_length s = length ns"
    using assms(1) unfolding SetIntset by (erule_tac intset_objE) metis
  show ?thesis
    using intsetGet_correct [OF ns(1)] ns(2)
    by (cases "i < length ns") (auto simp: SetIntset i setTypeNext_def upt_conv_Cons)
next
  case (SetHt d)
  then obtain it where it: "si = HtIter it" using assms(2) by (cases si) auto
  have inv: "dict_inv (setDictType seed) d" using assms(1) SetHt by (auto simp: dict_set_def)
  have iok: "it_ok d it" using assms(2) SetHt it by simp
  obtain d' it' where n: "dictNext d it = Some (d', it', case it_rest d it of [] \<Rightarrow> None | e # _ \<Rightarrow> Some e)"
    "same_tables d d'" "it_rest d it \<noteq> [] \<longrightarrow> it_ok d' it' \<and> it_rest d' it' = tl (it_rest d it)"
    using dictNext_correct [OF inv iok] by blast
  have "it_ok d' it' = it_ok d it'" "it_rest d' it' = it_rest d it'"
    using same_tables_cong [OF n(2)] by blast+
  then show ?thesis
    using n by (cases "it_rest d it") (auto simp: SetHt it setTypeNext_def)
qed (use assms in auto)

text \<open>The elements of a set object in the order of the iterator.\<close>

definition set_elems :: "robj \<Rightarrow> set_ele list" where
  "set_elems ob = (case ob of SetHt d \<Rightarrow> si_rest ob (HtIter dictGetIterator) | _ \<Rightarrow> si_rest ob (IntIter 0))"

lemma setTypeInitIterator_ok:
  assumes "obj_rep seed ob (VSet S)"
  shows "\<exists>si. setTypeInitIterator ob = Some si \<and> si_ok seed ob si \<and> si_rest ob si = set_elems ob"
proof (cases ob)
  case (SetHt d)
  then show ?thesis by (auto simp: setTypeInitIterator_def set_elems_def it_ok_start)
qed (use assms in \<open>auto simp: setTypeInitIterator_def set_elems_def\<close>)

lemma set_elems_ok:
  assumes "obj_rep seed ob (VSet S)"
  shows "distinct (map ele_text (set_elems ob))" "set (map ele_text (set_elems ob)) = S"
    "\<forall>x \<in> set (set_elems ob). ele_ok ob x" "length (set_elems ob) = card S"
proof -
  have *: "distinct (map ele_text (set_elems ob)) \<and> set (map ele_text (set_elems ob)) = S \<and>
    (\<forall>x \<in> set (set_elems ob). ele_ok ob x)"
  proof (cases ob)
    case (SetHt d)
    then have inv: "dict_inv (setDictType seed) d" "dom (dict_map d) = S" using assms by (auto simp: dict_set_def)
    have e: "set_elems ob = map (\<lambda>kv. ObjEle (fst kv)) (entries d)"
      by (simp add: set_elems_def SetHt it_rest_start)
    have m: "map ele_text (set_elems ob) = map fst (entries d)" by (simp add: e ele_text_def)
    have "distinct (map fst (entries d))" using inv(1) by (simp add: dict_inv_def)
    moreover have "set (map fst (entries d)) = S"
      using inv(2) by (auto simp: dict_map_def dom_map_of_conv_image_fst)
    moreover have "\<forall>x \<in> set (set_elems ob). ele_ok ob x" unfolding e by (auto simp: ele_ok_def SetHt)
    ultimately show ?thesis unfolding m by blast
  next
    case (SetIntset s)
    obtain ns where ns: "intset_rep s ns" "- (2 ^ 63) \<notin> set ns" "S = dec_int ` set ns"
      "\<And>n. n \<in> set ns \<Longrightarrow> in_sbytes 8 n" "is_length s = length ns"
      using assms unfolding SetIntset by (erule_tac intset_objE) metis
    have "map (\<lambda>j. IntEle (the (the (intsetGet s j)))) [0..<length ns] = map IntEle ns"
      using intsetGet_correct [OF ns(1)] by (intro nth_equalityI) auto
    then have e: "set_elems ob = map IntEle ns" by (simp add: set_elems_def SetIntset ns(5))
    have m: "map ele_text (set_elems ob) = map dec_int ns" by (simp add: e ele_text_def)
    have "distinct ns" using ns(1) strict_sorted_distinct by (auto simp: intset_rep_def)
    then have "distinct (map dec_int ns)" using dec_int_inj by (simp add: distinct_map inj_on_def)
    moreover have "\<forall>x \<in> set (set_elems ob). ele_ok ob x"
      unfolding e using ns(2,4) by (auto simp: ele_ok_def SetIntset)
    ultimately show ?thesis unfolding m by (simp add: ns(3))
  qed (use assms in auto)
  then show "distinct (map ele_text (set_elems ob))" "set (map ele_text (set_elems ob)) = S"
    "\<forall>x \<in> set (set_elems ob). ele_ok ob x" by blast+
  then show "length (set_elems ob) = card S" using distinct_card by fastforce
qed

lemma set_foreach_run:
  assumes "obj_rep seed ob (VSet S)" "si_ok seed ob si" "length (si_rest ob si) < n"
  shows "set_foreach n ob si f acc = foldo f (si_rest ob si) acc"
  using assms(2,3)
proof (induction n arbitrary: si acc)
  case (Suc n)
  obtain si' where si': "setTypeNext ob si = Some (si', case si_rest ob si of [] \<Rightarrow> None | x # _ \<Rightarrow> Some x)"
    "si_rest ob si \<noteq> [] \<longrightarrow> si_ok seed ob si' \<and> si_rest ob si' = tl (si_rest ob si)"
    using setTypeNext_ok [OF assms(1) Suc.prems(1)] by blast
  show ?case
  proof (cases "si_rest ob si")
    case Nil
    then show ?thesis using si' by simp
  next
    case (Cons x xs)
    then have "si_ok seed ob si'" "si_rest ob si' = xs" using si'(2) by auto
    then show ?thesis using Suc.IH [of si'] si'(1) Cons Suc.prems(2) by (cases "f x acc") auto
  qed
qed simp

lemma set_foreach_ok:
  assumes "obj_rep seed ob (VSet S)" "setTypeInitIterator ob = Some si"
  shows "set_foreach (card S + 1) ob si f acc = foldo f (set_elems ob) acc"
  using setTypeInitIterator_ok [OF assms(1)] assms(2) set_foreach_run [OF assms(1), of si "card S + 1"]
    set_elems_ok(4) [OF assms(1)] by auto

lemma setTypeNextObject_ok:
  assumes "obj_rep seed ob (VSet S)" "si_ok seed ob si" "\<forall>x \<in> set (si_rest ob si). ele_ok ob x"
  shows "\<exists>si'. setTypeNextObject ob si = Some (si', case si_rest ob si of [] \<Rightarrow> None | x # _ \<Rightarrow> Some (ele_text x)) \<and>
    (si_rest ob si \<noteq> [] \<longrightarrow> si_ok seed ob si' \<and> si_rest ob si' = tl (si_rest ob si))"
proof -
  obtain si' where si': "setTypeNext ob si = Some (si', case si_rest ob si of [] \<Rightarrow> None | x # _ \<Rightarrow> Some x)"
    "si_rest ob si \<noteq> [] \<longrightarrow> si_ok seed ob si' \<and> si_rest ob si' = tl (si_rest ob si)"
    using setTypeNext_ok [OF assms(1,2)] by blast
  show ?thesis
  proof (cases "si_rest ob si")
    case Nil
    then show ?thesis using si' by (simp add: setTypeNextObject_def)
  next
    case (Cons x xs)
    have x: "ele_ok ob x" using assms(3) Cons by simp
    show ?thesis
    proof (cases x)
      case (IntEle n)
      then have n: "in_sbytes 8 n" "n \<noteq> - (2 ^ 63)" using x by (auto simp: ele_ok_def split: robj.splits)
      note ob = createFromLongLong_ok [OF n, of seed]
      show ?thesis using si' Cons IntEle ob obj_text_ok [OF conjunct2 [OF ob]]
        by (simp add: setTypeNextObject_def ele_text_def)
    next
      case (ObjEle t)
      then show ?thesis using si' Cons by (simp add: setTypeNextObject_def ele_text_def)
    qed
  qed
qed

lemma set_foreach_object_run:
  assumes "obj_rep seed ob (VSet S)" "si_ok seed ob si" "length (si_rest ob si) < n"
    "\<forall>x \<in> set (si_rest ob si). ele_ok ob x"
  shows "set_foreach_object n ob si f acc = foldo f (map ele_text (si_rest ob si)) acc"
  using assms(2-4)
proof (induction n arbitrary: si acc)
  case (Suc n)
  obtain si' where si': "setTypeNextObject ob si = Some (si', case si_rest ob si of [] \<Rightarrow> None | x # _ \<Rightarrow> Some (ele_text x))"
    "si_rest ob si \<noteq> [] \<longrightarrow> si_ok seed ob si' \<and> si_rest ob si' = tl (si_rest ob si)"
    using setTypeNextObject_ok [OF assms(1) Suc.prems(1,3)] by blast
  show ?case
  proof (cases "si_rest ob si")
    case Nil
    then show ?thesis using si' by simp
  next
    case (Cons x xs)
    then have "si_ok seed ob si'" "si_rest ob si' = xs" using si'(2) by auto
    then show ?thesis using Suc.IH [of si'] si'(1) Cons Suc.prems(2,3) by (cases "f (ele_text x) acc") auto
  qed
qed simp

lemma set_foreach_object_ok:
  assumes "obj_rep seed ob (VSet S)" "setTypeInitIterator ob = Some si"
  shows "set_foreach_object (card S + 1) ob si f acc = foldo f (map ele_text (set_elems ob)) acc"
  using setTypeInitIterator_ok [OF assms(1)] assms(2) set_foreach_object_run [OF assms(1), of si "card S + 1"]
    set_elems_ok(3,4) [OF assms(1)] by auto

subsection \<open>Random members\<close>

lemma setTypeRandomElement_ok:
  assumes "obj_rep (e_seed e) ob (VSet S)" "S \<noteq> {}" "card S \<le> 2 ^ 29"
  shows "\<And>rnd ob' x. setTypeRandomElement e rnd ob = Some (ob', x) \<Longrightarrow>
      obj_rep (e_seed e) ob' (VSet S) \<and> ele_text x \<in> S \<and> ele_ok ob' x"
    and "\<And>t. t \<in> S \<Longrightarrow> \<exists>rnd ob' x. setTypeRandomElement e rnd ob = Some (ob', x) \<and> ele_text x = t"
proof -
  have *: "(\<forall>rnd ob' x. setTypeRandomElement e rnd ob = Some (ob', x) \<longrightarrow>
      obj_rep (e_seed e) ob' (VSet S) \<and> ele_text x \<in> S \<and> ele_ok ob' x) \<and>
    (\<forall>t \<in> S. \<exists>rnd ob' x. setTypeRandomElement e rnd ob = Some (ob', x) \<and> ele_text x = t)"
  proof (cases ob)
    case (SetHt d)
    then have inv: "dict_inv (setDictType (e_seed e)) d" "dom (dict_map d) = S" using assms by (auto simp: dict_set_def)
    have n: "dictSize d = card S" using card_dom_dict(2) [OF inv(1)] inv(2) by simp
    then have "dictSize d \<noteq> 0" "dictSize d < 2 ^ 31"
      using assms set_obj_finite [OF assms(1)] by auto
    note R = dictGetRandomKey_correct [OF inv(1) this]
    have ent: "fst ` set (entries d) = S" using inv(2) by (auto simp: dict_map_def dom_map_of_conv_image_fst)
    have 1: "obj_rep (e_seed e) ob' (VSet S) \<and> ele_text x \<in> S \<and> ele_ok ob' x"
      if r: "setTypeRandomElement e rnd ob = Some (ob', x)" for rnd ob' x
    proof -
      obtain d' kv where d': "dictGetRandomKey (setDictType (e_seed e)) d rnd = Some (d', Some kv)"
        "ob' = SetHt d'" "x = ObjEle (fst kv)"
        using r by (auto simp: setTypeRandomElement_def SetHt bind_eq_Some_conv split: option.splits)
      then have "dict_inv (setDictType (e_seed e)) d'" "dict_map d' = dict_map d" "kv \<in> set (entries d)"
        using R by blast+
      then show ?thesis using d'(2,3) ent inv(2) by (auto simp: dict_set_def ele_text_def ele_ok_def)
    qed
    have 2: "\<exists>rnd ob' x. setTypeRandomElement e rnd ob = Some (ob', x) \<and> ele_text x = t" if "t \<in> S" for t
    proof -
      have "t \<in> fst ` set (entries d)" using that ent by simp
      then obtain kv where kv: "kv \<in> set (entries d)" "fst kv = t" by (elim imageE) simp
      obtain r1 r2 d' where "dictGetRandomKey (setDictType (e_seed e)) d [r1, r2] = Some (d', Some kv)"
        using R kv(1) by blast
      then show ?thesis using kv(2)
        by (intro exI [of _ "[r1, r2]"]) (simp add: setTypeRandomElement_def SetHt ele_text_def)
    qed
    show ?thesis using 1 2 by blast
  next
    case (SetIntset s)
    obtain ns where ns: "intset_rep s ns" "- (2 ^ 63) \<notin> set ns" "S = dec_int ` set ns"
      "\<And>n. n \<in> set ns \<Longrightarrow> in_sbytes 8 n" "is_length s = length ns"
      using assms(1) unfolding SetIntset by (erule_tac intset_objE) metis
    have ne: "ns \<noteq> []" using assms(2) ns(3) by auto
    have 1: "obj_rep (e_seed e) ob' (VSet S) \<and> ele_text x \<in> S \<and> ele_ok ob' x"
      if r: "setTypeRandomElement e rnd ob = Some (ob', x)" for rnd ob' x
    proof -
      obtain r rs v where v: "rnd = r # rs" "intsetRandom r s = Some v" "ob' = SetIntset s" "x = IntEle v"
        using r by (auto simp: setTypeRandomElement_def SetIntset bind_eq_Some_conv split: list.splits)
      have "v \<in> set ns" using intsetRandom_correct [OF ns(1) ne, of r] v(2) by auto
      then show ?thesis using v ns assms(1) SetIntset by (auto simp: ele_text_def ele_ok_def)
    qed
    have 2: "\<exists>rnd ob' x. setTypeRandomElement e rnd ob = Some (ob', x) \<and> ele_text x = t" if t: "t \<in> S" for t
    proof -
      obtain i where i: "i < length ns" "dec_int (ns ! i) = t" using t ns(3) by (auto simp: in_set_conv_nth)
      have "to_int32 (int i) = int i" using intset_rep_length [OF ns(1)] i(1) by (intro to_int32_in_range) auto
      then have "intsetRandom i s = Some (ns ! i)"
        using i(1) ns(5) ne intsetGetAt_rep [OF ns(1) i(1)] by (simp add: intsetRandom_def)
      then show ?thesis using i(2)
        by (intro exI [of _ "[i]"]) (simp add: setTypeRandomElement_def SetIntset ele_text_def)
    qed
    show ?thesis using 1 2 by blast
  qed (use assms in auto)
  from * show "\<And>rnd ob' x. setTypeRandomElement e rnd ob = Some (ob', x) \<Longrightarrow>
      obj_rep (e_seed e) ob' (VSet S) \<and> ele_text x \<in> S \<and> ele_ok ob' x" by blast
  from * show "\<And>t. t \<in> S \<Longrightarrow> \<exists>rnd ob' x. setTypeRandomElement e rnd ob = Some (ob', x) \<and> ele_text x = t" by blast
qed

end
