(* ===== verification/TSetCmds.thy ===== *)
theory TSetCmds
  imports TSet
begin

text \<open>
  The commands of \<open>t_set.c\<close>.  The pointer to a set of the key space is its key: an operation reads
  the object with \<open>objectAt\<close> and stores the changed object back with \<open>storeObject\<close>, so two equal
  pointers see each other's changes.  A member is its text, whatever its encoding.  The commands
  that draw random members get the values of \<open>random()\<close> as an argument; the order in which members
  are replied is that of the tables, which the specifications leave open.
\<close>

section \<open>The code\<close>

primrec sadd_loop :: "env \<Rightarrow> byte list list \<Rightarrow> robj \<Rightarrow> int \<Rightarrow> (robj \<times> int) option" where
  "sadd_loop e [] set1 added = Some (set1, added)"
| "sadd_loop e (v # vs) set1 added = do {
     (set1, b) \<leftarrow> setTypeAdd e set1 v;
     sadd_loop e vs set1 (if b then added + 1 else added) }"

definition saddCommand :: "env \<Rightarrow> byte list \<Rightarrow> byte list list \<Rightarrow> db \<Rightarrow> db option" where
  "saddCommand e key vals st = do {
     (st, r) \<leftarrow> lookupKeyWrite e st key;
     (st, r) \<leftarrow> (case r of
        None \<Rightarrow> (case vals of
            [] \<Rightarrow> None
          | v # _ \<Rightarrow> do {
              let set1 = setTypeCreate v;
              st \<leftarrow> dbAdd e st key set1;
              Some (st, Some set1) })
      | Some set1 \<Rightarrow>
          if otype set1 \<noteq> REDIS_SET then Some (addReply shared_wrongtypeerr st, None)
          else Some (st, Some set1));
     case r of
       None \<Rightarrow> Some st
     | Some set1 \<Rightarrow> do {
         (set1, added) \<leftarrow> sadd_loop e vals set1 0;
         let st = storeObject key set1 st;
         let st = (if added \<noteq> 0 then signalModifiedKey key st else st);
         let st = addDirty added st;
         Some (addReply (Integer added) st) } }"

primrec srem_loop :: "env \<Rightarrow> byte list \<Rightarrow> byte list list \<Rightarrow> robj \<Rightarrow> int \<Rightarrow> db \<Rightarrow> (db \<times> int) option" where
  "srem_loop e key [] set1 deleted st = Some (st, deleted)"
| "srem_loop e key (v # vs) set1 deleted st = do {
     (set1, b) \<leftarrow> setTypeRemove e set1 v;
     let st = storeObject key set1 st;
     if b then do {
       n \<leftarrow> setTypeSize set1;
       if n = 0 then do { (st, x) \<leftarrow> dbDelete e st key; Some (st, deleted + 1) }
       else srem_loop e key vs set1 (deleted + 1) st }
     else srem_loop e key vs set1 deleted st }"

definition sremCommand :: "env \<Rightarrow> byte list \<Rightarrow> byte list list \<Rightarrow> db \<Rightarrow> db option" where
  "sremCommand e key vals st = do {
     (st, r) \<leftarrow> lookupKeyWriteOrReply e st key shared_czero;
     case r of
       None \<Rightarrow> Some st
     | Some set1 \<Rightarrow>
         let (st, err) = checkType st set1 REDIS_SET
         in if err then Some st
            else do {
              (st, deleted) \<leftarrow> srem_loop e key vals set1 0 st;
              let st = (if deleted \<noteq> 0 then addDirty deleted (signalModifiedKey key st) else st);
              Some (addReply (Integer deleted) st) } }"

text \<open>The second part of \<open>smoveCommand\<close>: both keys have been looked up and have the right types.\<close>

definition smove_sets ::
  "env \<Rightarrow> byte list \<Rightarrow> byte list \<Rightarrow> byte list \<Rightarrow> robj \<Rightarrow> robj option \<Rightarrow> db \<Rightarrow> db option" where
  "smove_sets e src dst ele srcset dstset st = do {
     (srcset, removed) \<leftarrow> setTypeRemove e srcset ele;
     let st = storeObject src srcset st;
     if \<not> removed then Some (addReply shared_czero st)
     else do {
       n \<leftarrow> setTypeSize srcset;
       st \<leftarrow> (if n = 0 then do { (st, x) \<leftarrow> dbDelete e st src; Some st } else Some st);
       let st = signalModifiedKey src st;
       let st = signalModifiedKey dst st;
       let st = addDirty 1 st;
       (st, dstset) \<leftarrow> (case dstset of
           None \<Rightarrow> do { let s = setTypeCreate ele; st \<leftarrow> dbAdd e st dst s; Some (st, s) }
         | Some s \<Rightarrow> Some (st, s));
       (dstset, added) \<leftarrow> setTypeAdd e dstset ele;
       let st = storeObject dst dstset st;
       let st = (if added then addDirty 1 st else st);
       Some (addReply shared_cone st) } }"

definition smoveCommand :: "env \<Rightarrow> byte list \<Rightarrow> byte list \<Rightarrow> byte list \<Rightarrow> db \<Rightarrow> db option" where
  "smoveCommand e src dst ele st = do {
     (st, srcset) \<leftarrow> lookupKeyWrite e st src;
     (st, dstset) \<leftarrow> lookupKeyWrite e st dst;
     case srcset of
       None \<Rightarrow> Some (addReply shared_czero st)
     | Some s \<Rightarrow>
         let (st, err) = checkType st s REDIS_SET
         in if err then Some st
            else let (st, err) = (case dstset of None \<Rightarrow> (st, False) | Some d \<Rightarrow> checkType st d REDIS_SET)
            in if err then Some st
               else if dstset \<noteq> None \<and> src = dst then Some (addReply shared_cone st)
               else smove_sets e src dst ele s dstset st }"

definition sismemberCommand :: "env \<Rightarrow> byte list \<Rightarrow> byte list \<Rightarrow> db \<Rightarrow> db option" where
  "sismemberCommand e key ele st = do {
     (st, r) \<leftarrow> lookupKeyReadOrReply e st key shared_czero;
     case r of
       None \<Rightarrow> Some st
     | Some set1 \<Rightarrow>
         let (st, err) = checkType st set1 REDIS_SET
         in if err then Some st
            else do {
              (set1, b) \<leftarrow> setTypeIsMember e set1 ele;
              let st = storeObject key set1 st;
              if b then Some (addReply shared_cone st) else Some (addReply shared_czero st) } }"

definition scardCommand :: "env \<Rightarrow> byte list \<Rightarrow> db \<Rightarrow> db option" where
  "scardCommand e key st = do {
     (st, r) \<leftarrow> lookupKeyReadOrReply e st key shared_czero;
     case r of
       None \<Rightarrow> Some st
     | Some ob \<Rightarrow>
         let (st, err) = checkType st ob REDIS_SET
         in if err then Some st
            else do { n \<leftarrow> setTypeSize ob; Some (addReply (Integer (int n)) st) } }"

text \<open>The element drawn by \<open>spopCommand\<close> is removed from the set; the result is its text.\<close>

definition spop_remove :: "env \<Rightarrow> robj \<Rightarrow> set_ele \<Rightarrow> (robj \<times> byte list) option" where
  "spop_remove e set1 x =
     (case x of
        IntEle llele \<Rightarrow>
          (case set1 of
             SetIntset s \<Rightarrow> do {
               ele \<leftarrow> createStringObjectFromLongLong llele;
               t \<leftarrow> obj_text ele;
               (s, b) \<leftarrow> intsetRemove s llele;
               Some (SetIntset s, t) }
           | _ \<Rightarrow> None)
      | ObjEle t \<Rightarrow> do { (set1, b) \<leftarrow> setTypeRemove e set1 t; Some (set1, t) })"

definition spopCommand :: "env \<Rightarrow> nat list \<Rightarrow> byte list \<Rightarrow> db \<Rightarrow> db option" where
  "spopCommand e rnd key st = do {
     (st, r) \<leftarrow> lookupKeyWriteOrReply e st key shared_nullbulk;
     case r of
       None \<Rightarrow> Some st
     | Some set1 \<Rightarrow>
         let (st, err) = checkType st set1 REDIS_SET
         in if err then Some st
            else do {
              (set1, x) \<leftarrow> setTypeRandomElement e rnd set1;
              (set1, t) \<leftarrow> spop_remove e set1 x;
              let st = storeObject key set1 st;
              let st = rewriteClientCommandVector [bytes ''SREM'', key, t] st;
              let st = addReply (Bulk t) st;
              n \<leftarrow> setTypeSize set1;
              st \<leftarrow> (if n = 0 then do { (st, b) \<leftarrow> dbDelete e st key; Some st } else Some st);
              let st = signalModifiedKey key st;
              Some (addDirty 1 st) } }"

section \<open>The specification\<close>

text \<open>The members of a key that is missing or a set; a command on a value of another type.\<close>

definition members :: "val option \<Rightarrow> byte list set" where
  "members v = (case v of Some (VSet S) \<Rightarrow> S | _ \<Rightarrow> {})"

definition wrong_type :: "val option \<Rightarrow> bool" where
  "wrong_type v \<longleftrightarrow> (case v of Some (VStr _) \<Rightarrow> True | _ \<Rightarrow> False)"

text \<open>A set that has become empty is deleted with its key.\<close>

definition a_putset :: "byte list \<Rightarrow> byte list set \<Rightarrow> adb \<Rightarrow> adb" where
  "a_putset k S a = (if S = {} then a_del k a else a_put k (VSet S) a)"

definition a_sadd :: "env \<Rightarrow> byte list \<Rightarrow> byte list list \<Rightarrow> adb \<Rightarrow> adb" where
  "a_sadd e k vals a =
     (let b = a_expire e k a; v = a_look e k a; S = members v; n = int (card (set vals - S))
      in if wrong_type v then addReply shared_wrongtypeerr b
         else addReply (Integer n) (addDirty n ((if n \<noteq> 0 then signalModifiedKey k else id)
                (a_put k (VSet (S \<union> set vals)) b))))"

definition a_srem :: "env \<Rightarrow> byte list \<Rightarrow> byte list list \<Rightarrow> adb \<Rightarrow> adb" where
  "a_srem e k vals a =
     (let b = a_expire e k a; v = a_look e k a; S = members v; n = int (card (set vals \<inter> S))
      in if v = None then addReply shared_czero b
         else if wrong_type v then addReply shared_wrongtypeerr b
         else addReply (Integer n) ((if n \<noteq> 0 then \<lambda>a. addDirty n (signalModifiedKey k a) else id)
                (a_putset k (S - set vals) b)))"

definition a_smove :: "env \<Rightarrow> byte list \<Rightarrow> byte list \<Rightarrow> byte list \<Rightarrow> adb \<Rightarrow> adb" where
  "a_smove e src dst ele a =
     (let b = a_expire e dst (a_expire e src a);
          S = members (st_keys b src); T = members (st_keys b dst)
      in if st_keys b src = None then addReply shared_czero b
         else if wrong_type (st_keys b src) \<or> wrong_type (st_keys b dst) then addReply shared_wrongtypeerr b
         else if src = dst then addReply shared_cone b
         else if ele \<notin> S then addReply shared_czero b
         else addReply shared_cone (addDirty (if ele \<in> T then 1 else 2)
           (signalModifiedKey dst (signalModifiedKey src
             (a_put dst (VSet (insert ele T)) (a_putset src (S - {ele}) b))))))"

definition a_sismember :: "env \<Rightarrow> byte list \<Rightarrow> byte list \<Rightarrow> adb \<Rightarrow> adb" where
  "a_sismember e k ele a =
     (let v = a_look e k a
      in addReply (if wrong_type v then shared_wrongtypeerr
           else if ele \<in> members v then shared_cone else shared_czero) (a_read e k a))"

definition a_scard :: "env \<Rightarrow> byte list \<Rightarrow> adb \<Rightarrow> adb" where
  "a_scard e k a =
     (let v = a_look e k a
      in addReply (if wrong_type v then shared_wrongtypeerr else Integer (int (card (members v)))) (a_read e k a))"

text \<open>\<open>SPOP\<close> for the member \<open>t\<close> that is drawn.\<close>

definition a_spop :: "env \<Rightarrow> byte list \<Rightarrow> byte list \<Rightarrow> adb \<Rightarrow> adb" where
  "a_spop e k t a =
     (let b = a_expire e k a; v = a_look e k a
      in if v = None then addReply shared_nullbulk b
         else if wrong_type v then addReply shared_wrongtypeerr b
         else addDirty 1 (signalModifiedKey k (addReply (Bulk t)
           (rewriteClientCommandVector [bytes ''SREM'', k, t] (a_putset k (members v - {t}) b)))))"

text \<open>The sizes the proofs rely on: no set grows to \<open>2 ^ 29 - 1\<close> members.\<close>

definition fits :: "nat \<Rightarrow> val option \<Rightarrow> bool" where
  "fits n v \<longleftrightarrow> card (members v) + n \<le> 2 ^ 29 - 1"

text \<open>An empty set is never stored.\<close>

definition no_empty_sets :: "adb \<Rightarrow> bool" where
  "no_empty_sets a \<longleftrightarrow> (\<forall>k. st_keys a k \<noteq> Some (VSet {}))"

section \<open>The commands refine their specifications\<close>

lemma checkType_set:
  "otype ob = REDIS_SET \<Longrightarrow> checkType st ob REDIS_SET = (st, False)"
  "otype ob = REDIS_STRING \<Longrightarrow> checkType st ob REDIS_SET = (addReply shared_wrongtypeerr st, True)"
  by (simp_all add: checkType_def)

lemma set_cases:
  assumes "rel_option (obj_rep seed) r v"
  obtains "r = None" "v = None" "members v = {}" "\<not> wrong_type v"
  | ob S where "r = Some ob" "otype ob = REDIS_SET" "obj_rep seed ob (VSet S)" "v = Some (VSet S)"
      "members v = S" "\<not> wrong_type v"
  | ob t where "r = Some ob" "otype ob = REDIS_STRING" "v = Some (VStr t)" "wrong_type v"
proof (cases v)
  case None
  then show thesis using assms that(1) by (simp add: members_def wrong_type_def)
next
  case (Some w)
  then obtain ob where ob: "r = Some ob" "obj_rep seed ob w" using assms by (auto simp: option_rel_Some2)
  show thesis
    using ob Some that(2,3) obj_rep_type [OF ob(2)] by (cases w) (auto simp: members_def wrong_type_def)
qed

lemma sadd_loop_ok:
  "\<lbrakk>obj_rep (e_seed e) ob (VSet S); card S + length vs \<le> 2 ^ 29 - 1; LLONG_MIN_text \<notin> set vs\<rbrakk> \<Longrightarrow>
   ok (sadd_loop e vs ob n) (\<lambda>(ob', m). obj_rep (e_seed e) ob' (VSet (S \<union> set vs)) \<and>
     m = n + int (card (set vs - S)))"
proof (induction vs arbitrary: ob S n)
  case (Cons v vs)
  note add = setTypeAdd_ok [OF Cons.prems(1), of v]
  have fin: "finite S" by (rule set_obj_finite [OF Cons.prems(1)])
  have c: "card (insert v S) + length vs \<le> 2 ^ 29 - 1"
    using Cons.prems(2) card_insert_le_m1 [of "Suc (card S)" S v] fin by (simp add: card_insert_if split: if_splits)
  have d: "int (card (set (v # vs) - S)) = (if v \<in> S then 0 else 1) + int (card (set vs - insert v S))"
  proof (cases "v \<in> S")
    case True
    then show ?thesis by (simp add: insert_absorb insert_Diff_if)
  next
    case False
    have "set (v # vs) - S = insert v (set vs - insert v S)" using False by auto
    then show ?thesis using False by (simp del: set_simps)
  qed
  show ?case
    unfolding sadd_loop.simps ok_simps
  proof (rule ok_mono2 [OF add], goal_cases)
    case (3 ob' b)
    have "LLONG_MIN_text \<notin> set vs" using Cons.prems(3) by simp
    from Cons.IH [OF _ c this, of ob' "if b then n + 1 else n"] 3
    have "ok (sadd_loop e vs ob' (if b then n + 1 else n)) (\<lambda>(ob', m). obj_rep (e_seed e) ob' (VSet (insert v S \<union> set vs)) \<and>
      m = (if b then n + 1 else n) + int (card (set vs - insert v S)))" by simp
    then show ?case unfolding prod.case
      by (rule ok_mono2) (use 3 d in \<open>auto simp del: set_simps simp: set_simps(2)\<close>)
  qed (use Cons.prems in auto)
qed simp

lemma a_put_same: "st_keys a k = Some v \<Longrightarrow> a_put k v a = a"
  by (rule store_eqI) auto

lemma a_putset_put [simp]: "a_putset k S (a_put k v a) = a_putset k S a"
  by (auto simp: a_putset_def intro!: store_eqI)

lemma a_putset_maps:
  "st_keys (a_putset k S a) = (st_keys a)(k := (if S = {} then None else Some (VSet S)))"
  "st_srv (a_putset k S a) = st_srv a"
  by (simp_all add: a_putset_def)

lemma sadd_ok:
  assumes "db_rel e st a" "room 1 a" "vs \<noteq> []" "LLONG_MIN_text \<notin> set vs" "fits (length vs) (a_look e k a)"
  shows "ok (saddCommand e k vs st) (\<lambda>st'. db_rel e st' (a_sadd e k vs a))"
  unfolding saddCommand_def ok_simps
proof (rule lookupKeyWrite_wp [OF assms(1), of k], unfold prod.case ok_simps, elim conjE)
  fix s r assume s: "db_rel e s (a_expire e k a)" and r: "rel_option (obj_rep (e_seed e)) r (a_look e k a)"
  have fin: "ok (sadd_loop e vs ob 0) (\<lambda>(ob', added).
      db_rel e (addReply (Integer added) (addDirty added (if added \<noteq> 0 then signalModifiedKey k (storeObject k ob' s')
        else storeObject k ob' s'))) (a_sadd e k vs a))"
    if h: "db_rel e s' c" "a_put k w c = a_put k w (a_expire e k a)" "st_keys c k \<noteq> None" "obj_rep (e_seed e) ob (VSet S)"
      "members (a_look e k a) = S" "\<not> wrong_type (a_look e k a)" for s' ob S c w
  proof (rule ok_mono2 [OF sadd_loop_ok [OF h(4) _ assms(4), of 0]])
    show "card S + length vs \<le> 2 ^ 29 - 1" using assms(5) h(5) by (simp add: fits_def)
    fix ob' n assume n: "obj_rep (e_seed e) ob' (VSet (S \<union> set vs)) \<and> n = 0 + int (card (set vs - S))"
    have "a_put k (VSet (S \<union> set vs)) c = a_put k (VSet (S \<union> set vs)) (a_put k w c)" by simp
    then have "db_rel e (storeObject k ob' s') (a_put k (VSet (S \<union> set vs)) (a_expire e k a))"
      using storeObject_ok [OF h(1,3) conjunct1 [OF n]] h(2) by simp
    then show "case (ob', n) of (ob', added) \<Rightarrow> db_rel e (addReply (Integer added) (addDirty added
        (if added \<noteq> 0 then signalModifiedKey k (storeObject k ob' s') else storeObject k ob' s'))) (a_sadd e k vs a)"
      using n h(5,6) by (auto simp: a_sadd_def Let_def)
  qed
  show "ok (case r of
        None \<Rightarrow> (case vs of [] \<Rightarrow> None
          | v # _ \<Rightarrow> do { let set1 = setTypeCreate v; st \<leftarrow> dbAdd e s k set1; Some (st, Some set1) })
      | Some set1 \<Rightarrow>
          if otype set1 \<noteq> REDIS_SET then Some (addReply shared_wrongtypeerr s, None)
          else Some (s, Some set1))
     (\<lambda>x. ok (case x of (st, r) \<Rightarrow> (case r of
       None \<Rightarrow> Some st
     | Some set1 \<Rightarrow> do {
         (set1, added) \<leftarrow> sadd_loop e vs set1 0;
         let st = storeObject k set1 st;
         let st = (if added \<noteq> 0 then signalModifiedKey k st else st);
         let st = addDirty added st;
         Some (addReply (Integer added) st) })) (\<lambda>st'. db_rel e st' (a_sadd e k vs a)))"
  proof (cases rule: set_cases [OF r])
    case 1
    obtain v vs' where vs: "vs = v # vs'" using assms(3) by (cases vs) auto
    have "ok (dbAdd e s k (setTypeCreate v)) (\<lambda>s'. ok (sadd_loop e vs (setTypeCreate v) 0) (\<lambda>(ob', added).
      db_rel e (addReply (Integer added) (addDirty added (if added \<noteq> 0 then signalModifiedKey k (storeObject k ob' s')
        else storeObject k ob' s'))) (a_sadd e k vs a)))"
      by (rule dbAdd_wp [OF s _ _ setTypeCreate_ok])
        (use 1 assms(2) fin [OF _ _ _ setTypeCreate_ok, of _ _ "VSet {}"] in \<open>auto simp: a_look_def simp del: a_expire_simps\<close>)
    then show ?thesis using 1(1) by (simp add: vs Let_def case_prod_beta' del: sadd_loop.simps ok_if split del: if_split cong: if_cong)
  next
    case (2 ob S)
    have "a_look e k a \<noteq> None" using 2(4) by simp
    then have "st_keys (a_expire e k a) k \<noteq> None" by (simp add: a_look_def)
    from fin [where w = "VSet {}", OF s refl this 2(3,5,6)] 2(1,2) show ?thesis
      by (simp add: Let_def case_prod_beta' del: ok_if split del: if_split cong: if_cong)
  next
    case (3 ob t)
    then show ?thesis using s by (auto simp: a_sadd_def Let_def)
  qed
qed

lemma srem_loop_ok:
  "\<lbrakk>db_rel e st a; obj_rep (e_seed e) ob (VSet S); st_keys a k = Some (VSet S); S \<noteq> {}\<rbrakk> \<Longrightarrow>
   ok (srem_loop e k vs ob n st) (\<lambda>(st', m). db_rel e st' (a_putset k (S - set vs) a) \<and>
     m = n + int (card (set vs \<inter> S)))"
proof (induction vs arbitrary: ob S n st a)
  case Nil
  then show ?case by (simp add: a_putset_def a_put_same)
next
  case (Cons v vs)
  have fin: "finite S" by (rule set_obj_finite [OF Cons.prems(2)])
  have C: "card (set (v # vs) \<inter> S) = (if v \<in> S then 1 else 0) + card (set vs \<inter> (S - {v}))"
  proof (cases "v \<in> S")
    case True
    then have "set (v # vs) \<inter> S = insert v (set vs \<inter> (S - {v}))" by auto
    then show ?thesis using True fin by (simp del: set_simps)
  qed simp
  show ?case
    unfolding srem_loop.simps ok_simps
  proof (rule ok_mono2 [OF setTypeRemove_ok [OF Cons.prems(2), of v]], unfold prod.case, elim conjE)
    fix ob' b assume ob': "obj_rep (e_seed e) ob' (VSet (S - {v}))" "b = (v \<in> S)"
    define st1 where "st1 = storeObject k ob' st"
    define a1 where "a1 = a_put k (VSet (S - {v})) a"
    have st1: "db_rel e st1 a1" unfolding st1_def a1_def
      by (rule storeObject_ok [OF Cons.prems(1) _ ob'(1)]) (simp add: Cons.prems(3))
    have eq: "a_putset k (S - {v} - set vs) a1 = a_putset k (S - set (v # vs)) a"
      by (simp add: a1_def set_diff_eq conj_ac)
    have IH: "ok (srem_loop e k vs ob' m st1) (\<lambda>(st', m'). db_rel e st' (a_putset k (S - set (v # vs)) a) \<and>
      m' = m + int (card (set vs \<inter> (S - {v}))))" if "S - {v} \<noteq> {}" for m
      using Cons.IH [OF st1 ob'(1) _ that, of m] unfolding eq by (simp add: a1_def)
    show "ok (let st = storeObject k ob' st in if b then do {
       n1 \<leftarrow> setTypeSize ob';
       if n1 = 0 then do { (st, x) \<leftarrow> dbDelete e st k; Some (st, n + 1) }
       else srem_loop e k vs ob' (n + 1) st }
     else srem_loop e k vs ob' n st) (\<lambda>(st', m). db_rel e st' (a_putset k (S - set (v # vs)) a) \<and>
     m = n + int (card (set (v # vs) \<inter> S)))"
      unfolding st1_def [symmetric] Let_def
    proof (cases "v \<in> S")
      case False
      then show "ok (if b then do {
           n1 \<leftarrow> setTypeSize ob';
           if n1 = 0 then do { (st, x) \<leftarrow> dbDelete e st1 k; Some (st, n + 1) }
           else srem_loop e k vs ob' (n + 1) st1 }
         else srem_loop e k vs ob' n st1) (\<lambda>(st', m). db_rel e st' (a_putset k (S - set (v # vs)) a) \<and>
         m = n + int (card (set (v # vs) \<inter> S)))"
        using IH [of n] ob'(2) Cons.prems(4) C by (auto elim!: ok_mono2 simp del: set_simps)
    next
      case True
      have n0: "card (S - {v}) = 0 \<longleftrightarrow> S - {v} = {}" using fin by simp
      have "ok (if S - {v} = {} then do { (st, x) \<leftarrow> dbDelete e st1 k; Some (st, n + 1) }
           else srem_loop e k vs ob' (n + 1) st1) (\<lambda>(st', m). db_rel e st' (a_putset k (S - set (v # vs)) a) \<and>
         m = n + int (card (set (v # vs) \<inter> S)))"
      proof (cases "S - {v} = {}")
        case e: True
        then have "S - set (v # vs) = {}" "a_del k a1 = a_del k a" by (auto simp: a1_def intro!: store_eqI)
        then show ?thesis using dbDelete_ok [OF st1, of k] C True e
          by (auto simp: a_putset_def simp del: set_simps elim!: ok_mono2)
      next
        case False
        then show ?thesis using IH [of "n + 1"] C True by (auto simp del: set_simps elim!: ok_mono2)
      qed
      then show "ok (if b then do {
           n1 \<leftarrow> setTypeSize ob';
           if n1 = 0 then do { (st, x) \<leftarrow> dbDelete e st1 k; Some (st, n + 1) }
           else srem_loop e k vs ob' (n + 1) st1 }
         else srem_loop e k vs ob' n st1) (\<lambda>(st', m). db_rel e st' (a_putset k (S - set (v # vs)) a) \<and>
         m = n + int (card (set (v # vs) \<inter> S)))"
        using ob'(2) True n0 by (simp add: setTypeSize_ok [OF ob'(1)] del: set_simps)
    qed
  qed
qed

lemma srem_ok:
  assumes "db_rel e st a" "no_empty_sets a"
  shows "ok (sremCommand e k vs st) (\<lambda>st'. db_rel e st' (a_srem e k vs a))"
  unfolding sremCommand_def ok_simps
proof (rule lookupKeyWriteOrReply_wp [OF assms(1), of k], unfold prod.case, elim conjE)
  fix s r
  assume s: "db_rel e s (if a_look e k a = None then addReply shared_czero (a_expire e k a) else a_expire e k a)"
    and r: "rel_option (obj_rep (e_seed e)) r (a_look e k a)"
  show "ok (case r of
       None \<Rightarrow> Some s
     | Some set1 \<Rightarrow>
         let (st, err) = checkType s set1 REDIS_SET
         in if err then Some st
            else do {
              (st, deleted) \<leftarrow> srem_loop e k vs set1 0 st;
              let st = (if deleted \<noteq> 0 then addDirty deleted (signalModifiedKey k st) else st);
              Some (addReply (Integer deleted) st) }) (\<lambda>st'. db_rel e st' (a_srem e k vs a))"
  proof (cases rule: set_cases [OF r])
    case 1
    then show ?thesis using s by (simp add: a_srem_def Let_def)
  next
    case (2 ob S)
    have S: "st_keys (a_expire e k a) k = Some (VSet S)" using 2(4) by (simp add: a_look_def)
    then have "S \<noteq> {}" using assms(2) by (auto simp: no_empty_sets_def split: if_splits)
    have rel: "db_rel e s (a_expire e k a)" using s 2(4) by simp
    have "ok (srem_loop e k vs ob 0 s) (\<lambda>(st, deleted). db_rel e (addReply (Integer deleted)
        (if deleted \<noteq> 0 then addDirty deleted (signalModifiedKey k st) else st)) (a_srem e k vs a))"
      by (rule ok_mono2 [OF srem_loop_ok [OF rel 2(3) S \<open>S \<noteq> {}\<close>, of vs 0]])
        (use 2(4-6) in \<open>auto simp: a_srem_def Let_def\<close>)
    then show ?thesis using 2(1,2) by (simp add: checkType_set Let_def case_prod_beta')
  next
    case (3 ob t)
    then show ?thesis using s by (auto simp: a_srem_def Let_def checkType_set)
  qed
qed

lemma smove_sets_ok:
  assumes "db_rel e st b" "room 1 b" "obj_rep (e_seed e) srcset (VSet S)" "st_keys b src = Some (VSet S)" "src \<noteq> dst"
    and "case dstset of None \<Rightarrow> st_keys b dst = None \<and> T = {}
         | Some ob \<Rightarrow> obj_rep (e_seed e) ob (VSet T) \<and> st_keys b dst = Some (VSet T)"
    and "ele \<noteq> LLONG_MIN_text" "card T + 1 \<le> 2 ^ 29 - 1"
  shows "ok (smove_sets e src dst ele srcset dstset st) (\<lambda>st'. db_rel e st'
    (if ele \<notin> S then addReply shared_czero b
     else addReply shared_cone (addDirty (if ele \<in> T then 1 else 2)
       (signalModifiedKey dst (signalModifiedKey src
         (a_put dst (VSet (insert ele T)) (a_putset src (S - {ele}) b)))))))"
  unfolding smove_sets_def ok_simps
proof (rule ok_mono2 [OF setTypeRemove_ok [OF assms(3), of ele]], unfold prod.case, elim conjE)
  fix ob1 rm assume ob1: "obj_rep (e_seed e) ob1 (VSet (S - {ele}))" "rm = (ele \<in> S)"
  have fin: "finite S" by (rule set_obj_finite [OF assms(3)])
  define st1 where "st1 = storeObject src ob1 st"
  have st1: "db_rel e st1 (a_put src (VSet (S - {ele})) b)"
    unfolding st1_def by (rule storeObject_ok [OF assms(1) _ ob1(1)]) (simp add: assms(4))
  define c where "c = a_putset src (S - {ele}) b"
  have del: "ok (if card (S - {ele}) = 0 then do { (st, x) \<leftarrow> dbDelete e st1 src; Some st } else Some st1)
      (\<lambda>st. db_rel e st c)"
  proof (cases "S - {ele} = {}")
    case True
    then have "a_del src (a_put src (VSet (S - {ele})) b) = c"
      by (auto simp: c_def a_putset_def intro!: store_eqI)
    moreover have "card (S - {ele}) = 0" unfolding True by simp
    ultimately show ?thesis using dbDelete_ok [OF st1, of src] by (auto elim!: ok_mono2)
  next
    case False
    then show ?thesis using st1 fin by (auto simp: c_def a_putset_def)
  qed
  have room: "room 1 c"
    using assms(2,4) by (auto simp: c_def a_putset_def room_put_present)
  have dst: "st_keys c dst = st_keys b dst" using assms(5) by (simp add: c_def a_putset_maps)
  define c2 where "c2 = addDirty 1 (signalModifiedKey dst (signalModifiedKey src c))"
  have add: "ok (setTypeAdd e ob ele) (\<lambda>(d, added). db_rel e (addReply shared_cone
       (if added then addDirty 1 (storeObject dst d st) else storeObject dst d st))
       (addReply shared_cone (addDirty (if ele \<in> T then 1 else 2)
       (signalModifiedKey dst (signalModifiedKey src (a_put dst (VSet (insert ele T)) c))))))"
    if h: "db_rel e st d0" "obj_rep (e_seed e) ob (VSet T)" "st_keys d0 dst \<noteq> None"
      "a_put dst (VSet (insert ele T)) d0 = a_put dst (VSet (insert ele T)) c2" for st ob d0
  proof (rule ok_mono2 [OF setTypeAdd_ok [OF h(2) _ assms(7)]])
    show "card T < 2 ^ 29 - 1" using assms(8) by simp
    fix d added assume d: "obj_rep (e_seed e) d (VSet (insert ele T)) \<and> added = (ele \<notin> T)"
    have "db_rel e (storeObject dst d st) (a_put dst (VSet (insert ele T)) c2)"
      using storeObject_ok [OF h(1,3) conjunct1 [OF d]] h(4) by simp
    moreover have "a_put dst (VSet (insert ele T)) c2 =
        addDirty 1 (signalModifiedKey dst (signalModifiedKey src (a_put dst (VSet (insert ele T)) c)))"
      by (rule store_eqI) (simp_all add: c2_def addDirty_def signalModifiedKey_def on_srv_def)
    moreover have "addDirty 1 (addDirty 1 x) = addDirty 2 x" for x :: adb
      by (simp add: addDirty_def on_srv_def)
    ultimately show "case (d, added) of (d, added) \<Rightarrow> db_rel e (addReply shared_cone
       (if added then addDirty 1 (storeObject dst d st) else storeObject dst d st))
       (addReply shared_cone (addDirty (if ele \<in> T then 1 else 2)
       (signalModifiedKey dst (signalModifiedKey src (a_put dst (VSet (insert ele T)) c)))))"
      using d by (auto simp del: db_rel_addDirty) (metis db_rel_addDirty db_rel_addReply)
  qed
  have second: "ok (case dstset of
           None \<Rightarrow> do { let s = setTypeCreate ele; st \<leftarrow> dbAdd e st2 dst s; Some (st, s) }
         | Some s \<Rightarrow> Some (st2, s)) (\<lambda>(st, d). ok (setTypeAdd e d ele) (\<lambda>(d, added). db_rel e (addReply shared_cone
       (if added then addDirty 1 (storeObject dst d st) else storeObject dst d st))
       (addReply shared_cone (addDirty (if ele \<in> T then 1 else 2)
       (signalModifiedKey dst (signalModifiedKey src (a_put dst (VSet (insert ele T)) c)))))))"
    if h: "db_rel e st2 c2" for st2
  proof (cases dstset)
    case None
    then have T: "st_keys b dst = None" "T = {}" using assms(6) by auto
    have ob: "obj_rep (e_seed e) (setTypeCreate ele) (VSet T)" unfolding T(2) by (rule setTypeCreate_ok)
    have "ok (dbAdd e st2 dst (setTypeCreate ele)) (\<lambda>st. ok (setTypeAdd e (setTypeCreate ele) ele) (\<lambda>(d, added).
       db_rel e (addReply shared_cone
       (if added then addDirty 1 (storeObject dst d st) else storeObject dst d st))
       (addReply shared_cone (addDirty (if ele \<in> T then 1 else 2)
       (signalModifiedKey dst (signalModifiedKey src (a_put dst (VSet (insert ele T)) c)))))))"
    proof (rule dbAdd_wp [OF h _ _ ob])
      show "room 1 c2" "st_keys c2 dst = None" using room dst T(1) by (simp_all add: c2_def)
    next
      fix st3 assume "db_rel e st3 (a_put dst (VSet T) c2)"
      from add [OF this ob]
      show "ok (setTypeAdd e (setTypeCreate ele) ele) (\<lambda>(d, added).
         db_rel e (addReply shared_cone
         (if added then addDirty 1 (storeObject dst d st3) else storeObject dst d st3))
         (addReply shared_cone (addDirty (if ele \<in> T then 1 else 2)
         (signalModifiedKey dst (signalModifiedKey src (a_put dst (VSet (insert ele T)) c))))))"
        by simp
    qed
    then show ?thesis using None by (simp add: Let_def del: ok_if split del: if_split cong: if_cong)
  next
    case (Some ob)
    then show ?thesis using assms(6) dst add [OF h, of ob] by (auto simp: c2_def)
  qed
  show "ok (let st = storeObject src ob1 st in
     if \<not> rm then Some (addReply shared_czero st)
     else do {
       n \<leftarrow> setTypeSize ob1;
       st \<leftarrow> (if n = 0 then do { (st, x) \<leftarrow> dbDelete e st src; Some st } else Some st);
       let st = signalModifiedKey src st;
       let st = signalModifiedKey dst st;
       let st = addDirty 1 st;
       (st, dstset) \<leftarrow> (case dstset of
           None \<Rightarrow> do { let s = setTypeCreate ele; st \<leftarrow> dbAdd e st dst s; Some (st, s) }
         | Some s \<Rightarrow> Some (st, s));
       (dstset, added) \<leftarrow> setTypeAdd e dstset ele;
       let st = storeObject dst dstset st;
       let st = (if added then addDirty 1 st else st);
       Some (addReply shared_cone st) })
     (\<lambda>st'. db_rel e st' (if ele \<notin> S then addReply shared_czero b
     else addReply shared_cone (addDirty (if ele \<in> T then 1 else 2)
       (signalModifiedKey dst (signalModifiedKey src
         (a_put dst (VSet (insert ele T)) (a_putset src (S - {ele}) b)))))))"
  proof (cases "ele \<in> S")
    case False
    then have "a_put src (VSet (S - {ele})) b = b" by (simp add: a_put_same assms(4))
    then show ?thesis using False ob1(2) st1 by (auto simp: st1_def)
  next
    case True
    have "ok (if card (S - {ele}) = 0 then do { (st, x) \<leftarrow> dbDelete e st1 src; Some st } else Some st1)
      (\<lambda>st. ok (case dstset of
           None \<Rightarrow> do { let s = setTypeCreate ele; st \<leftarrow> dbAdd e (addDirty 1 (signalModifiedKey dst (signalModifiedKey src st))) dst s; Some (st, s) }
         | Some s \<Rightarrow> Some (addDirty 1 (signalModifiedKey dst (signalModifiedKey src st)), s)) (\<lambda>(st, d). ok (setTypeAdd e d ele) (\<lambda>(d, added). db_rel e (addReply shared_cone
       (if added then addDirty 1 (storeObject dst d st) else storeObject dst d st))
       (addReply shared_cone (addDirty (if ele \<in> T then 1 else 2)
       (signalModifiedKey dst (signalModifiedKey src (a_put dst (VSet (insert ele T)) c))))))))"
      by (rule ok_mono [OF del]) (rule second, auto simp: c2_def)
    then show ?thesis using True ob1(2)
      by (simp add: setTypeSize_ok [OF ob1(1)] Let_def st1_def [symmetric] c_def [symmetric] case_prod_beta'
          del: ok_if split del: if_split cong: if_cong option.case_cong)
  qed
qed

lemma smove_ok:
  assumes "db_rel e st a" "room 1 a" "ele \<noteq> LLONG_MIN_text" "fits 1 (a_look e dst a)"
  shows "ok (smoveCommand e src dst ele st) (\<lambda>st'. db_rel e st' (a_smove e src dst ele a))"
  unfolding smoveCommand_def ok_simps
proof (rule lookupKeyWrite_wp [OF assms(1), of src], unfold prod.case ok_simps, elim conjE,
    rule lookupKeyWrite_wp [where a = "a_expire e src a" and k = dst], assumption, unfold prod.case, elim conjE)
  fix s0 r s d
  define b where "b = a_expire e dst (a_expire e src a)"
  assume r: "rel_option (obj_rep (e_seed e)) r (a_look e src a)"
    and s: "db_rel e s (a_expire e dst (a_expire e src a))"
    and d: "rel_option (obj_rep (e_seed e)) d (a_look e dst (a_expire e src a))"
  have keys: "a_look e src a = st_keys b src" "a_look e dst (a_expire e src a) = st_keys b dst"
    using a_look_expire [of e src dst "a_expire e src a"] by (auto simp: b_def a_look_def expired_def)
  have look_dst: "a_look e dst a = st_keys b dst"
    using a_look_expire [of e dst src a] keys(2) by simp
  have room: "room 1 b" using assms(2) by (auto simp: b_def)
  have sb: "db_rel e s b" using s by (simp add: b_def)
  note r = r [unfolded keys(1)] and d = d [unfolded keys(2)]
  have spec: "a_smove e src dst ele a = (let S = members (st_keys b src); T = members (st_keys b dst)
      in if st_keys b src = None then addReply shared_czero b
         else if wrong_type (st_keys b src) \<or> wrong_type (st_keys b dst) then addReply shared_wrongtypeerr b
         else if src = dst then addReply shared_cone b
         else if ele \<notin> S then addReply shared_czero b
         else addReply shared_cone (addDirty (if ele \<in> T then 1 else 2)
           (signalModifiedKey dst (signalModifiedKey src
             (a_put dst (VSet (insert ele T)) (a_putset src (S - {ele}) b))))))"
    by (simp add: a_smove_def b_def Let_def)
  show "ok (case r of
       None \<Rightarrow> Some (addReply shared_czero s)
     | Some so \<Rightarrow>
         let (st, err) = checkType s so REDIS_SET
         in if err then Some st
            else let (st, err) = (case d of None \<Rightarrow> (st, False) | Some d \<Rightarrow> checkType st d REDIS_SET)
            in if err then Some st
               else if d \<noteq> None \<and> src = dst then Some (addReply shared_cone st)
               else smove_sets e src dst ele so d st) (\<lambda>st'. db_rel e st' (a_smove e src dst ele a))"
  proof (cases rule: set_cases [OF r])
    case 1
    then show ?thesis using sb by (auto simp: spec Let_def)
  next
    case (3 ob t)
    then show ?thesis using sb by (auto simp: spec Let_def checkType_set)
  next
    case src: (2 ob S)
    have mv: "ok (smove_sets e src dst ele ob d s) (\<lambda>st'. db_rel e st' (a_smove e src dst ele a))"
      if "src \<noteq> dst" "\<not> wrong_type (st_keys b dst)" "members (st_keys b dst) = T"
        "case d of None \<Rightarrow> st_keys b dst = None \<and> T = {} | Some ob \<Rightarrow> obj_rep (e_seed e) ob (VSet T) \<and> st_keys b dst = Some (VSet T)" for T
      by (rule ok_mono [OF smove_sets_ok [OF sb room src(3,4) that(1,4) assms(3)]])
        (use src that assms(4) in \<open>auto simp: spec Let_def fits_def look_dst\<close>)
    show ?thesis
    proof (cases rule: set_cases [OF d])
      case 1
      have "src \<noteq> dst" using 1(2) src(4) by auto
      then show ?thesis using 1 src(1,2) mv [of "{}"] by (simp add: checkType_set)
    next
      case (3 ob' t)
      then show ?thesis using sb src by (auto simp: spec Let_def checkType_set)
    next
      case (2 ob' T)
      show ?thesis
      proof (cases "src = dst")
        case True
        then have "a_smove e src dst ele a = addReply shared_cone b"
          unfolding spec Let_def using src(4,6) 2(4,6) by simp
        then show ?thesis using True sb src 2 by (auto simp: checkType_set)
      next
        case False
        then show ?thesis using mv [OF False 2(6,5)] 2 src(1,2) by (simp add: checkType_set)
      qed
    qed
  qed
qed

lemma a_read_put: "a_look e k a = Some v \<Longrightarrow> a_put k v (a_read e k a) = a_read e k a"
  by (rule a_put_same) (simp add: a_look_def)

lemma sismember_ok:
  assumes "db_rel e st a"
  shows "ok (sismemberCommand e k t st) (\<lambda>st'. db_rel e st' (a_sismember e k t a))"
  unfolding sismemberCommand_def ok_simps
proof (rule lookupKeyReadOrReply_wp [OF assms(1), of k], unfold prod.case, elim conjE)
  fix s r
  assume s: "db_rel e s (if a_look e k a = None then addReply shared_czero (a_read e k a) else a_read e k a)"
    and r: "rel_option (obj_rep (e_seed e)) r (a_look e k a)"
  show "ok (case r of
       None \<Rightarrow> Some s
     | Some set1 \<Rightarrow>
         let (st, err) = checkType s set1 REDIS_SET
         in if err then Some st
            else do {
              (set1, b) \<leftarrow> setTypeIsMember e set1 t;
              let st = storeObject k set1 st;
              if b then Some (addReply shared_cone st) else Some (addReply shared_czero st) })
      (\<lambda>st'. db_rel e st' (a_sismember e k t a))"
  proof (cases rule: set_cases [OF r])
    case 1
    then show ?thesis using s by (simp add: a_sismember_def Let_def)
  next
    case (2 ob S)
    have rel: "db_rel e s (a_read e k a)" using s 2(4) by simp
    have "ok (setTypeIsMember e ob t) (\<lambda>(ob', b). db_rel e (addReply (if b then shared_cone else shared_czero)
        (storeObject k ob' s)) (a_sismember e k t a))"
    proof (rule ok_mono2 [OF setTypeIsMember_ok [OF 2(3)]])
      fix ob' b
      assume "obj_rep (e_seed e) ob' (VSet S) \<and> b = (t \<in> S) \<and> ((\<exists>s. ob = SetIntset s) \<longrightarrow> ob' = ob)"
      moreover from this have "db_rel e (storeObject k ob' s) (a_read e k a)"
        using storeObject_ok [OF rel, of k ob' "VSet S"] a_read_put [OF 2(4)] 2(4) by (simp add: a_look_def)
      ultimately show "case (ob', b) of (ob', b) \<Rightarrow>
          db_rel e (addReply (if b then shared_cone else shared_czero) (storeObject k ob' s)) (a_sismember e k t a)"
        using 2(4-6) by (auto simp: a_sismember_def Let_def)
    qed
    then show ?thesis using 2(1,2) by (auto simp: checkType_set Let_def elim!: ok_mono2)
  next
    case (3 ob t)
    then show ?thesis using s by (auto simp: a_sismember_def Let_def checkType_set)
  qed
qed

lemma scard_ok:
  assumes "db_rel e st a"
  shows "ok (scardCommand e k st) (\<lambda>st'. db_rel e st' (a_scard e k a))"
  unfolding scardCommand_def ok_simps
proof (rule lookupKeyReadOrReply_wp [OF assms(1), of k], unfold prod.case, elim conjE)
  fix s r
  assume s: "db_rel e s (if a_look e k a = None then addReply shared_czero (a_read e k a) else a_read e k a)"
    and r: "rel_option (obj_rep (e_seed e)) r (a_look e k a)"
  show "ok (case r of
       None \<Rightarrow> Some s
     | Some ob \<Rightarrow>
         let (st, err) = checkType s ob REDIS_SET
         in if err then Some st
            else do { n \<leftarrow> setTypeSize ob; Some (addReply (Integer (int n)) st) })
      (\<lambda>st'. db_rel e st' (a_scard e k a))"
    by (cases rule: set_cases [OF r]) (use s setTypeSize_ok in \<open>auto simp: a_scard_def Let_def checkType_set\<close>)
qed

lemma spop_remove_ok:
  assumes "obj_rep (e_seed e) ob (VSet S)" "ele_ok ob x" "ele_text x \<in> S"
  shows "\<exists>ob'. spop_remove e ob x = Some (ob', ele_text x) \<and> obj_rep (e_seed e) ob' (VSet (S - {ele_text x}))"
proof (cases ob)
  case (SetHt d)
  then obtain t where "x = ObjEle t" using assms(2) by (auto simp: ele_ok_def)
  then show ?thesis using setTypeRemove_ok [OF assms(1), of t] by (auto simp: spop_remove_def ele_text_def ok_iff)
next
  case (SetIntset s)
  then obtain n where n: "x = IntEle n" "in_sbytes 8 n" "n \<noteq> - (2 ^ 63)" using assms(2) by (auto simp: ele_ok_def)
  note ob = createFromLongLong_ok [OF n(2,3), of "e_seed e"]
  have "string2ll (dec_int n) = Some n" using n(2) by (simp add: string2ll_dec_int)
  then show ?thesis
    using setTypeRemove_ok [OF assms(1), of "dec_int n"] ob obj_text_ok [OF conjunct2 [OF ob]] n(1) SetIntset
    by (auto simp: spop_remove_def ele_text_def ok_iff setTypeRemove_def bind_eq_Some_conv split: if_splits)
qed (use assms in auto)

text \<open>\<open>SPOP\<close> removes a member of the set and replies it; every member can be drawn.\<close>

lemma spop_finish:
  assumes "db_rel e st b" "st_keys b k = Some (VSet S)" "t \<in> S" "obj_rep (e_seed e) ob (VSet (S - {t}))"
    and "finite S"
  shows "ok (do {
              let st = storeObject k ob st;
              let st = rewriteClientCommandVector [bytes ''SREM'', k, t] st;
              let st = addReply (Bulk t) st;
              n \<leftarrow> setTypeSize ob;
              st \<leftarrow> (if n = 0 then do { (st, b) \<leftarrow> dbDelete e st k; Some st } else Some st);
              let st = signalModifiedKey k st;
              Some (addDirty 1 st) })
    (\<lambda>st'. db_rel e st' (addDirty 1 (signalModifiedKey k (addReply (Bulk t)
           (rewriteClientCommandVector [bytes ''SREM'', k, t] (a_putset k (S - {t}) b))))))"
proof -
  define st1 where "st1 = addReply (Bulk t) (rewriteClientCommandVector [bytes ''SREM'', k, t] (storeObject k ob st))"
  define c where "c = addReply (Bulk t) (rewriteClientCommandVector [bytes ''SREM'', k, t] (a_put k (VSet (S - {t})) b))"
  have st1: "db_rel e st1 c"
    unfolding st1_def c_def using storeObject_ok [OF assms(1) _ assms(4)] assms(2) by auto
  have "ok (if card (S - {t}) = 0 then do { (st, b) \<leftarrow> dbDelete e st1 k; Some st } else Some st1)
    (\<lambda>st. db_rel e st (addReply (Bulk t) (rewriteClientCommandVector [bytes ''SREM'', k, t] (a_putset k (S - {t}) b))))"
  proof (cases "S - {t} = {}")
    case True
    then have "a_del k c = addReply (Bulk t) (rewriteClientCommandVector [bytes ''SREM'', k, t] (a_putset k (S - {t}) b))"
      by (auto simp: c_def a_putset_def a_del_def a_put_def addReply_def rewriteClientCommandVector_def on_srv_def)
    moreover have "card (S - {t}) = 0" unfolding True by simp
    ultimately show ?thesis using dbDelete_ok [OF st1, of k] by (auto elim!: ok_mono2)
  next
    case False
    then show ?thesis using st1 assms(5) by (auto simp: c_def a_putset_def)
  qed
  then show ?thesis
    unfolding Let_def setTypeSize_ok [OF assms(4)] bind.bind_lunit st1_def [symmetric]
    by (auto elim!: ok_mono simp del: ok_if split del: if_split)
qed

lemma spop_ok:
  assumes "db_rel e st a" "no_empty_sets a" "fits 0 (a_look e k a)"
  shows "spopCommand e rnd k st = Some st' \<Longrightarrow>
      \<exists>t. db_rel e st' (a_spop e k t a) \<and> (members (a_look e k a) \<noteq> {} \<longrightarrow> t \<in> members (a_look e k a))"
    and "t \<in> members (a_look e k a) \<Longrightarrow> \<exists>rnd st'. spopCommand e rnd k st = Some st' \<and> db_rel e st' (a_spop e k t a)"
    and "members (a_look e k a) = {} \<Longrightarrow> \<exists>st'. spopCommand e rnd k st = Some st'"
proof -
  obtain s r where look: "lookupKeyWriteOrReply e st k shared_nullbulk = Some (s, r)"
    and s: "db_rel e s (if a_look e k a = None then addReply shared_nullbulk (a_expire e k a) else a_expire e k a)"
    and r: "rel_option (obj_rep (e_seed e)) r (a_look e k a)"
    using lookupKeyWriteOrReply_ok [OF assms(1), of k shared_nullbulk] by (auto simp: ok_iff)
  note run = spopCommand_def [of e _ k st, unfolded look bind.bind_lunit prod.case]
  have *: "(\<forall>rnd st'. spopCommand e rnd k st = Some st' \<longrightarrow>
      (\<exists>t. db_rel e st' (a_spop e k t a) \<and> (members (a_look e k a) \<noteq> {} \<longrightarrow> t \<in> members (a_look e k a)))) \<and>
    (\<forall>t \<in> members (a_look e k a). \<exists>rnd st'. spopCommand e rnd k st = Some st' \<and> db_rel e st' (a_spop e k t a)) \<and>
    (members (a_look e k a) = {} \<longrightarrow> (\<forall>rnd. \<exists>st'. spopCommand e rnd k st = Some st'))"
  proof (cases rule: set_cases [OF r])
    case 1
    then show ?thesis using s by (auto simp: run a_spop_def Let_def)
  next
    case (3 ob t)
    then have "members (a_look e k a) = {}" by (simp add: members_def)
    then show ?thesis using s 3 by (auto simp: run a_spop_def Let_def checkType_set)
  next
    case (2 ob S)
    have S: "st_keys (a_expire e k a) k = Some (VSet S)" using 2(4) by (simp add: a_look_def)
    then have ne: "S \<noteq> {}" using assms(2) by (auto simp: no_empty_sets_def split: if_splits)
    have fin: "finite S" by (rule set_obj_finite [OF 2(3)])
    have rel: "db_rel e s (a_expire e k a)" using s 2(4) by simp
    have sz: "card S \<le> 2 ^ 29" using assms(3) 2(5) by (simp add: fits_def)
    have after: "\<exists>st'. spopCommand e rnd k st = Some st' \<and> db_rel e st' (a_spop e k (ele_text x) a) \<and> ele_text x \<in> S"
      if x: "setTypeRandomElement e rnd ob = Some (ob1, x)" for rnd ob1 x
    proof -
      note R = setTypeRandomElement_ok(1) [OF 2(3) ne sz x]
      obtain ob2 where ob2: "spop_remove e ob1 x = Some (ob2, ele_text x)" "obj_rep (e_seed e) ob2 (VSet (S - {ele_text x}))"
        using spop_remove_ok R by blast
      have "ele_text x \<in> S" using R by simp
      from spop_finish [OF rel S this ob2(2) fin] this show ?thesis
        unfolding ok_iff using 2 x ob2(1) by (auto simp: run checkType_set a_spop_def Let_def)
    qed
    have none: "spopCommand e rnd k st = None" if "setTypeRandomElement e rnd ob = None" for rnd
      using that 2(1,2) by (simp add: run checkType_set)
    show ?thesis
    proof (intro conjI allI impI ballI)
      fix rnd st' assume run': "spopCommand e rnd k st = Some st'"
      then obtain ob1 x where "setTypeRandomElement e rnd ob = Some (ob1, x)" using none [of rnd] by fastforce
      from after [OF this] run' 2(5)
      show "\<exists>t. db_rel e st' (a_spop e k t a) \<and> (members (a_look e k a) \<noteq> {} \<longrightarrow> t \<in> members (a_look e k a))" by auto
    next
      fix t assume "t \<in> members (a_look e k a)"
      then have "t \<in> S" using 2(5) by simp
      then obtain rnd ob1 x where "setTypeRandomElement e rnd ob = Some (ob1, x)" "ele_text x = t"
        using setTypeRandomElement_ok(2) [OF 2(3) ne sz] by blast
      from after [OF this(1)] this(2)
      show "\<exists>rnd st'. spopCommand e rnd k st = Some st' \<and> db_rel e st' (a_spop e k t a)" by auto
    next
      fix rnd assume "members (a_look e k a) = {}"
      then show "\<exists>st'. spopCommand e rnd k st = Some st'" using ne 2(5) by simp
    qed
  qed
  from * show "spopCommand e rnd k st = Some st' \<Longrightarrow>
      \<exists>t. db_rel e st' (a_spop e k t a) \<and> (members (a_look e k a) \<noteq> {} \<longrightarrow> t \<in> members (a_look e k a))" by blast
  from * show "t \<in> members (a_look e k a) \<Longrightarrow> \<exists>rnd st'. spopCommand e rnd k st = Some st' \<and> db_rel e st' (a_spop e k t a)"
    by blast
  from * show "members (a_look e k a) = {} \<Longrightarrow> \<exists>st'. spopCommand e rnd k st = Some st'" by blast
qed

end
