(* ===== verification/TSetOps.thy ===== *)
theory TSetOps
  imports TSetCmds
begin

text \<open>
  The commands of \<open>t_set.c\<close> on several sets: \<open>SINTER\<close>, \<open>SUNION\<close>, \<open>SDIFF\<close> and their storing
  variants (\<open>SRANDMEMBER\<close> is in \<open>TSetRand\<close>).
  \<open>qsort\<close> is modelled by an insertion sort, one of the results the C library may give; the proofs
  use only that it permutes.  The encoding of a member inside a dictionary is not kept, so the
  fast path of \<open>SINTER\<close> for integer encoded members is the general one.
\<close>

section \<open>The code\<close>

subsection \<open>Intersection\<close>

text \<open>The first loop of \<open>sinterGenericCommand\<close>: looks the keys up.\<close>

datatype inter_lookup = Missing | WrongType | AllSets

primrec inter_lookup_loop :: "env \<Rightarrow> bool \<Rightarrow> byte list list \<Rightarrow> db \<Rightarrow> (db \<times> inter_lookup) option" where
  "inter_lookup_loop e store [] st = Some (st, AllSets)"
| "inter_lookup_loop e store (key # ks) st = do {
     (st, setobj) \<leftarrow> (if store then lookupKeyWrite e st key else lookupKeyRead e st key);
     case setobj of
       None \<Rightarrow> Some (st, Missing)
     | Some setobj \<Rightarrow>
         let (st, err) = checkType st setobj REDIS_SET
         in if err then Some (st, WrongType) else inter_lookup_loop e store ks st }"

definition set_size_at :: "db \<Rightarrow> byte list \<Rightarrow> nat" where
  "set_size_at st key =
     (case objectAt st key of
        None \<Rightarrow> 0
      | Some ob \<Rightarrow> (case setTypeSize ob of None \<Rightarrow> 0 | Some n \<Rightarrow> n))"

definition qsortCompareSetsByCardinality :: "db \<Rightarrow> byte list \<Rightarrow> byte list \<Rightarrow> int" where
  "qsortCompareSetsByCardinality st s1 s2 = to_int32 (int (set_size_at st s1) - int (set_size_at st s2))"

primrec qsort_insert :: "('a \<Rightarrow> 'a \<Rightarrow> int) \<Rightarrow> 'a \<Rightarrow> 'a list \<Rightarrow> 'a list" where
  "qsort_insert cmp x [] = [x]"
| "qsort_insert cmp x (y # ys) = (if cmp x y \<le> 0 then x # y # ys else y # qsort_insert cmp x ys)"

definition qsort :: "('a \<Rightarrow> 'a \<Rightarrow> int) \<Rightarrow> 'a list \<Rightarrow> 'a list" where
  "qsort cmp xs = foldr (qsort_insert cmp) xs []"

text \<open>The test of one element against one other set.\<close>

definition inter_member :: "env \<Rightarrow> set_ele \<Rightarrow> byte list \<Rightarrow> db \<Rightarrow> (db \<times> bool) option" where
  "inter_member e x key st = do {
     ob \<leftarrow> objectAt st key;
     case x of
       IntEle intobj \<Rightarrow>
         (case ob of
            SetIntset s \<Rightarrow> do { b \<leftarrow> intsetFind s intobj; Some (st, b) }
          | SetHt d \<Rightarrow> do {
              eleobj \<leftarrow> createStringObjectFromLongLong intobj;
              t \<leftarrow> obj_text eleobj;
              (ob, b) \<leftarrow> setTypeIsMember e ob t;
              Some (storeObject key ob st, b) }
          | _ \<Rightarrow> None)
     | ObjEle t \<Rightarrow> do {
         (ob, b) \<leftarrow> setTypeIsMember e ob t;
         Some (storeObject key ob st, b) } }"

text \<open>The loop over the other sets; a set that is the same object as the first is skipped.\<close>

primrec inter_test :: "env \<Rightarrow> byte list \<Rightarrow> set_ele \<Rightarrow> byte list list \<Rightarrow> db \<Rightarrow> (db \<times> bool) option" where
  "inter_test e first x [] st = Some (st, True)"
| "inter_test e first x (key # ks) st =
     (if key = first then inter_test e first x ks st
      else do {
        (st, b) \<leftarrow> inter_member e x key st;
        if \<not> b then Some (st, False) else inter_test e first x ks st })"

text \<open>The body of the loop over the first set; the state is the store, the target and the cardinality.\<close>

definition inter_body ::
  "env \<Rightarrow> bool \<Rightarrow> byte list \<Rightarrow> byte list list \<Rightarrow> set_ele \<Rightarrow> db \<times> robj \<times> nat \<Rightarrow> (db \<times> robj \<times> nat) option" where
  "inter_body e store first ks x acc = do {
     let (st, dstset, cardinality) = acc;
     (st, all) \<leftarrow> inter_test e first x ks st;
     if \<not> all then Some (st, dstset, cardinality)
     else if \<not> store then do {
       t \<leftarrow> ele_print x;
       Some (addReply (Bulk t) st, dstset, cardinality + 1) }
     else do {
       t \<leftarrow> (case x of
              IntEle n \<Rightarrow> do { eleobj \<leftarrow> createStringObjectFromLongLong n; obj_text eleobj }
            | ObjEle t \<Rightarrow> Some t);
       (dstset, b) \<leftarrow> setTypeAdd e dstset t;
       Some (st, dstset, cardinality) } }"

text \<open>The result of a command is stored: shared by the intersection, the union and the difference.\<close>

definition store_result :: "env \<Rightarrow> byte list \<Rightarrow> robj \<Rightarrow> db \<Rightarrow> db option" where
  "store_result e dstkey dstset st = do {
     (st, b) \<leftarrow> dbDelete e st dstkey;
     n \<leftarrow> setTypeSize dstset;
     st \<leftarrow> (if n > 0
           then do { st \<leftarrow> dbAdd e st dstkey dstset; Some (addReply (Integer (int n)) st) }
           else Some (addReply shared_czero st));
     let st = signalModifiedKey dstkey st;
     Some (addDirty 1 st) }"

text \<open>A multi bulk length that is known only later: its place in the output.\<close>

definition addDeferredMultiBulkLength :: "('d, 'x) store \<Rightarrow> ('d, 'x) store \<times> nat" where
  "addDeferredMultiBulkLength st = (addReply Pending st, length (out (st_srv st)))"

definition setDeferredMultiBulkLength :: "nat \<Rightarrow> nat \<Rightarrow> ('d, 'x) store \<Rightarrow> ('d, 'x) store" where
  "setDeferredMultiBulkLength node len = on_srv (\<lambda>s. s\<lparr>out := (out s)[node := MultiBulk (int len)]\<rparr>)"

definition sinterGenericCommand :: "env \<Rightarrow> byte list list \<Rightarrow> byte list option \<Rightarrow> db \<Rightarrow> db option" where
  "sinterGenericCommand e setkeys dstkey st = do {
     (st, r) \<leftarrow> inter_lookup_loop e (dstkey \<noteq> None) setkeys st;
     case r of
       Missing \<Rightarrow>
         (case dstkey of
            Some dst \<Rightarrow> do {
              (st, b) \<leftarrow> dbDelete e st dst;
              let st = (if b then addDirty 1 (signalModifiedKey dst st) else st);
              Some (addReply shared_czero st) }
          | None \<Rightarrow> Some (addReply shared_emptymultibulk st))
     | WrongType \<Rightarrow> Some st
     | AllSets \<Rightarrow>
         (case qsort (qsortCompareSetsByCardinality st) setkeys of
            [] \<Rightarrow> None
          | first # ks \<Rightarrow> do {
              let (st, replylen) = (if dstkey = None then addDeferredMultiBulkLength st else (st, 0));
              ob \<leftarrow> objectAt st first;
              si \<leftarrow> setTypeInitIterator ob;
              n \<leftarrow> setTypeSize ob;
              (st, dstset, cardinality) \<leftarrow>
                set_foreach (n + 1) ob si (inter_body e (dstkey \<noteq> None) first ks) (st, createIntsetObject, 0);
              case dstkey of
                Some dst \<Rightarrow> store_result e dst dstset st
              | None \<Rightarrow> Some (setDeferredMultiBulkLength replylen cardinality st) }) }"

definition sinterCommand :: "env \<Rightarrow> byte list list \<Rightarrow> db \<Rightarrow> db option" where
  "sinterCommand e ks st = sinterGenericCommand e ks None st"

definition sinterstoreCommand :: "env \<Rightarrow> byte list \<Rightarrow> byte list list \<Rightarrow> db \<Rightarrow> db option" where
  "sinterstoreCommand e dst ks st = sinterGenericCommand e ks (Some dst) st"

subsection \<open>Union and difference\<close>

datatype set_op_kind = REDIS_OP_UNION | REDIS_OP_DIFF

text \<open>The first loop: the sets, \<open>NULL\<close> for a missing key; \<open>None\<close> after the reply of a type error.\<close>

primrec union_lookup_loop ::
  "env \<Rightarrow> bool \<Rightarrow> byte list list \<Rightarrow> db \<Rightarrow> (db \<times> robj option list option) option" where
  "union_lookup_loop e store [] st = Some (st, Some [])"
| "union_lookup_loop e store (key # ks) st = do {
     (st, setobj) \<leftarrow> (if store then lookupKeyWrite e st key else lookupKeyRead e st key);
     case setobj of
       None \<Rightarrow> do { (st, r) \<leftarrow> union_lookup_loop e store ks st; Some (st, map_option (\<lambda>l. None # l) r) }
     | Some ob \<Rightarrow>
         let (st, err) = checkType st ob REDIS_SET
         in if err then Some (st, None)
            else do { (st, r) \<leftarrow> union_lookup_loop e store ks st; Some (st, map_option (\<lambda>l. Some ob # l) r) } }"

text \<open>The inner loop's body; \<open>first\<close> is \<open>j == 0\<close>.\<close>

definition union_body :: "env \<Rightarrow> set_op_kind \<Rightarrow> bool \<Rightarrow> byte list \<Rightarrow> robj \<times> int \<Rightarrow> (robj \<times> int) option" where
  "union_body e op first ele acc = do {
     let (dstset, cardinality) = acc;
     if op = REDIS_OP_UNION \<or> first then do {
       (dstset, b) \<leftarrow> setTypeAdd e dstset ele;
       cardinality \<leftarrow> (if b then c_int (cardinality + 1) else Some cardinality);
       Some (dstset, cardinality) }
     else do {
       (dstset, b) \<leftarrow> setTypeRemove e dstset ele;
       cardinality \<leftarrow> (if b then c_int (cardinality - 1) else Some cardinality);
       Some (dstset, cardinality) } }"

primrec union_loop ::
  "env \<Rightarrow> set_op_kind \<Rightarrow> bool \<Rightarrow> robj option list \<Rightarrow> robj \<times> int \<Rightarrow> (robj \<times> int) option" where
  "union_loop e op first [] acc = Some acc"
| "union_loop e op first (s # ss) acc =
     (case s of
        None \<Rightarrow> if op = REDIS_OP_DIFF \<and> first then Some acc else union_loop e op False ss acc
      | Some ob \<Rightarrow> do {
          si \<leftarrow> setTypeInitIterator ob;
          n \<leftarrow> setTypeSize ob;
          acc \<leftarrow> set_foreach_object (n + 1) ob si (union_body e op first) acc;
          if op = REDIS_OP_DIFF \<and> snd acc = 0 then Some acc else union_loop e op False ss acc })"

definition reply_members :: "robj \<Rightarrow> db \<Rightarrow> db option" where
  "reply_members dstset st = do {
     si \<leftarrow> setTypeInitIterator dstset;
     n \<leftarrow> setTypeSize dstset;
     set_foreach_object (n + 1) dstset si (\<lambda>t st. Some (addReply (Bulk t) st)) st }"

definition sunionDiffGenericCommand ::
  "env \<Rightarrow> byte list list \<Rightarrow> byte list option \<Rightarrow> set_op_kind \<Rightarrow> db \<Rightarrow> db option" where
  "sunionDiffGenericCommand e setkeys dstkey op st = do {
     (st, sets) \<leftarrow> union_lookup_loop e (dstkey \<noteq> None) setkeys st;
     case sets of
       None \<Rightarrow> Some st
     | Some sets \<Rightarrow> do {
         (dstset, cardinality) \<leftarrow> union_loop e op True sets (createIntsetObject, 0);
         case dstkey of
           None \<Rightarrow> reply_members dstset (addReply (MultiBulk cardinality) st)
         | Some dst \<Rightarrow> store_result e dst dstset st } }"

definition sunionCommand :: "env \<Rightarrow> byte list list \<Rightarrow> db \<Rightarrow> db option" where
  "sunionCommand e ks st = sunionDiffGenericCommand e ks None REDIS_OP_UNION st"

definition sunionstoreCommand :: "env \<Rightarrow> byte list \<Rightarrow> byte list list \<Rightarrow> db \<Rightarrow> db option" where
  "sunionstoreCommand e dst ks st = sunionDiffGenericCommand e ks (Some dst) REDIS_OP_UNION st"

definition sdiffCommand :: "env \<Rightarrow> byte list list \<Rightarrow> db \<Rightarrow> db option" where
  "sdiffCommand e ks st = sunionDiffGenericCommand e ks None REDIS_OP_DIFF st"

definition sdiffstoreCommand :: "env \<Rightarrow> byte list \<Rightarrow> byte list list \<Rightarrow> db \<Rightarrow> db option" where
  "sdiffstoreCommand e dst ks st = sunionDiffGenericCommand e ks (Some dst) REDIS_OP_DIFF st"

section \<open>The specification\<close>

definition a_visit :: "env \<Rightarrow> bool \<Rightarrow> byte list \<Rightarrow> adb \<Rightarrow> adb" where
  "a_visit e store k a = (if store then a_expire e k a else a_read e k a)"

primrec a_inter_look :: "env \<Rightarrow> bool \<Rightarrow> byte list list \<Rightarrow> adb \<Rightarrow> adb \<times> inter_lookup" where
  "a_inter_look e store [] a = (a, AllSets)"
| "a_inter_look e store (k # ks) a =
     (let v = a_look e k a; b = a_visit e store k a
      in if v = None then (b, Missing)
         else if wrong_type v then (addReply shared_wrongtypeerr b, WrongType)
         else a_inter_look e store ks b)"

primrec a_union_look :: "env \<Rightarrow> bool \<Rightarrow> byte list list \<Rightarrow> adb \<Rightarrow> adb \<times> bool" where
  "a_union_look e store [] a = (a, True)"
| "a_union_look e store (k # ks) a =
     (let v = a_look e k a; b = a_visit e store k a
      in if wrong_type v then (addReply shared_wrongtypeerr b, False)
         else a_union_look e store ks b)"

definition inter_of :: "adb \<Rightarrow> byte list list \<Rightarrow> byte list set" where
  "inter_of a ks = {t. \<forall>k \<in> set ks. t \<in> members (st_keys a k)}"

definition union_of :: "adb \<Rightarrow> byte list list \<Rightarrow> byte list set" where
  "union_of a ks = {t. \<exists>k \<in> set ks. t \<in> members (st_keys a k)}"

fun diff_of :: "adb \<Rightarrow> byte list list \<Rightarrow> byte list set" where
  "diff_of a [] = {}"
| "diff_of a (k # ks) = members (st_keys a k) - union_of a ks"

text \<open>The members of \<open>T\<close> are replied in some order; or \<open>T\<close> replaces the value of \<open>dst\<close>.\<close>

definition a_bulks :: "byte list list \<Rightarrow> adb \<Rightarrow> adb" where
  "a_bulks ts = on_srv (\<lambda>s. s\<lparr>out := out s @ map Bulk ts\<rparr>)"

definition a_reply_set :: "byte list set \<Rightarrow> adb \<Rightarrow> adb \<Rightarrow> bool" where
  "a_reply_set T a b \<longleftrightarrow>
     (\<exists>ts. distinct ts \<and> set ts = T \<and> b = a_bulks ts (addReply (MultiBulk (int (length ts))) a))"

definition a_store_set :: "byte list \<Rightarrow> byte list set \<Rightarrow> adb \<Rightarrow> adb" where
  "a_store_set dst T a =
     addDirty 1 (signalModifiedKey dst (addReply (Integer (int (card T))) (a_putset dst T (a_del dst a))))"

definition a_set_result :: "byte list option \<Rightarrow> byte list set \<Rightarrow> adb \<Rightarrow> adb \<Rightarrow> bool" where
  "a_set_result dst T a b = (case dst of None \<Rightarrow> a_reply_set T a b | Some d \<Rightarrow> b = a_store_set d T a)"

definition a_sinter :: "env \<Rightarrow> byte list list \<Rightarrow> byte list option \<Rightarrow> adb \<Rightarrow> adb \<Rightarrow> bool" where
  "a_sinter e ks dst a c =
     (let (b, r) = a_inter_look e (dst \<noteq> None) ks a
      in case r of
           Missing \<Rightarrow>
             (case dst of
                None \<Rightarrow> c = addReply shared_emptymultibulk b
              | Some d \<Rightarrow> c = addReply shared_czero (if st_keys b d \<noteq> None
                  then addDirty 1 (signalModifiedKey d (a_del d b)) else a_del d b))
         | WrongType \<Rightarrow> c = b
         | AllSets \<Rightarrow> a_set_result dst (inter_of b ks) b c)"

definition a_sunion_diff :: "env \<Rightarrow> byte list list \<Rightarrow> byte list option \<Rightarrow> set_op_kind \<Rightarrow> adb \<Rightarrow> adb \<Rightarrow> bool" where
  "a_sunion_diff e ks dst op a c =
     (let (b, ok1) = a_union_look e (dst \<noteq> None) ks a
      in if ok1 then a_set_result dst (case op of REDIS_OP_UNION \<Rightarrow> union_of b ks | REDIS_OP_DIFF \<Rightarrow> diff_of b ks) b c
         else c = b)"

text \<open>The members the proofs rely on.\<close>

definition sets_ok :: "adb \<Rightarrow> bool" where
  "sets_ok a \<longleftrightarrow> (\<forall>k S. st_keys a k = Some (VSet S) \<longrightarrow> S \<noteq> {} \<and> LLONG_MIN_text \<notin> S)"

lemma sets_ok_no_empty: "sets_ok a \<Longrightarrow> no_empty_sets a"
  by (auto simp: sets_ok_def no_empty_sets_def)

lemma sets_ok_members: "\<lbrakk>sets_ok a; t \<in> members (st_keys a k)\<rbrakk> \<Longrightarrow> t \<noteq> LLONG_MIN_text"
  by (auto simp: sets_ok_def members_def split: option.splits val.splits)

section \<open>Lookups\<close>

declare set_foreach.simps [simp del] set_foreach_object.simps [simp del]

lemma visit_ok:
  assumes "db_rel e st a"
  shows "ok (if store then lookupKeyWrite e st k else lookupKeyRead e st k)
    (\<lambda>(st', r). db_rel e st' (a_visit e store k a) \<and> rel_option (obj_rep (e_seed e)) r (a_look e k a))"
  using lookupKeyWrite_ok [OF assms, of k] lookupKeyRead_ok [OF assms, of k] by (simp add: a_visit_def)

lemma a_visit_maps [simp]:
  "st_keys (a_visit e store k a) k' = st_keys (a_expire e k a) k'"
  "st_expires (a_visit e store k a) k' = st_expires (a_expire e k a) k'"
  by (simp_all add: a_visit_def)

lemma a_look_visit: "a_look e k (a_visit e store k' a) = a_look e k (a_expire e k' a)"
  by (simp add: a_look_def expired_def)

lemma a_look_visit_any [simp]: "a_look e k (a_visit e store k' a) = a_look e k a"
  by (simp add: a_look_visit a_look_expire)

text \<open>A visited key has no expired value, and keeps its value during the visits of other keys.\<close>

lemma visit_keeps:
  "st_keys a k = a_look e k a \<Longrightarrow> st_keys (a_visit e store k' a) k = a_look e k (a_visit e store k' a)"
  unfolding a_look_visit_any by (auto simp: a_look_def)

lemma visit_own: "st_keys (a_visit e store k a) k = a_look e k (a_visit e store k a)"
  unfolding a_look_visit_any by (simp add: a_look_def)

lemma inter_look_keys:
  "a_inter_look e store ks a = (b, AllSets) \<Longrightarrow>
    (\<forall>k. st_keys a k = a_look e k a \<longrightarrow> st_keys b k = a_look e k a) \<and>
    (\<forall>k \<in> set ks. st_keys b k = a_look e k a \<and> a_look e k a \<noteq> None \<and> \<not> wrong_type (a_look e k a))"
proof (induction ks arbitrary: a)
  case (Cons k ks)
  then have *: "a_inter_look e store ks (a_visit e store k a) = (b, AllSets)"
      "a_look e k a \<noteq> None" "\<not> wrong_type (a_look e k a)"
    by (auto simp: Let_def split: if_splits)
  show ?case using Cons.IH [OF *(1)] *(2,3) visit_keeps [of a _ e store k] visit_own [of e store k a]
    by (auto simp del: a_visit_maps)
qed auto

lemma union_look_keys:
  "a_union_look e store ks a = (b, True) \<Longrightarrow>
    (\<forall>k. st_keys a k = a_look e k a \<longrightarrow> st_keys b k = a_look e k a) \<and>
    (\<forall>k \<in> set ks. st_keys b k = a_look e k a \<and> \<not> wrong_type (a_look e k a))"
proof (induction ks arbitrary: a)
  case (Cons k ks)
  then have *: "a_union_look e store ks (a_visit e store k a) = (b, True)" "\<not> wrong_type (a_look e k a)"
    by (auto simp: Let_def split: if_splits)
  show ?case using Cons.IH [OF *(1)] *(2) visit_keeps [of a _ e store k] visit_own [of e store k a]
    by (auto simp del: a_visit_maps)
qed auto

lemma inter_lookup_ok:
  "db_rel e st a \<Longrightarrow> ok (inter_lookup_loop e store ks st)
    (\<lambda>(st', r). db_rel e st' (fst (a_inter_look e store ks a)) \<and> r = snd (a_inter_look e store ks a))"
proof (induction ks arbitrary: st a)
  case (Cons k ks)
  show ?case
    unfolding inter_lookup_loop.simps ok_simps
  proof (rule ok_mono2 [OF visit_ok [OF Cons.prems]], unfold prod.case, elim conjE)
    fix s r assume s: "db_rel e s (a_visit e store k a)" and r: "rel_option (obj_rep (e_seed e)) r (a_look e k a)"
    show "ok (case r of None \<Rightarrow> Some (s, Missing)
        | Some setobj \<Rightarrow> let (st, err) = checkType s setobj REDIS_SET
            in if err then Some (st, WrongType) else inter_lookup_loop e store ks st)
      (\<lambda>(st', r). db_rel e st' (fst (a_inter_look e store (k # ks) a)) \<and> r = snd (a_inter_look e store (k # ks) a))"
      by (cases rule: set_cases [OF r]) (use s Cons.IH in \<open>auto simp: checkType_set Let_def\<close>)
  qed
qed simp

lemma union_lookup_ok:
  "db_rel e st a \<Longrightarrow> ok (union_lookup_loop e store ks st)
    (\<lambda>(st', r). db_rel e st' (fst (a_union_look e store ks a)) \<and>
      (if snd (a_union_look e store ks a)
       then \<exists>l. r = Some l \<and> list_all2 (\<lambda>s k. rel_option (obj_rep (e_seed e)) s (a_look e k a)) l ks
       else r = None))"
proof (induction ks arbitrary: st a)
  case (Cons k ks)
  let ?Q = "\<lambda>(st', r). db_rel e st' (fst (a_union_look e store (k # ks) a)) \<and>
      (if snd (a_union_look e store (k # ks) a)
       then \<exists>l. r = Some l \<and> list_all2 (\<lambda>s k. rel_option (obj_rep (e_seed e)) s (a_look e k a)) l (k # ks)
       else r = None)"
  show ?case
    unfolding union_lookup_loop.simps ok_simps
  proof (rule ok_mono2 [OF visit_ok [OF Cons.prems]], unfold prod.case, elim conjE)
    fix s r assume s: "db_rel e s (a_visit e store k a)" and r: "rel_option (obj_rep (e_seed e)) r (a_look e k a)"
    have rec: "ok (union_lookup_loop e store ks s) (\<lambda>(st, l). ?Q (st, map_option (\<lambda>l. r # l) l))"
      if "\<not> wrong_type (a_look e k a)"
      by (rule ok_mono2 [OF Cons.IH [OF s]]) (use that r in \<open>auto simp: Let_def\<close>)
    show "ok (case r of
        None \<Rightarrow> do { (st, r) \<leftarrow> union_lookup_loop e store ks s; Some (st, map_option (\<lambda>l. None # l) r) }
      | Some ob \<Rightarrow>
         let (st, err) = checkType s ob REDIS_SET
         in if err then Some (st, None)
            else do { (st, r) \<leftarrow> union_lookup_loop e store ks st; Some (st, map_option (\<lambda>l. Some ob # l) r) }) ?Q"
    proof (cases rule: set_cases [OF r])
      case 1
      then show ?thesis using rec by (simp add: case_prod_beta')
    next
      case (2 ob S)
      then show ?thesis using rec by (simp add: case_prod_beta' checkType_set)
    next
      case (3 ob t)
      then show ?thesis using s by (auto simp: checkType_set Let_def)
    qed
  qed
qed simp

section \<open>Intersection\<close>

lemma foldo_ok:
  assumes "P [] acc"
    and "\<And>ys x zs acc. xs = ys @ x # zs \<Longrightarrow> P ys acc \<Longrightarrow> ok (f x acc) (P (ys @ [x]))"
  shows "ok (foldo f xs acc) (P xs)"
proof -
  have "ok (foldo f zs acc) (P xs)" if "xs = ys @ zs" "P ys acc" for ys zs acc
    using that
  proof (induction zs arbitrary: ys acc)
    case (Cons z zs)
    have "ok (f z acc) (\<lambda>acc. ok (foldo f zs acc) (P xs))"
      by (rule ok_mono [OF assms(2) [OF Cons.prems]]) (use Cons in auto)
    then show ?case by simp
  qed simp
  from this [of "[]" xs acc] assms(1) show ?thesis by simp
qed

lemma a_bulks_snoc: "a_bulks (ts @ [t]) a = addReply (Bulk t) (a_bulks ts a)"
  by (simp add: a_bulks_def addReply_def on_srv_def)

lemma a_bulks_Nil [simp]: "a_bulks [] a = a"
  by (simp add: a_bulks_def on_srv_def)

lemma a_bulks_maps [simp]: "st_keys (a_bulks ts a) = st_keys a" "st_expires (a_bulks ts a) = st_expires a"
  "room n (a_bulks ts a) = room n a"
  by (simp_all add: a_bulks_def)

lemma objectAt_ok:
  assumes "db_rel e st a" "st_keys a k = Some v"
  shows "\<exists>ob. objectAt st k = Some ob \<and> obj_rep (e_seed e) ob v"
  using db_rel_fields(3) [OF assms(1), of k] assms(2) by (auto simp: objectAt_def option_rel_Some2)

lemma inter_member_ok:
  assumes "db_rel e st a" "st_keys a k = Some (VSet S)" "ele_ok ob0 x"
  shows "ok (inter_member e x k st) (\<lambda>(st', b). db_rel e st' a \<and> b = (ele_text x \<in> S))"
proof -
  obtain ob where ob: "objectAt st k = Some ob" "obj_rep (e_seed e) ob (VSet S)"
    using objectAt_ok [OF assms(1,2)] by blast
  have mem: "ok (setTypeIsMember e ob t) (\<lambda>(ob', b). db_rel e (storeObject k ob' st) a \<and> b = (t \<in> S))" for t
  proof (rule ok_mono2 [OF setTypeIsMember_ok [OF ob(2), of t]])
    fix ob' b assume "obj_rep (e_seed e) ob' (VSet S) \<and> b = (t \<in> S) \<and> ((\<exists>s. ob = SetIntset s) \<longrightarrow> ob' = ob)"
    then show "case (ob', b) of (ob', b) \<Rightarrow> db_rel e (storeObject k ob' st) a \<and> b = (t \<in> S)"
      using storeObject_ok [OF assms(1), of k ob' "VSet S"] a_put_same [OF assms(2)] assms(2) by simp
  qed
  show ?thesis
  proof (cases x)
    case (ObjEle t)
    then show ?thesis using mem [of t] by (auto simp: inter_member_def ob(1) ele_text_def elim!: ok_mono2)
  next
    case (IntEle n)
    then have n: "in_sbytes 8 n" "n \<noteq> - (2 ^ 63)" using assms(3) by (auto simp: ele_ok_def split: robj.splits)
    note el = createFromLongLong_ok [OF n, of "e_seed e"]
    show ?thesis
    proof (cases ob)
      case (SetHt d)
      then show ?thesis using mem [of "dec_int n"] IntEle el obj_text_ok [OF conjunct2 [OF el]]
        by (auto simp: inter_member_def ob(1) ele_text_def elim!: ok_mono2)
    next
      case (SetIntset s)
      have "string2ll (dec_int n) = Some n" using n(1) by (simp add: string2ll_dec_int)
      then have "intsetFind s n = Some (dec_int n \<in> S)"
        using setTypeIsMember_ok [OF ob(2), of "dec_int n"] SetIntset
        by (auto simp: ok_iff setTypeIsMember_def bind_eq_Some_conv)
      then show ?thesis using IntEle SetIntset assms(1) by (simp add: inter_member_def ob(1) ele_text_def)
    qed (use ob(2) in auto)
  qed
qed

lemma inter_test_ok:
  assumes "db_rel e st a" "ele_ok ob0 x" "\<forall>k \<in> set ks. \<exists>S. st_keys a k = Some (VSet S)"
  shows "ok (inter_test e first x ks st) (\<lambda>(st', b). db_rel e st' a \<and>
    b = (\<forall>k \<in> set ks. k \<noteq> first \<longrightarrow> ele_text x \<in> members (st_keys a k)))"
  using assms(1,3)
proof (induction ks arbitrary: st)
  case (Cons k ks)
  obtain S where S: "st_keys a k = Some (VSet S)" using Cons.prems(2) by auto
  have IH: "ok (inter_test e first x ks st) (\<lambda>(st', b). db_rel e st' a \<and>
    b = (\<forall>k \<in> set ks. k \<noteq> first \<longrightarrow> ele_text x \<in> members (st_keys a k)))" if "db_rel e st a" for st
    using Cons.IH [OF that] Cons.prems(2) by simp
  show ?case
  proof (cases "k = first")
    case True
    then show ?thesis using IH [OF Cons.prems(1)] by (auto elim!: ok_mono2)
  next
    case False
    have "ok (inter_member e x k st) (\<lambda>(st, b). ok (if \<not> b then Some (st, False) else inter_test e first x ks st)
      (\<lambda>(st', b). db_rel e st' a \<and> b = (\<forall>k \<in> set (k # ks). k \<noteq> first \<longrightarrow> ele_text x \<in> members (st_keys a k))))"
      by (rule ok_mono2 [OF inter_member_ok [OF Cons.prems(1) S assms(2)]])
        (use False S IH in \<open>auto simp: members_def elim!: ok_mono2\<close>)
    then show ?thesis using False by (simp add: case_prod_beta' del: ok_if split del: if_split)
  qed
qed simp

text \<open>The whole loop: \<open>Q\<close> is what the members of the first set are tested for.\<close>

definition inter_inv ::
  "env \<Rightarrow> bool \<Rightarrow> adb \<Rightarrow> (byte list \<Rightarrow> bool) \<Rightarrow> byte list list \<Rightarrow> db \<times> robj \<times> nat \<Rightarrow> bool" where
  "inter_inv e store a Q ts acc \<longleftrightarrow>
     (case acc of (st, dst, c) \<Rightarrow>
        if store then db_rel e st a \<and> obj_rep (e_seed e) dst (VSet (set (filter Q ts)))
        else db_rel e st (a_bulks (filter Q ts) a) \<and> c = length (filter Q ts))"

lemma inter_body_ok:
  assumes "inter_inv e store a Q ts (st, dst, c)" "ele_ok ob0 x"
    and "Q = (\<lambda>t. \<forall>k \<in> set ks. k \<noteq> first \<longrightarrow> t \<in> members (st_keys a k))"
    and "\<forall>k \<in> set ks. \<exists>S. st_keys a k = Some (VSet S)"
    and "ele_text x \<noteq> LLONG_MIN_text" "card (set ts) < 2 ^ 29 - 1"
  shows "ok (inter_body e store first ks x (st, dst, c)) (inter_inv e store a Q (ts @ [ele_text x]))"
proof -
  define a' where "a' = (if store then a else a_bulks (filter Q ts) a)"
  have rel: "db_rel e st a'" using assms(1) by (simp add: inter_inv_def a'_def split: if_splits)
  have keys: "st_keys a' = st_keys a" by (simp add: a'_def)
  have tx: "ok (case x of IntEle n \<Rightarrow> do { eleobj \<leftarrow> createStringObjectFromLongLong n; obj_text eleobj }
      | ObjEle t \<Rightarrow> Some t) (\<lambda>t. t = ele_text x)"
  proof (cases x)
    case (IntEle n)
    then have n: "in_sbytes 8 n" "n \<noteq> - (2 ^ 63)" using assms(2) by (auto simp: ele_ok_def split: robj.splits)
    note el = createFromLongLong_ok [OF n, of "e_seed e"]
    show ?thesis using IntEle el obj_text_ok [OF conjunct2 [OF el]] by (simp add: ele_text_def)
  qed (simp add: ele_text_def)
  have add: "ok (setTypeAdd e dst (ele_text x)) (\<lambda>(d, b). inter_inv e store a Q (ts @ [ele_text x]) (s', d, c))"
    if "store" "Q (ele_text x)" "db_rel e s' a" for s'
  proof -
    have d: "obj_rep (e_seed e) dst (VSet (set (filter Q ts)))" using assms(1) that(1) by (simp add: inter_inv_def)
    have "card (set (filter Q ts)) < 2 ^ 29 - 1" using card_mono [of "set ts" "set (filter Q ts)"] assms(6) by auto
    from setTypeAdd_ok [OF d this assms(5)] show ?thesis
      by (rule ok_mono2) (use that in \<open>simp add: inter_inv_def\<close>)
  qed
  have "ok (inter_test e first x ks st) (\<lambda>(st, all). ok (if \<not> all then Some (st, dst, c)
     else if \<not> store then do {
       t \<leftarrow> ele_print x;
       Some (addReply (Bulk t) st, dst, c + 1) }
     else do {
       t \<leftarrow> (case x of
              IntEle n \<Rightarrow> do { eleobj \<leftarrow> createStringObjectFromLongLong n; obj_text eleobj }
            | ObjEle t \<Rightarrow> Some t);
       (dstset, b) \<leftarrow> setTypeAdd e dst t;
       Some (st, dstset, c) }) (inter_inv e store a Q (ts @ [ele_text x])))"
  proof (rule ok_mono2 [OF inter_test_ok [OF rel assms(2)]])
    show "\<forall>k \<in> set ks. \<exists>S. st_keys a' k = Some (VSet S)" using assms(4) keys by simp
  next
    fix s' b assume "db_rel e s' a' \<and> b = (\<forall>k \<in> set ks. k \<noteq> first \<longrightarrow> ele_text x \<in> members (st_keys a' k))"
    then have h: "db_rel e s' a'" "b = Q (ele_text x)" by (simp_all add: keys assms(3))
    show "case (s', b) of (st, all) \<Rightarrow> ok (if \<not> all then Some (st, dst, c)
     else if \<not> store then do {
       t \<leftarrow> ele_print x;
       Some (addReply (Bulk t) st, dst, c + 1) }
     else do {
       t \<leftarrow> (case x of
              IntEle n \<Rightarrow> do { eleobj \<leftarrow> createStringObjectFromLongLong n; obj_text eleobj }
            | ObjEle t \<Rightarrow> Some t);
       (dstset, b) \<leftarrow> setTypeAdd e dst t;
       Some (st, dstset, c) }) (inter_inv e store a Q (ts @ [ele_text x]))"
    proof (cases "Q (ele_text x)")
      case False
      then show ?thesis using h assms(1) by (auto simp: inter_inv_def a'_def split: if_splits)
    next
      case Q: True
      show ?thesis
      proof (cases store)
        case False
        then show ?thesis using Q h assms(1) ele_print_ok [OF assms(2)]
          by (auto simp: inter_inv_def a'_def a_bulks_snoc)
      next
        case True
        then have "db_rel e s' a" using h(1) by (simp add: a'_def)
        then show ?thesis using Q h(2) True ok_mono [OF tx] add [OF True Q]
          by (auto simp: case_prod_beta' elim!: ok_mono)
      qed
    qed
  qed
  then show ?thesis
    by (simp add: inter_body_def Let_def case_prod_beta' del: ok_if split del: if_split cong: if_cong)
qed

lemma set_qsort: "set (qsort cmp xs) = set xs"
proof -
  have "set (qsort_insert cmp x ys) = insert x (set ys)" for x ys by (induction ys) auto
  then show ?thesis by (induction xs) (simp_all add: qsort_def)
qed

lemma look_keys: "a_look e k a = Some v \<Longrightarrow> st_keys a k = Some v"
  by (auto simp: a_look_def split: if_splits)

lemma room_visit: "room n a \<Longrightarrow> room n (a_visit e store k a)"
  by (auto simp: a_visit_def)

lemma room_inter_look: "room n a \<Longrightarrow> room n (fst (a_inter_look e store ks a))"
  by (induction ks arbitrary: a) (auto simp: Let_def room_visit)

lemma room_union_look: "room n a \<Longrightarrow> room n (fst (a_union_look e store ks a))"
  by (induction ks arbitrary: a) (auto simp: Let_def room_visit)

lemma store_result_ok:
  assumes "db_rel e st a" "room 1 a" "obj_rep (e_seed e) ob (VSet T)"
  shows "ok (store_result e d ob st) (\<lambda>st'. db_rel e st' (a_store_set d T a))"
  unfolding store_result_def ok_simps
proof (rule dbDelete_wp [OF assms(1), of d], unfold prod.case setTypeSize_ok [OF assms(3)] bind.bind_lunit ok_simps)
  fix s b assume "db_rel e s (a_del d a) \<and> b = (st_keys a d \<noteq> None)"
  then have s: "db_rel e s (a_del d a)" by simp
  have fin: "finite T" by (rule set_obj_finite [OF assms(3)])
  have add: "ok (dbAdd e s d ob) (\<lambda>st'. db_rel e st' (a_put d (VSet T) (a_del d a)))"
    by (rule dbAdd_ok [OF s room_del [OF assms(2)] _ assms(3)]) simp
  have "ok (if card T > 0 then do { st \<leftarrow> dbAdd e s d ob; Some (addReply (Integer (int (card T))) st) }
      else Some (addReply shared_czero s))
    (\<lambda>st. db_rel e st (addReply (Integer (int (card T))) (a_putset d T (a_del d a))))"
  proof (cases "T = {}")
    case True
    then have "a_putset d T (a_del d a) = a_del d a" by (auto simp: a_putset_def intro!: store_eqI)
    then show ?thesis using s True by auto
  next
    case False
    then show ?thesis using add fin by (auto simp: a_putset_def card_gt_0_iff elim!: ok_mono)
  qed
  then show "ok (if card T > 0 then do { st \<leftarrow> dbAdd e s d ob; Some (addReply (Integer (int (card T))) st) }
      else Some (addReply shared_czero s))
    (\<lambda>x. ok (let st = signalModifiedKey d x in Some (addDirty 1 st)) (\<lambda>st'. db_rel e st' (a_store_set d T a)))"
    by (rule ok_mono) (auto simp: a_store_set_def)
qed

lemma deferred_reply:
  "setDeferredMultiBulkLength (length (out (st_srv a))) (length ts) (a_bulks ts (addReply Pending a))
   = a_bulks ts (addReply (MultiBulk (int (length ts))) a)"
  by (simp add: setDeferredMultiBulkLength_def a_bulks_def addReply_def on_srv_def list_update_append)

lemma db_rel_deferred: "db_rel e st a \<Longrightarrow> db_rel e (setDeferredMultiBulkLength i n st) (setDeferredMultiBulkLength i n a)"
  by (auto simp: setDeferredMultiBulkLength_def)

lemma inter_loop_ok:
  assumes "db_rel e st b" "\<forall>k \<in> set (first # ks). \<exists>S. st_keys b k = Some (VSet S)"
    and "\<forall>t \<in> members (st_keys b first). t \<noteq> LLONG_MIN_text" "card (members (st_keys b first)) \<le> 2 ^ 29 - 1"
    and "objectAt st0 first = Some ob" "obj_rep (e_seed e) ob (VSet (members (st_keys b first)))"
  shows "\<exists>si n. setTypeInitIterator ob = Some si \<and> setTypeSize ob = Some n \<and>
    ok (set_foreach (n + 1) ob si (inter_body e store first ks) (st, createIntsetObject, 0))
      (\<lambda>acc. \<exists>ts. distinct ts \<and> set ts = inter_of b (first # ks) \<and> inter_inv e store b (\<lambda>_. True) ts acc)"
proof -
  define S where "S = members (st_keys b first)"
  note rep = assms(6) [folded S_def]
  obtain si where si: "setTypeInitIterator ob = Some si" using setTypeInitIterator_ok [OF rep] by blast
  note E = set_elems_ok [OF rep]
  define Q where "Q = (\<lambda>t. \<forall>k \<in> set ks. k \<noteq> first \<longrightarrow> t \<in> members (st_keys b k))"
  have "ok (foldo (inter_body e store first ks) (set_elems ob) (st, createIntsetObject, 0))
    ((\<lambda>xs acc. inter_inv e store b Q (map ele_text xs) acc) (set_elems ob))"
  proof (rule foldo_ok)
    show "inter_inv e store b Q (map ele_text []) (st, createIntsetObject, 0)"
      using assms(1) createIntsetObject_ok by (simp add: inter_inv_def)
  next
    fix ys x zs and acc :: "db \<times> robj \<times> nat"
    assume xs: "set_elems ob = ys @ x # zs" and inv: "inter_inv e store b Q (map ele_text ys) acc"
    obtain st1 dst c where acc: "acc = (st1, dst, c)" by (cases acc)
    have x: "ele_ok ob x" "ele_text x \<in> S" using E(2,3) xs by auto
    have sub: "insert (ele_text x) (set (map ele_text ys)) \<subseteq> S" "ele_text x \<notin> set (map ele_text ys)"
      using E(1,2) xs by auto
    have "finite S" by (rule set_obj_finite [OF rep])
    from card_mono [OF this sub(1)] sub(2) have "card (set (map ele_text ys)) < 2 ^ 29 - 1"
      using assms(4) by (simp add: S_def [symmetric])
    moreover have "ele_text x \<noteq> LLONG_MIN_text" using assms(3) x(2) by (simp add: S_def)
    ultimately show "ok (inter_body e store first ks x acc) (inter_inv e store b Q (map ele_text (ys @ [x])))"
      using inter_body_ok [OF inv [unfolded acc] x(1) Q_def] assms(2) unfolding acc by simp
  qed
  then have "ok (set_foreach (card S + 1) ob si (inter_body e store first ks) (st, createIntsetObject, 0))
      (inter_inv e store b Q (map ele_text (set_elems ob)))"
    by (simp only: set_foreach_ok [OF rep si])
  moreover have "set (filter Q (map ele_text (set_elems ob))) = inter_of b (first # ks)"
    using E(2) by (auto simp: inter_of_def Q_def S_def)
  moreover have "distinct (filter Q (map ele_text (set_elems ob)))" using E(1) by (rule distinct_filter)
  moreover have "inter_inv e store b Q ts acc \<Longrightarrow> inter_inv e store b (\<lambda>_. True) (filter Q ts) acc" for ts acc
    by (cases acc) (auto simp: inter_inv_def)
  ultimately show ?thesis using si setTypeSize_ok [OF rep] by (auto elim!: ok_mono)
qed

lemma inter_lookup_pair:
  assumes "db_rel e st a"
  obtains st1 b r where "inter_lookup_loop e store ks st = Some (st1, r)" "a_inter_look e store ks a = (b, r)" "db_rel e st1 b"
  using inter_lookup_ok [OF assms, of store ks] by (cases "a_inter_look e store ks a") (auto simp: ok_iff)

text \<open>\<open>SINTER\<close> and \<open>SINTERSTORE\<close>.\<close>

lemma sinter_ok:
  assumes "db_rel e st a" "room 1 a" "ks \<noteq> []" "sets_ok a" "\<forall>k \<in> set ks. fits 0 (a_look e k a)"
  shows "ok (sinterGenericCommand e ks dst st) (\<lambda>st'. \<exists>c. a_sinter e ks dst a c \<and> db_rel e st' c)"
proof -
  obtain st1 b r where l: "inter_lookup_loop e (dst \<noteq> None) ks st = Some (st1, r)"
    "a_inter_look e (dst \<noteq> None) ks a = (b, r)" and rel: "db_rel e st1 b"
    by (rule inter_lookup_pair [OF assms(1)])
  have room: "room 1 b" using room_inter_look [OF assms(2), of e "dst \<noteq> None" ks] l(2) by simp
  show ?thesis
  proof (cases r)
    case WrongType
    then show ?thesis using l rel by (auto simp: sinterGenericCommand_def a_sinter_def)
  next
    case Missing
    show ?thesis
    proof (cases dst)
      case None
      then show ?thesis using l rel Missing by (auto simp: sinterGenericCommand_def a_sinter_def)
    next
      case (Some d)
      have "ok (dbDelete e st1 d) (\<lambda>(st, x). db_rel e (addReply shared_czero (if x then addDirty 1 (signalModifiedKey d st) else st))
          (addReply shared_czero (if st_keys b d \<noteq> None then addDirty 1 (signalModifiedKey d (a_del d b)) else a_del d b)))"
        by (rule dbDelete_wp [OF rel]) auto
      then show ?thesis using l Some Missing
        by (auto simp: sinterGenericCommand_def a_sinter_def ok_iff split: if_splits)
    qed
  next
    case AllSets
    note K = inter_look_keys [OF l(2) [unfolded AllSets]]
    have sets: "\<exists>S. st_keys b k = Some (VSet S) \<and> S = members (a_look e k a) \<and> st_keys a k = Some (VSet S)"
      if k: "k \<in> set ks" for k
    proof -
      obtain v where v: "a_look e k a = Some v" using K k by auto
      then obtain S where "v = VSet S" using K k by (cases v) (auto simp: wrong_type_def)
      then show ?thesis using v K k look_keys [OF v] by (auto simp: members_def)
    qed
    obtain first rest where q: "qsort (qsortCompareSetsByCardinality st1) ks = first # rest"
      using assms(3) set_qsort [of _ ks] by (metis list.exhaust list.set(1) set_empty)
    then have qs: "set (first # rest) = set ks" using set_qsort by metis
    then have eq: "inter_of c (first # rest) = inter_of c ks" for c by (simp add: inter_of_def)
    have f: "first \<in> set ks" using qs by auto
    obtain S where S: "st_keys b first = Some (VSet S)" "S = members (a_look e first a)" "st_keys a first = Some (VSet S)"
      using sets [OF f] by blast
    define b1 where "b1 = (if dst = None then addReply Pending b else b)"
    define st2 where "st2 = (if dst = None then addReply Pending st1 else st1)"
    have rel2: "db_rel e st2 b1" using rel by (auto simp: st2_def b1_def)
    have keys: "st_keys b1 = st_keys b" by (simp add: b1_def)
    obtain ob where ob: "objectAt st2 first = Some ob" "obj_rep (e_seed e) ob (VSet S)"
      using objectAt_ok [OF rel2, of first] S(1) keys by auto
    have all: "\<forall>k \<in> set (first # rest). \<exists>S. st_keys b1 k = Some (VSet S)" using sets qs keys by auto
    have mem: "\<forall>t \<in> members (st_keys b1 first). t \<noteq> LLONG_MIN_text"
      using sets_ok_members [OF assms(4), of _ first] S keys by simp
    have card: "card (members (st_keys b1 first)) \<le> 2 ^ 29 - 1"
      using assms(5) f S keys by (auto simp: fits_def members_def)
    have obS: "obj_rep (e_seed e) ob (VSet (members (st_keys b1 first)))" using ob(2) S(1) keys by (simp add: members_def)
    obtain si n where it: "setTypeInitIterator ob = Some si" "setTypeSize ob = Some n"
      "ok (set_foreach (n + 1) ob si (inter_body e (dst \<noteq> None) first rest) (st2, createIntsetObject, 0))
        (\<lambda>acc. \<exists>ts. distinct ts \<and> set ts = inter_of b1 (first # rest) \<and> inter_inv e (dst \<noteq> None) b1 (\<lambda>_. True) ts acc)"
      using inter_loop_ok [OF rel2 all mem card ob(1) obS, of "dst \<noteq> None"] by blast
    then obtain st3 ds c ts where run: "set_foreach (n + 1) ob si (inter_body e (dst \<noteq> None) first rest) (st2, createIntsetObject, 0)
        = Some (st3, ds, c)" and ts: "distinct ts" "set ts = inter_of b ks" "inter_inv e (dst \<noteq> None) b1 (\<lambda>_. True) ts (st3, ds, c)"
      unfolding ok_iff eq by (auto simp: keys inter_of_def)
    show ?thesis
    proof (cases dst)
      case None
      have "db_rel e st3 (a_bulks ts (addReply Pending b))" "c = length ts"
        using ts(3) None by (simp_all add: inter_inv_def b1_def)
      moreover have "length (out (st_srv st1)) = length (out (st_srv b))" using rel by (simp add: db_rel_def)
      ultimately have "db_rel e (setDeferredMultiBulkLength (length (out (st_srv st1))) c st3)
          (a_bulks ts (addReply (MultiBulk (int (length ts))) b))"
        using db_rel_deferred deferred_reply [of b ts] by metis
      then show ?thesis
        using l AllSets None q ob(1) it(1,2) run ts(1,2)
        by (auto simp: sinterGenericCommand_def a_sinter_def a_set_result_def a_reply_set_def st2_def
            addDeferredMultiBulkLength_def Let_def)
    next
      case (Some d)
      have "db_rel e st3 b" "obj_rep (e_seed e) ds (VSet (inter_of b ks))"
        using ts Some by (simp_all add: inter_inv_def b1_def)
      from store_result_ok [OF this(1) room this(2), of d]
      show ?thesis using l AllSets Some q ob(1) it(1,2) run
        by (auto simp: sinterGenericCommand_def a_sinter_def a_set_result_def st2_def ok_iff)
    qed
  qed
qed

section \<open>Union and difference\<close>

text \<open>One set is merged: the members are added to the result or removed from it.\<close>

lemma union_body_loop:
  assumes "obj_rep (e_seed e) ob (VSet S)" "finite S" "\<forall>t \<in> set ts. t \<noteq> LLONG_MIN_text" "card S + length ts \<le> 2 ^ 29 - 1"
  shows "ok (foldo (union_body e op first) ts (ob, int (card S)))
    (\<lambda>(ob', c). \<exists>S'. obj_rep (e_seed e) ob' (VSet S') \<and> c = int (card S') \<and>
      S' = (if op = REDIS_OP_UNION \<or> first then S \<union> set ts else S - set ts))"
proof -
  define R where "R = (\<lambda>ts. if op = REDIS_OP_UNION \<or> first then S \<union> set ts else S - set ts)"
  have "ok (foldo (union_body e op first) ts (ob, int (card S)))
    ((\<lambda>ts (ob', c). obj_rep (e_seed e) ob' (VSet (R ts)) \<and> c = int (card (R ts))) ts)"
  proof (rule foldo_ok)
    show "case (ob, int (card S)) of (ob', c) \<Rightarrow> obj_rep (e_seed e) ob' (VSet (R [])) \<and> c = int (card (R []))"
      using assms(1) by (simp add: R_def)
  next
    fix ys x zs and acc :: "robj \<times> int"
    assume ts: "ts = ys @ x # zs"
      and inv: "case acc of (ob', c) \<Rightarrow> obj_rep (e_seed e) ob' (VSet (R ys)) \<and> c = int (card (R ys))"
    obtain ob1 where acc: "acc = (ob1, int (card (R ys)))" "obj_rep (e_seed e) ob1 (VSet (R ys))"
      using inv by (cases acc) simp
    have fin: "finite (R ys)" using assms(2) by (simp add: R_def)
    have "R ys \<subseteq> S \<union> set ys" by (auto simp: R_def)
    from card_mono [OF _ this] have "card (R ys) \<le> card S + length ys"
      using assms(2) card_Un_le [of S "set ys"] card_length [of ys] by simp
    then have small: "card (R ys) < 2 ^ 29 - 1" using assms(4) ts by simp
    show "ok (union_body e op first x acc)
      (\<lambda>(ob', c). obj_rep (e_seed e) ob' (VSet (R (ys @ [x]))) \<and> c = int (card (R (ys @ [x]))))"
    proof (cases "op = REDIS_OP_UNION \<or> first")
      case True
      then have R: "R (ys @ [x]) = insert x (R ys)" by (auto simp: R_def)
      have "x \<noteq> LLONG_MIN_text" using assms(3) ts by simp
      from setTypeAdd_ok [OF acc(2) small this] show ?thesis
        unfolding R using True small fin
        by (auto simp: union_body_def acc(1) c_arith insert_absorb elim!: ok_mono2)
    next
      case False
      then have R: "R (ys @ [x]) = R ys - {x}" by (auto simp: R_def)
      have "0 < card (R ys)" if "x \<in> R ys" using that fin by (auto simp: card_gt_0_iff)
      with setTypeRemove_ok [OF acc(2), of x] show ?thesis
        unfolding R using False small fin
        by (auto simp: union_body_def acc(1) c_arith elim!: ok_mono2)
    qed
  qed
  then show ?thesis by (rule ok_mono) (auto simp: R_def)
qed

text \<open>The sets still to be merged into \<open>S\<close>.\<close>

fun merged :: "set_op_kind \<Rightarrow> bool \<Rightarrow> byte list set list \<Rightarrow> byte list set \<Rightarrow> byte list set" where
  "merged op first [] S = S"
| "merged op first (T # Ts) S = merged op False Ts (if op = REDIS_OP_UNION \<or> first then S \<union> T else S - T)"

lemma merged_diff_empty: "merged REDIS_OP_DIFF False Ts {} = {}"
  by (induction Ts) simp_all

lemma merged_False: "merged op False Ts S = (case op of REDIS_OP_UNION \<Rightarrow> S \<union> \<Union> (set Ts) | REDIS_OP_DIFF \<Rightarrow> S - \<Union> (set Ts))"
  by (induction Ts arbitrary: S) (auto split: set_op_kind.split)

lemma union_loop_ok:
  assumes "list_all2 (\<lambda>s v. rel_option (obj_rep (e_seed e)) s v) sets vs" "\<forall>v \<in> set vs. \<not> wrong_type v"
    and "\<forall>v \<in> set vs. LLONG_MIN_text \<notin> members v" "card S + (\<Sum>v \<leftarrow> vs. card (members v)) \<le> 2 ^ 29 - 1"
    and "obj_rep (e_seed e) ob (VSet S)" "first \<longrightarrow> S = {}"
  shows "ok (union_loop e op first sets (ob, int (card S)))
    (\<lambda>(ob', c). \<exists>S'. obj_rep (e_seed e) ob' (VSet S') \<and> c = int (card S') \<and> S' = merged op first (map members vs) S)"
  using assms
proof (induction sets vs arbitrary: first ob S rule: list_all2_induct)
  case (Cons s ss v vs)
  have fin: "finite S" by (rule set_obj_finite [OF Cons.prems(4)])
  have IH: "ok (union_loop e op False ss (ob', int (card S'))) (\<lambda>(ob'', c). \<exists>S''. obj_rep (e_seed e) ob'' (VSet S'') \<and>
      c = int (card S'') \<and> S'' = merged op first (map members (v # vs)) S)"
    if "obj_rep (e_seed e) ob' (VSet S')" "card S' \<le> card S + card (members v)"
      "S' = (if op = REDIS_OP_UNION \<or> first then S \<union> members v else S - members v)" for ob' S'
    using Cons.IH [of S' ob' False] that Cons.prems by simp
  show ?case
  proof (cases rule: set_cases [OF Cons.hyps(1)])
    case 1
    show ?thesis
    proof (cases "op = REDIS_OP_DIFF \<and> first")
      case True
      then show ?thesis using 1 Cons.prems(4,5) by (simp add: merged_diff_empty)
    next
      case False
      have "S = (if op = REDIS_OP_UNION \<or> first then S \<union> members v else S - members v)" using 1(3) by simp
      from IH [OF Cons.prems(4) _ this] False 1(1) show ?thesis by auto
    qed
  next
    case (3 ob' t)
    then show ?thesis using Cons.prems(1) by simp
  next
    case (2 obs T)
    obtain si where si: "setTypeInitIterator obs = Some si" using setTypeInitIterator_ok [OF 2(3)] by blast
    note E = set_elems_ok [OF 2(3)]
    define ts where "ts = map ele_text (set_elems obs)"
    have ts: "set ts = T" "length ts = card T" using E(2,4) by (simp_all add: ts_def)
    have min: "\<forall>t \<in> set ts. t \<noteq> LLONG_MIN_text" using Cons.prems(2) 2(5) ts(1) by auto
    have "card S + length ts \<le> 2 ^ 29 - 1" using Cons.prems(3) 2(5) ts(2) by simp
    note B = union_body_loop [OF Cons.prems(4) fin min this, of op first]
    have "ok (foldo (union_body e op first) ts (ob, int (card S)))
      (\<lambda>acc. ok (if op = REDIS_OP_DIFF \<and> snd acc = 0 then Some acc else union_loop e op False ss acc)
        (\<lambda>(ob', c). \<exists>S'. obj_rep (e_seed e) ob' (VSet S') \<and> c = int (card S') \<and>
          S' = merged op first (map members (v # vs)) S))"
    proof (rule ok_mono [OF B])
      fix acc :: "robj \<times> int"
      assume "case acc of (ob', c) \<Rightarrow> \<exists>S'. obj_rep (e_seed e) ob' (VSet S') \<and> c = int (card S') \<and>
        S' = (if op = REDIS_OP_UNION \<or> first then S \<union> set ts else S - set ts)"
      then obtain ob1 S1 where acc: "acc = (ob1, int (card S1))" "obj_rep (e_seed e) ob1 (VSet S1)"
        "S1 = (if op = REDIS_OP_UNION \<or> first then S \<union> members v else S - members v)"
        unfolding ts(1) 2(5) by (cases acc) auto
      have c: "card S1 \<le> card S + card (members v)"
        using acc(3) card_Un_le [of S "members v"] card_mono [OF fin, of S1] by (auto split: if_splits)
      have fin1: "finite S1" by (rule set_obj_finite [OF acc(2)])
      show "ok (if op = REDIS_OP_DIFF \<and> snd acc = 0 then Some acc else union_loop e op False ss acc)
        (\<lambda>(ob', c). \<exists>S'. obj_rep (e_seed e) ob' (VSet S') \<and> c = int (card S') \<and>
          S' = merged op first (map members (v # vs)) S)"
      proof (cases "op = REDIS_OP_DIFF \<and> snd acc = 0")
        case True
        then have "S1 = {}" using acc(1) fin1 by simp
        then show ?thesis using True acc merged_diff_empty by auto
      next
        case False
        then show ?thesis using IH [OF acc(2) c acc(3)] acc(1) by auto
      qed
    qed
    then show ?thesis using 2(1) si
      by (simp add: setTypeSize_ok [OF 2(3)] set_foreach_object_ok [OF 2(3) si, simplified] ts_def
          del: ok_if split del: if_split cong: if_cong)
  qed
qed simp

lemma reply_members_ok:
  assumes "db_rel e st a" "obj_rep (e_seed e) ob (VSet T)"
  shows "ok (reply_members ob st) (\<lambda>st'. \<exists>ts. distinct ts \<and> set ts = T \<and> db_rel e st' (a_bulks ts a))"
proof -
  obtain si where si: "setTypeInitIterator ob = Some si" using setTypeInitIterator_ok [OF assms(2)] by blast
  note E = set_elems_ok [OF assms(2)]
  define ts where "ts = map ele_text (set_elems ob)"
  have "ok (foldo (\<lambda>t st. Some (addReply (Bulk t) st)) ts st) ((\<lambda>ts st'. db_rel e st' (a_bulks ts a)) ts)"
    by (rule foldo_ok) (use assms(1) in \<open>auto simp: a_bulks_snoc\<close>)
  then have "ok (reply_members ob st) (\<lambda>st'. db_rel e st' (a_bulks ts a))"
    using si by (simp add: reply_members_def setTypeSize_ok [OF assms(2)] set_foreach_object_ok [OF assms(2) si, simplified] ts_def)
  then show ?thesis by (rule ok_mono) (use E(1,2) in \<open>auto simp: ts_def\<close>)
qed

text \<open>\<open>SUNION\<close>, \<open>SDIFF\<close> and their storing variants.\<close>

lemma sunion_diff_ok:
  assumes "db_rel e st a" "room 1 a" "sets_ok a" "(\<Sum>k \<leftarrow> ks. card (members (a_look e k a))) \<le> 2 ^ 29 - 1"
  shows "ok (sunionDiffGenericCommand e ks dst op st) (\<lambda>st'. \<exists>c. a_sunion_diff e ks dst op a c \<and> db_rel e st' c)"
proof -
  obtain st1 b ok1 r where l: "union_lookup_loop e (dst \<noteq> None) ks st = Some (st1, r)"
    "a_union_look e (dst \<noteq> None) ks a = (b, ok1)" and rel: "db_rel e st1 b"
    and r: "if ok1 then \<exists>l. r = Some l \<and> list_all2 (\<lambda>s k. rel_option (obj_rep (e_seed e)) s (a_look e k a)) l ks else r = None"
    using union_lookup_ok [OF assms(1), of "dst \<noteq> None" ks]
    by (cases "a_union_look e (dst \<noteq> None) ks a") (auto simp: ok_iff)
  have room: "room 1 b" using room_union_look [OF assms(2), of e "dst \<noteq> None" ks] l(2) by simp
  show ?thesis
  proof (cases ok1)
    case False
    then show ?thesis using l r rel by (auto simp: sunionDiffGenericCommand_def a_sunion_diff_def)
  next
    case True
    then obtain sets where sets: "r = Some sets"
      "list_all2 (\<lambda>s k. rel_option (obj_rep (e_seed e)) s (a_look e k a)) sets ks" using r by auto
    have l2: "a_union_look e (dst \<noteq> None) ks a = (b, True)" using l(2) True by simp
    note K = union_look_keys [OF l2]
    define vs where "vs = map (\<lambda>k. a_look e k a) ks"
    have vs: "list_all2 (\<lambda>s v. rel_option (obj_rep (e_seed e)) s v) sets vs"
      using sets(2) by (simp add: vs_def list_all2_conv_all_nth)
    have mem: "LLONG_MIN_text \<notin> members (a_look e k a)" for k
    proof (cases "a_look e k a")
      case (Some v)
      then show ?thesis using look_keys [OF Some] sets_ok_members [OF assms(3), of LLONG_MIN_text k] by auto
    qed (simp add: members_def)
    have res: "merged op True (map members vs) {} = (case op of REDIS_OP_UNION \<Rightarrow> union_of b ks | REDIS_OP_DIFF \<Rightarrow> diff_of b ks)"
      using K by (cases ks) (auto simp: vs_def merged_False union_of_def split: set_op_kind.split)
    have "ok (union_loop e op True sets (createIntsetObject, int (card ({} :: byte list set))))
      (\<lambda>(ob', c). \<exists>S'. obj_rep (e_seed e) ob' (VSet S') \<and> c = int (card S') \<and> S' = merged op True (map members vs) {})"
      by (rule union_loop_ok [OF vs _ _ _ createIntsetObject_ok])
        (use K mem assms(4) in \<open>auto simp: vs_def comp_def\<close>)
    then obtain ob T where run: "union_loop e op True sets (createIntsetObject, 0) = Some (ob, int (card T))"
      and T: "obj_rep (e_seed e) ob (VSet T)"
        "T = (case op of REDIS_OP_UNION \<Rightarrow> union_of b ks | REDIS_OP_DIFF \<Rightarrow> diff_of b ks)"
      by (auto simp: ok_iff res)
    show ?thesis
    proof (cases dst)
      case None
      have "db_rel e (addReply (MultiBulk (int (card T))) st1) (addReply (MultiBulk (int (card T))) b)" using rel by auto
      from reply_members_ok [OF this T(1)]
      have "ok (reply_members ob (addReply (MultiBulk (int (card T))) st1)) (\<lambda>st'. \<exists>c. a_sunion_diff e ks dst op a c \<and> db_rel e st' c)"
      proof (rule ok_mono, elim exE conjE)
        fix st' ts
        assume ts: "distinct ts" "set ts = T" "db_rel e st' (a_bulks ts (addReply (MultiBulk (int (card T))) b))"
        then have "card T = length ts" using distinct_card by metis
        then show "\<exists>c. a_sunion_diff e ks dst op a c \<and> db_rel e st' c"
          using ts T(2) l(2) True None by (auto simp: a_sunion_diff_def a_set_result_def a_reply_set_def)
      qed
      then show ?thesis using l(1) sets(1) run None by (simp add: sunionDiffGenericCommand_def)
    next
      case (Some d)
      from store_result_ok [OF rel room T(1), of d] T(2)
      have "ok (store_result e d ob st1) (\<lambda>st'. \<exists>c. a_sunion_diff e ks dst op a c \<and> db_rel e st' c)"
        using l(2) True Some by (auto simp: a_sunion_diff_def a_set_result_def ok_iff)
      then show ?thesis using l(1) sets(1) run Some by (simp add: sunionDiffGenericCommand_def)
    qed
  qed
qed

end
