(* ===== verification/TSetRand.thy ===== *)
theory TSetRand
  imports TSetOps
begin

text \<open>
  \<open>SRANDMEMBER\<close> of \<open>t_set.c\<close>, with and without a count.  The values of \<open>random()\<close> are an
  argument, one list for each draw; running out of them is \<open>None\<close>, and the lemmas show that there
  are draws with which the command ends.
\<close>

section \<open>The code\<close>

text \<open>The count is converted to \<open>unsigned\<close>, 32 bits; a negative one asks for repetitions.\<close>

definition srandmember_count :: "int \<Rightarrow> (nat \<times> bool) option" where
  "srandmember_count l =
     (if l \<ge> 0 then Some (to_uint32 l, True)
      else do { m \<leftarrow> c_llong (- l); Some (nat m, False) })"

text \<open>Case 1: \<open>cnt\<close> draws from the whole set.\<close>

primrec rand_repeat :: "env \<Rightarrow> byte list \<Rightarrow> nat list list \<Rightarrow> nat \<Rightarrow> db \<Rightarrow> db option" where
  "rand_repeat e key [] cnt st = (if cnt = 0 then Some st else None)"
| "rand_repeat e key (rnd # rnds) cnt st =
     (if cnt = 0 then Some st
      else do {
        ob \<leftarrow> objectAt st key;
        (ob, x) \<leftarrow> setTypeRandomElement e rnd ob;
        t \<leftarrow> ele_print x;
        rand_repeat e key rnds (cnt - 1) (addReply (Bulk t) (storeObject key ob st)) })"

text \<open>Case 3: all members, then random ones are removed until \<open>cnt\<close> are left.\<close>

definition rand_copy :: "env \<Rightarrow> set_ele \<Rightarrow> (byte list, unit) dict \<Rightarrow> (byte list, unit) dict option" where
  "rand_copy e x d = do {
     t \<leftarrow> (case x of
            IntEle llele \<Rightarrow> do { ele \<leftarrow> createStringObjectFromLongLong llele; obj_text ele }
          | ObjEle t \<Rightarrow> Some t);
     (d, added) \<leftarrow> dictAdd (setDictType (e_seed e)) (e_resize e) d t ();
     if added then Some d else None }"

primrec rand_remove ::
  "env \<Rightarrow> nat list list \<Rightarrow> nat \<Rightarrow> nat \<Rightarrow> (byte list, unit) dict \<Rightarrow> (byte list, unit) dict option" where
  "rand_remove e [] size1 cnt d = (if size1 > cnt then None else Some d)"
| "rand_remove e (rnd # rnds) size1 cnt d =
     (if size1 > cnt then do {
        (d, de) \<leftarrow> dictGetRandomKey (setDictType (e_seed e)) d rnd;
        case de of
          None \<Rightarrow> None
        | Some kv \<Rightarrow> do {
            (d, b) \<leftarrow> dictDelete (setDictType (e_seed e)) d (fst kv);
            rand_remove e rnds (size1 - 1) cnt d } }
      else Some d)"

text \<open>Case 4: random members are added until \<open>cnt\<close> different ones are there.\<close>

primrec rand_sample ::
  "env \<Rightarrow> byte list \<Rightarrow> nat list list \<Rightarrow> nat \<Rightarrow> nat \<Rightarrow> (byte list, unit) dict \<Rightarrow> db \<Rightarrow>
   ((byte list, unit) dict \<times> db) option" where
  "rand_sample e key [] added cnt d st = (if added < cnt then None else Some (d, st))"
| "rand_sample e key (rnd # rnds) added cnt d st =
     (if added < cnt then do {
        ob \<leftarrow> objectAt st key;
        (ob, x) \<leftarrow> setTypeRandomElement e rnd ob;
        let st = storeObject key ob st;
        t \<leftarrow> (case x of
               IntEle llele \<Rightarrow> do { ele \<leftarrow> createStringObjectFromLongLong llele; obj_text ele }
             | ObjEle t \<Rightarrow> Some t);
        (d, ok1) \<leftarrow> dictAdd (setDictType (e_seed e)) (e_resize e) d t ();
        rand_sample e key rnds (if ok1 then added + 1 else added) cnt d st }
      else Some (d, st))"

definition rand_reply :: "nat \<Rightarrow> (byte list, unit) dict \<Rightarrow> db \<Rightarrow> db option" where
  "rand_reply cnt d st = do {
     (d', it, es) \<leftarrow> iterate (dictSize d + 1) d dictGetIterator;
     Some (fold (\<lambda>de. addReply (Bulk (fst de))) es (addReply (MultiBulk (int cnt)) st)) }"

text \<open>\<open>SRANDMEMBER_SUB_STRATEGY_MUL\<close> is 3.\<close>

definition srandmemberWithCountCommand :: "env \<Rightarrow> nat list list \<Rightarrow> byte list \<Rightarrow> sds \<Rightarrow> db \<Rightarrow> db option" where
  "srandmemberWithCountCommand e rnds key arg st = do {
     (st, l) \<leftarrow> getLongFromObjectOrReply st (Some (StrRaw arg)) None;
     case l of
       None \<Rightarrow> Some st
     | Some l \<Rightarrow> do {
         (cnt, uniq) \<leftarrow> srandmember_count l;
         (st, r) \<leftarrow> lookupKeyReadOrReply e st key shared_emptymultibulk;
         case r of
           None \<Rightarrow> Some st
         | Some set1 \<Rightarrow>
             let (st, err) = checkType st set1 REDIS_SET
             in if err then Some st
                else do {
                  size1 \<leftarrow> setTypeSize set1;
                  if cnt = 0 then Some (addReply shared_emptymultibulk st)
                  else if \<not> uniq then rand_repeat e key rnds cnt (addReply (MultiBulk (int cnt)) st)
                  else if cnt \<ge> size1 then sunionDiffGenericCommand e [key] None REDIS_OP_UNION st
                  else if cnt * 3 > size1 then do {
                    si \<leftarrow> setTypeInitIterator set1;
                    d \<leftarrow> set_foreach (size1 + 1) set1 si (rand_copy e) dictCreate;
                    if dictSize d \<noteq> size1 then None
                    else do {
                      d \<leftarrow> rand_remove e rnds size1 cnt d;
                      rand_reply cnt d st } }
                  else do {
                    (d, st) \<leftarrow> rand_sample e key rnds 0 cnt dictCreate st;
                    rand_reply cnt d st } } } }"

text \<open>\<open>args\<close> are the arguments behind the key.\<close>

definition srandmemberCommand :: "env \<Rightarrow> nat list list \<Rightarrow> byte list \<Rightarrow> sds list \<Rightarrow> db \<Rightarrow> db option" where
  "srandmemberCommand e rnds key args st =
     (case args of
        [arg] \<Rightarrow> srandmemberWithCountCommand e rnds key arg st
      | _ # _ # _ \<Rightarrow> Some (addReply shared_syntaxerr st)
      | [] \<Rightarrow> do {
          (st, r) \<leftarrow> lookupKeyReadOrReply e st key shared_nullbulk;
          case r of
            None \<Rightarrow> Some st
          | Some set1 \<Rightarrow>
              let (st, err) = checkType st set1 REDIS_SET
              in if err then Some st
                 else (case rnds of
                   [] \<Rightarrow> None
                 | rnd # _ \<Rightarrow> do {
                     (set1, x) \<leftarrow> setTypeRandomElement e rnd set1;
                     let st = storeObject key set1 st;
                     t \<leftarrow> ele_print x;
                     Some (addReply (Bulk t) st) }) })"

section \<open>The specification\<close>

text \<open>The members \<open>ts\<close> are replied.\<close>

definition a_members_reply :: "byte list list \<Rightarrow> adb \<Rightarrow> adb" where
  "a_members_reply ts a = a_bulks ts (addReply (MultiBulk (int (length ts))) a)"

definition a_srandmember_count :: "env \<Rightarrow> byte list \<Rightarrow> int \<Rightarrow> adb \<Rightarrow> adb \<Rightarrow> bool" where
  "a_srandmember_count e k l a c =
     (let b = a_read e k a; v = a_look e k a; S = members v; n = to_uint32 l
      in if v = None then c = addReply shared_emptymultibulk b
         else if wrong_type v then c = addReply shared_wrongtypeerr b
         else if l < 0 then \<exists>ts. length ts = nat (- l) \<and> set ts \<subseteq> S \<and> c = a_members_reply ts b
         else if n = 0 then c = addReply shared_emptymultibulk b
         else if n \<ge> card S then a_reply_set S (a_read e k b) c
         else \<exists>ts. length ts = n \<and> distinct ts \<and> set ts \<subseteq> S \<and> c = a_members_reply ts b)"

definition a_srandmember :: "env \<Rightarrow> byte list \<Rightarrow> adb \<Rightarrow> adb \<Rightarrow> bool" where
  "a_srandmember e k a c =
     (let b = a_read e k a; v = a_look e k a
      in if v = None then c = addReply shared_nullbulk b
         else if wrong_type v then c = addReply shared_wrongtypeerr b
         else \<exists>t \<in> members v. c = addReply (Bulk t) b)"

section \<open>Draws\<close>

declare iterate.simps [simp del]

lemma ele_object_text:
  assumes "ele_ok ob x"
  shows "(case x of IntEle n \<Rightarrow> do { ele \<leftarrow> createStringObjectFromLongLong n; obj_text ele }
      | ObjEle t \<Rightarrow> Some t) = Some (ele_text x)"
proof (cases x)
  case (IntEle n)
  then have n: "in_sbytes 8 n" "n \<noteq> - (2 ^ 63)" using assms by (auto simp: ele_ok_def split: robj.splits)
  have el: "createStringObjectFromLongLong n = Some (StrInt n) \<and> obj_rep 0 (StrInt n) (VStr (dec_int n))"
    by (rule createFromLongLong_ok [OF n])
  show ?thesis using IntEle el obj_text_ok [OF conjunct2 [OF el]] by (simp add: ele_text_def)
qed (simp add: ele_text_def)

text \<open>One draw from the set under a key.\<close>

lemma draw_ok:
  assumes "db_rel e st a" "st_keys a k = Some (VSet S)" "S \<noteq> {}" "card S \<le> 2 ^ 29" "objectAt st k = Some ob"
    and "setTypeRandomElement e rnd ob = Some (ob', x)"
  shows "db_rel e (storeObject k ob' st) a \<and> ele_text x \<in> S \<and> ele_ok ob' x"
proof -
  have "obj_rep (e_seed e) ob (VSet S)" using objectAt_ok [OF assms(1,2)] assms(5) by auto
  from setTypeRandomElement_ok(1) [OF this assms(3,4,6)]
  show ?thesis using storeObject_ok [OF assms(1), of k ob' "VSet S"] a_put_same [OF assms(2)] assms(2) by auto
qed

lemma draw_exists:
  assumes "db_rel e st a" "st_keys a k = Some (VSet S)" "S \<noteq> {}" "card S \<le> 2 ^ 29" "t \<in> S"
  shows "\<exists>ob rnd ob' x. objectAt st k = Some ob \<and> setTypeRandomElement e rnd ob = Some (ob', x) \<and> ele_text x = t"
proof -
  obtain ob where "objectAt st k = Some ob" "obj_rep (e_seed e) ob (VSet S)" using objectAt_ok [OF assms(1,2)] by auto
  then show ?thesis using setTypeRandomElement_ok(2) [of e ob S t] assms(3-5) by blast
qed

lemma rand_repeat_ok:
  assumes "st_keys a k = Some (VSet S)" "S \<noteq> {}" "card S \<le> 2 ^ 29"
  shows "db_rel e st a \<Longrightarrow> rand_repeat e k rnds n st = Some st' \<Longrightarrow>
    \<exists>ts. length ts = n \<and> set ts \<subseteq> S \<and> db_rel e st' (a_bulks ts a)"
  using assms(1)
proof (induction rnds arbitrary: n st a)
  case (Cons rnd rnds)
  show ?case
  proof (cases "n = 0")
    case False
    then obtain ob ob' x t where r: "objectAt st k = Some ob" "setTypeRandomElement e rnd ob = Some (ob', x)"
      "ele_print x = Some t" "rand_repeat e k rnds (n - 1) (addReply (Bulk t) (storeObject k ob' st)) = Some st'"
      using Cons.prems(2) by (auto simp: bind_eq_Some_conv)
    note D = draw_ok [OF Cons.prems(1,3) assms(2,3) r(1,2)]
    have t: "t = ele_text x" using ele_print_ok r(3) D by fastforce
    have "db_rel e (addReply (Bulk t) (storeObject k ob' st)) (addReply (Bulk t) a)" using D by auto
    from Cons.IH [OF this r(4)] Cons.prems(3)
    obtain ts where "length ts = n - 1" "set ts \<subseteq> S" "db_rel e st' (a_bulks ts (addReply (Bulk t) a))" by auto
    moreover have "a_bulks ts (addReply (Bulk t) a) = a_bulks (t # ts) a"
      by (simp add: a_bulks_def addReply_def on_srv_def)
    ultimately show ?thesis using False D t by (intro exI [of _ "t # ts"]) auto
  qed (use Cons in \<open>auto intro!: exI [of _ "[]"]\<close>)
qed (auto split: if_splits)

lemma rand_repeat_exists:
  assumes "st_keys a k = Some (VSet S)" "S \<noteq> {}" "card S \<le> 2 ^ 29"
  shows "db_rel e st a \<Longrightarrow> \<exists>rnds st'. rand_repeat e k rnds n st = Some st'"
  using assms(1)
proof (induction n arbitrary: st a)
  case 0
  then show ?case by (intro exI [of _ "[]"]) simp
next
  case (Suc n)
  obtain t where "t \<in> S" using assms(2) by blast
  then obtain ob rnd ob' x where x: "objectAt st k = Some ob" "setTypeRandomElement e rnd ob = Some (ob', x)"
    using draw_exists [OF Suc.prems assms(2,3)] by blast
  note D = draw_ok [OF Suc.prems assms(2,3) x]
  have "db_rel e (addReply (Bulk (ele_text x)) (storeObject k ob' st)) (addReply (Bulk (ele_text x)) a)"
    using D by auto
  from Suc.IH [OF this] Suc.prems(2)
  obtain rnds st' where "rand_repeat e k rnds n (addReply (Bulk (ele_text x)) (storeObject k ob' st)) = Some st'"
    by auto
  then show ?case using x ele_print_ok [of ob' x] D by (intro exI [of _ "rnd # rnds"]) simp
qed

section \<open>The auxiliary dictionary\<close>

lemma rand_copy_ok:
  assumes "ele_ok ob x" "dict_set (setDictType (e_seed e)) d T" "ele_text x \<notin> T" "card T < 2 ^ 29"
  shows "ok (rand_copy e x d) (\<lambda>d'. dict_set (setDictType (e_seed e)) d' (insert (ele_text x) T))"
  using ht_add_ok [OF assms(2,4), of "ele_text x"] assms(3)
  by (auto simp: rand_copy_def ele_object_text [OF assms(1)])

lemma rand_copy_all:
  assumes "obj_rep (e_seed e) ob (VSet S)" "card S \<le> 2 ^ 29" "setTypeInitIterator ob = Some si"
  shows "ok (set_foreach (card S + 1) ob si (rand_copy e) dictCreate)
    (\<lambda>d. dict_set (setDictType (e_seed e)) d S)"
proof -
  note E = set_elems_ok [OF assms(1)]
  have "ok (foldo (rand_copy e) (set_elems ob) dictCreate)
    ((\<lambda>xs d. dict_set (setDictType (e_seed e)) d (set (map ele_text xs))) (set_elems ob))"
  proof (rule foldo_ok)
    show "dict_set (setDictType (e_seed e)) dictCreate (set (map ele_text []))"
      by (simp add: dict_set_def dict_inv_create dict_map_create)
  next
    fix ys x zs d
    assume xs: "set_elems ob = ys @ x # zs" and d: "dict_set (setDictType (e_seed e)) d (set (map ele_text ys))"
    have n: "ele_text x \<notin> set (map ele_text ys)" using E(1) xs by auto
    have "length ys < card S" using E(4) xs by simp
    then have "card (set (map ele_text ys)) < 2 ^ 29" using card_length [of "map ele_text ys"] assms(2) by simp
    with E(3) xs d n show "ok (rand_copy e x d) (\<lambda>d'. dict_set (setDictType (e_seed e)) d' (set (map ele_text (ys @ [x]))))"
      using rand_copy_ok [of ob x e d "set (map ele_text ys)"] by simp
  qed
  then show ?thesis using E(2) by (simp only: set_foreach_ok [OF assms(1,3)])
qed

lemma dict_set_size: "dict_set ty d S \<Longrightarrow> dictSize d = card S"
  using card_dom_dict(2) [of ty d] by (auto simp: dict_set_def)

lemma random_key_set:
  assumes "dict_set ty d S" "S \<noteq> {}" "card S \<le> 2 ^ 29" "finite S"
  shows "dictGetRandomKey ty d rnd = Some (d', de) \<Longrightarrow> \<exists>t \<in> S. de = Some (t, ()) \<and> dict_set ty d' S"
    and "t \<in> S \<Longrightarrow> \<exists>rnd d'. dictGetRandomKey ty d rnd = Some (d', Some (t, ()))"
proof -
  have inv: "dict_inv ty d" "dom (dict_map d) = S" using assms(1) by (simp_all add: dict_set_def)
  have "dictSize d \<noteq> 0" "dictSize d < 2 ^ 31" using dict_set_size [OF assms(1)] assms by auto
  note R = dictGetRandomKey_correct [OF inv(1) this]
  have ent: "fst ` set (entries d) = S" using inv(2) by (auto simp: dict_map_def dom_map_of_conv_image_fst)
  show "\<exists>t \<in> S. de = Some (t, ()) \<and> dict_set ty d' S" if r: "dictGetRandomKey ty d rnd = Some (d', de)"
  proof -
    obtain kv where kv: "kv \<in> set (entries d)" "de = Some kv" "dict_inv ty d'" "dict_map d' = dict_map d"
      using R r by blast
    then have "fst kv \<in> S" using ent by blast
    then show ?thesis using kv inv(2) by (cases kv) (auto simp: dict_set_def)
  qed
  show "\<exists>rnd d'. dictGetRandomKey ty d rnd = Some (d', Some (t, ()))" if "t \<in> S"
  proof -
    have "t \<in> fst ` set (entries d)" using that ent by simp
    then have "(t, ()) \<in> set (entries d)" by auto
    then show ?thesis using R by blast
  qed
qed

lemma dictDelete_set:
  "dict_set ty d S \<Longrightarrow> \<exists>d'. dictDelete ty d t = Some (d', t \<in> S) \<and> dict_set ty d' (S - {t})"
  by (rule dict_fs.del_law) simp_all

lemma rand_remove_ok:
  "\<lbrakk>rand_remove e rnds n m d = Some d'; dict_set (setDictType (e_seed e)) d S; finite S; card S = n; m \<le> n; n \<le> 2 ^ 29\<rbrakk>
   \<Longrightarrow> \<exists>T \<subseteq> S. card T = m \<and> dict_set (setDictType (e_seed e)) d' T"
proof (induction rnds arbitrary: n d S)
  case (Cons rnd rnds)
  show ?case
  proof (cases "n > m")
    case False
    then show ?thesis using Cons.prems by auto
  next
    case True
    then obtain d1 kv d2 b where r: "dictGetRandomKey (setDictType (e_seed e)) d rnd = Some (d1, Some kv)"
      "dictDelete (setDictType (e_seed e)) d1 (fst kv) = Some (d2, b)" "rand_remove e rnds (n - 1) m d2 = Some d'"
      using Cons.prems(1) by (auto simp: bind_eq_Some_conv split: option.splits)
    have "S \<noteq> {}" using True Cons.prems(4) by auto
    then obtain t where t: "t \<in> S" "kv = (t, ())" "dict_set (setDictType (e_seed e)) d1 S"
      using random_key_set(1) [OF Cons.prems(2) _ _ Cons.prems(3) r(1)] Cons.prems(4,6) by auto
    have d2: "dict_set (setDictType (e_seed e)) d2 (S - {t})"
      using dictDelete_set [OF t(3), of t] r(2) t(2) by simp
    have "\<exists>T \<subseteq> S - {t}. card T = m \<and> dict_set (setDictType (e_seed e)) d' T"
      by (rule Cons.IH [OF r(3) d2]) (use Cons.prems t(1) True in auto)
    then show ?thesis by blast
  qed
qed (auto split: if_splits)

lemma rand_remove_exists:
  "\<lbrakk>dict_set (setDictType (e_seed e)) d S; finite S; card S = n; n \<le> 2 ^ 29\<rbrakk>
   \<Longrightarrow> \<exists>rnds d'. rand_remove e rnds n m d = Some d'"
proof (induction n arbitrary: d S)
  case 0
  then show ?case by (intro exI [of _ "[]"]) simp
next
  case (Suc n)
  show ?case
  proof (cases "Suc n > m")
    case False
    then show ?thesis by (intro exI [of _ "[]"]) simp
  next
    case True
    have ne: "S \<noteq> {}" using Suc.prems(3) by auto
    then obtain t where t: "t \<in> S" by blast
    have c: "card S \<le> 2 ^ 29" using Suc.prems(3,4) by simp
    obtain rnd d1 where r: "dictGetRandomKey (setDictType (e_seed e)) d rnd = Some (d1, Some (t, ()))"
      using random_key_set(2) [OF Suc.prems(1) ne c Suc.prems(2) t] by blast
    then have d1: "dict_set (setDictType (e_seed e)) d1 S"
      using random_key_set(1) [OF Suc.prems(1) ne c Suc.prems(2) r] by simp
    obtain d2 where d2: "dictDelete (setDictType (e_seed e)) d1 t = Some (d2, True)"
      "dict_set (setDictType (e_seed e)) d2 (S - {t})"
      using dictDelete_set [OF d1, of t] t by auto
    obtain rnds d' where "rand_remove e rnds n m d2 = Some d'"
      using Suc.IH [OF d2(2)] Suc.prems t by auto
    then show ?thesis using r d2(1) True by (intro exI [of _ "rnd # rnds"]) simp
  qed
qed

lemma rand_sample_ok:
  assumes "st_keys a k = Some (VSet S)" "S \<noteq> {}" "card S \<le> 2 ^ 29"
  shows "\<lbrakk>rand_sample e k rnds n m d st = Some (d', st'); db_rel e st a; dict_set (setDictType (e_seed e)) d T;
    T \<subseteq> S; card T = n; n \<le> m; m \<le> card S\<rbrakk> \<Longrightarrow>
    db_rel e st' a \<and> (\<exists>T' \<subseteq> S. card T' = m \<and> dict_set (setDictType (e_seed e)) d' T')"
proof (induction rnds arbitrary: n d st T)
  case (Cons rnd rnds)
  show ?case
  proof (cases "n < m")
    case False
    then show ?thesis using Cons.prems by auto
  next
    case True
    from Cons.prems(1) True obtain ob ob' x where x: "objectAt st k = Some ob"
      "setTypeRandomElement e rnd ob = Some (ob', x)"
      by (auto simp: bind_eq_Some_conv)
    note D = draw_ok [OF Cons.prems(2) assms x]
    have fin: "finite S" using assms(2,3) Cons.prems(7) True by (metis card.infinite not_less_zero le_zero_eq less_le_trans)
    have "card T < 2 ^ 29" using Cons.prems(5,7) True assms(3) by simp
    from ht_add_ok [OF Cons.prems(3) this, of "ele_text x"] obtain d1 where
      d1: "dictAdd (setDictType (e_seed e)) (e_resize e) d (ele_text x) () = Some (d1, ele_text x \<notin> T)"
        "dict_set (setDictType (e_seed e)) d1 (insert (ele_text x) T)" by blast
    let ?n = "if ele_text x \<notin> T then n + 1 else n"
    have "rand_sample e k rnds ?n m d1 (storeObject k ob' st) = Some (d', st')"
      using Cons.prems(1) True x d1(1) D by (simp add: ele_object_text [of ob' x] Let_def cong: if_cong)
    from Cons.IH [OF this _ d1(2)] D Cons.prems(4,5,6,7) True finite_subset [OF Cons.prems(4) fin]
    show ?thesis by (auto simp: insert_absorb)
  qed
qed (auto split: if_splits)

lemma rand_sample_exists:
  assumes "st_keys a k = Some (VSet S)" "S \<noteq> {}" "card S \<le> 2 ^ 29" "finite S" "m \<le> card S"
  shows "\<lbrakk>db_rel e st a; dict_set (setDictType (e_seed e)) d T; T \<subseteq> S; card T = n; j = m - n\<rbrakk> \<Longrightarrow>
    \<exists>rnds d' st'. rand_sample e k rnds n m d st = Some (d', st')"
proof (induction j arbitrary: n d st T)
  case 0
  then show ?case by (intro exI [of _ "[]"]) simp
next
  case (Suc j)
  have "card T < card S" using Suc.prems(4,5) assms(5) by simp
  then have "T \<noteq> S" by auto
  then obtain t where t: "t \<in> S" "t \<notin> T" using Suc.prems(3) by blast
  obtain ob rnd ob' x where x: "objectAt st k = Some ob" "setTypeRandomElement e rnd ob = Some (ob', x)" "ele_text x = t"
    using draw_exists [OF Suc.prems(1) assms(1-3) t(1)] by blast
  note D = draw_ok [OF Suc.prems(1) assms(1-3) x(1,2)]
  have "card T < 2 ^ 29" using \<open>card T < card S\<close> assms(3) by simp
  from ht_add_ok [OF Suc.prems(2) this, of t] t(2) obtain d1 where
    d1: "dictAdd (setDictType (e_seed e)) (e_resize e) d t () = Some (d1, True)"
      "dict_set (setDictType (e_seed e)) d1 (insert t T)" by auto
  have j: "j = m - (n + 1)" using Suc.prems(5) by simp
  have "finite T" using Suc.prems(3) assms(4) by (rule finite_subset)
  then have c: "card (insert t T) = n + 1" using t(2) Suc.prems(4) by simp
  obtain rnds d' st' where "rand_sample e k rnds (n + 1) m d1 (storeObject k ob' st) = Some (d', st')"
    using Suc.IH [OF conjunct1 [OF D] d1(2) _ c] t(1) Suc.prems(3) j by auto
  then show ?case using x d1(1) D Suc.prems(5)
    by (intro exI [of _ "rnd # rnds"]) (simp add: ele_object_text [of ob' x])
qed

lemma fold_bulks:
  "fold (\<lambda>de. addReply (Bulk (fst de))) es a = a_bulks (map fst es) a"
  by (induction es arbitrary: a) (simp_all add: a_bulks_def addReply_def on_srv_def)

lemma db_rel_fold_bulks:
  "db_rel e st a \<Longrightarrow> db_rel e (fold (\<lambda>de. addReply (Bulk (fst de))) es st) (fold (\<lambda>de. addReply (Bulk (fst de))) es a)"
  by (induction es arbitrary: st a) auto

lemma rand_reply_ok:
  assumes "db_rel e st a" "dict_set ty d T" "card T = m"
  shows "ok (rand_reply m d st) (\<lambda>st'. \<exists>ts. length ts = m \<and> distinct ts \<and> set ts = T \<and> db_rel e st' (a_members_reply ts a))"
proof -
  have inv: "dict_inv ty d" "dom (dict_map d) = T" using assms(2) by (simp_all add: dict_set_def)
  have n: "length (it_rest d dictGetIterator) < dictSize d + 1"
    using dictSize_entries [OF inv(1)] by (simp add: it_rest_start)
  obtain d' it' where "iterate (dictSize d + 1) d dictGetIterator = Some (d', it', entries d)"
    using iterate_correct [OF inv(1) it_ok_start(1) n] by (auto simp: it_rest_start)
  moreover have d: "distinct (map fst (entries d))" using inv(1) by (simp add: dict_inv_def)
  moreover have s: "set (map fst (entries d)) = T"
    using inv(2) by (auto simp: dict_map_def dom_map_of_conv_image_fst)
  moreover have "length (map fst (entries d)) = m" using distinct_card [OF d] s assms(3) by simp
  moreover have "db_rel e (fold (\<lambda>de. addReply (Bulk (fst de))) (entries d) (addReply (MultiBulk (int m)) st))
      (a_bulks (map fst (entries d)) (addReply (MultiBulk (int m)) a))"
    unfolding fold_bulks [symmetric] using assms(1) by (auto intro: db_rel_fold_bulks)
  ultimately show ?thesis unfolding rand_reply_def a_members_reply_def
    by (simp del: length_map set_map) (intro exI [of _ "map fst (entries d)"], simp)
qed

section \<open>\<open>SRANDMEMBER\<close> refines its specification\<close>

lemma single_union:
  assumes "\<not> wrong_type (a_look e k a)" "a_sunion_diff e [k] None REDIS_OP_UNION a c"
  shows "a_reply_set (members (a_look e k a)) (a_read e k a) c"
proof -
  have "a_visit e False k a = a_read e k a" by (simp add: a_visit_def)
  moreover have "union_of (a_read e k a) [k] = members (a_look e k a)"
    by (simp add: union_of_def a_look_def)
  ultimately show ?thesis using assms by (simp add: a_sunion_diff_def a_set_result_def Let_def)
qed

text \<open>The part of the command behind the lookup: the four cases.\<close>

lemma srandmember_cases:
  assumes "db_rel e s (a_read e k a)" "a_look e k a = Some (VSet S)" "obj_rep (e_seed e) ob (VSet S)"
    and "sets_ok a" "card S \<le> 2 ^ 29 - 1" "room 1 a"
    and "run = (\<lambda>rnds. if n = 0 then Some (addReply shared_emptymultibulk s)
                  else if \<not> uniq then rand_repeat e k rnds n (addReply (MultiBulk (int n)) s)
                  else if n \<ge> card S then sunionDiffGenericCommand e [k] None REDIS_OP_UNION s
                  else if n * 3 > card S then do {
                    si \<leftarrow> setTypeInitIterator ob;
                    d \<leftarrow> set_foreach (card S + 1) ob si (rand_copy e) dictCreate;
                    if dictSize d \<noteq> card S then None
                    else do { d \<leftarrow> rand_remove e rnds (card S) n d; rand_reply n d s } }
                  else do { (d, st) \<leftarrow> rand_sample e k rnds 0 n dictCreate s; rand_reply n d st })"
    and "l < 0 \<Longrightarrow> n = nat (- l) \<and> \<not> uniq" "l \<ge> 0 \<Longrightarrow> n = to_uint32 l \<and> uniq"
  shows "(\<forall>rnds st'. run rnds = Some st' \<longrightarrow> (\<exists>c. a_srandmember_count e k l a c \<and> db_rel e st' c)) \<and>
    (\<exists>rnds st'. run rnds = Some st')"
proof -
  let ?b = "a_read e k a"
  have look: "st_keys ?b k = Some (VSet S)" using assms(2) by (simp add: a_look_def)
  have ne: "S \<noteq> {}" using look_keys [OF assms(2)] assms(4) by (auto simp: sets_ok_def)
  have fin: "finite S" by (rule set_obj_finite [OF assms(3)])
  have c29: "card S \<le> 2 ^ 29" using assms(5) by simp
  have spec: "a_srandmember_count e k l a c \<longleftrightarrow>
      (if l < 0 then \<exists>ts. length ts = nat (- l) \<and> set ts \<subseteq> S \<and> c = a_members_reply ts ?b
       else if n = 0 then c = addReply shared_emptymultibulk ?b
       else if n \<ge> card S then a_reply_set S (a_read e k ?b) c
       else \<exists>ts. length ts = n \<and> distinct ts \<and> set ts \<subseteq> S \<and> c = a_members_reply ts ?b)" for c
    using assms(2,9) by (auto simp: a_srandmember_count_def wrong_type_def members_def Let_def)
  consider (zero) "n = 0" | (repeat) "n \<noteq> 0" "\<not> uniq" | (all) "n \<noteq> 0" "uniq" "card S \<le> n"
    | (remove) "n \<noteq> 0" "uniq" "n < card S" "card S < n * 3" | (sample) "n \<noteq> 0" "uniq" "n < card S" "n * 3 \<le> card S"
    by linarith
  then show ?thesis
  proof cases
    case zero
    then have "l \<ge> 0" using assms(8) by force
    then show ?thesis using zero assms(1) by (auto simp: assms(7) spec)
  next
    case repeat
    have rel: "db_rel e (addReply (MultiBulk (int n)) s) (addReply (MultiBulk (int n)) ?b)" using assms(1) by auto
    have keys: "st_keys (addReply (MultiBulk (int n)) ?b) k = Some (VSet S)" using look by simp
    have "l < 0" using repeat assms(9) by force
    with assms(8) have n: "n = nat (- l)" by blast
    have run: "run = (\<lambda>rnds. rand_repeat e k rnds n (addReply (MultiBulk (int n)) s))"
      using repeat by (simp add: assms(7) fun_eq_iff)
    have "\<exists>c. a_srandmember_count e k l a c \<and> db_rel e st' c" if r: "run rnds = Some st'" for rnds st'
    proof -
      obtain ts where "length ts = n" "set ts \<subseteq> S" "db_rel e st' (a_bulks ts (addReply (MultiBulk (int n)) ?b))"
        using rand_repeat_ok [OF keys ne c29 rel r [unfolded run]] by blast
      then show ?thesis using \<open>l < 0\<close> n by (auto simp: spec a_members_reply_def)
    qed
    then show ?thesis using rand_repeat_exists [OF keys ne c29 rel, of n] unfolding run by blast
  next
    case all
    then have "l \<ge> 0" using assms(8) by force
    have look2: "a_look e k ?b = Some (VSet S)" using assms(2) a_look_visit_any [of e k False k a] by (simp add: a_visit_def)
    have "ok (sunionDiffGenericCommand e [k] None REDIS_OP_UNION s) (\<lambda>st'. \<exists>c. a_sunion_diff e [k] None REDIS_OP_UNION ?b c \<and> db_rel e st' c)"
      by (rule sunion_diff_ok [OF assms(1)])
        (use assms(4,5,6) look2 room_read in \<open>auto simp: members_def sets_ok_def split: if_splits\<close>)
    then obtain st' c where c: "sunionDiffGenericCommand e [k] None REDIS_OP_UNION s = Some st'"
      "a_sunion_diff e [k] None REDIS_OP_UNION ?b c" "db_rel e st' c" unfolding ok_iff by blast
    have "a_reply_set S (a_read e k ?b) c"
      using single_union [OF _ c(2)] look2 by (simp add: wrong_type_def members_def)
    then have "a_srandmember_count e k l a c" using all \<open>l \<ge> 0\<close> by (simp add: spec)
    moreover have "run = (\<lambda>rnds. Some st')" using all c(1) by (simp add: assms(7) fun_eq_iff)
    ultimately show ?thesis using c(3) by auto
  next
    case remove
    then have l: "l \<ge> 0" using assms(8) by force
    obtain si where si: "setTypeInitIterator ob = Some si" using setTypeInitIterator_ok [OF assms(3)] by blast
    obtain d where d: "set_foreach (card S + 1) ob si (rand_copy e) dictCreate = Some d"
      "dict_set (setDictType (e_seed e)) d S"
      using rand_copy_all [OF assms(3) c29 si] by (auto simp: ok_iff)
    have run: "run = (\<lambda>rnds. do { d \<leftarrow> rand_remove e rnds (card S) n d; rand_reply n d s })"
      using remove si d(1) dict_set_size [OF d(2)] by (simp add: assms(7) fun_eq_iff del: One_nat_def)
    have fwd: "ok (rand_reply n d' s) (\<lambda>st'. \<exists>c. a_srandmember_count e k l a c \<and> db_rel e st' c)"
      if r: "rand_remove e rnds (card S) n d = Some d'" for rnds d'
    proof -
      obtain T where T: "T \<subseteq> S" "card T = n" "dict_set (setDictType (e_seed e)) d' T"
        using rand_remove_ok [OF r d(2) fin refl _ c29] remove by auto
      show ?thesis by (rule ok_mono [OF rand_reply_ok [OF assms(1) T(3,2)]]) (use l remove T(1) in \<open>auto simp: spec\<close>)
    qed
    obtain rnds d' where r: "rand_remove e rnds (card S) n d = Some d'"
      using rand_remove_exists [OF d(2) fin refl c29] by blast
    show ?thesis using fwd r unfolding run ok_iff by (fastforce simp: bind_eq_Some_conv)
  next
    case sample
    then have l: "l \<ge> 0" using assms(8) by force
    have run: "run = (\<lambda>rnds. do { (d, st) \<leftarrow> rand_sample e k rnds 0 n dictCreate s; rand_reply n d st })"
      using sample by (simp add: assms(7) fun_eq_iff)
    have d0: "dict_set (setDictType (e_seed e)) dictCreate {}"
      by (simp add: dict_set_def dict_inv_create dict_map_create)
    have fwd: "ok (rand_reply n d' s') (\<lambda>st'. \<exists>c. a_srandmember_count e k l a c \<and> db_rel e st' c)"
      if r: "rand_sample e k rnds 0 n dictCreate s = Some (d', s')" for rnds d' s'
    proof -
      obtain T where T: "db_rel e s' ?b" "T \<subseteq> S" "card T = n" "dict_set (setDictType (e_seed e)) d' T"
        using rand_sample_ok [OF look ne c29 r assms(1) d0] sample by auto
      show ?thesis by (rule ok_mono [OF rand_reply_ok [OF T(1,4,3)]]) (use l sample T(2) in \<open>auto simp: spec\<close>)
    qed
    obtain rnds d' s' where r: "rand_sample e k rnds 0 n dictCreate s = Some (d', s')"
      using rand_sample_exists [OF look ne c29 fin _ assms(1) d0, of n 0] sample by auto
    show ?thesis using fwd r unfolding run ok_iff by (fastforce simp: bind_eq_Some_conv)
  qed
qed

lemma srandmember_count_ok:
  assumes "db_rel e st a" "sets_ok a" "room 1 a" "fits 0 (a_look e k a)"
    and "arg_rep arg t" "parse_ll t = Some l" "l \<noteq> - (2 ^ 63)"
  shows "(\<forall>rnds st'. srandmemberWithCountCommand e rnds k arg st = Some st' \<longrightarrow>
      (\<exists>c. a_srandmember_count e k l a c \<and> db_rel e st' c)) \<and>
    (\<exists>rnds st'. srandmemberWithCountCommand e rnds k arg st = Some st')"
proof -
  have r: "in_sbytes 8 l" by (rule parse_ll_range [OF assms(6)])
  have g: "getLongFromObjectOrReply st (Some (StrRaw arg)) None = Some (st, Some l)"
    using getLongOrReply_eval [OF arg_obj_rep [OF assms(5), of "e_seed e"]] assms(6) by simp
  obtain n uniq where c: "srandmember_count l = Some (n, uniq)"
    "l < 0 \<Longrightarrow> n = nat (- l) \<and> \<not> uniq" "l \<ge> 0 \<Longrightarrow> n = to_uint32 l \<and> uniq"
    using r assms(7) by (cases "l \<ge> 0") (auto simp: srandmember_count_def c_llong_def in_sbytes_def)
  obtain s r where look: "lookupKeyReadOrReply e st k shared_emptymultibulk = Some (s, r)"
    and s: "db_rel e s (if a_look e k a = None then addReply shared_emptymultibulk (a_read e k a) else a_read e k a)"
    and r: "rel_option (obj_rep (e_seed e)) r (a_look e k a)"
    using lookupKeyReadOrReply_ok [OF assms(1), of k shared_emptymultibulk] by (auto simp: ok_iff)
  note run = srandmemberWithCountCommand_def [of e _ k arg st,
      unfolded g bind.bind_lunit prod.case option.case c(1) look]
  show ?thesis
  proof (cases rule: set_cases [OF r])
    case 1
    then show ?thesis using s by (auto simp: run a_srandmember_count_def Let_def)
  next
    case (3 ob t)
    then show ?thesis using s by (auto simp: run a_srandmember_count_def Let_def checkType_set)
  next
    case (2 ob S)
    have "db_rel e s (a_read e k a)" using s 2(4) by simp
    moreover have "card S \<le> 2 ^ 29 - 1" using assms(4) 2(5) by (simp add: fits_def)
    ultimately show ?thesis
      using srandmember_cases [OF _ 2(4) 2(3) assms(2) _ assms(3) refl c(2,3)] 2(1,2)
      by (simp add: run checkType_set setTypeSize_ok [OF 2(3)] del: One_nat_def)
  qed
qed

lemma srandmember_ok:
  assumes "db_rel e st a" "sets_ok a" "fits 0 (a_look e k a)"
  shows "(\<forall>rnds st'. srandmemberCommand e rnds k [] st = Some st' \<longrightarrow>
      (\<exists>c. a_srandmember e k a c \<and> db_rel e st' c)) \<and>
    (\<exists>rnds st'. srandmemberCommand e rnds k [] st = Some st')"
proof -
  obtain s r where look: "lookupKeyReadOrReply e st k shared_nullbulk = Some (s, r)"
    and s: "db_rel e s (if a_look e k a = None then addReply shared_nullbulk (a_read e k a) else a_read e k a)"
    and r: "rel_option (obj_rep (e_seed e)) r (a_look e k a)"
    using lookupKeyReadOrReply_ok [OF assms(1), of k shared_nullbulk] by (auto simp: ok_iff)
  note run = srandmemberCommand_def [of e _ k "[]" st, unfolded list.case look bind.bind_lunit prod.case]
  show ?thesis
  proof (cases rule: set_cases [OF r])
    case 1
    then show ?thesis using s by (auto simp: run a_srandmember_def Let_def)
  next
    case (3 ob t)
    then show ?thesis using s by (auto simp: run a_srandmember_def Let_def checkType_set)
  next
    case (2 ob S)
    have rel: "db_rel e s (a_read e k a)" using s 2(4) by simp
    have look2: "st_keys (a_read e k a) k = Some (VSet S)" using 2(4) by (simp add: a_look_def)
    have ne: "S \<noteq> {}" using look_keys [OF 2(4)] assms(2) by (auto simp: sets_ok_def)
    have c29: "card S \<le> 2 ^ 29" using assms(3) 2(5) by (simp add: fits_def)
    have 1: "\<exists>c. a_srandmember e k a c \<and> db_rel e st' c \<and> srandmemberCommand e (rnd # rnds) k [] st = Some st'"
      if "setTypeRandomElement e rnd ob = Some (ob', x)" "st' = addReply (Bulk (ele_text x)) (storeObject k ob' s)" for rnd rnds ob' x st'
    proof -
      note R = setTypeRandomElement_ok(1) [OF 2(3) ne c29 that(1)]
      then have "db_rel e (storeObject k ob' s) (a_read e k a)"
        using storeObject_ok [OF rel, of k ob' "VSet S"] a_put_same [OF look2] look2 by auto
      then show ?thesis using R that 2 ele_print_ok [of ob' x]
        by (auto simp: run a_srandmember_def checkType_set Let_def intro!: exI [of _ "addReply (Bulk (ele_text x)) (a_read e k a)"])
    qed
    have 2: "\<exists>rnd rnds' ob' x. rnds = rnd # rnds' \<and> setTypeRandomElement e rnd ob = Some (ob', x)"
      if "srandmemberCommand e rnds k [] st = Some st'" for rnds st'
      using that 2(1,2) by (auto simp: run checkType_set bind_eq_Some_conv split: list.splits)
    obtain t where "t \<in> S" using ne by blast
    then obtain rnd ob' x where "setTypeRandomElement e rnd ob = Some (ob', x)"
      using setTypeRandomElement_ok(2) [OF \<open>obj_rep (e_seed e) ob (VSet S)\<close> ne c29] by blast
    with 1 2 show ?thesis by (metis option.inject)
  qed
qed

end
