(* ===== verification/Commands.thy ===== *)
theory Commands
  imports TSetRand Bitops
begin

text \<open>
  The command table of \<open>redis.c\<close>, restricted to the modelled commands on keys
  (the transaction commands are in \<open>Server\<close>).  A command gets its argument vector, the name included, as the strings the protocol
  created, and the random numbers it may draw.  Beside the table of the code stands the table of
  the specifications; \<open>table_refines\<close> says that they agree row by row.
\<close>

section \<open>The code\<close>

type_synonym proc = "env \<Rightarrow> nat list list \<Rightarrow> sds list \<Rightarrow> db \<Rightarrow> db option"

text \<open>\<open>c->argv[i]->ptr\<close>, and its text.\<close>

definition argv_at :: "sds list \<Rightarrow> nat \<Rightarrow> sds option" where
  "argv_at av i = (if i < length av then Some (av ! i) else None)"

definition key_at :: "sds list \<Rightarrow> nat \<Rightarrow> byte list option" where
  "key_at av i = do { s \<leftarrow> argv_at av i; sds_text s }"

definition keys_from :: "sds list \<Rightarrow> nat \<Rightarrow> byte list list option" where
  "keys_from av i = those (map sds_text (drop i av))"

text \<open>Procedures with a key, with a key and one, two or more arguments.\<close>

definition proc_k :: "(env \<Rightarrow> byte list \<Rightarrow> db \<Rightarrow> db option) \<Rightarrow> proc" where
  "proc_k f e rnd av st = do { k \<leftarrow> key_at av 1; f e k st }"

definition proc_kv :: "(env \<Rightarrow> byte list \<Rightarrow> sds \<Rightarrow> db \<Rightarrow> db option) \<Rightarrow> proc" where
  "proc_kv f e rnd av st = do { k \<leftarrow> key_at av 1; v \<leftarrow> argv_at av 2; f e k v st }"

definition proc_kvv :: "(env \<Rightarrow> byte list \<Rightarrow> sds \<Rightarrow> sds \<Rightarrow> db \<Rightarrow> db option) \<Rightarrow> proc" where
  "proc_kvv f e rnd av st = do { k \<leftarrow> key_at av 1; v \<leftarrow> argv_at av 2; w \<leftarrow> argv_at av 3; f e k v w st }"

definition proc_kk :: "(env \<Rightarrow> byte list \<Rightarrow> byte list \<Rightarrow> db \<Rightarrow> db option) \<Rightarrow> proc" where
  "proc_kk f e rnd av st = do { k \<leftarrow> key_at av 1; j \<leftarrow> key_at av 2; f e k j st }"

definition proc_kkk :: "(env \<Rightarrow> byte list \<Rightarrow> byte list \<Rightarrow> byte list \<Rightarrow> db \<Rightarrow> db option) \<Rightarrow> proc" where
  "proc_kkk f e rnd av st = do { k \<leftarrow> key_at av 1; j \<leftarrow> key_at av 2; i \<leftarrow> key_at av 3; f e k j i st }"

definition proc_ks :: "(env \<Rightarrow> byte list list \<Rightarrow> db \<Rightarrow> db option) \<Rightarrow> proc" where
  "proc_ks f e rnd av st = do { ks \<leftarrow> keys_from av 1; f e ks st }"

definition proc_kks :: "(env \<Rightarrow> byte list \<Rightarrow> byte list list \<Rightarrow> db \<Rightarrow> db option) \<Rightarrow> proc" where
  "proc_kks f e rnd av st = do { k \<leftarrow> key_at av 1; ks \<leftarrow> keys_from av 2; f e k ks st }"

definition pingCommand :: "db \<Rightarrow> db option" where
  "pingCommand st = Some (addReply (Status ''PONG'') st)"

definition echoCommand :: "sds \<Rightarrow> db \<Rightarrow> db option" where
  "echoCommand s st = addReplyBulk (StrRaw s) st"

record 'p command =
  c_name :: string
  c_proc :: 'p
  c_arity :: int
  c_sflags :: string

definition row :: "string \<Rightarrow> 'p \<Rightarrow> int \<Rightarrow> string \<Rightarrow> 'p command" where
  "row n p a f = \<lparr>c_name = n, c_proc = p, c_arity = a, c_sflags = f\<rparr>"

text \<open>The rows of the modelled commands, in the order of the table; the rows between them are left out.\<close>

definition stringCommandRows :: "proc command list" where
  "stringCommandRows =
    [row ''get'' (proc_k getCommand) 2 ''r'',
     row ''set'' (proc_kv setCommand) 3 ''wm'',
     row ''setnx'' (proc_kv setnxCommand) 3 ''wm'',
     row ''setex'' (proc_kvv setexCommand) 4 ''wm'',
     row ''psetex'' (proc_kvv psetexCommand) 4 ''wm'',
     row ''append'' (proc_kv appendCommand) 3 ''wm'',
     row ''strlen'' (proc_k strlenCommand) 2 ''r'',
     row ''del'' (proc_ks delCommand) (- 2) ''w'',
     row ''exists'' (proc_k existsCommand) 2 ''r'',
     row ''setbit'' (proc_kvv setbitCommand) 4 ''wm'',
     row ''getbit'' (proc_kv getbitCommand) 3 ''r'',
     row ''setrange'' (proc_kvv setrangeCommand) 4 ''wm'',
     row ''getrange'' (proc_kvv getrangeCommand) 4 ''r'',
     row ''substr'' (proc_kvv getrangeCommand) 4 ''r'',
     row ''incr'' (proc_k incrCommand) 2 ''wm'',
     row ''decr'' (proc_k decrCommand) 2 ''wm'',
     row ''mget'' (proc_ks mgetCommand) (- 2) ''r'']"

definition setCommandRows :: "proc command list" where
  "setCommandRows =
    [row ''sadd'' (proc_kks saddCommand) (- 3) ''wm'',
     row ''srem'' (proc_kks sremCommand) (- 3) ''w'',
     row ''smove'' (proc_kkk smoveCommand) 4 ''w'',
     row ''sismember'' (proc_kk sismemberCommand) 3 ''r'',
     row ''scard'' (proc_k scardCommand) 2 ''r'',
     row ''spop'' (\<lambda>e rnd. proc_k (\<lambda>e. spopCommand e (concat rnd)) e rnd) 2 ''wRs'',
     row ''srandmember'' (\<lambda>e rnd av st. do { k \<leftarrow> key_at av 1; srandmemberCommand e rnd k (drop 2 av) st }) (- 2) ''rR'',
     row ''sinter'' (proc_ks sinterCommand) (- 2) ''rS'',
     row ''sinterstore'' (proc_kks sinterstoreCommand) (- 3) ''wm'',
     row ''sunion'' (proc_ks sunionCommand) (- 2) ''rS'',
     row ''sunionstore'' (proc_kks sunionstoreCommand) (- 3) ''wm'',
     row ''sdiff'' (proc_ks sdiffCommand) (- 2) ''rS'',
     row ''sdiffstore'' (proc_kks sdiffstoreCommand) (- 3) ''wm'',
     row ''smembers'' (proc_ks sinterCommand) 2 ''rS'']"

definition counterCommandRows :: "proc command list" where
  "counterCommandRows =
    [row ''incrby'' (proc_kv incrbyCommand) 3 ''wm'',
     row ''decrby'' (proc_kv decrbyCommand) 3 ''wm'',
     row ''getset'' (proc_kv getsetCommand) 3 ''wm'',
     row ''mset'' (\<lambda>e rnd av. msetGenericCommand e (drop 1 av) False) (- 3) ''wm'',
     row ''msetnx'' (\<lambda>e rnd av. msetGenericCommand e (drop 1 av) True) (- 3) ''wm'']"

definition keyCommandRows :: "proc command list" where
  "keyCommandRows =
    [row ''randomkey'' (\<lambda>e rnd av. randomkeyCommand e rnd) 1 ''rR'',
     row ''rename'' (proc_kk renameCommand) 3 ''w'',
     row ''renamenx'' (proc_kk renamenxCommand) 3 ''w'',
     row ''expire'' (proc_kv (\<lambda>e k v. expireCommand e k (StrRaw v))) 3 ''w'',
     row ''expireat'' (proc_kv (\<lambda>e k v. expireatCommand e k (StrRaw v))) 3 ''w'',
     row ''pexpire'' (proc_kv (\<lambda>e k v. pexpireCommand e k (StrRaw v))) 3 ''w'',
     row ''pexpireat'' (proc_kv (\<lambda>e k v. pexpireatCommand e k (StrRaw v))) 3 ''w'']"

definition serverCommandRows :: "proc command list" where
  "serverCommandRows =
    [row ''dbsize'' (\<lambda>e rnd av. dbsizeCommand) 1 ''r'',
     row ''ping'' (\<lambda>e rnd av. pingCommand) 1 ''r'',
     row ''echo'' (\<lambda>e rnd av st. do { s \<leftarrow> argv_at av 1; echoCommand s st }) 2 ''r'',
     row ''type'' (proc_k typeCommand) 2 ''r'']"

definition ttlCommandRows :: "proc command list" where
  "ttlCommandRows =
    [row ''flushdb'' (\<lambda>e rnd av. flushdbCommand) 1 ''w'',
     row ''ttl'' (proc_k ttlCommand) 2 ''r'',
     row ''pttl'' (proc_k pttlCommand) 2 ''r'',
     row ''persist'' (proc_k persistCommand) 2 ''w'']"

definition bitCommandRows :: "proc command list" where
  "bitCommandRows =
    [row ''bitop'' (\<lambda>e rnd av st. do { n \<leftarrow> key_at av 1; k \<leftarrow> key_at av 2; ks \<leftarrow> keys_from av 3; bitopCommand e n k ks st }) (- 4) ''wm'',
     row ''bitcount'' (\<lambda>e rnd av st. do { k \<leftarrow> key_at av 1; bitcountCommand e k (drop 2 av) st }) (- 2) ''r'']"

definition redisCommandTable :: "proc command list" where
  "redisCommandTable = stringCommandRows @ setCommandRows @ counterCommandRows @ keyCommandRows
     @ serverCommandRows @ ttlCommandRows @ bitCommandRows"

lemmas redisCommandTable_rows = redisCommandTable_def stringCommandRows_def setCommandRows_def counterCommandRows_def keyCommandRows_def serverCommandRows_def ttlCommandRows_def bitCommandRows_def
  append.simps

text \<open>The test of the number of arguments in \<open>processCommand\<close>.\<close>

definition wrong_arity :: "int \<Rightarrow> nat \<Rightarrow> bool" where
  "wrong_arity arity argc \<longleftrightarrow> arity > 0 \<and> arity \<noteq> int argc \<or> int argc < - arity"

section \<open>The specification\<close>

text \<open>
  A specification row: the condition on the arguments under which the code's arithmetic stays in
  range, and what the command may do to the maps.
\<close>

type_synonym acond = "env \<Rightarrow> byte list list \<Rightarrow> adb \<Rightarrow> bool"
type_synonym aspec = "env \<Rightarrow> byte list list \<Rightarrow> adb \<Rightarrow> adb \<Rightarrow> bool"

record acommand =
  a_name :: string
  a_arity :: int
  a_cond :: acond
  a_spec :: aspec

definition arow :: "string \<Rightarrow> int \<Rightarrow> acond \<Rightarrow> aspec \<Rightarrow> acommand" where
  "arow n ar p s = \<lparr>a_name = n, a_arity = ar, a_cond = p, a_spec = s\<rparr>"

definition printable :: "byte list \<Rightarrow> bool" where
  "printable t \<longleftrightarrow> t \<noteq> LLONG_MIN_text"

fun pairs :: "'a list \<Rightarrow> ('a \<times> 'a) list" where
  "pairs (x # y # xs) = (x, y) # pairs xs"
| "pairs _ = []"

definition c_any :: acond where "c_any e ts a \<longleftrightarrow> True"
definition c_room :: acond where "c_room e ts a \<longleftrightarrow> room 1 a"
definition c_value :: acond where "c_value e ts a \<longleftrightarrow> room 1 a \<and> printable (ts ! 2)"
definition c_ttl :: "time_unit \<Rightarrow> acond" where
  "c_ttl unit e ts a \<longleftrightarrow> room 1 a \<and> printable (ts ! 3) \<and> set_ttl_ok e (Some (ts ! 2)) unit"
definition c_expire :: "(env \<Rightarrow> int) \<Rightarrow> time_unit \<Rightarrow> acond" where
  "c_expire base unit e ts a \<longleftrightarrow> room 0 a \<and> expire_arg_ok (base e) unit (ts ! 2)"
definition c_clock :: acond where
  "c_clock e ts a \<longleftrightarrow> 0 \<le> e_now e \<and> e_now e < 2 ^ 62 \<and>
     (\<forall>w. st_expires a (ts ! 1) = Some w \<longrightarrow> - (2 ^ 62) \<le> w \<and> w < 2 ^ 62)"
definition c_getrange :: acond where
  "c_getrange e ts a \<longleftrightarrow> (\<forall>j. parse_ll (ts ! 3) = Some j \<longrightarrow> j < 2 ^ 32)"
definition c_setrange :: acond where
  "c_setrange e ts a \<longleftrightarrow> room 1 a \<and> (\<forall>i. parse_ll (ts ! 2) = Some i \<longrightarrow> i + int (length (ts ! 3)) < 2 ^ 63)"

text \<open>The counter does not become the least integer.\<close>

definition c_incr :: "(byte list list \<Rightarrow> int option) \<Rightarrow> acond" where
  "c_incr by1 e ts a \<longleftrightarrow> room 1 a \<and>
     (\<forall>d. by1 ts = Some d \<longrightarrow> d \<noteq> - (2 ^ 63) \<and> d \<noteq> 2 ^ 63 \<and>
        (\<forall>xs n. a_look e (ts ! 1) a = Some (VStr xs) \<longrightarrow> parse_ll xs = Some n \<longrightarrow> n + d \<noteq> - (2 ^ 63)))"
definition c_mset :: acond where
  "c_mset e ts a \<longleftrightarrow> room (length ts) a \<and> (\<forall>(k, v) \<in> set (pairs (tl ts)). printable v)"
definition c_sadd :: acond where
  "c_sadd e ts a \<longleftrightarrow> room 1 a \<and> (\<forall>t \<in> set (drop 2 ts). printable t) \<and> fits (length ts) (a_look e (ts ! 1) a)"
definition c_smove :: acond where
  "c_smove e ts a \<longleftrightarrow> room 1 a \<and> printable (ts ! 3) \<and> fits 1 (a_look e (ts ! 2) a)"
definition c_spop :: acond where
  "c_spop e ts a \<longleftrightarrow> room 1 a \<and> fits 0 (a_look e (ts ! 1) a) \<and> parse_ll (ts ! 2) \<noteq> Some (- (2 ^ 63))"
definition c_inter :: "nat \<Rightarrow> acond" where
  "c_inter i e ts a \<longleftrightarrow> room 1 a \<and> (\<forall>k \<in> set (drop i ts). fits 0 (a_look e k a))"
definition c_union :: "nat \<Rightarrow> acond" where
  "c_union i e ts a \<longleftrightarrow> room 1 a \<and> (\<Sum>k \<leftarrow> drop i ts. card (members (a_look e k a))) \<le> 2 ^ 29 - 1"
definition c_random :: acond where
  "c_random e ts a \<longleftrightarrow> room 0 a \<and> (st_keys a = Map.empty \<or> (\<exists>k. st_keys a k \<noteq> None \<and> \<not> expired e a k))"

definition s_incr :: "(int \<Rightarrow> int) \<Rightarrow> aspec" where
  "s_incr f e ts a c \<longleftrightarrow> c = (case parse_ll (ts ! 2) of
     None \<Rightarrow> addReply err_not_integer a | Some d \<Rightarrow> a_incr e (ts ! 1) (f d) a)"

definition s_mset :: "bool \<Rightarrow> aspec" where
  "s_mset nx e ts a c \<longleftrightarrow> c = (if length ts mod 2 = 0
     then addReply (Error ''wrong number of arguments for MSET'') a else a_mset e (pairs (tl ts)) nx a)"

definition s_spop :: aspec where
  "s_spop e ts a c \<longleftrightarrow> (\<exists>t. (members (a_look e (ts ! 1) a) \<noteq> {} \<longrightarrow> t \<in> members (a_look e (ts ! 1) a)) \<and>
     c = a_spop e (ts ! 1) t a)"

definition s_srandmember :: aspec where
  "s_srandmember e ts a c \<longleftrightarrow>
     (if length ts > 3 then c = addReply shared_syntaxerr a
      else if length ts = 3
      then (case parse_ll (ts ! 2) of
              None \<Rightarrow> c = addReply err_not_integer a
            | Some l \<Rightarrow> a_srandmember_count e (ts ! 1) l a c)
      else a_srandmember e (ts ! 1) a c)"

definition s_randomkey :: aspec where
  "s_randomkey e ts a c \<longleftrightarrow> (\<exists>ks. let b = fold (a_expire e) ks a in
     c = addReply NullBulk b \<and> st_keys b = Map.empty \<or>
     (\<exists>k. c = addReply (Bulk k) b \<and> st_keys b k \<noteq> None \<and> \<not> expired e b k))"

definition aCommandTable :: "acommand list" where
  "aCommandTable =
    [arow ''get'' 2 c_any (\<lambda>e ts a c. c = fst (a_getGeneric e (ts ! 1) a)),
     arow ''set'' 3 c_value (\<lambda>e ts a c. c = a_setGeneric e False (ts ! 1) (ts ! 2) None UNIT_SECONDS a),
     arow ''setnx'' 3 c_value (\<lambda>e ts a c. c = a_setGeneric e True (ts ! 1) (ts ! 2) None UNIT_SECONDS a),
     arow ''setex'' 4 (c_ttl UNIT_SECONDS)
       (\<lambda>e ts a c. c = a_setGeneric e False (ts ! 1) (ts ! 3) (Some (ts ! 2)) UNIT_SECONDS a),
     arow ''psetex'' 4 (c_ttl UNIT_MILLISECONDS)
       (\<lambda>e ts a c. c = a_setGeneric e False (ts ! 1) (ts ! 3) (Some (ts ! 2)) UNIT_MILLISECONDS a),
     arow ''append'' 3 c_value (\<lambda>e ts a c. c = a_append e (ts ! 1) (ts ! 2) a),
     arow ''strlen'' 2 c_any (\<lambda>e ts a c. c = a_strlen e (ts ! 1) a),
     arow ''del'' (- 2) c_any (\<lambda>e ts a c. c = a_delCommand (drop 1 ts) a),
     arow ''exists'' 2 c_any (\<lambda>e ts a c. c = a_existsCommand e (ts ! 1) a),
     arow ''setbit'' 4 c_room (\<lambda>e ts a c. c = a_setbit e (ts ! 1) (ts ! 2) (ts ! 3) a),
     arow ''getbit'' 3 c_any (\<lambda>e ts a c. c = a_getbit e (ts ! 1) (ts ! 2) a),
     arow ''setrange'' 4 c_setrange (\<lambda>e ts a c. c = a_setrange e (ts ! 1) (ts ! 2) (ts ! 3) a),
     arow ''getrange'' 4 c_getrange (\<lambda>e ts a c. c = a_getrange e (ts ! 1) (ts ! 2) (ts ! 3) a),
     arow ''substr'' 4 c_getrange (\<lambda>e ts a c. c = a_getrange e (ts ! 1) (ts ! 2) (ts ! 3) a),
     arow ''incr'' 2 (c_incr (\<lambda>ts. Some 1)) (\<lambda>e ts a c. c = a_incr e (ts ! 1) 1 a),
     arow ''decr'' 2 (c_incr (\<lambda>ts. Some (- 1))) (\<lambda>e ts a c. c = a_incr e (ts ! 1) (- 1) a),
     arow ''mget'' (- 2) c_any (\<lambda>e ts a c. c = a_mget e (drop 1 ts) a),
     arow ''sadd'' (- 3) c_sadd (\<lambda>e ts a c. c = a_sadd e (ts ! 1) (drop 2 ts) a),
     arow ''srem'' (- 3) c_any (\<lambda>e ts a c. c = a_srem e (ts ! 1) (drop 2 ts) a),
     arow ''smove'' 4 c_smove (\<lambda>e ts a c. c = a_smove e (ts ! 1) (ts ! 2) (ts ! 3) a),
     arow ''sismember'' 3 c_any (\<lambda>e ts a c. c = a_sismember e (ts ! 1) (ts ! 2) a),
     arow ''scard'' 2 c_any (\<lambda>e ts a c. c = a_scard e (ts ! 1) a),
     arow ''spop'' 2 c_spop s_spop,
     arow ''srandmember'' (- 2) c_spop s_srandmember,
     arow ''sinter'' (- 2) (c_inter 1) (\<lambda>e ts. a_sinter e (drop 1 ts) None),
     arow ''sinterstore'' (- 3) (c_inter 2) (\<lambda>e ts. a_sinter e (drop 2 ts) (Some (ts ! 1))),
     arow ''sunion'' (- 2) (c_union 1) (\<lambda>e ts. a_sunion_diff e (drop 1 ts) None REDIS_OP_UNION),
     arow ''sunionstore'' (- 3) (c_union 2) (\<lambda>e ts. a_sunion_diff e (drop 2 ts) (Some (ts ! 1)) REDIS_OP_UNION),
     arow ''sdiff'' (- 2) (c_union 1) (\<lambda>e ts. a_sunion_diff e (drop 1 ts) None REDIS_OP_DIFF),
     arow ''sdiffstore'' (- 3) (c_union 2) (\<lambda>e ts. a_sunion_diff e (drop 2 ts) (Some (ts ! 1)) REDIS_OP_DIFF),
     arow ''smembers'' 2 (c_inter 1) (\<lambda>e ts. a_sinter e (drop 1 ts) None),
     arow ''incrby'' 3 (c_incr (\<lambda>ts. parse_ll (ts ! 2))) (s_incr id),
     arow ''decrby'' 3 (c_incr (\<lambda>ts. map_option uminus (parse_ll (ts ! 2)))) (s_incr uminus),
     arow ''getset'' 3 c_value (\<lambda>e ts a c. c = a_getset e (ts ! 1) (ts ! 2) a),
     arow ''mset'' (- 3) c_mset (s_mset False),
     arow ''msetnx'' (- 3) c_mset (s_mset True),
     arow ''randomkey'' 1 c_random s_randomkey,
     arow ''rename'' 3 c_room (\<lambda>e ts a c. c = a_renameGeneric e (ts ! 1) (ts ! 2) False a),
     arow ''renamenx'' 3 c_room (\<lambda>e ts a c. c = a_renameGeneric e (ts ! 1) (ts ! 2) True a),
     arow ''expire'' 3 (c_expire e_now UNIT_SECONDS)
       (\<lambda>e ts a c. c = a_expireGeneric e (e_now e) UNIT_SECONDS (ts ! 1) (ts ! 2) a),
     arow ''expireat'' 3 (c_expire (\<lambda>e. 0) UNIT_SECONDS)
       (\<lambda>e ts a c. c = a_expireGeneric e 0 UNIT_SECONDS (ts ! 1) (ts ! 2) a),
     arow ''pexpire'' 3 (c_expire e_now UNIT_MILLISECONDS)
       (\<lambda>e ts a c. c = a_expireGeneric e (e_now e) UNIT_MILLISECONDS (ts ! 1) (ts ! 2) a),
     arow ''pexpireat'' 3 (c_expire (\<lambda>e. 0) UNIT_MILLISECONDS)
       (\<lambda>e ts a c. c = a_expireGeneric e 0 UNIT_MILLISECONDS (ts ! 1) (ts ! 2) a),
     arow ''dbsize'' 1 c_any (\<lambda>e ts a c. c = a_dbsizeCommand a),
     arow ''ping'' 1 c_any (\<lambda>e ts a c. c = addReply (Status ''PONG'') a),
     arow ''echo'' 2 c_any (\<lambda>e ts a c. c = addReply (Bulk (ts ! 1)) a),
     arow ''type'' 2 c_any (\<lambda>e ts a c. c = a_typeCommand e (ts ! 1) a),
     arow ''flushdb'' 1 c_any (\<lambda>e ts a c. c = a_flushdbCommand a),
     arow ''ttl'' 2 c_clock (\<lambda>e ts a c. c = a_ttlGeneric e (ts ! 1) False a),
     arow ''pttl'' 2 c_clock (\<lambda>e ts a c. c = a_ttlGeneric e (ts ! 1) True a),
     arow ''persist'' 2 c_any (\<lambda>e ts a c. c = a_persistCommand (ts ! 1) a),
     arow ''bitop'' (- 4) c_room (\<lambda>e ts a c. c = a_bitop e (ts ! 1) (ts ! 2) (drop 3 ts) a),
     arow ''bitcount'' (- 2) c_any (\<lambda>e ts a c. c = a_bitcount e (ts ! 1) (drop 2 ts) a)]"

section \<open>Row by row refinement\<close>

definition refines :: "proc \<Rightarrow> int \<Rightarrow> acond \<Rightarrow> aspec \<Rightarrow> bool" where
  "refines p arity pre spec \<longleftrightarrow>
     (\<forall>e av ts st a. db_rel e st a \<and> sets_ok a \<and> list_all2 arg_rep av ts \<and> \<not> wrong_arity arity (length av) \<and>
        pre e ts a \<longrightarrow>
        (\<exists>rnd st'. p e rnd av st = Some st') \<and>
        (\<forall>rnd st'. p e rnd av st = Some st' \<longrightarrow> (\<exists>c. spec e ts a c \<and> db_rel e st' c)))"

definition row_refines :: "proc command \<Rightarrow> acommand \<Rightarrow> bool" where
  "row_refines c ac \<longleftrightarrow> c_name c = a_name ac \<and> c_arity c = a_arity ac \<and>
     refines (c_proc c) (c_arity c) (a_cond ac) (a_spec ac)"

text \<open>A command that draws no random numbers.\<close>

lemma refinesI:
  assumes "\<And>e rnd av ts st a. \<lbrakk>db_rel e st a; sets_ok a; list_all2 arg_rep av ts; \<not> wrong_arity arity (length av);
      length av = length ts; pre e ts a\<rbrakk>
    \<Longrightarrow> ok (p e rnd av st) (\<lambda>st'. \<exists>c. spec e ts a c \<and> db_rel e st' c)"
  shows "refines p arity pre spec"
  unfolding refines_def
proof (intro allI impI, elim conjE)
  fix e av ts st a
  assume "db_rel e st a" "sets_ok a" "list_all2 arg_rep av ts" "\<not> wrong_arity arity (length av)" "pre e ts a"
  then have *: "ok (p e rnd av st) (\<lambda>st'. \<exists>c. spec e ts a c \<and> db_rel e st' c)" for rnd
    using assms list_all2_lengthD by blast
  have "\<exists>rnd st'. p e rnd av st = Some st'" using * [of "[]"] by (auto simp: ok_iff)
  moreover have "\<exists>c. spec e ts a c \<and> db_rel e st' c" if "p e rnd av st = Some st'" for rnd st'
    using * [of rnd] that by (auto simp: ok_iff)
  ultimately show "(\<exists>rnd st'. p e rnd av st = Some st') \<and>
      (\<forall>rnd st'. p e rnd av st = Some st' \<longrightarrow> (\<exists>c. spec e ts a c \<and> db_rel e st' c))"
    by blast
qed

lemma key_at_ok: "\<lbrakk>list_all2 arg_rep av ts; i < length ts\<rbrakk> \<Longrightarrow> key_at av i = Some (ts ! i)"
  by (auto simp: key_at_def argv_at_def list_all2_conv_all_nth sds_text_rep arg_repD)

lemma argv_at_ok: "\<lbrakk>list_all2 arg_rep av ts; i < length ts\<rbrakk> \<Longrightarrow> \<exists>s. argv_at av i = Some s \<and> arg_rep s (ts ! i)"
  by (auto simp: argv_at_def list_all2_conv_all_nth)

lemma those_ok: "list_all2 arg_rep av ts \<Longrightarrow> those (map sds_text av) = Some ts"
  by (induction rule: list_all2_induct) (auto dest!: arg_repD simp: sds_text_rep)

lemma keys_from_ok: "list_all2 arg_rep av ts \<Longrightarrow> keys_from av i = Some (drop i ts)"
  unfolding keys_from_def by (rule those_ok) (rule list_all2_dropI)

text \<open>The argument shapes: what is left to show is the lemma of the command.\<close>

lemma refines_k:
  assumes "\<And>e ts st a. \<lbrakk>db_rel e st a; sets_ok a; pre e ts a\<rbrakk> \<Longrightarrow> ok (f e (ts ! 1) st) (\<lambda>st'. \<exists>c. spec e ts a c \<and> db_rel e st' c)"
  shows "refines (proc_k f) 2 pre spec"
  by (rule refinesI) (use assms in \<open>simp add: proc_k_def key_at_ok wrong_arity_def\<close>)

lemma refines_kv:
  assumes "\<And>e ts st a v. \<lbrakk>db_rel e st a; sets_ok a; pre e ts a; arg_rep v (ts ! 2)\<rbrakk> \<Longrightarrow>
    ok (f e (ts ! 1) v st) (\<lambda>st'. \<exists>c. spec e ts a c \<and> db_rel e st' c)"
  shows "refines (proc_kv f) 3 pre spec"
proof (rule refinesI, goal_cases)
  case (1 e rnd av ts st a)
  then obtain v where "argv_at av 2 = Some v" "arg_rep v (ts ! 2)"
    using argv_at_ok [of av ts 2] by (auto simp: wrong_arity_def)
  then show ?case using 1 assms by (simp add: proc_kv_def key_at_ok wrong_arity_def)
qed

lemma refines_kvv:
  assumes "\<And>e ts st a v w. \<lbrakk>db_rel e st a; sets_ok a; pre e ts a; arg_rep v (ts ! 2); arg_rep w (ts ! 3)\<rbrakk> \<Longrightarrow>
    ok (f e (ts ! 1) v w st) (\<lambda>st'. \<exists>c. spec e ts a c \<and> db_rel e st' c)"
  shows "refines (proc_kvv f) 4 pre spec"
proof (rule refinesI, goal_cases)
  case (1 e rnd av ts st a)
  then obtain v w where "argv_at av 2 = Some v" "arg_rep v (ts ! 2)" "argv_at av 3 = Some w" "arg_rep w (ts ! 3)"
    using argv_at_ok [of av ts 2] argv_at_ok [of av ts 3] by (auto simp: wrong_arity_def)
  then show ?case using 1 assms by (simp add: proc_kvv_def key_at_ok wrong_arity_def)
qed

lemma refines_kk:
  assumes "\<And>e ts st a. \<lbrakk>db_rel e st a; sets_ok a; pre e ts a\<rbrakk> \<Longrightarrow>
    ok (f e (ts ! 1) (ts ! 2) st) (\<lambda>st'. \<exists>c. spec e ts a c \<and> db_rel e st' c)"
  shows "refines (proc_kk f) 3 pre spec"
  by (rule refinesI) (use assms in \<open>simp add: proc_kk_def key_at_ok wrong_arity_def\<close>)

lemma refines_kkk:
  assumes "\<And>e ts st a. \<lbrakk>db_rel e st a; sets_ok a; pre e ts a\<rbrakk> \<Longrightarrow>
    ok (f e (ts ! 1) (ts ! 2) (ts ! 3) st) (\<lambda>st'. \<exists>c. spec e ts a c \<and> db_rel e st' c)"
  shows "refines (proc_kkk f) 4 pre spec"
  by (rule refinesI) (use assms in \<open>simp add: proc_kkk_def key_at_ok wrong_arity_def\<close>)

lemma refines_ks:
  assumes "\<And>e ts st a. \<lbrakk>db_rel e st a; sets_ok a; pre e ts a; 2 \<le> length ts\<rbrakk> \<Longrightarrow>
    ok (f e (drop 1 ts) st) (\<lambda>st'. \<exists>c. spec e ts a c \<and> db_rel e st' c)" "ar \<in> {2, - 2}"
  shows "refines (proc_ks f) ar pre spec"
  by (rule refinesI) (use assms in \<open>auto simp: proc_ks_def keys_from_ok wrong_arity_def\<close>)

lemma refines_kks:
  assumes "\<And>e ts st a. \<lbrakk>db_rel e st a; sets_ok a; pre e ts a; 3 \<le> length ts\<rbrakk> \<Longrightarrow>
    ok (f e (ts ! 1) (drop 2 ts) st) (\<lambda>st'. \<exists>c. spec e ts a c \<and> db_rel e st' c)"
  shows "refines (proc_kks f) (- 3) pre spec"
  by (rule refinesI) (use assms in \<open>auto simp: proc_kks_def key_at_ok keys_from_ok wrong_arity_def\<close>)

lemma ok_ex: "ok m (\<lambda>st'. db_rel e st' x) \<Longrightarrow> ok m (\<lambda>st'. \<exists>c. c = x \<and> db_rel e st' c)"
  by (simp add: ok_iff)

text \<open>The rows that draw random numbers or take their arguments in another way.\<close>

lemma mset_pairs:
  "\<lbrakk>list_all2 arg_rep av ts; length ts mod 2 = 0; \<forall>(k, v) \<in> set (pairs ts). printable v\<rbrakk> \<Longrightarrow> mset_args av (pairs ts)"
proof (induction ts arbitrary: av rule: pairs.induct)
  case (1 k v ts)
  then obtain x y xs where av: "av = x # y # xs" "arg_rep x k" "arg_rep y v" "list_all2 arg_rep xs ts"
    by (auto simp: list_all2_Cons2)
  have "mset_args xs (pairs ts)" by (rule "1.IH" [OF av(4)]) (use "1.prems" in \<open>auto simp: mod_Suc split: if_splits\<close>)
  then show ?case using av "1.prems"(3) by (auto simp: printable_def arg_repD)
qed auto

lemma length_pairs: "2 * length (pairs ts) \<le> length ts"
  by (induction ts rule: pairs.induct) auto

lemma mset_row: "refines (\<lambda>e rnd av. msetGenericCommand e (drop 1 av) nx) (- 3) c_mset (s_mset nx)"
proof (rule refinesI, goal_cases)
  case (1 e rnd av ts st a)
  have len: "length av = length ts" "3 \<le> length ts" using 1(4,5) by (auto simp: wrong_arity_def)
  show ?case
  proof (cases "length ts mod 2 = 0")
    case True
    moreover have "length (drop 1 av) + 1 = length ts" using len by simp
    ultimately have "(length (drop 1 av) + 1) mod 2 = 0" by simp
    then show ?thesis using True 1(1) by (auto simp: msetGenericCommand_def s_mset_def)
  next
    case False
    have "list_all2 arg_rep (drop 1 av) (tl ts)" using 1(3) by (simp add: drop_Suc list_all2_conv_all_nth nth_tl)
    moreover have "length (tl ts) mod 2 = 0" using False len(2) by simp presburger
    ultimately have args: "mset_args (drop 1 av) (pairs (tl ts))"
      using mset_pairs 1(6) by (simp add: c_mset_def)
    have "room (length (pairs (tl ts))) a"
      using 1(6) length_pairs [of "tl ts"] by (auto simp: c_mset_def elim!: room_le)
    from mset_ok [OF 1(1) args this, of nx] show ?thesis using False by (simp add: s_mset_def)
  qed
qed

lemma randomkey_exists:
  assumes "db_rel e st a" "c_random e ts a"
  shows "\<exists>rnds st'. randomkeyCommand e rnds st = Some st'"
proof -
  have inv: "dict_inv (dbDictType (e_seed e)) (st_keys st)" by (rule db_rel_fields(1) [OF assms(1)])
  have dom: "dom (dict_map (st_keys st)) = dom (st_keys a)" by (rule db_rel_dom [OF assms(1)])
  have room: "room 0 a" using assms(2) by (simp add: c_random_def)
  consider "st_keys a = Map.empty" | k where "st_keys a k \<noteq> None" "\<not> expired e a k"
    using assms(2) by (auto simp: c_random_def)
  then show ?thesis
  proof cases
    case 1
    then have "dictSize (st_keys st) = 0" using dom card_dom_dict(2) [OF inv] by simp
    then show ?thesis by (intro exI [of _ "[]"]) (simp add: randomkeyCommand_def)
  next
    case (2 k)
    have k: "k \<in> dom (dict_map (st_keys st))" using dom 2(1) by blast
    then have ne: "dictSize (st_keys st) \<noteq> 0" using dictSize_zero [OF inv] by force
    have "dictSize (st_keys st) < 2 ^ 31" using db_rel_size [OF assms(1) room] by simp
    note R = dictGetRandomKey_correct [OF inv ne this]
    obtain v where "(k, v) \<in> set (entries (st_keys st))" using k by (auto simp: dict_map_def dest: map_of_SomeD)
    then obtain r1 r2 d where d: "dictGetRandomKey (dbDictType (e_seed e)) (st_keys st) [r1, r2] = Some (d, Some (k, v))"
      using R by blast
    note D = draw_key(1) [OF assms(1) room d]
    obtain x xe where x: "dictFind (keyptrDictType (e_seed e)) (st_expires st) k = Some (x, xe)"
      "db_rel e (st\<lparr>st_keys := d, st_expires := x\<rparr>) a"
      using find_expires [OF D, of k] by auto
    obtain s where s: "expireIfNeeded e (st\<lparr>st_keys := d, st_expires := x\<rparr>) k = Some (s, False)"
      using expireIfNeeded_ok [OF x(2), of k] 2(2) by (auto simp: ok_iff)
    have "\<exists>s'. dbRandomKey e [[r1, r2]] st = Some (s', Some k)"
      using d x(1) s by (cases "xe = None") auto
    then show ?thesis by (auto simp: randomkeyCommand_def intro!: exI [of _ "[[r1, r2]]"])
  qed
qed

lemma randomkey_row: "refines (\<lambda>e rnd av. randomkeyCommand e rnd) 1 c_random s_randomkey"
  unfolding refines_def
proof (intro allI impI conjI, elim conjE)
  fix e av ts st a
  assume "db_rel e st a" "c_random e ts a"
  then show "\<exists>rnd st'. randomkeyCommand e rnd st = Some st'" by (rule randomkey_exists)
next
  fix e av ts st a rnd st'
  assume h: "db_rel e st a \<and> sets_ok a \<and> list_all2 arg_rep av ts \<and> \<not> wrong_arity 1 (length av) \<and> c_random e ts a"
    and run: "randomkeyCommand e rnd st = Some st'"
  then have "db_rel e st a" "room 0 a" by (auto simp: c_random_def)
  from randomkeyCommand_correct [OF this run]
  show "\<exists>c. s_randomkey e ts a c \<and> db_rel e st' c" by (auto simp: s_randomkey_def Let_def)
qed

lemma spop_row:
  "refines (\<lambda>e rnd. proc_k (\<lambda>e. spopCommand e (concat rnd)) e rnd) 2 c_spop s_spop"
  unfolding refines_def
proof (intro allI impI, elim conjE, goal_cases)
  case (1 e av ts st a)
  have k: "key_at av 1 = Some (ts ! 1)"
    using 1(3,4) list_all2_lengthD [OF 1(3)] by (simp add: key_at_ok wrong_arity_def)
  note S = spop_ok [OF 1(1) sets_ok_no_empty [OF 1(2)], of "ts ! 1"]
  have f: "fits 0 (a_look e (ts ! 1) a)" using 1(5) by (simp add: c_spop_def)
  have "\<exists>rnd st'. spopCommand e rnd (ts ! 1) st = Some st'"
  proof (cases "members (a_look e (ts ! 1) a) = {}")
    case True
    then show ?thesis using S(3) [OF f] by blast
  next
    case False
    then show ?thesis using S(2) [OF f] by blast
  qed
  then obtain rnd st' where "spopCommand e (concat [rnd]) (ts ! 1) st = Some st'" by auto
  then have "\<exists>rnd st'. proc_k (\<lambda>e. spopCommand e (concat rnd)) e rnd av st = Some st'"
    using k by (auto simp: proc_k_def simp del: concat.simps)
  moreover have "\<exists>c. s_spop e ts a c \<and> db_rel e st' c"
    if r: "proc_k (\<lambda>e. spopCommand e (concat rnd)) e rnd av st = Some st'" for rnd st'
    using S(1) [OF f, of "concat rnd" st'] r k by (auto simp: proc_k_def s_spop_def)
  ultimately show ?case by blast
qed

lemma srandmember_row:
  "refines (\<lambda>e rnd av st. do { k \<leftarrow> key_at av 1; srandmemberCommand e rnd k (drop 2 av) st }) (- 2) c_spop s_srandmember"
  unfolding refines_def
proof (intro allI impI, elim conjE, goal_cases)
  case (1 e av ts st a)
  have len: "length av = length ts" "2 \<le> length ts"
    using 1(4) list_all2_lengthD [OF 1(3)] by (simp_all add: wrong_arity_def)
  have k: "key_at av 1 = Some (ts ! 1)" using len by (simp add: key_at_ok [OF 1(3)])
  have c: "room 1 a" "fits 0 (a_look e (ts ! 1) a)" "parse_ll (ts ! 2) \<noteq> Some (- (2 ^ 63))"
    using 1(5) by (simp_all add: c_spop_def)
  have "(\<exists>rnd st'. srandmemberCommand e rnd (ts ! 1) (drop 2 av) st = Some st') \<and>
    (\<forall>rnd st'. srandmemberCommand e rnd (ts ! 1) (drop 2 av) st = Some st' \<longrightarrow> (\<exists>c. s_srandmember e ts a c \<and> db_rel e st' c))"
  proof -
    consider "length ts = 2" | "length ts = 3" | "length ts > 3" using len(2) by linarith
    then show ?thesis
    proof cases
      case 1
      then have "drop 2 av = []" using len by simp
      then show ?thesis using srandmember_ok [OF \<open>db_rel e st a\<close> \<open>sets_ok a\<close> c(2)] 1
        by (simp add: s_srandmember_def)
    next
      case 2
      obtain v where v: "argv_at av 2 = Some v" "arg_rep v (ts ! 2)"
        using argv_at_ok [OF \<open>list_all2 arg_rep av ts\<close>, of 2] 2 by auto
      then have d: "drop 2 av = [v]" using 2 len(1)
        by (auto simp: argv_at_def Cons_nth_drop_Suc [symmetric] split: if_splits)
      have run: "srandmemberCommand e rnd (ts ! 1) (drop 2 av) st = srandmemberWithCountCommand e rnd (ts ! 1) v st" for rnd
        by (simp add: srandmemberCommand_def d)
      show ?thesis
      proof (cases "parse_ll (ts ! 2)")
        case None
        have "srandmemberWithCountCommand e rnd (ts ! 1) v st = Some (addReply err_not_integer st)" for rnd
          using None by (simp add: srandmemberWithCountCommand_def getLongOrReply_eval [OF arg_obj_rep [OF v(2), of "e_seed e"]])
        then show ?thesis using None 2 \<open>db_rel e st a\<close> unfolding run by (auto simp: s_srandmember_def)
      next
        case (Some l)
        then show ?thesis
          using srandmember_count_ok [OF \<open>db_rel e st a\<close> \<open>sets_ok a\<close> c(1,2) v(2) Some] c(3) 2
          unfolding run by (simp add: s_srandmember_def)
      qed
    next
      case 3
      then have "length (drop 2 av) \<ge> 2" using len(1) by simp
      then obtain x y zs where d: "drop 2 av = x # y # zs"
        by (cases "drop 2 av"; cases "tl (drop 2 av)") auto
      then show ?thesis using 3 \<open>db_rel e st a\<close> by (auto simp: srandmemberCommand_def s_srandmember_def)
    qed
  qed
  then show ?case using k by simp
qed

lemma incr_row: "refines (proc_k incrCommand) 2 (c_incr (\<lambda>ts. Some 1)) (\<lambda>e ts a c. c = a_incr e (ts ! 1) 1 a)"
  "refines (proc_k decrCommand) 2 (c_incr (\<lambda>ts. Some (- 1))) (\<lambda>e ts a c. c = a_incr e (ts ! 1) (- 1) a)"
  by (auto intro!: refines_k ok_ex incrDecr_ok simp: incrCommand_def decrCommand_def c_incr_def in_sbytes_def)

lemma incrby_row: "refines (proc_kv incrbyCommand) 3 (c_incr (\<lambda>ts. parse_ll (ts ! 2))) (s_incr id)"
  unfolding s_incr_def id_def
proof (rule refines_kv, rule ok_ex, goal_cases)
  case (1 e ts st a v)
  then show ?case by (intro incrby_ok) (auto simp: c_incr_def)
qed

lemma decrby_row:
  "refines (proc_kv decrbyCommand) 3 (c_incr (\<lambda>ts. map_option uminus (parse_ll (ts ! 2)))) (s_incr uminus)"
  unfolding s_incr_def
proof (rule refines_kv, rule ok_ex, goal_cases)
  case (1 e ts st a v)
  have "parse_ll (ts ! 2) \<noteq> Some (- (2 ^ 63))" using 1(3) by (auto simp: c_incr_def)
  then show ?case using 1 by (intro decrby_ok) (auto simp: c_incr_def)
qed

lemma echo_row: "refines (\<lambda>e rnd av st. do { s \<leftarrow> argv_at av 1; echoCommand s st }) 2 c_any (\<lambda>e ts a c. c = addReply (Bulk (ts ! 1)) a)"
proof (rule refinesI, goal_cases)
  case (1 e rnd av ts st a)
  then obtain s where "argv_at av 1 = Some s" "arg_rep s (ts ! 1)"
    using argv_at_ok [of av ts 1] by (auto simp: wrong_arity_def)
  then show ?case using 1(1) by (auto simp: echoCommand_def addReplyBulk_eval [OF arg_obj_rep])
qed

lemma string_rows:
  "refines (proc_k getCommand) 2 c_any (\<lambda>e ts a c. c = fst (a_getGeneric e (ts ! 1) a))"
  "refines (proc_kv setCommand) 3 c_value (\<lambda>e ts a c. c = a_setGeneric e False (ts ! 1) (ts ! 2) None UNIT_SECONDS a)"
  "refines (proc_kv setnxCommand) 3 c_value (\<lambda>e ts a c. c = a_setGeneric e True (ts ! 1) (ts ! 2) None UNIT_SECONDS a)"
  "refines (proc_kvv setexCommand) 4 (c_ttl UNIT_SECONDS)
     (\<lambda>e ts a c. c = a_setGeneric e False (ts ! 1) (ts ! 3) (Some (ts ! 2)) UNIT_SECONDS a)"
  "refines (proc_kvv psetexCommand) 4 (c_ttl UNIT_MILLISECONDS)
     (\<lambda>e ts a c. c = a_setGeneric e False (ts ! 1) (ts ! 3) (Some (ts ! 2)) UNIT_MILLISECONDS a)"
  "refines (proc_kv appendCommand) 3 c_value (\<lambda>e ts a c. c = a_append e (ts ! 1) (ts ! 2) a)"
  "refines (proc_k strlenCommand) 2 c_any (\<lambda>e ts a c. c = a_strlen e (ts ! 1) a)"
  "refines (proc_kvv setrangeCommand) 4 c_setrange (\<lambda>e ts a c. c = a_setrange e (ts ! 1) (ts ! 2) (ts ! 3) a)"
  "refines (proc_kvv getrangeCommand) 4 c_getrange (\<lambda>e ts a c. c = a_getrange e (ts ! 1) (ts ! 2) (ts ! 3) a)"
  "refines (proc_ks mgetCommand) (- 2) c_any (\<lambda>e ts a c. c = a_mget e (drop 1 ts) a)"
  "refines (proc_kv getsetCommand) 3 c_value (\<lambda>e ts a c. c = a_getset e (ts ! 1) (ts ! 2) a)"
  by (intro refines_k refines_kv refines_kvv refines_ks ok_ex getCommand_ok set_variants_ok append_ok strlen_ok
      setrange_ok getrange_ok mget_ok getset_ok;
    auto simp: c_value_def c_ttl_def c_setrange_def c_getrange_def printable_def)+

lemma key_rows:
  "refines (proc_ks delCommand) (- 2) c_any (\<lambda>e ts a c. c = a_delCommand (drop 1 ts) a)"
  "refines (proc_k existsCommand) 2 c_any (\<lambda>e ts a c. c = a_existsCommand e (ts ! 1) a)"
  "refines (proc_kk renameCommand) 3 c_room (\<lambda>e ts a c. c = a_renameGeneric e (ts ! 1) (ts ! 2) False a)"
  "refines (proc_kk renamenxCommand) 3 c_room (\<lambda>e ts a c. c = a_renameGeneric e (ts ! 1) (ts ! 2) True a)"
  "refines (proc_k typeCommand) 2 c_any (\<lambda>e ts a c. c = a_typeCommand e (ts ! 1) a)"
  "refines (proc_k ttlCommand) 2 c_clock (\<lambda>e ts a c. c = a_ttlGeneric e (ts ! 1) False a)"
  "refines (proc_k pttlCommand) 2 c_clock (\<lambda>e ts a c. c = a_ttlGeneric e (ts ! 1) True a)"
  "refines (proc_k persistCommand) 2 c_any (\<lambda>e ts a c. c = a_persistCommand (ts ! 1) a)"
  unfolding renameCommand_def renamenxCommand_def ttlCommand_def pttlCommand_def
  by (intro refines_k refines_kk refines_ks ok_ex delCommand_ok existsCommand_ok renameGeneric_ok typeCommand_ok
      ttlGeneric_ok persistCommand_ok; auto simp: c_room_def c_clock_def)+

lemma server_rows:
  "refines (\<lambda>e rnd av. dbsizeCommand) 1 c_any (\<lambda>e ts a c. c = a_dbsizeCommand a)"
  "refines (\<lambda>e rnd av. flushdbCommand) 1 c_any (\<lambda>e ts a c. c = a_flushdbCommand a)"
  "refines (\<lambda>e rnd av. pingCommand) 1 c_any (\<lambda>e ts a c. c = addReply (Status ''PONG'') a)"
  by (intro refinesI ok_ex dbsizeCommand_ok flushdbCommand_ok; auto simp: pingCommand_def)+

lemma expire_rows:
  "refines (proc_kv (\<lambda>e k v. expireCommand e k (StrRaw v))) 3 (c_expire e_now UNIT_SECONDS)
     (\<lambda>e ts a c. c = a_expireGeneric e (e_now e) UNIT_SECONDS (ts ! 1) (ts ! 2) a)"
  "refines (proc_kv (\<lambda>e k v. expireatCommand e k (StrRaw v))) 3 (c_expire (\<lambda>e. 0) UNIT_SECONDS)
     (\<lambda>e ts a c. c = a_expireGeneric e 0 UNIT_SECONDS (ts ! 1) (ts ! 2) a)"
  "refines (proc_kv (\<lambda>e k v. pexpireCommand e k (StrRaw v))) 3 (c_expire e_now UNIT_MILLISECONDS)
     (\<lambda>e ts a c. c = a_expireGeneric e (e_now e) UNIT_MILLISECONDS (ts ! 1) (ts ! 2) a)"
  "refines (proc_kv (\<lambda>e k v. pexpireatCommand e k (StrRaw v))) 3 (c_expire (\<lambda>e. 0) UNIT_MILLISECONDS)
     (\<lambda>e ts a c. c = a_expireGeneric e 0 UNIT_MILLISECONDS (ts ! 1) (ts ! 2) a)"
  unfolding expireCommand_def expireatCommand_def pexpireCommand_def pexpireatCommand_def
  by (intro refines_kv ok_ex expireGeneric_ok arg_obj_rep; auto simp: c_expire_def)+

lemma set_rows:
  "refines (proc_kks saddCommand) (- 3) c_sadd (\<lambda>e ts a c. c = a_sadd e (ts ! 1) (drop 2 ts) a)"
  "refines (proc_kks sremCommand) (- 3) c_any (\<lambda>e ts a c. c = a_srem e (ts ! 1) (drop 2 ts) a)"
  "refines (proc_kkk smoveCommand) 4 c_smove (\<lambda>e ts a c. c = a_smove e (ts ! 1) (ts ! 2) (ts ! 3) a)"
  "refines (proc_kk sismemberCommand) 3 c_any (\<lambda>e ts a c. c = a_sismember e (ts ! 1) (ts ! 2) a)"
  "refines (proc_k scardCommand) 2 c_any (\<lambda>e ts a c. c = a_scard e (ts ! 1) a)"
  by (intro refines_k refines_kk refines_kkk refines_kks ok_ex sadd_ok srem_ok smove_ok sismember_ok scard_ok
      sets_ok_no_empty; auto simp: c_sadd_def c_smove_def printable_def fits_def)+

lemma algebra_rows:
  "ar \<in> {2, - 2} \<Longrightarrow> refines (proc_ks sinterCommand) ar (c_inter 1) (\<lambda>e ts. a_sinter e (drop 1 ts) None)"
  "refines (proc_kks sinterstoreCommand) (- 3) (c_inter 2) (\<lambda>e ts. a_sinter e (drop 2 ts) (Some (ts ! 1)))"
  "refines (proc_ks sunionCommand) (- 2) (c_union 1) (\<lambda>e ts. a_sunion_diff e (drop 1 ts) None REDIS_OP_UNION)"
  "refines (proc_kks sunionstoreCommand) (- 3) (c_union 2) (\<lambda>e ts. a_sunion_diff e (drop 2 ts) (Some (ts ! 1)) REDIS_OP_UNION)"
  "refines (proc_ks sdiffCommand) (- 2) (c_union 1) (\<lambda>e ts. a_sunion_diff e (drop 1 ts) None REDIS_OP_DIFF)"
  "refines (proc_kks sdiffstoreCommand) (- 3) (c_union 2) (\<lambda>e ts. a_sunion_diff e (drop 2 ts) (Some (ts ! 1)) REDIS_OP_DIFF)"
  unfolding sinterCommand_def sinterstoreCommand_def sunionCommand_def sunionstoreCommand_def
    sdiffCommand_def sdiffstoreCommand_def
  by (intro refines_ks refines_kks sinter_ok sunion_diff_ok; auto simp: c_inter_def c_union_def)+

lemma bit_rows:
  "refines (proc_kvv setbitCommand) 4 c_room (\<lambda>e ts a c. c = a_setbit e (ts ! 1) (ts ! 2) (ts ! 3) a)"
  "refines (proc_kv getbitCommand) 3 c_any (\<lambda>e ts a c. c = a_getbit e (ts ! 1) (ts ! 2) a)"
  by (intro refines_kv refines_kvv ok_ex setbit_ok getbit_ok; auto simp: c_room_def)+

lemma bitop_row: "refines (\<lambda>e rnd av st. do { n \<leftarrow> key_at av 1; k \<leftarrow> key_at av 2; ks \<leftarrow> keys_from av 3; bitopCommand e n k ks st })
  (- 4) c_room (\<lambda>e ts a c. c = a_bitop e (ts ! 1) (ts ! 2) (drop 3 ts) a)"
proof (rule refinesI, goal_cases)
  case (1 e rnd av ts st a)
  have len: "4 \<le> length ts" using 1(4,5) by (simp add: wrong_arity_def)
  then have "drop 3 ts \<noteq> []" by simp
  from ok_ex [OF bitop_ok [OF 1(1) _ this]] show ?case
    using 1(6) len by (simp add: key_at_ok [OF 1(3)] keys_from_ok [OF 1(3)] c_room_def)
qed

lemma bitcount_row: "refines (\<lambda>e rnd av st. do { k \<leftarrow> key_at av 1; bitcountCommand e k (drop 2 av) st })
  (- 2) c_any (\<lambda>e ts a c. c = a_bitcount e (ts ! 1) (drop 2 ts) a)"
proof (rule refinesI, goal_cases)
  case (1 e rnd av ts st a)
  have len: "2 \<le> length ts" using 1(4,5) by (simp add: wrong_arity_def)
  have "list_all2 arg_rep (drop 2 av) (drop 2 ts)" using 1(3) by (rule list_all2_dropI)
  from ok_ex [OF bitcount_ok [OF 1(1) this]] show ?case using len by (simp add: key_at_ok [OF 1(3)])
qed

lemmas all_rows = bit_rows bitop_row bitcount_row string_rows key_rows server_rows expire_rows set_rows algebra_rows mset_row randomkey_row spop_row
  srandmember_row incr_row incrby_row decrby_row echo_row

lemma row_refinesI: "refines p ar pre spec \<Longrightarrow> row_refines (row n p ar f) (arow n ar pre spec)"
  by (simp add: row_refines_def row_def arow_def)

lemma table_refines: "list_all2 row_refines redisCommandTable aCommandTable"
  unfolding redisCommandTable_rows aCommandTable_def
  by (intro list.rel_intros row_refinesI all_rows; simp)

end
