(* ===== verification/Effects.thy ===== *)
theory Effects
  imports Commands
begin

text \<open>
  What every command of the table guarantees, read off its specification: it appends one complete
  reply, it signals the keys whose values it changes, and it stores no empty set and no expire time
  of a missing key.  The locale \<open>keyspace\<close> is what the transactions rely on.
\<close>

section \<open>Replies, signals and the invariant\<close>

text \<open>\<open>complete n rs\<close>: the list is \<open>n\<close> replies, where a multi bulk reply has its elements after it.\<close>

fun elements :: "reply \<Rightarrow> nat" where
  "elements (MultiBulk i) = nat i"
| "elements _ = 0"

fun complete :: "nat \<Rightarrow> reply list \<Rightarrow> bool" where
  "complete n [] = (n = 0)"
| "complete n (r # rs) = (n > 0 \<and> r \<noteq> Pending \<and> complete (n - 1 + elements r) rs)"

lemma complete_append: "\<lbrakk>complete n xs; complete m ys\<rbrakk> \<Longrightarrow> complete (n + m) (xs @ ys)"
proof (induction xs arbitrary: n)
  case (Cons r rs)
  from Cons.prems(1) have c: "n > 0" "r \<noteq> Pending" "complete (n - 1 + elements r) rs"
    unfolding complete.simps by blast+
  have "n + m - 1 + elements r = n - 1 + elements r + m" using c(1) by simp
  then show ?case using c Cons.IH [OF c(3) Cons.prems(2)] by (simp only: complete.simps append_Cons simp_thms)
qed simp

lemma complete_bulks [simp]: "complete n (map Bulk ts) \<longleftrightarrow> n = length ts"
proof (induction ts arbitrary: n)
  case (Cons t ts)
  then show ?case by (cases n) simp_all
qed simp

definition replies :: "nat \<Rightarrow> ('d, 'x) store \<Rightarrow> ('e, 'y) store \<Rightarrow> bool" where
  "replies n a b \<longleftrightarrow> (\<exists>rs. complete n rs \<and> out (st_srv b) = out (st_srv a) @ rs)"

definition db_wf :: "adb \<Rightarrow> bool" where
  "db_wf a \<longleftrightarrow> sets_ok a \<and> dom (st_expires a) \<subseteq> dom (st_keys a)"

text \<open>
  A key that is not signalled keeps its value, unless it has expired.  Its expire time may be removed.
\<close>

definition same_key :: "env \<Rightarrow> adb \<Rightarrow> adb \<Rightarrow> byte list \<Rightarrow> bool" where
  "same_key e a b k \<longleftrightarrow>
     st_keys b k = st_keys a k \<and> (st_expires b k = st_expires a k \<or> st_expires b k = None) \<or>
     expired e a k \<and> st_keys b k = None \<and> st_expires b k = None"

definition signals :: "env \<Rightarrow> adb \<Rightarrow> adb \<Rightarrow> bool" where
  "signals e a b \<longleftrightarrow> (\<exists>ts. touched (st_srv b) = touched (st_srv a) @ ts \<and>
     (\<forall>k. TouchKey k \<in> set ts \<or> TouchFlush \<in> set ts \<and> st_keys a k \<noteq> None \<or> same_key e a b k))"

definition evolves :: "env \<Rightarrow> adb \<Rightarrow> adb \<Rightarrow> bool" where
  "evolves e a b \<longleftrightarrow> (db_wf a \<longrightarrow> db_wf b \<and> signals e a b)"

lemma same_key_trans: "\<lbrakk>same_key e a b k; same_key e b c k\<rbrakk> \<Longrightarrow> same_key e a c k"
  by (auto simp: same_key_def expired_def split: option.splits)

lemma same_key_refl [simp]: "same_key e a a k"
  by (simp add: same_key_def)

lemma evolves_refl [simp]: "evolves e a a"
  by (simp add: evolves_def signals_def)

lemma same_key_None: "\<lbrakk>same_key e a b k; st_keys a k = None\<rbrakk> \<Longrightarrow> st_keys b k = None"
  by (auto simp: same_key_def)

lemma signals_trans:
  assumes "signals e a b" "signals e b c"
  shows "signals e a c"
proof -
  obtain ts where ts: "touched (st_srv b) = touched (st_srv a) @ ts"
    "\<And>k. TouchKey k \<in> set ts \<or> TouchFlush \<in> set ts \<and> st_keys a k \<noteq> None \<or> same_key e a b k"
    using assms(1) by (auto simp: signals_def)
  obtain us where us: "touched (st_srv c) = touched (st_srv b) @ us"
    "\<And>k. TouchKey k \<in> set us \<or> TouchFlush \<in> set us \<and> st_keys b k \<noteq> None \<or> same_key e b c k"
    using assms(2) by (auto simp: signals_def)
  have "TouchKey k \<in> set (ts @ us) \<or> TouchFlush \<in> set (ts @ us) \<and> st_keys a k \<noteq> None \<or> same_key e a c k" for k
    using ts(2) [of k] us(2) [of k] same_key_None [of e a b k] same_key_trans [of e a b k c]
    by (cases "st_keys a k") auto
  then show ?thesis using ts(1) us(1) by (auto simp: signals_def intro!: exI [of _ "ts @ us"])
qed

lemma evolves_trans: "\<lbrakk>evolves e a b; evolves e b c\<rbrakk> \<Longrightarrow> evolves e a c"
  by (auto simp: evolves_def intro: signals_trans)

lemma db_wf_expires: "\<lbrakk>db_wf a; st_keys a k = None\<rbrakk> \<Longrightarrow> st_expires a k = None"
  by (auto simp: db_wf_def)

lemma evolves_wf: "(db_wf a \<Longrightarrow> evolves e a b) \<Longrightarrow> evolves e a b"
  by (simp add: evolves_def)

text \<open>A change of the keys that are signalled along with it.\<close>

lemma evolvesI:
  assumes "db_wf a \<Longrightarrow> db_wf b" "touched (st_srv b) = touched (st_srv a) @ ts"
    and "\<And>k. \<lbrakk>db_wf a; TouchKey k \<notin> set ts; TouchFlush \<notin> set ts \<or> st_keys a k = None\<rbrakk> \<Longrightarrow> same_key e a b k"
  shows "evolves e a b"
  unfolding evolves_def signals_def using assms by blast

subsection \<open>The building blocks\<close>

lemma srv_simps [simp]:
  "st_srv (addReply r a) = (st_srv a)\<lparr>out := out (st_srv a) @ [r]\<rparr>"
  "st_srv (addDirty n a) = (st_srv a)\<lparr>dirty := dirty (st_srv a) + n\<rparr>"
  "st_srv (signalModifiedKey k a) = (st_srv a)\<lparr>touched := touched (st_srv a) @ [TouchKey k]\<rparr>"
  "st_srv (signalFlushedDb a) = (st_srv a)\<lparr>touched := touched (st_srv a) @ [TouchFlush]\<rparr>"
  "st_srv (rewriteClientCommandVector v a) = (st_srv a)\<lparr>rewritten := Some v\<rparr>"
  "st_srv (a_bulks ts b) = (st_srv b)\<lparr>out := out (st_srv b) @ map Bulk ts\<rparr>"
  by (simp_all add: addReply_def addDirty_def signalModifiedKey_def signalFlushedDb_def
      rewriteClientCommandVector_def a_bulks_def on_srv_def)

lemma map_srv_simps [simp]:
  "st_srv (a_put k v b) = st_srv b" "st_srv (a_del k b) = st_srv b" "st_srv (a_persist k b) = st_srv b"
  "st_srv (a_setexp k w b) = st_srv b" "st_srv (a_putset k T b) = st_srv b"
  by (simp_all add: a_put_def a_del_def a_persist_def a_setexp_def a_putset_def)

lemma read_srv_simps [simp]:
  "out (st_srv (a_expire e k b)) = out (st_srv b)" "touched (st_srv (a_expire e k b)) = touched (st_srv b)"
  "out (st_srv (a_read e k b)) = out (st_srv b)" "touched (st_srv (a_read e k b)) = touched (st_srv b)"
  by (simp_all add: a_read_def a_expire_def on_srv_def)

lemma db_wf_srv [simp]:
  "db_wf (addReply r a) = db_wf a" "db_wf (addDirty n a) = db_wf a" "db_wf (signalModifiedKey k a) = db_wf a"
  "db_wf (signalFlushedDb a) = db_wf a" "db_wf (rewriteClientCommandVector v a) = db_wf a" "db_wf (a_bulks ts a) = db_wf a"
  "db_wf (on_srv f a) = db_wf a"
  by (simp_all add: db_wf_def sets_ok_def addReply_def addDirty_def signalModifiedKey_def signalFlushedDb_def
      rewriteClientCommandVector_def a_bulks_def on_srv_def)

definition good :: "val \<Rightarrow> bool" where
  "good v \<longleftrightarrow> (case v of VStr xs \<Rightarrow> True | VSet S \<Rightarrow> S \<noteq> {} \<and> LLONG_MIN_text \<notin> S)"

lemma db_wf_good: "\<lbrakk>db_wf a; st_keys a k = Some v\<rbrakk> \<Longrightarrow> good v"
  by (auto simp: db_wf_def sets_ok_def good_def split: val.splits)

lemma db_wf_put: "\<lbrakk>db_wf a; good v\<rbrakk> \<Longrightarrow> db_wf (a_put k v a)"
  by (auto simp: db_wf_def sets_ok_def good_def a_put_def)

lemma db_wf_del: "db_wf a \<Longrightarrow> db_wf (a_del k a)"
  by (auto simp: db_wf_def sets_ok_def a_del_def)

lemma db_wf_persist: "db_wf a \<Longrightarrow> db_wf (a_persist k a)"
  by (auto simp: db_wf_def sets_ok_def a_persist_def)

lemma db_wf_setexp: "\<lbrakk>db_wf a; st_keys a k \<noteq> None\<rbrakk> \<Longrightarrow> db_wf (a_setexp k w a)"
  by (auto simp: db_wf_def sets_ok_def a_setexp_def)

lemma db_wf_putset: "\<lbrakk>db_wf a; LLONG_MIN_text \<notin> S\<rbrakk> \<Longrightarrow> db_wf (a_putset k S a)"
  by (simp add: a_putset_def db_wf_del db_wf_put good_def)

lemma db_wf_expire: "db_wf a \<Longrightarrow> db_wf (a_expire e k a)"
  by (simp add: a_expire_def db_wf_del)

lemma db_wf_read [simp]: "db_wf (a_read e k a) = db_wf (a_expire e k a)"
  by (simp add: a_read_def)

lemmas db_wf_intros = db_wf_put db_wf_del db_wf_persist db_wf_setexp db_wf_putset db_wf_expire

lemma evolves_srv [simp]:
  "evolves e b (addReply r a) = evolves e b a" "evolves e b (addDirty n a) = evolves e b a"
  "evolves e b (rewriteClientCommandVector v a) = evolves e b a" "evolves e b (a_bulks ts a) = evolves e b a"
  "evolves e (addReply r a) b = evolves e a b"
  by (simp_all add: evolves_def signals_def same_key_def expired_def)

lemma evolves_expire [simp]: "evolves e a (a_expire e k a)"
  by (rule evolvesI [of _ _ "[]"]) (auto simp: db_wf_expire same_key_def)

lemma evolves_read [simp]: "evolves e b (a_read e k a) = evolves e b (a_expire e k a)"
  by (simp add: evolves_def signals_def same_key_def)

lemma evolves_expire_trans: "evolves e (a_expire e k a) b \<Longrightarrow> evolves e a b"
  by (rule evolves_trans [OF evolves_expire])

section \<open>The commands\<close>

lemma replies_one [simp]:
  "\<lbrakk>out (st_srv b) = out (st_srv a) @ [r]; r \<noteq> Pending; elements r = 0\<rbrakk> \<Longrightarrow> replies (Suc 0) a b"
  by (auto simp: replies_def)

lemma replies_multi:
  "\<lbrakk>out (st_srv b) = out (st_srv a) @ MultiBulk (int n) # rs; complete n rs\<rbrakk> \<Longrightarrow> replies (Suc 0) a b"
  by (auto simp: replies_def)

lemmas store_ops = a_put_def a_del_def a_persist_def a_setexp_def a_putset_def addReply_def addDirty_def
  signalModifiedKey_def signalFlushedDb_def rewriteClientCommandVector_def a_bulks_def on_srv_def

lemma keys_ops [simp]:
  "st_keys (a_put k v a) = (st_keys a)(k \<mapsto> v)" "st_expires (a_put k v a) = st_expires a"
  "st_keys (a_persist k a) = st_keys a" "st_expires (a_persist k a) = (st_expires a)(k := None)"
  "st_keys (a_setexp k w a) = st_keys a" "st_expires (a_setexp k w a) = (st_expires a)(k \<mapsto> w)"
  "st_keys (a_del k a) = (st_keys a)(k := None)" "st_expires (a_del k a) = (st_expires a)(k := None)"
  by (simp_all add: store_ops)

text \<open>Setting a value, as most of the writing commands do.\<close>

lemma evolves_setKey: "good v \<Longrightarrow> evolves e a (a_setKey e k v a)"
  unfolding a_setKey_def
  by (rule evolves_expire_trans, rule evolvesI [of _ _ "[TouchKey k]"])
    (auto intro: db_wf_intros simp: same_key_def)

text \<open>An expire time set after the key has been signalled.\<close>

lemma evolves_setexp:
  assumes "good v"
  shows "evolves e a (a_setexp k w (addDirty n (a_setKey e k v a)))"
  unfolding a_setKey_def
  by (rule evolves_expire_trans, rule evolvesI [of _ _ "[TouchKey k]"])
    (auto intro!: db_wf_setexp db_wf_persist db_wf_put assms simp: same_key_def)

lemma evolves_update: "evolves e a (a_update k xs n a)"
  unfolding a_update_def
  by (rule evolvesI [of _ _ "[TouchKey k]"]) (auto intro!: db_wf_intros simp: same_key_def good_def)

lemma replies_setKey [simp]: "out (st_srv (a_setKey e k v a)) = out (st_srv a)"
  by (simp add: a_setKey_def)

lemma evolves_string:
  assumes "\<And>old b. evolves e b (f old b)"
  shows "evolves e a (a_string e k f a)"
  using assms by (auto simp: a_string_def split: option.splits val.splits intro: evolves_expire_trans)

lemma replies_string:
  assumes "\<And>old b. replies n b (f old b)" "n = 1"
  shows "replies n a (a_string e k f a)"
proof -
  have "replies n (a_expire e k a) b \<longleftrightarrow> replies n a b" for b :: adb by (simp add: replies_def)
  then show ?thesis using assms by (auto simp: a_string_def split: option.splits val.splits)
qed

lemma string_evolves:
  "evolves e a (fst (a_getGeneric e k a))" "evolves e a (a_setGeneric e nx k xs t unit a)"
  "evolves e a (a_append e k xs a)" "evolves e a (a_strlen e k a)" "evolves e a (a_setrange e k off xs a)"
  "evolves e a (a_getrange e k i j a)" "evolves e a (a_incr e k d a)" "evolves e a (a_getset e k xs a)"
proof -
  show get: "evolves e a (fst (a_getGeneric e k a))" by (auto simp: a_getGeneric_def split: option.splits val.splits)
  show "evolves e a (a_setGeneric e nx k xs t unit a)"
    by (auto simp: a_setGeneric_def good_def Let_def evolves_setexp evolves_setKey split: sum.splits option.splits)
  show "evolves e a (a_append e k xs a)"
    unfolding a_append_def by (intro evolves_string) (simp add: Let_def evolves_update)
  show "evolves e a (a_strlen e k a)" by (auto simp: a_strlen_def)
  show "evolves e a (a_setrange e k off xs a)"
    unfolding a_setrange_def by (auto split: option.splits intro!: evolves_string simp: Let_def evolves_update)
  show "evolves e a (a_getrange e k i j a)" by (auto simp: a_getrange_def split: option.splits)
  show "evolves e a (a_incr e k d a)"
    unfolding a_incr_def by (auto split: option.splits intro!: evolves_string simp: Let_def evolves_update)
  show "evolves e a (a_getset e k xs a)"
    using get by (auto simp: a_getset_def good_def case_prod_beta intro: evolves_trans [OF _ evolves_setKey])
qed

lemma bitop_look_evolves: "evolves e a (fst (a_bitop_look e ks a))"
proof (induction ks arbitrary: a)
  case (Cons k ks)
  have "evolves e a (fst (a_bitop_look e ks (a_read e k a)))" by (rule evolves_trans [OF _ Cons.IH]) simp
  then show ?case by (auto simp: Let_def case_prod_beta split: option.splits val.splits)
qed simp

lemma store_text_evolves: "evolves e a (a_store_text e k t a)"
proof -
  have "evolves e a (signalModifiedKey k (a_del k a))"
    by (rule evolvesI [of _ _ "[TouchKey k]"]) (auto intro: db_wf_intros simp: same_key_def)
  moreover have "evolves e a (a_del k a)" if "st_keys a k = None"
    by (rule evolvesI [of _ _ "[]"]) (use that in \<open>auto intro: db_wf_intros simp: same_key_def dest: db_wf_expires\<close>)
  ultimately show ?thesis by (auto simp: a_store_text_def good_def intro: evolves_setKey)
qed

lemma bit_evolves:
  "evolves e a (a_setbit e k off val a)" "evolves e a (a_getbit e k off a)" "evolves e a (a_bitcount e k args a)"
  "evolves e a (a_bitop e opname dst ks a)"
proof -
  have "evolves e b (signalModifiedKey k (a_put k (VStr xs) b))" for xs b
    by (rule evolvesI [of _ _ "[TouchKey k]"]) (auto intro!: db_wf_intros simp: same_key_def good_def)
  then show "evolves e a (a_setbit e k off val a)"
    unfolding a_setbit_def by (auto split: option.splits intro!: evolves_string)
  show "evolves e a (a_getbit e k off a)" by (auto simp: a_getbit_def split: option.splits)
  show "evolves e a (a_bitcount e k args a)" by (simp add: a_bitcount_def)
  obtain b r where l: "a_bitop_look e ks a = (b, r)" by fastforce
  then have "evolves e a b" using bitop_look_evolves [of e a ks] by simp
  then show "evolves e a (a_bitop e opname dst ks a)" using l
    by (auto simp: a_bitop_def Let_def split: option.splits intro: evolves_trans [OF _ store_text_evolves])
qed

lemma evolves_fold: "(\<And>x a. evolves e a (f x a)) \<Longrightarrow> evolves e a (fold f xs a)"
  by (induction xs arbitrary: a) (auto intro: evolves_trans)

lemma mset_evolves: "evolves e a (a_mset e kvs nx a)"
proof -
  have x: "evolves e a (fold (\<lambda>(k, v). a_expire e k) kvs a)" for a
    by (rule evolves_fold) auto
  have s: "evolves e a (fold (\<lambda>(k, v). a_setKey e k (VStr v)) kvs a)" for a
    by (rule evolves_fold) (auto intro: evolves_setKey simp: good_def)
  show ?thesis by (auto simp: a_mset_def Let_def x s intro: evolves_trans [OF x s])
qed

lemma mget_evolves: "evolves e a (a_mget e ks a)"
proof -
  have "evolves e a (a_mget_loop e ks a)" for a
  proof (induction ks arbitrary: a)
    case (Cons k ks)
    show ?case by (simp, rule evolves_trans [OF _ Cons.IH]) simp
  qed simp
  then show ?thesis unfolding a_mget_def by (rule evolves_trans [rotated]) simp
qed

lemma del_evolves: "evolves e a (a_delCommand ks a)"
proof -
  have d: "evolves e a (addDirty 1 (signalModifiedKey k (a_del k a)))" for k a
    by (rule evolvesI [of _ _ "[TouchKey k]"]) (auto intro: db_wf_intros simp: same_key_def)
  have n: "evolves e a (a_del k a)" if "st_keys a k = None" for k a
    by (rule evolvesI [of _ _ "[]"]) (use that in \<open>auto intro: db_wf_intros simp: same_key_def dest: db_wf_expires\<close>)
  have "evolves e a (fst (a_del_loop ks a m))" for m
    by (induction ks arbitrary: a m) (auto intro: evolves_trans [OF d] evolves_trans [OF n])
  then show ?thesis by (simp add: a_delCommand_def case_prod_beta)
qed

lemma rename_step:
  assumes "src \<noteq> dst" "st_keys b src = Some v"
    and "c = b\<lparr>st_keys := (st_keys b)(dst \<mapsto> v, src := None),
      st_expires := (st_expires b)(dst := w, src := None)\<rparr>"
  shows "evolves e b (addDirty n (signalModifiedKey dst (signalModifiedKey src c)))"
proof (rule evolvesI [of _ _ "[TouchKey src, TouchKey dst]"])
  assume wf: "db_wf b"
  have "good v" by (rule db_wf_good [OF wf assms(2)])
  then show "db_wf (addDirty n (signalModifiedKey dst (signalModifiedKey src c)))"
    using wf assms(3) by (auto simp: db_wf_def sets_ok_def good_def split: if_splits)
qed (auto simp: same_key_def assms(3))

lemma rename_evolves: "evolves e a (a_renameGeneric e src dst nx a)"
proof -
  define b where "b = a_expire e dst (a_expire e src a)"
  have b: "evolves e a b" unfolding b_def by (rule evolves_trans) (rule evolves_expire)+
  consider "src = dst" | "a_look e src a = None" | "src \<noteq> dst" "st_keys b dst \<noteq> None" "nx"
    | v where "src \<noteq> dst" "a_look e src a = Some v" "\<not> (st_keys b dst \<noteq> None \<and> nx)" by blast
  then show ?thesis
  proof cases
    case (4 v)
    then have "st_keys b src = Some v" by (auto simp: a_look_def b_def)
    then show ?thesis
      using 4 evolves_trans [OF b rename_step [OF 4(1) _ refl]]
      by (auto simp add: a_renameGeneric_def b_def [symmetric] simp del: fun_upd_apply)
  qed (use b in \<open>auto simp: a_renameGeneric_def b_def [symmetric] split: option.splits\<close>)
qed

lemma expire_evolves: "evolves e a (a_expireGeneric e base unit k t a)"
proof -
  have "evolves e a (signalModifiedKey k (rewriteClientCommandVector v (addDirty 1 (a_del k a))))" for a v
    by (rule evolvesI [of _ _ "[TouchKey k]"]) (auto intro: db_wf_intros simp: same_key_def)
  moreover have "evolves e a (signalModifiedKey k (addReply r (a_setexp k w a)))" if "st_keys a k \<noteq> None" for a w r
    by (rule evolvesI [of _ _ "[TouchKey k]"]) (use that in \<open>auto intro: db_wf_intros simp: same_key_def\<close>)
  ultimately show ?thesis
    by (auto simp: a_expireGeneric_def a_expireAt_def split: option.splits)
qed

lemma db_evolves:
  "evolves e a (a_existsCommand e k a)" "evolves e a (a_dbsizeCommand a)" "evolves e a (a_flushdbCommand a)"
  "evolves e a (a_typeCommand e k a)" "evolves e a (a_ttlGeneric e k ms a)" "evolves e a (a_persistCommand k a)"
proof -
  show "evolves e a (a_persistCommand k a)"
    by (rule evolvesI [of _ _ "[]"])
      (auto simp: a_persistCommand_def same_key_def intro: db_wf_intros)
  show "evolves e a (a_flushdbCommand a)"
    by (rule evolvesI [of _ _ "[TouchFlush]"]) (auto simp: a_flushdbCommand_def db_wf_def sets_ok_def same_key_def)
qed (simp_all add: a_existsCommand_def a_dbsizeCommand_def a_typeCommand_def a_ttlGeneric_def)

text \<open>Sets.  The conditions are those of the table.\<close>

lemma good_union: "\<lbrakk>db_wf a; \<not> wrong_type (st_keys a k); LLONG_MIN_text \<notin> T; members (st_keys a k) \<union> T \<noteq> {}\<rbrakk>
  \<Longrightarrow> good (VSet (members (st_keys a k) \<union> T))"
  by (auto simp: good_def members_def db_wf_def sets_ok_def split: option.splits val.splits)

lemma members_look: "\<lbrakk>\<not> wrong_type v; v \<noteq> None\<rbrakk> \<Longrightarrow> v = Some (VSet (members v))"
  by (auto simp: wrong_type_def members_def split: option.splits val.splits)

lemma members_ok: "db_wf a \<Longrightarrow> LLONG_MIN_text \<notin> members (st_keys a k)"
  by (auto simp: members_def db_wf_def sets_ok_def split: option.splits val.splits)

lemma members_nonempty: "\<lbrakk>db_wf a; st_keys a k = Some (VSet S)\<rbrakk> \<Longrightarrow> S \<noteq> {}"
  by (auto simp: db_wf_def sets_ok_def)

lemma evolves_putset:
  assumes "LLONG_MIN_text \<notin> S"
  shows "evolves e a (signalModifiedKey k (a_putset k S a))"
  by (rule evolvesI [of _ _ "[TouchKey k]"]) (use assms in \<open>simp add: db_wf_putset, simp, simp add: same_key_def a_putset_def\<close>)

lemma sadd_evolves:
  assumes "LLONG_MIN_text \<notin> set vs" "vs \<noteq> []"
  shows "evolves e a (a_sadd e k vs a)"
proof -
  define b where "b = a_expire e k a"
  define v where "v = st_keys b k"
  have look: "a_look e k a = v" by (simp add: a_look_def v_def b_def del: a_expire_simps)
  let ?S = "members v" and ?n = "int (card (set vs - members v))"
  have "evolves e b ((if ?n \<noteq> 0 then signalModifiedKey k else id) (a_put k (VSet (?S \<union> set vs)) b))" (is "evolves e b ?c")
    if w: "\<not> wrong_type v"
  proof (rule evolvesI [of _ _ "if ?n \<noteq> 0 then [TouchKey k] else []"])
    assume wf: "db_wf b"
    have "good (VSet (?S \<union> set vs))" unfolding v_def
      by (rule good_union [OF wf]) (use w assms in \<open>auto simp: v_def\<close>)
    then show "db_wf ?c" using wf by (simp add: db_wf_put)
  next
    fix j assume "db_wf b" and j: "TouchKey j \<notin> set (if ?n \<noteq> 0 then [TouchKey k] else [])"
    show "same_key e b ?c j"
    proof (cases "?n = 0 \<and> j = k")
      case True
      then have "set vs \<subseteq> ?S" by simp
      then have "v \<noteq> None" "?S \<union> set vs = ?S" using assms(2) by (cases v; auto simp: members_def)+
      then have "st_keys b k = Some (VSet (?S \<union> set vs))" using members_look [OF w] by (simp add: v_def)
      then show ?thesis using True by (simp add: same_key_def)
    qed (use j in \<open>auto simp: same_key_def split: if_splits\<close>)
  qed simp
  then have "evolves e b (a_sadd e k vs a)"
    by (simp add: a_sadd_def look b_def [symmetric] Let_def)
  then show ?thesis unfolding b_def by (rule evolves_expire_trans)
qed

lemma srem_evolves: "evolves e a (a_srem e k vs a)"
proof -
  define b where "b = a_expire e k a"
  define v where "v = st_keys b k"
  have look: "a_look e k a = v" by (simp add: a_look_def v_def b_def del: a_expire_simps)
  let ?S = "members v" and ?n = "int (card (set vs \<inter> members v))"
  have "evolves e b (a_putset k (?S - set vs) b)" if "?n = 0" "v \<noteq> None" "\<not> wrong_type v"
  proof (rule evolvesI [of _ _ "[]"])
    assume wf: "db_wf b"
    then show "db_wf (a_putset k (?S - set vs) b)" using members_ok [OF wf, of k] by (simp add: db_wf_putset v_def)
  next
    fix j assume wf: "db_wf b"
    have eq: "?S - set vs = ?S" using that(1) by auto
    have v: "st_keys b k = Some (VSet ?S)" using members_look [OF that(3,2)] by (simp add: v_def)
    show "same_key e b (a_putset k (?S - set vs) b) j"
      unfolding eq using members_nonempty [OF wf v] v by (simp add: a_putset_def same_key_def)
  qed simp
  moreover have "evolves e b (signalModifiedKey k (a_putset k (?S - set vs) b))"
    by (rule evolves_wf, rule evolves_putset) (use members_ok [of b k] in \<open>simp add: v_def\<close>)
  ultimately have "evolves e b (a_srem e k vs a)"
    by (auto simp add: a_srem_def look b_def [symmetric] Let_def)
  then show ?thesis unfolding b_def by (rule evolves_expire_trans)
qed

lemma smove_evolves:
  assumes "ele \<noteq> LLONG_MIN_text"
  shows "evolves e a (a_smove e src dst ele a)"
proof -
  define b where "b = a_expire e dst (a_expire e src a)"
  let ?S = "members (st_keys b src)" and ?T = "members (st_keys b dst)"
  let ?c = "signalModifiedKey dst (signalModifiedKey src (a_put dst (VSet (insert ele ?T)) (a_putset src (?S - {ele}) b)))"
  have b: "evolves e a b" unfolding b_def by (rule evolves_trans) (rule evolves_expire)+
  have "evolves e b ?c"
  proof (rule evolvesI [of _ _ "[TouchKey src, TouchKey dst]"])
    assume wf: "db_wf b"
    then have "db_wf (a_putset src (?S - {ele}) b)" using members_ok [OF wf, of src] by (simp add: db_wf_putset)
    moreover have "good (VSet (insert ele ?T))" using members_ok [OF wf, of dst] assms by (simp add: good_def)
    ultimately show "db_wf ?c" by (simp add: db_wf_put)
  qed (simp_all add: same_key_def a_putset_def)
  then have "evolves e a ?c" by (rule evolves_trans [OF b])
  then show ?thesis using b by (auto simp: a_smove_def b_def [symmetric] Let_def)
qed

lemma spop_evolves: "evolves e a (a_spop e k t a)"
proof -
  define b where "b = a_expire e k a"
  have look: "a_look e k a = st_keys b k" by (simp add: a_look_def b_def)
  have "evolves e b (signalModifiedKey k (a_putset k (members (st_keys b k) - {t}) b))"
    by (rule evolves_wf, rule evolves_putset) (use members_ok [of b k] in simp)
  then have "evolves e b (signalModifiedKey k (addReply r (rewriteClientCommandVector v
      (a_putset k (members (st_keys b k) - {t}) b))))" for r v
    by (simp add: evolves_def signals_def same_key_def)
  then have "evolves e b (a_spop e k t a)"
    by (auto simp: a_spop_def look b_def [symmetric] Let_def)
  then show ?thesis unfolding b_def by (rule evolves_expire_trans)
qed

lemma evolves_visit [simp]: "evolves e a (a_visit e store k a)"
  by (simp add: a_visit_def)

lemma inter_look_evolves: "evolves e a (fst (a_inter_look e store ks a))"
proof (induction ks arbitrary: a)
  case (Cons k ks)
  show ?case using evolves_trans [OF evolves_visit Cons.IH [of "a_visit e store k a"]] by (simp add: Let_def)
qed simp

lemma union_look_evolves: "evolves e a (fst (a_union_look e store ks a))"
proof (induction ks arbitrary: a)
  case (Cons k ks)
  show ?case using evolves_trans [OF evolves_visit Cons.IH [of "a_visit e store k a"]] by (simp add: Let_def)
qed simp

lemma set_result_evolves:
  assumes "a_set_result dst T b c" "db_wf b \<Longrightarrow> LLONG_MIN_text \<notin> T"
  shows "evolves e b c"
proof (cases dst)
  case None
  then show ?thesis using assms(1) by (auto simp: a_set_result_def a_reply_set_def)
next
  case (Some d)
  have "evolves e b (signalModifiedKey d (addReply r (a_putset d T (a_del d b))))" for r
  proof (rule evolvesI [of _ _ "[TouchKey d]"])
    assume wf: "db_wf b"
    then show "db_wf (signalModifiedKey d (addReply r (a_putset d T (a_del d b))))"
      using assms(2) by (simp add: db_wf_putset db_wf_del)
  qed (simp_all add: same_key_def a_putset_def)
  then show ?thesis using assms(1) Some by (simp add: a_set_result_def a_store_set_def)
qed

lemma sinter_evolves:
  assumes "a_sinter e ks dst a c" "ks \<noteq> []"
  shows "evolves e a c"
proof -
  obtain b r where l: "a_inter_look e (dst \<noteq> None) ks a = (b, r)" by fastforce
  have b: "evolves e a b" using inter_look_evolves [of e a "dst \<noteq> None" ks] l by simp
  have "LLONG_MIN_text \<notin> inter_of b ks" if "db_wf b"
    using members_ok [OF that] assms(2) by (cases ks) (auto simp: inter_of_def)
  then have "evolves e b c" if "r = AllSets"
    using assms(1) l that by (intro set_result_evolves [of dst "inter_of b ks"]) (auto simp: a_sinter_def)
  moreover have "evolves e b (signalModifiedKey d (a_del d b))" for d
    by (rule evolvesI [of _ _ "[TouchKey d]"]) (auto intro: db_wf_intros simp: same_key_def)
  moreover have "evolves e b (a_del d b)" if "st_keys b d = None" for d
    by (rule evolvesI [of _ _ "[]"]) (use that in \<open>auto intro: db_wf_intros simp: same_key_def dest: db_wf_expires\<close>)
  ultimately have "evolves e b c" using assms(1) l
    by (auto simp: a_sinter_def split: inter_lookup.splits option.splits if_splits)
  then show ?thesis by (rule evolves_trans [OF b])
qed

lemma sunion_diff_evolves:
  assumes "a_sunion_diff e ks dst op a c"
  shows "evolves e a c"
proof -
  obtain b r where l: "a_union_look e (dst \<noteq> None) ks a = (b, r)" by fastforce
  have b: "evolves e a b" using union_look_evolves [of e a "dst \<noteq> None" ks] l by simp
  let ?T = "case op of REDIS_OP_UNION \<Rightarrow> union_of b ks | REDIS_OP_DIFF \<Rightarrow> diff_of b ks"
  have "LLONG_MIN_text \<notin> ?T" if "db_wf b"
    using members_ok [OF that] by (cases ks; cases op) (auto simp: union_of_def)
  then have "evolves e b c"
    using assms l by (cases r) (auto simp: a_sunion_diff_def intro: set_result_evolves)
  then show ?thesis by (rule evolves_trans [OF b])
qed

lemma set_read_evolves:
  "evolves e a (a_sismember e k t a)" "evolves e a (a_scard e k a)"
  "a_srandmember e k a c \<Longrightarrow> evolves e a c" "a_srandmember_count e k l a c \<Longrightarrow> evolves e a c"
proof -
  show "evolves e a (a_sismember e k t a)" "evolves e a (a_scard e k a)"
    by (simp_all add: a_sismember_def a_scard_def Let_def)
  show "evolves e a c" if "a_srandmember e k a c"
    using that by (auto simp: a_srandmember_def Let_def split: if_splits)
  have "evolves e a (a_expire e k (a_read e k a))" by (rule evolves_trans [of _ _ "a_read e k a"]) simp_all
  then show "evolves e a c" if "a_srandmember_count e k l a c"
    using that by (auto simp: a_srandmember_count_def a_members_reply_def a_reply_set_def Let_def split: if_splits)
qed

lemma randomkey_evolves: "s_randomkey e ts a c \<Longrightarrow> evolves e a c"
proof -
  have "evolves e a (fold (a_expire e) ks a)" for ks by (rule evolves_fold) simp
  then show "s_randomkey e ts a c \<Longrightarrow> evolves e a c" by (auto simp: s_randomkey_def Let_def)
qed

subsection \<open>The replies\<close>

lemma replies_srv [simp]:
  "replies n (a_expire e k a) b = replies n a b" "replies n a (addDirty m b) = replies n a b"
  "replies n (a_read e k a) b = replies n a b" "replies n a (signalModifiedKey k b) = replies n a b"
  "replies n a (a_put k v b) = replies n a b" "replies n a (a_putset k S b) = replies n a b"
  "replies n a (rewriteClientCommandVector w b) = replies n a b"
  "replies n a (a_setexp k t b) = replies n a b"
  by (simp_all add: replies_def)

lemma replies_addReply [simp]:
  "\<lbrakk>out (st_srv b) = out (st_srv a); r \<noteq> Pending; elements r = 0\<rbrakk> \<Longrightarrow> replies (Suc 0) a (addReply r b)"
  by simp

lemma replies_setGeneric: "replies 1 a (a_setGeneric e nx k xs t unit a)"
  by (auto simp: a_setGeneric_def Let_def set_ttl_def split: option.splits)

lemma replies_update [simp]: "replies (Suc 0) b (a_update k xs n b)"
  by (simp add: a_update_def)

lemma string_replies:
  "replies 1 a (fst (a_getGeneric e k a))" "replies 1 a (a_append e k xs a)" "replies 1 a (a_strlen e k a)"
  "replies 1 a (a_setrange e k off xs a)" "replies 1 a (a_getrange e k i j a)" "replies 1 a (a_incr e k d a)"
  "replies 1 a (a_getset e k xs a)"
proof -
  show get: "replies 1 a (fst (a_getGeneric e k a))" by (auto simp: a_getGeneric_def split: option.splits val.splits)
  show "replies 1 a (a_append e k xs a)" unfolding a_append_def
    by (intro replies_string) (simp_all add: Let_def)
  show "replies 1 a (a_strlen e k a)" by (auto simp: a_strlen_def split: option.splits val.splits)
  show "replies 1 a (a_setrange e k off xs a)" unfolding a_setrange_def
    by (auto split: option.splits intro!: replies_string simp: Let_def)
  show "replies 1 a (a_getrange e k i j a)" by (auto simp: a_getrange_def split: option.splits val.splits)
  show "replies 1 a (a_incr e k d a)" unfolding a_incr_def
    by (intro replies_string) (auto split: option.splits simp: Let_def)
  have "replies n b (a_setKey e k v c) = replies n b c" for n v c and b :: adb by (simp add: replies_def)
  then show "replies 1 a (a_getset e k xs a)" using get by (simp add: a_getset_def case_prod_beta)
qed

lemma bitop_look_replies:
  "out (st_srv (fst (a_bitop_look e ks a))) =
    out (st_srv a) @ (if snd (a_bitop_look e ks a) = None then [shared_wrongtypeerr] else [])"
  by (induction ks arbitrary: a) (auto simp: Let_def case_prod_beta split: option.splits val.splits)

lemma bit_replies:
  "replies 1 a (a_setbit e k off val a)" "replies 1 a (a_getbit e k off a)" "replies 1 a (a_bitcount e k args a)"
  "replies 1 a (a_bitop e opname dst ks a)"
proof -
  show "replies 1 a (a_setbit e k off val a)" unfolding a_setbit_def
    by (auto split: option.splits intro!: replies_string simp: bit_reply_def)
  show "replies 1 a (a_getbit e k off a)" by (auto simp: a_getbit_def bit_reply_def split: option.splits val.splits)
  show "replies 1 a (a_bitcount e k args a)" by (auto simp: a_bitcount_def split: option.splits val.splits list.splits)
  have "out (st_srv (a_store_text e dst t b)) = out (st_srv b)" for t b by (simp add: a_store_text_def)
  then show "replies 1 a (a_bitop e opname dst ks a)" using bitop_look_replies [of e ks a]
    by (cases "a_bitop_look e ks a") (auto simp: a_bitop_def split: option.splits)
qed

lemma mset_replies: "replies 1 a (a_mset e kvs nx a)"
proof -
  have "out (st_srv (fold (\<lambda>(k, v). a_expire e k) kvs b)) = out (st_srv b)" for b :: adb
    by (induction kvs arbitrary: b) auto
  moreover have "out (st_srv (fold (\<lambda>(k, v). a_setKey e k (VStr v)) kvs b)) = out (st_srv b)" for b :: adb
    by (induction kvs arbitrary: b) auto
  ultimately show ?thesis by (auto simp: a_mset_def Let_def)
qed

lemma mget_replies: "replies 1 a (a_mget e ks a)"
proof -
  have "\<exists>rs. out (st_srv (a_mget_loop e ks b)) = out (st_srv b) @ rs \<and> complete (length ks) rs" for b
  proof (induction ks arbitrary: b)
    case (Cons k ks)
    let ?r = "case a_look e k b of Some (VStr xs) \<Rightarrow> Bulk xs | _ \<Rightarrow> NullBulk"
    obtain rs where rs: "out (st_srv (a_mget_loop e ks (addReply ?r (a_read e k b)))) = out (st_srv (addReply ?r (a_read e k b))) @ rs"
      "complete (length ks) rs" using Cons.IH by blast
    have "out (st_srv (a_mget_loop e (k # ks) b)) = out (st_srv b) @ (?r # rs)" using rs(1) by simp
    moreover have "complete (length (k # ks)) (?r # rs)" using rs(2) by (auto split: option.splits val.splits)
    ultimately show ?case by blast
  qed simp
  from this [of "addReply (MultiBulk (int (length ks))) a"] show ?thesis
    by (auto simp: a_mget_def intro: replies_multi)
qed

lemma db_replies:
  "replies 1 a (a_existsCommand e k a)" "replies 1 a (a_dbsizeCommand a)" "replies 1 a (a_flushdbCommand a)"
  "replies 1 a (a_typeCommand e k a)" "replies 1 a (a_ttlGeneric e k ms a)" "replies 1 a (a_persistCommand k a)"
  "replies 1 a (a_delCommand ks a)" "replies 1 a (a_renameGeneric e k j nx a)" "replies 1 a (a_expireGeneric e t unit k xs a)"
proof -
  have "out (st_srv (fst (a_del_loop ks b m))) = out (st_srv b)" for b m
    by (induction ks arbitrary: b m) auto
  then show "replies 1 a (a_delCommand ks a)" by (simp add: a_delCommand_def case_prod_beta)
  show "replies 1 a (a_renameGeneric e k j nx a)" by (auto simp: a_renameGeneric_def Let_def split: option.splits)
  show "replies 1 a (a_expireGeneric e t unit k xs a)"
    by (auto simp: a_expireGeneric_def a_expireAt_def split: option.splits)
qed (simp_all add: a_existsCommand_def a_dbsizeCommand_def a_typeCommand_def a_ttlGeneric_def a_flushdbCommand_def
  a_persistCommand_def)

lemma out_visit [simp]: "out (st_srv (a_visit e store k a)) = out (st_srv a)"
  by (simp add: a_visit_def)

lemma inter_look_replies:
  "out (st_srv (fst (a_inter_look e store ks a))) =
    out (st_srv a) @ (if snd (a_inter_look e store ks a) = WrongType then [shared_wrongtypeerr] else [])"
  by (induction ks arbitrary: a) (auto simp: Let_def)

lemma union_look_replies:
  "out (st_srv (fst (a_union_look e store ks a))) =
    out (st_srv a) @ (if snd (a_union_look e store ks a) then [] else [shared_wrongtypeerr])"
  by (induction ks arbitrary: a) (auto simp: Let_def)

lemma replies_members: "out (st_srv b) = out (st_srv a) \<Longrightarrow> replies 1 a (a_members_reply ts b)"
  by (auto simp: a_members_reply_def intro: replies_multi)

lemma set_result_replies: "\<lbrakk>a_set_result dst T b c; out (st_srv b) = out (st_srv a)\<rbrakk> \<Longrightarrow> replies 1 a c"
  using replies_members [of b a]
  by (cases dst) (auto simp: a_set_result_def a_store_set_def a_reply_set_def a_members_reply_def)

lemma set_replies:
  "replies 1 a (a_sadd e k vs a)" "replies 1 a (a_srem e k vs a)" "replies 1 a (a_smove e k j t a)"
  "replies 1 a (a_sismember e k t a)" "replies 1 a (a_scard e k a)" "replies 1 a (a_spop e k t a)"
  "a_srandmember e k a c \<Longrightarrow> replies 1 a c" "a_srandmember_count e k l a c \<Longrightarrow> replies 1 a c"
  "a_sinter e ks dst a c \<Longrightarrow> replies 1 a c" "a_sunion_diff e ks dst op a c \<Longrightarrow> replies 1 a c"
proof -
  show "replies 1 a c" if "a_srandmember_count e k l a c"
  proof -
    have "replies 1 a c" if "c = a_members_reply ts (a_read e k a)" for ts
      using replies_members [of "a_read e k a" a] that by simp
    moreover have "replies 1 a c" if "a_reply_set S (a_read e k (a_read e k a)) c" for S
      using set_result_replies [of None S "a_read e k (a_read e k a)" c a] that by (simp add: a_set_result_def)
    ultimately show ?thesis using that by (auto simp: a_srandmember_count_def Let_def split: if_splits)
  qed
  show "replies 1 a c" if "a_srandmember e k a c"
    using that by (auto simp: a_srandmember_def Let_def split: if_splits)
  show "replies 1 a c" if "a_sinter e ks dst a c"
    using that inter_look_replies [of e "dst \<noteq> None" ks a]
    by (cases "a_inter_look e (dst \<noteq> None) ks a")
      (auto simp: a_sinter_def intro: set_result_replies [unfolded One_nat_def] split: inter_lookup.splits option.splits if_splits)
  show "replies 1 a c" if "a_sunion_diff e ks dst op a c"
    using that union_look_replies [of e "dst \<noteq> None" ks a]
    by (cases "a_union_look e (dst \<noteq> None) ks a")
      (auto simp: a_sunion_diff_def intro: set_result_replies [unfolded One_nat_def] split: if_splits)
qed (auto simp: a_sadd_def a_srem_def a_smove_def a_sismember_def a_scard_def a_spop_def Let_def)

lemma randomkey_replies: "s_randomkey e ts a c \<Longrightarrow> replies 1 a c"
proof -
  have "out (st_srv (fold (a_expire e) ks b)) = out (st_srv b)" for b :: adb and ks
    by (induction ks arbitrary: b) auto
  then show "s_randomkey e ts a c \<Longrightarrow> replies 1 a c" by (auto simp: s_randomkey_def Let_def)
qed

section \<open>All rows of the table\<close>

declare One_nat_def [simp del]

lemma replies_scalar [simp]: "\<lbrakk>r \<noteq> Pending; elements r = 0\<rbrakk> \<Longrightarrow> replies 1 a (addReply r a)"
  by (simp add: One_nat_def)

lemma tame_rows: "list_all P []" "\<lbrakk>P x; list_all P xs\<rbrakk> \<Longrightarrow> list_all P (x # xs)"
  by simp_all

definition tame :: "acommand \<Rightarrow> bool" where
  "tame ac \<longleftrightarrow> (\<forall>e ts a c. \<not> wrong_arity (a_arity ac) (length ts) \<and> a_cond ac e ts a \<and> a_spec ac e ts a c \<longrightarrow>
     evolves e a c \<and> replies 1 a c)"

lemma tame_arow: "(\<And>e ts a c. \<lbrakk>\<not> wrong_arity ar (length ts); p e ts a; s e ts a c\<rbrakk> \<Longrightarrow> evolves e a c \<and> replies 1 a c)
  \<Longrightarrow> tame (arow n ar p s)"
  unfolding tame_def arow_def acommand.simps by blast

lemma incr_tame: "s_incr f e ts a c \<Longrightarrow> evolves e a c \<and> replies 1 a c"
  using string_evolves(7) string_replies(6) by (auto simp: s_incr_def split: option.splits)

lemma mset_tame: "s_mset nx e ts a c \<Longrightarrow> evolves e a c \<and> replies 1 a c"
  using mset_evolves mset_replies by (auto simp: s_mset_def split: if_splits)

lemma spop_tame: "s_spop e ts a c \<Longrightarrow> evolves e a c \<and> replies 1 a c"
  using spop_evolves set_replies(6) by (auto simp: s_spop_def)

lemma srandmember_tame: "s_srandmember e ts a c \<Longrightarrow> evolves e a c \<and> replies 1 a c"
  using set_read_evolves(3,4) set_replies(7,8) by (auto simp: s_srandmember_def split: if_splits option.splits)

lemma randomkey_tame: "s_randomkey e ts a c \<Longrightarrow> evolves e a c \<and> replies 1 a c"
  by (simp add: randomkey_evolves randomkey_replies)

lemma sadd_tame:
  "\<lbrakk>\<not> wrong_arity (- 3) (length ts); c_sadd e ts a; c = a_sadd e (ts ! 1) (drop 2 ts) a\<rbrakk> \<Longrightarrow> evolves e a c \<and> replies 1 a c"
  using sadd_evolves [of "drop 2 ts" e a "ts ! 1"] set_replies(1)
  by (auto simp: c_sadd_def printable_def wrong_arity_def)

lemma smove_tame: "\<lbrakk>c_smove e ts a; c = a_smove e (ts ! 1) (ts ! 2) (ts ! 3) a\<rbrakk> \<Longrightarrow> evolves e a c \<and> replies 1 a c"
  using smove_evolves set_replies(3) by (auto simp: c_smove_def printable_def)

lemma sinter_tame:
  "\<lbrakk>\<not> wrong_arity ar (length ts); ar \<in> {2, - 2}; a_sinter e (drop 1 ts) None a c\<rbrakk> \<Longrightarrow> evolves e a c \<and> replies 1 a c"
  "\<lbrakk>\<not> wrong_arity (- 3) (length ts); a_sinter e (drop 2 ts) dst a c\<rbrakk> \<Longrightarrow> evolves e a c \<and> replies 1 a c"
  using sinter_evolves [of e "drop 1 ts" None a c] sinter_evolves [of e "drop 2 ts" dst a c]
  by (auto simp: wrong_arity_def set_replies)

lemmas simple_tame = string_evolves string_replies mget_evolves mget_replies del_evolves db_evolves db_replies
  rename_evolves expire_evolves srem_evolves set_read_evolves sunion_diff_evolves set_replies replies_setGeneric bit_evolves bit_replies

lemma table_tame: "list_all tame aCommandTable"
  unfolding aCommandTable_def
  by (intro tame_rows tame_arow; (erule incr_tame mset_tame spop_tame srandmember_tame randomkey_tame)?;
    (erule (1) smove_tame)?; (erule (2) sadd_tame)?; (erule sinter_tame(1) [OF _ _], simp, assumption)?;
    (erule (1) sinter_tame(2))?; (simp add: simple_tame)?)

section \<open>The interface to the transactions\<close>

text \<open>
  \<open>rep st m\<close>: the database looks like \<open>m\<close>; \<open>safe p e av st\<close>: the procedure may be run there;
  \<open>keeps x y\<close>: what a key looked like may change from \<open>x\<close> to \<open>y\<close> without a signal.
\<close>

locale keyspace =
  fixes seed :: "32 word"
    and rep :: "db \<Rightarrow> (byte list \<Rightarrow> 'v option) \<Rightarrow> bool"
    and safe :: "proc \<Rightarrow> env \<Rightarrow> sds list \<Rightarrow> db \<Rightarrow> bool"
    and keeps :: "'v option \<Rightarrow> 'v option \<Rightarrow> bool"
  assumes keeps_refl [simp]: "keeps x x"
    and keeps_trans: "\<lbrakk>keeps x y; keeps y z\<rbrakk> \<Longrightarrow> keeps x z"
    and rep_srv: "rep (on_srv f st) m = rep st m"
    and safe_srv: "safe p e av (on_srv f st) = safe p e av st"
    and safe_seed: "safe p e av st \<Longrightarrow> e_seed e = seed"
    and find_key: "rep st m \<Longrightarrow> \<exists>d de. dictFind (dbDictType seed) (st_keys st) k = Some (d, de) \<and>
      (de \<noteq> None \<longleftrightarrow> m k \<noteq> None) \<and> rep (st\<lparr>st_keys := d\<rparr>) m"
    and returns: "\<lbrakk>rep st m; safe p e av st\<rbrakk> \<Longrightarrow> \<exists>rnd st'. p e rnd av st = Some st'"
    and signalled: "\<lbrakk>rep st m; safe p e av st; p e rnd av st = Some st'\<rbrakk> \<Longrightarrow>
      \<exists>m' ts. rep st' m' \<and> touched (st_srv st') = touched (st_srv st) @ ts \<and> replies 1 st st' \<and>
        (\<forall>k. TouchKey k \<in> set ts \<or> TouchFlush \<in> set ts \<and> m k \<noteq> None \<or> keeps (m k) (m' k))"

subsection \<open>The commands of the table provide it\<close>

text \<open>The value of each key together with its expire time.\<close>

definition a_view :: "adb \<Rightarrow> byte list \<Rightarrow> (val \<times> int option) option" where
  "a_view a k = map_option (\<lambda>v. (v, st_expires a k)) (st_keys a k)"

lemma a_view_None [simp]: "(a_view a k = None) = (st_keys a k = None)"
  by (simp add: a_view_def)

lemma a_view_srv [simp]: "a_view (on_srv f a) = a_view a"
  by (simp add: a_view_def on_srv_def fun_eq_iff)

definition db_ok :: "32 word \<Rightarrow> db \<Rightarrow> (byte list \<Rightarrow> (val \<times> int option) option) \<Rightarrow> bool" where
  "db_ok seed st m \<longleftrightarrow> (\<exists>e a. e_seed e = seed \<and> db_rel e st a \<and> db_wf a \<and> m = a_view a)"

text \<open>The expire time \<open>w\<close> lies in the past, and keys are expired.\<close>

definition due :: "env \<Rightarrow> int \<Rightarrow> bool" where
  "due e w \<longleftrightarrow> 0 \<le> w \<and> \<not> e_loading e \<and> w < e_now e"

text \<open>
  A key that no command signals keeps its value.  Its expire time may be removed, and the key may be
  deleted if its expire time is due in one of the environments \<open>E\<close>.
\<close>

definition keeps :: "env set \<Rightarrow> (val \<times> int option) option \<Rightarrow> (val \<times> int option) option \<Rightarrow> bool" where
  "keeps E x y \<longleftrightarrow> y = x \<or>
     (\<exists>v w. x = Some (v, Some w) \<and> (y = Some (v, None) \<or> y = None \<and> (\<exists>e \<in> E. due e w)))"

lemma keeps_refl [simp]: "keeps E x x"
  by (simp add: keeps_def)

lemma keeps_trans: "\<lbrakk>keeps E x y; keeps E y z\<rbrakk> \<Longrightarrow> keeps E x z"
  by (auto simp: keeps_def)

lemma expired_due: "expired e a k \<longleftrightarrow> (\<exists>w. st_expires a k = Some w \<and> due e w)"
  by (auto simp: expired_def due_def split: option.splits)

lemma same_key_keeps:
  assumes "same_key e a b k" "db_wf a" "db_wf b" "e \<in> E"
  shows "keeps E (a_view a k) (a_view b k)"
proof (cases "st_keys a k")
  case None
  then show ?thesis using same_key_None [OF assms(1)] by (simp add: a_view_def)
next
  case (Some v)
  then show ?thesis using assms(1,4)
    by (cases "st_expires a k") (auto simp: same_key_def keeps_def a_view_def expired_due)
qed

text \<open>A procedure of the table, with a correct number of arguments that meet the condition of its row.\<close>

definition in_range :: "32 word \<Rightarrow> proc \<Rightarrow> env \<Rightarrow> sds list \<Rightarrow> db \<Rightarrow> bool" where
  "in_range seed p e av st \<longleftrightarrow> e_seed e = seed \<and> (\<exists>ts. list_all2 arg_rep av ts) \<and>
     (\<exists>n < length redisCommandTable. p = c_proc (redisCommandTable ! n) \<and>
        \<not> wrong_arity (c_arity (redisCommandTable ! n)) (length av) \<and>
        (\<forall>r a ts. db_rel e (st\<lparr>st_srv := r\<rparr>) a \<and> db_wf a \<and> list_all2 arg_rep av ts \<longrightarrow>
           a_cond (aCommandTable ! n) e ts a))"

lemma db_rel_seed: "e_seed e = e_seed e' \<Longrightarrow> db_rel e st a = db_rel e' st a"
  by (simp add: db_rel_def)

lemma table_row:
  assumes "n < length redisCommandTable"
  shows "row_refines (redisCommandTable ! n) (aCommandTable ! n)" "tame (aCommandTable ! n)"
  using assms list_all2_nthD [OF table_refines] list_all2_lengthD [OF table_refines] table_tame
  by (simp_all add: list_all_length)

lemma on_srv_rel: "db_rel e st a \<Longrightarrow> db_rel e (on_srv f st) (on_srv f a)"
  by (simp add: db_rel_def on_srv_def)

lemma db_ok_srv: "db_ok seed (on_srv f st) m = db_ok seed st m"
proof -
  have "db_ok seed (on_srv f st) m" if "db_ok seed st m" for f st
  proof -
    obtain e a where a: "e_seed e = seed" "db_rel e st a" "db_wf a" "m = a_view a" using \<open>db_ok seed st m\<close> by (auto simp: db_ok_def)
    show ?thesis
      unfolding db_ok_def using a on_srv_rel [OF a(2), of f] by (intro exI [of _ e] exI [of _ "on_srv f a"]) simp
  qed
  moreover have "on_srv (\<lambda>r. st_srv st) (on_srv f st) = st" by (simp add: on_srv_def)
  ultimately show ?thesis by metis
qed

lemma in_range_run:
  assumes "db_ok seed st m" "in_range seed p e av st"
  shows "\<exists>rnd st'. p e rnd av st = Some st'"
    and "p e rnd av st = Some st' \<Longrightarrow> \<exists>m' ts. db_ok seed st' m' \<and> touched (st_srv st') = touched (st_srv st) @ ts \<and>
      replies 1 st st' \<and> (\<forall>k. TouchKey k \<in> set ts \<or> TouchFlush \<in> set ts \<and> m k \<noteq> None \<or> keeps {e} (m k) (m' k))"
proof -
  obtain a where rel: "db_rel e st a" and a: "db_wf a" "m = a_view a" and seed: "e_seed e = seed"
    using assms by (auto simp: db_ok_def in_range_def intro: db_rel_seed [THEN iffD1])
  obtain n ts where n: "n < length redisCommandTable" and p: "p = c_proc (redisCommandTable ! n)"
    and ar: "\<not> wrong_arity (c_arity (redisCommandTable ! n)) (length av)" and ts: "list_all2 arg_rep av ts"
    and cond: "\<forall>r a ts. db_rel e (st\<lparr>st_srv := r\<rparr>) a \<and> db_wf a \<and> list_all2 arg_rep av ts \<longrightarrow> a_cond (aCommandTable ! n) e ts a"
    using assms(2) by (auto simp: in_range_def)
  have "db_rel e (st\<lparr>st_srv := st_srv st\<rparr>) a" using rel by simp
  then have c: "a_cond (aCommandTable ! n) e ts a" using cond a(1) ts by blast
  have r: "refines p (c_arity (redisCommandTable ! n)) (a_cond (aCommandTable ! n)) (a_spec (aCommandTable ! n))"
    and arity: "a_arity (aCommandTable ! n) = c_arity (redisCommandTable ! n)"
    using table_row(1) [OF n] p unfolding row_refines_def by metis+
  have "sets_ok a" using a(1) by (simp add: db_wf_def)
  then have R: "(\<exists>rnd st'. p e rnd av st = Some st') \<and>
    (\<forall>rnd st'. p e rnd av st = Some st' \<longrightarrow> (\<exists>c. a_spec (aCommandTable ! n) e ts a c \<and> db_rel e st' c))"
    using r rel ts ar c unfolding refines_def by blast
  then show "\<exists>rnd st'. p e rnd av st = Some st'" by blast
  assume "p e rnd av st = Some st'"
  then obtain b where b: "a_spec (aCommandTable ! n) e ts a b" "db_rel e st' b" using R by blast
  have "\<not> wrong_arity (a_arity (aCommandTable ! n)) (length ts)" using ar arity list_all2_lengthD [OF ts] by simp
  then have t: "evolves e a b" "replies 1 a b" using table_row(2) [OF n] c b(1) by (auto simp: tame_def)
  then obtain us where us: "db_wf b" "touched (st_srv b) = touched (st_srv a) @ us"
    "\<And>k. TouchKey k \<in> set us \<or> TouchFlush \<in> set us \<and> st_keys a k \<noteq> None \<or> same_key e a b k"
    using a(1) by (auto simp: evolves_def signals_def)
  have srv: "st_srv st = st_srv a" "st_srv st' = st_srv b" using rel b(2) by (simp_all add: db_rel_def)
  have "keeps {e} (m k) (a_view b k)" if "same_key e a b k" for k
    using same_key_keeps [OF that a(1) us(1)] a(2) by simp
  moreover have "db_ok seed st' (a_view b)" using b(2) us(1) seed by (auto simp: db_ok_def)
  moreover have "replies 1 st st'" using t(2) srv by (simp add: replies_def)
  ultimately show "\<exists>m' ts. db_ok seed st' m' \<and> touched (st_srv st') = touched (st_srv st) @ ts \<and>
      replies 1 st st' \<and> (\<forall>k. TouchKey k \<in> set ts \<or> TouchFlush \<in> set ts \<and> m k \<noteq> None \<or> keeps {e} (m k) (m' k))"
    using us srv a(2) by (intro exI [of _ "a_view b"] exI [of _ us]) auto
qed

text \<open>The procedures are run in the environments \<open>E\<close>.\<close>

definition safe_in :: "env set \<Rightarrow> 32 word \<Rightarrow> proc \<Rightarrow> env \<Rightarrow> sds list \<Rightarrow> db \<Rightarrow> bool" where
  "safe_in E seed p e av st \<longleftrightarrow> e \<in> E \<and> in_range seed p e av st"

interpretation ks: keyspace seed "db_ok seed" "safe_in E seed" "keeps E" for seed E
proof
  show "keeps E x x" for x by simp
  show "keeps E x z" if "keeps E x y" "keeps E y z" for x y z using keeps_trans that .
  show "db_ok seed (on_srv f st) m = db_ok seed st m" for f st m by (rule db_ok_srv)
  show "safe_in E seed p e av (on_srv f st) = safe_in E seed p e av st" for p e av f st
    by (simp add: safe_in_def in_range_def on_srv_def)
  show "e_seed e = seed" if "safe_in E seed p e av st" for p e av st using that by (simp add: safe_in_def in_range_def)
  show "\<exists>d de. dictFind (dbDictType seed) (st_keys st) k = Some (d, de) \<and> (de \<noteq> None) = (m k \<noteq> None) \<and>
      db_ok seed (st\<lparr>st_keys := d\<rparr>) m" if "db_ok seed st m" for st m k
  proof -
    obtain e a where a: "e_seed e = seed" "db_rel e st a" "db_wf a" "m = a_view a" using \<open>db_ok seed st m\<close> by (auto simp: db_ok_def)
    have ok: "db_ok seed (st\<lparr>st_keys := d\<rparr>) m" if "db_rel e (st\<lparr>st_keys := d\<rparr>) a" for d
      using that a by (auto simp: db_ok_def)
    show ?thesis using find_ok [OF a(2), of k] a(1,4) ok by (auto simp: ok_iff)
  qed
  show "\<exists>rnd st'. p e rnd av st = Some st'" if "db_ok seed st m" "safe_in E seed p e av st" for st m p e av
    using in_range_run(1) that by (auto simp: safe_in_def)
  show "\<exists>m' ts. db_ok seed st' m' \<and> touched (st_srv st') = touched (st_srv st) @ ts \<and> replies 1 st st' \<and>
      (\<forall>k. TouchKey k \<in> set ts \<or> TouchFlush \<in> set ts \<and> m k \<noteq> None \<or> keeps E (m k) (m' k))"
    if "db_ok seed st m" "safe_in E seed p e av st" "p e rnd av st = Some st'" for st m p e av rnd st'
  proof -
    have "keeps E x y" if "keeps {e} x y" for x y
      using that \<open>safe_in E seed p e av st\<close> by (auto simp: keeps_def safe_in_def)
    then show ?thesis using in_range_run(2) [of seed st m p e av rnd st'] that unfolding safe_in_def by blast
  qed
qed

declare One_nat_def [simp]

end
