(* ===== verification/Server.thy ===== *)
theory Server
  imports Effects
begin

text \<open>
  \<open>processCommand\<close> and \<open>call\<close> of \<open>redis.c\<close>, and \<open>multi.c\<close>: the clients, the queueing of commands in
  a transaction, and the keys the clients watch.  The server has one database.  The dictionary of the
  watched keys is a map from a key to the list of the clients that watch it.
\<close>

section \<open>The state\<close>

text \<open>The procedures the code compares a command's \<open>proc\<close> with, and the others.\<close>

datatype cproc = Data proc | MultiProc | ExecProc | DiscardProc | WatchProc | UnwatchProc

type_synonym rcommand = "cproc command"

text \<open>The flags and the fields of \<open>redisClient\<close> that are read or written here.\<close>

record client =
  cl_multi :: bool                        \<comment> \<open>\<open>REDIS_MULTI\<close>\<close>
  cl_dirty_cas :: bool                    \<comment> \<open>\<open>REDIS_DIRTY_CAS\<close>\<close>
  cl_dirty_exec :: bool                   \<comment> \<open>\<open>REDIS_DIRTY_EXEC\<close>\<close>
  cl_close :: bool                        \<comment> \<open>\<open>REDIS_CLOSE_AFTER_REPLY\<close>\<close>
  cl_master :: bool                       \<comment> \<open>\<open>REDIS_MASTER\<close>\<close>
  cl_authenticated :: bool
  cl_subscriptions :: nat
  cl_mstate :: "(rcommand \<times> sds list) list" \<comment> \<open>\<open>mstate.commands\<close>\<close>
  cl_watched :: "byte list list"          \<comment> \<open>\<open>watched_keys\<close>\<close>
  cl_reply :: "reply list"

record server_state =
  sv_db :: db
  sv_watching :: "byte list \<rightharpoonup> nat list"  \<comment> \<open>\<open>db->watched_keys\<close>\<close>
  sv_clients :: "nat list"                \<comment> \<open>\<open>server.clients\<close>\<close>
  sv_client :: "nat \<Rightarrow> client"
  sv_feed :: "byte list list list"        \<comment> \<open>the commands fed to the append only file and the slaves\<close>
  sv_numcommands :: nat

text \<open>The configuration that \<open>processCommand\<close> tests.\<close>

record config =
  g_requirepass :: bool
  g_oom :: bool             \<comment> \<open>\<open>maxmemory\<close> is set and \<open>freeMemoryIfNeeded\<close> has nothing to free\<close>
  g_bgsave_err :: bool      \<comment> \<open>writes are to stop after the last failed background save\<close>
  g_slave_ro :: bool        \<comment> \<open>\<open>repl_slave_ro\<close>\<close>
  g_stale :: bool           \<comment> \<open>not connected to the master and \<open>repl_serve_stale_data\<close> is off\<close>
  g_lua_timedout :: bool

definition upd :: "nat \<Rightarrow> (client \<Rightarrow> client) \<Rightarrow> server_state \<Rightarrow> server_state" where
  "upd i f s = s\<lparr>sv_client := (sv_client s)(i := f (sv_client s i))\<rparr>"

definition reply_to :: "nat \<Rightarrow> reply \<Rightarrow> server_state \<Rightarrow> server_state" where
  "reply_to i r = upd i (\<lambda>c. c\<lparr>cl_reply := cl_reply c @ [r]\<rparr>)"

section \<open>Clients\<close>

definition createClient :: "nat \<Rightarrow> server_state \<Rightarrow> server_state" where
  "createClient i s = s\<lparr>sv_clients := sv_clients s @ [i],
     sv_client := (sv_client s)(i := \<lparr>cl_multi = False, cl_dirty_cas = False, cl_dirty_exec = False,
       cl_close = False, cl_master = False, cl_authenticated = False, cl_subscriptions = 0,
       cl_mstate = [], cl_watched = [], cl_reply = []\<rparr>)\<rparr>"

section \<open>Watched keys\<close>

definition watchForKey :: "nat \<Rightarrow> byte list \<Rightarrow> server_state \<Rightarrow> server_state" where
  "watchForKey i key s =
     (if key \<in> set (cl_watched (sv_client s i)) then s
      else let clients = (case sv_watching s key of None \<Rightarrow> [] | Some clients \<Rightarrow> clients)
           in upd i (\<lambda>c. c\<lparr>cl_watched := cl_watched c @ [key]\<rparr>)
                (s\<lparr>sv_watching := (sv_watching s)(key \<mapsto> clients @ [i])\<rparr>))"

text \<open>\<open>None\<close>: a watched key without its list (an assertion), or a list without the client.\<close>

fun unwatch_loop :: "nat \<Rightarrow> byte list list \<Rightarrow> server_state \<Rightarrow> server_state option" where
  "unwatch_loop i [] s = Some s"
| "unwatch_loop i (key # keys) s = do {
     clients \<leftarrow> sv_watching s key;
     if i \<notin> set clients then None
     else let clients = remove1 i clients;
              s = s\<lparr>sv_watching := (sv_watching s)(key := if length clients = 0 then None else Some clients)\<rparr>
          in unwatch_loop i keys (upd i (\<lambda>c. c\<lparr>cl_watched := remove1 key (cl_watched c)\<rparr>) s) }"

definition unwatchAllKeys :: "nat \<Rightarrow> server_state \<Rightarrow> server_state option" where
  "unwatchAllKeys i s = unwatch_loop i (cl_watched (sv_client s i)) s"

definition touchWatchedKey :: "byte list \<Rightarrow> server_state \<Rightarrow> server_state" where
  "touchWatchedKey key s =
     (case sv_watching s key of
        None \<Rightarrow> s
      | Some clients \<Rightarrow> fold (\<lambda>i. upd i (\<lambda>c. c\<lparr>cl_dirty_cas := True\<rparr>)) clients s)"

text \<open>
  The keys are looked up in the dictionary \<open>d\<close> that the flush is about to empty; a lookup may move
  its entries.
\<close>

fun flush_keys :: "env \<Rightarrow> nat \<Rightarrow> byte list list \<Rightarrow> (byte list, robj) dict \<Rightarrow> server_state
    \<Rightarrow> ((byte list, robj) dict \<times> server_state) option" where
  "flush_keys e i [] d s = Some (d, s)"
| "flush_keys e i (key # keys) d s = do {
     (d, de) \<leftarrow> dictFind (dbDictType (e_seed e)) d key;
     flush_keys e i keys d (if de \<noteq> None then upd i (\<lambda>c. c\<lparr>cl_dirty_cas := True\<rparr>) s else s) }"

fun touchWatchedKeysOnFlush :: "env \<Rightarrow> nat list \<Rightarrow> (byte list, robj) dict \<Rightarrow> server_state \<Rightarrow> server_state option" where
  "touchWatchedKeysOnFlush e [] d s = Some s"
| "touchWatchedKeysOnFlush e (i # is') d s = do {
     (d, s) \<leftarrow> flush_keys e i (cl_watched (sv_client s i)) d s;
     touchWatchedKeysOnFlush e is' d s }"

section \<open>Transactions\<close>

definition queueMultiCommand :: "nat \<Rightarrow> rcommand \<Rightarrow> sds list \<Rightarrow> server_state \<Rightarrow> server_state" where
  "queueMultiCommand i cmd av = upd i (\<lambda>c. c\<lparr>cl_mstate := cl_mstate c @ [(cmd, av)]\<rparr>)"

text \<open>\<open>freeClientMultiState\<close> and \<open>initClientMultiState\<close>.\<close>

definition initClientMultiState :: "nat \<Rightarrow> server_state \<Rightarrow> server_state" where
  "initClientMultiState i = upd i (\<lambda>c. c\<lparr>cl_mstate := []\<rparr>)"

definition clear_multi :: "nat \<Rightarrow> server_state \<Rightarrow> server_state" where
  "clear_multi i = upd i (\<lambda>c. c\<lparr>cl_multi := False, cl_dirty_cas := False, cl_dirty_exec := False\<rparr>)"

definition discardTransaction :: "nat \<Rightarrow> server_state \<Rightarrow> server_state option" where
  "discardTransaction i s = unwatchAllKeys i (clear_multi i (initClientMultiState i s))"

definition flagTransaction :: "nat \<Rightarrow> server_state \<Rightarrow> server_state" where
  "flagTransaction i = upd i (\<lambda>c. if cl_multi c then c\<lparr>cl_dirty_exec := True\<rparr> else c)"

definition multiCommand :: "nat \<Rightarrow> server_state \<Rightarrow> server_state option" where
  "multiCommand i s =
     (if cl_multi (sv_client s i) then Some (reply_to i (Error ''MULTI calls can not be nested'') s)
      else Some (reply_to i shared_ok (upd i (\<lambda>c. c\<lparr>cl_multi := True\<rparr>) s)))"

definition discardCommand :: "nat \<Rightarrow> server_state \<Rightarrow> server_state option" where
  "discardCommand i s =
     (if \<not> cl_multi (sv_client s i) then Some (reply_to i (Error ''DISCARD without MULTI'') s)
      else do { s \<leftarrow> discardTransaction i s; Some (reply_to i shared_ok s) })"

definition watchCommand :: "nat \<Rightarrow> sds list \<Rightarrow> server_state \<Rightarrow> server_state option" where
  "watchCommand i av s =
     (if cl_multi (sv_client s i) then Some (reply_to i (Error ''WATCH inside MULTI is not allowed'') s)
      else do { keys \<leftarrow> keys_from av 1; Some (reply_to i shared_ok (fold (watchForKey i) keys s)) })"

definition unwatchCommand :: "nat \<Rightarrow> server_state \<Rightarrow> server_state option" where
  "unwatchCommand i s = do {
     s \<leftarrow> unwatchAllKeys i s;
     Some (reply_to i shared_ok (upd i (\<lambda>c. c\<lparr>cl_dirty_cas := False\<rparr>) s)) }"

text \<open>The client is freed: the part of \<open>freeClient\<close> about the state above.\<close>

definition freeClient :: "nat \<Rightarrow> server_state \<Rightarrow> server_state option" where
  "freeClient i s = do {
     s \<leftarrow> unwatchAllKeys i s;
     if i \<notin> set (sv_clients s) then None
     else Some (initClientMultiState i (s\<lparr>sv_clients := remove1 i (sv_clients s)\<rparr>)) }"

section \<open>Execution of a command\<close>

text \<open>
  The clients are touched after the procedure has run, in the order of its signals.  No procedure of
  the table reads what the touching writes, and a flush signals before it empties the dictionary.
\<close>

fun apply_touches :: "env \<Rightarrow> (byte list, robj) dict \<Rightarrow> touch list \<Rightarrow> server_state \<Rightarrow> server_state option" where
  "apply_touches e d [] s = Some s"
| "apply_touches e d (TouchKey key # ts) s = apply_touches e d ts (touchWatchedKey key s)"
| "apply_touches e d (TouchFlush # ts) s = do {
     s \<leftarrow> touchWatchedKeysOnFlush e (sv_clients s) d s;
     apply_touches e d ts s }"

text \<open>The procedure writes to the reply buffer of the client.\<close>

definition begin_proc :: "client \<Rightarrow> db \<Rightarrow> db" where
  "begin_proc c = on_srv (\<lambda>r. r\<lparr>out := cl_reply c, touched := [], propagated := [], rewritten := None\<rparr>)"

definition run_data :: "proc \<Rightarrow> env \<Rightarrow> nat list list \<Rightarrow> nat \<Rightarrow> sds list \<Rightarrow> server_state \<Rightarrow> server_state option" where
  "run_data p e rnd i av s = do {
     st \<leftarrow> p e rnd av (begin_proc (sv_client s i) (sv_db s));
     apply_touches e (st_keys (sv_db s)) (touched (st_srv st))
       (upd i (\<lambda>c. c\<lparr>cl_reply := out (st_srv st)\<rparr>) (s\<lparr>sv_db := st\<rparr>)) }"

text \<open>\<open>EXEC\<close> is never queued.\<close>

fun run_proc :: "cproc \<Rightarrow> env \<Rightarrow> nat list list \<Rightarrow> nat \<Rightarrow> sds list \<Rightarrow> server_state \<Rightarrow> server_state option" where
  "run_proc (Data p) e rnd i av s = run_data p e rnd i av s"
| "run_proc MultiProc e rnd i av s = multiCommand i s"
| "run_proc DiscardProc e rnd i av s = discardCommand i s"
| "run_proc WatchProc e rnd i av s = watchCommand i av s"
| "run_proc UnwatchProc e rnd i av s = unwatchCommand i s"
| "run_proc ExecProc e rnd i av s = None"

definition feed :: "byte list list list \<Rightarrow> server_state \<Rightarrow> server_state" where
  "feed cs s = s\<lparr>sv_feed := sv_feed s @ cs\<rparr>"

text \<open>
  \<open>call\<close>: the deletions of expired keys are fed while the command runs, the command afterwards if it
  has made the key space dirty.  The statistics of commands, the slow log and the monitors are left out.
\<close>

definition call :: "(server_state \<Rightarrow> server_state option) \<Rightarrow> sds list \<Rightarrow> server_state \<Rightarrow> server_state option" where
  "call proc av s = do {
     argv \<leftarrow> keys_from av 0;
     let dirty0 = dirty (st_srv (sv_db s));
     s \<leftarrow> proc s;
     let r = st_srv (sv_db s);
     let cmd = (if dirty r - dirty0 \<noteq> 0 then [case rewritten r of None \<Rightarrow> argv | Some v \<Rightarrow> v] else []);
     let s = s\<lparr>sv_db := on_srv (\<lambda>r. r\<lparr>propagated := [], rewritten := None\<rparr>) (sv_db s)\<rparr>;
     let s = feed (map (\<lambda>k. [bytes ''DEL'', k]) (propagated r) @ cmd) s;
     Some (s\<lparr>sv_numcommands := sv_numcommands s + 1\<rparr>) }"

text \<open>One environment and one list of random numbers for each queued command.\<close>

fun exec_loop :: "nat \<Rightarrow> (env \<times> nat list list) list \<Rightarrow> (rcommand \<times> sds list) list \<Rightarrow> server_state \<Rightarrow> server_state option" where
  "exec_loop i xs [] s = Some s"
| "exec_loop i [] (q # qs) s = None"
| "exec_loop i ((e, rnd) # xs) ((cmd, av) # qs) s = do {
     s \<leftarrow> call (run_proc (c_proc cmd) e rnd i av) av s;
     exec_loop i xs qs s }"

definition execaborterr :: reply where
  "execaborterr = CodedError ''EXECABORT Transaction discarded because of previous errors.''"

definition nullmultibulk :: reply where
  "nullmultibulk = MultiBulk (- 1)"

definition execCommand :: "nat \<Rightarrow> (env \<times> nat list list) list \<Rightarrow> server_state \<Rightarrow> server_state option" where
  "execCommand i xs s =
     (let c = sv_client s i in
      if \<not> cl_multi c then Some (reply_to i (Error ''EXEC without MULTI'') s)
      else if cl_dirty_cas c \<or> cl_dirty_exec c
      then unwatchAllKeys i (clear_multi i (initClientMultiState i
             (reply_to i (if cl_dirty_exec c then execaborterr else nullmultibulk) s)))
      else do {
        s \<leftarrow> unwatchAllKeys i (feed [[bytes ''MULTI'']] s);
        let queue = cl_mstate (sv_client s i);
        s \<leftarrow> exec_loop i xs queue (reply_to i (MultiBulk (int (length queue))) s);
        let s = clear_multi i (initClientMultiState i s);
        Some (s\<lparr>sv_db := addDirty 1 (sv_db s)\<rparr>) })"

definition transactionCommands :: "rcommand list" where
  "transactionCommands =
    [row ''multi'' MultiProc 1 ''rs'',
     row ''exec'' ExecProc 1 ''sM'',
     row ''discard'' DiscardProc 1 ''rs'',
     row ''watch'' WatchProc (- 2) ''rs'',
     row ''unwatch'' UnwatchProc 1 ''rs'']"

definition commandTable :: "rcommand list" where
  "commandTable = map (\<lambda>c. row (c_name c) (Data (c_proc c)) (c_arity c) (c_sflags c)) redisCommandTable
     @ transactionCommands"

text \<open>
  The names of the table are compared without case.  (The hash of the name covers the bytes after a
  null byte, the comparison does not; a name with a null byte is taken to be unknown.)
\<close>

definition lookupCommand :: "byte list \<Rightarrow> rcommand option" where
  "lookupCommand name = List.find (\<lambda>c. map char_tolower name = bytes (c_name c)) commandTable"

text \<open>The flags that \<open>populateCommandTable\<close> sets.\<close>

definition is_write :: "rcommand \<Rightarrow> bool" where "is_write cmd \<longleftrightarrow> CHR ''w'' \<in> set (c_sflags cmd)"
definition is_denyoom :: "rcommand \<Rightarrow> bool" where "is_denyoom cmd \<longleftrightarrow> CHR ''m'' \<in> set (c_sflags cmd)"
definition is_stale :: "rcommand \<Rightarrow> bool" where "is_stale cmd \<longleftrightarrow> CHR ''t'' \<in> set (c_sflags cmd)"
definition is_loading :: "rcommand \<Rightarrow> bool" where "is_loading cmd \<longleftrightarrow> CHR ''l'' \<in> set (c_sflags cmd)"

text \<open>\<open>%s\<close> stops at a null byte; line ends become blanks.\<close>

definition error_text :: "byte list \<Rightarrow> string" where
  "error_text t = map (\<lambda>b. if b = 13 \<or> b = 10 then CHR '' '' else char_of (unat b)) (takeWhile (\<lambda>b. b \<noteq> 0) t)"

definition quote :: string where "quote = [CHR 0x27]"

definition unknown_command :: "byte list \<Rightarrow> reply" where
  "unknown_command name = Error (''unknown command '' @ quote @ error_text name @ quote)"

definition wrong_arguments :: "string \<Rightarrow> reply" where
  "wrong_arguments name = Error (''wrong number of arguments for '' @ quote @ name @ quote @ '' command'')"

text \<open>The tests before a command is run: the error, and whether it spoils the transaction.\<close>

definition refused :: "config \<Rightarrow> env \<Rightarrow> client \<Rightarrow> rcommand \<Rightarrow> (reply \<times> bool) option" where
  "refused g e c cmd =
     (if g_requirepass g \<and> \<not> cl_authenticated c then Some (Error ''operation not permitted'', True)
      else if g_oom g \<and> is_denyoom cmd
        then Some (CodedError (''OOM command not allowed when used memory > '' @ quote @ ''maxmemory'' @ quote @ ''.''), True)
      else if g_bgsave_err g \<and> is_write cmd
        then Some (CodedError ''MISCONF Redis is configured to save RDB snapshots, but is currently not able to persist on disk. Commands that may modify the data set are disabled. Please check Redis logs for details about the error.'', True)
      else if e_slave e \<and> g_slave_ro g \<and> \<not> cl_master c \<and> is_write cmd
        then Some (CodedError (''READONLY You can'' @ quote @ ''t write against a read only slave.''), False)
      else if cl_subscriptions c > 0
        then Some (Error ''only (P)SUBSCRIBE / (P)UNSUBSCRIBE / QUIT allowed in this context'', False)
      else if e_slave e \<and> g_stale g \<and> \<not> is_stale cmd
        then Some (CodedError (''MASTERDOWN Link with MASTER is down and slave-serve-stale-data is set to '' @ quote @ ''no'' @ quote @ ''.''), True)
      else if e_loading e \<and> \<not> is_loading cmd
        then Some (CodedError ''LOADING Redis is loading the dataset in memory'', False)
      else if g_lua_timedout g
        then Some (CodedError ''BUSY Redis is busy running a script. You can only call SCRIPT KILL or SHUTDOWN NOSAVE.'', True)
      else None)"

fun never_queued :: "cproc \<Rightarrow> bool" where
  "never_queued (Data p) = False"
| "never_queued UnwatchProc = False"
| "never_queued p = True"

definition exec_command :: "env \<Rightarrow> nat list list \<Rightarrow> (env \<times> nat list list) list \<Rightarrow> nat \<Rightarrow> rcommand \<Rightarrow> sds list
    \<Rightarrow> server_state \<Rightarrow> server_state option" where
  "exec_command e rnd xs i cmd av s =
     (if cl_multi (sv_client s i) \<and> \<not> never_queued (c_proc cmd)
      then Some (reply_to i (Status ''QUEUED'') (queueMultiCommand i cmd av s))
      else case c_proc cmd of
             ExecProc \<Rightarrow> call (execCommand i xs) av s
           | p \<Rightarrow> call (run_proc p e rnd i av) av s)"

text \<open>The result tells whether the connection goes on (\<open>REDIS_OK\<close>).\<close>

definition processCommand :: "config \<Rightarrow> env \<Rightarrow> nat list list \<Rightarrow> (env \<times> nat list list) list \<Rightarrow> nat \<Rightarrow> sds list
    \<Rightarrow> server_state \<Rightarrow> (server_state \<times> bool) option" where
  "processCommand g e rnd xs i av s = do {
     name \<leftarrow> key_at av 0;
     if map char_tolower (takeWhile (\<lambda>b. b \<noteq> 0) name) = bytes ''quit''
     then Some (upd i (\<lambda>c. c\<lparr>cl_close := True\<rparr>) (reply_to i shared_ok s), False)
     else case lookupCommand name of
       None \<Rightarrow> Some (reply_to i (unknown_command name) (flagTransaction i s), True)
     | Some cmd \<Rightarrow>
         if wrong_arity (c_arity cmd) (length av)
         then Some (reply_to i (wrong_arguments (c_name cmd)) (flagTransaction i s), True)
         else (case refused g e (sv_client s i) cmd of
             Some (err, spoils) \<Rightarrow> Some (reply_to i err (if spoils then flagTransaction i s else s), True)
           | None \<Rightarrow> do { s \<leftarrow> exec_command e rnd xs i cmd av s; Some (s, True) }) }"

end
