(* ===== verification/Transactions.thy ===== *)
theory Transactions
  imports Server
begin

text \<open>
  The correctness of \<open>Server\<close>.  The transaction layer relies on the procedures of the key space only
  through the locale \<open>keyspace\<close>: a procedure returns, appends one complete reply and signals the keys
  it changes.  From this follow the invariant of the watched keys, the reply discipline and the
  guarantee of \<open>WATCH\<close>: \<open>EXEC\<close> does not run the queue when a watched key has changed.
\<close>

section \<open>The bookkeeping of watched keys\<close>

subsection \<open>Marking clients\<close>

text \<open>Touching sets \<open>REDIS_DIRTY_CAS\<close> in some clients and changes nothing else.\<close>

definition mark :: "nat set \<Rightarrow> server_state \<Rightarrow> server_state" where
  "mark J s = s\<lparr>sv_client := \<lambda>j. if j \<in> J then (sv_client s j)\<lparr>cl_dirty_cas := True\<rparr> else sv_client s j\<rparr>"

lemma mark_simps [simp]:
  "sv_db (mark J s) = sv_db s" "sv_watching (mark J s) = sv_watching s" "sv_clients (mark J s) = sv_clients s"
  "sv_feed (mark J s) = sv_feed s" "sv_numcommands (mark J s) = sv_numcommands s"
  "sv_client (mark J s) j = (if j \<in> J then (sv_client s j)\<lparr>cl_dirty_cas := True\<rparr> else sv_client s j)"
  by (simp_all add: mark_def)

lemma mark_empty [simp]: "mark {} s = s"
  by (simp add: mark_def)

lemma mark_mark [simp]: "mark I (mark J s) = mark (I \<union> J) s"
  by (simp add: mark_def fun_eq_iff)

lemma upd_mark: "upd i (\<lambda>c. c\<lparr>cl_dirty_cas := True\<rparr>) s = mark {i} s"
  by (simp add: upd_def mark_def fun_upd_def) (auto intro!: arg_cong [where f = "\<lambda>x. s\<lparr>sv_client := x\<rparr>"])

lemma upd_simps [simp]:
  "sv_db (upd i f s) = sv_db s" "sv_watching (upd i f s) = sv_watching s" "sv_clients (upd i f s) = sv_clients s"
  "sv_feed (upd i f s) = sv_feed s" "sv_numcommands (upd i f s) = sv_numcommands s"
  "sv_client (upd i f s) j = (if j = i then f (sv_client s i) else sv_client s j)"
  by (simp_all add: upd_def)

lemma reply_to_simps [simp]:
  "sv_db (reply_to i r s) = sv_db s" "sv_watching (reply_to i r s) = sv_watching s"
  "sv_clients (reply_to i r s) = sv_clients s" "sv_feed (reply_to i r s) = sv_feed s"
  "sv_client (reply_to i r s) j = (if j = i then (sv_client s i)\<lparr>cl_reply := cl_reply (sv_client s i) @ [r]\<rparr> else sv_client s j)"
  by (simp_all add: reply_to_def)

lemma feed_simps [simp]:
  "sv_db (feed cs s) = sv_db s" "sv_watching (feed cs s) = sv_watching s"
  "sv_clients (feed cs s) = sv_clients s" "sv_client (feed cs s) = sv_client s"
  by (simp_all add: feed_def)

lemma fold_upd_mark: "fold (\<lambda>i. upd i (\<lambda>c. c\<lparr>cl_dirty_cas := True\<rparr>)) is' s = mark (set is') s"
  by (induction is' arbitrary: s) (simp_all add: upd_mark insert_commute)

definition watchers :: "server_state \<Rightarrow> byte list \<Rightarrow> nat set" where
  "watchers s k = (case sv_watching s k of None \<Rightarrow> {} | Some clients \<Rightarrow> set clients)"

lemma touchWatchedKey_mark: "touchWatchedKey k s = mark (watchers s k) s"
  by (simp add: touchWatchedKey_def watchers_def fold_upd_mark split: option.splits)

subsection \<open>The invariant\<close>

text \<open>The clients of a key and the keys of a client agree.\<close>

definition watch_inv :: "server_state \<Rightarrow> bool" where
  "watch_inv s \<longleftrightarrow> distinct (sv_clients s) \<and>
     (\<forall>k clients. sv_watching s k = Some clients \<longrightarrow> clients \<noteq> [] \<and> distinct clients) \<and>
     (\<forall>i \<in> set (sv_clients s). distinct (cl_watched (sv_client s i))) \<and>
     (\<forall>i k. i \<in> watchers s k \<longleftrightarrow> i \<in> set (sv_clients s) \<and> k \<in> set (cl_watched (sv_client s i)))"

text \<open>Commands are queued only in a transaction, and only commands that may be queued.\<close>

definition queue_ok :: "client \<Rightarrow> bool" where
  "queue_ok c \<longleftrightarrow> (\<not> cl_multi c \<longrightarrow> cl_mstate c = [] \<and> \<not> cl_dirty_exec c) \<and>
     (\<forall>(cmd, av) \<in> set (cl_mstate c). cmd \<in> set commandTable \<and> \<not> wrong_arity (c_arity cmd) (length av) \<and>
        c_proc cmd \<notin> {ExecProc, DiscardProc, MultiProc, WatchProc} \<and> (\<exists>ts. list_all2 arg_rep av ts))"

definition server_inv :: "server_state \<Rightarrow> bool" where
  "server_inv s \<longleftrightarrow> watch_inv s \<and> (\<forall>i \<in> set (sv_clients s). queue_ok (sv_client s i))"

lemma watch_inv_cong:
  assumes "sv_clients s' = sv_clients s" "sv_watching s' = sv_watching s"
    and "\<And>i. cl_watched (sv_client s' i) = cl_watched (sv_client s i)"
  shows "watch_inv s' = watch_inv s" "watchers s' k = watchers s k"
  using assms by (simp_all add: watch_inv_def watchers_def)

lemma watch_inv_mark [simp]: "watch_inv (mark J s) = watch_inv s" "watchers (mark J s) k = watchers s k"
  by (rule watch_inv_cong; simp)+

lemma watchers_upd [simp]: "watchers (upd i f s) k = watchers s k" "watchers (reply_to i r s) k = watchers s k"
  by (simp_all add: watchers_def)

lemma watch_inv_reply [simp]: "watch_inv (reply_to i r s) = watch_inv s" "watch_inv (feed cs s) = watch_inv s"
  by (rule watch_inv_cong; simp)+

lemma watch_inv_upd [simp]: "(\<And>c. cl_watched (f c) = cl_watched c) \<Longrightarrow> watch_inv (upd i f s) = watch_inv s"
  by (rule watch_inv_cong; simp)

lemma watch_inv_clear [simp]:
  "watch_inv (clear_multi i s) = watch_inv s" "watch_inv (initClientMultiState i s) = watch_inv s"
  by (simp_all add: clear_multi_def initClientMultiState_def)

subsection \<open>Watching and unwatching\<close>

lemma watchForKey_client:
  "sv_client (watchForKey i k s) j = (if j = i \<and> k \<notin> set (cl_watched (sv_client s i))
     then (sv_client s i)\<lparr>cl_watched := cl_watched (sv_client s i) @ [k]\<rparr> else sv_client s j)"
  "sv_clients (watchForKey i k s) = sv_clients s" "sv_db (watchForKey i k s) = sv_db s"
  by (simp_all add: watchForKey_def Let_def)

lemma watchForKey_inv:
  assumes "watch_inv s" "i \<in> set (sv_clients s)"
  shows "watch_inv (watchForKey i k s)"
proof (cases "k \<in> set (cl_watched (sv_client s i))")
  case True
  then show ?thesis using assms by (simp add: watchForKey_def)
next
  case False
  let ?s = "watchForKey i k s"
  have w: "watchers ?s k' = (if k' = k then insert i (watchers s k) else watchers s k')" for k'
    using False by (auto simp: watchForKey_def watchers_def Let_def split: option.splits)
  have new: "i \<notin> watchers s k" using assms(1) False by (simp add: watch_inv_def)
  have "distinct l \<and> l \<noteq> []" if "sv_watching ?s k' = Some l" for k' l
    using that new False assms(1)
    by (auto simp: watchForKey_def Let_def watchers_def watch_inv_def split: if_splits option.splits)
  moreover have "distinct (cl_watched (sv_client ?s j))" if "j \<in> set (sv_clients s)" for j
    using assms(1) that by (auto simp: watchForKey_client watch_inv_def)
  moreover have "j \<in> watchers ?s k' \<longleftrightarrow> j \<in> set (sv_clients s) \<and> k' \<in> set (cl_watched (sv_client ?s j))" for j k'
    using assms by (auto simp: w watchForKey_client watch_inv_def)
  ultimately show ?thesis using assms(1) by (simp add: watch_inv_def watchForKey_client)
qed

lemma watch_keys:
  assumes "watch_inv s" "i \<in> set (sv_clients s)"
  shows "watch_inv (fold (watchForKey i) ks s)"
    and "sv_clients (fold (watchForKey i) ks s) = sv_clients s" "sv_db (fold (watchForKey i) ks s) = sv_db s"
    and "j \<noteq> i \<Longrightarrow> sv_client (fold (watchForKey i) ks s) j = sv_client s j"
    and "\<exists>w. sv_client (fold (watchForKey i) ks s) i = (sv_client s i)\<lparr>cl_watched := w\<rparr> \<and>
      set w = set (cl_watched (sv_client s i)) \<union> set ks"
proof -
  have "watch_inv (fold (watchForKey i) ks s) \<and> sv_clients (fold (watchForKey i) ks s) = sv_clients s \<and>
    sv_db (fold (watchForKey i) ks s) = sv_db s \<and>
    (\<forall>j. j \<noteq> i \<longrightarrow> sv_client (fold (watchForKey i) ks s) j = sv_client s j) \<and>
    (\<exists>w. sv_client (fold (watchForKey i) ks s) i = (sv_client s i)\<lparr>cl_watched := w\<rparr> \<and>
      set w = set (cl_watched (sv_client s i)) \<union> set ks)"
    using assms
  proof (induction ks arbitrary: s)
    case (Cons k ks)
    have "i \<in> set (sv_clients (watchForKey i k s))" using Cons.prems by (simp add: watchForKey_client)
    note IH = Cons.IH [OF watchForKey_inv [OF Cons.prems, of k] this]
    show ?case using IH by (auto simp: watchForKey_client insert_absorb split: if_splits)
  next
    case Nil
    have "sv_client s i = (sv_client s i)\<lparr>cl_watched := cl_watched (sv_client s i)\<rparr>" by simp
    then show ?case using Nil by (auto intro!: exI [of _ "cl_watched (sv_client s i)"])
  qed
  then show "watch_inv (fold (watchForKey i) ks s)"
    "sv_clients (fold (watchForKey i) ks s) = sv_clients s" "sv_db (fold (watchForKey i) ks s) = sv_db s"
    "j \<noteq> i \<Longrightarrow> sv_client (fold (watchForKey i) ks s) j = sv_client s j"
    "\<exists>w. sv_client (fold (watchForKey i) ks s) i = (sv_client s i)\<lparr>cl_watched := w\<rparr> \<and>
      set w = set (cl_watched (sv_client s i)) \<union> set ks"
    by blast+
qed

definition unwatch_key :: "nat \<Rightarrow> byte list \<Rightarrow> server_state \<Rightarrow> server_state" where
  "unwatch_key i k s = upd i (\<lambda>c. c\<lparr>cl_watched := remove1 k (cl_watched c)\<rparr>)
     (s\<lparr>sv_watching := (sv_watching s)(k := (let l = remove1 i (the (sv_watching s k)) in if l = [] then None else Some l))\<rparr>)"

lemma unwatch_key_client:
  "sv_clients (unwatch_key i k s) = sv_clients s"
  "sv_client (unwatch_key i k s) j = (if j = i then (sv_client s i)\<lparr>cl_watched := remove1 k (cl_watched (sv_client s i))\<rparr>
     else sv_client s j)"
  by (simp_all add: unwatch_key_def)

lemma unwatch_key_inv:
  assumes "watch_inv s" "i \<in> set (sv_clients s)" "k \<in> set (cl_watched (sv_client s i))"
  shows "watch_inv (unwatch_key i k s)"
proof -
  let ?s = "unwatch_key i k s"
  have "i \<in> watchers s k" using assms by (simp add: watch_inv_def)
  then obtain l where l: "sv_watching s k = Some l" "i \<in> set l"
    by (auto simp: watchers_def split: option.splits)
  have dl: "distinct l" using assms(1) l(1) by (simp add: watch_inv_def)
  have w: "watchers ?s k' = (if k' = k then watchers s k - {i} else watchers s k')" for k'
  proof -
    have "watchers ?s k' = (if k' = k then set (remove1 i l) else watchers s k')"
      using l by (cases "remove1 i l") (simp_all add: unwatch_key_def watchers_def Let_def)
    then show ?thesis using l dl by (simp add: watchers_def)
  qed
  have d: "distinct (cl_watched (sv_client s i))" using assms(1,2) by (simp add: watch_inv_def)
  have "m \<noteq> [] \<and> distinct m" if "sv_watching ?s k' = Some m" for k' m
    using that l dl assms(1) by (auto simp: unwatch_key_def Let_def watch_inv_def split: if_splits)
  moreover have "distinct (cl_watched (sv_client ?s j))" if "j \<in> set (sv_clients s)" for j
    using assms(1) that by (auto simp: unwatch_key_client watch_inv_def)
  moreover have "j \<in> watchers ?s k' \<longleftrightarrow> j \<in> set (sv_clients s) \<and> k' \<in> set (cl_watched (sv_client ?s j))" for j k'
    using assms(1) d by (auto simp: w unwatch_key_client watch_inv_def set_remove1_eq)
  ultimately show ?thesis using assms(1) by (simp add: watch_inv_def unwatch_key_client)
qed

lemma unwatch_loop_ok:
  "\<lbrakk>watch_inv s; i \<in> set (sv_clients s); cl_watched (sv_client s i) = ks\<rbrakk> \<Longrightarrow>
   \<exists>w. unwatch_loop i ks s = Some (upd i (\<lambda>c. c\<lparr>cl_watched := []\<rparr>) (s\<lparr>sv_watching := w\<rparr>)) \<and>
     watch_inv (upd i (\<lambda>c. c\<lparr>cl_watched := []\<rparr>) (s\<lparr>sv_watching := w\<rparr>))"
proof (induction ks arbitrary: s)
  case Nil
  have "upd i (\<lambda>c. c\<lparr>cl_watched := []\<rparr>) (s\<lparr>sv_watching := sv_watching s\<rparr>) = s"
    using Nil(3) by (simp add: upd_def fun_upd_idem)
  then show ?case using Nil(1) by (intro exI [of _ "sv_watching s"]) simp
next
  case (Cons k ks)
  have "i \<in> watchers s k" using Cons.prems by (simp add: watch_inv_def)
  then obtain l where l: "sv_watching s k = Some l" "i \<in> set l"
    by (auto simp: watchers_def split: option.splits)
  let ?s = "unwatch_key i k s"
  have run: "unwatch_loop i (k # ks) s = unwatch_loop i ks ?s"
    using l by (simp add: unwatch_key_def Let_def)
  have "watch_inv ?s" by (rule unwatch_key_inv) (use Cons.prems in auto)
  moreover have "i \<in> set (sv_clients ?s)" "cl_watched (sv_client ?s i) = ks"
    using Cons.prems by (simp_all add: unwatch_key_def)
  ultimately obtain w where "unwatch_loop i ks ?s = Some (upd i (\<lambda>c. c\<lparr>cl_watched := []\<rparr>) (?s\<lparr>sv_watching := w\<rparr>))"
    "watch_inv (upd i (\<lambda>c. c\<lparr>cl_watched := []\<rparr>) (?s\<lparr>sv_watching := w\<rparr>))"
    using Cons.IH by blast
  moreover have "upd i (\<lambda>c. c\<lparr>cl_watched := []\<rparr>) (?s\<lparr>sv_watching := w\<rparr>) =
      upd i (\<lambda>c. c\<lparr>cl_watched := []\<rparr>) (s\<lparr>sv_watching := w\<rparr>)"
    by (simp add: unwatch_key_def upd_def)
  ultimately show ?case unfolding run by auto
qed

lemma unwatchAllKeys_ok:
  assumes "watch_inv s" "i \<in> set (sv_clients s)"
  obtains w where "unwatchAllKeys i s = Some (upd i (\<lambda>c. c\<lparr>cl_watched := []\<rparr>) (s\<lparr>sv_watching := w\<rparr>))"
    "watch_inv (upd i (\<lambda>c. c\<lparr>cl_watched := []\<rparr>) (s\<lparr>sv_watching := w\<rparr>))"
  using unwatch_loop_ok [OF assms refl] by (auto simp: unwatchAllKeys_def)

lemma createClient_inv:
  assumes "server_inv s" "i \<notin> set (sv_clients s)"
  shows "server_inv (createClient i s)"
proof -
  have "j \<in> watchers (createClient i s) k \<longleftrightarrow>
    j \<in> set (sv_clients (createClient i s)) \<and> k \<in> set (cl_watched (sv_client (createClient i s) j))" for j k
    using assms by (auto simp: createClient_def watchers_def server_inv_def watch_inv_def)
  then show ?thesis using assms by (auto simp: server_inv_def watch_inv_def createClient_def queue_ok_def)
qed

lemma freeClient_ok:
  assumes "server_inv s" "i \<in> set (sv_clients s)"
  shows "\<exists>s'. freeClient i s = Some s' \<and> server_inv s' \<and> sv_db s' = sv_db s \<and> sv_clients s' = remove1 i (sv_clients s) \<and>
    (\<forall>j. j \<noteq> i \<longrightarrow> sv_client s' j = sv_client s j)"
proof -
  have inv: "watch_inv s" using assms(1) by (simp add: server_inv_def)
  from unwatchAllKeys_ok [OF inv assms(2)] obtain w where
    w: "unwatchAllKeys i s = Some (upd i (\<lambda>c. c\<lparr>cl_watched := []\<rparr>) (s\<lparr>sv_watching := w\<rparr>))"
    "watch_inv (upd i (\<lambda>c. c\<lparr>cl_watched := []\<rparr>) (s\<lparr>sv_watching := w\<rparr>))" (is "watch_inv ?u") .
  let ?s = "initClientMultiState i (?u\<lparr>sv_clients := remove1 i (sv_clients s)\<rparr>)"
  have d: "distinct (sv_clients s)" using inv by (simp add: watch_inv_def)
  have "j \<in> watchers ?s k \<longleftrightarrow> j \<in> set (sv_clients ?s) \<and> k \<in> set (cl_watched (sv_client ?s j))" for j k
    using w(2) d by (auto simp: initClientMultiState_def watchers_def watch_inv_def set_remove1_eq)
  moreover have "distinct (sv_clients ?s)" "\<And>k l. sv_watching ?s k = Some l \<Longrightarrow> l \<noteq> [] \<and> distinct l"
    "\<And>j. j \<in> set (sv_clients ?s) \<Longrightarrow> distinct (cl_watched (sv_client ?s j))"
    using w(2) d by (auto simp: initClientMultiState_def watch_inv_def set_remove1_eq)
  ultimately have "watch_inv ?s" unfolding watch_inv_def by blast
  then have "server_inv ?s" using assms(1) d by (auto simp: server_inv_def initClientMultiState_def set_remove1_eq)
  then show ?thesis using w(1) assms(2) by (auto simp: freeClient_def initClientMultiState_def)
qed

text \<open>Two clients that differ in \<open>REDIS_DIRTY_CAS\<close> at most.\<close>

definition but_dirty :: "client \<Rightarrow> client \<Rightarrow> bool" where
  "but_dirty c c' \<longleftrightarrow> c'\<lparr>cl_dirty_cas := False\<rparr> = c\<lparr>cl_dirty_cas := False\<rparr>"

lemma but_dirty_simps [simp]: "but_dirty c c" "but_dirty c (c'\<lparr>cl_dirty_cas := b\<rparr>) = but_dirty c c'"
  by (simp_all add: but_dirty_def)

lemma but_dirty_trans: "\<lbrakk>but_dirty a b; but_dirty b c\<rbrakk> \<Longrightarrow> but_dirty a c"
  by (simp add: but_dirty_def)

lemma but_dirtyD:
  assumes "but_dirty c c'"
  shows "cl_watched c' = cl_watched c" "cl_multi c' = cl_multi c" "cl_mstate c' = cl_mstate c"
    "cl_dirty_exec c' = cl_dirty_exec c" "cl_reply c' = cl_reply c" "cl_close c' = cl_close c" "queue_ok c' = queue_ok c"
  using assms by (cases c; cases c'; simp add: but_dirty_def queue_ok_def)+

section \<open>Touching the clients\<close>

context keyspace
begin

lemma rep_addDirty: "rep (addDirty n st) m = rep st m"
  by (simp add: addDirty_def rep_srv)

text \<open>The clients that a list of signals marks, when the database had the values \<open>m\<close>.\<close>

definition touched_by :: "(byte list \<Rightarrow> 'v option) \<Rightarrow> server_state \<Rightarrow> touch list \<Rightarrow> nat set" where
  "touched_by m s ts = {j. \<exists>k. TouchKey k \<in> set ts \<and> j \<in> watchers s k} \<union>
     (if TouchFlush \<in> set ts then {j \<in> set (sv_clients s). \<exists>k \<in> set (cl_watched (sv_client s j)). m k \<noteq> None} else {})"

lemma touched_by_cong:
  assumes "sv_clients s' = sv_clients s" "\<And>k. watchers s' k = watchers s k"
    and "\<And>j. cl_watched (sv_client s' j) = cl_watched (sv_client s j)"
  shows "touched_by m s' ts = touched_by m s ts"
  by (simp add: touched_by_def assms)

lemma flush_keys_ok:
  assumes "e_seed e = seed"
  shows "rep (st\<lparr>st_keys := d\<rparr>) m \<Longrightarrow>
    \<exists>d'. flush_keys e i ks d s = Some (d', mark (if \<exists>k \<in> set ks. m k \<noteq> None then {i} else {}) s) \<and> rep (st\<lparr>st_keys := d'\<rparr>) m"
proof (induction ks arbitrary: d s)
  case (Cons k ks)
  from find_key [OF Cons.prems, of k] obtain d' de where
    d': "dictFind (dbDictType seed) d k = Some (d', de)" "(de \<noteq> None) = (m k \<noteq> None)" "rep (st\<lparr>st_keys := d'\<rparr>) m"
    by auto
  from Cons.IH [OF d'(3), of "mark (if m k \<noteq> None then {i} else {}) s"] show ?case
    using d' assms by (cases "m k = None") (auto simp: upd_mark)
qed simp

lemma touchOnFlush_ok:
  assumes "e_seed e = seed"
  shows "rep (st\<lparr>st_keys := d\<rparr>) m \<Longrightarrow>
    touchWatchedKeysOnFlush e is' d s =
      Some (mark {j \<in> set is'. \<exists>k \<in> set (cl_watched (sv_client s j)). m k \<noteq> None} s)"
proof (induction is' arbitrary: d s)
  case (Cons i is')
  let ?J = "if \<exists>k \<in> set (cl_watched (sv_client s i)). m k \<noteq> None then {i} else {}"
  obtain d' where d': "flush_keys e i (cl_watched (sv_client s i)) d s = Some (d', mark ?J s)" "rep (st\<lparr>st_keys := d'\<rparr>) m"
    using flush_keys_ok [OF assms Cons.prems] by blast
  have w: "cl_watched (sv_client (mark ?J s) j) = cl_watched (sv_client s j)" for j by simp
  have "{j \<in> set is'. \<exists>k \<in> set (cl_watched (sv_client s j)). m k \<noteq> None} \<union> ?J =
    {j \<in> set (i # is'). \<exists>k \<in> set (cl_watched (sv_client s j)). m k \<noteq> None}" by auto
  then show ?case using d'(1) Cons.IH [OF d'(2), of "mark ?J s"] unfolding w by simp
qed simp

lemma apply_touches_ok:
  assumes "e_seed e = seed" "rep st m"
  shows "apply_touches e (st_keys st) ts s = Some (mark (touched_by m s ts) s)"
proof (induction ts arbitrary: s)
  case Nil
  then show ?case by (simp add: touched_by_def)
next
  case (Cons t ts)
  have w: "touched_by m (mark J s) ts = touched_by m s ts" for J
    by (rule touched_by_cong) simp_all
  show ?case
  proof (cases t)
    case (TouchKey k)
    have "touched_by m s ts \<union> watchers s k = touched_by m s (t # ts)"
      using TouchKey by (auto simp: touched_by_def)
    then show ?thesis using TouchKey Cons by (simp add: touchWatchedKey_mark w)
  next
    case TouchFlush
    have "rep (st\<lparr>st_keys := st_keys st\<rparr>) m" using assms(2) by simp
    note F = touchOnFlush_ok [OF assms(1) this]
    have "touched_by m s ts \<union> {j \<in> set (sv_clients s). \<exists>k \<in> set (cl_watched (sv_client s j)). m k \<noteq> None}
      = touched_by m s (t # ts)" using TouchFlush by (auto simp: touched_by_def)
    then show ?thesis using TouchFlush Cons by (simp add: F w)
  qed
qed

subsection \<open>A procedure of the key space\<close>

text \<open>
  The outcome of running something for client \<open>i\<close>: \<open>n\<close> replies to that client and none to the
  others; a client stays dirty unless it watches no key any more; a client that still watches a key
  whose value has changed is dirty.
\<close>

definition outcome :: "nat \<Rightarrow> nat \<Rightarrow> (byte list \<Rightarrow> 'v option) \<Rightarrow> (byte list \<Rightarrow> 'v option) \<Rightarrow> server_state \<Rightarrow> server_state \<Rightarrow> bool" where
  "outcome i n m m' s s' \<longleftrightarrow>
     sv_clients s' = sv_clients s \<and>
     (\<exists>rs. complete n rs \<and> cl_reply (sv_client s' i) = cl_reply (sv_client s i) @ rs) \<and>
     (\<forall>j. j \<noteq> i \<longrightarrow> but_dirty (sv_client s j) (sv_client s' j)) \<and>
     (cl_watched (sv_client s' i) = [] \<or> set (cl_watched (sv_client s i)) \<subseteq> set (cl_watched (sv_client s' i))) \<and>
     (\<forall>j. cl_dirty_cas (sv_client s j) \<longrightarrow> cl_dirty_cas (sv_client s' j) \<or> cl_watched (sv_client s' j) = []) \<and>
     (\<forall>j \<in> set (sv_clients s). \<forall>k \<in> set (cl_watched (sv_client s j)).
        cl_dirty_cas (sv_client s' j) \<or> cl_watched (sv_client s' j) = [] \<or> keeps (m k) (m' k))"

lemma outcomeI:
  assumes "sv_clients s' = sv_clients s"
    and "complete n rs" "cl_reply (sv_client s' i) = cl_reply (sv_client s i) @ rs"
    and "\<And>j. j \<noteq> i \<Longrightarrow> but_dirty (sv_client s j) (sv_client s' j)"
    and "cl_watched (sv_client s' i) = [] \<or> set (cl_watched (sv_client s i)) \<subseteq> set (cl_watched (sv_client s' i))"
    and "\<And>j. cl_dirty_cas (sv_client s j) \<Longrightarrow> cl_dirty_cas (sv_client s' j) \<or> cl_watched (sv_client s' j) = []"
    and "\<And>j k. \<lbrakk>j \<in> set (sv_clients s); k \<in> set (cl_watched (sv_client s j))\<rbrakk> \<Longrightarrow>
      cl_dirty_cas (sv_client s' j) \<or> cl_watched (sv_client s' j) = [] \<or> keeps (m k) (m' k)"
  shows "outcome i n m m' s s'"
  using assms unfolding outcome_def by auto

lemma outcomeD:
  assumes "outcome i n m m' s s'"
  shows "sv_clients s' = sv_clients s"
    and "\<exists>rs. complete n rs \<and> cl_reply (sv_client s' i) = cl_reply (sv_client s i) @ rs"
    and "j \<noteq> i \<Longrightarrow> but_dirty (sv_client s j) (sv_client s' j)"
    and "cl_watched (sv_client s' i) = [] \<or> set (cl_watched (sv_client s i)) \<subseteq> set (cl_watched (sv_client s' i))"
    and "cl_dirty_cas (sv_client s j) \<Longrightarrow> cl_dirty_cas (sv_client s' j) \<or> cl_watched (sv_client s' j) = []"
    and "\<lbrakk>j \<in> set (sv_clients s); k \<in> set (cl_watched (sv_client s j))\<rbrakk> \<Longrightarrow>
      cl_dirty_cas (sv_client s' j) \<or> cl_watched (sv_client s' j) = [] \<or> keeps (m k) (m' k)"
  using assms unfolding outcome_def by auto

lemma run_data_ok:
  assumes inv: "watch_inv s" and rep: "rep (sv_db s) m" and safe: "safe p e av (sv_db s)"
  shows "\<exists>rnd s'. run_data p e rnd i av s = Some s'"
    and "run_data p e rnd i av s = Some s' \<Longrightarrow>
      \<exists>m'. rep (sv_db s') m' \<and> outcome i 1 m m' s s' \<and> sv_watching s' = sv_watching s \<and>
        but_dirty ((sv_client s i)\<lparr>cl_reply := cl_reply (sv_client s' i)\<rparr>) (sv_client s' i)"
proof -
  let ?st = "begin_proc (sv_client s i) (sv_db s)"
  have r: "rep ?st m" "safe p e av ?st" using rep safe by (simp_all add: begin_proc_def rep_srv safe_srv)
  have seed: "e_seed e = seed" by (rule safe_seed [OF safe])
  obtain rnd0 st0 where "p e rnd0 av ?st = Some st0" using returns [OF r] by blast
  then show "\<exists>rnd s'. run_data p e rnd i av s = Some s'"
    by (auto simp: run_data_def apply_touches_ok [OF seed rep] intro!: exI [of _ rnd0])
  assume "run_data p e rnd i av s = Some s'"
  then obtain st' where st': "p e rnd av ?st = Some st'"
    and s': "s' = mark (touched_by m (upd i (\<lambda>c. c\<lparr>cl_reply := out (st_srv st')\<rparr>) (s\<lparr>sv_db := st'\<rparr>)) (touched (st_srv st')))
      (upd i (\<lambda>c. c\<lparr>cl_reply := out (st_srv st')\<rparr>) (s\<lparr>sv_db := st'\<rparr>))"
    by (auto simp: run_data_def apply_touches_ok [OF seed rep] split: bind_splits)
  obtain m' ts where m': "rep st' m'" "touched (st_srv st') = touched (st_srv ?st) @ ts" "replies 1 ?st st'"
    "\<And>k. TouchKey k \<in> set ts \<or> TouchFlush \<in> set ts \<and> m k \<noteq> None \<or> keeps (m k) (m' k)"
    using signalled [OF r st'] by blast
  have touched: "touched (st_srv st') = ts" using m'(2) by (simp add: begin_proc_def on_srv_def)
  obtain rs where rs: "complete 1 rs" "out (st_srv st') = cl_reply (sv_client s i) @ rs"
    using m'(3) by (auto simp: replies_def begin_proc_def on_srv_def)
  have tb: "touched_by m (upd i (\<lambda>c. c\<lparr>cl_reply := x\<rparr>) (s\<lparr>sv_db := y\<rparr>)) ts = touched_by m s ts" for x y
    by (rule touched_by_cong) (simp_all add: watchers_def)
  have dirty: "j \<in> touched_by m s ts \<or> keeps (m k) (m' k)"
    if "j \<in> set (sv_clients s)" "k \<in> set (cl_watched (sv_client s j))" for j k
  proof -
    have "j \<in> watchers s k" using inv that by (simp add: watch_inv_def)
    then show ?thesis using m'(4) [of k] that by (auto simp: touched_by_def)
  qed
  have "cl_dirty_cas (sv_client s' j) \<or> keeps (m k) (m' k)"
    if "j \<in> set (sv_clients s)" "k \<in> set (cl_watched (sv_client s j))" for j k
    using dirty [OF that] by (auto simp: s' touched tb)
  moreover have "cl_watched (sv_client s' j) = cl_watched (sv_client s j)" "cl_dirty_cas (sv_client s j) \<longrightarrow> cl_dirty_cas (sv_client s' j)"
    "j \<noteq> i \<longrightarrow> but_dirty (sv_client s j) (sv_client s' j)" for j
    by (auto simp: s')
  moreover have "cl_reply (sv_client s' i) = cl_reply (sv_client s i) @ rs" "sv_clients s' = sv_clients s"
    by (simp_all add: s' rs(2))
  ultimately have "outcome i 1 m m' s s'" using rs(1) by (intro outcomeI) auto
  moreover have "rep (sv_db s') m'" "sv_watching s' = sv_watching s"
    "but_dirty ((sv_client s i)\<lparr>cl_reply := cl_reply (sv_client s' i)\<rparr>) (sv_client s' i)"
    using m'(1) by (simp_all add: s')
  ultimately show "\<exists>m'. rep (sv_db s') m' \<and> outcome i 1 m m' s s' \<and> sv_watching s' = sv_watching s \<and>
      but_dirty ((sv_client s i)\<lparr>cl_reply := cl_reply (sv_client s' i)\<rparr>) (sv_client s' i)" by blast
qed

end

context keyspace
begin

subsection \<open>The other procedures\<close>

lemma outcome_trans:
  assumes o1: "outcome i n m m' s s'" and o2: "outcome i n' m' m'' s' s''"
    and w: "cl_watched (sv_client s' i) = [] \<Longrightarrow> cl_watched (sv_client s'' i) = []"
  shows "outcome i (n + n') m m'' s s''"
proof -
  obtain rs rs' where "complete n rs" "complete n' rs'" "cl_reply (sv_client s'' i) = cl_reply (sv_client s i) @ rs @ rs'"
    using outcomeD(2) [OF o1] outcomeD(2) [OF o2] by auto
  then have r: "complete (n + n') (rs @ rs')" "cl_reply (sv_client s'' i) = cl_reply (sv_client s i) @ rs @ rs'"
    using complete_append by blast+
  note other = outcomeD(3) [OF o1] outcomeD(3) [OF o2]
  have keep: "cl_watched (sv_client s' j) = [] \<or> set (cl_watched (sv_client s j)) \<subseteq> set (cl_watched (sv_client s' j))"
    "cl_watched (sv_client s' j) = [] \<Longrightarrow> cl_watched (sv_client s'' j) = []" for j
    using outcomeD(4) [OF o1] w but_dirtyD(1) [OF other(1)] but_dirtyD(1) [OF other(2)] by (cases "j = i"; auto)+
  have dirty: "cl_dirty_cas (sv_client s'' j) \<or> cl_watched (sv_client s'' j) = []"
    if "cl_dirty_cas (sv_client s' j) \<or> cl_watched (sv_client s' j) = []" for j
    using that outcomeD(5) [OF o2, of j] keep(2) [of j] by auto
  have keys: "cl_dirty_cas (sv_client s'' j) \<or> cl_watched (sv_client s'' j) = [] \<or> keeps (m k) (m'' k)"
    if j: "j \<in> set (sv_clients s)" "k \<in> set (cl_watched (sv_client s j))" for j k
  proof (cases "cl_dirty_cas (sv_client s' j) \<or> cl_watched (sv_client s' j) = []")
    case False
    then have m': "keeps (m k) (m' k)" using outcomeD(6) [OF o1 j] by auto
    have "k \<in> set (cl_watched (sv_client s' j))" "j \<in> set (sv_clients s')"
      using False keep(1) [of j] j outcomeD(1) [OF o1] by auto
    from outcomeD(6) [OF o2 this(2,1)] show ?thesis using m' by (auto intro: keeps_trans)
  qed (use dirty in blast)
  have w2: "cl_watched (sv_client s'' i) = [] \<or> set (cl_watched (sv_client s i)) \<subseteq> set (cl_watched (sv_client s'' i))"
    using outcomeD(4) [OF o2] keep [of i] by auto
  show ?thesis
    by (rule outcomeI [OF _ r])
      (use outcomeD(1) [OF o1] outcomeD(1) [OF o2] but_dirty_trans [OF other] w2 dirty keys outcomeD(5) [OF o1] in auto)
qed

end

section \<open>When a command may be run\<close>

text \<open>
  The commands of the table have conditions on their arguments; for \<open>EXEC\<close> each queued command has to
  meet its condition when its turn comes.
\<close>

type_synonym safety = "proc \<Rightarrow> env \<Rightarrow> sds list \<Rightarrow> db \<Rightarrow> bool"

definition proc_safe :: "safety \<Rightarrow> cproc \<Rightarrow> env \<Rightarrow> sds list \<Rightarrow> db \<Rightarrow> bool" where
  "proc_safe safe p e av st \<longleftrightarrow> (case p of Data q \<Rightarrow> safe q e av st | _ \<Rightarrow> True)"

fun loop_safe :: "safety \<Rightarrow> nat \<Rightarrow> env list \<Rightarrow> (rcommand \<times> sds list) list \<Rightarrow> server_state \<Rightarrow> bool" where
  "loop_safe safe i es [] s = True"
| "loop_safe safe i [] (q # qs) s = False"
| "loop_safe safe i (e # es) ((cmd, av) # qs) s =
     (proc_safe safe (c_proc cmd) e av (sv_db s) \<and>
      (\<forall>rnd s'. call (run_proc (c_proc cmd) e rnd i av) av s = Some s' \<longrightarrow> loop_safe safe i es qs s'))"

definition exec_safe :: "safety \<Rightarrow> nat \<Rightarrow> env list \<Rightarrow> server_state \<Rightarrow> bool" where
  "exec_safe safe i es s \<longleftrightarrow>
     (let c = sv_client s i; qs = cl_mstate c in
      cl_multi c \<and> \<not> cl_dirty_cas c \<and> \<not> cl_dirty_exec c \<longrightarrow>
      (\<forall>s1. unwatchAllKeys i (feed [[bytes ''MULTI'']] s) = Some s1 \<longrightarrow>
         loop_safe safe i es qs (reply_to i (MultiBulk (int (length qs))) s1)))"

definition command_safe :: "safety \<Rightarrow> env \<Rightarrow> env list \<Rightarrow> nat \<Rightarrow> sds list \<Rightarrow> server_state \<Rightarrow> bool" where
  "command_safe safe e es i av s \<longleftrightarrow>
     av \<noteq> [] \<and> (\<exists>ts. list_all2 arg_rep av ts) \<and>
     (\<forall>name cmd. key_at av 0 = Some name \<and> lookupCommand name = Some cmd \<and> \<not> wrong_arity (c_arity cmd) (length av) \<longrightarrow>
        (c_proc cmd = ExecProc \<longrightarrow> exec_safe safe i es s) \<and>
        (\<not> cl_multi (sv_client s i) \<longrightarrow> proc_safe safe (c_proc cmd) e av (sv_db s)))"

text \<open>\<open>call\<close> adds nothing to the clients.\<close>

definition finished :: "server_state \<Rightarrow> server_state \<Rightarrow> bool" where
  "finished s s' \<longleftrightarrow> sv_clients s' = sv_clients s \<and> sv_watching s' = sv_watching s \<and> sv_client s' = sv_client s \<and>
     (\<exists>f. sv_db s' = on_srv f (sv_db s))"

lemma call_Some:
  assumes "list_all2 arg_rep av ts"
  shows "call proc av s = Some s' \<Longrightarrow> \<exists>s1. proc s = Some s1 \<and> finished s1 s'"
    and "proc s = Some s1 \<Longrightarrow> \<exists>s'. call proc av s = Some s'"
proof -
  have k: "keys_from av 0 = Some ts" using keys_from_ok [OF assms, of 0] by simp
  show "\<exists>s1. proc s = Some s1 \<and> finished s1 s'" if "call proc av s = Some s'"
    using that k by (auto simp: call_def Let_def finished_def feed_def split: bind_splits)
  show "\<exists>s'. call proc av s = Some s'" if "proc s = Some s1"
    using that k by (simp add: call_def Let_def)
qed

lemma finished_inv:
  assumes "finished s s'"
  shows "watch_inv s' = watch_inv s" "sv_client s' = sv_client s" "sv_clients s' = sv_clients s"
    "server_inv s' = server_inv s"
  using assms watch_inv_cong(1) [of s' s] by (auto simp: finished_def server_inv_def)

context keyspace
begin

lemma outcome_finished: "\<lbrakk>outcome i n m m' s s1; finished s1 s'\<rbrakk> \<Longrightarrow> outcome i n m m' s s'"
  by (simp add: outcome_def finished_def)

lemma rep_finished: "finished s s' \<Longrightarrow> rep (sv_db s') m = rep (sv_db s) m"
  by (auto simp: finished_def rep_srv)

text \<open>A change of client \<open>i\<close> that appends \<open>rs\<close> to its replies and keeps the database.\<close>

lemma outcome_client:
  assumes "sv_clients s' = sv_clients s" "\<And>j. j \<noteq> i \<Longrightarrow> sv_client s' j = sv_client s j"
    and "complete n rs" "cl_reply (sv_client s' i) = cl_reply (sv_client s i) @ rs"
    and "cl_watched (sv_client s' i) = [] \<or> set (cl_watched (sv_client s i)) \<subseteq> set (cl_watched (sv_client s' i))"
    and "cl_dirty_cas (sv_client s i) \<Longrightarrow> cl_dirty_cas (sv_client s' i) \<or> cl_watched (sv_client s' i) = []"
  shows "outcome i n m m s s'"
proof (rule outcomeI [OF assms(1,3,4) _ assms(5)])
  show "but_dirty (sv_client s j) (sv_client s' j)" if "j \<noteq> i" for j using assms(2) [OF that] by simp
  show "cl_dirty_cas (sv_client s' j) \<or> cl_watched (sv_client s' j) = []" if "cl_dirty_cas (sv_client s j)" for j
    using that assms(2,6) by (cases "j = i") auto
qed simp

lemma complete_scalar: "\<lbrakk>r \<noteq> Pending; elements r = 0\<rbrakk> \<Longrightarrow> complete 1 [r]"
  by simp

text \<open>Unwatching, whatever is then done to the client's flags and queue.\<close>

lemma unwatch_outcome:
  assumes "watch_inv s" "i \<in> set (sv_clients s)"
  obtains s1 where "unwatchAllKeys i s = Some s1" "watch_inv s1" "sv_db s1 = sv_db s" "sv_clients s1 = sv_clients s"
    "sv_client s1 = (sv_client s)(i := (sv_client s i)\<lparr>cl_watched := []\<rparr>)"
proof -
  obtain w where w: "unwatchAllKeys i s = Some (upd i (\<lambda>c. c\<lparr>cl_watched := []\<rparr>) (s\<lparr>sv_watching := w\<rparr>))"
    "watch_inv (upd i (\<lambda>c. c\<lparr>cl_watched := []\<rparr>) (s\<lparr>sv_watching := w\<rparr>))" by (rule unwatchAllKeys_ok [OF assms])
  show thesis by (rule that [OF w]) (simp_all add: fun_eq_iff)
qed

text \<open>The procedures that may be queued, and the others.\<close>

lemma unwatch_ok:
  assumes "watch_inv s" "i \<in> set (sv_clients s)"
  obtains s' where "unwatchCommand i s = Some s'" "watch_inv s'" "sv_db s' = sv_db s" "outcome i 1 m m s s'"
    "sv_client s' i = (sv_client s i)\<lparr>cl_watched := [], cl_dirty_cas := False, cl_reply := cl_reply (sv_client s i) @ [shared_ok]\<rparr>"
proof -
  obtain s1 where s1: "unwatchAllKeys i s = Some s1" "watch_inv s1" "sv_db s1 = sv_db s" "sv_clients s1 = sv_clients s"
    "sv_client s1 = (sv_client s)(i := (sv_client s i)\<lparr>cl_watched := []\<rparr>)" by (rule unwatch_outcome [OF assms])
  let ?s = "reply_to i shared_ok (upd i (\<lambda>c. c\<lparr>cl_dirty_cas := False\<rparr>) s1)"
  have "outcome i 1 m m s ?s"
    by (rule outcome_client [where rs = "[shared_ok]"]) (use s1 in auto)
  then show thesis by (rule that [rotated 3]) (use s1 in \<open>simp_all add: unwatchCommand_def\<close>)
qed

lemma multi_ok:
  assumes "watch_inv s"
  obtains s' where "multiCommand i s = Some s'" "watch_inv s'" "sv_db s' = sv_db s" "outcome i 1 m m s s'"
    "queue_ok (sv_client s i) \<Longrightarrow> queue_ok (sv_client s' i)"
proof (cases "cl_multi (sv_client s i)")
  case True
  let ?s = "reply_to i (Error ''MULTI calls can not be nested'') s"
  have "outcome i 1 m m s ?s" by (rule outcome_client [OF _ _ complete_scalar]) auto
  then show thesis by (rule that [rotated 3]) (use True assms in \<open>simp_all add: multiCommand_def queue_ok_def\<close>)
next
  case False
  let ?s = "reply_to i shared_ok (upd i (\<lambda>c. c\<lparr>cl_multi := True\<rparr>) s)"
  have "outcome i 1 m m s ?s" by (rule outcome_client [OF _ _ complete_scalar]) auto
  then show thesis by (rule that [rotated 3]) (use False assms in \<open>simp_all add: multiCommand_def queue_ok_def\<close>)
qed

lemma discard_ok:
  assumes "watch_inv s" "i \<in> set (sv_clients s)"
  obtains s' where "discardCommand i s = Some s'" "watch_inv s'" "sv_db s' = sv_db s" "outcome i 1 m m s s'"
    "queue_ok (sv_client s i) \<Longrightarrow> queue_ok (sv_client s' i)"
proof (cases "cl_multi (sv_client s i)")
  case False
  let ?s = "reply_to i (Error ''DISCARD without MULTI'') s"
  have "outcome i 1 m m s ?s" by (rule outcome_client [OF _ _ complete_scalar]) auto
  then show thesis
    by (rule that [rotated 3]) (use False assms in \<open>simp_all add: discardCommand_def queue_ok_def\<close>)
next
  case True
  let ?c = "clear_multi i (initClientMultiState i s)"
  have "watch_inv ?c" "i \<in> set (sv_clients ?c)" using assms by (simp_all add: clear_multi_def initClientMultiState_def)
  then obtain s1 where s1: "unwatchAllKeys i ?c = Some s1" "watch_inv s1" "sv_db s1 = sv_db s" "sv_clients s1 = sv_clients s"
    "sv_client s1 = (sv_client ?c)(i := (sv_client ?c i)\<lparr>cl_watched := []\<rparr>)"
    by (rule unwatch_outcome) (auto simp: clear_multi_def initClientMultiState_def)
  have "outcome i 1 m m s (reply_to i shared_ok s1)"
    by (rule outcome_client [where rs = "[shared_ok]"])
      (use s1 in \<open>auto simp: clear_multi_def initClientMultiState_def\<close>)
  then show thesis
    by (rule that [rotated 3])
      (use True s1 in \<open>auto simp: discardCommand_def discardTransaction_def queue_ok_def clear_multi_def initClientMultiState_def\<close>)
qed

lemma watch_ok:
  assumes "watch_inv s" "i \<in> set (sv_clients s)" "list_all2 arg_rep av ts"
  obtains s' where "watchCommand i av s = Some s'" "watch_inv s'" "sv_db s' = sv_db s" "outcome i 1 m m s s'"
    "queue_ok (sv_client s i) \<Longrightarrow> queue_ok (sv_client s' i)"
proof (cases "cl_multi (sv_client s i)")
  case True
  let ?s = "reply_to i (Error ''WATCH inside MULTI is not allowed'') s"
  have "outcome i 1 m m s ?s" by (rule outcome_client [OF _ _ complete_scalar]) auto
  then show thesis
    by (rule that [rotated 3]) (use True assms in \<open>simp_all add: watchCommand_def queue_ok_def\<close>)
next
  case False
  let ?ks = "drop 1 ts"
  let ?s = "reply_to i shared_ok (fold (watchForKey i) ?ks s)"
  note W = watch_keys [OF assms(1,2), where ks = ?ks]
  obtain w where w: "sv_client (fold (watchForKey i) ?ks s) i = (sv_client s i)\<lparr>cl_watched := w\<rparr>"
    "set w = set (cl_watched (sv_client s i)) \<union> set ?ks" using W(5) by blast
  have "outcome i 1 m m s ?s"
    by (rule outcome_client [where rs = "[shared_ok]"]) (use W w in auto)
  then show thesis
    by (rule that [rotated 3])
      (use False W w keys_from_ok [OF assms(3), of 1] in \<open>auto simp: watchCommand_def queue_ok_def\<close>)
qed

end

context keyspace
begin

subsection \<open>\<open>EXEC\<close>\<close>

lemma call_finished:
  assumes "call proc av s = Some s'" "list_all2 arg_rep av ts"
  obtains s1 where "proc s = Some s1" "finished s1 s'"
  using call_Some(1) [OF assms(2,1)] by blast

text \<open>A queued command.\<close>

lemma queued_ok:
  assumes "watch_inv s" "i \<in> set (sv_clients s)" "rep (sv_db s) m" "proc_safe safe p e av (sv_db s)"
    and "p \<notin> {ExecProc, DiscardProc, MultiProc, WatchProc}"
  shows "\<exists>rnd s'. run_proc p e rnd i av s = Some s'"
    and "run_proc p e rnd i av s = Some s' \<Longrightarrow> \<exists>m'. rep (sv_db s') m' \<and> outcome i 1 m m' s s' \<and> watch_inv s' \<and>
      (cl_watched (sv_client s' i) = cl_watched (sv_client s i) \<or> cl_watched (sv_client s' i) = []) \<and>
      (queue_ok (sv_client s i) \<longrightarrow> queue_ok (sv_client s' i))"
proof -
  have "(\<exists>rnd s'. run_proc p e rnd i av s = Some s') \<and> (\<forall>rnd s'. run_proc p e rnd i av s = Some s' \<longrightarrow>
    (\<exists>m'. rep (sv_db s') m' \<and> outcome i 1 m m' s s' \<and> watch_inv s' \<and>
      (cl_watched (sv_client s' i) = cl_watched (sv_client s i) \<or> cl_watched (sv_client s' i) = []) \<and>
      (queue_ok (sv_client s i) \<longrightarrow> queue_ok (sv_client s' i))))"
  proof (cases p)
    case (Data q)
    then have "safe q e av (sv_db s)" using assms(4) by (simp add: proc_safe_def)
    note R = run_data_ok [OF assms(1,3) this, where i = i]
    have "\<exists>m'. rep (sv_db s') m' \<and> outcome i 1 m m' s s' \<and> watch_inv s' \<and>
        (cl_watched (sv_client s' i) = cl_watched (sv_client s i) \<or> cl_watched (sv_client s' i) = []) \<and>
        (queue_ok (sv_client s i) \<longrightarrow> queue_ok (sv_client s' i))" if r: "run_data q e rnd i av s = Some s'" for rnd s'
    proof -
      obtain m' where m': "rep (sv_db s') m'" and o: "outcome i 1 m m' s s'" and w: "sv_watching s' = sv_watching s"
        and b: "but_dirty ((sv_client s i)\<lparr>cl_reply := cl_reply (sv_client s' i)\<rparr>) (sv_client s' i)"
        using R(2) [OF r] by blast
      have cw: "cl_watched (sv_client s' j) = cl_watched (sv_client s j)" for j
        using but_dirtyD(1) [OF b] but_dirtyD(1) [OF outcomeD(3) [OF o]] by (cases "j = i") auto
      have "watch_inv s'" using watch_inv_cong(1) [OF outcomeD(1) [OF o] w cw] assms(1) by simp
      moreover have "queue_ok (sv_client s i) \<longrightarrow> queue_ok (sv_client s' i)"
        using but_dirtyD(7) [OF b] by (simp add: queue_ok_def)
      ultimately show ?thesis using m' o cw by auto
    qed
    then show ?thesis using R(1) Data by auto
  next
    case UnwatchProc
    obtain s' where "unwatchCommand i s = Some s'" "watch_inv s'" "sv_db s' = sv_db s" "outcome i 1 m m s s'"
      "sv_client s' i = (sv_client s i)\<lparr>cl_watched := [], cl_dirty_cas := False, cl_reply := cl_reply (sv_client s i) @ [shared_ok]\<rparr>"
      by (rule unwatch_ok [OF assms(1,2)])
    then show ?thesis using UnwatchProc assms(3) by (auto simp: queue_ok_def)
  qed (use assms(5) in auto)
  then show "\<exists>rnd s'. run_proc p e rnd i av s = Some s'"
    "run_proc p e rnd i av s = Some s' \<Longrightarrow> \<exists>m'. rep (sv_db s') m' \<and> outcome i 1 m m' s s' \<and> watch_inv s' \<and>
      (cl_watched (sv_client s' i) = cl_watched (sv_client s i) \<or> cl_watched (sv_client s' i) = []) \<and>
      (queue_ok (sv_client s i) \<longrightarrow> queue_ok (sv_client s' i))"
    by blast+
qed

lemma exec_loop_ok:
  assumes "\<forall>(cmd, av) \<in> set qs. c_proc cmd \<notin> {ExecProc, DiscardProc, MultiProc, WatchProc} \<and> (\<exists>ts. list_all2 arg_rep av ts)"
  shows "\<lbrakk>watch_inv s; i \<in> set (sv_clients s); rep (sv_db s) m; cl_watched (sv_client s i) = []; loop_safe safe i es qs s\<rbrakk> \<Longrightarrow>
    (\<exists>xs s'. map fst xs = es \<and> exec_loop i xs qs s = Some s') \<and>
    (\<forall>xs s'. map fst xs = es \<and> exec_loop i xs qs s = Some s' \<longrightarrow> (\<exists>m'. rep (sv_db s') m' \<and> outcome i (length qs) m m' s s' \<and>
       watch_inv s' \<and> cl_watched (sv_client s' i) = []))"
  using assms
proof (induction qs arbitrary: es s m)
  case Nil
  have "\<exists>xs s'. map fst xs = es \<and> exec_loop i xs [] s = Some s'"
    by (rule exI [of _ "map (\<lambda>e. (e, [])) es"]) (simp add: comp_def)
  moreover have "outcome i 0 m m s s" by (rule outcome_client [of _ _ _ _ "[]"]) auto
  ultimately show ?case using Nil.prems by auto
next
  case (Cons q qs)
  obtain cmd av where q: "q = (cmd, av)" by (cases q)
  obtain e es' where es: "es = e # es'" using Cons.prems(5) q by (cases es) auto
  have safe: "proc_safe safe (c_proc cmd) e av (sv_db s)"
    and next_safe: "\<And>rnd s1. call (run_proc (c_proc cmd) e rnd i av) av s = Some s1 \<Longrightarrow> loop_safe safe i es' qs s1"
    using Cons.prems(5) q es by auto
  have p: "c_proc cmd \<notin> {ExecProc, DiscardProc, MultiProc, WatchProc}" using Cons.prems(6) q by auto
  obtain ts where ts: "list_all2 arg_rep av ts" using Cons.prems(6) q by auto
  note Q = queued_ok [OF Cons.prems(1,2,3) safe p]
  have one: "\<exists>m1. rep (sv_db s1) m1 \<and> outcome i 1 m m1 s s1 \<and> watch_inv s1 \<and> cl_watched (sv_client s1 i) = [] \<and>
      loop_safe safe i es' qs s1" if c: "call (run_proc (c_proc cmd) e rnd i av) av s = Some s1" for rnd s1
  proof -
    obtain s0 where s0: "run_proc (c_proc cmd) e rnd i av s = Some s0" "finished s0 s1"
      by (rule call_finished [OF c ts])
    obtain m1 where "rep (sv_db s0) m1" "outcome i 1 m m1 s s0" "watch_inv s0" "cl_watched (sv_client s0 i) = []"
      using Q(2) [OF s0(1)] Cons.prems(4) by auto
    then show ?thesis
      using next_safe [OF c] outcome_finished [OF _ s0(2)] rep_finished [OF s0(2)] finished_inv [OF s0(2)] by auto
  qed
  have rest: "(\<exists>xs s'. map fst xs = es' \<and> exec_loop i xs qs s1 = Some s') \<and>
      (\<forall>xs s'. map fst xs = es' \<and> exec_loop i xs qs s1 = Some s' \<longrightarrow> (\<exists>m'. rep (sv_db s') m' \<and>
         outcome i (length qs) m1 m' s1 s' \<and> watch_inv s' \<and> cl_watched (sv_client s' i) = []))"
    if "rep (sv_db s1) m1" "outcome i 1 m m1 s s1" "watch_inv s1" "cl_watched (sv_client s1 i) = []" "loop_safe safe i es' qs s1" for s1 m1
    using that Cons.prems(2,6) outcomeD(1) [OF that(2)] by (intro Cons.IH) auto
  show ?case
  proof (intro conjI allI impI, goal_cases)
    case 1
    obtain rnd s0 where "run_proc (c_proc cmd) e rnd i av s = Some s0" using Q(1) by blast
    then obtain s1 where s1: "call (run_proc (c_proc cmd) e rnd i av) av s = Some s1" using call_Some(2) [OF ts] by blast
    obtain xs s' where "map fst xs = es'" "exec_loop i xs qs s1 = Some s'" using one [OF s1] rest by blast
    then show ?case using s1 q es by (intro exI [of _ "(e, rnd) # xs"] exI [of _ s']) simp
  next
    case (2 xs s')
    then obtain rnd ys where xs: "xs = (e, rnd) # ys" "map fst ys = es'" using es by (cases xs) auto
    then obtain s1 where s1: "call (run_proc (c_proc cmd) e rnd i av) av s = Some s1" "exec_loop i ys qs s1 = Some s'"
      using 2 q by (auto split: bind_splits)
    obtain m1 where m1: "rep (sv_db s1) m1" "outcome i 1 m m1 s s1" "watch_inv s1" "cl_watched (sv_client s1 i) = []"
      "loop_safe safe i es' qs s1" using one [OF s1(1)] by blast
    obtain m' where m': "rep (sv_db s') m'" "outcome i (length qs) m1 m' s1 s'" "watch_inv s'" "cl_watched (sv_client s' i) = []"
      using rest [OF m1] s1(2) xs(2) by blast
    have "outcome i (length (q # qs)) m m' s s'" using outcome_trans [OF m1(2) m'(2)] m'(4) by (simp add: One_nat_def)
    then show ?case using m' by blast
  qed
qed

end

context keyspace
begin

lemma clear_simps [simp]:
  "sv_db (clear_multi i s) = sv_db s" "sv_clients (clear_multi i s) = sv_clients s"
  "sv_db (initClientMultiState i s) = sv_db s" "sv_clients (initClientMultiState i s) = sv_clients s"
  "sv_client (clear_multi i s) j = (if j = i then (sv_client s i)\<lparr>cl_multi := False, cl_dirty_cas := False, cl_dirty_exec := False\<rparr>
     else sv_client s j)"
  "sv_client (initClientMultiState i s) j = (if j = i then (sv_client s i)\<lparr>cl_mstate := []\<rparr> else sv_client s j)"
  by (simp_all add: clear_multi_def initClientMultiState_def)

text \<open>An aborted transaction leaves the database alone.\<close>

lemma exec_abort:
  assumes "watch_inv s" "i \<in> set (sv_clients s)" "cl_multi (sv_client s i)"
    and "cl_dirty_cas (sv_client s i) \<or> cl_dirty_exec (sv_client s i)"
  obtains s' where "\<And>xs. execCommand i xs s = Some s'" "watch_inv s'" "sv_db s' = sv_db s" "outcome i 1 m m s s'"
    "queue_ok (sv_client s' i)"
    "cl_reply (sv_client s' i) = cl_reply (sv_client s i) @ [if cl_dirty_exec (sv_client s i) then execaborterr else nullmultibulk]"
    "\<not> cl_multi (sv_client s' i)"
proof -
  let ?r = "if cl_dirty_exec (sv_client s i) then execaborterr else nullmultibulk"
  let ?c = "clear_multi i (initClientMultiState i (reply_to i ?r s))"
  have "watch_inv ?c" "i \<in> set (sv_clients ?c)" using assms(1,2) by simp_all
  then obtain s1 where s1: "unwatchAllKeys i ?c = Some s1" "watch_inv s1" "sv_db s1 = sv_db ?c" "sv_clients s1 = sv_clients ?c"
    "sv_client s1 = (sv_client ?c)(i := (sv_client ?c i)\<lparr>cl_watched := []\<rparr>)"
    by (rule unwatch_outcome)
  have "outcome i 1 m m s s1"
    by (rule outcome_client [where rs = "[?r]"]) (use s1 in \<open>auto simp: execaborterr_def nullmultibulk_def\<close>)
  moreover have "execCommand i xs s = Some s1" for xs using assms(3,4) s1(1) by (simp add: execCommand_def)
  ultimately show thesis using s1 by (intro that) (auto simp: queue_ok_def)
qed

text \<open>A transaction that is not aborted runs its queue.\<close>

definition exec_end :: "nat \<Rightarrow> server_state \<Rightarrow> server_state" where
  "exec_end i s = (let s = clear_multi i (initClientMultiState i s) in s\<lparr>sv_db := addDirty 1 (sv_db s)\<rparr>)"

lemma exec_end_simps:
  "sv_client (exec_end i s) j = (if j = i then (sv_client s i)\<lparr>cl_mstate := [], cl_multi := False,
     cl_dirty_cas := False, cl_dirty_exec := False\<rparr> else sv_client s j)"
  "sv_clients (exec_end i s) = sv_clients s" "watch_inv (exec_end i s) = watch_inv s"
  "rep (sv_db (exec_end i s)) m = rep (sv_db s) m" "queue_ok (sv_client (exec_end i s) i)"
proof -
  show c: "sv_client (exec_end i s) j = (if j = i then (sv_client s i)\<lparr>cl_mstate := [], cl_multi := False,
     cl_dirty_cas := False, cl_dirty_exec := False\<rparr> else sv_client s j)" for j
    by (simp add: exec_end_def Let_def)
  show "watch_inv (exec_end i s) = watch_inv s"
    by (rule watch_inv_cong(1)) (simp_all add: c, simp_all add: exec_end_def Let_def clear_multi_def initClientMultiState_def)
  show "sv_clients (exec_end i s) = sv_clients s" "rep (sv_db (exec_end i s)) m = rep (sv_db s) m"
    by (simp_all add: exec_end_def Let_def rep_addDirty)
  show "queue_ok (sv_client (exec_end i s) i)" by (simp add: c queue_ok_def)
qed

lemma exec_end_outcome:
  assumes s1: "sv_clients s1 = sv_clients s" "sv_client s1 = (sv_client s)(i := (sv_client s i)\<lparr>cl_watched := []\<rparr>)"
    and o: "outcome i n m m' (reply_to i (MultiBulk (int n)) s1) s2" and w: "cl_watched (sv_client s2 i) = []"
  shows "outcome i 1 m m' s (exec_end i s2)"
proof -
  obtain rs where rs: "complete n rs"
    "cl_reply (sv_client s2 i) = cl_reply (sv_client s i) @ MultiBulk (int n) # rs"
    using outcomeD(2) [OF o] s1(2) by auto
  show ?thesis
  proof (rule outcomeI)
    show "sv_clients (exec_end i s2) = sv_clients s" using outcomeD(1) [OF o] s1(1) by (simp add: exec_end_simps)
    show "complete 1 (MultiBulk (int n) # rs)" using rs(1) by simp
    show "cl_reply (sv_client (exec_end i s2) i) = cl_reply (sv_client s i) @ MultiBulk (int n) # rs"
      using rs(2) by (simp add: exec_end_simps)
    show "cl_watched (sv_client (exec_end i s2) i) = [] \<or>
        set (cl_watched (sv_client s i)) \<subseteq> set (cl_watched (sv_client (exec_end i s2) i))"
      using w by (simp add: exec_end_simps)
    show "but_dirty (sv_client s j) (sv_client (exec_end i s2) j)" if "j \<noteq> i" for j
      using outcomeD(3) [OF o that] that s1(2) by (simp add: exec_end_simps)
    show "cl_dirty_cas (sv_client (exec_end i s2) j) \<or> cl_watched (sv_client (exec_end i s2) j) = []"
      if "cl_dirty_cas (sv_client s j)" for j
      using that outcomeD(5) [OF o, of j] w s1(2) by (cases "j = i") (auto simp: exec_end_simps)
    show "cl_dirty_cas (sv_client (exec_end i s2) j) \<or> cl_watched (sv_client (exec_end i s2) j) = [] \<or> keeps (m k) (m' k)"
      if "j \<in> set (sv_clients s)" "k \<in> set (cl_watched (sv_client s j))" for j k
      using that outcomeD(6) [OF o, of j k] w s1 by (cases "j = i") (auto simp: exec_end_simps)
  qed
qed

lemma exec_commit:
  assumes "server_inv s" "i \<in> set (sv_clients s)" "rep (sv_db s) m" "exec_safe safe i es s"
    and run: "cl_multi (sv_client s i)" "\<not> cl_dirty_cas (sv_client s i)" "\<not> cl_dirty_exec (sv_client s i)"
  shows "\<exists>xs s'. map fst xs = es \<and> execCommand i xs s = Some s'"
    and "\<lbrakk>map fst xs = es; execCommand i xs s = Some s'\<rbrakk> \<Longrightarrow> \<exists>m'. rep (sv_db s') m' \<and> outcome i 1 m m' s s' \<and>
      watch_inv s' \<and> queue_ok (sv_client s' i)"
proof -
  let ?qs = "cl_mstate (sv_client s i)" and ?f = "feed [[bytes ''MULTI'']] s"
  have inv: "watch_inv ?f" "i \<in> set (sv_clients ?f)" using assms(1,2) by (simp_all add: server_inv_def)
  obtain s1 where s1: "unwatchAllKeys i ?f = Some s1" "watch_inv s1" "sv_db s1 = sv_db ?f" "sv_clients s1 = sv_clients ?f"
    "sv_client s1 = (sv_client ?f)(i := (sv_client ?f i)\<lparr>cl_watched := []\<rparr>)"
    by (rule unwatch_outcome [OF inv])
  let ?s = "reply_to i (MultiBulk (int (length ?qs))) s1"
  have safe: "loop_safe safe i es ?qs ?s" using assms(4) run s1(1) by (simp add: exec_safe_def Let_def)
  have qs: "\<forall>(cmd, av) \<in> set ?qs. c_proc cmd \<notin> {ExecProc, DiscardProc, MultiProc, WatchProc} \<and> (\<exists>ts. list_all2 arg_rep av ts)"
    using assms(1,2) by (auto simp: server_inv_def queue_ok_def)
  have "watch_inv ?s" "i \<in> set (sv_clients ?s)" "rep (sv_db ?s) m" "cl_watched (sv_client ?s i) = []"
    using s1 assms(2,3) by simp_all
  note L = exec_loop_ok [OF qs this safe]
  have exec: "execCommand i xs s = map_option (exec_end i) (exec_loop i xs ?qs ?s)" for xs
    using run s1(1,5) by (cases "exec_loop i xs ?qs ?s") (simp_all add: execCommand_def exec_end_def Let_def)
  show "\<exists>xs s'. map fst xs = es \<and> execCommand i xs s = Some s'" unfolding exec using L by blast
  show "\<exists>m'. rep (sv_db s') m' \<and> outcome i 1 m m' s s' \<and> watch_inv s' \<and> queue_ok (sv_client s' i)"
    if xs: "map fst xs = es" and r: "execCommand i xs s = Some s'"
  proof -
    obtain s2 where s2: "exec_loop i xs ?qs ?s = Some s2" "s' = exec_end i s2" using r unfolding exec by blast
    obtain m' where m': "rep (sv_db s2) m'" "outcome i (length ?qs) m m' ?s s2" "watch_inv s2" "cl_watched (sv_client s2 i) = []"
      using L xs s2(1) by blast
    have "sv_clients s1 = sv_clients s" "sv_client s1 = (sv_client s)(i := (sv_client s i)\<lparr>cl_watched := []\<rparr>)"
      using s1(4,5) by simp_all
    from exec_end_outcome [OF this m'(2,4)] show ?thesis unfolding s2(2) using m' exec_end_simps by blast
  qed
qed

lemma exec_ok:
  assumes "server_inv s" "i \<in> set (sv_clients s)" "rep (sv_db s) m" "exec_safe safe i es s"
  shows "\<exists>xs s'. map fst xs = es \<and> execCommand i xs s = Some s'"
    and "\<lbrakk>map fst xs = es; execCommand i xs s = Some s'\<rbrakk> \<Longrightarrow> \<exists>m'. rep (sv_db s') m' \<and> outcome i 1 m m' s s' \<and>
      watch_inv s' \<and> queue_ok (sv_client s' i)"
proof -
  let ?c = "sv_client s i"
  have inv: "watch_inv s" "queue_ok ?c" using assms(1,2) by (simp_all add: server_inv_def)
  have any: "\<exists>xs :: (env \<times> nat list list) list. map fst xs = es"
    by (rule exI [of _ "map (\<lambda>e. (e, [])) es"]) (simp add: comp_def)
  have "(\<exists>xs s'. map fst xs = es \<and> execCommand i xs s = Some s') \<and>
    (\<forall>xs s'. map fst xs = es \<and> execCommand i xs s = Some s' \<longrightarrow> (\<exists>m'. rep (sv_db s') m' \<and> outcome i 1 m m' s s' \<and>
      watch_inv s' \<and> queue_ok (sv_client s' i)))"
  proof -
    consider "\<not> cl_multi ?c" | "cl_multi ?c" "cl_dirty_cas ?c \<or> cl_dirty_exec ?c"
      | "cl_multi ?c" "\<not> cl_dirty_cas ?c" "\<not> cl_dirty_exec ?c" by blast
    then show ?thesis
    proof cases
      case 1
      let ?s = "reply_to i (Error ''EXEC without MULTI'') s"
      have "outcome i 1 m m s ?s" by (rule outcome_client [OF _ _ complete_scalar]) auto
      moreover have "execCommand i xs s = Some ?s" for xs using 1 by (simp add: execCommand_def)
      ultimately show ?thesis using inv assms(3) any by (auto simp: queue_ok_def)
    next
      case 2
      obtain s' where "\<And>xs. execCommand i xs s = Some s'" "watch_inv s'" "sv_db s' = sv_db s" "outcome i 1 m m s s'"
        "queue_ok (sv_client s' i)" by (rule exec_abort [OF inv(1) assms(2) 2, where m = m]) blast
      then show ?thesis using assms(3) any by auto
    next
      case 3
      show ?thesis using exec_commit [OF assms 3] by blast
    qed
  qed
  then show "\<exists>xs s'. map fst xs = es \<and> execCommand i xs s = Some s'"
    "\<lbrakk>map fst xs = es; execCommand i xs s = Some s'\<rbrakk> \<Longrightarrow> \<exists>m'. rep (sv_db s') m' \<and> outcome i 1 m m' s s' \<and>
      watch_inv s' \<and> queue_ok (sv_client s' i)" by blast+
qed

end

text \<open>What \<open>processCommand\<close> does, by the outcome of its tests.\<close>

lemma processCommand_cases:
  assumes name: "key_at av 0 = Some name"
  obtains (quit) "\<And>rnd xs. processCommand g e rnd xs i av s =
      Some (upd i (\<lambda>c. c\<lparr>cl_close := True\<rparr>) (reply_to i shared_ok s), False)"
  | (error) r spoils where "r \<noteq> Pending" "elements r = 0"
      "\<And>rnd xs. processCommand g e rnd xs i av s = Some (reply_to i r (if spoils then flagTransaction i s else s), True)"
  | (run) cmd where "lookupCommand name = Some cmd" "cmd \<in> set commandTable" "\<not> wrong_arity (c_arity cmd) (length av)"
      "\<And>rnd xs. processCommand g e rnd xs i av s = map_option (\<lambda>s. (s, True)) (exec_command e rnd xs i cmd av s)"
proof (cases "map char_tolower (takeWhile (\<lambda>b. b \<noteq> 0) name) = bytes ''quit''")
  case True
  then show ?thesis using name by (intro quit) (simp add: processCommand_def)
next
  case go: False
  show ?thesis
  proof (cases "lookupCommand name")
    case None
    then show ?thesis
      using name go by (intro error [of "unknown_command name" True]) (simp_all add: processCommand_def unknown_command_def)
  next
    case (Some cmd)
    have tab: "cmd \<in> set commandTable" using Some by (auto simp: lookupCommand_def find_Some_iff in_set_conv_nth)
    consider "wrong_arity (c_arity cmd) (length av)" | "\<not> wrong_arity (c_arity cmd) (length av)" "refused g e (sv_client s i) cmd = None"
      | r spoils where "\<not> wrong_arity (c_arity cmd) (length av)" "refused g e (sv_client s i) cmd = Some (r, spoils)"
      by (cases "refused g e (sv_client s i) cmd") auto
    then show ?thesis
    proof cases
      case 1
      then show ?thesis using name go Some
        by (intro error [of "wrong_arguments (c_name cmd)" True]) (simp_all add: processCommand_def wrong_arguments_def)
    next
      case 2
      have "processCommand g e rnd xs i av s = map_option (\<lambda>s. (s, True)) (exec_command e rnd xs i cmd av s)" for rnd xs
        using name go Some 2 by (cases "exec_command e rnd xs i cmd av s") (simp_all add: processCommand_def)
      then show ?thesis by (rule run [OF Some tab 2(1)])
    next
      case 3
      have "r \<noteq> Pending \<and> elements r = 0" using 3(2) by (auto simp: refused_def split: if_splits)
      then show ?thesis using name go Some 3 by (intro error [of r spoils]) (simp_all add: processCommand_def)
    qed
  qed
qed

context keyspace
begin

subsection \<open>\<open>processCommand\<close>\<close>

definition good_step :: "nat \<Rightarrow> (byte list \<Rightarrow> 'v option) \<Rightarrow> server_state \<Rightarrow> server_state \<Rightarrow> bool" where
  "good_step i m s s' \<longleftrightarrow> (\<exists>m'. rep (sv_db s') m' \<and> outcome i 1 m m' s s' \<and> server_inv s')"

lemma good_stepI:
  assumes "server_inv s" "rep (sv_db s') m'" "outcome i 1 m m' s s'" "watch_inv s'"
    and "queue_ok (sv_client s i) \<Longrightarrow> queue_ok (sv_client s' i)"
  shows "good_step i m s s'"
proof -
  have "queue_ok (sv_client s' j)" if "j \<in> set (sv_clients s')" for j
    using that assms(1,5) outcomeD(1) [OF assms(3)] but_dirtyD(7) [OF outcomeD(3) [OF assms(3)]]
    by (cases "j = i") (auto simp: server_inv_def)
  then show ?thesis using assms by (auto simp: good_step_def server_inv_def)
qed

lemma flag_simps [simp]:
  "sv_clients (flagTransaction i s) = sv_clients s" "sv_db (flagTransaction i s) = sv_db s"
  "sv_client (flagTransaction i s) j = (if j = i \<and> cl_multi (sv_client s i)
     then (sv_client s i)\<lparr>cl_dirty_exec := True\<rparr> else sv_client s j)"
  "watch_inv (flagTransaction i s) = watch_inv s"
  by (simp_all add: flagTransaction_def)

lemma error_step:
  assumes "server_inv s" "rep (sv_db s) m" "r \<noteq> Pending" "elements r = 0"
  shows "good_step i m s (reply_to i r (if spoils then flagTransaction i s else s))"
proof (rule good_stepI [OF assms(1)])
  show "outcome i 1 m m s (reply_to i r (if spoils then flagTransaction i s else s))"
    by (rule outcome_client [OF _ _ complete_scalar [OF assms(3,4)]]) auto
qed (use assms in \<open>auto simp: queue_ok_def server_inv_def\<close>)

lemma queue_step:
  assumes "server_inv s" "rep (sv_db s) m" "cl_multi (sv_client s i)" "cmd \<in> set commandTable"
    and "\<not> wrong_arity (c_arity cmd) (length av)" "c_proc cmd \<notin> {ExecProc, DiscardProc, MultiProc, WatchProc}"
    and "list_all2 arg_rep av ts"
  shows "good_step i m s (reply_to i (Status ''QUEUED'') (queueMultiCommand i cmd av s))"
proof (rule good_stepI [OF assms(1)])
  show "outcome i 1 m m s (reply_to i (Status ''QUEUED'') (queueMultiCommand i cmd av s))"
    by (rule outcome_client [OF _ _ complete_scalar]) (auto simp: queueMultiCommand_def)
qed (use assms in \<open>auto simp: queue_ok_def server_inv_def queueMultiCommand_def\<close>)

lemma quit_step:
  assumes "server_inv s" "rep (sv_db s) m"
  shows "good_step i m s (upd i (\<lambda>c. c\<lparr>cl_close := True\<rparr>) (reply_to i shared_ok s))"
proof (rule good_stepI [OF assms(1)])
  show "outcome i 1 m m s (upd i (\<lambda>c. c\<lparr>cl_close := True\<rparr>) (reply_to i shared_ok s))"
    by (rule outcome_client [OF _ _ complete_scalar]) auto
qed (use assms in \<open>auto simp: queue_ok_def server_inv_def\<close>)

text \<open>A procedure that is run at once, \<open>EXEC\<close> apart.\<close>

lemma run_proc_ok:
  assumes "server_inv s" "i \<in> set (sv_clients s)" "rep (sv_db s) m" "proc_safe safe p e av (sv_db s)" "p \<noteq> ExecProc"
    and "list_all2 arg_rep av ts"
  shows "(\<exists>rnd s'. run_proc p e rnd i av s = Some s') \<and> (\<forall>rnd s'. run_proc p e rnd i av s = Some s' \<longrightarrow> good_step i m s s')"
proof -
  have inv: "watch_inv s" using assms(1) by (simp add: server_inv_def)
  have step: "?thesis" if "\<And>rnd. run_proc p e rnd i av s = Some s'" "watch_inv s'" "sv_db s' = sv_db s" "outcome i 1 m m s s'"
    "queue_ok (sv_client s i) \<Longrightarrow> queue_ok (sv_client s' i)" for s'
    using that assms(3) good_stepI [OF assms(1), of s' m] by auto
  consider "p \<notin> {ExecProc, DiscardProc, MultiProc, WatchProc}" | "p = DiscardProc" | "p = MultiProc" | "p = WatchProc"
    using assms(5) by blast
  then show ?thesis
  proof cases
    case 1
    note Q = queued_ok [OF inv assms(2-4) 1]
    have "good_step i m s s'" if r: "run_proc p e rnd i av s = Some s'" for rnd s'
      using Q(2) [OF r] good_stepI [OF assms(1)] by blast
    then show ?thesis using Q(1) by blast
  next
    case 2
    show ?thesis by (rule discard_ok [OF inv assms(2), where m = m]) (rule step, auto simp: 2)
  next
    case 3
    show ?thesis by (rule multi_ok [OF inv, where m = m and i = i]) (rule step, auto simp: 3)
  next
    case 4
    show ?thesis by (rule watch_ok [OF inv assms(2,6), where m = m]) (rule step, auto simp: 4)
  qed
qed

lemma good_step_finished: "\<lbrakk>good_step i m s s1; finished s1 s'\<rbrakk> \<Longrightarrow> good_step i m s s'"
  using outcome_finished rep_finished finished_inv(4) by (auto simp: good_step_def)

lemma never_queued_iff: "never_queued p \<longleftrightarrow> p \<in> {ExecProc, DiscardProc, MultiProc, WatchProc}"
  by (cases p) simp_all

lemma exec_command_ok:
  assumes "server_inv s" "i \<in> set (sv_clients s)" "rep (sv_db s) m" "list_all2 arg_rep av ts"
    and cmd: "cmd \<in> set commandTable" "\<not> wrong_arity (c_arity cmd) (length av)"
    and safe: "c_proc cmd = ExecProc \<Longrightarrow> exec_safe safe i es s"
      "\<not> cl_multi (sv_client s i) \<Longrightarrow> proc_safe safe (c_proc cmd) e av (sv_db s)"
  shows "(\<exists>rnd xs s'. map fst xs = es \<and> exec_command e rnd xs i cmd av s = Some s') \<and>
    (\<forall>rnd xs s'. map fst xs = es \<and> exec_command e rnd xs i cmd av s = Some s' \<longrightarrow> good_step i m s s')"
proof -
  have any: "\<exists>xs :: (env \<times> nat list list) list. map fst xs = es"
    by (rule exI [of _ "map (\<lambda>e. (e, [])) es"]) (simp add: comp_def)
  let ?p = "c_proc cmd"
  consider "cl_multi (sv_client s i)" "?p \<notin> {ExecProc, DiscardProc, MultiProc, WatchProc}" | "?p = ExecProc"
    | "?p \<noteq> ExecProc" "\<not> cl_multi (sv_client s i) \<or> ?p \<in> {DiscardProc, MultiProc, WatchProc}" by blast
  then show ?thesis
  proof cases
    case 1
    then show ?thesis
      using queue_step [OF assms(1,3) 1(1) cmd 1(2) assms(4)] any by (auto simp: exec_command_def never_queued_iff)
  next
    case 2
    have run: "exec_command e rnd xs i cmd av s = call (execCommand i xs) av s" for rnd xs
      using 2 by (simp add: exec_command_def never_queued_iff)
    note X = exec_ok [OF assms(1-3) safe(1) [OF 2]]
    have "good_step i m s s'" if xs: "map fst xs = es" and c: "call (execCommand i xs) av s = Some s'" for xs s'
    proof -
      obtain s1 where s1: "execCommand i xs s = Some s1" "finished s1 s'" by (rule call_finished [OF c assms(4)])
      have "good_step i m s s1" using X(2) [OF xs s1(1)] good_stepI [OF assms(1)] by blast
      then show ?thesis by (rule good_step_finished [OF _ s1(2)])
    qed
    moreover have "\<exists>xs s'. map fst xs = es \<and> call (execCommand i xs) av s = Some s'"
      using X(1) call_Some(2) [OF assms(4)] by blast
    ultimately show ?thesis unfolding run by blast
  next
    case 3
    have run: "exec_command e rnd xs i cmd av s = call (run_proc ?p e rnd i av) av s" for rnd xs
      using 3 by (cases ?p) (auto simp: exec_command_def never_queued_iff)
    have "proc_safe safe ?p e av (sv_db s)" using 3(2) safe(2) by (auto simp: proc_safe_def)
    note R = run_proc_ok [OF assms(1-3) this 3(1) assms(4)]
    have "good_step i m s s'" if c: "call (run_proc ?p e rnd i av) av s = Some s'" for rnd s'
    proof -
      obtain s1 where s1: "run_proc ?p e rnd i av s = Some s1" "finished s1 s'" by (rule call_finished [OF c assms(4)])
      then show ?thesis using R good_step_finished by blast
    qed
    moreover have "\<exists>rnd s'. call (run_proc ?p e rnd i av) av s = Some s'"
      using R call_Some(2) [OF assms(4)] by blast
    ultimately show ?thesis unfolding run using any by blast
  qed
qed

lemma processCommand_ok:
  assumes "server_inv s" "i \<in> set (sv_clients s)" "rep (sv_db s) m" "command_safe safe e es i av s"
  shows "\<exists>rnd xs s' b. map fst xs = es \<and> processCommand g e rnd xs i av s = Some (s', b)"
    and "\<lbrakk>map fst xs = es; processCommand g e rnd xs i av s = Some (s', b)\<rbrakk> \<Longrightarrow> good_step i m s s'"
proof -
  obtain ts where ts: "list_all2 arg_rep av ts" and av: "av \<noteq> []" using assms(4) by (auto simp: command_safe_def)
  have "ts \<noteq> []" using av list_all2_lengthD [OF ts] by auto
  then have name: "key_at av 0 = Some (ts ! 0)" using key_at_ok [OF ts, of 0] by simp
  have any: "\<exists>xs :: (env \<times> nat list list) list. map fst xs = es"
    by (rule exI [of _ "map (\<lambda>e. (e, [])) es"]) (simp add: comp_def)
  have "(\<exists>rnd xs s' b. map fst xs = es \<and> processCommand g e rnd xs i av s = Some (s', b)) \<and>
    (\<forall>rnd xs s' b. map fst xs = es \<and> processCommand g e rnd xs i av s = Some (s', b) \<longrightarrow> good_step i m s s')"
  proof (cases rule: processCommand_cases [OF name, of g e i s])
    case 1
    then show ?thesis using quit_step [OF assms(1,3)] any by auto
  next
    case (2 r spoils)
    then show ?thesis using error_step [OF assms(1,3), of r i spoils] any by auto
  next
    case (3 cmd)
    note run = 3
    have "c_proc cmd = ExecProc \<Longrightarrow> exec_safe safe i es s"
      "\<not> cl_multi (sv_client s i) \<Longrightarrow> proc_safe safe (c_proc cmd) e av (sv_db s)"
      using assms(4) name run(1,3) by (auto simp: command_safe_def)
    from exec_command_ok [OF assms(1-3) ts run(2,3) this] show ?thesis unfolding run(4) by auto
  qed
  then show "\<exists>rnd xs s' b. map fst xs = es \<and> processCommand g e rnd xs i av s = Some (s', b)"
    "\<lbrakk>map fst xs = es; processCommand g e rnd xs i av s = Some (s', b)\<rbrakk> \<Longrightarrow> good_step i m s s'" by blast+
qed

end

end
