(* ===== verification/Reach.thy ===== *)
theory Reach
  imports Transactions
begin

text \<open>
  The server as a state machine: clients connect, leave and send commands, in any order.  The
  reachable states satisfy the invariant of \<open>Transactions\<close>; the theorems about replies and \<open>WATCH\<close>
  hold for every run.
\<close>

section \<open>The state machine\<close>

datatype event = Accept nat | Close nat | Command config env "env list" nat "sds list"

definition initial_server :: server_state where
  "initial_server = \<lparr>sv_db = empty_db, sv_watching = Map.empty, sv_clients = [],
     sv_client = (\<lambda>i. \<lparr>cl_multi = False, cl_dirty_cas = False, cl_dirty_exec = False, cl_close = False,
       cl_master = False, cl_authenticated = False, cl_subscriptions = 0, cl_mstate = [], cl_watched = [], cl_reply = []\<rparr>),
     sv_feed = [], sv_numcommands = 0\<rparr>"

text \<open>
  A command is run with any random numbers; its arguments are within the range of \<open>in_range\<close>.  A
  client whose connection is to be closed sends no more commands.
\<close>

inductive step :: "32 word \<Rightarrow> event \<Rightarrow> server_state \<Rightarrow> server_state \<Rightarrow> bool" for seed where
  accept: "i \<notin> set (sv_clients s) \<Longrightarrow> step seed (Accept i) s (createClient i s)"
| close: "\<lbrakk>i \<in> set (sv_clients s); freeClient i s = Some s'\<rbrakk> \<Longrightarrow> step seed (Close i) s s'"
| command: "\<lbrakk>i \<in> set (sv_clients s); \<not> cl_close (sv_client s i); command_safe (in_range seed) e es i av s;
    map fst xs = es; processCommand g e rnd xs i av s = Some (s', b)\<rbrakk> \<Longrightarrow> step seed (Command g e es i av) s s'"

inductive_cases step_commandE: "step seed (Command g e es i av) s s'"
inductive_cases step_closeE: "step seed (Close i) s s'"
inductive_cases step_acceptE: "step seed (Accept i) s s'"

inductive reachable :: "32 word \<Rightarrow> server_state \<Rightarrow> bool" for seed where
  initial: "reachable seed initial_server"
| step: "\<lbrakk>reachable seed s; step seed ev s s'\<rbrakk> \<Longrightarrow> reachable seed s'"

text \<open>The values in a database.\<close>

definition obj_val :: "robj \<Rightarrow> val" where
  "obj_val ob = (if otype ob = REDIS_SET then VSet (set (map ele_text (set_elems ob))) else VStr (the (obj_text ob)))"

definition db_values :: "db \<Rightarrow> byte list \<Rightarrow> val option" where
  "db_values st k = map_option obj_val (dict_map (st_keys st) k)"

lemma obj_val_rep: "obj_rep seed ob v \<Longrightarrow> obj_val ob = v"
  using obj_rep_type [of seed ob v] obj_text_ok [of seed ob] set_elems_ok(2) [of seed ob]
  by (cases v) (auto simp: obj_val_def)

definition expire_of :: "db \<Rightarrow> byte list \<Rightarrow> int option" where
  "expire_of st k = dict_map (st_expires st) k"

text \<open>The value of each key together with its expire time.\<close>

definition db_view :: "db \<Rightarrow> byte list \<Rightarrow> (val \<times> int option) option" where
  "db_view st k = map_option (\<lambda>v. (v, expire_of st k)) (db_values st k)"

lemma db_view_iff: "db_view st k = None \<longleftrightarrow> db_values st k = None"
  "db_view st k = Some (v, w) \<longleftrightarrow> db_values st k = Some v \<and> expire_of st k = w"
  by (auto simp: db_view_def)

lemma db_values_srv [simp]: "db_values (on_srv f st) = db_values st"
  by (simp add: db_values_def fun_eq_iff)

lemma db_rel_values: "db_rel e st a \<Longrightarrow> st_keys a = db_values st \<and> st_expires a = dict_map (st_expires st)"
proof -
  assume a: "db_rel e st a"
  have "st_keys a k = db_values st k" for k
  proof -
    have "rel_option (obj_rep (e_seed e)) (dict_map (st_keys st) k) (st_keys a k)" using a by (simp add: db_rel_def)
    then show ?thesis by (cases rule: option.rel_cases) (auto simp: db_values_def obj_val_rep)
  qed
  then show ?thesis using a by (auto simp: db_rel_def)
qed

lemma db_rel_view: "db_rel e st a \<Longrightarrow> a_view a = db_view st"
  using db_rel_values [of e st a] by (simp add: a_view_def db_view_def expire_of_def fun_eq_iff)

lemma db_ok_values: "db_ok seed st m \<Longrightarrow> m = db_view st"
  by (auto simp: db_ok_def db_rel_view)

section \<open>The invariant\<close>

definition good_state :: "32 word \<Rightarrow> server_state \<Rightarrow> bool" where
  "good_state seed s \<longleftrightarrow> server_inv s \<and> db_ok seed (sv_db s) (db_view (sv_db s))"

lemma good_stateI: "\<lbrakk>server_inv s; db_ok seed (sv_db s) m\<rbrakk> \<Longrightarrow> good_state seed s"
  using db_ok_values by (auto simp: good_state_def)

lemma good_step_state:
  assumes "ks.good_step seed E i m s s'"
  shows "good_state seed s' \<and> ks.outcome E i 1 m (db_view (sv_db s')) s s'"
proof -
  obtain m' where m': "db_ok seed (sv_db s') m'" "ks.outcome E i 1 m m' s s'" "server_inv s'"
    using assms by (auto simp: ks.good_step_def)
  then show ?thesis using db_ok_values [OF m'(1)] good_stateI by blast
qed

text \<open>A command is run in its own environment and, for \<open>EXEC\<close>, in those of the queued commands.\<close>

lemma loop_safe_in: "\<lbrakk>loop_safe (in_range seed) i es qs s; set es \<subseteq> E\<rbrakk> \<Longrightarrow> loop_safe (safe_in E seed) i es qs s"
proof (induction "in_range seed" i es qs s rule: loop_safe.induct)
  case (3 i e es cmd av qs s)
  then show ?case by (auto simp: proc_safe_def safe_in_def split: cproc.splits)
qed simp_all

lemma command_safe_in:
  "\<lbrakk>command_safe (in_range seed) e es i av s; set (e # es) \<subseteq> E\<rbrakk> \<Longrightarrow> command_safe (safe_in E seed) e es i av s"
  by (auto simp: command_safe_def exec_safe_def Let_def proc_safe_def safe_in_def loop_safe_in split: cproc.splits)

lemma command_step:
  assumes "good_state seed s" "step seed (Command g e es i av) s s'" "set (e # es) \<subseteq> E"
  shows "good_state seed s' \<and> ks.outcome E i 1 (db_view (sv_db s)) (db_view (sv_db s')) s s' \<and> i \<in> set (sv_clients s)"
proof -
  obtain xs rnd b where c: "i \<in> set (sv_clients s)" "command_safe (in_range seed) e es i av s" "map fst xs = es"
    "processCommand g e rnd xs i av s = Some (s', b)"
    using assms(2) by (blast elim: step_commandE)
  have inv: "server_inv s" "db_ok seed (sv_db s) (db_view (sv_db s))" using assms(1) by (simp_all add: good_state_def)
  from good_step_state [OF ks.processCommand_ok(2) [OF inv(1) c(1) inv(2) command_safe_in [OF c(2) assms(3)] c(3,4)]]
  show ?thesis using c(1) by blast
qed

lemma good_state_initial: "good_state seed initial_server"
proof (rule good_stateI)
  show "server_inv initial_server" by (simp add: server_inv_def watch_inv_def initial_server_def watchers_def)
  have "db_wf a_empty" by (simp add: db_wf_def sets_ok_def a_empty_def)
  moreover have "db_rel (undefined\<lparr>e_seed := seed\<rparr>) empty_db a_empty" by (rule empty_db_rel)
  ultimately show "db_ok seed (sv_db initial_server) Map.empty"
    unfolding db_ok_def initial_server_def
    by (intro exI [of _ "undefined\<lparr>e_seed := seed\<rparr>"] exI [of _ a_empty]) (simp add: a_empty_def a_view_def fun_eq_iff)
qed

lemma step_good:
  assumes "good_state seed s" "step seed ev s s'"
  shows "good_state seed s'"
proof (cases ev)
  case (Command g e es i av)
  then show ?thesis using command_step [OF assms(1) _ order_refl] assms(2) by blast
next
  case (Accept i)
  then show ?thesis
    using assms createClient_inv by (auto simp: good_state_def createClient_def elim!: step_acceptE)
next
  case (Close i)
  with assms(2) have i: "i \<in> set (sv_clients s)" "freeClient i s = Some s'" by (auto elim: step_closeE)
  have "server_inv s" using assms(1) by (simp add: good_state_def)
  from freeClient_ok [OF this i(1)] show ?thesis using i(2) assms(1) by (auto simp: good_state_def)
qed

lemma reachable_good: "reachable seed s \<Longrightarrow> good_state seed s"
  by (induction rule: reachable.induct) (auto intro: good_state_initial step_good)

section \<open>Replies\<close>

text \<open>
  C9.  Type of the replies: in every reachable state, a command appends exactly one complete reply to
  the buffer of the client that sent it, a multi bulk reply being followed by all its elements, and
  nothing to the buffers of the other clients.
\<close>
theorem one_reply_per_command:
  assumes "reachable seed s" "step seed (Command g e es i av) s s'"
  shows "(\<exists>rs. complete 1 rs \<and> cl_reply (sv_client s' i) = cl_reply (sv_client s i) @ rs) \<and>
    (\<forall>j. j \<noteq> i \<longrightarrow> cl_reply (sv_client s' j) = cl_reply (sv_client s j))"
proof -
  have o: "ks.outcome UNIV i 1 (db_view (sv_db s)) (db_view (sv_db s')) s s'"
    using command_step [OF reachable_good [OF assms(1)] assms(2) subset_UNIV] by blast
  show ?thesis using ks.outcomeD(2) [OF o] but_dirtyD(5) [OF ks.outcomeD(3) [OF o]] by blast
qed

text \<open>
  C10.  A command whose arguments are in range returns: no assertion fails and no memory is accessed
  out of bounds, for some of the random numbers it may draw.
\<close>
theorem commands_return:
  assumes "reachable seed s" "i \<in> set (sv_clients s)" "\<not> cl_close (sv_client s i)"
    and "command_safe (in_range seed) e es i av s"
  shows "\<exists>s'. step seed (Command g e es i av) s s'"
proof -
  have inv: "server_inv s" "db_ok seed (sv_db s) (db_view (sv_db s))"
    using reachable_good [OF assms(1)] by (simp_all add: good_state_def)
  from ks.processCommand_ok(1) [OF inv(1) assms(2) inv(2) command_safe_in [OF assms(4) subset_UNIV], of g] show ?thesis
    using step.command [OF assms(2,3,4)] by blast
qed

section \<open>The invariant of reachable states\<close>

text \<open>
  C6.  Invariant: in every reachable state a client is in the list of a key exactly if the key is in
  the list of the client, no list is empty or has duplicates, only a client in a transaction has
  queued commands, and no database key holds an empty set or an expire time without a value.
\<close>
theorem reachable_invariant:
  assumes "reachable seed s"
  shows "(\<forall>i k. i \<in> watchers s k \<longleftrightarrow> i \<in> set (sv_clients s) \<and> k \<in> set (cl_watched (sv_client s i))) \<and>
    (\<forall>k clients. sv_watching s k = Some clients \<longrightarrow> clients \<noteq> [] \<and> distinct clients) \<and>
    (\<forall>i \<in> set (sv_clients s). cl_mstate (sv_client s i) \<noteq> [] \<or> cl_dirty_exec (sv_client s i) \<longrightarrow> cl_multi (sv_client s i)) \<and>
    (\<forall>k S. db_values (sv_db s) k = Some (VSet S) \<longrightarrow> S \<noteq> {}) \<and>
    dom (dict_map (st_expires (sv_db s))) \<subseteq> dom (dict_map (st_keys (sv_db s)))"
proof -
  have inv: "server_inv s" "db_ok seed (sv_db s) (db_view (sv_db s))"
    using reachable_good [OF assms] by (simp_all add: good_state_def)
  then obtain e a where a: "db_rel e (sv_db s) a" "db_wf a" "db_values (sv_db s) = st_keys a"
    using db_rel_values by (auto simp: db_ok_def)
  have "dom (dict_map (st_expires (sv_db s))) \<subseteq> dom (dict_map (st_keys (sv_db s)))"
    using db_rel_dom [OF a(1)] a(1) by (simp add: db_rel_def)
  moreover have "\<forall>k S. db_values (sv_db s) k = Some (VSet S) \<longrightarrow> S \<noteq> {}"
    using a(2,3) by (simp add: db_wf_def sets_ok_def)
  ultimately show ?thesis using inv(1) by (auto simp: server_inv_def watch_inv_def queue_ok_def)
qed

section \<open>\<open>WATCH\<close>\<close>

text \<open>The environments in which an event runs commands.\<close>

fun envs :: "event \<Rightarrow> env set" where
  "envs (Command g e es i av) = set (e # es)"
| "envs ev = {}"

text \<open>A run during which client \<open>i\<close> keeps watching the key; its commands are run in environments of \<open>E\<close>.\<close>

inductive watching :: "32 word \<Rightarrow> env set \<Rightarrow> nat \<Rightarrow> byte list \<Rightarrow> server_state \<Rightarrow> server_state \<Rightarrow> bool" for seed E i k s where
  refl: "\<lbrakk>i \<in> set (sv_clients s); k \<in> set (cl_watched (sv_client s i))\<rbrakk> \<Longrightarrow> watching seed E i k s s"
| step: "\<lbrakk>watching seed E i k s s'; step seed ev s' s''; envs ev \<subseteq> E; i \<in> set (sv_clients s''); k \<in> set (cl_watched (sv_client s'' i))\<rbrakk>
    \<Longrightarrow> watching seed E i k s s''"

lemma watchingD: "watching seed E i k s s' \<Longrightarrow> i \<in> set (sv_clients s') \<and> k \<in> set (cl_watched (sv_client s' i))"
  by (induction rule: watching.induct) auto

lemma watching_good: "\<lbrakk>watching seed E i k s s'; good_state seed s\<rbrakk> \<Longrightarrow> good_state seed s'"
  by (induction rule: watching.induct) (auto intro: step_good)

lemma watching_guarantee:
  assumes "watching seed E i k s s'" "good_state seed s"
  shows "cl_dirty_cas (sv_client s' i) \<or> keeps E (db_view (sv_db s) k) (db_view (sv_db s') k)"
  using assms(1)
proof (induction rule: watching.induct)
  case (step s' ev s'')
  have i: "i \<in> set (sv_clients s')" "k \<in> set (cl_watched (sv_client s' i))" using watchingD [OF step.hyps(1)] by auto
  have good: "good_state seed s'" by (rule watching_good [OF step.hyps(1) assms(2)])
  show ?case
  proof (cases ev)
    case (Command g e es j av)
    have o: "ks.outcome E j 1 (db_view (sv_db s')) (db_view (sv_db s'')) s' s''"
      using command_step [OF good, of g e es j av s'' E] step.hyps(2,3) Command by simp
    have "cl_watched (sv_client s'' i) \<noteq> []" using step.hyps(5) by auto
    then show ?thesis
      using step.IH ks.outcomeD(5) [OF o, of i] ks.outcomeD(6) [OF o i] by (auto intro: keeps_trans)
  next
    case (Accept j)
    then have "sv_db s'' = sv_db s'" "sv_client s'' i = sv_client s' i"
      using step.hyps(2) i(1) by (auto simp: createClient_def elim!: step_acceptE)
    then show ?thesis using step.IH by simp
  next
    case (Close j)
    with step.hyps(2) have j: "j \<in> set (sv_clients s')" "freeClient j s' = Some s''" by (auto elim: step_closeE)
    have inv: "server_inv s'" using good by (simp add: good_state_def)
    have "distinct (sv_clients s')" using inv by (simp add: server_inv_def watch_inv_def)
    then have "i \<noteq> j" using freeClient_ok [OF inv j(1)] j(2) step.hyps(4) by (auto simp: set_remove1_eq)
    then have "sv_db s'' = sv_db s'" "sv_client s'' i = sv_client s' i" using freeClient_ok [OF inv j(1)] j(2) by auto
    then show ?thesis using step.IH by simp
  qed
qed simp

text \<open>The value of the key has changed, and not just because the key has expired.\<close>

definition tampered :: "env set \<Rightarrow> byte list \<Rightarrow> db \<Rightarrow> db \<Rightarrow> bool" where
  "tampered E k st st' \<longleftrightarrow> db_values st' k \<noteq> db_values st k \<and>
     (db_values st' k = None \<longrightarrow> (case expire_of st k of None \<Rightarrow> True | Some w \<Rightarrow> \<forall>e \<in> E. \<not> due e w))"

lemma tampered_keeps: "tampered E k st st' \<Longrightarrow> \<not> keeps E (db_view st k) (db_view st' k)"
  by (cases "db_values st k"; cases "db_values st' k")
    (auto simp: tampered_def keeps_def db_view_def split: option.splits)

text \<open>
  C5.  Safety of optimistic locking: if client \<open>i\<close> has been watching a key during a run of any
  commands of any clients and the key has been created, overwritten or deleted - by any command, a
  flush of the database included - then the \<open>EXEC\<close> of the client's transaction runs none of its
  commands: it replies with an error or the null multi bulk and leaves the database as it is.  Only
  the disappearance of a key whose expire time has passed for one of the commands of the run does
  not count as a change.
\<close>
theorem watch_is_sound:
  assumes "reachable seed s" "watching seed E i k s s'" "cl_multi (sv_client s' i)"
    and "tampered E k (sv_db s) (sv_db s')"
  shows "\<exists>s'' r. (\<forall>xs. execCommand i xs s' = Some s'') \<and> sv_db s'' = sv_db s' \<and> r \<in> {execaborterr, nullmultibulk} \<and>
    cl_reply (sv_client s'' i) = cl_reply (sv_client s' i) @ [r] \<and> \<not> cl_multi (sv_client s'' i)"
proof -
  have good: "good_state seed s'" using watching_good assms(1,2) reachable_good by blast
  have dirty: "cl_dirty_cas (sv_client s' i)"
    using watching_guarantee [OF assms(2) reachable_good [OF assms(1)]] tampered_keeps [OF assms(4)] by blast
  have "watch_inv s'" "i \<in> set (sv_clients s')"
    using good watchingD [OF assms(2)] by (auto simp: good_state_def server_inv_def)
  then show ?thesis by (rule ks.exec_abort [OF _ _ assms(3), where m = "db_view (sv_db s)"]) (use dirty in auto)
qed

section \<open>The server implements the specifications of the commands\<close>

lemma table_names: "distinct (map (\<lambda>c. bytes (c_name c)) commandTable)"
  by code_simp

lemma table_no_nul: "list_all (\<lambda>c. 0 \<notin> set (bytes (c_name c)) \<and> bytes (c_name c) \<noteq> bytes ''quit'') commandTable"
  by code_simp

lemma lookup_command:
  assumes "c \<in> set commandTable" "map char_tolower name = bytes (c_name c)"
  shows "lookupCommand name = Some c" "map char_tolower (takeWhile (\<lambda>b. b \<noteq> 0) name) \<noteq> bytes ''quit''"
proof -
  obtain n where n: "n < length commandTable" "c = commandTable ! n" using assms(1) by (auto simp: in_set_conv_nth)
  have "bytes (c_name c) \<noteq> bytes (c_name (commandTable ! j))" if "j < n" for j
    using table_names n that by (auto simp: distinct_conv_nth)
  then show "lookupCommand name = Some c"
    using assms(2) n by (auto simp: lookupCommand_def find_Some_iff intro!: exI [of _ n])
  have no: "0 \<notin> set (bytes (c_name c))" "bytes (c_name c) \<noteq> bytes ''quit''"
    using table_no_nul assms(1) by (auto simp: list_all_iff)
  have "char_tolower 0 = 0" by (simp add: char_tolower_def)
  then have "0 \<notin> set name" using no(1) unfolding assms(2) [symmetric] by (metis image_eqI set_map)
  then have tw: "takeWhile (\<lambda>b. b \<noteq> 0) name = name" by (auto simp: takeWhile_eq_all_conv)
  show "map char_tolower (takeWhile (\<lambda>b. b \<noteq> 0) name) \<noteq> bytes ''quit''"
    unfolding tw assms(2) by (rule no(2))
qed

lemma good_state_wf:
  assumes "good_state seed s" "db_rel e (begin_proc c (sv_db s)) a"
  shows "db_wf a"
proof -
  obtain e' a' where a': "db_rel e' (sv_db s) a'" "db_wf a'" using assms(1) by (auto simp: good_state_def db_ok_def)
  have "st_keys a = st_keys a'" "st_expires a = st_expires a'"
    using db_rel_values [OF a'(1)] db_rel_values [OF assms(2)] by (simp_all add: begin_proc_def)
  then show ?thesis using a'(2) by (simp add: db_wf_def sets_ok_def)
qed

text \<open>Running the procedure of a row.\<close>

lemma run_row:
  assumes good: "good_state seed s" and seed: "e_seed e = seed"
    and rel: "db_rel e (begin_proc (sv_client s i) (sv_db s)) a"
    and ts: "list_all2 arg_rep av ts" and n: "n < length redisCommandTable"
    and ar: "\<not> wrong_arity (c_arity (redisCommandTable ! n)) (length av)" and cond: "a_cond (aCommandTable ! n) e ts a"
  shows "\<exists>rnd s'. run_data (c_proc (redisCommandTable ! n)) e rnd i av s = Some s'"
    and "run_data (c_proc (redisCommandTable ! n)) e rnd i av s = Some s' \<Longrightarrow>
      \<exists>c. a_spec (aCommandTable ! n) e ts a c \<and> db_rel e (sv_db s') c \<and> cl_reply (sv_client s' i) = out (st_srv c)"
proof -
  have wf: "sets_ok a" using good_state_wf [OF good rel] by (simp add: db_wf_def)
  have ok: "db_ok seed (sv_db s) (db_view (sv_db s))" using good by (simp add: good_state_def)
  have r: "refines (c_proc (redisCommandTable ! n)) (c_arity (redisCommandTable ! n)) (a_cond (aCommandTable ! n)) (a_spec (aCommandTable ! n))"
    using table_row(1) [OF n] unfolding row_refines_def by blast
  have R: "(\<exists>rnd st'. c_proc (redisCommandTable ! n) e rnd av (begin_proc (sv_client s i) (sv_db s)) = Some st') \<and>
    (\<forall>rnd st'. c_proc (redisCommandTable ! n) e rnd av (begin_proc (sv_client s i) (sv_db s)) = Some st' \<longrightarrow>
      (\<exists>c. a_spec (aCommandTable ! n) e ts a c \<and> db_rel e st' c))"
    using r rel wf ts ar cond unfolding refines_def by blast
  have run: "run_data (c_proc (redisCommandTable ! n)) e rnd i av s =
      map_option (\<lambda>st. mark (ks.touched_by (db_view (sv_db s)) (upd i (\<lambda>c. c\<lparr>cl_reply := out (st_srv st)\<rparr>) (s\<lparr>sv_db := st\<rparr>)) (touched (st_srv st)))
        (upd i (\<lambda>c. c\<lparr>cl_reply := out (st_srv st)\<rparr>) (s\<lparr>sv_db := st\<rparr>)))
      (c_proc (redisCommandTable ! n) e rnd av (begin_proc (sv_client s i) (sv_db s)))" for rnd
    by (cases "c_proc (redisCommandTable ! n) e rnd av (begin_proc (sv_client s i) (sv_db s))")
      (simp_all add: run_data_def ks.apply_touches_ok [OF seed ok])
  show "\<exists>rnd s'. run_data (c_proc (redisCommandTable ! n)) e rnd i av s = Some s'" unfolding run using R by blast
  assume "run_data (c_proc (redisCommandTable ! n)) e rnd i av s = Some s'"
  then obtain st' where st': "c_proc (redisCommandTable ! n) e rnd av (begin_proc (sv_client s i) (sv_db s)) = Some st'"
    "s' = mark (ks.touched_by (db_view (sv_db s)) (upd i (\<lambda>c. c\<lparr>cl_reply := out (st_srv st')\<rparr>) (s\<lparr>sv_db := st'\<rparr>)) (touched (st_srv st')))
        (upd i (\<lambda>c. c\<lparr>cl_reply := out (st_srv st')\<rparr>) (s\<lparr>sv_db := st'\<rparr>))"
    unfolding run by blast
  obtain c where c: "a_spec (aCommandTable ! n) e ts a c" "db_rel e st' c" using R st'(1) by blast
  then have "st_srv st' = st_srv c" by (simp add: db_rel_def)
  then show "\<exists>c. a_spec (aCommandTable ! n) e ts a c \<and> db_rel e (sv_db s') c \<and> cl_reply (sv_client s' i) = out (st_srv c)"
    using c by (intro exI [of _ c]) (simp add: st'(2))
qed

lemma run_command:
  assumes "reachable seed s" "i \<in> set (sv_clients s)" "\<not> cl_multi (sv_client s i)" "e_seed e = seed"
    and "db_rel e (begin_proc (sv_client s i) (sv_db s)) a"
    and "list_all2 arg_rep av ts" "n < length aCommandTable" "ts \<noteq> []"
    and "map char_tolower (ts ! 0) = bytes (a_name (aCommandTable ! n))"
    and "\<not> wrong_arity (a_arity (aCommandTable ! n)) (length ts)" "a_cond (aCommandTable ! n) e ts a"
    and "\<And>cmd. lookupCommand (ts ! 0) = Some cmd \<Longrightarrow> refused g e (sv_client s i) cmd = None"
  shows "(\<exists>rnd s'. processCommand g e rnd [] i av s = Some (s', True)) \<and>
    (\<forall>rnd s' b. processCommand g e rnd [] i av s = Some (s', b) \<longrightarrow>
       (\<exists>c f. a_spec (aCommandTable ! n) e ts a c \<and> db_rel e (sv_db s') (on_srv f c) \<and>
          cl_reply (sv_client s' i) = out (st_srv c)))"
proof -
  have len: "length redisCommandTable = length aCommandTable" by (rule list_all2_lengthD [OF table_refines])
  have n: "n < length redisCommandTable" using assms(7) len by simp
  let ?r = "redisCommandTable ! n"
  let ?c = "row (c_name ?r) (Data (c_proc ?r)) (c_arity ?r) (c_sflags ?r)"
  have row: "c_name ?r = a_name (aCommandTable ! n)" "c_arity ?r = a_arity (aCommandTable ! n)"
    using table_row(1) [OF n] by (simp_all add: row_refines_def)
  have "?c \<in> set commandTable" using n by (auto simp: commandTable_def)
  then have look: "lookupCommand (ts ! 0) = Some ?c" and nq: "map char_tolower (takeWhile (\<lambda>b. b \<noteq> 0) (ts ! 0)) \<noteq> bytes ''quit''"
    using lookup_command [of ?c "ts ! 0"] assms(9) row(1) by (auto simp: row_def)
  have name: "key_at av 0 = Some (ts ! 0)" using key_at_ok [OF assms(6), of 0] assms(8) by simp
  have ar: "\<not> wrong_arity (c_arity ?r) (length av)" using assms(10) row(2) list_all2_lengthD [OF assms(6)] by simp
  have data: "run_proc (Data (c_proc ?r)) e rnd i av = run_data (c_proc ?r) e rnd i av" for rnd by (rule ext) simp
  have run: "processCommand g e rnd xs i av s = map_option (\<lambda>s. (s, True)) (call (run_data (c_proc ?r) e rnd i av) av s)" for rnd xs
    using name nq look ar assms(3,12)
    by (cases "call (run_data (c_proc ?r) e rnd i av) av s") (simp_all add: processCommand_def exec_command_def row_def data)
  note R = run_row [OF reachable_good [OF assms(1)] assms(4,5,6) n ar assms(11)]
  have "\<exists>c f. a_spec (aCommandTable ! n) e ts a c \<and> db_rel e (sv_db s') (on_srv f c) \<and> cl_reply (sv_client s' i) = out (st_srv c)"
    if c: "call (run_data (c_proc ?r) e rnd i av) av s = Some s'" for rnd s'
  proof -
    obtain s1 where s1: "run_data (c_proc ?r) e rnd i av s = Some s1" "finished s1 s'"
      using call_Some(1) [OF assms(6) c] by blast
    obtain c where c: "a_spec (aCommandTable ! n) e ts a c" "db_rel e (sv_db s1) c" "cl_reply (sv_client s1 i) = out (st_srv c)"
      using R(2) [OF s1(1)] by blast
    obtain f where "sv_db s' = on_srv f (sv_db s1)" "sv_client s' = sv_client s1" using s1(2) by (auto simp: finished_def)
    then show ?thesis using c on_srv_rel [OF c(2)] by auto
  qed
  moreover have "\<exists>rnd s'. call (run_data (c_proc ?r) e rnd i av) av s = Some s'"
    using R(1) call_Some(2) [OF assms(6)] by blast
  ultimately show ?thesis unfolding run by auto
qed

text \<open>
  C2.  Refinement: in every reachable state, a command of the table that is neither refused nor queued,
  has a correct number of arguments and meets the condition of its row (\<open>a_cond\<close>: sizes and
  reference counts within the range of the code) does to the database and replies to the client what
  the specification of the row allows, for every random draw, and it returns for some draw.
\<close>
theorem server_implements_table:
  assumes "reachable seed s" "i \<in> set (sv_clients s)" "\<not> cl_multi (sv_client s i)" "e_seed e = seed"
    and "db_rel e (begin_proc (sv_client s i) (sv_db s)) a"
    and "list_all2 arg_rep av ts" "n < length aCommandTable" "ts \<noteq> []"
    and "map char_tolower (ts ! 0) = bytes (a_name (aCommandTable ! n))"
    and "\<not> wrong_arity (a_arity (aCommandTable ! n)) (length ts)" "a_cond (aCommandTable ! n) e ts a"
    and "\<And>cmd. lookupCommand (ts ! 0) = Some cmd \<Longrightarrow> refused g e (sv_client s i) cmd = None"
  shows "(\<exists>rnd s'. processCommand g e rnd [] i av s = Some (s', True)) \<and>
    (\<forall>rnd s' b. processCommand g e rnd [] i av s = Some (s', b) \<longrightarrow>
       (\<exists>c f. a_spec (aCommandTable ! n) e ts a c \<and> db_rel e (sv_db s') (on_srv f c) \<and>
          cl_reply (sv_client s' i) = out (st_srv c)))"
  by (rule run_command [OF assms])

section \<open>An error that does not spoil the transaction\<close>

text \<open>
  C35.  On a read-only slave a writing command inside a transaction is refused with an error, but the
  transaction is not flagged: nothing but the reply changes, so that \<open>EXEC\<close> runs the other commands.
  (The comment of \<open>flagTransaction\<close> wants it to be called on every error while a command is queued.)
\<close>
theorem readonly_error_keeps_transaction:
  assumes "key_at av 0 = Some name" "cmd \<in> set commandTable" "map char_tolower name = bytes (c_name cmd)"
    and "\<not> wrong_arity (c_arity cmd) (length av)" "is_write cmd"
    and "e_slave e" "g_slave_ro g" "\<not> cl_master (sv_client s i)"
    and "\<not> g_requirepass g" "\<not> g_oom g" "\<not> g_bgsave_err g"
  shows "\<exists>err. processCommand g e rnd xs i av s = Some (reply_to i (CodedError err) s, True)"
proof -
  have "\<exists>err. refused g e (sv_client s i) cmd = Some (CodedError err, False)"
    using assms(5-11) by (simp add: refused_def)
  then show ?thesis
    using assms(1,4) lookup_command [OF assms(2,3)] by (auto simp: processCommand_def)
qed

section \<open>Sample runs\<close>

definition sample_arg :: "string \<Rightarrow> sds" where
  "sample_arg t = \<lparr>sds_len = int (length t), sds_free = 0, sds_buf = bytes t @ [0]\<rparr>"

definition sample_config :: config where
  "sample_config = \<lparr>g_requirepass = False, g_oom = False, g_bgsave_err = False, g_slave_ro = False, g_stale = False,
     g_lua_timedout = False\<rparr>"

definition sample_env :: env where
  "sample_env = \<lparr>e_seed = 5, e_resize = True, e_now = 1000, e_loading = False, e_slave = False, e_set_max = 512,
     e_argrefs = 1, e_valrefs = (\<lambda>k. 1)\<rparr>"

text \<open>Two clients; the first watches a key and begins a transaction.\<close>

definition sample_clients :: server_state where
  "sample_clients = createClient 1 (createClient 0 initial_server)"

definition sample_run :: "nat \<Rightarrow> string list \<Rightarrow> server_state \<Rightarrow> server_state" where
  "sample_run i av s = fst (the (processCommand sample_config sample_env [] [] i (map sample_arg av) s))"

definition sample_watch :: server_state where
  "sample_watch = sample_run 0 [''MULTI''] (sample_run 0 [''watch'', ''a''] sample_clients)"

lemma sample_arg_rep: "length t \<le> 2 ^ 29 \<Longrightarrow> arg_rep (sample_arg t) (bytes t)"
  by (simp add: arg_rep_def sample_arg_def sds_rep_def bytes_def)

lemma sample_safe:
  assumes "cmd \<in> set commandTable" "map char_tolower (bytes t) = bytes (c_name cmd)" "\<forall>x \<in> set (t # av). length x \<le> 2 ^ 29"
    and "c_proc cmd \<noteq> ExecProc" "proc_safe (in_range 5) (c_proc cmd) e (map sample_arg (t # av)) (sv_db s)"
  shows "command_safe (in_range 5) e es i (map sample_arg (t # av)) s"
proof -
  have args: "list_all2 arg_rep (map sample_arg (t # av)) (map bytes (t # av))"
    using assms(3) by (simp add: list_all2_conv_all_nth sample_arg_rep nth_Cons split: nat.split)
  then have "key_at (map sample_arg (t # av)) 0 = Some (bytes t)" using key_at_ok [OF args, of 0] by simp
  then show ?thesis
    using args assms(4,5) lookup_command(1) [OF assms(1,2)] unfolding command_safe_def by auto
qed

lemma table_transactions: "set transactionCommands \<subseteq> set commandTable"
  by (simp add: commandTable_def)

lemma sample_safe_multi: "command_safe (in_range 5) sample_env [] i [sample_arg ''MULTI''] s"
proof -
  have "row ''multi'' MultiProc 1 ''rs'' \<in> set commandTable" using table_transactions by (auto simp: transactionCommands_def)
  from sample_safe [OF this, of "''MULTI''" "[]"] show ?thesis
    by (simp add: row_def proc_safe_def char_tolower_def)
qed

lemma sample_safe_watch: "command_safe (in_range 5) sample_env [] i [sample_arg ''watch'', sample_arg ''a''] s"
proof -
  have "row ''watch'' WatchProc (- 2) ''rs'' \<in> set commandTable" using table_transactions by (auto simp: transactionCommands_def)
  from sample_safe [OF this, of "''watch''" "[''a'']"] show ?thesis
    by (simp add: row_def proc_safe_def char_tolower_def)
qed

lemma sample_accept: "reachable 5 sample_clients"
proof -
  have "step 5 (Accept 0) initial_server (createClient 0 initial_server)"
    by (rule step.accept) (simp add: initial_server_def)
  moreover have "step 5 (Accept 1) (createClient 0 initial_server) sample_clients"
    unfolding sample_clients_def by (rule step.accept) (simp add: initial_server_def createClient_def)
  ultimately show ?thesis using reachable.initial reachable.step by blast
qed

lemma sample_step:
  assumes "command_safe (in_range 5) sample_env [] i (map sample_arg av) s" "i \<in> set (sv_clients s)" "\<not> cl_close (sv_client s i)"
    and "processCommand sample_config sample_env [] [] i (map sample_arg av) s \<noteq> None"
  shows "step 5 (Command sample_config sample_env [] i (map sample_arg av)) s (sample_run i av s)"
proof -
  obtain s' b where p: "processCommand sample_config sample_env [] [] i (map sample_arg av) s = Some (s', b)" using assms(4) by auto
  then have "sample_run i av s = s'" by (simp add: sample_run_def)
  then show ?thesis using step.command [OF assms(2,3,1) _ p] by simp
qed

lemma sample_watch_eval:
  "processCommand sample_config sample_env [] [] 0 (map sample_arg [''watch'', ''a'']) sample_clients \<noteq> None"
  "processCommand sample_config sample_env [] [] 0 (map sample_arg [''MULTI'']) (sample_run 0 [''watch'', ''a''] sample_clients) \<noteq> None"
  "sv_clients sample_clients = [0, 1]" "cl_close (sv_client sample_clients 0) = False"
  "sv_clients (sample_run 0 [''watch'', ''a''] sample_clients) = [0, 1]"
  "cl_close (sv_client (sample_run 0 [''watch'', ''a''] sample_clients) 0) = False"
  "sv_clients sample_watch = [0, 1]" "cl_watched (sv_client sample_watch 0) = [bytes ''a'']" "cl_multi (sv_client sample_watch 0) = True"
  "cl_multi (sv_client sample_watch 1) = False" "cl_close (sv_client sample_watch 1) = False" "sv_db sample_watch = empty_db"
  by code_simp+

lemma sample_watch_reachable: "reachable 5 sample_watch"
proof -
  have "step 5 (Command sample_config sample_env [] 0 (map sample_arg [''watch'', ''a''])) sample_clients (sample_run 0 [''watch'', ''a''] sample_clients)"
    by (rule sample_step) (use sample_safe_watch sample_watch_eval in simp_all)
  moreover have "step 5 (Command sample_config sample_env [] 0 (map sample_arg [''MULTI'']))
      (sample_run 0 [''watch'', ''a''] sample_clients) sample_watch"
    unfolding sample_watch_def by (rule sample_step) (use sample_safe_multi sample_watch_eval in simp_all)
  ultimately show ?thesis using sample_accept reachable.step by blast
qed

text \<open>The second client sets the watched key.\<close>

definition sample_adb :: adb where
  "sample_adb = on_srv (\<lambda>r. r\<lparr>out := [], touched := [], propagated := [], rewritten := None\<rparr>) a_empty"

abbreviation sample_set_args :: "string list" where
  "sample_set_args \<equiv> [''set'', ''a'', ''b'']"

lemma set_row: "1 < length aCommandTable" "a_name (aCommandTable ! 1) = ''set''" "a_arity (aCommandTable ! 1) = 3"
  "a_cond (aCommandTable ! 1) = c_value"
  "a_spec (aCommandTable ! 1) = (\<lambda>e ts a c. c = a_setGeneric e False (ts ! 1) (ts ! 2) None UNIT_SECONDS a)"
  "1 < length redisCommandTable" "c_arity (redisCommandTable ! 1) = 3" "c_name (redisCommandTable ! 1) = ''set''"
  "c_sflags (redisCommandTable ! 1) = ''wm''"
  by (simp_all add: aCommandTable_def arow_def redisCommandTable_rows row_def)

lemma set_in_table: "row ''set'' (Data (c_proc (redisCommandTable ! 1))) 3 ''wm'' \<in> set commandTable"
proof -
  have "redisCommandTable ! 1 \<in> set redisCommandTable" by (rule nth_mem) (rule set_row(6))
  then have "row (c_name (redisCommandTable ! 1)) (Data (c_proc (redisCommandTable ! 1)))
      (c_arity (redisCommandTable ! 1)) (c_sflags (redisCommandTable ! 1)) \<in> set commandTable"
    by (auto simp: commandTable_def)
  then show ?thesis unfolding set_row .
qed

lemma sample_args: "list_all2 arg_rep (map sample_arg sample_set_args) (map bytes sample_set_args)"
  by (simp add: sample_arg_rep del: bytes_simps)

lemma b_printable: "printable (bytes ''b'')"
  by (simp add: printable_def dec_int_def)

lemma sample_rel: "db_rel sample_env (begin_proc (sv_client sample_watch 1) (sv_db sample_watch)) sample_adb"
proof -
  have "cl_reply (sv_client sample_watch 1) = []" by code_simp
  then show ?thesis using on_srv_rel [OF empty_db_rel] by (simp add: begin_proc_def sample_adb_def sample_watch_eval)
qed

lemma sample_set_safe: "command_safe (in_range 5) sample_env [] 1 (map sample_arg sample_set_args) sample_watch"
proof (rule sample_safe [OF set_in_table])
  have seed: "e_seed sample_env = 5" by (simp add: sample_env_def)
  have "c_value sample_env ts a" if rel: "db_rel sample_env ((sv_db sample_watch)\<lparr>st_srv := r\<rparr>) a"
    and ts: "list_all2 arg_rep (map sample_arg sample_set_args) ts" for r a ts
  proof -
    have "st_keys a = Map.empty"
      using db_rel_values [OF rel] by (simp add: sample_watch_eval db_values_def empty_db_def dict_map_create fun_eq_iff)
    moreover have "ts ! 2 = bytes ''b''"
    proof -
      have "2 < length ts" using list_all2_lengthD [OF ts] by simp
      then have "arg_rep (sample_arg ''b'') (ts ! 2)" using list_all2_nthD2 [OF ts, of 2] by simp
      then have "sds_text (sample_arg ''b'') = Some (ts ! 2)" by (simp add: arg_rep_def sds_text_rep)
      moreover have "sds_text (sample_arg ''b'') = Some (bytes ''b'')"
        using sample_arg_rep [of "''b''"] by (simp add: arg_rep_def sds_text_rep del: bytes_simps)
      ultimately show ?thesis by simp
    qed
    ultimately show ?thesis using b_printable by (simp add: c_value_def room_def)
  qed
  then show "proc_safe (in_range 5) (c_proc (row ''set'' (Data (c_proc (redisCommandTable ! 1))) 3 ''wm'')) sample_env
      (map sample_arg sample_set_args) (sv_db sample_watch)"
    using exI [of "list_all2 arg_rep (map sample_arg sample_set_args)", OF sample_args] set_row(4,6,7) seed
    unfolding in_range_def proc_safe_def row_def command.simps cproc.case
    by (intro conjI exI [of _ "1 :: nat"]) (auto simp: wrong_arity_def simp del: One_nat_def)
qed (simp_all add: row_def char_tolower_def)

lemma sample_refused: "refused sample_config sample_env (sv_client sample_watch 1) cmd = None"
proof -
  have "cl_subscriptions (sv_client sample_watch 1) = 0" by code_simp
  then show ?thesis by (simp add: refused_def sample_config_def sample_env_def)
qed

lemma sample_cond: "a_cond (aCommandTable ! 1) sample_env (map bytes sample_set_args) sample_adb"
  unfolding set_row(4) using b_printable by (simp add: c_value_def sample_adb_def room_def a_empty_def)

lemma sample_set_run:
  obtains rnd s' f where "processCommand sample_config sample_env rnd [] 1 (map sample_arg sample_set_args) sample_watch = Some (s', True)"
    "db_rel sample_env (sv_db s') (on_srv f (a_setGeneric sample_env False (bytes ''a'') (bytes ''b'') None UNIT_SECONDS sample_adb))"
    "step 5 (Command sample_config sample_env [] 1 (map sample_arg sample_set_args)) sample_watch s'"
proof -
  have "(\<exists>rnd s'. processCommand sample_config sample_env rnd [] 1 (map sample_arg sample_set_args) sample_watch = Some (s', True)) \<and>
    (\<forall>rnd s' b. processCommand sample_config sample_env rnd [] 1 (map sample_arg sample_set_args) sample_watch = Some (s', b) \<longrightarrow>
       (\<exists>c f. a_spec (aCommandTable ! 1) sample_env (map bytes sample_set_args) sample_adb c \<and> db_rel sample_env (sv_db s') (on_srv f c) \<and>
          cl_reply (sv_client s' 1) = out (st_srv c)))"
    by (rule run_command [OF sample_watch_reachable _ _ _ sample_rel sample_args set_row(1) _ _ _ sample_cond sample_refused])
      (simp_all add: sample_watch_eval sample_env_def set_row char_tolower_def wrong_arity_def del: One_nat_def)
  then obtain rnd s' where p: "processCommand sample_config sample_env rnd [] 1 (map sample_arg sample_set_args) sample_watch = Some (s', True)"
    and c: "\<exists>f. db_rel sample_env (sv_db s') (on_srv f (a_setGeneric sample_env False (bytes ''a'') (bytes ''b'') None UNIT_SECONDS sample_adb))"
    unfolding set_row(5) by fastforce
  have "step 5 (Command sample_config sample_env [] 1 (map sample_arg sample_set_args)) sample_watch s'"
    by (rule step.command [OF _ _ sample_set_safe _ p]) (simp_all add: sample_watch_eval del: One_nat_def)
  then show thesis using that p c by blast
qed

section \<open>Witnesses\<close>

theorem one_reply_per_command_witness:
  "\<exists>s'. step 5 (Command sample_config sample_env [] 1 (map sample_arg sample_set_args)) sample_watch s' \<and>
     (\<exists>rs. complete 1 rs \<and> cl_reply (sv_client s' 1) = cl_reply (sv_client sample_watch 1) @ rs) \<and>
     cl_reply (sv_client s' 0) = cl_reply (sv_client sample_watch 0)"
proof (rule sample_set_run)
  fix rnd s' f
  assume st: "step 5 (Command sample_config sample_env [] 1 (map sample_arg sample_set_args)) sample_watch s'"
  show ?thesis using one_reply_per_command [OF sample_watch_reachable st] st by (auto simp del: One_nat_def)
qed

theorem commands_return_witness:
  "\<exists>s'. step 5 (Command sample_config sample_env [] 1 (map sample_arg sample_set_args)) sample_watch s'"
  by (rule commands_return [OF sample_watch_reachable _ _ sample_set_safe]) (simp_all add: sample_watch_eval del: One_nat_def)

theorem reachable_invariant_witness:
  "0 \<in> watchers sample_watch (bytes ''a'') \<and>
   dom (dict_map (st_expires (sv_db sample_watch))) \<subseteq> dom (dict_map (st_keys (sv_db sample_watch)))"
  using reachable_invariant [OF sample_watch_reachable] by (simp add: sample_watch_eval)

theorem watch_is_sound_witness:
  "\<exists>s' s'' r. watching 5 {sample_env} 0 (bytes ''a'') sample_watch s' \<and> db_values (sv_db s') (bytes ''a'') = Some (VStr (bytes ''b'')) \<and>
     execCommand 0 [] s' = Some s'' \<and> sv_db s'' = sv_db s' \<and> r \<in> {execaborterr, nullmultibulk} \<and>
     cl_reply (sv_client s'' 0) = cl_reply (sv_client s' 0) @ [r]"
proof (rule sample_set_run)
  fix rnd s' f
  assume rel: "db_rel sample_env (sv_db s') (on_srv f (a_setGeneric sample_env False (bytes ''a'') (bytes ''b'') None UNIT_SECONDS sample_adb))"
    and st: "step 5 (Command sample_config sample_env [] 1 (map sample_arg sample_set_args)) sample_watch s'"
  have new: "db_values (sv_db s') (bytes ''a'') = Some (VStr (bytes ''b''))"
    using db_rel_values [OF rel]
    by (simp add: a_setGeneric_def set_ttl_def a_setKey_def a_persist_def a_put_def fun_eq_iff split: if_splits)
  have old: "db_values (sv_db sample_watch) (bytes ''a'') = None"
    by (simp add: sample_watch_eval db_values_def empty_db_def dict_map_create)
  have tampered: "tampered {sample_env} (bytes ''a'') (sv_db sample_watch) (sv_db s')"
    using new old by (simp add: tampered_def)
  have o: "ks.outcome UNIV 1 1 (db_view (sv_db sample_watch)) (db_view (sv_db s')) sample_watch s'"
    using command_step [OF reachable_good [OF sample_watch_reachable] st subset_UNIV] by blast
  have c: "cl_multi (sv_client s' 0) = True" "cl_watched (sv_client s' 0) = [bytes ''a'']"
    using but_dirtyD(1,2) [OF ks.outcomeD(3) [OF o, of 0]] by (simp_all add: sample_watch_eval)
  have "watching 5 {sample_env} 0 (bytes ''a'') sample_watch sample_watch" by (rule watching.refl) (simp_all add: sample_watch_eval)
  then have w: "watching 5 {sample_env} 0 (bytes ''a'') sample_watch s'"
    by (rule watching.step [OF _ st]) (use ks.outcomeD(1) [OF o] c in \<open>simp_all add: sample_watch_eval\<close>)
  have "\<exists>s'' r. (\<forall>xs. execCommand 0 xs s' = Some s'') \<and> sv_db s'' = sv_db s' \<and> r \<in> {execaborterr, nullmultibulk} \<and>
    cl_reply (sv_client s'' 0) = cl_reply (sv_client s' 0) @ [r] \<and> \<not> cl_multi (sv_client s'' 0)"
    by (rule watch_is_sound [OF sample_watch_reachable w]) (use c tampered in simp_all)
  then show ?thesis using w new by blast
qed

theorem server_implements_table_witness:
  "\<exists>rnd s' f. processCommand sample_config sample_env rnd [] 1 (map sample_arg sample_set_args) sample_watch = Some (s', True) \<and>
     db_rel sample_env (sv_db s') (on_srv f (a_setGeneric sample_env False (bytes ''a'') (bytes ''b'') None UNIT_SECONDS sample_adb))"
proof -
  have "(\<exists>rnd s'. processCommand sample_config sample_env rnd [] 1 (map sample_arg sample_set_args) sample_watch = Some (s', True)) \<and>
    (\<forall>rnd s' b. processCommand sample_config sample_env rnd [] 1 (map sample_arg sample_set_args) sample_watch = Some (s', b) \<longrightarrow>
       (\<exists>c f. a_spec (aCommandTable ! 1) sample_env (map bytes sample_set_args) sample_adb c \<and> db_rel sample_env (sv_db s') (on_srv f c) \<and>
          cl_reply (sv_client s' 1) = out (st_srv c)))"
    by (rule server_implements_table [OF sample_watch_reachable _ _ _ sample_rel sample_args set_row(1) _ _ _ sample_cond sample_refused])
      (simp_all add: sample_watch_eval sample_env_def set_row char_tolower_def wrong_arity_def del: One_nat_def)
  then show ?thesis unfolding set_row(5) by fastforce
qed

theorem readonly_error_keeps_transaction_witness:
  "\<exists>err. processCommand (sample_config\<lparr>g_slave_ro := True\<rparr>) (sample_env\<lparr>e_slave := True\<rparr>) [] [] 0
     (map sample_arg sample_set_args) sample_watch = Some (reply_to 0 (CodedError err) sample_watch, True)"
proof (rule readonly_error_keeps_transaction [OF _ set_in_table])
  show "key_at (map sample_arg sample_set_args) 0 = Some (bytes ''set'')" using key_at_ok [OF sample_args, of 0] by simp
  have "cl_master (sv_client sample_watch 0) = False" by code_simp
  then show "\<not> cl_master (sv_client sample_watch 0)" by simp
qed (simp_all add: row_def is_write_def wrong_arity_def sample_config_def char_tolower_def)

end
