(* ===== verification/Proto.thy ===== *)
theory Proto
  imports Server
begin

text \<open>
  \<open>networking.c\<close>, the input side: how the bytes that arrive on a connection become commands.  The
  query buffer is a string of \<open>sds.c\<close>, and every access is within its allocation or undefined
  (\<open>None\<close>), as is a failed assertion.  What runs a complete command is an argument \<open>run\<close>; the server
  uses \<open>processCommand\<close>.  A context of \<open>cs\<close> is what a command depends on besides the state (its
  configuration, environment and random numbers); each command takes the next.

  \<open>ProtoSafe\<close> shows that no input whatsoever makes the parser leave its buffer, fail an assertion or
  loop, \<open>ProtoRead\<close> that requests written one after the other are read back one by one, however the
  network cuts them into pieces.
\<close>

section \<open>The state\<close>

datatype reqtype = REQ_NONE | REQ_INLINE | REQ_MULTIBULK

text \<open>
  The fields of \<open>redisClient\<close> that the parser uses; \<open>multibulklen\<close> is never negative.  \<open>pr_room\<close> is
  the number of arguments \<open>argv\<close> has been allocated for.
\<close>

record parser =
  pr_querybuf :: sds
  pr_reqtype :: reqtype
  pr_multibulklen :: nat
  pr_bulklen :: int
  pr_room :: nat
  pr_argv :: "sds list"
  pr_blocked :: bool        \<comment> \<open>\<open>REDIS_BLOCKED\<close>\<close>
  pr_asking :: bool         \<comment> \<open>\<open>REDIS_ASKING\<close>\<close>

abbreviation REDIS_INLINE_MAX_SIZE :: nat where "REDIS_INLINE_MAX_SIZE \<equiv> 1024 * 64"
abbreviation REDIS_MBULK_BIG_ARG :: int where "REDIS_MBULK_BIG_ARG \<equiv> 1024 * 32"
abbreviation REDIS_IOBUF_LEN :: int where "REDIS_IOBUF_LEN \<equiv> 1024 * 16"

abbreviation "CR \<equiv> (13 :: byte)"
abbreviation "LF \<equiv> (10 :: byte)"

text \<open>\<open>createClient\<close>: the parser of a new connection.\<close>

definition createParser :: "parser option" where
  "createParser = do {
     b \<leftarrow> sdsempty;
     Some \<lparr>pr_querybuf = b, pr_reqtype = REQ_NONE, pr_multibulklen = 0, pr_bulklen = - 1, pr_room = 0,
           pr_argv = [], pr_blocked = False, pr_asking = False\<rparr> }"

definition resetClient :: "nat \<Rightarrow> parser \<Rightarrow> server_state \<Rightarrow> parser" where
  "resetClient i q s = q\<lparr>pr_argv := [], pr_reqtype := REQ_NONE, pr_multibulklen := 0, pr_bulklen := - 1,
     pr_asking := (if cl_multi (sv_client s i) then pr_asking q else False)\<rparr>"

section \<open>Library functions\<close>

text \<open>
  \<open>strchr(p, '\r')\<close> and \<open>strstr(p, "\r\n")\<close>: the index of the first match before the null byte, if
  there is one.  The outer \<open>None\<close> is a read behind the buffer.
\<close>

fun find_cr :: "mem \<Rightarrow> nat option option" where
  "find_cr [] = None"
| "find_cr (c # cs) =
     (if c = CR then Some (Some 0) else if c = 0 then Some None
      else map_option (map_option Suc) (find_cr cs))"

fun find_crlf :: "mem \<Rightarrow> nat option option" where
  "find_crlf [] = None"
| "find_crlf (c # cs) =
     (if c = 0 then Some None
      else if c = CR \<and> cs = [] then None
      else if c = CR \<and> hd cs = LF then Some (Some 0)
      else map_option (map_option Suc) (find_crlf cs))"

section \<open>Inline requests\<close>

definition setProtocolError :: "nat \<Rightarrow> nat \<Rightarrow> parser \<Rightarrow> server_state \<Rightarrow> (parser \<times> server_state) option" where
  "setProtocolError i pos q s = do {
     b \<leftarrow> sdsrange (pr_querybuf q) (int pos) (- 1);
     Some (q\<lparr>pr_querybuf := b\<rparr>, upd i (\<lambda>c. c\<lparr>cl_close := True\<rparr>) s) }"

definition protocol_error :: "nat \<Rightarrow> string \<Rightarrow> nat \<Rightarrow> parser \<Rightarrow> server_state \<Rightarrow> (parser \<times> server_state) option" where
  "protocol_error i msg pos q s = setProtocolError i pos q (reply_to i (Error (''Protocol error: '' @ msg)) s)"

text \<open>The flag of the result is whether a request is complete (\<open>REDIS_OK\<close>).\<close>

definition processInlineBuffer :: "nat \<Rightarrow> parser \<Rightarrow> server_state \<Rightarrow> ((parser \<times> server_state) \<times> bool) option" where
  "processInlineBuffer i q s = do {
     newline \<leftarrow> find_crlf (sds_buf (pr_querybuf q));
     case newline of
       None \<Rightarrow>
         if sdslen (pr_querybuf q) > REDIS_INLINE_MAX_SIZE
         then do { r \<leftarrow> protocol_error i ''too big inline request'' 0 q s; Some (r, False) }
         else Some ((q, s), False)
     | Some querylen \<Rightarrow> do {
         split \<leftarrow> sdssplitlen (sds_buf (pr_querybuf q)) (to_int32 (int querylen)) [CH_SPACE, 0] 1;
         case split of
           Inl _ \<Rightarrow> None
         | Inr argv \<Rightarrow> do {
             b \<leftarrow> sdsrange (pr_querybuf q) (to_int32 (int querylen + 2)) (- 1);
             Some ((q\<lparr>pr_querybuf := b, pr_room := length argv,
                      pr_argv := [a \<leftarrow> argv. sdslen a \<noteq> 0]\<rparr>, s), True) } } }"

section \<open>Multi bulk requests\<close>

text \<open>The number of arguments.  \<open>Inl\<close>: the function returns; \<open>Inr\<close>: it goes on at this position.\<close>

definition read_count :: "nat \<Rightarrow> parser \<Rightarrow> server_state
    \<Rightarrow> (((parser \<times> server_state) \<times> bool) + (parser \<times> nat)) option" where
  "read_count i q s =
     (if pr_argv q \<noteq> [] then None
      else do {
        let buf = pr_querybuf q;
        newline \<leftarrow> find_cr (sds_buf buf);
        case newline of
          None \<Rightarrow>
            if sdslen buf > REDIS_INLINE_MAX_SIZE
            then do { r \<leftarrow> protocol_error i ''too big mbulk count string'' 0 q s; Some (Inl (r, False)) }
            else Some (Inl ((q, s), False))
        | Some n \<Rightarrow>
            if int n > to_int32 (int (sdslen buf)) - 2 then Some (Inl ((q, s), False))
            else do {
              c \<leftarrow> rd 0 (sds_buf buf);
              if c \<noteq> of_char (CHR ''*'') then None
              else do {
                t \<leftarrow> mem_read 1 (n - 1) (sds_buf buf);
                case string2ll t of
                  None \<Rightarrow> do { r \<leftarrow> protocol_error i ''invalid multibulk length'' 0 q s; Some (Inl (r, False)) }
                | Some ll \<Rightarrow>
                    if ll > 1024 * 1024
                    then do { r \<leftarrow> protocol_error i ''invalid multibulk length'' 0 q s; Some (Inl (r, False)) }
                    else if ll \<le> 0
                    then do { b \<leftarrow> sdsrange buf (int n + 2) (- 1);
                              Some (Inl ((q\<lparr>pr_querybuf := b\<rparr>, s), True)) }
                    else Some (Inr (q\<lparr>pr_multibulklen := nat ll, pr_room := nat ll\<rparr>, n + 2)) } } })"

text \<open>How a pass of the loop over the arguments ends.\<close>

datatype 'a flow = Continue 'a | Break 'a | Return 'a

type_synonym place = "parser \<times> nat \<times> server_state"

definition read_bulklen :: "nat \<Rightarrow> parser \<Rightarrow> nat \<Rightarrow> server_state \<Rightarrow> place flow option" where
  "read_bulklen i q pos s =
     (if pr_bulklen q \<noteq> - 1 then Some (Continue (q, pos, s))
      else do {
        let buf = pr_querybuf q;
        newline \<leftarrow> find_cr (drop pos (sds_buf buf));
        case newline of
          None \<Rightarrow>
            if sdslen buf > REDIS_INLINE_MAX_SIZE
            then do { (q, s) \<leftarrow> protocol_error i ''too big bulk count string'' 0 q s; Some (Break (q, pos, s)) }
            else Some (Break (q, pos, s))
        | Some n \<Rightarrow>
            if int (pos + n) > to_int32 (int (sdslen buf)) - 2 then Some (Break (q, pos, s))
            else do {
              c \<leftarrow> rd pos (sds_buf buf);
              if c \<noteq> of_char (CHR ''$'')
              then do {
                (q, s) \<leftarrow> protocol_error i (''expected '' @ quote @ ''$'' @ quote @ '', got '' @ quote @ error_text [c] @ quote) pos q s;
                Some (Return (q, pos, s)) }
              else do {
                t \<leftarrow> mem_read (pos + 1) (n - 1) (sds_buf buf);
                case string2ll t of
                  None \<Rightarrow> do { (q, s) \<leftarrow> protocol_error i ''invalid bulk length'' pos q s; Some (Return (q, pos, s)) }
                | Some ll \<Rightarrow>
                    if ll < 0 \<or> ll > 512 * 1024 * 1024
                    then do { (q, s) \<leftarrow> protocol_error i ''invalid bulk length'' pos q s; Some (Return (q, pos, s)) }
                    else do {
                      let pos = pos + n + 2;
                      if ll \<ge> REDIS_MBULK_BIG_ARG
                      then do { b \<leftarrow> sdsrange buf (int pos) (- 1);
                                Some (Continue (q\<lparr>pr_querybuf := sdsMakeRoomFor b (nat (ll + 2)), pr_bulklen := ll\<rparr>, 0, s)) }
                      else Some (Continue (q\<lparr>pr_bulklen := ll\<rparr>, pos, s)) } } } })"

text \<open>A raw string object is its string.\<close>

definition add_arg :: "sds \<Rightarrow> parser \<Rightarrow> parser option" where
  "add_arg a q =
     (if length (pr_argv q) < pr_room q
      then Some (q\<lparr>pr_argv := pr_argv q @ [a], pr_bulklen := - 1, pr_multibulklen := pr_multibulklen q - 1\<rparr>)
      else None)"

definition read_argument :: "parser \<Rightarrow> nat \<Rightarrow> server_state \<Rightarrow> place flow option" where
  "read_argument q pos s =
     (let buf = pr_querybuf q; bulklen = pr_bulklen q
      in if to_size (int (sdslen buf) - int pos) < to_uint32 (bulklen + 2) then Some (Break (q, pos, s))
         else if pos = 0 \<and> bulklen \<ge> REDIS_MBULK_BIG_ARG \<and> to_int32 (int (sdslen buf)) = bulklen + 2
         then do {
           a \<leftarrow> sdsIncrLen buf (- 2);
           b \<leftarrow> sdsempty;
           q \<leftarrow> add_arg a (q\<lparr>pr_querybuf := sdsMakeRoomFor b (nat (bulklen + 2))\<rparr>);
           Some (Continue (q, 0, s)) }
         else do {
           a \<leftarrow> sdsnewlen (Some (drop pos (sds_buf buf))) (nat bulklen);
           q \<leftarrow> add_arg a q;
           Some (Continue (q, pos + nat bulklen + 2, s)) })"

lemma read_bulklen_multibulklen:
  "read_bulklen i q pos s = Some (Continue (q', pos', s')) \<Longrightarrow> pr_multibulklen q' = pr_multibulklen q"
  by (auto simp: read_bulklen_def Let_def split: if_splits option.splits bind_splits prod.splits)

lemma read_argument_multibulklen:
  "read_argument q pos s = Some (Continue (q', pos', s')) \<Longrightarrow> pr_multibulklen q' = pr_multibulklen q - 1"
  by (auto simp: read_argument_def add_arg_def Let_def split: if_splits option.splits bind_splits)

text \<open>\<open>while (c->multibulklen)\<close>.\<close>

function bulk_loop :: "nat \<Rightarrow> parser \<Rightarrow> nat \<Rightarrow> server_state \<Rightarrow> place flow option" where
  "bulk_loop i q pos s =
     (if pr_multibulklen q = 0 then Some (Break (q, pos, s))
      else case read_bulklen i q pos s of
             Some (Continue (q, pos, s)) \<Rightarrow>
               (case read_argument q pos s of
                  Some (Continue (q, pos, s)) \<Rightarrow> bulk_loop i q pos s
                | r \<Rightarrow> r)
           | r \<Rightarrow> r)"
  by pat_completeness auto
termination
  by (relation "measure (\<lambda>(i, q, pos, s). pr_multibulklen q)")
    (auto dest!: read_bulklen_multibulklen read_argument_multibulklen)

declare bulk_loop.simps [simp del]

definition processMultibulkBuffer :: "nat \<Rightarrow> parser \<Rightarrow> server_state \<Rightarrow> ((parser \<times> server_state) \<times> bool) option" where
  "processMultibulkBuffer i q s = do {
     r \<leftarrow> (if pr_multibulklen q = 0 then read_count i q s else Some (Inr (q, 0)));
     case r of
       Inl done \<Rightarrow> Some done
     | Inr (q, pos) \<Rightarrow>
         if pr_multibulklen q = 0 then None
         else do {
           f \<leftarrow> bulk_loop i q pos s;
           case f of
             Return (q, pos, s) \<Rightarrow> Some ((q, s), False)
           | Break (q, pos, s) \<Rightarrow> do {
               b \<leftarrow> (if pos \<noteq> 0 then sdsrange (pr_querybuf q) (int pos) (- 1) else Some (pr_querybuf q));
               Some ((q\<lparr>pr_querybuf := b\<rparr>, s), pr_multibulklen q = 0) }
           | Continue _ \<Rightarrow> None } }"

section \<open>The loop over the requests\<close>

definition request_type :: "parser \<Rightarrow> reqtype option" where
  "request_type q =
     (if pr_reqtype q \<noteq> REQ_NONE then Some (pr_reqtype q)
      else do { c \<leftarrow> rd 0 (sds_buf (pr_querybuf q));
                Some (if c = of_char (CHR ''*'') then REQ_MULTIBULK else REQ_INLINE) })"

text \<open>
  Each pass over a complete request takes at least two bytes from the buffer, so as many passes as it
  has bytes are enough; the theorems below show it.
\<close>

type_synonym 'c input_state = "parser \<times> server_state \<times> 'c list"

fun input_loop :: "nat \<Rightarrow> ('c \<Rightarrow> nat \<Rightarrow> sds list \<Rightarrow> server_state \<Rightarrow> (server_state \<times> bool) option) \<Rightarrow> nat
    \<Rightarrow> 'c input_state \<Rightarrow> 'c input_state option" where
  "input_loop fuel run i (q, s, cs) =
     (if sdslen (pr_querybuf q) = 0 \<or> pr_blocked q \<or> cl_close (sv_client s i) then Some (q, s, cs)
      else case fuel of
        0 \<Rightarrow> None
      | Suc fuel \<Rightarrow> do {
          ty \<leftarrow> request_type q;
          let q = q\<lparr>pr_reqtype := ty\<rparr>;
          ((q, s), complete) \<leftarrow> (if ty = REQ_INLINE then processInlineBuffer i q s else processMultibulkBuffer i q s);
          if \<not> complete then Some (q, s, cs)
          else if pr_argv q = [] then input_loop fuel run i (resetClient i q s, s, cs)
          else case cs of
            [] \<Rightarrow> None
          | c # cs \<Rightarrow> do {
              (s, goes_on) \<leftarrow> run c i (pr_argv q) s;
              input_loop fuel run i (if goes_on then resetClient i q s else q, s, cs) } })"

declare input_loop.simps [simp del]

definition processInputBuffer :: "('c \<Rightarrow> nat \<Rightarrow> sds list \<Rightarrow> server_state \<Rightarrow> (server_state \<times> bool) option) \<Rightarrow> nat
    \<Rightarrow> 'c input_state \<Rightarrow> 'c input_state option" where
  "processInputBuffer run i st = input_loop (sdslen (pr_querybuf (fst st))) run i st"

section \<open>Reading from the connection\<close>

text \<open>
  \<open>read\<close> fails, has no data yet, reports the end, or returns between one byte and as many as it was
  asked for; anything else is \<open>None\<close>.
\<close>

datatype read_result = ReadError | ReadAgain | ReadEof | ReadBytes "byte list"

definition read_length :: "parser \<Rightarrow> int" where
  "read_length q =
     (if pr_reqtype q = REQ_MULTIBULK \<and> pr_multibulklen q \<noteq> 0 \<and> pr_bulklen q \<noteq> - 1 \<and> pr_bulklen q \<ge> REDIS_MBULK_BIG_ARG
      then let remaining = to_int32 (int (to_size (int (to_uint32 (pr_bulklen q + 2)) - int (sdslen (pr_querybuf q)))))
           in if remaining < REDIS_IOBUF_LEN then remaining else REDIS_IOBUF_LEN
      else REDIS_IOBUF_LEN)"

text \<open>\<open>Inl\<close>: the client has been freed.\<close>

definition readQueryFromClient :: "('c \<Rightarrow> nat \<Rightarrow> sds list \<Rightarrow> server_state \<Rightarrow> (server_state \<times> bool) option) \<Rightarrow> nat \<Rightarrow> nat
    \<Rightarrow> read_result \<Rightarrow> 'c input_state \<Rightarrow> (server_state + 'c input_state) option" where
  "readQueryFromClient run maxlen i r st =
     (let (q, s, cs) = st;
          readlen = read_length q;
          qblen = sdslen (pr_querybuf q);
          b = sdsMakeRoomFor (pr_querybuf q) (to_size readlen)
      in case r of
           ReadError \<Rightarrow> map_option Inl (freeClient i s)
         | ReadEof \<Rightarrow> map_option Inl (freeClient i s)
         | ReadAgain \<Rightarrow> Some (Inr (q\<lparr>pr_querybuf := b\<rparr>, s, cs))
         | ReadBytes bs \<Rightarrow>
             if bs = [] \<or> int (length bs) > readlen then None
             else do {
               m \<leftarrow> mem_write qblen bs (sds_buf b);
               b \<leftarrow> sdsIncrLen (b\<lparr>sds_buf := m\<rparr>) (int (length bs));
               if sdslen b > maxlen then map_option Inl (freeClient i s)
               else map_option Inr (processInputBuffer run i (q\<lparr>pr_querybuf := b\<rparr>, s, cs)) })"

text \<open>
  The event loop: as long as the connection has bytes, the handler is called and takes as many as it
  asks for.
\<close>

function deliver :: "('c \<Rightarrow> nat \<Rightarrow> sds list \<Rightarrow> server_state \<Rightarrow> (server_state \<times> bool) option) \<Rightarrow> nat \<Rightarrow> nat
    \<Rightarrow> byte list \<Rightarrow> 'c input_state \<Rightarrow> (server_state + 'c input_state) option" where
  "deliver run maxlen i data st =
     (if data = [] then Some (Inr st)
      else let n = nat (read_length (fst st)) in
      if n = 0 then None
      else case readQueryFromClient run maxlen i (ReadBytes (take n data)) st of
             Some (Inr st) \<Rightarrow> deliver run maxlen i (drop n data) st
           | r \<Rightarrow> r)"
  by pat_completeness auto
termination
  by (relation "measure (\<lambda>(run, maxlen, i, data, st). length data)") auto

declare deliver.simps [simp del]

fun deliver_all :: "('c \<Rightarrow> nat \<Rightarrow> sds list \<Rightarrow> server_state \<Rightarrow> (server_state \<times> bool) option) \<Rightarrow> nat \<Rightarrow> nat
    \<Rightarrow> byte list list \<Rightarrow> 'c input_state \<Rightarrow> (server_state + 'c input_state) option" where
  "deliver_all run maxlen i [] st = Some (Inr st)"
| "deliver_all run maxlen i (data # chunks) st =
     (case deliver run maxlen i data st of
        Some (Inr st) \<Rightarrow> deliver_all run maxlen i chunks st
      | r \<Rightarrow> r)"

text \<open>What the server runs.\<close>

type_synonym cmd_context = "config \<times> env \<times> nat list list \<times> (env \<times> nat list list) list"

definition run_in :: "cmd_context \<Rightarrow> nat \<Rightarrow> sds list \<Rightarrow> server_state \<Rightarrow> (server_state \<times> bool) option" where
  "run_in c i av s = (case c of (g, e, rnd, xs) \<Rightarrow> processCommand g e rnd xs i av s)"

end
