(* ===== verification/ProtoSafe.thy ===== *)
theory ProtoSafe
  imports Proto Transactions
begin

text \<open>
  The request parser on arbitrary input.  The invariant of a connection (\<open>conn_ok\<close>) is kept by every
  operation; processing the buffer amounts to running well-formed commands (\<open>runs_commands\<close>), and so
  does the delivery of any bytes in any pieces (\<open>delivers\<close>).  What runs a command is the parameter of the
  locale \<open>request_handler\<close>.  Results that a command does not have are told apart from those that the
  parser does not have by running it with \<open>total_run\<close>, where every command has one.
\<close>

section \<open>No input breaks the parser\<close>

subsection \<open>Searching the buffer\<close>

fun cr_index :: "byte list \<Rightarrow> nat option" where
  "cr_index [] = None"
| "cr_index (c # cs) = (if c = CR then Some 0 else if c = 0 then None else map_option Suc (cr_index cs))"

fun crlf_index :: "byte list \<Rightarrow> nat option" where
  "crlf_index (c # d # cs) = (if c = 0 then None else if c = CR \<and> d = LF then Some 0
     else map_option Suc (crlf_index (d # cs)))"
| "crlf_index _ = None"

lemma find_cr_text: "find_cr (xs @ 0 # rest) = Some (cr_index xs)"
  by (induction xs) auto

lemma find_crlf_text: "find_crlf (xs @ 0 # rest) = Some (crlf_index xs)"
proof (induction xs rule: crlf_index.induct)
  case (1 c d cs)
  then show ?case by auto
qed auto

lemma cr_index_less: "cr_index xs = Some n \<Longrightarrow> n < length xs \<and> xs ! n = CR"
  by (induction xs arbitrary: n) (auto split: if_splits)

lemma crlf_index_less: "crlf_index xs = Some n \<Longrightarrow> n + 2 \<le> length xs"
  by (induction xs arbitrary: n rule: crlf_index.induct) (auto split: if_splits)

lemma cr_index_append: "\<lbrakk>CR \<notin> set a; 0 \<notin> set a\<rbrakk> \<Longrightarrow> cr_index (a @ CR # b) = Some (length a)"
  by (induction a) auto

lemma cr_index_None: "CR \<notin> set a \<Longrightarrow> cr_index a = None"
  by (induction a) auto

subsection \<open>The invariant\<close>

abbreviation querybuf_max :: nat where "querybuf_max \<equiv> 2 ^ 30"

text \<open>No command modelled here blocks its client.\<close>

definition buf_rep :: "parser \<Rightarrow> byte list \<Rightarrow> bool" where
  "buf_rep q xs \<longleftrightarrow> sds_rep (pr_querybuf q) xs \<and> length xs \<le> querybuf_max \<and> \<not> pr_blocked q"

text \<open>An argument whose length is known is not complete at this position.\<close>

definition hungry :: "parser \<Rightarrow> byte list \<Rightarrow> nat \<Rightarrow> bool" where
  "hungry q xs p \<longleftrightarrow> pr_multibulklen q \<noteq> 0 \<and> pr_bulklen q \<noteq> - 1 \<longrightarrow> int (length xs) < int p + pr_bulklen q + 2"

definition args_ok :: "sds list \<Rightarrow> bool" where
  "args_ok av \<longleftrightarrow> (\<forall>a \<in> set av. \<exists>x. sds_rep a x)"

text \<open>In the middle of a multi bulk request.\<close>

definition in_request :: "parser \<Rightarrow> bool" where
  "in_request q \<longleftrightarrow> pr_reqtype q = REQ_MULTIBULK \<and> args_ok (pr_argv q) \<and>
     length (pr_argv q) + pr_multibulklen q = pr_room q \<and> (pr_multibulklen q = 0 \<longrightarrow> pr_argv q \<noteq> []) \<and>
     - 1 \<le> pr_bulklen q \<and> pr_bulklen q \<le> 512 * 1024 * 1024"

definition parser_ok :: "parser \<Rightarrow> byte list \<Rightarrow> bool" where
  "parser_ok q xs \<longleftrightarrow> buf_rep q xs \<and>
     (if pr_multibulklen q = 0
      then pr_argv q = [] \<and> pr_bulklen q = - 1 \<and>
           (pr_reqtype q = REQ_MULTIBULK \<longrightarrow> xs \<noteq> [] \<and> hd xs = of_char (CHR ''*''))
      else in_request q)"

lemma args_ok_simps [simp]: "args_ok []" "args_ok (av @ [a]) \<longleftrightarrow> args_ok av \<and> (\<exists>x. sds_rep a x)"
  by (auto simp: args_ok_def)

lemma buf_repE:
  assumes "buf_rep q xs"
  obtains rest where "sds_buf (pr_querybuf q) = xs @ 0 # rest" "sdslen (pr_querybuf q) = length xs"
    "sds_rep (pr_querybuf q) xs" "length xs \<le> querybuf_max"
  using assms by (auto simp: buf_rep_def elim: sds_repE)

text \<open>Dropping what has been read.\<close>

lemma list_range_drop: "list_range (int p) (- 1) xs = drop p xs"
proof (cases "p \<le> length xs")
  case True
  then show ?thesis by (auto simp: list_range_def range_index_def Let_def nat_diff_distrib' nat_add_distrib)
next
  case False
  then show ?thesis by (auto simp: list_range_def range_index_def Let_def)
qed

lemma sdsrange_drop:
  assumes "sds_rep b xs" "length xs \<le> querybuf_max" "p \<le> length xs"
  shows "\<exists>b'. sdsrange b (int p) (- 1) = Some b' \<and> sds_rep b' (drop p xs)"
  using sdsrange_rep [OF assms(1), of "int p" "- 1"] assms(2,3) by (simp add: list_range_drop)

definition closed_with :: "nat \<Rightarrow> string \<Rightarrow> server_state \<Rightarrow> server_state" where
  "closed_with i msg s = upd i (\<lambda>c. c\<lparr>cl_close := True\<rparr>) (reply_to i (Error (''Protocol error: '' @ msg)) s)"

lemma protocol_error_ok:
  assumes "buf_rep q xs" "p \<le> length xs"
  shows "\<exists>b. protocol_error i msg p q s = Some (q\<lparr>pr_querybuf := b\<rparr>, closed_with i msg s) \<and> sds_rep b (drop p xs)"
proof -
  obtain b where "sdsrange (pr_querybuf q) (int p) (- 1) = Some b" "sds_rep b (drop p xs)"
    using sdsrange_drop [of "pr_querybuf q" xs p] assms by (auto simp: buf_rep_def)
  then show ?thesis by (auto simp: protocol_error_def setProtocolError_def closed_with_def)
qed


subsection \<open>A pass over a request\<close>

text \<open>
  A request is complete and the buffer shorter; or more input is needed and nothing else has changed;
  or the connection is to be closed after an error.
\<close>

definition parsed :: "nat \<Rightarrow> byte list \<Rightarrow> server_state \<Rightarrow> (parser \<times> server_state) \<times> bool \<Rightarrow> bool" where
  "parsed i xs s = (\<lambda>((q, s'), complete). \<exists>xs'. buf_rep q xs' \<and> length xs' \<le> length xs \<and> hungry q xs' 0 \<and>
     (if complete then s' = s \<and> length xs' < length xs \<and> pr_multibulklen q = 0 \<and> args_ok (pr_argv q)
      else s' = s \<and> parser_ok q xs' \<or> (pr_multibulklen q = 0 \<or> pr_bulklen q = - 1) \<and> (\<exists>msg. s' = closed_with i msg s)))"

lemma hungry_0 [simp]: "pr_multibulklen q = 0 \<Longrightarrow> hungry q xs p" "pr_bulklen q = - 1 \<Longrightarrow> hungry q xs p"
  by (simp_all add: hungry_def)

lemma parsed_wait: "\<lbrakk>parser_ok q xs; pr_multibulklen q = 0\<rbrakk> \<Longrightarrow> parsed i xs s ((q, s), False)"
  by (auto simp: parsed_def parser_ok_def)

lemma parsed_complete:
  "\<lbrakk>buf_rep q xs'; length xs' < length xs; pr_multibulklen q = 0; args_ok (pr_argv q)\<rbrakk> \<Longrightarrow> parsed i xs s ((q, s), True)"
  by (auto simp: parsed_def)

lemma parsed_error:
  assumes "buf_rep q xs" "p \<le> length xs" "pr_multibulklen q = 0"
  shows "ok (protocol_error i msg p q s) (\<lambda>r. parsed i xs s (r, False))"
proof -
  obtain b where "protocol_error i msg p q s = Some (q\<lparr>pr_querybuf := b\<rparr>, closed_with i msg s)"
    "sds_rep b (drop p xs)" using protocol_error_ok [OF assms(1,2)] by blast
  then show ?thesis using assms by (auto simp: parsed_def buf_rep_def intro!: exI [where x = "drop p xs"])
qed

lemma buf_rep_drop:
  assumes "buf_rep q xs" "p \<le> length xs"
  shows "ok (sdsrange (pr_querybuf q) (int p) (- 1)) (\<lambda>b. buf_rep (q\<lparr>pr_querybuf := b\<rparr>) (drop p xs))"
proof -
  obtain b where "sdsrange (pr_querybuf q) (int p) (- 1) = Some b" "sds_rep b (drop p xs)"
    using sdsrange_drop [of "pr_querybuf q" xs p] assms by (auto simp: buf_rep_def)
  then show ?thesis using assms by (auto simp: buf_rep_def)
qed

text \<open>A line is split by its own bytes only, whatever the buffer holds behind it.\<close>

lemma sdsnewlen_prefix: "n \<le> length t \<Longrightarrow> sdsnewlen (Some (t @ u)) n = sdsnewlen (Some t) n"
  using mem_read_prefix [of n "t @ u"] mem_read_prefix [of n t] by (simp add: sdsnewlen_def cong: if_cong)

lemma split_loop_prefix:
  assumes "len \<le> length s" "0 < seplen" "seplen \<le> length sep" "start \<le> j" "j \<le> len"
  shows "split_loop (s @ u) len (sep @ v) seplen j start slots tokens = split_loop s len sep seplen j start slots tokens"
  using assms(4,5)
proof (induction "len - j" arbitrary: j start slots tokens rule: less_induct)
  case less
  show ?case
  proof (cases "j + seplen \<le> len")
    case False
    then show ?thesis using assms(2) by (subst (1 2) split_loop.simps) auto
  next
    case True
    have e: "rd j (s @ u) = rd j s" "rd 0 (sep @ v) = rd 0 sep" "mem_read j seplen (s @ u) = mem_read j seplen s"
      "mem_read 0 seplen (sep @ v) = mem_read 0 seplen sep" "drop start (s @ u) = drop start s @ u"
      "sdsnewlen (Some (drop start s @ u)) (j - start) = sdsnewlen (Some (drop start s)) (j - start)"
      using True assms less(2,3) by (auto simp: rd_def mem_read_def nth_append intro!: sdsnewlen_prefix)
    have IH: "split_loop (s @ u) len (sep @ v) seplen (j + seplen) (j + seplen) sl
        = split_loop s len sep seplen (j + seplen) (j + seplen) sl"
      "split_loop (s @ u) len (sep @ v) seplen (j + 1) start sl tk = split_loop s len sep seplen (j + 1) start sl tk" for sl tk
      using True assms(2) less(2) by (auto intro!: less(1) ext)
    have j: "j + seplen - 1 + 1 = j + seplen" "int j < int len - (int seplen - 1)" "seplen \<noteq> 0"
      using True assms(2) by auto
    show ?thesis
      by (subst (1 2) split_loop.simps) (simp only: e j IH Let_def if_True if_False simp_thms)
  qed
qed

lemma sdssplitlen_line:
  assumes "n \<le> length xs" "n < 2 ^ 31"
  shows "\<exists>toks. sdssplitlen (xs @ u) (int n) [CH_SPACE, 0] 1 = Some (Inr toks) \<and> args_ok toks"
proof (cases "n = 0")
  case True
  then show ?thesis by (simp add: sdssplitlen_def)
next
  case False
  define line where "line = take n xs"
  have l: "line \<noteq> []" "length line = n" "xs @ u = line @ (drop n xs @ u)"
    using False assms(1) by (auto simp: line_def simp flip: append_assoc)
  obtain toks ts where t: "sdssplitlen line (int n) [CH_SPACE] 1 = Some (Inr toks)" "list_all2 sds_rep toks ts"
    using sdssplitlen_correct [of line "[CH_SPACE]"] l(1,2) assms(2) by auto
  have "split_loop (line @ (drop n xs @ u)) n ([CH_SPACE] @ [0]) 1 0 0 5 [] = split_loop line n [CH_SPACE] 1 0 0 5 []"
    by (rule split_loop_prefix) (use l(2) in auto)
  moreover obtain start slots tokens where "split_loop line n [CH_SPACE] 1 0 0 5 [] = Some (start, slots, tokens)" "start \<le> n"
    using split_loop_correct [of "[CH_SPACE]" line 0 0 "[]" 5] l(2) assms(2) by auto
  ultimately have "sdssplitlen (line @ (drop n xs @ u)) (int n) [CH_SPACE, 0] 1 = sdssplitlen line (int n) [CH_SPACE] 1"
    using False l(2) by (simp add: sdssplitlen_def sdsnewlen_prefix)
  moreover have "args_ok toks" using t(2) by (induction rule: list_all2_induct) (auto simp: args_ok_def)
  ultimately show ?thesis using t(1) unfolding l(3) by simp
qed

lemma processInlineBuffer_ok:
  assumes "parser_ok q xs" "pr_reqtype q = REQ_INLINE"
  shows "ok (processInlineBuffer i q s) (parsed i xs s)"
proof -
  have b: "buf_rep q xs" and m: "pr_multibulklen q = 0"
    using assms by (auto simp: parser_ok_def in_request_def split: if_splits)
  obtain rest where r: "sds_buf (pr_querybuf q) = xs @ 0 # rest" "sdslen (pr_querybuf q) = length xs"
    "length xs \<le> querybuf_max" using b by (rule buf_repE)
  show ?thesis
  proof (cases "crlf_index xs")
    case None
    then show ?thesis using r(1,2) parsed_error [OF b, of 0] parsed_wait [OF assms(1)] m
      by (simp add: processInlineBuffer_def find_crlf_text)
  next
    case (Some n)
    have n: "n + 2 \<le> length xs" using crlf_index_less [OF Some] .
    obtain toks where t: "sdssplitlen (xs @ 0 # rest) (int n) [CH_SPACE, 0] 1 = Some (Inr toks)" "args_ok toks"
      using sdssplitlen_line [of n xs "0 # rest"] n r(3) by auto
    have "args_ok [a \<leftarrow> toks. sdslen a \<noteq> 0]" using t(2) by (auto simp: args_ok_def)
    then have "ok (sdsrange (pr_querybuf q) (int (n + 2)) (- 1))
        (\<lambda>b. parsed i xs s ((q\<lparr>pr_querybuf := b, pr_room := length toks, pr_argv := [a \<leftarrow> toks. sdslen a \<noteq> 0]\<rparr>, s), True))"
      using n by (intro ok_mono [OF buf_rep_drop [OF b n]] parsed_complete) (auto simp: buf_rep_def m)
    moreover have "to_int32 (int n) = int n" "to_int32 (int n + 2) = int (n + 2)" using n r(3) by (simp_all add: c_arith)
    ultimately show ?thesis using Some t(1) r(1) by (simp add: processInlineBuffer_def find_crlf_text del: of_nat_add)
  qed
qed

lemma rd_text [simp]: "n < length xs \<Longrightarrow> rd n (xs @ ys) = Some (xs ! n)"
  by (simp add: rd_def nth_append)

lemma mem_read_text: "p + n \<le> length xs \<Longrightarrow> mem_read p n (xs @ ys) = Some (take n (drop p xs))"
  by (simp add: mem_read_def)

lemma hd_nth: "xs \<noteq> [] \<Longrightarrow> xs ! 0 = hd xs"
  by (cases xs) auto

lemma not_CR [simp]: "of_char (CHR ''*'') \<noteq> CR" "of_char (CHR ''$'') \<noteq> CR"
  by simp_all

text \<open>What reading the number of arguments may lead to.\<close>

definition counted :: "nat \<Rightarrow> byte list \<Rightarrow> server_state
    \<Rightarrow> ((parser \<times> server_state) \<times> bool) + (parser \<times> nat) \<Rightarrow> bool" where
  "counted i xs s r \<longleftrightarrow> (case r of
     Inl r \<Rightarrow> parsed i xs s r
   | Inr (q, pos) \<Rightarrow> buf_rep q xs \<and> 2 \<le> pos \<and> pos \<le> length xs \<and> pr_argv q = [] \<and> pr_bulklen q = - 1 \<and>
       0 < pr_multibulklen q \<and> pr_room q = pr_multibulklen q \<and> pr_reqtype q = REQ_MULTIBULK)"

lemma read_count_ok:
  assumes q: "parser_ok q xs" "pr_reqtype q = REQ_MULTIBULK" "pr_multibulklen q = 0"
  shows "ok (read_count i q s) (counted i xs s)"
proof -
  have b: "buf_rep q xs" and a: "pr_argv q = []" "pr_bulklen q = - 1" "xs \<noteq> []" "hd xs = of_char (CHR ''*'')"
    using q by (auto simp: parser_ok_def)
  obtain rest where r: "sds_buf (pr_querybuf q) = xs @ 0 # rest" "sdslen (pr_querybuf q) = length xs"
    "length xs \<le> querybuf_max" using b by (rule buf_repE)
  have err: "ok (protocol_error i msg 0 q s) (\<lambda>r. counted i xs s (Inl (r, False)))" for msg
    using parsed_error [OF b, of 0] q(3) by (simp add: counted_def)
  have wait: "counted i xs s (Inl ((q, s), False))" using parsed_wait [OF q(1,3)] by (simp add: counted_def)
  show ?thesis
  proof (cases "cr_index xs")
    case None
    then show ?thesis using r(1,2) err wait by (simp add: read_count_def a find_cr_text)
  next
    case (Some n)
    note n = cr_index_less [OF Some]
    have n0: "n \<noteq> 0" using n a(3,4) not_CR(1) by (metis hd_nth)
    show ?thesis
    proof (cases "int n > int (length xs) - 2")
      case True
      then show ?thesis using Some r wait by (simp add: read_count_def a find_cr_text c_arith)
    next
      case False
      then have n2: "n + 2 \<le> length xs" by simp
      have rd: "rd 0 (xs @ 0 # rest) = Some (of_char (CHR ''*''))" using a(3,4) by (simp add: hd_nth)
      have t: "mem_read 1 (n - 1) (xs @ 0 # rest) = Some (take (n - 1) (drop 1 xs))"
        using n2 by (intro mem_read_text) simp
      have "ok (sdsrange (pr_querybuf q) (int (n + 2)) (- 1)) (\<lambda>b. parsed i xs s ((q\<lparr>pr_querybuf := b\<rparr>, s), True))"
        using n2 a(1) q(3) by (intro ok_mono [OF buf_rep_drop [OF b n2]] parsed_complete) (auto simp: buf_rep_def)
      then have fin: "ok (sdsrange (pr_querybuf q) (int n + 2) (- 1)) (\<lambda>b. counted i xs s (Inl ((q\<lparr>pr_querybuf := b\<rparr>, s), True)))"
        by (simp add: counted_def add.commute)
      show ?thesis using False Some r err fin b n2 q(2)
        by (auto simp: read_count_def a find_cr_text c_arith Let_def rd t [unfolded One_nat_def] counted_def buf_rep_def
            simp del: of_char_eq_iff split: option.splits)
    qed
  qed
qed

text \<open>In the loop, at a position of the buffer.\<close>

definition at_place :: "byte list \<Rightarrow> parser \<Rightarrow> nat \<Rightarrow> bool" where
  "at_place xs q pos \<longleftrightarrow> buf_rep q xs \<and> pos \<le> length xs \<and> in_request q \<and> pr_multibulklen q \<noteq> 0"

lemma drop_text: "p \<le> length xs \<Longrightarrow> drop p (xs @ ys) = drop p xs @ ys"
  by simp

lemma read_argument_waits:
  assumes "at_place xs q pos" "pr_bulklen q = int n" "length xs < pos + n + 2"
  shows "read_argument q pos s = Some (Break (q, pos, s))"
proof -
  have b: "buf_rep q xs" "pos \<le> length xs" "n \<le> 512 * 1024 * 1024"
    using assms(1,2) by (auto simp: at_place_def in_request_def)
  obtain rest where r: "sdslen (pr_querybuf q) = length xs" "length xs \<le> querybuf_max" using b(1) by (rule buf_repE)
  then have "to_size (int (sdslen (pr_querybuf q)) - int pos) = length xs - pos" "to_uint32 (pr_bulklen q + 2) = n + 2"
    using b(2,3) assms(2) by (simp_all add: c_arith nat_add_distrib)
  moreover have "length xs - pos < n + 2" using assms(3) b(2) by simp
  ultimately show ?thesis by (simp only: read_argument_def Let_def if_True)
qed

lemma read_argument_reads:
  assumes "at_place xs q pos" "pr_bulklen q = int n" "pos + n + 2 \<le> length xs"
  shows "\<exists>a b pos' xs'. read_argument q pos s = Some (Continue (q\<lparr>pr_querybuf := b, pr_argv := pr_argv q @ [a],
      pr_bulklen := - 1, pr_multibulklen := pr_multibulklen q - 1\<rparr>, pos', s)) \<and>
    sds_rep a (take n (drop pos xs)) \<and> sds_rep b xs' \<and> pos' \<le> length xs' \<and> length xs' \<le> length xs \<and>
    drop pos' xs' = drop (pos + n + 2) xs \<and>
    (pos = 0 \<and> int n \<ge> REDIS_MBULK_BIG_ARG \<and> length xs = n + 2 \<longrightarrow> xs' = [])"
proof -
  have b: "buf_rep q xs" "pos \<le> length xs" "n \<le> 512 * 1024 * 1024" "length (pr_argv q) < pr_room q"
    using assms(1,2) by (auto simp: at_place_def in_request_def)
  obtain rest where r: "sds_buf (pr_querybuf q) = xs @ 0 # rest" "sdslen (pr_querybuf q) = length xs"
    "sds_rep (pr_querybuf q) xs" "length xs \<le> querybuf_max" using b(1) by (rule buf_repE)
  have sz: "to_size (int (length xs) - int pos) = length xs - pos" "to_uint32 (int n + 2) = n + 2"
    "to_int32 (int (length xs)) = int (length xs)" "nat (int n + 2) = n + 2"
    using b(2,3) r(4) by (simp_all add: c_arith nat_add_distrib)
  have long: "(length xs - pos < n + 2) = False" using assms(3) by simp
  show ?thesis
  proof (cases "pos = 0 \<and> int n \<ge> REDIS_MBULK_BIG_ARG \<and> int (length xs) = int n + 2")
    case True
    then have x: "xs = take n xs @ drop n xs" "length (drop n xs) = 2" by auto
    obtain a where a: "sdsIncrLen (pr_querybuf q) (- 2) = Some a" "sds_rep a (take n xs)"
      using sdsIncrLen_trim [of "pr_querybuf q" "take n xs" "drop n xs"] r(3) x by auto
    obtain e where e: "sdsempty = Some e" "sds_rep e []" using sdsempty_rep by blast
    have m: "sds_rep (sdsMakeRoomFor e (n + 2)) []"
      using sdsMakeRoomFor_rep [OF e(2), of "n + 2"] b(3) by simp
    have "read_argument q pos s = Some (Continue (q\<lparr>pr_querybuf := sdsMakeRoomFor e (n + 2), pr_argv := pr_argv q @ [a],
      pr_bulklen := - 1, pr_multibulklen := pr_multibulklen q - 1\<rparr>, 0, s))"
      using b(4) unfolding read_argument_def Let_def r assms(2) sz long if_False if_P [OF True] a(1) e(1) by (simp add: add_arg_def)
    then show ?thesis using a(2) m True
      by (intro exI [of _ a] exI [of _ "sdsMakeRoomFor e (n + 2)"] exI [of _ 0] exI [of _ "[]"]) auto
  next
    case False
    have n: "n \<le> length (drop pos xs)" using assms(3) b(2) by (simp add: le_diff_conv2)
    obtain a where a: "sdsnewlen (Some (drop pos xs @ 0 # rest)) n = Some a" "sds_rep a (take n (drop pos xs))"
      using sdsnewlen_rep [of n "drop pos xs @ 0 # rest"] b(3) n by (auto simp del: length_drop)
    have "read_argument q pos s = Some (Continue (q\<lparr>pr_querybuf := pr_querybuf q, pr_argv := pr_argv q @ [a],
      pr_bulklen := - 1, pr_multibulklen := pr_multibulklen q - 1\<rparr>, pos + n + 2, s))"
      using b(2,4) a(1) unfolding read_argument_def Let_def r assms(2) sz long if_False if_not_P [OF False] by (simp add: add_arg_def)
    then show ?thesis using a(2) r(3) assms(3) False
      by (intro exI [of _ a] exI [of _ "pr_querybuf q"] exI [of _ "pos + n + 2"] exI [of _ xs]) auto
  qed
qed

lemma at_place_big:
  assumes "at_place xs q pos" "p \<le> length xs" "n \<le> 512 * 1024 * 1024"
  shows "\<exists>b. sdsrange (pr_querybuf q) (int p) (- 1) = Some b \<and> sds_rep (sdsMakeRoomFor b (n + 2)) (drop p xs) \<and>
    at_place (drop p xs) (q\<lparr>pr_querybuf := sdsMakeRoomFor b (n + 2), pr_bulklen := int n\<rparr>) 0"
proof -
  have b: "buf_rep q xs" using assms(1) by (simp add: at_place_def)
  then obtain b where b: "sdsrange (pr_querybuf q) (int p) (- 1) = Some b" "sds_rep b (drop p xs)" "length xs \<le> querybuf_max"
    using sdsrange_drop [of "pr_querybuf q" xs p] assms(2) by (auto simp: buf_rep_def)
  then have "sds_rep (sdsMakeRoomFor b (n + 2)) (drop p xs)"
    using sdsMakeRoomFor_rep [OF b(2), of "n + 2"] assms(3) by simp
  then show ?thesis using b assms by (auto simp: at_place_def buf_rep_def in_request_def)
qed

text \<open>Reading the length of an argument.\<close>

lemma find_cr_at:
  assumes "at_place xs q pos"
  shows "find_cr (drop pos (sds_buf (pr_querybuf q))) = Some (cr_index (drop pos xs))"
proof -
  obtain rest where "sds_buf (pr_querybuf q) = xs @ 0 # rest" "pos \<le> length xs"
    using assms by (auto simp: at_place_def elim: buf_repE)
  then show ?thesis by (simp add: find_cr_text)
qed

lemma at_place_len:
  assumes "at_place xs q pos"
  shows "sdslen (pr_querybuf q) = length xs" "to_int32 (int (length xs)) = int (length xs)" "pos \<le> length xs" "length xs \<le> querybuf_max"
  using assms by (auto simp: at_place_def c_arith elim: buf_repE)

lemma read_bulklen_waits:
  assumes "at_place xs q pos" "pr_bulklen q = - 1"
    "case cr_index (drop pos xs) of None \<Rightarrow> length xs \<le> REDIS_INLINE_MAX_SIZE | Some n \<Rightarrow> length xs < pos + n + 2"
  shows "read_bulklen i q pos s = Some (Break (q, pos, s))"
  using assms(2,3) at_place_len [OF assms(1)]
  by (auto simp: read_bulklen_def find_cr_at [OF assms(1)] split: option.splits)

lemma read_bulklen_line:
  assumes "at_place xs q pos" "cr_index (drop pos xs) = Some n" "pos + n + 2 \<le> length xs"
  shows "rd pos (sds_buf (pr_querybuf q)) = Some (xs ! pos)"
    "mem_read (Suc pos) (n - Suc 0) (sds_buf (pr_querybuf q)) = Some (take (n - Suc 0) (drop (Suc pos) xs))"
proof -
  obtain rest where "sds_buf (pr_querybuf q) = xs @ 0 # rest"
    using assms(1) by (auto simp: at_place_def elim: buf_repE)
  then show "rd pos (sds_buf (pr_querybuf q)) = Some (xs ! pos)"
    "mem_read (Suc pos) (n - Suc 0) (sds_buf (pr_querybuf q)) = Some (take (n - Suc 0) (drop (Suc pos) xs))"
    using assms(3) mem_read_text [of "Suc pos" "n - Suc 0" xs "0 # rest"] by simp_all
qed

lemma read_bulklen_reads:
  assumes p: "at_place xs q pos" "pr_bulklen q = - 1" "cr_index (drop pos xs) = Some n" "pos + n + 2 \<le> length xs"
    and d: "xs ! pos = of_char (CHR ''$'')" "string2ll (take (n - 1) (drop (pos + 1) xs)) = Some (int k)" "k \<le> 512 * 1024 * 1024"
  shows "\<exists>b pos' xs'. read_bulklen i q pos s = Some (Continue (q\<lparr>pr_querybuf := b, pr_bulklen := int k\<rparr>, pos', s)) \<and>
    at_place xs' (q\<lparr>pr_querybuf := b, pr_bulklen := int k\<rparr>) pos' \<and> length xs' \<le> length xs \<and>
    drop pos' xs' = drop (pos + n + 2) xs \<and> (int k \<ge> REDIS_MBULK_BIG_ARG \<longrightarrow> pos' = 0)"
proof (cases "int k \<ge> REDIS_MBULK_BIG_ARG")
  case True
  obtain b where b: "sdsrange (pr_querybuf q) (int (pos + n + 2)) (- 1) = Some b"
    "at_place (drop (pos + n + 2) xs) (q\<lparr>pr_querybuf := sdsMakeRoomFor b (k + 2), pr_bulklen := int k\<rparr>) 0"
    using at_place_big [OF p(1,4) d(3)] by blast
  have "nat (int k + 2) = k + 2" by simp
  then have "read_bulklen i q pos s = Some (Continue (q\<lparr>pr_querybuf := sdsMakeRoomFor b (k + 2), pr_bulklen := int k\<rparr>, 0, s))"
    using True p(2,4) d b(1) at_place_len [OF p(1)]
    by (simp add: read_bulklen_def find_cr_at [OF p(1)] p(3) read_bulklen_line [OF p(1,3,4)] Let_def)
  then show ?thesis using b(2)
    by (intro exI [of _ "sdsMakeRoomFor b (k + 2)"] exI [of _ 0] exI [of _ "drop (pos + n + 2) xs"]) simp
next
  case False
  then have "read_bulklen i q pos s = Some (Continue (q\<lparr>pr_querybuf := pr_querybuf q, pr_bulklen := int k\<rparr>, pos + n + 2, s))"
    using p(2,4) d at_place_len [OF p(1)]
    by (simp add: read_bulklen_def find_cr_at [OF p(1)] p(3) read_bulklen_line [OF p(1,3,4)] Let_def)
  moreover have "at_place xs (q\<lparr>pr_querybuf := pr_querybuf q, pr_bulklen := int k\<rparr>) (pos + n + 2)"
    using p(1,4) d(3) by (simp add: at_place_def buf_rep_def in_request_def)
  ultimately show ?thesis using False
    by (intro exI [of _ "pr_querybuf q"] exI [of _ "pos + n + 2"] exI [of _ xs]) simp
qed

text \<open>
  How far the loop gets.  Where it goes on it has not changed the server, and the text left to read is
  shorter; where it ends the connection may have been given up.
\<close>

definition stopped :: "nat \<Rightarrow> byte list \<Rightarrow> nat \<Rightarrow> server_state \<Rightarrow> place flow \<Rightarrow> bool" where
  "stopped i xs pos s f \<longleftrightarrow> (case f of
     Continue _ \<Rightarrow> False
   | Return (q, p, s') \<Rightarrow> \<exists>xs' msg. buf_rep q xs' \<and> pr_bulklen q = - 1 \<and> length xs' \<le> length xs \<and> s' = closed_with i msg s
   | Break (q, p, s') \<Rightarrow> \<exists>xs'. buf_rep q xs' \<and> p \<le> length xs' \<and> length xs' \<le> length xs \<and> hungry q xs' p \<and>
       (if s' = s then in_request q \<and> (pr_multibulklen q = 0 \<longrightarrow> length xs' - p + 2 \<le> length xs - pos)
        else pr_multibulklen q \<noteq> 0 \<and> pr_bulklen q = - 1 \<and> (\<exists>msg. s' = closed_with i msg s)))"

definition goes_on :: "byte list \<Rightarrow> nat \<Rightarrow> nat \<Rightarrow> server_state \<Rightarrow> place \<Rightarrow> bool" where
  "goes_on xs pos d s = (\<lambda>(q, p, s'). s' = s \<and>
     (\<exists>xs'. buf_rep q xs' \<and> p \<le> length xs' \<and> in_request q \<and> length xs' \<le> length xs \<and> length xs' - p + d \<le> length xs - pos))"

lemma stopped_break: "\<lbrakk>at_place xs q pos; hungry q xs pos\<rbrakk> \<Longrightarrow> stopped i xs pos s (Break (q, pos, s))"
  by (auto simp: stopped_def at_place_def)

lemma stopped_mono:
  "\<lbrakk>stopped i xs' pos' s f; length xs' \<le> length xs; length xs' - pos' \<le> length xs - pos\<rbrakk> \<Longrightarrow> stopped i xs pos s f"
  unfolding stopped_def by (cases f) (force split: if_splits)+

lemma stopped_error:
  assumes "at_place xs q pos" "p \<le> length xs" "pr_bulklen q = - 1"
  shows "ok (protocol_error i msg p q s) (\<lambda>(q, s'). stopped i xs pos s (Return (q, pos', s')))"
    "ok (protocol_error i msg 0 q s) (\<lambda>(q, s'). stopped i xs pos s (Break (q, pos, s')))"
proof -
  have b: "buf_rep q xs" "pr_multibulklen q \<noteq> 0" "in_request q" using assms(1) by (auto simp: at_place_def)
  obtain b1 where "protocol_error i msg p q s = Some (q\<lparr>pr_querybuf := b1\<rparr>, closed_with i msg s)" "sds_rep b1 (drop p xs)"
    using protocol_error_ok [OF b(1) assms(2)] by blast
  then show "ok (protocol_error i msg p q s) (\<lambda>(q, s'). stopped i xs pos s (Return (q, pos', s')))"
    using b(1) assms(3) by (auto simp: stopped_def buf_rep_def intro!: exI [where x = "drop p xs"])
  obtain b0 where "protocol_error i msg 0 q s = Some (q\<lparr>pr_querybuf := b0\<rparr>, closed_with i msg s)" "sds_rep b0 xs"
    using protocol_error_ok [OF b(1), of 0 i msg s] by auto
  then show "ok (protocol_error i msg 0 q s) (\<lambda>(q, s'). stopped i xs pos s (Break (q, pos, s')))"
    using b assms(1,3) by (auto simp: stopped_def buf_rep_def in_request_def at_place_def intro!: exI [where x = xs])
qed

lemma read_bulklen_cases:
  assumes p: "at_place xs q pos" "pr_bulklen q = - 1"
  obtains (waits) "read_bulklen i q pos s = Some (Break (q, pos, s))"
  | (too_long) msg where "read_bulklen i q pos s = do { (q, s) \<leftarrow> protocol_error i msg 0 q s; Some (Break (q, pos, s)) }"
  | (bad) msg pos' where "read_bulklen i q pos s = do { (q, s) \<leftarrow> protocol_error i msg pos q s; Some (Return (q, pos', s)) }"
  | (reads) n k where "cr_index (drop pos xs) = Some n" "pos + n + 2 \<le> length xs" "xs ! pos = of_char (CHR ''$'')"
      "string2ll (take (n - 1) (drop (pos + 1) xs)) = Some (int k)" "k \<le> 512 * 1024 * 1024"
proof (cases "cr_index (drop pos xs)")
  case None
  then show thesis using p(2) at_place_len [OF p(1)] waits too_long
    by (cases "REDIS_INLINE_MAX_SIZE < length xs") (simp_all add: read_bulklen_def find_cr_at [OF p(1)])
next
  case (Some n)
  show thesis
  proof (cases "length xs < pos + n + 2")
    case True
    then show thesis using waits read_bulklen_waits [OF p] Some by simp
  next
    case False
    then have n: "pos + n + 2 \<le> length xs" by simp
    have e: "read_bulklen i q pos s = (if xs ! pos \<noteq> of_char (CHR ''$'')
       then do { (q, s) \<leftarrow> protocol_error i (''expected '' @ quote @ ''$'' @ quote @ '', got '' @ quote @ error_text [xs ! pos] @ quote) pos q s;
                 Some (Return (q, pos, s)) }
       else case string2ll (take (n - 1) (drop (pos + 1) xs)) of
          None \<Rightarrow> do { (q, s) \<leftarrow> protocol_error i ''invalid bulk length'' pos q s; Some (Return (q, pos, s)) }
        | Some ll \<Rightarrow> if ll < 0 \<or> ll > 512 * 1024 * 1024
            then do { (q, s) \<leftarrow> protocol_error i ''invalid bulk length'' pos q s; Some (Return (q, pos, s)) }
            else read_bulklen i q pos s)"
      using p(2) n at_place_len [OF p(1)]
      by (simp add: read_bulklen_def find_cr_at [OF p(1)] Some read_bulklen_line [OF p(1) Some n] split: option.split)
    show thesis
    proof (cases "\<exists>k. xs ! pos = of_char (CHR ''$'') \<and> string2ll (take (n - 1) (drop (pos + 1) xs)) = Some (int k) \<and> k \<le> 512 * 1024 * 1024")
      case True
      then show thesis using reads Some n by blast
    next
      case False
      then have "ll < 0 \<or> ll > 512 * 1024 * 1024"
        if "xs ! pos = of_char (CHR ''$'')" "string2ll (take (n - 1) (drop (pos + 1) xs)) = Some ll" for ll
        using that by (cases ll rule: int_cases) auto
      then show thesis using e bad by (auto simp del: of_char_eq_iff split: if_splits option.splits)
    qed
  qed
qed

lemma read_bulklen_ok:
  assumes p: "at_place xs q pos"
  shows "ok (read_bulklen i q pos s) (\<lambda>f. case f of
     Continue (q', pos', s') \<Rightarrow> goes_on xs pos 0 s (q', pos', s') \<and> pr_multibulklen q' \<noteq> 0 \<and> 0 \<le> pr_bulklen q'
   | _ \<Rightarrow> stopped i xs pos s f)"
proof (cases "pr_bulklen q = - 1")
  case False
  then show ?thesis using p by (auto simp: read_bulklen_def goes_on_def at_place_def in_request_def)
next
  case True
  show ?thesis
  proof (cases rule: read_bulklen_cases [OF p True, of i s])
    case 1
    then show ?thesis using stopped_break [OF p] True by simp
  next
    case (2 msg)
    then show ?thesis using stopped_error(2) [OF p, of 0 i msg s] True by (simp add: case_prod_beta')
  next
    case (3 msg pos')
    then show ?thesis using stopped_error(1) [OF p at_place_len(3) [OF p] True, of i msg s pos'] by (simp add: case_prod_beta')
  next
    case (4 n k)
    then obtain b pos' xs' where r: "read_bulklen i q pos s = Some (Continue (q\<lparr>pr_querybuf := b, pr_bulklen := int k\<rparr>, pos', s))"
      "at_place xs' (q\<lparr>pr_querybuf := b, pr_bulklen := int k\<rparr>) pos'" "length xs' \<le> length xs"
      "drop pos' xs' = drop (pos + n + 2) xs"
      using read_bulklen_reads [OF p True 4] by blast
    have "length xs' - pos' \<le> length xs - pos" using arg_cong [OF r(4), of length] by simp
    then show ?thesis using r by (auto simp: goes_on_def at_place_def)
  qed
qed

lemma read_argument_ok:
  assumes p: "at_place xs q pos" "0 \<le> pr_bulklen q"
  shows "ok (read_argument q pos s) (\<lambda>f. case f of Continue x \<Rightarrow> goes_on xs pos 2 s x | _ \<Rightarrow> stopped i xs pos s f)"
proof -
  obtain n where n: "pr_bulklen q = int n" using p(2) by (metis nat_0_le)
  show ?thesis
  proof (cases "length xs < pos + n + 2")
    case True
    then have "hungry q xs pos" by (simp add: hungry_def n)
    then show ?thesis using read_argument_waits [OF p(1) n True] stopped_break [OF p(1)] by simp
  next
    case False
    then have l: "pos + n + 2 \<le> length xs" by simp
    obtain a b pos' xs' where r: "read_argument q pos s = Some (Continue (q\<lparr>pr_querybuf := b, pr_argv := pr_argv q @ [a],
        pr_bulklen := - 1, pr_multibulklen := pr_multibulklen q - 1\<rparr>, pos', s))"
      "sds_rep a (take n (drop pos xs))" "sds_rep b xs'" "pos' \<le> length xs'" "length xs' \<le> length xs" "drop pos' xs' = drop (pos + n + 2) xs"
      using read_argument_reads [OF p(1) n l] by blast
    have "length xs' - pos' + 2 \<le> length xs - pos" using arg_cong [OF r(6), of length] l by simp
    then show ?thesis using r p(1) by (auto simp: goes_on_def at_place_def buf_rep_def in_request_def)
  qed
qed

lemma bulk_loop_ok: "at_place xs q pos \<Longrightarrow> ok (bulk_loop i q pos s) (stopped i xs pos s)"
proof (induction "pr_multibulklen q" arbitrary: q xs pos s rule: less_induct)
  case less
  have m: "pr_multibulklen q \<noteq> 0" using less(2) by (simp add: at_place_def)
  obtain f where f: "read_bulklen i q pos s = Some f" "case f of
     Continue (q', pos', s') \<Rightarrow> goes_on xs pos 0 s (q', pos', s') \<and> pr_multibulklen q' \<noteq> 0 \<and> 0 \<le> pr_bulklen q'
   | _ \<Rightarrow> stopped i xs pos s f" using read_bulklen_ok [OF less(2), of i s] by (auto simp: ok_iff)
  show ?case
  proof (cases "\<exists>x. f = Continue x")
    case False
    then show ?thesis using f m by (subst bulk_loop.simps) (auto split: flow.splits)
  next
    case True
    then obtain q1 p1 x1 where q1: "f = Continue (q1, p1, s)" "buf_rep q1 x1" "p1 \<le> length x1" "in_request q1"
      "length x1 \<le> length xs" "length x1 - p1 \<le> length xs - pos" "pr_multibulklen q1 \<noteq> 0" "0 \<le> pr_bulklen q1"
      using f(2) by (auto simp: goes_on_def)
    have p1: "at_place x1 q1 p1" using q1 by (simp add: at_place_def)
    obtain f2 where f2: "read_argument q1 p1 s = Some f2"
      "case f2 of Continue x \<Rightarrow> goes_on x1 p1 2 s x | _ \<Rightarrow> stopped i x1 p1 s f2"
      using read_argument_ok [OF p1 q1(8), of s i] by (auto simp: ok_iff)
    have e: "bulk_loop i q pos s = (case f2 of Continue (q, pos, s) \<Rightarrow> bulk_loop i q pos s | r \<Rightarrow> Some r)"
      using f(1) f2(1) m q1(1) by (subst bulk_loop.simps) (simp split: flow.splits)
    show ?thesis
    proof (cases "\<exists>x. f2 = Continue x")
      case False
      then show ?thesis using f2(2) q1(5,6) stopped_mono unfolding e by (fastforce split: flow.splits)
    next
      case True
      then obtain q2 p2 x2 where q2: "f2 = Continue (q2, p2, s)" "buf_rep q2 x2" "p2 \<le> length x2" "in_request q2"
        "length x2 \<le> length x1" "length x2 - p2 + 2 \<le> length x1 - p1"
        using f2(2) by (auto simp: goes_on_def)
      have dec: "pr_multibulklen q2 < pr_multibulklen q"
        using f(1) q1(1) f2(1) q2(1) m read_bulklen_multibulklen read_argument_multibulklen by (metis diff_less neq0_conv zero_less_one)
      show ?thesis
      proof (cases "pr_multibulklen q2 = 0")
        case True
        then have "bulk_loop i q2 p2 s = Some (Break (q2, p2, s))" by (subst bulk_loop.simps) simp
        then show ?thesis using q1(5,6) q2 True unfolding e by (auto simp: stopped_def intro!: exI [of _ x2])
      next
        case False
        then have "ok (bulk_loop i q2 p2 s) (stopped i x2 p2 s)" using less(1) [OF dec] q2 by (simp add: at_place_def)
        then show ?thesis unfolding e q2(1) using q1(5,6) q2(5,6)
          by (auto elim!: ok_mono stopped_mono)
      qed
    qed
  qed
qed

lemma processMultibulkBuffer_ok:
  assumes q: "parser_ok q xs" "pr_reqtype q = REQ_MULTIBULK"
  shows "ok (processMultibulkBuffer i q s) (parsed i xs s)"
proof -
  have tail: "ok (do { f \<leftarrow> bulk_loop i q1 pos s;
      case f of
        Return (q, pos, s) \<Rightarrow> Some ((q, s), False)
      | Break (q, pos, s) \<Rightarrow> do {
          b \<leftarrow> (if pos \<noteq> 0 then sdsrange (pr_querybuf q) (int pos) (- 1) else Some (pr_querybuf q));
          Some ((q\<lparr>pr_querybuf := b\<rparr>, s), pr_multibulklen q = 0) }
      | Continue _ \<Rightarrow> None }) (parsed i xs s)"
    if q1: "at_place xs q1 pos" for q1 pos
  proof -
    obtain f where f: "bulk_loop i q1 pos s = Some f" "stopped i xs pos s f"
      using bulk_loop_ok [OF q1, of i s] by (auto simp: ok_iff)
    show ?thesis
    proof (cases f)
      case (Continue x)
      then show ?thesis using f(2) by (simp add: stopped_def)
    next
      case (Return x)
      then obtain q2 p2 xs' msg where x: "x = (q2, p2, closed_with i msg s)" "buf_rep q2 xs'" "pr_bulklen q2 = - 1" "length xs' \<le> length xs"
        using f(2) by (cases x) (auto simp: stopped_def)
      then have "parsed i xs s ((q2, closed_with i msg s), False)" by (auto simp: parsed_def)
      then show ?thesis using f(1) Return x(1) by simp
    next
      case (Break x)
      obtain q2 p2 s2 where x: "x = (q2, p2, s2)" by (cases x) auto
      obtain x2 where x2: "buf_rep q2 x2" "p2 \<le> length x2" "length x2 \<le> length xs" "hungry q2 x2 p2"
        "if s2 = s then in_request q2 \<and> (pr_multibulklen q2 = 0 \<longrightarrow> length x2 - p2 + 2 \<le> length xs - pos)
         else pr_multibulklen q2 \<noteq> 0 \<and> pr_bulklen q2 = - 1 \<and> (\<exists>msg. s2 = closed_with i msg s)"
        using f(2) Break x by (auto simp: stopped_def)
      have "ok (if p2 \<noteq> 0 then sdsrange (pr_querybuf q2) (int p2) (- 1) else Some (pr_querybuf q2))
          (\<lambda>b. buf_rep (q2\<lparr>pr_querybuf := b\<rparr>) (drop p2 x2))"
        using buf_rep_drop [OF x2(1,2)] x2(1) by (simp add: buf_rep_def)
      then have "ok (if p2 \<noteq> 0 then sdsrange (pr_querybuf q2) (int p2) (- 1) else Some (pr_querybuf q2))
          (\<lambda>b. parsed i xs s ((q2\<lparr>pr_querybuf := b\<rparr>, s2), pr_multibulklen q2 = 0))"
        by (rule ok_mono)
          (use x2(2-5) in \<open>auto simp: hungry_def parsed_def parser_ok_def in_request_def intro!: exI [where x = "drop p2 x2"] split: if_splits\<close>)
      then show ?thesis using f(1) Break x by simp
    qed
  qed
  show ?thesis
  proof (cases "pr_multibulklen q = 0")
    case False
    then have p: "at_place xs q 0" using q(1) by (simp add: parser_ok_def at_place_def)
    then show ?thesis using False tail [OF p] by (simp add: processMultibulkBuffer_def del: ok_if neq0_conv)
  next
    case True
    obtain r where r: "read_count i q s = Some r" "counted i xs s r"
      using read_count_ok [OF q True, of i s] by (auto simp: ok_iff)
    show ?thesis
    proof (cases r)
      case (Inl x)
      then show ?thesis using r True by (simp add: processMultibulkBuffer_def counted_def)
    next
      case (Inr x)
      then obtain q1 pos where x: "r = Inr (q1, pos)" "pr_multibulklen q1 \<noteq> 0" "at_place xs q1 pos"
        using r(2) by (cases x) (auto simp: counted_def at_place_def in_request_def)
      then show ?thesis using True r(1) tail [OF x(3)] by (simp add: processMultibulkBuffer_def del: ok_if neq0_conv)
    qed
  qed
qed

subsection \<open>All requests of the buffer\<close>

text \<open>The commands run one after the other.\<close>

fun run_all :: "('c \<Rightarrow> nat \<Rightarrow> sds list \<Rightarrow> server_state \<Rightarrow> (server_state \<times> bool) option) \<Rightarrow> nat \<Rightarrow> sds list list
    \<Rightarrow> server_state \<times> 'c list \<Rightarrow> (server_state \<times> 'c list) option" where
  "run_all run i [] st = Some st"
| "run_all run i (av # avs) (s, []) = None"
| "run_all run i (av # avs) (s, c # cs) = do { (s, _) \<leftarrow> run c i av s; run_all run i avs (s, cs) }"

text \<open>A connection is well-formed; one that is to be closed only keeps its buffer.\<close>

definition conn_ok :: "nat \<Rightarrow> parser \<Rightarrow> server_state \<Rightarrow> byte list \<Rightarrow> bool" where
  "conn_ok i q s xs \<longleftrightarrow> buf_rep q xs \<and> (if cl_close (sv_client s i) then pr_multibulklen q = 0 \<or> pr_bulklen q = - 1 else parser_ok q xs)"

definition command_args :: "sds list \<Rightarrow> bool" where
  "command_args av \<longleftrightarrow> av \<noteq> [] \<and> args_ok av"

text \<open>
  A handler whose results are all defined: a command that has none does nothing.  Whatever the parser
  does with it is its own doing.
\<close>

definition total_run :: "('c \<Rightarrow> nat \<Rightarrow> sds list \<Rightarrow> server_state \<Rightarrow> (server_state \<times> bool) option) \<Rightarrow> 'c \<Rightarrow> nat \<Rightarrow> sds list
    \<Rightarrow> server_state \<Rightarrow> (server_state \<times> bool) option" where
  "total_run run c i av s = (case run c i av s of None \<Rightarrow> Some (s, True) | Some r \<Rightarrow> Some r)"

lemma total_run_Some [simp]: "run c i av s = Some r \<Longrightarrow> total_run run c i av s = Some r"
  by (simp add: total_run_def)

lemma run_all_total: "run_all run i avs st = Some st' \<Longrightarrow> run_all (total_run run) i avs st = Some st'"
proof (induction run i avs st rule: run_all.induct)
  case (3 run i av avs s c cs)
  then obtain s1 b where "run c i av s = Some (s1, b)" "run_all run i avs (s1, cs) = Some st'" by (auto split: bind_splits)
  then show ?case using 3(1) by simp
qed simp_all

lemma run_all_length: "run_all run i avs (s, cs) = Some (s', cs') \<Longrightarrow> length cs = length avs + length cs'"
  by (induction run i avs "(s, cs)" arbitrary: s cs rule: run_all.induct) (auto split: bind_splits)

text \<open>A client that can be freed, as in every reachable state.\<close>

definition ready :: "nat \<Rightarrow> server_state \<Rightarrow> bool" where
  "ready i s \<longleftrightarrow> watch_inv s \<and> i \<in> set (sv_clients s)"

lemma ready_close: "ready i s \<Longrightarrow> ready i (closed_with i msg s)"
  by (simp add: ready_def closed_with_def)

lemma ready_free: "ready i s \<Longrightarrow> \<exists>s'. freeClient i s = Some s'"
  unfolding ready_def by (elim conjE, rule unwatchAllKeys_ok, assumption+) (simp add: freeClient_def)

text \<open>
  What processing the buffer \<open>xs\<close> amounts to: with \<open>total_run\<close> it has a result \<open>r\<close>; some commands are
  run, at most one for each byte that is consumed, and nothing else happens to the server but perhaps
  one error that closes the connection.  The result \<open>r0\<close> for the handler itself is missing exactly if
  one of these commands has none.
\<close>

definition runs_commands :: "('c \<Rightarrow> nat \<Rightarrow> sds list \<Rightarrow> server_state \<Rightarrow> (server_state \<times> bool) option) \<Rightarrow> nat \<Rightarrow> byte list
    \<Rightarrow> server_state \<Rightarrow> 'c list \<Rightarrow> sds list list \<Rightarrow> 'c input_state option \<Rightarrow> 'c input_state option \<Rightarrow> bool" where
  "runs_commands run i xs s cs avs r0 r \<longleftrightarrow> list_all command_args avs \<and>
     r0 = (if run_all run i avs (s, cs) = None then None else r) \<and>
     (\<exists>q' s' cs' s1 xs'. r = Some (q', s', cs') \<and> run_all (total_run run) i avs (s, cs) = Some (s1, cs') \<and>
        (s' = s1 \<or> (\<exists>msg. s' = closed_with i msg s1)) \<and> ready i s' \<and>
        conn_ok i q' s' xs' \<and> hungry q' xs' 0 \<and> length avs + length xs' \<le> length xs)"

lemma runs_commandsI:
  assumes "list_all command_args avs" "r0 = (if run_all run i avs (s, cs) = None then None else Some (q', s', cs'))"
    and "run_all (total_run run) i avs (s, cs) = Some (s1, cs')" "s' = s1 \<or> (\<exists>msg. s' = closed_with i msg s1)" "ready i s'"
    and "conn_ok i q' s' xs'" "hungry q' xs' 0" "length avs + length xs' \<le> length xs"
  shows "runs_commands run i xs s cs avs r0 (Some (q', s', cs'))"
  unfolding runs_commands_def using assms by blast

lemma runs_commandsE:
  assumes "runs_commands run i xs s cs avs r0 r"
  obtains q' s' cs' s1 xs' where "r = Some (q', s', cs')" "list_all command_args avs"
    "r0 = (if run_all run i avs (s, cs) = None then None else Some (q', s', cs'))"
    "run_all (total_run run) i avs (s, cs) = Some (s1, cs')" "s' = s1 \<or> (\<exists>msg. s' = closed_with i msg s1)" "ready i s'"
    "conn_ok i q' s' xs'" "hungry q' xs' 0" "length avs + length xs' \<le> length xs"
  using assms unfolding runs_commands_def by blast

lemma runs_commands_mono:
  assumes "runs_commands run i xs1 s cs avs r0 r" "length xs1 \<le> length xs"
  shows "runs_commands run i xs s cs avs r0 r"
  by (rule runs_commandsE [OF assms(1)], simp only:, rule runs_commandsI) (use assms(2) in auto)

lemma runs_commands_Cons:
  assumes "total_run run c i av s = Some (s1, b)" "command_args av" "runs_commands run i xs1 s1 cs avs r0 r"
    and "length xs1 < length xs" "r0' = (if run c i av s = None then None else r0)"
  shows "runs_commands run i xs s (c # cs) (av # avs) r0' r"
  using assms(3)
proof (rule runs_commandsE)
  fix q' s' cs' s2 xs'
  assume r: "r = Some (q', s', cs')" "list_all command_args avs"
    "r0 = (if run_all run i avs (s1, cs) = None then None else Some (q', s', cs'))"
    "run_all (total_run run) i avs (s1, cs) = Some (s2, cs')" "s' = s2 \<or> (\<exists>msg. s' = closed_with i msg s2)" "ready i s'"
    "conn_ok i q' s' xs'" "hungry q' xs' 0" "length avs + length xs' \<le> length xs1"
  have "r0' = (if run_all run i (av # avs) (s, c # cs) = None then None else Some (q', s', cs'))"
    using assms(1,5) r(3) by (cases "run c i av s") auto
  then show ?thesis unfolding r(1)
    by (rule runs_commandsI [rotated]) (use assms(1,2,4) r in auto)
qed

lemma closed_with_close: "cl_close (sv_client (closed_with i msg s) i)"
  by (simp add: closed_with_def upd_def)

lemma parsed_conn: "parsed i xs s ((q, s'), False) \<Longrightarrow>
    \<exists>xs'. conn_ok i q s' xs' \<and> hungry q xs' 0 \<and> length xs' \<le> length xs \<and> (s' = s \<or> (\<exists>msg. s' = closed_with i msg s))"
  if "\<not> cl_close (sv_client s i)"
  using closed_with_close that unfolding parsed_def conn_ok_def by fastforce

lemma reset_ok: "buf_rep q xs \<Longrightarrow> conn_ok i (resetClient i q s) s' xs"
  by (auto simp: conn_ok_def parser_ok_def resetClient_def buf_rep_def)

lemma parser_ok_reqtype:
  assumes "parser_ok q xs" "xs \<noteq> []"
  obtains ty where "request_type q = Some ty" "parser_ok (q\<lparr>pr_reqtype := ty\<rparr>) xs" "ty = REQ_INLINE \<or> ty = REQ_MULTIBULK"
proof (cases "pr_reqtype q = REQ_NONE")
  case False
  then have "ty = REQ_INLINE \<or> ty = REQ_MULTIBULK" if "ty = pr_reqtype q" for ty using that by (cases ty) auto
  moreover have "q\<lparr>pr_reqtype := pr_reqtype q\<rparr> = q" by simp
  ultimately show thesis using False that [of "pr_reqtype q"] assms by (simp add: request_type_def)
next
  case True
  then obtain rest where r: "sds_buf (pr_querybuf q) = xs @ 0 # rest" "pr_multibulklen q = 0"
    using assms(1) by (auto simp: parser_ok_def in_request_def split: if_splits elim: buf_repE)
  define ty where "ty = (if hd xs = of_char (CHR ''*'') then REQ_MULTIBULK else REQ_INLINE)"
  have "request_type q = Some ty" using True r assms(2) by (auto simp: request_type_def ty_def hd_nth)
  moreover have "parser_ok (q\<lparr>pr_reqtype := ty\<rparr>) xs"
    using assms r(2) by (auto simp: parser_ok_def buf_rep_def ty_def split: if_splits)
  ultimately show thesis using that by (simp add: ty_def)
qed

lemma conn_hungry: "\<lbrakk>conn_ok i q s xs; xs = [] \<or> cl_close (sv_client s i)\<rbrakk> \<Longrightarrow> hungry q xs 0"
  by (auto simp: conn_ok_def parser_ok_def in_request_def hungry_def split: if_splits)

locale request_handler =
  fixes run :: "'c \<Rightarrow> nat \<Rightarrow> sds list \<Rightarrow> server_state \<Rightarrow> (server_state \<times> bool) option"
  assumes stops: "run c i av s = Some (s', False) \<Longrightarrow> cl_close (sv_client s' i)"
    and keeps_ready: "\<lbrakk>run c i av s = Some (s', b); ready i s\<rbrakk> \<Longrightarrow> ready i s'"
begin

lemma total_result:
  assumes "ready i s"
  obtains s' b where "total_run run c i av s = Some (s', b)" "ready i s'" "b \<or> cl_close (sv_client s' i)"
    "run c i av s = None \<or> run c i av s = Some (s', b)"
proof (cases "run c i av s")
  case None
  then show thesis using that [of s True] assms by (simp add: total_run_def)
next
  case (Some r)
  obtain s' b where "r = (s', b)" by (cases r)
  then show thesis using that [of s' b] Some stops keeps_ready assms by (cases b) (auto simp: total_run_def)
qed

lemma input_loop_runs:
  assumes "conn_ok i q s xs" "length xs \<le> fuel" "ready i s" "length xs \<le> length cs"
  shows "\<exists>avs. runs_commands run i xs s cs avs (input_loop fuel run i (q, s, cs)) (input_loop fuel (total_run run) i (q, s, cs))"
  using assms
proof (induction fuel arbitrary: q s cs xs)
  case (Suc fuel)
  note IH = Suc(1) and c = Suc(2) and f = Suc(3) and rd = Suc(4) and enough = Suc(5)
  have len: "sdslen (pr_querybuf q) = length xs" using c by (auto simp: conn_ok_def elim: buf_repE)
  have stop: "runs_commands run i xs s cs [] (Some (q, s, cs)) (Some (q, s, cs))" if "xs = [] \<or> cl_close (sv_client s i)"
    using c rd conn_hungry [OF c that] by (auto intro: runs_commandsI)
  show ?case
  proof (cases "xs = [] \<or> pr_blocked q \<or> cl_close (sv_client s i)")
    case True
    then have "xs = [] \<or> cl_close (sv_client s i)" using c by (auto simp: conn_ok_def buf_rep_def)
    moreover have "input_loop (Suc fuel) h i (q, s, cs) = Some (q, s, cs)" for h
      using True len by (subst input_loop.simps) auto
    ultimately show ?thesis using stop by auto
  next
    case False
    then have q: "parser_ok q xs" "xs \<noteq> []" and nclose: "\<not> cl_close (sv_client s i)" using c by (auto simp: conn_ok_def)
    obtain ty where ty: "request_type q = Some ty" "parser_ok (q\<lparr>pr_reqtype := ty\<rparr>) xs" "ty = REQ_INLINE \<or> ty = REQ_MULTIBULK"
      using parser_ok_reqtype [OF q] by blast
    have "ok (if ty = REQ_INLINE then processInlineBuffer i (q\<lparr>pr_reqtype := ty\<rparr>) s
        else processMultibulkBuffer i (q\<lparr>pr_reqtype := ty\<rparr>) s) (parsed i xs s)"
      using processInlineBuffer_ok [OF ty(2), of i s] processMultibulkBuffer_ok [OF ty(2), of i s] ty(3) by auto
    then obtain q1 s1 b where p: "(if ty = REQ_INLINE then processInlineBuffer i (q\<lparr>pr_reqtype := ty\<rparr>) s
        else processMultibulkBuffer i (q\<lparr>pr_reqtype := ty\<rparr>) s) = Some ((q1, s1), b)" "parsed i xs s ((q1, s1), b)"
      by (auto simp: ok_iff)
    have e: "input_loop (Suc fuel) h i (q, s, cs) = (if \<not> b then Some (q1, s1, cs)
      else if pr_argv q1 = [] then input_loop fuel h i (resetClient i q1 s1, s1, cs)
      else case cs of [] \<Rightarrow> None
        | c # cs \<Rightarrow> do { (s, goes_on) \<leftarrow> h c i (pr_argv q1) s1;
            input_loop fuel h i (if goes_on then resetClient i q1 s else q1, s, cs) })" for h
      using False len ty(1) p(1) by (subst input_loop.simps) (auto simp: Let_def split: list.split)
    show ?thesis
    proof (cases b)
      case False
      then obtain xs' where x: "conn_ok i q1 s1 xs'" "hungry q1 xs' 0" "length xs' \<le> length xs" "s1 = s \<or> (\<exists>msg. s1 = closed_with i msg s)"
        using parsed_conn [of s i xs q1 s1] p(2) nclose by auto
      moreover have "ready i s1" using x(4) rd ready_close by auto
      ultimately have "runs_commands run i xs s cs [] (Some (q1, s1, cs)) (Some (q1, s1, cs))" by (auto intro: runs_commandsI)
      then show ?thesis using False unfolding e by auto
    next
      case True
      then obtain x1 where x1: "s1 = s" "buf_rep q1 x1" "length x1 < length xs" "args_ok (pr_argv q1)" "pr_multibulklen q1 = 0"
        using p(2) by (auto simp: parsed_def)
      then have l: "length x1 \<le> fuel" using f by simp
      show ?thesis
      proof (cases "pr_argv q1 = []")
        case nil: True
        have "conn_ok i (resetClient i q1 s) s x1" by (rule reset_ok [OF x1(2)])
        then obtain avs where "runs_commands run i x1 s cs avs (input_loop fuel run i (resetClient i q1 s, s, cs))
            (input_loop fuel (total_run run) i (resetClient i q1 s, s, cs))"
          using IH l rd enough x1(3) by fastforce
        then have "runs_commands run i xs s cs avs (input_loop fuel run i (resetClient i q1 s, s, cs))
            (input_loop fuel (total_run run) i (resetClient i q1 s, s, cs))"
          by (rule runs_commands_mono [OF _ less_imp_le [OF x1(3)]])
        then show ?thesis using nil True x1(1) unfolding e by auto
      next
        case args: False
        then have ca: "command_args (pr_argv q1)" using x1(4) by (simp add: command_args_def)
        obtain c1 cs1 where cs: "cs = c1 # cs1" using enough x1(3) by (cases cs) auto
        obtain s2 go where r: "total_run run c1 i (pr_argv q1) s = Some (s2, go)" "ready i s2" "go \<or> cl_close (sv_client s2 i)"
          "run c1 i (pr_argv q1) s = None \<or> run c1 i (pr_argv q1) s = Some (s2, go)"
          by (rule total_result [OF rd])
        let ?q = "if go then resetClient i q1 s2 else q1"
        have "conn_ok i ?q s2 x1"
          using reset_ok [OF x1(2)] x1(2,5) r(3) by (auto simp: conn_ok_def)
        moreover have "length x1 \<le> length cs1" using enough x1(3) cs by simp
        ultimately obtain avs where avs: "runs_commands run i x1 s2 cs1 avs (input_loop fuel run i (?q, s2, cs1))
            (input_loop fuel (total_run run) i (?q, s2, cs1))"
          using IH l r(2) by blast
        have "input_loop (Suc fuel) (total_run run) i (q, s, cs) = input_loop fuel (total_run run) i (?q, s2, cs1)"
          "input_loop (Suc fuel) run i (q, s, cs) =
            (if run c1 i (pr_argv q1) s = None then None else input_loop fuel run i (?q, s2, cs1))"
          unfolding e using True args cs x1(1) r(1,4) by auto
        then show ?thesis using runs_commands_Cons [OF r(1) ca avs x1(3)] unfolding cs by auto
      qed
    qed
  qed
next
  case 0
  then have "input_loop 0 h i (q, s, cs) = Some (q, s, cs)" for h
    by (subst input_loop.simps) (auto simp: conn_ok_def elim: buf_repE)
  then show ?case using 0 conn_hungry [OF 0(1)] by (auto intro!: exI [of _ "[]"] runs_commandsI)
qed

lemma processInputBuffer_runs:
  assumes "conn_ok i q s xs" "ready i s" "length xs \<le> length cs"
  shows "\<exists>avs. runs_commands run i xs s cs avs (processInputBuffer run i (q, s, cs)) (processInputBuffer (total_run run) i (q, s, cs))"
proof -
  have "sdslen (pr_querybuf q) = length xs" using assms(1) by (auto simp: conn_ok_def elim: buf_repE)
  then show ?thesis using input_loop_runs [OF assms(1) _ assms(2,3), of "length xs"] by (simp add: processInputBuffer_def)
qed

end


subsection \<open>Reading\<close>

lemma read_length_bounds:
  assumes "conn_ok i q s xs" "hungry q xs 0"
  shows "1 \<le> read_length q \<and> read_length q \<le> 1024 * 16"
proof (cases "pr_reqtype q = REQ_MULTIBULK \<and> pr_multibulklen q \<noteq> 0 \<and> pr_bulklen q \<noteq> - 1 \<and> pr_bulklen q \<ge> REDIS_MBULK_BIG_ARG")
  case False
  show ?thesis unfolding read_length_def if_not_P [OF False] by simp
next
  case True
  then obtain n where n: "pr_bulklen q = int n" by (metis nat_0_le order_trans zero_le_numeral zero_le_mult_iff)
  have l: "length xs < n + 2" "n \<le> 512 * 1024 * 1024" "sdslen (pr_querybuf q) = length xs"
    using True n assms by (auto simp: hungry_def conn_ok_def parser_ok_def in_request_def elim!: buf_repE split: if_splits)
  have "to_uint32 (int n + 2) = n + 2" using l(2) by (simp add: c_arith nat_add_distrib)
  moreover have "to_size (int (n + 2) - int (length xs)) = n + 2 - length xs" using l by (intro to_size_diff) auto
  moreover have "to_int32 (int (n + 2 - length xs)) = int (n + 2 - length xs)" using l by (intro to_int32_in_range) auto
  ultimately have "read_length q = (if int (n + 2 - length xs) < REDIS_IOBUF_LEN then int (n + 2 - length xs) else REDIS_IOBUF_LEN)"
    using True n l(3) unfolding read_length_def if_P [OF True] by (simp only: Let_def)
  then show ?thesis using l(1) by auto
qed

lemma read_bytes:
  assumes "conn_ok i q s xs" "hungry q xs 0" "bs \<noteq> []" "int (length bs) \<le> read_length q" "maxlen \<le> querybuf_max"
  shows "\<exists>b. sds_rep b (xs @ bs) \<and> (\<forall>run. readQueryFromClient run maxlen i (ReadBytes bs) (q, s, cs) =
    (if length xs + length bs > maxlen then map_option Inl (freeClient i s)
     else map_option Inr (processInputBuffer run i (q\<lparr>pr_querybuf := b\<rparr>, s, cs))))"
proof -
  note rl = read_length_bounds [OF assms(1,2)]
  define n where "n = nat (read_length q)"
  have n: "read_length q = int n" "length bs \<le> n" "n \<le> 2 ^ 14" "to_size (read_length q) = n"
    using rl assms(4) by (auto simp: n_def c_arith)
  have b: "sds_rep (pr_querybuf q) xs" "length xs \<le> querybuf_max" "sdslen (pr_querybuf q) = length xs"
    using assms(1) by (auto simp: conn_ok_def elim: buf_repE)
  obtain u v where m: "sds_buf (sdsMakeRoomFor (pr_querybuf q) n) = xs @ 0 # u @ v" "length u = n"
    "sds_len (sdsMakeRoomFor (pr_querybuf q) n) = int (length xs)"
    "sds_free (sdsMakeRoomFor (pr_querybuf q) n) = int (n + length v)" "length xs + n + length v < 2 ^ 31"
    using sdsMakeRoomFor_split [OF b(1), of n] b(2) n(3) by auto
  define r where "r = drop (length bs) (0 # u)"
  have r: "0 # u = take (length bs) (0 # u) @ r" "length r = n + 1 - length bs" using m(2) n(2) by (simp_all add: r_def)
  then obtain c r' where c: "r = c # r'" using n(2) by (cases r) auto
  have w: "mem_write (length xs) bs (xs @ 0 # u @ v) = Some (xs @ bs @ r @ v)"
    using mem_write_at [of xs "length xs" "take (length bs) (0 # u)" bs "r @ v"] m(2) n(2) r(1)
    by (metis append.assoc append_Cons length_Cons length_take min.absorb2 le_SucI)
  have len: "length r' = n - length bs" using r(2) c n(2) by simp
  obtain b' where b': "sdsIncrLen (sdsMakeRoomFor (pr_querybuf q) n\<lparr>sds_buf := xs @ bs @ r @ v\<rparr>) (int (length bs)) = Some b'"
    "sds_rep b' (xs @ bs)"
    using sdsIncrLen_rep [of "sdsMakeRoomFor (pr_querybuf q) n\<lparr>sds_buf := xs @ bs @ r @ v\<rparr>" xs bs c "r' @ v"] m c len n(2) by auto
  have "sdslen b' = length xs + length bs" using sdslen_correct [OF b'(2)] by simp
  then show ?thesis using b' w assms(3) n b(3) m(1)
    by (intro exI [of _ b']) (simp add: readQueryFromClient_def Let_def)
qed

lemma conn_ok_append:
  assumes "conn_ok i q s xs" "sds_rep b (xs @ bs)" "length xs + length bs \<le> querybuf_max"
  shows "conn_ok i (q\<lparr>pr_querybuf := b\<rparr>) s (xs @ bs)"
  using assms by (auto simp: conn_ok_def parser_ok_def buf_rep_def in_request_def split: if_splits)

text \<open>The commands run, and perhaps an error that closes the connection.\<close>

definition server_runs :: "('c \<Rightarrow> nat \<Rightarrow> sds list \<Rightarrow> server_state \<Rightarrow> (server_state \<times> bool) option) \<Rightarrow> nat \<Rightarrow> sds list list
    \<Rightarrow> server_state \<times> 'c list \<Rightarrow> server_state \<times> 'c list \<Rightarrow> bool" where
  "server_runs run i avs st st' \<longleftrightarrow>
     (\<exists>s1. run_all run i avs st = Some (s1, snd st') \<and> (fst st' = s1 \<or> (\<exists>msg. fst st' = closed_with i msg s1)))"

text \<open>
  What the delivery of \<open>n\<close> bytes, those left in the buffer included, amounts to with \<open>total_run\<close>:
  commands are run, at most one for each byte, perhaps followed by one error.  The connection is
  well-formed afterwards, or its client has been freed because its buffer grew too long.
\<close>

definition delivers :: "('c \<Rightarrow> nat \<Rightarrow> sds list \<Rightarrow> server_state \<Rightarrow> (server_state \<times> bool) option) \<Rightarrow> nat \<Rightarrow> server_state
    \<Rightarrow> 'c list \<Rightarrow> nat \<Rightarrow> sds list list \<Rightarrow> server_state + 'c input_state \<Rightarrow> bool" where
  "delivers run i s cs n avs r \<longleftrightarrow> list_all command_args avs \<and> length avs \<le> n \<and>
     (case r of
        Inl s' \<Rightarrow> \<exists>s1 cs1. server_runs (total_run run) i avs (s, cs) (s1, cs1) \<and> freeClient i s1 = Some s'
      | Inr (q', s', cs') \<Rightarrow> server_runs (total_run run) i avs (s, cs) (s', cs') \<and> ready i s' \<and>
          length avs + sdslen (pr_querybuf q') \<le> n \<and> (\<exists>xs'. conn_ok i q' s' xs' \<and> hungry q' xs' 0))"

text \<open>The result for the handler itself is missing exactly if one of the commands has none.\<close>

abbreviation undone where
  "undone run i avs st r \<equiv> if run_all run i avs st = None then None else Some r"

lemma run_all_append:
  "run_all run i (avs @ avs') st = do { st \<leftarrow> run_all run i avs st; run_all run i avs' st }"
proof (induction run i avs st rule: run_all.induct)
  case (3 run i av avs s c cs)
  then show ?case by (cases "run c i av s") (auto split: prod.split)
qed simp_all

lemma processInputBuffer_closed:
  "cl_close (sv_client s i) \<Longrightarrow> processInputBuffer run i (q, s, cs) = Some (q, s, cs)"
  by (simp add: processInputBuffer_def input_loop.simps)

text \<open>A connection that is to be closed takes no more commands.\<close>

definition stays :: "nat \<Rightarrow> server_state \<Rightarrow> 'c list \<Rightarrow> nat \<Rightarrow> server_state + 'c input_state \<Rightarrow> bool" where
  "stays i s cs n r \<longleftrightarrow>
     (case r of
        Inl s' \<Rightarrow> freeClient i s = Some s'
      | Inr (q', s', cs') \<Rightarrow> s' = s \<and> cs' = cs \<and> sdslen (pr_querybuf q') \<le> n \<and> (\<exists>xs'. conn_ok i q' s' xs' \<and> hungry q' xs' 0))"

lemma stays_mono: "\<lbrakk>stays i s cs n r; n \<le> m\<rbrakk> \<Longrightarrow> stays i s cs m r"
  by (cases r) (auto simp: stays_def dest: le_trans)

lemma stays_delivers:
  assumes "server_runs (total_run run) i avs (s0, cs0) (s, cs)" "list_all command_args avs" "ready i s"
    and "length avs + k \<le> n" "stays i s cs k r"
  shows "delivers run i s0 cs0 n avs r"
  using assms by (cases r) (auto simp: stays_def delivers_def)

lemma delivers_append:
  assumes "run_all (total_run run) i avs (s0, cs0) = Some (s, cs)" "list_all command_args avs"
    and "delivers run i s cs k avs' r" "length avs + k \<le> n"
  shows "delivers run i s0 cs0 n (avs @ avs') r"
proof -
  have e: "server_runs (total_run run) i (avs @ avs') (s0, cs0) st = server_runs (total_run run) i avs' (s, cs) st" for st
    using assms(1) by (auto simp: run_all_append server_runs_def)
  show ?thesis using assms(2-4) unfolding delivers_def e by (cases r) (auto split: prod.splits)
qed

text \<open>The results \<open>r0\<close> of the handler and \<open>r\<close> of \<open>total_run\<close>.\<close>

definition good_result :: "('c \<Rightarrow> nat \<Rightarrow> sds list \<Rightarrow> server_state \<Rightarrow> (server_state \<times> bool) option) \<Rightarrow> nat \<Rightarrow> server_state
    \<Rightarrow> 'c list \<Rightarrow> nat \<Rightarrow> (server_state + 'c input_state) option \<Rightarrow> (server_state + 'c input_state) option \<Rightarrow> bool" where
  "good_result run i s cs n r0 r \<longleftrightarrow> (\<exists>x. r = Some x \<and>
     (if cl_close (sv_client s i) then stays i s cs n x \<and> r0 = Some x
      else \<exists>avs. delivers run i s cs n avs x \<and> r0 = undone run i avs (s, cs) x))"

lemma server_runs_length: "server_runs run i avs (s, cs) (s', cs') \<Longrightarrow> length cs = length avs + length cs'"
  by (auto simp: server_runs_def dest: run_all_length)

lemma good_result_next:
  assumes "good_result run i s cs n r0 (Some (Inr (q1, s1, cs1)))" "ready i s"
  shows "\<exists>xs. conn_ok i q1 s1 xs \<and> hungry q1 xs 0" "ready i s1" "length cs + sdslen (pr_querybuf q1) \<le> length cs1 + n"
    "r0 = None \<or> r0 = Some (Inr (q1, s1, cs1))"
proof -
  show "\<exists>xs. conn_ok i q1 s1 xs \<and> hungry q1 xs 0" "ready i s1"
    using assms by (auto simp: good_result_def delivers_def stays_def split: if_splits)
  show "length cs + sdslen (pr_querybuf q1) \<le> length cs1 + n"
    using assms(1) by (auto simp: good_result_def delivers_def stays_def dest!: server_runs_length split: if_splits)
  show "r0 = None \<or> r0 = Some (Inr (q1, s1, cs1))"
    using assms(1) by (cases "cl_close (sv_client s i)") (auto simp: good_result_def split: if_split_asm)
qed

lemma delivers_mono: "\<lbrakk>delivers run i s cs n avs r; n \<le> m\<rbrakk> \<Longrightarrow> delivers run i s cs m avs r"
  by (cases r) (auto simp: delivers_def)

lemma good_result_more: "\<lbrakk>good_result run i s cs n r0 r; n \<le> m\<rbrakk> \<Longrightarrow> good_result run i s cs m r0 r"
  using stays_mono delivers_mono unfolding good_result_def by (metis (no_types))

lemma good_result_trans:
  assumes "good_result run i s cs n r0 (Some (Inr (q1, s1, cs1)))" "ready i s"
    and "good_result run i s1 cs1 (sdslen (pr_querybuf q1) + m) r1 r"
  shows "good_result run i s cs (n + m) (if r0 = None then None else r1) r"
proof (cases "cl_close (sv_client s i)")
  case True
  then have x: "s1 = s" "cs1 = cs" "sdslen (pr_querybuf q1) \<le> n" "r0 \<noteq> None"
    using assms(1) by (auto simp: good_result_def stays_def)
  then obtain y where "r = Some y" "stays i s cs (sdslen (pr_querybuf q1) + m) y" "r1 = Some y"
    using assms(3) True by (auto simp: good_result_def)
  then show ?thesis using True x(3,4) by (auto simp: good_result_def intro: stays_mono)
next
  case False
  then obtain avs where sr: "server_runs (total_run run) i avs (s, cs) (s1, cs1)" "list_all command_args avs"
    "length avs + sdslen (pr_querybuf q1) \<le> n" "r0 = undone run i avs (s, cs) (Inr (q1, s1, cs1))"
    using assms(1) by (auto simp: good_result_def delivers_def)
  note rd = good_result_next(2) [OF assms(1,2)]
  show ?thesis
  proof (cases "cl_close (sv_client s1 i)")
    case True
    then obtain y where y: "r = Some y" "stays i s1 cs1 (sdslen (pr_querybuf q1) + m) y" "r1 = Some y"
      using assms(3) by (auto simp: good_result_def)
    have "delivers run i s cs (n + m) avs y"
      by (rule stays_delivers [OF sr(1,2) rd _ y(2)]) (use sr(3) in simp)
    then show ?thesis using False sr(4) y(1,3) by (auto simp: good_result_def)
  next
    case nc: False
    then have ra: "run_all (total_run run) i avs (s, cs) = Some (s1, cs1)"
      using sr(1) closed_with_close by (auto simp: server_runs_def)
    obtain avs' y where y: "r = Some y" "delivers run i s1 cs1 (sdslen (pr_querybuf q1) + m) avs' y"
      "r1 = undone run i avs' (s1, cs1) y"
      using assms(3) nc by (auto simp: good_result_def)
    have d: "delivers run i s cs (n + m) (avs @ avs') y"
      by (rule delivers_append [OF ra sr(2) y(2)]) (use sr(3) in simp)
    have "(if r0 = None then None else r1) = undone run i (avs @ avs') (s, cs) y"
    proof (cases "run_all run i avs (s, cs)")
      case None
      then show ?thesis by (simp add: sr(4) run_all_append)
    next
      case (Some st)
      then have "st = (s1, cs1)" using run_all_total [OF Some] ra by simp
      then show ?thesis using Some by (simp add: sr(4) y(3) run_all_append)
    qed
    then show ?thesis using False d y(1) by (auto simp: good_result_def)
  qed
qed

context request_handler begin

lemma read_runs:
  assumes "conn_ok i q s xs" "hungry q xs 0" "bs \<noteq> []" "int (length bs) \<le> read_length q" "maxlen \<le> querybuf_max"
    and "ready i s" "length xs + length bs \<le> length cs"
  shows "good_result run i s cs (length xs + length bs) (readQueryFromClient run maxlen i (ReadBytes bs) (q, s, cs))
    (readQueryFromClient (total_run run) maxlen i (ReadBytes bs) (q, s, cs))"
proof -
  obtain b where b: "sds_rep b (xs @ bs)" "\<And>h. readQueryFromClient h maxlen i (ReadBytes bs) (q, s, cs) =
    (if length xs + length bs > maxlen then map_option Inl (freeClient i s)
     else map_option Inr (processInputBuffer h i (q\<lparr>pr_querybuf := b\<rparr>, s, cs)))"
    using read_bytes [OF assms(1-5)] by blast
  have len: "sdslen b = length xs + length bs" using sdslen_correct [OF b(1)] by simp
  show ?thesis
  proof (cases "length xs + length bs > maxlen")
    case True
    obtain s' where s': "freeClient i s = Some s'" using ready_free [OF assms(6)] by blast
    then have "stays i s cs (length xs + length bs) (Inl s')" by (simp add: stays_def)
    moreover have "delivers run i s cs (length xs + length bs) [] (Inl s')"
      using s' by (auto simp: delivers_def server_runs_def)
    ultimately show ?thesis unfolding b(2) if_P [OF True]
      using s' by (auto simp: good_result_def intro!: exI [of _ "[]"])
  next
    case False
    then have c: "conn_ok i (q\<lparr>pr_querybuf := b\<rparr>) s (xs @ bs)"
      using conn_ok_append [OF assms(1) b(1)] assms(5) by simp
    show ?thesis
    proof (cases "cl_close (sv_client s i)")
      case True
      then have "stays i s cs (length xs + length bs) (Inr (q\<lparr>pr_querybuf := b\<rparr>, s, cs))"
        using c conn_hungry [OF c] len by (auto simp: stays_def)
      then show ?thesis unfolding b(2) using False True by (simp add: good_result_def processInputBuffer_closed)
    next
      case nc: False
      obtain avs where "runs_commands run i (xs @ bs) s cs avs (processInputBuffer run i (q\<lparr>pr_querybuf := b\<rparr>, s, cs))
          (processInputBuffer (total_run run) i (q\<lparr>pr_querybuf := b\<rparr>, s, cs))"
        using processInputBuffer_runs [OF c assms(6), of cs] assms(7) by auto
      then show ?thesis
      proof (rule runs_commandsE)
        fix q' s' cs' s1 xs'
        assume r: "processInputBuffer (total_run run) i (q\<lparr>pr_querybuf := b\<rparr>, s, cs) = Some (q', s', cs')" "list_all command_args avs"
          "processInputBuffer run i (q\<lparr>pr_querybuf := b\<rparr>, s, cs) =
            (if run_all run i avs (s, cs) = None then None else Some (q', s', cs'))"
          "run_all (total_run run) i avs (s, cs) = Some (s1, cs')" "s' = s1 \<or> (\<exists>msg. s' = closed_with i msg s1)" "ready i s'"
          "conn_ok i q' s' xs'" "hungry q' xs' 0" "length avs + length xs' \<le> length (xs @ bs)"
        have "sdslen (pr_querybuf q') = length xs'" using r(7) by (auto simp: conn_ok_def elim: buf_repE)
        then have "delivers run i s cs (length xs + length bs) avs (Inr (q', s', cs'))"
          using r(2,4-9) by (auto simp: delivers_def server_runs_def)
        then show ?thesis unfolding b(2) if_not_P [OF False] r(1,3) using nc by (auto simp: good_result_def)
      qed
    qed
  qed
qed

lemma good_result_stop:
  assumes "conn_ok i q s xs" "hungry q xs 0" "ready i s"
  shows "good_result run i s cs (length xs) (Some (Inr (q, s, cs))) (Some (Inr (q, s, cs)))"
proof -
  have "sdslen (pr_querybuf q) = length xs" using assms(1) by (auto simp: conn_ok_def elim: buf_repE)
  then have "stays i s cs (length xs) (Inr (q, s, cs))" "delivers run i s cs (length xs) [] (Inr (q, s, cs))"
    using assms by (auto simp: stays_def delivers_def server_runs_def)
  then show ?thesis by (auto simp: good_result_def intro!: exI [of _ "[]"])
qed

lemma deliver_runs:
  assumes "maxlen \<le> querybuf_max" "conn_ok i q s xs" "hungry q xs 0" "ready i s" "length xs + length data \<le> length cs"
  shows "good_result run i s cs (length xs + length data) (deliver run maxlen i data (q, s, cs))
    (deliver (total_run run) maxlen i data (q, s, cs))"
  using assms(2-)
proof (induction "length data" arbitrary: data q s cs xs rule: less_induct)
  case less
  show ?case
  proof (cases "data = []")
    case True
    then show ?thesis using good_result_stop [OF less(2-4), of cs] by (subst (1 2) deliver.simps) simp
  next
    case False
    note rl = read_length_bounds [OF less(2,3)]
    define n where "n = nat (read_length q)"
    have n: "n \<noteq> 0" "int (length (take n data)) \<le> read_length q" using rl by (auto simp: n_def)
    have g: "good_result run i s cs (length xs + length (take n data))
        (readQueryFromClient run maxlen i (ReadBytes (take n data)) (q, s, cs))
        (readQueryFromClient (total_run run) maxlen i (ReadBytes (take n data)) (q, s, cs))"
      by (rule read_runs [OF less(2,3) _ n(2) assms(1) less(4)]) (use False n(1) less(5) in auto)
    have e: "deliver h maxlen i data (q, s, cs) = (case readQueryFromClient h maxlen i (ReadBytes (take n data)) (q, s, cs) of
        Some (Inr st) \<Rightarrow> deliver h maxlen i (drop n data) st | r \<Rightarrow> r)" for h
      using False n(1) unfolding n_def by (subst deliver.simps) (simp add: Let_def)
    obtain r where r: "readQueryFromClient (total_run run) maxlen i (ReadBytes (take n data)) (q, s, cs) = Some r"
      using g by (auto simp: good_result_def)
    show ?thesis
    proof (cases r)
      case (Inl s')
      have "deliver run maxlen i data (q, s, cs) = readQueryFromClient run maxlen i (ReadBytes (take n data)) (q, s, cs)"
        "deliver (total_run run) maxlen i data (q, s, cs) = Some (Inl s')"
        using g unfolding e r Inl by (auto simp: good_result_def split: if_splits)
      then show ?thesis using good_result_more [OF g [unfolded r Inl], of "length xs + length data"] by simp
    next
      case (Inr st)
      obtain q1 s1 cs1 where st: "st = (q1, s1, cs1)" by (cases st)
      note g' = g [unfolded r Inr st]
      obtain x1 where x1: "conn_ok i q1 s1 x1" "hungry q1 x1 0" using good_result_next(1) [OF g' less(4)] by blast
      have l: "sdslen (pr_querybuf q1) = length x1" using x1(1) by (auto simp: conn_ok_def elim: buf_repE)
      have "good_result run i s1 cs1 (length x1 + length (drop n data)) (deliver run maxlen i (drop n data) (q1, s1, cs1))
          (deliver (total_run run) maxlen i (drop n data) (q1, s1, cs1))"
        by (rule less(1) [OF _ x1 good_result_next(2) [OF g' less(4)]])
          (use n(1) False good_result_next(3) [OF g' less(4)] less(5) l in auto)
      from good_result_trans [OF g' less(4) this [folded l]] show ?thesis
        using good_result_next(4) [OF g' less(4)] unfolding e r Inr st by (auto simp: min_def split: if_splits)
    qed
  qed
qed

lemma deliver_all_runs:
  assumes "maxlen \<le> querybuf_max" "conn_ok i q s xs" "hungry q xs 0" "ready i s" "length xs + length (concat chunks) \<le> length cs"
  shows "good_result run i s cs (length xs + length (concat chunks)) (deliver_all run maxlen i chunks (q, s, cs))
    (deliver_all (total_run run) maxlen i chunks (q, s, cs))"
  using assms(2-)
proof (induction chunks arbitrary: q s cs xs)
  case Nil
  then show ?case using good_result_stop [OF Nil(1-3), of cs] by simp
next
  case (Cons data chunks)
  have "length xs + length data \<le> length cs" using Cons(5) by simp
  note g = deliver_runs [OF assms(1) Cons(2-4) this]
  obtain r where r: "deliver (total_run run) maxlen i data (q, s, cs) = Some r" using g by (auto simp: good_result_def)
  show ?case
  proof (cases r)
    case (Inl s')
    have "deliver_all run maxlen i (data # chunks) (q, s, cs) = deliver run maxlen i data (q, s, cs)"
      using g unfolding r Inl by (auto simp: good_result_def split: if_splits)
    then show ?thesis using good_result_more [OF g [unfolded r Inl]] Inl by (simp add: r)
  next
    case (Inr st)
    obtain q1 s1 cs1 where st: "st = (q1, s1, cs1)" by (cases st)
    note g' = g [unfolded r Inr st]
    obtain x1 where x1: "conn_ok i q1 s1 x1" "hungry q1 x1 0" using good_result_next(1) [OF g' Cons(4)] by blast
    have l: "sdslen (pr_querybuf q1) = length x1" using x1(1) by (auto simp: conn_ok_def elim: buf_repE)
    have "good_result run i s1 cs1 (length x1 + length (concat chunks)) (deliver_all run maxlen i chunks (q1, s1, cs1))
        (deliver_all (total_run run) maxlen i chunks (q1, s1, cs1))"
      by (rule Cons(1) [OF x1 good_result_next(2) [OF g' Cons(4)]]) (use good_result_next(3) [OF g' Cons(4)] Cons(5) l in auto)
    from good_result_trans [OF g' Cons(4) this [folded l]] show ?thesis
      using good_result_next(4) [OF g' Cons(4)] by (auto simp: r Inr st add.assoc split: if_splits)
  qed
qed

lemma fresh_input_runs:
  assumes "createParser = Some q" "maxlen \<le> querybuf_max" "ready i s" "length (concat chunks) \<le> length cs"
  shows "\<exists>avs r. deliver_all (total_run run) maxlen i chunks (q, s, cs) = Some r \<and>
    delivers run i s cs (length (concat chunks)) avs r \<and>
    deliver_all run maxlen i chunks (q, s, cs) = undone run i avs (s, cs) r"
proof -
  obtain b where b: "sdsempty = Some b" "sds_rep b []" using sdsempty_rep by blast
  have "q = \<lparr>pr_querybuf = b, pr_reqtype = REQ_NONE, pr_multibulklen = 0, pr_bulklen = - 1, pr_room = 0,
           pr_argv = [], pr_blocked = False, pr_asking = False\<rparr>" using assms(1) unfolding createParser_def b(1) by simp
  then have "conn_ok i q s []" "hungry q [] 0"
    using b(2) by (auto simp: conn_ok_def parser_ok_def buf_rep_def)
  from deliver_all_runs [OF assms(2) this assms(3), of chunks cs]
  obtain r where r: "deliver_all (total_run run) maxlen i chunks (q, s, cs) = Some r"
    "if cl_close (sv_client s i) then stays i s cs (length (concat chunks)) r \<and> deliver_all run maxlen i chunks (q, s, cs) = Some r
     else \<exists>avs. delivers run i s cs (length (concat chunks)) avs r \<and>
       deliver_all run maxlen i chunks (q, s, cs) = undone run i avs (s, cs) r"
    using assms(4) by (auto simp: good_result_def)
  show ?thesis
  proof (cases "cl_close (sv_client s i)")
    case True
    have "delivers run i s cs (length (concat chunks)) [] r"
      by (rule stays_delivers [where k = "length (concat chunks)"]) (use r(2) True assms(3) in \<open>auto simp: server_runs_def\<close>)
    then show ?thesis using r True by (intro exI [of _ "[]"] exI [of _ r]) simp
  qed (use r in auto)
qed

end

end
