(* ===== verification/ProtoRead.thy ===== *)
theory ProtoRead
  imports ProtoSafe Reach
begin

text \<open>
  The round trip of the protocol: requests as clients write them, and the parser as their reader.  The
  invariant \<open>expects\<close> says which requests are still to come, from the buffer and from the bytes that
  have not arrived yet.  The locale \<open>request_runner\<close> is interpreted on \<open>processCommand\<close>.
\<close>

section \<open>Requests are read back\<close>

text \<open>A request as clients write it.\<close>

definition encode_arg :: "byte list \<Rightarrow> byte list" where
  "encode_arg a = of_char (CHR ''$'') # dec (length a) @ CR # LF # a @ [CR, LF]"

definition encode_request :: "byte list list \<Rightarrow> byte list" where
  "encode_request r = of_char (CHR ''*'') # dec (length r) @ CR # LF # concat (map encode_arg r)"

definition valid_request :: "byte list list \<Rightarrow> bool" where
  "valid_request r \<longleftrightarrow> r \<noteq> [] \<and> length r \<le> 1024 * 1024 \<and> (\<forall>a \<in> set r. length a \<le> 512 * 1024 * 1024)"

lemma dec_no_CR: "CR \<notin> set (dec n)" "0 \<notin> set (dec n)"
  using dec_digits [of n] by (auto simp: is_digit_def)

lemma string2ll_dec: "k < 2 ^ 63 \<Longrightarrow> string2ll (dec k) = Some (int k)"
  using string2ll_dec_int [of "int k"] by (simp add: dec_int_def in_sbytes_def)

lemma length_dec_small: "k < 10 ^ 10 \<Longrightarrow> length (dec k) \<le> 10"
  using length_dec [of k 9] by simp

text \<open>A line with a number is there completely, or more has to be read.\<close>

lemma header_cases:
  assumes "t @ rest = c # dec n @ CR # LF # after" "c \<noteq> CR" "c \<noteq> 0"
  obtains (complete) u where "t = c # dec n @ CR # LF # u" "u @ rest = after"
  | (partial) "case cr_index t of None \<Rightarrow> True | Some m \<Rightarrow> length t < m + 2" "rest \<noteq> []" "length t < length (dec n) + 3"
proof -
  define h where "h = c # dec n @ [CR, LF]"
  have e: "t @ rest = h @ after" using assms(1) by (simp add: h_def)
  show thesis
  proof (cases "length h \<le> length t")
    case True
    then obtain u where "t = h @ u" "u @ rest = after" using e by (auto simp: append_eq_append_conv2)
    then show thesis using complete by (simp add: h_def)
  next
    case False
    then obtain v where v: "h = t @ v" "rest = v @ after" "v \<noteq> []" using e by (auto simp: append_eq_append_conv2)
    have l: "length t < length (dec n) + 3" using False by (simp add: h_def)
    have "case cr_index t of None \<Rightarrow> True | Some m \<Rightarrow> length t < m + 2"
    proof (cases "length t \<le> length (dec n) + 1")
      case True
      then have "t = take (length t) (c # dec n)" using v(1) by (simp add: h_def) (metis append_Cons append_eq_append_conv_if append_eq_conv_conj length_Cons take_Cons' )
      then have "set t \<subseteq> set (c # dec n)" by (metis set_take_subset)
      then have "CR \<notin> set t" using assms(2) dec_no_CR by auto
      then show ?thesis using cr_index_None by simp
    next
      case False
      then have "length v = 1" using l arg_cong [OF v(1), of length] by (simp add: h_def)
      then have "t = butlast h" using v(1) by (cases v) (auto simp: butlast_append)
      then have t: "t = (c # dec n) @ CR # []" by (simp add: h_def butlast_append)
      have "cr_index t = Some (length (c # dec n))" unfolding t using assms(2,3) dec_no_CR by (intro cr_index_append) auto
      then show ?thesis using t by simp
    qed
    then show thesis using partial v l by simp
  qed
qed

lemma header_number:
  assumes "t = c # dec n @ CR # LF # u" "c \<noteq> CR" "c \<noteq> 0" "n < 2 ^ 63"
  shows "cr_index t = Some (length (dec n) + 1)" "t ! 0 = c" "string2ll (take (length (dec n)) (drop 1 t)) = Some (int n)"
    "drop (length (dec n) + 3) t = u" "length (dec n) + 3 \<le> length t"
  using assms dec_no_CR [of n] cr_index_append [of "c # dec n" "LF # u"] by (auto simp: string2ll_dec numeral_3_eq_3)

text \<open>
  A connection in the middle of the request \<open>r\<close>, of which the arguments \<open>as\<close> are to come; the bytes of
  the first of them may already be known to be next.
\<close>

definition midway :: "parser \<Rightarrow> byte list list \<Rightarrow> byte list list \<Rightarrow> bool" where
  "midway q r as \<longleftrightarrow> (\<exists>ds. r = ds @ as \<and> list_all2 sds_rep (pr_argv q) ds) \<and> length as = pr_multibulklen q \<and>
     (as \<noteq> [] \<and> pr_bulklen q = int (length (hd as)) \<or> pr_bulklen q = - 1)"

definition to_come :: "parser \<Rightarrow> byte list list \<Rightarrow> byte list" where
  "to_come q as = (if pr_bulklen q = - 1 then concat (map encode_arg as)
     else hd as @ CR # LF # concat (map encode_arg (tl as)))"

text \<open>How many bytes the buffer holds.\<close>

definition bounded :: "parser \<Rightarrow> byte list \<Rightarrow> nat \<Rightarrow> bool" where
  "bounded q xs pos \<longleftrightarrow> length xs \<le> REDIS_INLINE_MAX_SIZE \<or>
     pos = 0 \<and> pr_multibulklen q \<noteq> 0 \<and> pr_bulklen q \<ge> REDIS_MBULK_BIG_ARG \<and> int (length xs) \<le> pr_bulklen q + 2"

definition few :: "parser \<Rightarrow> byte list \<Rightarrow> bool" where
  "few q t \<longleftrightarrow> (if pr_multibulklen q = 0 \<or> pr_bulklen q = - 1 then length t \<le> 32 else int (length t) < pr_bulklen q + 2)"

lemma midway_argument:
  assumes m: "midway q r as" and p: "at_place xs q pos" and n: "pr_bulklen q \<noteq> - 1"
    and t: "drop pos xs @ rest = to_come q as @ after" and b: "bounded q xs pos"
  obtains (waits) "read_argument q pos s = Some (Break (q, pos, s))" "rest \<noteq> []" "few q (drop pos xs)"
  | (reads) q' pos' xs' where "read_argument q pos s = Some (Continue (q', pos', s))" "buf_rep q' xs'" "pos' \<le> length xs'"
      "in_request q'" "midway q' r (tl as)" "pr_bulklen q' = - 1" "pr_multibulklen q' < pr_multibulklen q"
      "drop pos' xs' @ rest = to_come q' (tl as) @ after" "bounded q' xs' pos'"
proof -
  obtain a as' where as: "as = a # as'" "pr_bulklen q = int (length a)" using m n by (cases as) (auto simp: midway_def)
  have t': "drop pos xs @ rest = a @ CR # LF # concat (map encode_arg as') @ after" using t as n by (simp add: to_come_def)
  have pos: "pos \<le> length xs" "pr_multibulklen q \<noteq> 0" using p by (auto simp: at_place_def)
  show thesis
  proof (cases "length xs < pos + length a + 2")
    case True
    have "read_argument q pos s = Some (Break (q, pos, s))" by (rule read_argument_waits [OF p as(2) True])
    moreover have "rest \<noteq> []" using arg_cong [OF t', of length] True pos(1) by auto
    moreover have "few q (drop pos xs)" using True as(2) pos by (auto simp: few_def)
    ultimately show thesis by (rule waits)
  next
    case False
    then have l: "pos + length a + 2 \<le> length xs" by simp
    obtain x b' pos' xs' where r: "read_argument q pos s = Some (Continue (q\<lparr>pr_querybuf := b', pr_argv := pr_argv q @ [x],
        pr_bulklen := - 1, pr_multibulklen := pr_multibulklen q - 1\<rparr>, pos', s))"
      "sds_rep x (take (length a) (drop pos xs))" "sds_rep b' xs'" "pos' \<le> length xs'" "length xs' \<le> length xs"
      "drop pos' xs' = drop (pos + length a + 2) xs"
      "pos = 0 \<and> int (length a) \<ge> REDIS_MBULK_BIG_ARG \<and> length xs = length a + 2 \<longrightarrow> xs' = []"
      using read_argument_reads [OF p as(2) l] by blast
    let ?q = "q\<lparr>pr_querybuf := b', pr_argv := pr_argv q @ [x], pr_bulklen := - 1, pr_multibulklen := pr_multibulklen q - 1\<rparr>"
    obtain u where u: "drop pos xs = a @ u" "u @ rest = CR # LF # concat (map encode_arg as') @ after"
      using t' l by (auto simp: append_eq_append_conv2)
    have "length u \<ge> 2" using arg_cong [OF u(1), of length] l by simp
    then obtain c d v where v: "u = c # d # v" by (cases u; cases "tl u") auto
    then have "drop (pos + length a + 2) xs = v" using arg_cong [OF u(1), of "drop (length a + 2)"]
      by (simp add: add.commute add.left_commute numeral_2_eq_2)
    then have d: "drop pos' xs' @ rest = to_come ?q as' @ after" using r(6) u(2) v by (simp add: to_come_def)
    have "sds_rep x a" using r(2) u(1) by simp
    then have m': "midway ?q r (tl as)" using m as by (auto simp: midway_def intro!: list_all2_appendI)
    have i: "in_request ?q" "buf_rep ?q xs'"
      using p r(2,3,5) by (auto simp: at_place_def in_request_def buf_rep_def)
    have "bounded ?q xs' pos'" using b r(5,7) l as(2) by (auto simp: bounded_def)
    then show thesis using reads [OF r(1) i(2) r(4) i(1) m'] d as(1) pos(2) by simp
  qed
qed

lemma midway_bulklen:
  assumes m: "midway q r as" and v: "valid_request r" and p: "at_place xs q pos" and n: "pr_bulklen q = - 1"
    and t: "drop pos xs @ rest = to_come q as @ after" and b: "bounded q xs pos"
  obtains (waits) "read_bulklen i q pos s = Some (Break (q, pos, s))" "rest \<noteq> []" "few q (drop pos xs)"
  | (reads) q' pos' xs' where "read_bulklen i q pos s = Some (Continue (q', pos', s))" "at_place xs' q' pos'"
      "midway q' r as" "pr_bulklen q' \<noteq> - 1" "pr_multibulklen q' = pr_multibulklen q"
      "drop pos' xs' @ rest = to_come q' as @ after" "bounded q' xs' pos'"
proof -
  have k: "pr_multibulklen q \<noteq> 0" "pos \<le> length xs" using p by (auto simp: at_place_def)
  then obtain a as' where as: "as = a # as'" using m by (cases as) (auto simp: midway_def)
  have a: "length a \<le> 512 * 1024 * 1024" using m v as by (auto simp: midway_def valid_request_def)
  have len: "length xs \<le> REDIS_INLINE_MAX_SIZE" using b n by (simp add: bounded_def)
  have e: "drop pos xs @ rest = of_char (CHR ''$'') # dec (length a) @ CR # LF # a @ CR # LF # concat (map encode_arg as') @ after"
    using t n as by (simp add: to_come_def encode_arg_def)
  have z: "of_char (CHR ''$'') \<noteq> (0 :: byte)" by simp
  show thesis
  proof (cases rule: header_cases [OF e not_CR(2) z])
    case partial: 2
    have "read_bulklen i q pos s = Some (Break (q, pos, s))"
      using partial(1) len k(2) by (intro read_bulklen_waits [OF p n]) (auto split: option.splits)
    moreover have "few q (drop pos xs)" using partial(3) n length_dec_small [of "length a"] a by (simp add: few_def)
    ultimately show thesis using waits partial(2) by blast
  next
    case complete: (1 u)
    note h = header_number [OF complete(1), simplified]
    have h': "cr_index (drop pos xs) = Some (length (dec (length a)) + 1)" "xs ! pos = of_char (CHR ''$'')"
      "string2ll (take (length (dec (length a)) + 1 - 1) (drop (pos + 1) xs)) = Some (int (length a))"
      "pos + (length (dec (length a)) + 1) + 2 \<le> length xs" "drop (pos + (length (dec (length a)) + 1) + 2) xs = u"
      using h a k(2) by (simp_all add: add.commute add.left_commute numeral_3_eq_3)
    obtain b' pos' xs' where r: "read_bulklen i q pos s = Some (Continue (q\<lparr>pr_querybuf := b', pr_bulklen := int (length a)\<rparr>, pos', s))"
      "at_place xs' (q\<lparr>pr_querybuf := b', pr_bulklen := int (length a)\<rparr>) pos'" "length xs' \<le> length xs"
      "drop pos' xs' = drop (pos + (length (dec (length a)) + 1) + 2) xs"
      using read_bulklen_reads [OF p n h'(1,4,2,3) a] by blast
    have "midway (q\<lparr>pr_querybuf := b', pr_bulklen := int (length a)\<rparr>) r as" using m as by (simp add: midway_def)
    moreover have "drop pos' xs' @ rest = to_come (q\<lparr>pr_querybuf := b', pr_bulklen := int (length a)\<rparr>) as @ after"
      using r(4) h'(5) complete(2) as by (simp add: to_come_def)
    moreover have "bounded (q\<lparr>pr_querybuf := b', pr_bulklen := int (length a)\<rparr>) xs' pos'" using r(3) len by (simp add: bounded_def)
    ultimately show thesis using reads [OF r(1,2)] by simp
  qed
qed

lemma bulk_loop_reads:
  assumes "midway q r as" "valid_request r" "at_place xs q pos" "drop pos xs @ rest = to_come q as @ after" "bounded q xs pos"
  shows "\<exists>q' pos' xs' as'. bulk_loop i q pos s = Some (Break (q', pos', s)) \<and> buf_rep q' xs' \<and> pos' \<le> length xs' \<and>
    in_request q' \<and> midway q' r as' \<and> drop pos' xs' @ rest = to_come q' as' @ after \<and>
    (if pr_multibulklen q' = 0 then bounded q' xs' pos' else rest \<noteq> [] \<and> few q' (drop pos' xs'))"
  using assms
proof (induction "pr_multibulklen q" arbitrary: q xs pos as rule: less_induct)
  case less
  have m: "pr_multibulklen q \<noteq> 0" using less(4) by (simp add: at_place_def)
  have wait: "?case" if "bulk_loop i q pos s = Some (Break (q1, p1, s))" "at_place x1 q1 p1" "midway q1 r as"
    "drop p1 x1 @ rest = to_come q1 as @ after" "rest \<noteq> []" "few q1 (drop p1 x1)" for q1 p1 x1
    using that by (intro exI [of _ q1] exI [of _ p1] exI [of _ x1] exI [of _ as]) (simp add: at_place_def)
  have "(read_bulklen i q pos s = Some (Break (q, pos, s)) \<and> rest \<noteq> [] \<and> few q (drop pos xs)) \<or>
    (\<exists>q1 p1 x1. read_bulklen i q pos s = Some (Continue (q1, p1, s)) \<and> at_place x1 q1 p1 \<and> midway q1 r as \<and>
      pr_bulklen q1 \<noteq> - 1 \<and> pr_multibulklen q1 = pr_multibulklen q \<and> drop p1 x1 @ rest = to_come q1 as @ after \<and> bounded q1 x1 p1)"
  proof (cases "pr_bulklen q = - 1")
    case False
    then have "read_bulklen i q pos s = Some (Continue (q, pos, s))" by (simp add: read_bulklen_def)
    then show ?thesis using False less(2-6) by blast
  next
    case True
    show ?thesis by (rule midway_bulklen [OF less(2,3,4) True less(5,6), of i s]) blast+
  qed
  then show ?case
  proof (elim disjE exE conjE)
    assume w: "read_bulklen i q pos s = Some (Break (q, pos, s))" "rest \<noteq> []" "few q (drop pos xs)"
    then have "bulk_loop i q pos s = Some (Break (q, pos, s))" using m by (subst bulk_loop.simps) simp
    then show ?thesis using wait [of q pos xs] less(2,4,5) w(2,3) by simp
  next
    fix q1 p1 x1
    assume r1: "read_bulklen i q pos s = Some (Continue (q1, p1, s))" "at_place x1 q1 p1" "midway q1 r as" "pr_bulklen q1 \<noteq> - 1"
      "pr_multibulklen q1 = pr_multibulklen q" "drop p1 x1 @ rest = to_come q1 as @ after" "bounded q1 x1 p1"
    show ?thesis
    proof (rule midway_argument [OF r1(3,2,4,6,7), of s])
      assume w: "read_argument q1 p1 s = Some (Break (q1, p1, s))" "rest \<noteq> []" "few q1 (drop p1 x1)"
      then have "bulk_loop i q pos s = Some (Break (q1, p1, s))" using m r1(1) by (subst bulk_loop.simps) simp
      then show ?thesis using wait [of q1 p1 x1] r1(2,3,6) w(2,3) by simp
    next
      fix q2 p2 x2
      assume r2: "read_argument q1 p1 s = Some (Continue (q2, p2, s))" "buf_rep q2 x2" "p2 \<le> length x2" "in_request q2"
        "midway q2 r (tl as)" "pr_bulklen q2 = - 1" "pr_multibulklen q2 < pr_multibulklen q1"
        "drop p2 x2 @ rest = to_come q2 (tl as) @ after" "bounded q2 x2 p2"
      have e: "bulk_loop i q pos s = bulk_loop i q2 p2 s" using m r1(1) r2(1) by (subst bulk_loop.simps) simp
      show ?thesis
      proof (cases "pr_multibulklen q2 = 0")
        case True
        then have "bulk_loop i q2 p2 s = Some (Break (q2, p2, s))" by (subst bulk_loop.simps) simp
        then show ?thesis using r2 True unfolding e
          by (intro exI [of _ q2] exI [of _ p2] exI [of _ x2] exI [of _ "tl as"]) simp
      next
        case False
        then have "at_place x2 q2 p2" using r2(2-4) by (simp add: at_place_def)
        then show ?thesis unfolding e using less(1) [OF _ r2(5) less(3) _ r2(8,9)] r2(7) r1(5) by simp
      qed
    qed
  qed
qed

text \<open>
  A connection from which the requests \<open>rs\<close> are still to be read: \<open>xs\<close> is in its buffer, \<open>rest\<close> has not
  arrived yet.
\<close>

definition expects :: "parser \<Rightarrow> byte list \<Rightarrow> byte list \<Rightarrow> byte list list list \<Rightarrow> bool" where
  "expects q xs rest rs \<longleftrightarrow> list_all valid_request rs \<and> pr_reqtype q \<noteq> REQ_INLINE \<and> parser_ok q xs \<and>
     (if pr_multibulklen q = 0 then xs @ rest = concat (map encode_request rs)
      else \<exists>r rs' as. rs = r # rs' \<and> midway q r as \<and> xs @ rest = to_come q as @ concat (map encode_request rs'))"

lemma loop_done_reads:
  assumes "midway q r as" "valid_request r" "at_place xs q pos" "drop pos xs @ rest = to_come q as @ concat (map encode_request rs)"
    "bounded q xs pos" "list_all valid_request rs"
  shows "\<exists>q' xs' complete. do { f \<leftarrow> bulk_loop i q pos s;
      case f of
        Return (q, pos, s) \<Rightarrow> Some ((q, s), False)
      | Break (q, pos, s) \<Rightarrow> do {
          b \<leftarrow> (if pos \<noteq> 0 then sdsrange (pr_querybuf q) (int pos) (- 1) else Some (pr_querybuf q));
          Some ((q\<lparr>pr_querybuf := b\<rparr>, s), pr_multibulklen q = 0) }
      | Continue _ \<Rightarrow> None } = Some ((q', s), complete) \<and> buf_rep q' xs' \<and>
    (if complete then list_all2 sds_rep (pr_argv q') r \<and> xs' @ rest = concat (map encode_request rs) \<and> length xs' \<le> REDIS_INLINE_MAX_SIZE
     else rest \<noteq> [] \<and> few q' xs' \<and> expects q' xs' rest (r # rs))"
proof -
  obtain q1 p1 x1 as1 where l: "bulk_loop i q pos s = Some (Break (q1, p1, s))" "buf_rep q1 x1" "p1 \<le> length x1"
    "in_request q1" "midway q1 r as1" "drop p1 x1 @ rest = to_come q1 as1 @ concat (map encode_request rs)"
    "if pr_multibulklen q1 = 0 then bounded q1 x1 p1 else rest \<noteq> [] \<and> few q1 (drop p1 x1)"
    using bulk_loop_reads [OF assms(1-5), of i s] by blast
  have "ok (if p1 \<noteq> 0 then sdsrange (pr_querybuf q1) (int p1) (- 1) else Some (pr_querybuf q1))
      (\<lambda>b. buf_rep (q1\<lparr>pr_querybuf := b\<rparr>) (drop p1 x1))"
    using buf_rep_drop [OF l(2,3)] l(2) by (simp add: buf_rep_def)
  then obtain b where b: "(if p1 \<noteq> 0 then sdsrange (pr_querybuf q1) (int p1) (- 1) else Some (pr_querybuf q1)) = Some b"
    "buf_rep (q1\<lparr>pr_querybuf := b\<rparr>) (drop p1 x1)" unfolding ok_iff by blast
  have e: "do { f \<leftarrow> bulk_loop i q pos s;
      case f of
        Return (q, pos, s) \<Rightarrow> Some ((q, s), False)
      | Break (q, pos, s) \<Rightarrow> do {
          b \<leftarrow> (if pos \<noteq> 0 then sdsrange (pr_querybuf q) (int pos) (- 1) else Some (pr_querybuf q));
          Some ((q\<lparr>pr_querybuf := b\<rparr>, s), pr_multibulklen q = 0) }
      | Continue _ \<Rightarrow> None } = Some ((q1\<lparr>pr_querybuf := b\<rparr>, s), pr_multibulklen q1 = 0)"
    unfolding l(1) by (simp add: b(1) [unfolded neq0_conv])
  show ?thesis
  proof (cases "pr_multibulklen q1 = 0")
    case True
    then have a: "as1 = []" "pr_bulklen q1 = - 1" using l(5) by (auto simp: midway_def)
    have "list_all2 sds_rep (pr_argv q1) r" using l(5) a by (simp add: midway_def)
    moreover have "length (drop p1 x1) \<le> REDIS_INLINE_MAX_SIZE" using l(7) True a(2) by (simp add: bounded_def)
    ultimately show ?thesis unfolding e using True a b(2) l(6)
      by (intro exI [of _ "q1\<lparr>pr_querybuf := b\<rparr>"] exI [of _ "drop p1 x1"] exI [of _ True]) (simp add: to_come_def)
  next
    case False
    have "expects (q1\<lparr>pr_querybuf := b\<rparr>) (drop p1 x1) rest (r # rs)"
      using False assms(2,6) l(4,5,6) b(2)
      by (auto simp: expects_def parser_ok_def in_request_def midway_def to_come_def)
    moreover have "few (q1\<lparr>pr_querybuf := b\<rparr>) (drop p1 x1)" using l(7) False by (simp add: few_def del: length_drop)
    ultimately show ?thesis unfolding e using False b(2) l(7)
      by (intro exI [of _ "q1\<lparr>pr_querybuf := b\<rparr>"] exI [of _ "drop p1 x1"] exI [of _ False]) simp
  qed
qed

lemma expects_Nil:
  assumes "expects q xs rest []"
  shows "pr_multibulklen q = 0 \<and> xs = [] \<and> rest = []"
  using assms by (auto simp: expects_def split: if_splits)

text \<open>A pass over the buffer reads the next request, or waits.\<close>

lemma read_count_reads:
  assumes q: "parser_ok q xs" "pr_multibulklen q = 0" "valid_request r"
    and t: "xs @ rest = encode_request r @ after" and b: "length xs \<le> REDIS_INLINE_MAX_SIZE"
  obtains (waits) "read_count i q s = Some (Inl ((q, s), False))" "rest \<noteq> []" "length xs \<le> 32"
  | (reads) q' pos where "read_count i q s = Some (Inr (q', pos))" "at_place xs q' pos \<or> pr_reqtype q \<noteq> REQ_MULTIBULK"
      "midway q' r r" "q' = q\<lparr>pr_multibulklen := length r, pr_room := length r\<rparr>" "pos \<le> length xs"
      "drop pos xs @ rest = to_come q' r @ after"
proof -
  have a: "pr_argv q = []" "pr_bulklen q = - 1" "buf_rep q xs" using q by (auto simp: parser_ok_def)
  obtain junk where r: "sds_buf (pr_querybuf q) = xs @ 0 # junk" "sdslen (pr_querybuf q) = length xs"
    "length xs \<le> querybuf_max" using a(3) by (rule buf_repE)
  have r0: "r \<noteq> []" "length r \<le> 1024 * 1024" using q(3) by (auto simp: valid_request_def)
  have e: "xs @ rest = of_char (CHR ''*'') # dec (length r) @ CR # LF # concat (map encode_arg r) @ after"
    using t by (simp add: encode_request_def)
  have z: "of_char (CHR ''*'') \<noteq> (0 :: byte)" by simp
  show thesis
  proof (cases rule: header_cases [OF e not_CR(1) z])
    case partial: 2
    have "read_count i q s = Some (Inl ((q, s), False))"
      using partial(1) b r a(1) by (auto simp: read_count_def find_cr_text c_arith split: option.splits)
    moreover have "length xs \<le> 32" using partial(3) length_dec_small [of "length r"] r0(2) by simp
    ultimately show thesis using waits partial(2) by blast
  next
    case complete: (1 u)
    have r63: "length r < 2 ^ 63" using r0(2) by simp
    note h = header_number [OF complete(1) not_CR(1) z r63]
    have "0 < length xs" using h(5) by linarith
    then have rd: "rd 0 (xs @ 0 # junk) = Some (of_char (CHR ''*''))" using h(2) by (simp del: of_char_eq_iff)
    have mr: "mem_read 1 (length (dec (length r)) + 1 - 1) (xs @ 0 # junk) = Some (take (length (dec (length r))) (drop 1 xs))"
      using h(5) mem_read_text [of 1 "length (dec (length r))" xs "0 # junk"] by simp
    define p where "p = length (dec (length r)) + 1 + 2"
    have c: "read_count i q s = Some (Inr (q\<lparr>pr_multibulklen := length r, pr_room := length r\<rparr>, p))"
      using a(1) r h(1,3,5) r0 rd mr
      by (simp add: read_count_def find_cr_text c_arith Let_def p_def del: of_char_eq_iff)
    have d: "p \<le> length xs" "drop p xs = u" using h(4,5) by (simp_all add: p_def numeral_3_eq_3)
    have "at_place xs (q\<lparr>pr_multibulklen := length r, pr_room := length r\<rparr>) p \<or> pr_reqtype q \<noteq> REQ_MULTIBULK"
      using a d r0(1) by (auto simp: at_place_def buf_rep_def in_request_def)
    then show thesis using reads [OF c _ _ HOL.refl d(1)] a(1,2) d(2) complete(2)
      by (simp add: midway_def to_come_def)
  qed
qed

lemma processMultibulkBuffer_reads:
  assumes x: "expects q xs rest rs" "xs \<noteq> []" "bounded q xs 0" and ty: "pr_reqtype q = REQ_MULTIBULK"
  shows "\<exists>r rs' q' xs' complete. rs = r # rs' \<and> processMultibulkBuffer i q s = Some ((q', s), complete) \<and> buf_rep q' xs' \<and>
    (if complete then list_all2 sds_rep (pr_argv q') r \<and> xs' @ rest = concat (map encode_request rs') \<and> length xs' \<le> REDIS_INLINE_MAX_SIZE
     else rest \<noteq> [] \<and> few q' xs' \<and> expects q' xs' rest rs)"
proof (cases "pr_multibulklen q = 0")
  case False
  then obtain r rs' as where r: "rs = r # rs'" "midway q r as" "xs @ rest = to_come q as @ concat (map encode_request rs')"
    "valid_request r" "list_all valid_request rs'" "parser_ok q xs"
    using x(1) by (auto simp: expects_def)
  have p: "at_place xs q 0" using r(6) False by (simp add: parser_ok_def at_place_def)
  have m: "processMultibulkBuffer i q s = do { f \<leftarrow> bulk_loop i q 0 s;
      case f of
        Return (q, pos, s) \<Rightarrow> Some ((q, s), False)
      | Break (q, pos, s) \<Rightarrow> do {
          b \<leftarrow> (if pos \<noteq> 0 then sdsrange (pr_querybuf q) (int pos) (- 1) else Some (pr_querybuf q));
          Some ((q\<lparr>pr_querybuf := b\<rparr>, s), pr_multibulklen q = 0) }
      | Continue _ \<Rightarrow> None }"
    using False by (simp add: processMultibulkBuffer_def del: neq0_conv)
  have d: "drop 0 xs @ rest = to_come q as @ concat (map encode_request rs')" using r(3) by simp
  show ?thesis unfolding m r(1) using loop_done_reads [OF r(2,4) p d x(3) r(5), of i s] by blast
next
  case True
  then obtain r rs' where r: "rs = r # rs'" "xs @ rest = encode_request r @ concat (map encode_request rs')"
    "valid_request r" "list_all valid_request rs'" "parser_ok q xs"
    using x(1,2) by (cases rs) (auto simp: expects_def)
  have b: "length xs \<le> REDIS_INLINE_MAX_SIZE" using x(3) True by (simp add: bounded_def)
  show ?thesis
  proof (rule read_count_reads [OF r(5) True r(3,2) b, of i s])
    assume w: "read_count i q s = Some (Inl ((q, s), False))" "rest \<noteq> []" "length xs \<le> 32"
    then have "processMultibulkBuffer i q s = Some ((q, s), False)" using True by (simp add: processMultibulkBuffer_def)
    moreover have "few q xs" using True w(3) by (simp add: few_def)
    moreover have "buf_rep q xs" using r(5) by (simp add: parser_ok_def)
    ultimately show ?thesis using r(1) w(2) x(1) by (metis (full_types))
  next
    fix q1 pos
    assume c: "read_count i q s = Some (Inr (q1, pos))" "at_place xs q1 pos \<or> pr_reqtype q \<noteq> REQ_MULTIBULK"
      "midway q1 r r" "q1 = q\<lparr>pr_multibulklen := length r, pr_room := length r\<rparr>" "pos \<le> length xs"
      "drop pos xs @ rest = to_come q1 r @ concat (map encode_request rs')"
    have p: "at_place xs q1 pos" using c(2) ty by simp
    have n: "pr_multibulklen q1 \<noteq> 0" using p by (simp add: at_place_def)
    have m: "processMultibulkBuffer i q s = do { f \<leftarrow> bulk_loop i q1 pos s;
      case f of
        Return (q, pos, s) \<Rightarrow> Some ((q, s), False)
      | Break (q, pos, s) \<Rightarrow> do {
          b \<leftarrow> (if pos \<noteq> 0 then sdsrange (pr_querybuf q) (int pos) (- 1) else Some (pr_querybuf q));
          Some ((q\<lparr>pr_querybuf := b\<rparr>, s), pr_multibulklen q = 0) }
      | Continue _ \<Rightarrow> None }"
      using True n c(1) by (simp add: processMultibulkBuffer_def del: neq0_conv)
    have "bounded q1 xs pos" using b by (simp add: bounded_def)
    then show ?thesis unfolding m r(1) using loop_done_reads [OF c(3) r(3) p c(6) _ r(4), of i s] by blast
  qed
qed

text \<open>The type of the next request.\<close>

lemma expects_reqtype:
  assumes "expects q xs rest rs" "xs \<noteq> []"
  shows "request_type q = Some REQ_MULTIBULK" "expects (q\<lparr>pr_reqtype := REQ_MULTIBULK\<rparr>) xs rest rs"
proof -
  have q: "parser_ok q xs" "pr_reqtype q \<noteq> REQ_INLINE" using assms(1) by (auto simp: expects_def)
  have hd: "hd xs = of_char (CHR ''*'')" if "pr_multibulklen q = 0"
  proof -
    have "xs @ rest = concat (map encode_request rs)" using that assms(1) by (simp add: expects_def)
    then obtain r rs' where "xs @ rest = encode_request r @ concat (map encode_request rs')" using assms(2) by (cases rs) auto
    then show ?thesis using assms(2) by (cases xs) (auto simp: encode_request_def)
  qed
  obtain rest' where r: "sds_buf (pr_querybuf q) = xs @ 0 # rest'" using q(1) by (auto simp: parser_ok_def elim: buf_repE)
  show "request_type q = Some REQ_MULTIBULK"
  proof (cases "pr_reqtype q = REQ_NONE")
    case True
    then have "pr_multibulklen q = 0" using q(1) by (auto simp: parser_ok_def in_request_def split: if_splits)
    then show ?thesis using True r hd assms(2) by (simp add: request_type_def hd_nth)
  next
    case False
    then show ?thesis using q(2) by (cases "pr_reqtype q") (auto simp: request_type_def)
  qed
  show "expects (q\<lparr>pr_reqtype := REQ_MULTIBULK\<rparr>) xs rest rs"
    using assms hd by (auto simp: expects_def parser_ok_def buf_rep_def in_request_def midway_def to_come_def split: if_splits)
qed

lemma expects_reset:
  assumes "buf_rep q xs" "xs @ rest = concat (map encode_request rs)" "list_all valid_request rs"
  shows "expects (resetClient i q s) xs rest rs"
  using assms by (auto simp: expects_def resetClient_def parser_ok_def buf_rep_def)

text \<open>
  The commands of some of the requests have been run and the rest is still expected; the rest is empty
  once all bytes have arrived.
\<close>

definition reads_all :: "nat \<Rightarrow> byte list \<Rightarrow> byte list list list \<Rightarrow> (server_state \<times> 'c list) option \<Rightarrow> 'c input_state option \<Rightarrow> bool" where
  "reads_all i rest rs st r \<longleftrightarrow>
     (case st of
        None \<Rightarrow> r = None
      | Some (s', cs') \<Rightarrow> \<exists>q' xs'. r = Some (q', s', cs') \<and> expects q' xs' rest rs \<and> few q' xs' \<and>
          (rest = [] \<longrightarrow> rs = []) \<and> \<not> cl_close (sv_client s' i))"

lemma reads_allI:
  "\<lbrakk>expects q xs rest rs; few q xs; rest = [] \<longrightarrow> rs = []; \<not> cl_close (sv_client s i)\<rbrakk> \<Longrightarrow> reads_all i rest rs (Some (s, cs)) (Some (q, s, cs))"
  by (auto simp: reads_all_def)

lemma encode_request_ne [simp]: "encode_request r \<noteq> []"
  by (simp add: encode_request_def)

lemma expects_empty: "expects q [] [] rs \<Longrightarrow> rs = []"
  by (cases rs) (auto simp: expects_def midway_def to_come_def encode_arg_def split: if_splits)

lemma few_empty: "expects q [] rest rs \<Longrightarrow> few q []"
  by (auto simp: expects_def few_def parser_ok_def in_request_def split: if_splits)

text \<open>A handler that leaves the connection open for all but some commands.\<close>

locale request_runner = request_handler run
  for run :: "'c \<Rightarrow> nat \<Rightarrow> sds list \<Rightarrow> server_state \<Rightarrow> (server_state \<times> bool) option" +
  fixes final :: "byte list list \<Rightarrow> bool"
  assumes keeps_open: "\<lbrakk>run c i av s = Some (s', b); list_all2 sds_rep av r; valid_request r; \<not> final r\<rbrakk>
    \<Longrightarrow> b \<and> cl_close (sv_client s' i) = cl_close (sv_client s i)"
begin

lemma input_loop_reads:
  assumes "expects q xs rest rs" "bounded q xs 0" "length xs \<le> fuel" "\<not> cl_close (sv_client s i)" "list_all (\<lambda>r. \<not> final r) rs"
  shows "\<exists>avs ds rs'. rs = ds @ rs' \<and> list_all2 (list_all2 sds_rep) avs ds \<and>
    reads_all i rest rs' (run_all run i avs (s, cs)) (input_loop fuel run i (q, s, cs))"
  using assms
proof (induction fuel arbitrary: q xs rs s cs)
  case 0
  then have "input_loop 0 run i (q, s, cs) = Some (q, s, cs)"
    by (subst input_loop.simps) (auto simp: expects_def parser_ok_def elim: buf_repE)
  moreover have "reads_all i rest rs (Some (s, cs)) (Some (q, s, cs))"
    using 0 expects_empty few_empty by (intro reads_allI) auto
  ultimately show ?case by (intro exI [of _ "[]"] exI [of _ rs]) simp
next
  case (Suc fuel)
  have q: "parser_ok q xs" "buf_rep q xs" using Suc(2) by (auto simp: expects_def parser_ok_def)
  have len: "sdslen (pr_querybuf q) = length xs" "\<not> pr_blocked q" using q(2) by (auto simp: buf_rep_def sdslen_correct)
  show ?case
  proof (cases "xs = []")
    case True
    then have "input_loop (Suc fuel) run i (q, s, cs) = Some (q, s, cs)" using len by (subst input_loop.simps) simp
    moreover have "reads_all i rest rs (Some (s, cs)) (Some (q, s, cs))"
      using Suc(2,5) True expects_empty few_empty by (intro reads_allI) auto
    ultimately show ?thesis by (intro exI [of _ "[]"] exI [of _ rs]) simp
  next
    case False
    let ?q = "q\<lparr>pr_reqtype := REQ_MULTIBULK\<rparr>"
    note ty = expects_reqtype [OF Suc(2) False]
    have b: "bounded ?q xs 0" using Suc(3) by (simp add: bounded_def)
    have rt: "pr_reqtype ?q = REQ_MULTIBULK" by simp
    obtain r rs' q1 x1 cm where r: "rs = r # rs'" "processMultibulkBuffer i ?q s = Some ((q1, s), cm)" "buf_rep q1 x1"
      "if cm then list_all2 sds_rep (pr_argv q1) r \<and> x1 @ rest = concat (map encode_request rs') \<and> length x1 \<le> REDIS_INLINE_MAX_SIZE
       else rest \<noteq> [] \<and> few q1 x1 \<and> expects q1 x1 rest rs"
      using processMultibulkBuffer_reads [OF ty(2) False b, where i = i and s = s] rt by blast
    have v: "valid_request r" "list_all valid_request rs'" "\<not> final r" "list_all (\<lambda>r. \<not> final r) rs'"
      using Suc(2,6) r(1) by (auto simp: expects_def)
    have "parser_ok ?q xs" using ty(2) by (simp add: expects_def)
    then have pd: "parsed i xs s ((q1, s), cm)" using processMultibulkBuffer_ok [of ?q xs i s] r(2) by simp
    have e: "input_loop (Suc fuel) run i (q, s, cs) =
       (if \<not> cm then Some (q1, s, cs)
        else if pr_argv q1 = [] then input_loop fuel run i (resetClient i q1 s, s, cs)
        else case cs of [] \<Rightarrow> None
          | c # cs \<Rightarrow> do { (s, goes_on) \<leftarrow> run c i (pr_argv q1) s;
              input_loop fuel run i (if goes_on then resetClient i q1 s else q1, s, cs) })"
    proof -
      have n: "(sdslen (pr_querybuf q) = 0 \<or> pr_blocked q \<or> cl_close (sv_client s i)) = False" using False len Suc(5) by simp
      show ?thesis
        by (subst input_loop.simps)
          (simp only: n if_False nat.case ty(1) Option.bind.bind_lunit r(2) Let_def reqtype.distinct simp_thms prod.case)
    qed
    show ?thesis
    proof (cases cm)
      case False
      then show ?thesis using r(4) Suc(5) unfolding e
        by (intro exI [of _ "[]"] exI [of _ rs]) (auto intro: reads_allI)
    next
      case True
      then have a: "list_all2 sds_rep (pr_argv q1) r" "x1 @ rest = concat (map encode_request rs')" "length x1 \<le> REDIS_INLINE_MAX_SIZE"
        using r(4) by auto
      have ne: "pr_argv q1 \<noteq> []" using a(1) v(1) by (auto simp: valid_request_def)
      obtain x2 where "buf_rep q1 x2" "length x2 < length xs" using pd True by (auto simp: parsed_def)
      moreover have "x2 = x1" using calculation(1) r(3) sds_rep_unique unfolding buf_rep_def by blast
      ultimately have l: "length x1 \<le> fuel" using Suc(4) by simp
      have fails: ?thesis if "run_all run i [pr_argv q1] (s, cs) = None" "input_loop (Suc fuel) run i (q, s, cs) = None"
        using that a(1) r(1) by (intro exI [of _ "[pr_argv q1]"] exI [of _ "[r]"] exI [of _ rs']) (simp add: reads_all_def)
      show ?thesis
      proof (cases cs)
        case Nil
        then show ?thesis using fails True ne unfolding e by simp
      next
        case (Cons c cs1)
        show ?thesis
        proof (cases "run c i (pr_argv q1) s")
          case None
          then show ?thesis using fails Cons True ne unfolding e by simp
        next
          case (Some y)
          obtain s2 go where y: "y = (s2, go)" by (cases y)
          have k: "go" "\<not> cl_close (sv_client s2 i)" using keeps_open [OF Some [unfolded y] a(1) v(1,3)] Suc(5) by auto
          have "expects (resetClient i q1 s2) x1 rest rs'" by (rule expects_reset [OF r(3) a(2) v(2)])
          moreover have "bounded (resetClient i q1 s2) x1 0" using a(3) by (simp add: bounded_def)
          ultimately obtain avs ds rs2 where IH: "rs' = ds @ rs2" "list_all2 (list_all2 sds_rep) avs ds"
            "reads_all i rest rs2 (run_all run i avs (s2, cs1)) (input_loop fuel run i (resetClient i q1 s2, s2, cs1))"
            using Suc(1) [OF _ _ l k(2) v(4), where cs = cs1] by blast
          then show ?thesis using True ne Cons Some y k(1) a(1) r(1) unfolding e
            by (intro exI [of _ "pr_argv q1 # avs"] exI [of _ "r # ds"] exI [of _ rs2]) simp
        qed
      qed
    qed
  qed
qed

end


text \<open>Reading more of the requests.\<close>

lemma read_length_big:
  assumes "conn_ok i q s xs" "hungry q xs 0" "pr_reqtype q = REQ_MULTIBULK" "pr_multibulklen q \<noteq> 0" "pr_bulklen q \<ge> REDIS_MBULK_BIG_ARG"
  shows "int (length xs) + read_length q \<le> pr_bulklen q + 2"
proof -
  obtain n where n: "pr_bulklen q = int n" using assms(5) by (metis nat_0_le order_trans zero_le_numeral zero_le_mult_iff)
  have l: "length xs < n + 2" "n \<le> 512 * 1024 * 1024" "sdslen (pr_querybuf q) = length xs" "int n \<noteq> - 1"
    using n assms by (auto simp: hungry_def conn_ok_def parser_ok_def in_request_def elim!: buf_repE split: if_splits)
  have "to_uint32 (int n + 2) = n + 2" using l(2) by (simp add: c_arith nat_add_distrib)
  moreover have "to_size (int (n + 2) - int (length xs)) = n + 2 - length xs" using l by (intro to_size_diff) auto
  moreover have "to_int32 (int (n + 2 - length xs)) = int (n + 2 - length xs)" using l by (intro to_int32_in_range) auto
  ultimately have "read_length q = (if int (n + 2 - length xs) < REDIS_IOBUF_LEN then int (n + 2 - length xs) else REDIS_IOBUF_LEN)"
    using assms(3-5) n l(3,4) unfolding read_length_def by (simp only: Let_def simp_thms if_True)
  then show ?thesis using l(1) n by auto
qed

lemma expects_conn:
  assumes "expects q xs rest rs" "few q xs" "\<not> cl_close (sv_client s i)"
  shows "conn_ok i q s xs" "hungry q xs 0"
  using assms by (auto simp: expects_def conn_ok_def few_def hungry_def parser_ok_def split: if_splits)

lemma expects_read:
  fixes s :: server_state
  assumes x: "expects q xs (bs @ rest) rs" "few q xs" "\<not> cl_close (sv_client s i)"
    and b: "sds_rep b (xs @ bs)" "int (length bs) \<le> read_length q"
  shows "bounded (q\<lparr>pr_querybuf := b\<rparr>) (xs @ bs) 0" "length xs + length bs \<le> querybuf_max"
    "expects (q\<lparr>pr_querybuf := b\<rparr>) (xs @ bs) rest rs"
proof -
  note c = expects_conn [OF x]
  have m: "int (length bs) \<le> 1024 * 16" using read_length_bounds [OF c] b(2) by simp
  have big: "bounded (q\<lparr>pr_querybuf := b\<rparr>) (xs @ bs) 0 \<and> length xs + length bs \<le> querybuf_max"
  proof (cases "pr_multibulklen q \<noteq> 0 \<and> pr_bulklen q \<ge> REDIS_MBULK_BIG_ARG")
    case True
    then have i: "in_request q" using x(1) by (simp add: expects_def parser_ok_def)
    then have "int (length xs) + int (length bs) \<le> pr_bulklen q + 2"
      using read_length_big [OF c] True b(2) by (simp add: in_request_def)
    then show ?thesis using True i by (auto simp: bounded_def in_request_def)
  next
    case False
    then have "int (length xs) \<le> 1024 * 32 + 2" using x(2) by (auto simp: few_def split: if_splits)
    then show ?thesis using m by (simp add: bounded_def)
  qed
  then show "bounded (q\<lparr>pr_querybuf := b\<rparr>) (xs @ bs) 0" "length xs + length bs \<le> querybuf_max" by auto
  then show "expects (q\<lparr>pr_querybuf := b\<rparr>) (xs @ bs) rest rs"
    using x(1) b(1) by (auto simp: expects_def parser_ok_def buf_rep_def in_request_def midway_def to_come_def split: if_splits)
qed

lemma reads_all_append:
  assumes "run_all run i avs (s, cs) = Some (s1, cs1)" "reads_all i rest rs (run_all run i avs' (s1, cs1)) r"
  shows "reads_all i rest rs (run_all run i (avs @ avs') (s, cs)) r"
  using assms by (simp add: run_all_append)

context request_runner begin

lemma deliver_reads:
  assumes "expects q xs (data @ rest) rs" "few q xs" "\<not> cl_close (sv_client s i)" "list_all (\<lambda>r. \<not> final r) rs"
    "data @ rest = [] \<longrightarrow> rs = []"
  shows "\<exists>avs ds rs' r. rs = ds @ rs' \<and> list_all2 (list_all2 sds_rep) avs ds \<and>
    deliver run querybuf_max i data (q, s, cs) = map_option Inr r \<and> reads_all i rest rs' (run_all run i avs (s, cs)) r"
  using assms
proof (induction "length data" arbitrary: data q s cs xs rs rule: less_induct)
  case less
  show ?case
  proof (cases "data = []")
    case True
    then have "deliver run querybuf_max i data (q, s, cs) = map_option Inr (Some (q, s, cs))" by (subst deliver.simps) simp
    moreover have "reads_all i rest rs (Some (s, cs)) (Some (q, s, cs))"
      using less(2,3,4,6) True by (intro reads_allI) auto
    ultimately show ?thesis by (intro exI [of _ "[]"] exI [of _ rs] exI [of _ "Some (q, s, cs)"]) simp
  next
    case False
    note c = expects_conn [OF less(2,3,4)]
    note rl = read_length_bounds [OF c]
    define n bs where "n = nat (read_length q)" and "bs = take n data"
    have n: "n \<noteq> 0" "int (length bs) \<le> read_length q" "bs \<noteq> []" "data = bs @ drop n data"
      using rl False by (auto simp: n_def bs_def)
    obtain b where b: "sds_rep b (xs @ bs)" "readQueryFromClient run querybuf_max i (ReadBytes bs) (q, s, cs) =
      (if length xs + length bs > querybuf_max then map_option Inl (freeClient i s)
       else map_option Inr (processInputBuffer run i (q\<lparr>pr_querybuf := b\<rparr>, s, cs)))"
      using read_bytes [OF c n(3,2) order_refl, of cs] by blast
    have x: "expects q xs (bs @ (drop n data @ rest)) rs" using less(2) n(4) by (metis append.assoc)
    note e = expects_read [OF x less(3,4) b(1) n(2)]
    have rq: "readQueryFromClient run querybuf_max i (ReadBytes bs) (q, s, cs) =
        map_option Inr (processInputBuffer run i (q\<lparr>pr_querybuf := b\<rparr>, s, cs))"
      using b(2) e(2) by simp
    have len: "length (xs @ bs) \<le> sdslen (pr_querybuf (fst (q\<lparr>pr_querybuf := b\<rparr>, s, cs)))" using sdslen_correct [OF b(1)] by simp
    obtain avs ds rs1 where l: "rs = ds @ rs1" "list_all2 (list_all2 sds_rep) avs ds"
      "reads_all i (drop n data @ rest) rs1 (run_all run i avs (s, cs)) (processInputBuffer run i (q\<lparr>pr_querybuf := b\<rparr>, s, cs))"
      using input_loop_reads [OF e(3,1) len less(4,5), of cs] unfolding processInputBuffer_def by blast
    have d: "deliver run querybuf_max i data (q, s, cs) = (case processInputBuffer run i (q\<lparr>pr_querybuf := b\<rparr>, s, cs) of
        Some st \<Rightarrow> deliver run querybuf_max i (drop n data) st | None \<Rightarrow> None)"
      using False n(1) rq unfolding n_def bs_def by (subst deliver.simps) (simp add: Let_def split: option.split)
    show ?thesis
    proof (cases "run_all run i avs (s, cs)")
      case None
      then show ?thesis using l d
        by (intro exI [of _ avs] exI [of _ ds] exI [of _ rs1] exI [of _ None]) (simp add: reads_all_def)
    next
      case (Some st)
      obtain s1 cs1 where st: "st = (s1, cs1)" by (cases st)
      obtain q1 x1 where q1: "processInputBuffer run i (q\<lparr>pr_querybuf := b\<rparr>, s, cs) = Some (q1, s1, cs1)"
        "expects q1 x1 (drop n data @ rest) rs1" "few q1 x1" "drop n data @ rest = [] \<longrightarrow> rs1 = []" "\<not> cl_close (sv_client s1 i)"
        using l(3) Some st by (auto simp: reads_all_def)
      have "list_all (\<lambda>r. \<not> final r) rs1" "length (drop n data) < length data" using less(5) l(1) n(1) False by auto
      then obtain avs' ds' rs2 r where IH: "rs1 = ds' @ rs2" "list_all2 (list_all2 sds_rep) avs' ds'"
        "deliver run querybuf_max i (drop n data) (q1, s1, cs1) = map_option Inr r"
        "reads_all i rest rs2 (run_all run i avs' (s1, cs1)) r"
        using less(1) [OF _ q1(2,3,5) _ q1(4), where cs = cs1] by blast
      then show ?thesis using l(1,2) d q1(1) reads_all_append [OF Some [unfolded st] IH(4)]
        by (intro exI [of _ "avs @ avs'"] exI [of _ "ds @ ds'"] exI [of _ rs2] exI [of _ r]) (simp add: list_all2_appendI)
    qed
  qed
qed

lemma deliver_all_reads:
  assumes "expects q xs (concat chunks) rs" "few q xs" "\<not> cl_close (sv_client s i)" "list_all (\<lambda>r. \<not> final r) rs"
    "concat chunks = [] \<longrightarrow> rs = []"
  shows "\<exists>avs ds rs' r. rs = ds @ rs' \<and> list_all2 (list_all2 sds_rep) avs ds \<and>
    deliver_all run querybuf_max i chunks (q, s, cs) = map_option Inr r \<and> reads_all i [] rs' (run_all run i avs (s, cs)) r"
  using assms
proof (induction chunks arbitrary: q s cs xs rs)
  case Nil
  then have "reads_all i [] rs (Some (s, cs)) (Some (q, s, cs))" by (intro reads_allI) auto
  then show ?case by (intro exI [of _ "[]"] exI [of _ rs] exI [of _ "Some (q, s, cs)"]) simp
next
  case (Cons data chunks)
  obtain avs ds rs1 r where l: "rs = ds @ rs1" "list_all2 (list_all2 sds_rep) avs ds"
    "deliver run querybuf_max i data (q, s, cs) = map_option Inr r"
    "reads_all i (concat chunks) rs1 (run_all run i avs (s, cs)) r"
    using deliver_reads [of q xs data "concat chunks" rs s i cs] Cons(2-6) by auto
  show ?case
  proof (cases "run_all run i avs (s, cs)")
    case None
    then show ?thesis using l
      by (intro exI [of _ avs] exI [of _ ds] exI [of _ rs1] exI [of _ None]) (simp add: reads_all_def)
  next
    case (Some st)
    obtain s1 cs1 where st: "st = (s1, cs1)" by (cases st)
    obtain q1 x1 where q1: "r = Some (q1, s1, cs1)" "expects q1 x1 (concat chunks) rs1" "few q1 x1"
      "concat chunks = [] \<longrightarrow> rs1 = []" "\<not> cl_close (sv_client s1 i)"
      using l(4) Some st by (auto simp: reads_all_def)
    have "list_all (\<lambda>r. \<not> final r) rs1" using Cons(5) l(1) by auto
    then obtain avs' ds' rs2 r' where IH: "rs1 = ds' @ rs2" "list_all2 (list_all2 sds_rep) avs' ds'"
      "deliver_all run querybuf_max i chunks (q1, s1, cs1) = map_option Inr r'"
      "reads_all i [] rs2 (run_all run i avs' (s1, cs1)) r'"
      using Cons(1) [OF q1(2,3,5) _ q1(4), where cs = cs1] by blast
    then show ?thesis using l(1-3) q1(1) reads_all_append [OF Some [unfolded st] IH(4)]
      by (intro exI [of _ "avs @ avs'"] exI [of _ "ds @ ds'"] exI [of _ rs2] exI [of _ r']) (simp add: list_all2_appendI)
  qed
qed

lemma requests_read_back:
  assumes "createParser = Some q" "list_all valid_request rs" "list_all (\<lambda>r. \<not> final r) rs"
    "concat chunks = concat (map encode_request rs)" "\<not> cl_close (sv_client s i)"
  shows "\<exists>avs q'. list_all2 (list_all2 sds_rep) avs rs \<and>
    deliver_all run querybuf_max i chunks (q, s, cs) = map_option (\<lambda>(s', cs'). Inr (q', s', cs')) (run_all run i avs (s, cs))"
proof -
  obtain b where b: "sdsempty = Some b" "sds_rep b []" using sdsempty_rep by blast
  have "q = \<lparr>pr_querybuf = b, pr_reqtype = REQ_NONE, pr_multibulklen = 0, pr_bulklen = - 1, pr_room = 0,
           pr_argv = [], pr_blocked = False, pr_asking = False\<rparr>" using assms(1) unfolding createParser_def b(1) by simp
  then have "expects q [] (concat chunks) rs" "few q []"
    using b(2) assms(2,4) by (auto simp: expects_def parser_ok_def buf_rep_def few_def)
  moreover have "concat chunks = [] \<longrightarrow> rs = []" using assms(4) by (cases rs) auto
  ultimately obtain avs ds rs' r where l: "rs = ds @ rs'" "list_all2 (list_all2 sds_rep) avs ds"
    "deliver_all run querybuf_max i chunks (q, s, cs) = map_option Inr r" "reads_all i [] rs' (run_all run i avs (s, cs)) r"
    using deliver_all_reads [of q "[]" chunks rs s i cs] assms(3,5) by blast
  show ?thesis
  proof (cases "run_all run i avs (s, cs)")
    case (Some st)
    obtain s1 cs1 where st: "st = (s1, cs1)" by (cases st)
    obtain q1 where "r = Some (q1, s1, cs1)" "rs' = []" using l(4) Some st by (auto simp: reads_all_def)
    then show ?thesis using l(1-3) Some st by (intro exI [of _ avs] exI [of _ q1]) simp
  next
    case None
    have "\<exists>a. sds_rep a x" if "length x < 2 ^ 31" for x using sdsnewlen_rep [of "length x" x] that by auto
    then obtain f where f: "\<And>x. length x < 2 ^ 31 \<Longrightarrow> sds_rep (f x) x" by metis
    have r: "list_all2 (\<lambda>x. sds_rep (f x)) r r" if "valid_request r" for r
      using that f by (fastforce simp: valid_request_def intro!: list.rel_refl_strong)
    have "list_all valid_request rs'" using assms(2) l(1) by simp
    then have "list_all2 (list_all2 sds_rep) (map (map f) rs') rs'"
      using r unfolding list_all2_map1 list_all_iff list_all2_same by blast
    then obtain avs' where "list_all2 (list_all2 sds_rep) avs' rs'" by blast
    then show ?thesis using l None
      by (intro exI [of _ "avs @ avs'"]) (auto simp: reads_all_def run_all_append intro!: list_all2_appendI)
  qed
qed

end


section \<open>The server as the handler\<close>

text \<open>Only \<open>QUIT\<close> closes a connection.\<close>

definition same_close :: "server_state \<Rightarrow> server_state \<Rightarrow> bool" where
  "same_close s s' \<longleftrightarrow> (\<forall>j. cl_close (sv_client s' j) = cl_close (sv_client s j))"

lemma same_close_refl [simp]: "same_close s s"
  by (simp add: same_close_def)

lemma same_close_trans: "\<lbrakk>same_close s s1; same_close s1 s2\<rbrakk> \<Longrightarrow> same_close s s2"
  by (simp add: same_close_def)

lemma same_close_upd: "(\<And>c. cl_close (f c) = cl_close c) \<Longrightarrow> same_close s (upd i f s)"
  by (simp add: same_close_def upd_def)

lemma same_close_upd_iff [simp]:
  assumes "\<And>c. cl_close (f c) = cl_close c"
  shows "same_close s (upd i f s') \<longleftrightarrow> same_close s s'" "same_close (upd i f s) s' \<longleftrightarrow> same_close s s'"
  using assms by (auto simp: same_close_def upd_def)

lemma same_close_simps [simp]:
  "same_close s (reply_to i r s') \<longleftrightarrow> same_close s s'" "same_close (reply_to i r s) s' \<longleftrightarrow> same_close s s'"
  "same_close s (s'\<lparr>sv_db := d\<rparr>) \<longleftrightarrow> same_close s s'" "same_close (s\<lparr>sv_db := d\<rparr>) s' \<longleftrightarrow> same_close s s'"
  "same_close s (s'\<lparr>sv_watching := w\<rparr>) \<longleftrightarrow> same_close s s'" "same_close (s\<lparr>sv_watching := w\<rparr>) s' \<longleftrightarrow> same_close s s'"
  "same_close s (s'\<lparr>sv_numcommands := n\<rparr>) \<longleftrightarrow> same_close s s'" "same_close (s\<lparr>sv_numcommands := n\<rparr>) s' \<longleftrightarrow> same_close s s'"
  "same_close s (feed cs s') \<longleftrightarrow> same_close s s'" "same_close (feed cs s) s' \<longleftrightarrow> same_close s s'"
  "same_close s (clear_multi i s') \<longleftrightarrow> same_close s s'" "same_close (clear_multi i s) s' \<longleftrightarrow> same_close s s'"
  "same_close s (initClientMultiState i s') \<longleftrightarrow> same_close s s'" "same_close (initClientMultiState i s) s' \<longleftrightarrow> same_close s s'"
  "same_close s (queueMultiCommand i cmd av s') \<longleftrightarrow> same_close s s'" "same_close (queueMultiCommand i cmd av s) s' \<longleftrightarrow> same_close s s'"
  "same_close s (flagTransaction i s') \<longleftrightarrow> same_close s s'" "same_close (flagTransaction i s) s' \<longleftrightarrow> same_close s s'"
  by (simp_all add: reply_to_def clear_multi_def initClientMultiState_def queueMultiCommand_def flagTransaction_def)
    (simp_all add: same_close_def feed_def)

lemma same_close_fold: "(\<And>x s. same_close s (f x s)) \<Longrightarrow> same_close s (fold f xs s)"
  by (induction xs arbitrary: s) (auto intro: same_close_trans)

lemma same_close_watch: "same_close s (watchForKey i k s)"
  by (simp add: watchForKey_def Let_def)

lemma same_close_unwatch_loop: "unwatch_loop i ks s = Some s' \<Longrightarrow> same_close s s'"
proof (induction i ks s rule: unwatch_loop.induct)
  case (2 i key keys s)
  then obtain clients where c: "sv_watching s key = Some clients" "i \<in> set clients" by (auto split: bind_splits if_splits)
  show ?case
    using "2.IH" [OF c(1) _ HOL.refl HOL.refl] "2.prems" c
    by (auto simp: Let_def intro: same_close_trans [rotated])
qed simp

lemma same_close_unwatchAllKeys: "unwatchAllKeys i s = Some s' \<Longrightarrow> same_close s s'"
  by (simp add: unwatchAllKeys_def same_close_unwatch_loop)

lemma same_close_touch: "same_close s (touchWatchedKey k s)"
  by (auto simp: touchWatchedKey_def intro: same_close_fold same_close_upd split: option.split)

lemma same_close_flush_keys: "flush_keys e i ks d s = Some (d', s') \<Longrightarrow> same_close s s'"
proof (induction e i ks d s rule: flush_keys.induct)
  case (2 e i key keys d s)
  then obtain d1 de where "dictFind (dbDictType (e_seed e)) d key = Some (d1, de)" by (auto split: bind_splits)
  then show ?case using 2 by (cases "de = None") auto
qed simp

lemma same_close_flush: "touchWatchedKeysOnFlush e is' d s = Some s' \<Longrightarrow> same_close s s'"
  by (induction e is' d s rule: touchWatchedKeysOnFlush.induct)
    (auto split: bind_splits dest: same_close_flush_keys intro: same_close_trans)

lemma same_close_touches: "apply_touches e d ts s = Some s' \<Longrightarrow> same_close s s'"
proof (induction e d ts s rule: apply_touches.induct)
  case (2 e d key ts s)
  then show ?case using same_close_trans [OF same_close_touch] by simp
next
  case (3 e d ts s)
  then show ?case by (auto split: bind_splits dest: same_close_flush intro: same_close_trans)
qed simp

lemma same_close_run_proc: "run_proc p e rnd i av s = Some s' \<Longrightarrow> same_close s s'"
proof (cases p)
  case (Data f)
  assume "run_proc p e rnd i av s = Some s'"
  then obtain st where "apply_touches e (st_keys (sv_db s)) (touched (st_srv st))
       (upd i (\<lambda>c. c\<lparr>cl_reply := out (st_srv st)\<rparr>) (s\<lparr>sv_db := st\<rparr>)) = Some s'"
    using Data by (auto simp: run_data_def split: bind_splits)
  then show ?thesis by (auto dest!: same_close_touches simp: same_close_def upd_def split: if_splits)
qed (auto simp: multiCommand_def discardCommand_def discardTransaction_def watchCommand_def unwatchCommand_def
    dest!: same_close_unwatchAllKeys intro!: same_close_fold same_close_watch split: if_splits bind_splits)

lemma same_close_call:
  assumes "call p av s = Some s'" "\<And>s'. p s = Some s' \<Longrightarrow> same_close s s'"
  shows "same_close s s'"
  using assms by (auto simp: call_def Let_def split: bind_splits)

lemma same_close_exec_loop: "exec_loop i xs qs s = Some s' \<Longrightarrow> same_close s s'"
proof (induction i xs qs s rule: exec_loop.induct)
  case (3 i e rnd xs cmd av qs s)
  then obtain s1 where "call (run_proc (c_proc cmd) e rnd i av) av s = Some s1" "exec_loop i xs qs s1 = Some s'"
    by (auto split: bind_splits)
  moreover have "same_close s s1" by (rule same_close_call [OF calculation(1) same_close_run_proc])
  ultimately show ?case using 3(1) same_close_trans by blast
qed auto

lemma same_close_execCommand: "execCommand i xs s = Some s' \<Longrightarrow> same_close s s'"
  unfolding execCommand_def Let_def
  by (auto split: if_splits bind_splits dest!: same_close_unwatchAllKeys same_close_exec_loop intro: same_close_trans)

lemma same_close_exec_command:
  assumes "exec_command e rnd xs i cmd av s = Some s'"
  shows "same_close s s'"
proof (cases "cl_multi (sv_client s i) \<and> \<not> never_queued (c_proc cmd)")
  case True
  then show ?thesis using assms by (auto simp: exec_command_def)
next
  case False
  then show ?thesis using assms same_close_call [OF _ same_close_execCommand] same_close_call [OF _ same_close_run_proc]
    unfolding exec_command_def by (cases "c_proc cmd") auto
qed

definition is_quit :: "byte list list \<Rightarrow> bool" where
  "is_quit r \<longleftrightarrow> map char_tolower (takeWhile (\<lambda>b. b \<noteq> 0) (hd r)) = bytes ''quit''"

lemma processCommand_close:
  assumes "processCommand g e rnd xs i av s = Some (s', b)" "key_at av 0 = Some name"
  shows "if map char_tolower (takeWhile (\<lambda>b. b \<noteq> 0) name) = bytes ''quit''
    then \<not> b \<and> cl_close (sv_client s' i) else b \<and> same_close s s'"
proof (cases "map char_tolower (takeWhile (\<lambda>b. b \<noteq> 0) name) = bytes ''quit''")
  case True
  then show ?thesis using assms by (auto simp: processCommand_def upd_def)
next
  case False
  then show ?thesis using assms same_close_exec_command
    by (auto simp: processCommand_def split: option.splits if_splits bind_splits)
qed

text \<open>A command leaves the lists of watched keys consistent, whatever its arguments are.\<close>

lemma ready_cong:
  assumes "sv_clients s' = sv_clients s" "sv_watching s' = sv_watching s" "\<And>j. cl_watched (sv_client s' j) = cl_watched (sv_client s j)"
  shows "ready i s' = ready i s"
  using watch_inv_cong(1) [OF assms] assms(1) by (simp add: ready_def)

lemma ready_upd: "(\<And>c. cl_watched (f c) = cl_watched c) \<Longrightarrow> ready i (upd j f s) = ready i s"
  by (rule ready_cong) simp_all

lemma ready_simps [simp]:
  "ready i (mark J s) = ready i s" "ready i (reply_to j r s) = ready i s" "ready i (feed cs s) = ready i s"
  "ready i (clear_multi j s) = ready i s" "ready i (initClientMultiState j s) = ready i s"
  "ready i (queueMultiCommand j cmd av s) = ready i s" "ready i (flagTransaction j s) = ready i s"
  "ready i (s\<lparr>sv_db := d\<rparr>) = ready i s" "ready i (s\<lparr>sv_numcommands := n\<rparr>) = ready i s"
  "ready i (upd j (\<lambda>c. c\<lparr>cl_multi := b\<rparr>) s) = ready i s" "ready i (upd j (\<lambda>c. c\<lparr>cl_dirty_cas := b\<rparr>) s) = ready i s"
  "ready i (upd j (\<lambda>c. c\<lparr>cl_close := b\<rparr>) s) = ready i s" "ready i (upd j (\<lambda>c. c\<lparr>cl_reply := rs\<rparr>) s) = ready i s"
  by (rule ready_cong;
    simp add: clear_multi_def initClientMultiState_def queueMultiCommand_def flagTransaction_def)+

lemma flush_keys_mark: "flush_keys e i ks d s = Some (d', s') \<Longrightarrow> \<exists>J. s' = mark J s"
proof (induction e i ks d s rule: flush_keys.induct)
  case (1 e i d s)
  then show ?case by (auto intro: exI [of _ "{}"])
next
  case (2 e i key keys d s)
  then obtain d1 de where d: "dictFind (dbDictType (e_seed e)) d key = Some (d1, de)" by (auto split: bind_splits)
  from 2(1) [OF d] 2(2) d show ?case by (cases "de = None") (auto simp: upd_mark)
qed

lemma flush_mark: "touchWatchedKeysOnFlush e is' d s = Some s' \<Longrightarrow> \<exists>J. s' = mark J s"
proof (induction e is' d s rule: touchWatchedKeysOnFlush.induct)
  case (1 e d s)
  then show ?case by (auto intro: exI [of _ "{}"])
next
  case (2 e i is' d s)
  then obtain d1 s1 where f: "flush_keys e i (cl_watched (sv_client s i)) d s = Some (d1, s1)"
    "touchWatchedKeysOnFlush e is' d1 s1 = Some s'" by (auto split: bind_splits)
  from 2(1) [OF f(1) HOL.refl f(2)] flush_keys_mark [OF f(1)] show ?case by auto
qed

lemma touches_mark: "apply_touches e d ts s = Some s' \<Longrightarrow> \<exists>J. s' = mark J s"
proof (induction e d ts s rule: apply_touches.induct)
  case (1 e d s)
  then show ?case by (auto intro: exI [of _ "{}"])
next
  case (2 e d key ts s)
  then show ?case by (auto simp: touchWatchedKey_mark)
next
  case (3 e d ts s)
  then obtain s1 where f: "touchWatchedKeysOnFlush e (sv_clients s) d s = Some s1" "apply_touches e d ts s1 = Some s'"
    by (auto split: bind_splits)
  from 3(1) [OF f] flush_mark [OF f(1)] show ?case by auto
qed

lemma ready_unwatchAllKeys: "\<lbrakk>unwatchAllKeys i s = Some s'; ready i s\<rbrakk> \<Longrightarrow> ready i s'"
  unfolding ready_def by (elim conjE, rule unwatchAllKeys_ok, assumption+) auto

lemma ready_run_proc:
  assumes "run_proc p e rnd i av s = Some s'" "ready i s"
  shows "ready i s'"
proof (cases p)
  case (Data f)
  then obtain st where "apply_touches e (st_keys (sv_db s)) (touched (st_srv st))
       (upd i (\<lambda>c. c\<lparr>cl_reply := out (st_srv st)\<rparr>) (s\<lparr>sv_db := st\<rparr>)) = Some s'"
    using assms(1) by (auto simp: run_data_def split: bind_splits)
  from touches_mark [OF this] assms(2) show ?thesis by auto
next
  case WatchProc
  then show ?thesis using assms watch_keys(1,2) by (auto simp: watchCommand_def ready_def split: if_splits bind_splits)
qed (use assms in \<open>auto simp: multiCommand_def discardCommand_def discardTransaction_def unwatchCommand_def
    dest: ready_unwatchAllKeys split: if_splits bind_splits\<close>)

lemma ready_call:
  assumes "call p av s = Some s'" "\<And>s'. p s = Some s' \<Longrightarrow> ready i s'"
  shows "ready i s'"
  using assms by (auto simp: call_def Let_def split: bind_splits)

lemma ready_exec_loop: "\<lbrakk>exec_loop i xs qs s = Some s'; ready i s\<rbrakk> \<Longrightarrow> ready i s'"
proof (induction i xs qs s rule: exec_loop.induct)
  case (3 i e rnd xs cmd av qs s)
  then obtain s1 where "call (run_proc (c_proc cmd) e rnd i av) av s = Some s1" "exec_loop i xs qs s1 = Some s'"
    by (auto split: bind_splits)
  moreover have "ready i s1" by (rule ready_call [OF calculation(1)]) (use ready_run_proc 3(3) in blast)
  ultimately show ?case using 3(1) by blast
qed auto

lemma ready_execCommand:
  assumes "execCommand i xs s = Some s'" "ready i s"
  shows "ready i s'"
proof -
  consider "\<not> cl_multi (sv_client s i)" | "cl_multi (sv_client s i)" "cl_dirty_cas (sv_client s i) \<or> cl_dirty_exec (sv_client s i)"
    | "cl_multi (sv_client s i)" "\<not> (cl_dirty_cas (sv_client s i) \<or> cl_dirty_exec (sv_client s i))" by blast
  then show ?thesis
  proof cases
    case 1
    then show ?thesis using assms by (auto simp: execCommand_def)
  next
    case 2
    then show ?thesis using assms ready_unwatchAllKeys [OF _ _] by (fastforce simp: execCommand_def Let_def)
  next
    case 3
    then obtain s1 s2 where s: "unwatchAllKeys i (feed [[bytes ''MULTI'']] s) = Some s1"
      "exec_loop i xs (cl_mstate (sv_client s1 i)) (reply_to i (MultiBulk (int (length (cl_mstate (sv_client s1 i))))) s1) = Some s2"
      "s' = (clear_multi i (initClientMultiState i s2))\<lparr>sv_db := addDirty 1 (sv_db (clear_multi i (initClientMultiState i s2)))\<rparr>"
      using assms(1) by (auto simp: execCommand_def Let_def split: bind_splits)
    have "ready i s1" using ready_unwatchAllKeys [OF s(1)] assms(2) by simp
    then show ?thesis using ready_exec_loop [OF s(2)] by (simp add: s(3))
  qed
qed

lemma ready_exec_command:
  assumes "exec_command e rnd xs i cmd av s = Some s'" "ready i s"
  shows "ready i s'"
proof (cases "cl_multi (sv_client s i) \<and> \<not> never_queued (c_proc cmd)")
  case True
  then show ?thesis using assms by (auto simp: exec_command_def)
next
  case False
  then show ?thesis using assms ready_call [OF _ ready_execCommand] ready_call [OF _ ready_run_proc]
    unfolding exec_command_def by (cases "c_proc cmd") (auto dest: ready_call [OF _ ready_execCommand] ready_call [OF _ ready_run_proc])
qed

lemma processCommand_ready:
  assumes "processCommand g e rnd xs i av s = Some (s', b)" "ready i s"
  shows "ready i s'"
  using assms ready_exec_command
  by (auto simp: processCommand_def split: option.splits if_splits bind_splits)

interpretation server: request_runner run_in is_quit
proof
  fix c i av s s'
  assume r: "run_in c i av s = Some (s', False)"
  then obtain g e rnd xs name where "c = (g, e, rnd, xs)" "key_at av 0 = Some name" "processCommand g e rnd xs i av s = Some (s', False)"
    by (cases c) (auto simp: run_in_def processCommand_def split: bind_splits)
  then show "cl_close (sv_client s' i)" using processCommand_close [of g e rnd xs i av s s' False] by (auto split: if_splits)
next
  fix c i av s s' b
  assume "run_in c i av s = Some (s', b)" "ready i s"
  then show "ready i s'" using processCommand_ready by (cases c) (auto simp: run_in_def)
next
  fix c i av s s' b r
  assume r: "run_in c i av s = Some (s', b)" "list_all2 sds_rep av r" "valid_request r" "\<not> is_quit r"
  obtain g e rnd xs where c: "c = (g, e, rnd, xs)" by (cases c)
  obtain a av' x r' where a: "av = a # av'" "r = x # r'" "sds_rep a x" using r(2,3) by (cases av; cases r) (auto simp: valid_request_def)
  then have "key_at av 0 = Some x" by (simp add: key_at_def argv_at_def sds_text_rep)
  then show "b \<and> cl_close (sv_client s' i) = cl_close (sv_client s i)"
    using processCommand_close [of g e rnd xs i av s s' b x] r(1,4) a(2) c by (auto simp: run_in_def is_quit_def same_close_def)
qed


section \<open>The properties\<close>

lemma createParser_ex: "\<exists>q. createParser = Some q"
proof -
  obtain b where b: "sdsempty = Some b" using sdsempty_rep by blast
  show ?thesis unfolding createParser_def b by simp
qed

text \<open>
  C4.  Whatever bytes arrive on a new connection of a client of the server, in whatever pieces, and
  whatever the commands in them do, the parser stays in its buffer, fails no assertion and terminates:
  if a command without a result is taken to do nothing (\<open>total_run\<close>), the delivery has a result \<open>r\<close>.  It
  amounts (\<open>delivers\<close>) to running some commands in order, at most one for each byte, each with at least
  one argument and each argument a well-formed string, and perhaps replying with one protocol error
  and closing the connection.  The delivery to the server itself gives the same result unless one of
  these commands has none.
\<close>

theorem any_input_runs_commands:
  assumes "createParser = Some q" "watch_inv s" "i \<in> set (sv_clients s)" "length (concat chunks) \<le> length cs"
  shows "\<exists>avs r. deliver_all (total_run run_in) querybuf_max i chunks (q, s, cs) = Some r \<and>
    delivers run_in i s cs (length (concat chunks)) avs r \<and>
    deliver_all run_in querybuf_max i chunks (q, s, cs) = (if run_all run_in i avs (s, cs) = None then None else Some r)"
  by (rule server.fresh_input_runs [OF assms(1) order_refl _ assms(4)]) (simp add: ready_def assms(2,3))

definition sample_bytes :: "byte list list" where
  "sample_bytes = [bytes ''*1'', [13, 10, 36, 0, 13]]"

definition sample_contexts :: "cmd_context list" where
  "sample_contexts = replicate 7 (sample_config, sample_env, [], [])"

theorem any_input_runs_commands_witness:
  "\<exists>q avs r. createParser = Some q \<and>
    deliver_all (total_run run_in) querybuf_max 0 sample_bytes (q, sample_clients, sample_contexts) = Some r \<and>
    delivers run_in 0 sample_clients sample_contexts 7 avs r"
proof -
  obtain q where q: "createParser = Some q" using createParser_ex by blast
  have "watch_inv sample_clients"
    using reachable_good [OF sample_accept] by (simp add: good_state_def server_inv_def)
  moreover have "length (concat sample_bytes) = 7" by (simp add: sample_bytes_def)
  ultimately show ?thesis
    using any_input_runs_commands [OF q, of sample_clients 0 sample_bytes sample_contexts] q
    by (auto simp: sample_watch_eval sample_contexts_def)
qed

text \<open>
  C3.  Requests that a client writes one after the other are read back in order and exactly, whatever
  bytes their arguments hold and however the connection cuts the stream into pieces: the effect is that
  of running the commands one by one, each argument a string with the text that was sent.
\<close>

theorem requests_survive_chunking:
  assumes "createParser = Some q" "list_all valid_request rs" "list_all (\<lambda>r. \<not> is_quit r) rs"
    "concat chunks = concat (map encode_request rs)" "\<not> cl_close (sv_client s i)"
  shows "\<exists>avs q'. list_all2 (list_all2 sds_rep) avs rs \<and>
    deliver_all run_in querybuf_max i chunks (q, s, cs) = map_option (\<lambda>(s', cs'). Inr (q', s', cs')) (run_all run_in i avs (s, cs))"
  by (rule server.requests_read_back [OF assms])

text \<open>\<open>GET\<close> of a key with a line end in its name, in two pieces, and \<open>PING\<close>.\<close>

definition sample_requests :: "byte list list list" where
  "sample_requests = [[bytes ''get'', [13, 10]], [bytes ''ping'']]"

theorem requests_survive_chunking_witness:
  "\<exists>q avs q'. createParser = Some q \<and> list_all2 (list_all2 sds_rep) avs sample_requests \<and>
    deliver_all run_in querybuf_max 0
      [bytes ''*2'', [13, 10] @ bytes ''$3'' @ [13, 10] @ bytes ''get'' @ [13, 10] @ bytes ''$2'' @ [13, 10, 13],
       [10, 13, 10] @ bytes ''*1'' @ [13, 10] @ bytes ''$4'' @ [13, 10] @ bytes ''ping'' @ [13], [10]]
      (q, sample_clients, [(sample_config, sample_env, [], []), (sample_config, sample_env, [], [])])
    = map_option (\<lambda>(s', cs'). Inr (q', s', cs'))
        (run_all run_in 0 avs (sample_clients, [(sample_config, sample_env, [], []), (sample_config, sample_env, [], [])]))"
proof -
  obtain q where q: "createParser = Some q" using createParser_ex by blast
  have "list_all valid_request sample_requests" by (simp add: sample_requests_def valid_request_def)
  moreover have "list_all (\<lambda>r. \<not> is_quit r) sample_requests" by (simp add: sample_requests_def is_quit_def char_tolower_def)
  moreover have "concat [bytes ''*2'', [13, 10] @ bytes ''$3'' @ [13, 10] @ bytes ''get'' @ [13, 10] @ bytes ''$2'' @ [13, 10, 13],
       [10, 13, 10] @ bytes ''*1'' @ [13, 10] @ bytes ''$4'' @ [13, 10] @ bytes ''ping'' @ [13], [10]]
      = concat (map encode_request sample_requests)" by code_simp
  moreover have "\<not> cl_close (sv_client sample_clients 0)" by (simp add: sample_watch_eval)
  ultimately show ?thesis using requests_survive_chunking [OF q] q by blast
qed

end
