(* ===== verification/Clients.thy ===== *)
theory Clients
  imports Reach
begin

text \<open>
  What a client observes of the key space, stated over the database itself: \<open>visible\<close> is the value a
  lookup of a key finds.  The commands are those of the table; the proofs
  evaluate their specifications.
\<close>

section \<open>The observable state\<close>

definition is_expired :: "env \<Rightarrow> db \<Rightarrow> byte list \<Rightarrow> bool" where
  "is_expired e st k \<longleftrightarrow>
     (case expire_of st k of None \<Rightarrow> False | Some w \<Rightarrow> 0 \<le> w \<and> \<not> e_loading e \<and> w < e_now e)"

definition visible :: "env \<Rightarrow> db \<Rightarrow> byte list \<Rightarrow> val option" where
  "visible e st k = (if is_expired e st k \<and> \<not> e_slave e then None else db_values st k)"

abbreviation replies_of :: "db \<Rightarrow> reply list" where
  "replies_of st \<equiv> out (st_srv st)"

text \<open>A database the server can reach, and room for \<open>n\<close> more keys.\<close>

definition good_db :: "env \<Rightarrow> db \<Rightarrow> bool" where
  "good_db e st \<longleftrightarrow> db_ok (e_seed e) st (db_view st)"

definition has_room :: "nat \<Rightarrow> db \<Rightarrow> bool" where
  "has_room n st \<longleftrightarrow> card (dom (db_values st)) + n \<le> 2 ^ 29"

lemma rel_observe:
  assumes "db_rel e st a"
  shows "db_values st = st_keys a" "expire_of st = st_expires a" "is_expired e st = expired e a"
    "visible e st k = a_look e k a" "replies_of st = out (st_srv a)"
proof -
  show v: "db_values st = st_keys a" using db_rel_values [OF assms] by simp
  show x: "expire_of st = st_expires a" using assms by (auto simp: expire_of_def db_rel_def)
  show i: "is_expired e st = expired e a" by (auto simp: is_expired_def expired_def x fun_eq_iff)
  show "visible e st k = a_look e k a" by (simp add: visible_def a_look_def i v)
  show "replies_of st = out (st_srv a)" using assms by (simp add: db_rel_def)
qed

lemma good_dbE:
  assumes "good_db e st"
  obtains a where "db_rel e st a" "db_wf a" "sets_ok a" "\<And>n. has_room n st \<Longrightarrow> room n a"
proof -
  obtain e' a where a: "e_seed e' = e_seed e" "db_rel e' st a" "db_wf a" using assms by (auto simp: good_db_def db_ok_def)
  then have r: "db_rel e st a" using db_rel_seed [of e e' st a] by simp
  have "finite (dom (dict_map (st_keys st)))" by (simp add: dict_map_def finite_dom_map_of)
  then have "finite (dom (st_keys a))" using db_rel_dom [OF r] by simp
  then have "room n a" if "has_room n st" for n using that rel_observe(1) [OF r] by (simp add: room_def has_room_def)
  then show thesis using that r a(3) by (simp add: db_wf_def)
qed

lemma rel_good: "\<lbrakk>db_rel e st a; db_wf a\<rbrakk> \<Longrightarrow> good_db e st"
  using db_rel_view by (fastforce simp: good_db_def db_ok_def)

lemma empty_good: "good_db e empty_db" "has_room 1 empty_db" "visible e empty_db k = None" "replies_of empty_db = []"
proof -
  show "good_db e empty_db" by (rule rel_good [OF empty_db_rel]) (simp add: db_wf_def sets_ok_def a_empty_def)
  show "has_room 1 empty_db" using rel_observe(1) [OF empty_db_rel] by (simp add: has_room_def a_empty_def)
  show "visible e empty_db k = None" using rel_observe(4) [OF empty_db_rel] by (simp add: a_look_def a_empty_def)
  show "replies_of empty_db = []" by (simp add: empty_db_def empty_srv_def)
qed

text \<open>A lookup, on the maps.\<close>

lemma a_look_eval: "a_look e k a = (if expired e a k \<and> \<not> e_slave e then None else st_keys a k)"
  by (simp add: a_look_def)

lemmas observe = a_look_eval expired_def a_setKey_def a_update_def

section \<open>Strings\<close>

lemma get_after_set_ok:
  assumes "good_db e st" "has_room 1 st" "arg_rep v xs" "printable xs"
  shows "\<exists>st1 st2. setCommand e k v st = Some st1 \<and> getCommand e k st1 = Some st2 \<and>
    replies_of st2 = replies_of st @ [shared_ok, Bulk xs] \<and> good_db e st2 \<and> expire_of st2 k = None \<and>
    visible e st2 k = Some (VStr xs) \<and> (\<forall>k'. k' \<noteq> k \<longrightarrow> visible e st2 k' = visible e st k' \<and> expire_of st2 k' = expire_of st k')"
proof -
  obtain a where a: "db_rel e st a" "db_wf a" "room 1 a" using assms(1,2) by (auto elim: good_dbE)
  define b where "b = a_setGeneric e False k xs None UNIT_SECONDS a"
  obtain st1 where s1: "setCommand e k v st = Some st1" "db_rel e st1 b"
    using set_variants_ok(1) [OF a(1,3) assms(3)] assms(4) by (auto simp: ok_iff printable_def b_def)
  obtain st2 where s2: "getCommand e k st1 = Some st2" "db_rel e st2 (fst (a_getGeneric e k b))"
    using getCommand_ok [OF s1(2), of k] by (auto simp: ok_iff)
  have look: "a_look e k b = Some (VStr xs)"
    by (simp add: b_def a_setGeneric_def set_ttl_def observe)
  have c: "fst (a_getGeneric e k b) = addReply (Bulk xs) (a_read e k b)" by (simp add: a_getGeneric_def look)
  note o1 = rel_observe [OF a(1)] and o2 = rel_observe [OF s2(2)]
  have "evolves e a b" "evolves e b (fst (a_getGeneric e k b))" unfolding b_def by (rule string_evolves)+
  then have wf: "db_wf (fst (a_getGeneric e k b))" using a(2) by (simp add: evolves_def)
  have "visible e st2 k' = visible e st k' \<and> expire_of st2 k' = expire_of st k'" if "k' \<noteq> k" for k'
    using that unfolding o1 o2 c by (simp add: b_def a_setGeneric_def set_ttl_def observe)
  moreover have "visible e st2 k = Some (VStr xs)" "expire_of st2 k = None"
    unfolding o2 c by (simp_all add: b_def a_setGeneric_def set_ttl_def observe)
  moreover have "replies_of st2 = replies_of st @ [shared_ok, Bulk xs]"
    unfolding o1 o2 c by (simp add: b_def a_setGeneric_def set_ttl_def a_setKey_def)
  ultimately show ?thesis using s1(1) s2(1) rel_good [OF s2(2) wf] by blast
qed


text \<open>Replies, counts and signals do not change what is seen.\<close>

lemma look_srv [simp]:
  "a_look e k (addReply r a) = a_look e k a" "a_look e k (addDirty n a) = a_look e k a"
  "a_look e k (signalModifiedKey k' a) = a_look e k a"
  by (simp_all add: observe)

text \<open>Running a command whose outcome is known on the maps.\<close>

lemma run_spec:
  assumes "db_wf a" "ok r (\<lambda>st'. db_rel e st' c)" "evolves e a c"
  obtains st1 where "r = Some st1" "db_rel e st1 c" "good_db e st1"
  using assms rel_good by (auto simp: ok_iff evolves_def)

text \<open>The number a counter holds: a missing key counts as 0.\<close>

definition counter_value :: "val option \<Rightarrow> int option" where
  "counter_value v = (case v of None \<Rightarrow> Some 0 | Some (VStr xs) \<Rightarrow> parse_ll xs | Some (VSet S) \<Rightarrow> None)"

lemma incr_fits:
  assumes "good_db e st" "has_room 1 st" "arg_rep arg t" "parse_ll t = Some d"
    and "counter_value (visible e st k) = Some n" "n + d \<noteq> - (2 ^ 63)"
  shows "\<exists>st1. incrbyCommand e k arg st = Some st1 \<and> good_db e st1 \<and>
    replies_of st1 = replies_of st @ [if in_sbytes 8 (n + d) then Integer (n + d)
      else Error ''increment or decrement would overflow''] \<and>
    visible e st1 k = (if in_sbytes 8 (n + d) then Some (VStr (dec_int (n + d))) else visible e st k) \<and>
    (visible e st k \<noteq> None \<longrightarrow> expire_of st1 k = expire_of st k) \<and>
    (\<forall>k'. k' \<noteq> k \<longrightarrow> visible e st1 k' = visible e st k' \<and> expire_of st1 k' = expire_of st k')"
proof -
  obtain a where a: "db_rel e st a" "db_wf a" "room 1 a" using assms(1,2) by (auto elim: good_dbE)
  note o1 = rel_observe [OF a(1)]
  have cv: "counter_value (a_look e k a) = Some n" using assms(5) by (simp add: o1)
  obtain st1 where s1: "incrbyCommand e k arg st = Some st1" "db_rel e st1 (a_incr e k d a)" "good_db e st1"
  proof (rule run_spec [OF a(2)])
    have "n' + d' \<noteq> - (2 ^ 63)" if "parse_ll t = Some d'" "a_look e k a = Some (VStr xs)" "parse_ll xs = Some n'" for d' xs n'
      using that cv assms(4,6) by (simp add: counter_value_def)
    moreover have "d' \<noteq> - (2 ^ 63)" if "parse_ll t = Some d'" "a_look e k a = None" for d'
      using that cv assms(4,6) by (simp add: counter_value_def)
    ultimately have "ok (incrbyCommand e k arg st) (\<lambda>st'. db_rel e st' (case parse_ll t of
        None \<Rightarrow> addReply err_not_integer a | Some d \<Rightarrow> a_incr e k d a))" by (rule incrby_ok [OF a(1,3) assms(3)])
    then show "ok (incrbyCommand e k arg st) (\<lambda>st'. db_rel e st' (a_incr e k d a))" by (simp add: assms(4))
    show "evolves e a (a_incr e k d a)" by (rule string_evolves)
  qed
  have run: "a_incr e k d a = (if in_sbytes 8 (n + d) then a_update k (dec_int (n + d)) (n + d) (a_expire e k a)
      else addReply (Error ''increment or decrement would overflow'') (a_expire e k a))"
    using cv by (auto simp: a_incr_def a_string_def counter_value_def split: option.splits val.splits)
  note o2 = rel_observe [OF s1(2), unfolded run]
  have "replies_of st1 = replies_of st @ [if in_sbytes 8 (n + d) then Integer (n + d)
      else Error ''increment or decrement would overflow'']"
    unfolding o1 o2 by (simp add: a_update_def)
  moreover have "visible e st1 k = (if in_sbytes 8 (n + d) then Some (VStr (dec_int (n + d))) else visible e st k)"
    unfolding o1 o2 by (auto simp: observe split: option.splits)
  moreover have "visible e st k \<noteq> None \<longrightarrow> expire_of st1 k = expire_of st k"
    unfolding o1 o2 by (auto simp: observe a_expire_def)
  moreover have "visible e st1 k' = visible e st k' \<and> expire_of st1 k' = expire_of st k'" if "k' \<noteq> k" for k'
    using that unfolding o1 o2 by (simp add: observe)
  ultimately show ?thesis using s1(1,3) by blast
qed

text \<open>A sum of \<open>- (2 ^ 63)\<close> is stored, but writing its text into the reply negates it: undefined behaviour.\<close>

lemma incr_min:
  assumes "db_rel e st a" "counter_value (a_look e k a) = Some n" "n + d = - (2 ^ 63)" "in_sbytes 8 d"
  shows "incrDecrCommand e k d st = None"
proof -
  obtain s r where look: "lookupKeyWrite e st k = Some (s, r)" "rel_option (obj_rep (e_seed e)) r (a_look e k a)"
    using lookupKeyWrite_ok [OF assms(1), of k] by (auto simp: ok_iff)
  have n: "(case r of None \<Rightarrow> (s, False) | Some ob \<Rightarrow> checkType s ob REDIS_STRING) = (s, False) \<and>
    getLongLongFromObject r = Some (Some n) \<and> in_sbytes 8 n"
  proof (cases r)
    case None
    then have "n = 0" using look(2) assms(2) by (simp add: counter_value_def)
    then show ?thesis using None by (simp add: getLongLongFromObject_def in_sbytes_def)
  next
    case (Some ob)
    then obtain v where v: "a_look e k a = Some v" "obj_rep (e_seed e) ob v" using look(2) by (cases "a_look e k a") auto
    obtain xs where xs: "v = VStr xs" "parse_ll xs = Some n" using v(1) assms(2) by (cases v) (auto simp: counter_value_def)
    have o: "obj_rep (e_seed e) ob (VStr xs)" using v(2) xs(1) by simp
    show ?thesis
      using getLongLongFromObject_ok [OF o] obj_rep_type [OF o] parse_ll_range [OF xs(2)]
      by (simp add: Some checkType_def xs(2))
  qed
  then have g: "getLongLongFromObjectOrReply s r None = Some (s, Some n)" by (simp add: getLongLongFromObjectOrReply_def)
  have "in_sbytes 8 (- (2 ^ 63))" by (simp add: in_sbytes_def)
  then have chk: "\<not> (d < 0 \<and> n < 0 \<and> d < - (2 ^ 63) - n \<or> d > 0 \<and> n > 0 \<and> d > 2 ^ 63 - 1 - n)"
    and ll: "c_llong (n + d) = Some (- (2 ^ 63))"
    using incr_check [OF _ assms(4), of n] n assms(3) c_llong_ok by simp_all
  have new: "createStringObjectFromLongLong (- (2 ^ 63)) = Some (StrInt (- (2 ^ 63)))"
    "obj_text (StrInt (- (2 ^ 63))) = None"
    using ll2string_min [of 32] by (simp_all add: createStringObjectFromLongLong_def obj_text_def getDecodedObject_def)
  show ?thesis
    unfolding incrDecrCommand_def look(1) bind.bind_lunit prod.case conjunct1 [OF n] Let_def if_False g option.case
      if_not_P [OF chk] ll new
    by (simp add: bind_eq_None_conv)
qed

lemma incr_ok:
  assumes "good_db e st" "has_room 1 st" "arg_rep arg t" "parse_ll t = Some d"
    and "counter_value (visible e st k) = Some n"
  shows "if n + d = - (2 ^ 63) then incrbyCommand e k arg st = None
    else \<exists>st1. incrbyCommand e k arg st = Some st1 \<and> good_db e st1 \<and>
      replies_of st1 = replies_of st @ [if in_sbytes 8 (n + d) then Integer (n + d)
        else Error ''increment or decrement would overflow''] \<and>
      visible e st1 k = (if in_sbytes 8 (n + d) then Some (VStr (dec_int (n + d))) else visible e st k) \<and>
      (visible e st k \<noteq> None \<longrightarrow> expire_of st1 k = expire_of st k) \<and>
      (\<forall>k'. k' \<noteq> k \<longrightarrow> visible e st1 k' = visible e st k' \<and> expire_of st1 k' = expire_of st k')"
proof (cases "n + d = - (2 ^ 63)")
  case True
  obtain a where a: "db_rel e st a" using assms(1) by (auto elim: good_dbE)
  have "incrbyCommand e k arg st = incrDecrCommand e k d st"
    using assms(4) by (simp add: incrbyCommand_def getLongLongOrReply_eval [OF arg_obj_rep [OF assms(3)]])
  moreover have "incrDecrCommand e k d st = None"
    using incr_min [OF a _ True parse_ll_range [OF assms(4)]] assms(5) by (simp add: rel_observe [OF a])
  ultimately show ?thesis using True by simp
qed (use incr_fits [OF assms] in simp)

section \<open>Several keys\<close>

lemma fold_setKey_look:
  "a_look e k (fold (\<lambda>(k, v). a_setKey e k (VStr v)) kvs a) =
    (case map_of (rev kvs) k of None \<Rightarrow> a_look e k a | Some v \<Rightarrow> Some (VStr v))"
proof (induction kvs rule: rev_induct)
  case (snoc kv kvs)
  obtain k1 v1 where kv: "kv = (k1, v1)" by (cases kv)
  have "a_look e k (a_setKey e k1 (VStr v1) b) = (if k = k1 then Some (VStr v1) else a_look e k b)" for b
    by (simp add: observe)
  then show ?case using snoc.IH by (simp add: kv)
qed simp

lemma fold_expire_look: "a_look e k (fold (\<lambda>(k, v). a_expire e k) kvs a) = a_look e k a"
  by (induction kvs arbitrary: a) (auto simp: a_look_expire)

lemma fold_srv:
  "out (st_srv (fold (\<lambda>(k, v). a_setKey e k (VStr v)) kvs a)) = out (st_srv a)"
  "out (st_srv (fold (\<lambda>(k, v). a_expire e k) kvs a)) = out (st_srv a)"
  by (induction kvs arbitrary: a) (auto simp: a_setKey_def)

lemma msetnx_ok:
  assumes "good_db e st" "has_room (length kvs) st" "mset_args args kvs"
  shows "\<exists>st1. msetGenericCommand e args True st = Some st1 \<and> good_db e st1 \<and>
    (if \<exists>(k, v) \<in> set kvs. visible e st k \<noteq> None
     then replies_of st1 = replies_of st @ [shared_czero] \<and> visible e st1 = visible e st
     else replies_of st1 = replies_of st @ [shared_cone] \<and>
       visible e st1 = (\<lambda>k. case map_of (rev kvs) k of None \<Rightarrow> visible e st k | Some v \<Rightarrow> Some (VStr v)))"
proof -
  obtain a where a: "db_rel e st a" "db_wf a" "room (length kvs) a" using assms(1,2) by (auto elim: good_dbE)
  note o1 = rel_observe [OF a(1)]
  obtain st1 where s1: "msetGenericCommand e args True st = Some st1" "db_rel e st1 (a_mset e kvs True a)" "good_db e st1"
    by (rule run_spec [OF a(2) mset_ok [OF a(1) assms(3) a(3)] mset_evolves])
  note o2 = rel_observe [OF s1(2)]
  show ?thesis
  proof (cases "\<exists>(k, v) \<in> set kvs. a_look e k a \<noteq> None")
    case True
    then have "a_mset e kvs True a = addReply shared_czero (fold (\<lambda>(k, v). a_expire e k) kvs a)" by (simp add: a_mset_def Let_def)
    then show ?thesis using s1(1,3) True by (auto simp: o1 o2 fold_expire_look fold_srv fun_eq_iff)
  next
    case False
    then have "a_mset e kvs True a = addReply shared_cone (addDirty (int (length kvs))
        (fold (\<lambda>(k, v). a_setKey e k (VStr v)) kvs (fold (\<lambda>(k, v). a_expire e k) kvs a)))" by (auto simp: a_mset_def Let_def)
    then show ?thesis using s1(1,3) False
      by (auto simp: o1 o2 fold_expire_look fold_setKey_look fold_srv fun_eq_iff cong: option.case_cong)
  qed
qed

lemma rename_ok:
  assumes "good_db e st" "has_room 1 st" "src \<noteq> dst" "visible e st src = Some v"
  shows "\<exists>st1. renameCommand e src dst st = Some st1 \<and> good_db e st1 \<and>
    replies_of st1 = replies_of st @ [shared_ok] \<and> visible e st1 src = None \<and> expire_of st1 src = None \<and>
    db_values st1 dst = Some v \<and>
    expire_of st1 dst = (if expire_of st src = Some (- 1) then None else expire_of st src) \<and>
    (\<forall>k. k \<noteq> src \<and> k \<noteq> dst \<longrightarrow> visible e st1 k = visible e st k \<and> expire_of st1 k = expire_of st k)"
proof -
  obtain a where a: "db_rel e st a" "db_wf a" "room 1 a" using assms(1,2) by (auto elim: good_dbE)
  note o1 = rel_observe [OF a(1)]
  obtain st1 where s1: "renameCommand e src dst st = Some st1"
      "db_rel e st1 (a_renameGeneric e src dst False a)" "good_db e st1"
    by (rule run_spec [OF a(2) renameGeneric_ok [OF a(1,3), of src dst False, folded renameCommand_def] rename_evolves])
  have v: "a_look e src a = Some v" using assms(4) by (simp add: o1)
  then have src: "st_keys a src = Some v" "\<not> (expired e a src \<and> \<not> e_slave e)" by (auto simp: a_look_def split: if_splits)
  then have x: "a_expire e src a = a" by (auto simp: a_expire_def)
  define b where "b = a_expire e dst a"
  have b: "st_keys b k = st_keys a k" "st_expires b k = st_expires a k" if "k \<noteq> dst" for k
    using that by (simp_all add: b_def)
  define ttl where "ttl = (if st_expires a src = Some (- 1) then None else st_expires a src)"
  define c where "c = b\<lparr>st_keys := (st_keys b)(dst \<mapsto> v, src := None), st_expires := (st_expires b)(dst := ttl, src := None)\<rparr>"
  have run: "a_renameGeneric e src dst False a = addReply shared_ok (addDirty 1 (signalModifiedKey dst (signalModifiedKey src c)))"
    using assms(3) b(2) [of src] by (auto simp: a_renameGeneric_def v x b_def [symmetric] c_def ttl_def split: option.splits)
  note o2 = rel_observe [OF s1(2), unfolded run]
  have "a_look e k c = a_look e k a \<and> st_expires c k = st_expires a k" if "k \<noteq> src" "k \<noteq> dst" for k
    using that b [of k] by (simp add: c_def observe)
  moreover have "a_look e src c = None" "st_expires c src = None" "st_keys c dst = Some v" "st_expires c dst = ttl"
    using assms(3) by (simp_all add: c_def observe)
  moreover have "out (st_srv c) = out (st_srv a)" by (simp add: c_def b_def)
  ultimately show ?thesis using s1(1,3) by (simp add: o1 o2 ttl_def)
qed

section \<open>Sets\<close>

text \<open>The members of \<open>T\<close>, each once, as one multi-bulk reply.\<close>

definition set_reply :: "db \<Rightarrow> db \<Rightarrow> byte list set \<Rightarrow> bool" where
  "set_reply st st' T \<longleftrightarrow> (\<exists>ts. distinct ts \<and> set ts = T \<and>
     replies_of st' = replies_of st @ MultiBulk (int (length ts)) # map Bulk ts)"

definition members_of :: "env \<Rightarrow> db \<Rightarrow> byte list \<Rightarrow> byte list set" where
  "members_of e st k = members (visible e st k)"

lemma visit_srv [simp]: "out (st_srv (a_visit e store k a)) = out (st_srv a)"
  by (simp add: a_visit_def)

lemma inter_look_sees:
  assumes "\<forall>k \<in> set ks. \<not> wrong_type (a_look e k a)"
  shows "a_look e k (fst (a_inter_look e store ks a)) = a_look e k a \<and>
    out (st_srv (fst (a_inter_look e store ks a))) = out (st_srv a) \<and>
    snd (a_inter_look e store ks a) = (if \<exists>k \<in> set ks. a_look e k a = None then Missing else AllSets)"
  using assms by (induction ks arbitrary: a) (auto simp: Let_def)

lemma union_look_sees:
  assumes "\<forall>k \<in> set ks. \<not> wrong_type (a_look e k a)"
  shows "a_look e k (fst (a_union_look e store ks a)) = a_look e k a \<and>
    out (st_srv (fst (a_union_look e store ks a))) = out (st_srv a) \<and> snd (a_union_look e store ks a)"
  using assms by (induction ks arbitrary: a) (auto simp: Let_def)

lemma reply_set_sees:
  assumes "a_reply_set T b c" "db_rel e st a" "db_rel e st1 c" "out (st_srv b) = out (st_srv a)" "\<And>k. a_look e k b = a_look e k a"
  shows "set_reply st st1 T \<and> visible e st1 = visible e st"
proof -
  obtain ts where ts: "distinct ts" "set ts = T" "c = a_bulks ts (addReply (MultiBulk (int (length ts))) b)"
    using assms(1) by (auto simp: a_reply_set_def)
  have "replies_of st1 = replies_of st @ MultiBulk (int (length ts)) # map Bulk ts"
    unfolding rel_observe(5) [OF assms(2)] rel_observe(5) [OF assms(3)] by (simp add: ts(3) a_bulks_def on_srv_def assms(4))
  moreover have "a_look e k c = a_look e k b" for k by (simp add: ts(3) a_bulks_def observe)
  then have "visible e st1 = visible e st"
    using rel_observe(4) [OF assms(2)] rel_observe(4) [OF assms(3)] assms(5) by (simp add: fun_eq_iff)
  ultimately show ?thesis using ts(1,2) by (auto simp: set_reply_def)
qed

lemma sinter_sees:
  assumes "a_sinter e ks None a c" "db_rel e st a" "db_rel e st1 c" "ks \<noteq> []" "\<forall>k \<in> set ks. \<not> wrong_type (a_look e k a)"
  shows "set_reply st st1 (\<Inter>k \<in> set ks. members_of e st k) \<and> visible e st1 = visible e st"
proof -
  obtain b r where l: "a_inter_look e False ks a = (b, r)" by fastforce
  note sees = inter_look_sees [OF assms(5), of _ False, unfolded l, simplified]
  have mem: "members_of e st k = members (a_look e k a)" for k
    by (simp add: members_of_def rel_observe(4) [OF assms(2)])
  have "a_reply_set (\<Inter>k \<in> set ks. members_of e st k) b c"
  proof (cases "\<exists>k \<in> set ks. a_look e k a = None")
    case True
    then have e: "(\<Inter>k \<in> set ks. members_of e st k) = {}" by (auto simp: mem members_def)
    have "c = addReply shared_emptymultibulk b" using assms(1) l sees True by (simp add: a_sinter_def)
    then show ?thesis by (simp add: a_reply_set_def a_bulks_def on_srv_def e)
  next
    case False
    then have r: "a_inter_look e False ks a = (b, AllSets)" using l sees by simp
    have "inter_of b ks = (\<Inter>k \<in> set ks. members_of e st k)"
      using inter_look_keys [OF r] by (auto simp: inter_of_def mem)
    then show ?thesis using assms(1) r by (simp add: a_sinter_def a_set_result_def)
  qed
  then show ?thesis by (rule reply_set_sees [OF _ assms(2,3)]) (use sees in simp_all)
qed

lemma sunion_diff_sees:
  assumes "a_sunion_diff e ks None op a c" "db_rel e st a" "db_rel e st1 c" "ks \<noteq> []" "\<forall>k \<in> set ks. \<not> wrong_type (a_look e k a)"
  shows "set_reply st st1 (case op of REDIS_OP_UNION \<Rightarrow> \<Union>k \<in> set ks. members_of e st k
      | REDIS_OP_DIFF \<Rightarrow> members_of e st (hd ks) - (\<Union>k \<in> set (tl ks). members_of e st k)) \<and> visible e st1 = visible e st"
proof -
  obtain b where l: "a_union_look e False ks a = (b, True)"
    using union_look_sees [OF assms(5), of undefined False] by (metis prod.collapse)
  note sees = union_look_sees [OF assms(5), of _ False, unfolded l, simplified]
  have mem: "members_of e st k = members (a_look e k a)" for k
    by (simp add: members_of_def rel_observe(4) [OF assms(2)])
  have K: "st_keys b k = a_look e k a" if "k \<in> set ks" for k using union_look_keys [OF l] that by blast
  have "union_of b ks = (\<Union>k \<in> set ks. members_of e st k)" using K by (auto simp: union_of_def mem)
  moreover have "diff_of b ks = members_of e st (hd ks) - (\<Union>k \<in> set (tl ks). members_of e st k)"
    using K assms(4) by (cases ks) (auto simp: union_of_def mem)
  ultimately have "a_reply_set (case op of REDIS_OP_UNION \<Rightarrow> \<Union>k \<in> set ks. members_of e st k
      | REDIS_OP_DIFF \<Rightarrow> members_of e st (hd ks) - (\<Union>k \<in> set (tl ks). members_of e st k)) b c"
    using assms(1) l by (cases op) (simp_all add: a_sunion_diff_def a_set_result_def)
  then show ?thesis by (rule reply_set_sees [OF _ assms(2,3)]) (use sees in simp_all)
qed

lemma set_algebra_ok:
  assumes "good_db e st" "has_room 1 st" "ks \<noteq> []" "\<forall>k \<in> set ks. \<not> wrong_type (visible e st k)"
    and "(\<Sum>k \<leftarrow> ks. card (members_of e st k)) \<le> 2 ^ 29 - 1"
  shows "\<exists>s1 s2 s3. sinterCommand e ks st = Some s1 \<and> sunionCommand e ks st = Some s2 \<and> sdiffCommand e ks st = Some s3 \<and>
    set_reply st s1 (\<Inter>k \<in> set ks. members_of e st k) \<and> set_reply st s2 (\<Union>k \<in> set ks. members_of e st k) \<and>
    set_reply st s3 (members_of e st (hd ks) - (\<Union>k \<in> set (tl ks). members_of e st k)) \<and>
    visible e s1 = visible e st \<and> visible e s2 = visible e st \<and> visible e s3 = visible e st"
proof -
  obtain a where a: "db_rel e st a" "sets_ok a" "room 1 a" using assms(1,2) by (auto elim: good_dbE)
  note o1 = rel_observe(4) [OF a(1)]
  have ty: "\<forall>k \<in> set ks. \<not> wrong_type (a_look e k a)" using assms(4) by (simp add: o1)
  have sum: "(\<Sum>k \<leftarrow> ks. card (members (a_look e k a))) \<le> 2 ^ 29 - 1" using assms(5) by (simp add: members_of_def o1)
  have fits: "\<forall>k \<in> set ks. fits 0 (a_look e k a)"
  proof
    fix k assume "k \<in> set ks"
    then have "card (members (a_look e k a)) \<le> (\<Sum>k \<leftarrow> ks. card (members (a_look e k a)))" by (intro member_le_sum_list) auto
    then show "fits 0 (a_look e k a)" using sum by (simp add: fits_def)
  qed
  obtain s1 c1 where s1: "sinterCommand e ks st = Some s1" "a_sinter e ks None a c1" "db_rel e s1 c1"
    using sinter_ok [OF a(1,3) assms(3) a(2) fits, of None] by (auto simp: ok_iff sinterCommand_def)
  obtain s2 c2 where s2: "sunionCommand e ks st = Some s2" "a_sunion_diff e ks None REDIS_OP_UNION a c2" "db_rel e s2 c2"
    using sunion_diff_ok [OF a(1,3,2) sum, of None REDIS_OP_UNION] by (auto simp: ok_iff sunionCommand_def)
  obtain s3 c3 where s3: "sdiffCommand e ks st = Some s3" "a_sunion_diff e ks None REDIS_OP_DIFF a c3" "db_rel e s3 c3"
    using sunion_diff_ok [OF a(1,3,2) sum, of None REDIS_OP_DIFF] by (auto simp: ok_iff sdiffCommand_def)
  show ?thesis
    using sinter_sees [OF s1(2) a(1) s1(3) assms(3) ty] sunion_diff_sees [OF s2(2) a(1) s2(3) assms(3) ty]
      sunion_diff_sees [OF s3(2) a(1) s3(3) assms(3) ty] s1(1) s2(1) s3(1) by auto
qed

section \<open>Bits\<close>





section \<open>Where a width or a test is missing\<close>

text \<open>
  \<open>expireGenericCommand\<close> and \<open>persistCommand\<close> look the key up in the dictionary itself, not through
  \<open>lookupKeyWrite\<close>: a key whose time has come but that nobody has deleted yet is still there.
\<close>

lemma expire_revives_ok:
  assumes "good_db e st" "has_room 0 st" "db_values st k = Some v" "is_expired e st k" "\<not> e_slave e"
    and "arg_rep arg t" "parse_ll t = Some n" "0 < n" "n \<le> 2 ^ 40" "0 \<le> e_now e" "e_now e < 2 ^ 62"
  shows "visible e st k = None \<and>
    (\<exists>st1. expireCommand e k (StrRaw arg) st = Some st1 \<and> visible e st1 k = Some v \<and>
       replies_of st1 = replies_of st @ [Integer 1]) \<and>
    (\<exists>st2. persistCommand e k st = Some st2 \<and> visible e st2 k = Some v \<and> expire_of st2 k = None \<and>
       replies_of st2 = replies_of st @ [Integer 1])"
proof -
  obtain a where a: "db_rel e st a" "room 0 a" using assms(1,2) by (auto elim: good_dbE)
  note o1 = rel_observe [OF a(1)]
  have v: "st_keys a k = Some v" "expired e a k" using assms(3,4) by (simp_all add: o1)
  then obtain w where w: "st_expires a k = Some w" "w < e_now e" "\<not> e_loading e" by (auto simp: expired_def split: option.splits)
  have fits: "expire_arg_ok (e_now e) UNIT_SECONDS t"
    using assms(7-11) by (simp add: expire_arg_ok_def in_sbytes_def)
  obtain st1 where s1: "expireCommand e k (StrRaw arg) st = Some st1" "db_rel e st1 (a_expireGeneric e (e_now e) UNIT_SECONDS k t a)"
    using expireGeneric_ok [OF a arg_obj_rep [OF assms(6)] fits] by (auto simp: ok_iff expireCommand_def)
  have "a_expireGeneric e (e_now e) UNIT_SECONDS k t a =
      addDirty 1 (signalModifiedKey k (addReply shared_cone (a_setexp k (n * 1000 + e_now e) a)))"
    using v assms(7,8) by (simp add: a_expireGeneric_def a_expireAt_def)
  note o2 = rel_observe [OF s1(2), unfolded this]
  obtain st2 where s2: "persistCommand e k st = Some st2" "db_rel e st2 (a_persistCommand k a)"
    using persistCommand_ok [OF a(1), of k] by (auto simp: ok_iff)
  have "a_persistCommand k a = addDirty 1 (addReply shared_cone (a_persist k a))" by (simp add: a_persistCommand_def w)
  note o3 = rel_observe [OF s2(2), unfolded this]
  have "a_look e k a = None" using v(2) assms(5) by (simp add: observe)
  moreover have "a_look e k (a_setexp k (n * 1000 + e_now e) a) = Some v" "a_look e k (a_persist k a) = Some v"
    using v(1) assms(8) by (simp_all add: observe)
  ultimately show ?thesis using s1(1) s2(1) by (simp add: o1 o2 o3)
qed

text \<open>
  \<open>getrangeCommand\<close> compares \<open>(unsigned)end\<close>, 32 bits of a 64-bit index, with the length: an index of
  $2^{32}$ passes the test, and the read of that many bytes leaves the string.
\<close>

lemma getrange_overread_ok:
  assumes "good_db e st" "visible e st k = Some (VStr xs)" "xs \<noteq> []"
    and "arg_rep x1 t1" "parse_ll t1 = Some 0" "arg_rep x2 t2" "parse_ll t2 = Some (2 ^ 32)"
  shows "getrangeCommand e k x1 x2 st = None"
proof -
  obtain a where a: "db_rel e st a" using assms(1) by (auto elim: good_dbE)
  have v: "a_look e k a = Some (VStr xs)" using assms(2) by (simp add: rel_observe(4) [OF a])
  obtain s ob where look: "lookupKeyReadOrReply e st k shared_emptybulk = Some (s, Some ob)" "obj_rep (e_seed e) ob (VStr xs)"
    using lookupKeyReadOrReply_ok [OF a, of k shared_emptybulk] v by (auto simp: ok_iff option_rel_Some2)
  obtain buf where buf: "(case ob of StrInt n \<Rightarrow> do { t \<leftarrow> ll2string 32 n; Some (t @ [0], length t) }
      | StrRaw s \<Rightarrow> Some (sds_buf s, sdslen s) | _ \<Rightarrow> None) = Some (buf, length xs)" "length buf \<le> 2 ^ 31"
    using look(2) by (rule obj_rep_StrE)
      (auto simp: ll2string_32 sdslen_correct elim!: sds_repE dest!: length_dec_int)
  have "\<not> length xs \<le> to_uint32 (2 ^ 32)" using assms(3) by (simp add: to_uint32_def)
  then have bounds: "getrange_bounds (length xs) 0 (2 ^ 32) = (0, 2 ^ 32)" by (simp add: getrange_bounds_def)
  have "to_size (2 ^ 32 - 0 + 1) = 2 ^ 32 + 1" by (simp add: c_arith)
  then have read: "mem_read (nat 0) (to_size (2 ^ 32 - 0 + 1)) buf = None" using buf(2) by (simp add: mem_read_def)
  have ty: "checkType s ob REDIS_STRING = (s, False)" using look(2) by (auto simp: checkType_def elim: obj_valE)
  show ?thesis
    unfolding getrangeCommand_def getLongOrReply_eval [OF arg_obj_rep [OF assms(4)]]
      assms(5) option.case bind.bind_lunit prod.case getLongOrReply_eval [OF arg_obj_rep [OF assms(6)]] assms(7) look(1) ty Let_def if_False
      buf(1) bounds read
    by simp
qed

text \<open>\<open>srandmemberWithCountCommand\<close> converts a count that is not negative to \<open>unsigned\<close>, 32 bits.\<close>

lemma srandmember_wraps_ok:
  assumes "good_db e st" "has_room 1 st" "visible e st k = Some (VSet S)" "card S \<le> 2 ^ 29 - 1"
    and "arg_rep arg t" "parse_ll t = Some l" "0 < l" "l mod 2 ^ 32 = 0"
  shows "S \<noteq> {} \<and> (\<exists>rnds st1. srandmemberWithCountCommand e rnds k arg st = Some st1) \<and>
    (\<forall>rnds st1. srandmemberWithCountCommand e rnds k arg st = Some st1 \<longrightarrow> replies_of st1 = replies_of st @ [MultiBulk 0])"
proof -
  obtain a where a: "db_rel e st a" "sets_ok a" "room 1 a" using assms(1,2) by (auto elim: good_dbE)
  have v: "a_look e k a = Some (VSet S)" using assms(3) by (simp add: rel_observe(4) [OF a(1)])
  have fits: "fits 0 (a_look e k a)" using assms(4) by (simp add: fits_def v members_def)
  have n: "to_uint32 l = 0" using assms(7,8) by (simp add: to_uint32_def)
  have l: "l \<noteq> - (2 ^ 63)" using assms(7) by simp
  note run = srandmember_count_ok [OF a fits assms(5,6) l]
  have "replies_of st1 = replies_of st @ [MultiBulk 0]" if c: "a_srandmember_count e k l a c" and r: "db_rel e st1 c" for st1 c
  proof -
    have c: "c = addReply shared_emptymultibulk (a_read e k a)"
      using c v assms(7) n by (simp add: a_srandmember_count_def wrong_type_def Let_def)
    show ?thesis unfolding rel_observe(5) [OF a(1)] rel_observe(5) [OF r] c by simp
  qed
  moreover have "S \<noteq> {}" using look_keys [OF v] a(2) by (auto simp: sets_ok_def)
  ultimately show ?thesis using run by blast
qed

section \<open>Sample databases\<close>

lemma sample_texts:
  "parse_ll (bytes ''5'') = Some 5" "parse_ll (bytes ''7'') = Some 7" "parse_ll (bytes ''0'') = Some 0"
  "parse_ll (bytes ''4294967296'') = Some (2 ^ 32)" "parse_ll (bytes ''1'') = Some 1"
  "printable (bytes ''5'')" "dec_int 12 = bytes ''12''"
  by (simp_all add: parse_ll_def dec_value_def digit_val_def is_digit_def in_sbytes_def printable_def dec_int_def dec.simps digit_char_def)

text \<open>The database a command makes of the empty one, with one key.\<close>

lemma sample_db:
  assumes "ok r (\<lambda>st'. db_rel sample_env st' b)" "evolves sample_env a_empty b" "st_keys b = [k \<mapsto> v]"
  obtains st where "db_rel sample_env st b" "good_db sample_env st" "has_room 1 st" "has_room 0 st"
proof -
  obtain st where s: "db_rel sample_env st b" using assms(1) by (auto simp: ok_iff)
  have "db_wf b" using assms(2) by (simp add: evolves_def db_wf_def sets_ok_def a_empty_def)
  then show thesis using that [OF s rel_good [OF s]] rel_observe(1) [OF s] assms(3) by (simp add: has_room_def)
qed

lemma empty_room: "room 1 a_empty"
  by (simp add: room_def a_empty_def)

lemma sample_string_db:
  obtains st where "good_db sample_env st" "has_room 1 st" "visible sample_env st (bytes ''a'') = Some (VStr (bytes ''5''))"
    "expire_of st (bytes ''a'') = None" "replies_of st = [shared_ok]"
proof -
  let ?b = "a_setGeneric sample_env False (bytes ''a'') (bytes ''5'') None UNIT_SECONDS a_empty"
  have r: "arg_rep (sample_arg ''5'') (bytes ''5'')" by (rule sample_arg_rep) simp
  obtain st where s: "db_rel sample_env st ?b" "good_db sample_env st" "has_room 1 st"
    by (rule sample_db [OF set_variants_ok(1) [OF empty_db_rel empty_room r sample_texts(6) [unfolded printable_def]]
          string_evolves(2), of "bytes ''a''" "bytes ''a''" "VStr (bytes ''5'')"])
      (auto simp: a_setGeneric_def set_ttl_def a_setKey_def a_empty_def)
  show thesis
    by (rule that [of st]) (simp_all add: s(2,3) rel_observe [OF s(1)] del: One_nat_def,
        simp_all add: a_setGeneric_def set_ttl_def observe a_empty_def empty_srv_def)
qed

text \<open>The same value with an expire time of 1 ms, seen a second later.\<close>

definition later_env :: env where
  "later_env = sample_env\<lparr>e_now := 2000\<rparr>"

lemma sample_expired_db:
  obtains st where "good_db later_env st" "has_room 0 st" "db_values st (bytes ''a'') = Some (VStr (bytes ''5''))"
    "is_expired later_env st (bytes ''a'')"
proof -
  let ?b = "a_setGeneric sample_env False (bytes ''a'') (bytes ''5'') (Some (bytes ''1'')) UNIT_MILLISECONDS a_empty"
  have r: "arg_rep (sample_arg ''5'') (bytes ''5'')" "arg_rep (sample_arg ''1'') (bytes ''1'')" by (rule sample_arg_rep, simp)+
  have t: "set_ttl (Some (bytes ''1'')) UNIT_MILLISECONDS = Inr (Some 1)" by (simp add: set_ttl_def sample_texts del: bytes_simps)
  have f: "set_ttl_ok sample_env (Some (bytes ''1'')) UNIT_MILLISECONDS" by (simp add: set_ttl_ok_def t in_sbytes_def sample_env_def del: bytes_simps)
  obtain st where s: "db_rel sample_env st ?b" "good_db sample_env st" "has_room 0 st"
    by (rule sample_db [OF set_variants_ok(4) [OF empty_db_rel empty_room r(1) sample_texts(6) [unfolded printable_def] r(2) f]
          string_evolves(2), of "bytes ''a''" "bytes ''a''" "VStr (bytes ''5'')"])
      (auto simp: a_setGeneric_def t a_setKey_def a_empty_def simp del: bytes_simps)
  have l: "db_rel later_env st ?b" using s(1) db_rel_seed [of later_env sample_env st ?b] by (simp add: later_env_def)
  have "db_values st (bytes ''a'') = Some (VStr (bytes ''5''))" "is_expired later_env st (bytes ''a'')"
    unfolding rel_observe [OF l]
    by (simp_all add: a_setGeneric_def t a_setKey_def expired_def later_env_def sample_env_def a_empty_def del: bytes_simps)
  moreover have "good_db later_env st" using s(2) by (simp add: good_db_def later_env_def)
  ultimately show thesis using that s(3) by blast
qed

lemma sample_set_db:
  obtains st where "good_db sample_env st" "has_room 1 st" "visible sample_env st (bytes ''a'') = Some (VSet {bytes ''5'', bytes ''7''})"
    "replies_of st = [Integer 2]"
proof -
  let ?ts = "[bytes ''5'', bytes ''7'']" and ?b = "a_sadd sample_env (bytes ''a'') [bytes ''5'', bytes ''7''] a_empty"
  have m: "LLONG_MIN_text \<notin> set ?ts" using sample_texts(6) by (simp add: printable_def dec_int_def dec.simps digit_char_def)
  have f: "fits (length ?ts) (a_look sample_env (bytes ''a'') a_empty)" by (simp add: fits_def a_look_def a_empty_def members_def)
  have b: "?b = addReply (Integer 2) (addDirty 2 (signalModifiedKey (bytes ''a'') (a_put (bytes ''a'') (VSet {bytes ''5'', bytes ''7''}) a_empty)))"
    by (simp add: a_sadd_def observe a_empty_def members_def wrong_type_def Let_def a_expire_def)
  have ev: "evolves sample_env a_empty ?b" using m by (intro sadd_evolves) auto
  obtain st where s: "db_rel sample_env st ?b" "good_db sample_env st" "has_room 1 st"
    by (rule sample_db [OF sadd_ok [OF empty_db_rel empty_room _ m f] ev, of "bytes ''a''" "VSet {bytes ''5'', bytes ''7''}"])
      (simp, unfold b, simp add: a_empty_def fun_upd_def)
  show thesis
    by (rule that [of st]) (simp_all only: s(2,3) rel_observe [OF s(1)], unfold b, simp_all add: observe a_empty_def empty_srv_def)
qed

section \<open>Properties\<close>

text \<open>
  C13. After SET, GET replies the value that was stored, byte for byte, the key has no expire time, and every
  other key keeps its value and expire time.
\<close>

theorem get_after_set:
  assumes "good_db e st" "has_room 1 st" "arg_rep v xs" "printable xs"
  shows "\<exists>st1 st2. setCommand e k v st = Some st1 \<and> getCommand e k st1 = Some st2 \<and>
    replies_of st2 = replies_of st @ [shared_ok, Bulk xs] \<and> good_db e st2 \<and> expire_of st2 k = None \<and>
    visible e st2 k = Some (VStr xs) \<and> (\<forall>k'. k' \<noteq> k \<longrightarrow> visible e st2 k' = visible e st k' \<and> expire_of st2 k' = expire_of st k')"
  using assms by (rule get_after_set_ok)

theorem get_after_set_witness:
  "\<exists>st1 st2. setCommand sample_env (bytes ''a'') (sample_arg ''5'') empty_db = Some st1 \<and>
     getCommand sample_env (bytes ''a'') st1 = Some st2 \<and> replies_of st2 = [shared_ok, Bulk (bytes ''5'')]"
  using get_after_set [OF empty_good(1,2) sample_arg_rep sample_texts(6), of sample_env "bytes ''a''"] empty_good(4)
  by (fastforce simp del: bytes_simps)

text \<open>
  C12. INCRBY on a key that holds the number \<open>n\<close>, or on a missing key for which \<open>n\<close> is 0, stores the decimal text of
  \<open>n + d\<close> and replies \<open>n + d\<close> when the sum fits 64 bits, keeping the expire time of the key; when the sum does not fit, it replies
  the overflow error and changes no value.  No other key changes.  The one sum that fits and has no result is \<open>- (2 ^ 63)\<close>:
  the command stores it, but the conversion to text for the reply negates it, which is undefined behaviour.
\<close>

theorem incrby_adds:
  assumes "good_db e st" "has_room 1 st" "arg_rep arg t" "parse_ll t = Some d"
    and "counter_value (visible e st k) = Some n"
  shows "if n + d = - (2 ^ 63) then incrbyCommand e k arg st = None
    else \<exists>st1. incrbyCommand e k arg st = Some st1 \<and> good_db e st1 \<and>
      replies_of st1 = replies_of st @ [if in_sbytes 8 (n + d) then Integer (n + d)
        else Error ''increment or decrement would overflow''] \<and>
      visible e st1 k = (if in_sbytes 8 (n + d) then Some (VStr (dec_int (n + d))) else visible e st k) \<and>
      (visible e st k \<noteq> None \<longrightarrow> expire_of st1 k = expire_of st k) \<and>
      (\<forall>k'. k' \<noteq> k \<longrightarrow> visible e st1 k' = visible e st k' \<and> expire_of st1 k' = expire_of st k')"
  using assms by (rule incr_ok)

theorem incrby_adds_witness:
  "\<exists>st st1. replies_of st = [shared_ok] \<and> incrbyCommand sample_env (bytes ''a'') (sample_arg ''7'') st = Some st1 \<and>
     replies_of st1 = [shared_ok, Integer 12] \<and> visible sample_env st1 (bytes ''a'') = Some (VStr (bytes ''12''))"
proof (rule sample_string_db)
  fix st assume *: "good_db sample_env st" "has_room 1 st" "visible sample_env st (bytes ''a'') = Some (VStr (bytes ''5''))"
    "expire_of st (bytes ''a'') = None" "replies_of st = [shared_ok]"
  have "arg_rep (sample_arg ''7'') (bytes ''7'')" by (rule sample_arg_rep) simp
  from incrby_adds [OF *(1,2) this sample_texts(2), of "bytes ''a''" 5] show ?thesis
    using *(3,5) sample_texts(1,7) by (auto simp: counter_value_def in_sbytes_def simp del: bytes_simps)
qed

text \<open>
  C15. MSETNX is all or nothing: if one of the keys has a value it replies 0 and no key changes; otherwise it replies 1, every key
  of the arguments has its value, the last one when a key is repeated, and the other keys are unchanged.
\<close>

theorem msetnx_all_or_nothing:
  assumes "good_db e st" "has_room (length kvs) st" "mset_args args kvs"
  shows "\<exists>st1. msetGenericCommand e args True st = Some st1 \<and> good_db e st1 \<and>
    (if \<exists>(k, v) \<in> set kvs. visible e st k \<noteq> None
     then replies_of st1 = replies_of st @ [shared_czero] \<and> visible e st1 = visible e st
     else replies_of st1 = replies_of st @ [shared_cone] \<and>
       visible e st1 = (\<lambda>k. case map_of (rev kvs) k of None \<Rightarrow> visible e st k | Some v \<Rightarrow> Some (VStr v)))"
  using assms by (rule msetnx_ok)

theorem msetnx_all_or_nothing_witness:
  "\<exists>st st1. visible sample_env st (bytes ''a'') = Some (VStr (bytes ''5'')) \<and>
     msetGenericCommand sample_env [sample_arg ''a'', sample_arg ''7''] True st = Some st1 \<and>
     replies_of st1 = replies_of st @ [shared_czero] \<and> visible sample_env st1 = visible sample_env st"
proof (rule sample_string_db)
  fix st assume *: "good_db sample_env st" "has_room 1 st" "visible sample_env st (bytes ''a'') = Some (VStr (bytes ''5''))"
  have r: "arg_rep (sample_arg ''a'') (bytes ''a'')" "arg_rep (sample_arg ''7'') (bytes ''7'')" by (rule sample_arg_rep, simp)+
  have "bytes ''7'' \<noteq> LLONG_MIN_text" by (simp add: dec_int_def dec.simps digit_char_def)
  then have args: "mset_args [sample_arg ''a'', sample_arg ''7''] [(bytes ''a'', bytes ''7'')]"
    using r by (simp add: arg_rep_def del: bytes_simps)
  have "has_room (length [(bytes ''a'', bytes ''7'')]) st" using *(2) by simp
  from msetnx_all_or_nothing [OF *(1) this args] show ?thesis using *(3) by (auto simp del: bytes_simps)
qed

text \<open>
  C14. RENAME moves the value and the expire time of a key: the source is gone, the target has them whatever it had before
  (an expire time of -1, the code of no expire time, is dropped), and the other keys are unchanged.
\<close>

theorem rename_moves:
  assumes "good_db e st" "has_room 1 st" "src \<noteq> dst" "visible e st src = Some v"
  shows "\<exists>st1. renameCommand e src dst st = Some st1 \<and> good_db e st1 \<and>
    replies_of st1 = replies_of st @ [shared_ok] \<and> visible e st1 src = None \<and> expire_of st1 src = None \<and>
    db_values st1 dst = Some v \<and>
    expire_of st1 dst = (if expire_of st src = Some (- 1) then None else expire_of st src) \<and>
    (\<forall>k. k \<noteq> src \<and> k \<noteq> dst \<longrightarrow> visible e st1 k = visible e st k \<and> expire_of st1 k = expire_of st k)"
  using assms by (rule rename_ok)

theorem rename_moves_witness:
  "\<exists>st st1. visible sample_env st (bytes ''a'') = Some (VStr (bytes ''5'')) \<and>
     renameCommand sample_env (bytes ''a'') (bytes ''b'') st = Some st1 \<and>
     visible sample_env st1 (bytes ''a'') = None \<and> db_values st1 (bytes ''b'') = Some (VStr (bytes ''5'')) \<and>
     expire_of st1 (bytes ''b'') = None"
proof (rule sample_string_db)
  fix st assume *: "good_db sample_env st" "has_room 1 st" "visible sample_env st (bytes ''a'') = Some (VStr (bytes ''5''))"
    "expire_of st (bytes ''a'') = None"
  have "bytes ''a'' \<noteq> bytes ''b''" by simp
  from rename_moves [OF *(1,2) this *(3)] show ?thesis using *(3,4) by (auto simp del: bytes_simps)
qed

text \<open>
  C11. SINTER, SUNION and SDIFF of any keys that hold sets or nothing reply exactly the members of the intersection, the union
  and the difference, each member once, and change no value.
\<close>

theorem set_algebra:
  assumes "good_db e st" "has_room 1 st" "ks \<noteq> []" "\<forall>k \<in> set ks. \<not> wrong_type (visible e st k)"
    and "(\<Sum>k \<leftarrow> ks. card (members_of e st k)) \<le> 2 ^ 29 - 1"
  shows "\<exists>s1 s2 s3. sinterCommand e ks st = Some s1 \<and> sunionCommand e ks st = Some s2 \<and> sdiffCommand e ks st = Some s3 \<and>
    set_reply st s1 (\<Inter>k \<in> set ks. members_of e st k) \<and> set_reply st s2 (\<Union>k \<in> set ks. members_of e st k) \<and>
    set_reply st s3 (members_of e st (hd ks) - (\<Union>k \<in> set (tl ks). members_of e st k)) \<and>
    visible e s1 = visible e st \<and> visible e s2 = visible e st \<and> visible e s3 = visible e st"
  using assms by (rule set_algebra_ok)

theorem set_algebra_witness:
  "\<exists>st s1 s2 s3. members_of sample_env st (bytes ''a'') = {bytes ''5'', bytes ''7''} \<and>
     sinterCommand sample_env [bytes ''a''] st = Some s1 \<and> set_reply st s1 {bytes ''5'', bytes ''7''} \<and>
     sunionCommand sample_env [bytes ''a''] st = Some s2 \<and> set_reply st s2 {bytes ''5'', bytes ''7''} \<and>
     sdiffCommand sample_env [bytes ''a''] st = Some s3 \<and> set_reply st s3 {bytes ''5'', bytes ''7''}"
proof (rule sample_set_db)
  fix st assume *: "good_db sample_env st" "has_room 1 st"
    "visible sample_env st (bytes ''a'') = Some (VSet {bytes ''5'', bytes ''7''})"
  have m: "members_of sample_env st (bytes ''a'') = {bytes ''5'', bytes ''7''}" by (simp add: members_of_def members_def * del: bytes_simps)
  have "\<exists>s1 s2 s3. sinterCommand sample_env [bytes ''a''] st = Some s1 \<and> sunionCommand sample_env [bytes ''a''] st = Some s2 \<and>
    sdiffCommand sample_env [bytes ''a''] st = Some s3 \<and>
    set_reply st s1 (\<Inter>k \<in> set [bytes ''a'']. members_of sample_env st k) \<and> set_reply st s2 (\<Union>k \<in> set [bytes ''a'']. members_of sample_env st k) \<and>
    set_reply st s3 (members_of sample_env st (hd [bytes ''a'']) - (\<Union>k \<in> set (tl [bytes ''a'']). members_of sample_env st k)) \<and>
    visible sample_env s1 = visible sample_env st \<and> visible sample_env s2 = visible sample_env st \<and> visible sample_env s3 = visible sample_env st"
    by (rule set_algebra [OF *(1,2)]) (simp_all add: wrong_type_def *(3) m card_insert_if del: bytes_simps)
  then show ?thesis using m by (auto simp del: bytes_simps)
qed

text \<open>
  C30. EXPIRE and PERSIST revive a key that has expired but is not deleted yet: a lookup no longer finds it, yet both commands
  reply 1 and every client sees the old value again.
\<close>

theorem expire_revives:
  assumes "good_db e st" "has_room 0 st" "db_values st k = Some v" "is_expired e st k" "\<not> e_slave e"
    and "arg_rep arg t" "parse_ll t = Some n" "0 < n" "n \<le> 2 ^ 40" "0 \<le> e_now e" "e_now e < 2 ^ 62"
  shows "visible e st k = None \<and>
    (\<exists>st1. expireCommand e k (StrRaw arg) st = Some st1 \<and> visible e st1 k = Some v \<and>
       replies_of st1 = replies_of st @ [Integer 1]) \<and>
    (\<exists>st2. persistCommand e k st = Some st2 \<and> visible e st2 k = Some v \<and> expire_of st2 k = None \<and>
       replies_of st2 = replies_of st @ [Integer 1])"
  using assms by (rule expire_revives_ok)

theorem expire_revives_witness:
  "\<exists>st st1. visible later_env st (bytes ''a'') = None \<and>
     expireCommand later_env (bytes ''a'') (StrRaw (sample_arg ''7'')) st = Some st1 \<and>
     visible later_env st1 (bytes ''a'') = Some (VStr (bytes ''5''))"
proof (rule sample_expired_db)
  fix st assume *: "good_db later_env st" "has_room 0 st" "db_values st (bytes ''a'') = Some (VStr (bytes ''5''))"
    "is_expired later_env st (bytes ''a'')"
  have r: "arg_rep (sample_arg ''7'') (bytes ''7'')" by (rule sample_arg_rep) simp
  have e: "\<not> e_slave later_env" "0 \<le> e_now later_env" "e_now later_env < 2 ^ 62" by (simp_all add: later_env_def sample_env_def)
  from expire_revives [OF * e(1) r sample_texts(2) _ _ e(2,3)] show ?thesis by (auto simp del: bytes_simps)
qed

text \<open>
  C31. GETRANGE with the end index $2^{32}$ reads outside the string object: the cast of the index to 32 bits hides it from the
  range check, so the command has no defined result.
\<close>

theorem getrange_overread:
  assumes "good_db e st" "visible e st k = Some (VStr xs)" "xs \<noteq> []"
    and "arg_rep x1 t1" "parse_ll t1 = Some 0" "arg_rep x2 t2" "parse_ll t2 = Some (2 ^ 32)"
  shows "getrangeCommand e k x1 x2 st = None"
  using assms by (rule getrange_overread_ok)

theorem getrange_overread_witness:
  "\<exists>st. visible sample_env st (bytes ''a'') = Some (VStr (bytes ''5'')) \<and>
     getrangeCommand sample_env (bytes ''a'') (sample_arg ''0'') (sample_arg ''4294967296'') st = None"
proof (rule sample_string_db)
  fix st assume *: "good_db sample_env st" "visible sample_env st (bytes ''a'') = Some (VStr (bytes ''5''))"
  have r: "arg_rep (sample_arg ''0'') (bytes ''0'')" "arg_rep (sample_arg ''4294967296'') (bytes ''4294967296'')"
    by (rule sample_arg_rep, simp)+
  have "bytes ''5'' \<noteq> []" by simp
  from getrange_overread [OF *(1,2) this r(1) sample_texts(3) r(2) sample_texts(4)] *(2) show ?thesis by blast
qed

text \<open>
  C32. SRANDMEMBER with a positive count that is a multiple of $2^{32}$ replies no member of a set that has members: the count is
  converted to 32 bits.
\<close>

theorem srandmember_wraps:
  assumes "good_db e st" "has_room 1 st" "visible e st k = Some (VSet S)" "card S \<le> 2 ^ 29 - 1"
    and "arg_rep arg t" "parse_ll t = Some l" "0 < l" "l mod 2 ^ 32 = 0"
  shows "S \<noteq> {} \<and> (\<exists>rnds st1. srandmemberWithCountCommand e rnds k arg st = Some st1) \<and>
    (\<forall>rnds st1. srandmemberWithCountCommand e rnds k arg st = Some st1 \<longrightarrow> replies_of st1 = replies_of st @ [MultiBulk 0])"
  using assms by (rule srandmember_wraps_ok)

theorem srandmember_wraps_witness:
  "\<exists>st rnds st1. visible sample_env st (bytes ''a'') = Some (VSet {bytes ''5'', bytes ''7''}) \<and>
     srandmemberWithCountCommand sample_env rnds (bytes ''a'') (sample_arg ''4294967296'') st = Some st1 \<and>
     replies_of st1 = [Integer 2, MultiBulk 0]"
proof (rule sample_set_db)
  fix st assume *: "good_db sample_env st" "has_room 1 st"
    "visible sample_env st (bytes ''a'') = Some (VSet {bytes ''5'', bytes ''7''})" "replies_of st = [Integer 2]"
  have r: "arg_rep (sample_arg ''4294967296'') (bytes ''4294967296'')" by (rule sample_arg_rep) simp
  have c: "card {bytes ''5'', bytes ''7''} \<le> 2 ^ 29 - 1" by (simp add: card_insert_if)
  from srandmember_wraps [OF *(1,2,3) c r sample_texts(4)] *(3,4) show ?thesis by (fastforce simp del: bytes_simps)
qed





end
