(* ===== verification/Spec2Isabelle.thy ===== *)
theory Spec2Isabelle
  imports Intset Util Dict DictIter Glob Sds Object Db DbCmds TString Bitops TSet TSetCmds TSetOps TSetRand
    Commands Effects Server Transactions Reach Proto ProtoSafe ProtoRead Clients
begin

text \<open>
  A verification of the core of Redis 2.6.11 (\<open>src/redis/redis-2.6.11/src\<close>), the key-value server of this
  repository: from the bytes of its data structures to what a client observes on its connection.

  \<^bold>\<open>The program.\<close>  A client's bytes arrive in a query buffer (\<open>networking.c\<close>), are parsed into commands,
  and \<open>processCommand\<close> (\<open>redis.c\<close>) looks each up in the command table, queues it in a transaction
  (\<open>multi.c\<close>) or runs its procedure.  The procedures (\<open>t_string.c\<close>, \<open>bitops.c\<close>, \<open>t_set.c\<close>, \<open>db.c\<close>) read and write
  the key space (\<open>db.c\<close>): a hash table (\<open>dict.c\<close>) of objects (\<open>object.c\<close>), each a dynamic string (\<open>sds.c\<close>), an
  encoded integer (\<open>util.c\<close>), an integer set (\<open>intset.c\<close>) or another hash table.  A procedure signals the keys
  it changes to the clients that watch them.

  \<^bold>\<open>The theories,\<close> bottom up; each names its file and keeps the names of its functions.
  \<^item> \<open>Base\<close>: byte buffers with bounds-checked access, little-endian integers, the conversions and the
    signed arithmetic of C.  \<open>Interfaces\<close>: the contracts of finite sets and finite maps.
  \<^item> \<open>Endianconv\<close> (\<open>endianconv.c\<close>), \<open>Intset\<close> (\<open>intset.c\<close>), \<open>Util\<close> and \<open>Glob\<close> (\<open>util.c\<close>), \<open>Sds\<close> (\<open>sds.c\<close>),
    \<open>Dict\<close> and \<open>DictIter\<close> (\<open>dict.c\<close>): the data structures.  Their lemmas say that each operation stays in
    bounds, keeps its invariant (\<open>intset_rep\<close>, \<open>sds_rep\<close>, \<open>dict_inv\<close>) and computes the function on sets, lists
    or maps that it stands for.
  \<^item> \<open>Object\<close> (\<open>object.c\<close>): objects and their encodings; \<open>obj_rep\<close> relates an object to its value.
  \<^item> \<open>Db\<close> and \<open>DbCmds\<close> (\<open>db.c\<close>), \<open>TString\<close> (\<open>t_string.c\<close>), \<open>Bitops\<close> (\<open>bitops.c\<close>), \<open>TSet\<close>, \<open>TSetCmds\<close>,
    \<open>TSetOps\<close> and \<open>TSetRand\<close> (\<open>t_set.c\<close>): the key space and the commands.  \<open>db_rel\<close> relates a database to
    maps of values and expire times; every command has a specification \<open>a_...\<close> on the maps and a lemma
    that the code implements it, errors included.
  \<^item> \<open>Commands\<close> (\<open>redis.c\<close>): the command table of the code beside that of the specifications, which
    agree row by row.  \<open>Effects\<close>: every row replies once, signals the keys it changes and keeps the
    database well-formed.
  \<^item> \<open>Server\<close> (\<open>redis.c\<close>, \<open>multi.c\<close>, \<open>networking.c\<close>): clients, \<open>processCommand\<close>, \<open>call\<close>, transactions and
    \<open>WATCH\<close>.  \<open>Transactions\<close>: its correctness, from the contract of the procedures only.  \<open>Reach\<close>: the
    server as a state machine of clients that connect, leave and send commands; what holds in every
    reachable state and over every run.
  \<^item> \<open>Proto\<close> (\<open>networking.c\<close>): the reading of requests.  \<open>ProtoSafe\<close>: its safety on any input; \<open>ProtoRead\<close>:
    the round trip of requests.
  \<^item> \<open>Clients\<close>: what a client observes, stated over the database itself.

  \<^bold>\<open>The interfaces.\<close>  \<open>finite_set_impl\<close> is interpreted on integer sets, on hash tables and on set objects;
  \<open>finite_map_impl\<close> on hash tables; \<open>keyspace\<close>, on which the transactions rest, on the procedures of the
  command table; \<open>request_handler\<close> and its extension \<open>request_runner\<close>, on which the parser rests, on
  \<open>processCommand\<close>.

  \<^bold>\<open>What is None.\<close>  A definition that accesses memory returns an option.  \<open>None\<close> is what C leaves undefined (an
  access outside a block, the overflow of a signed integer), a failed assertion, or a loop that does
  not end, and random numbers or contexts that run out.  So a theorem with a result says that nothing
  of this happens.

  \<^bold>\<open>How the code is represented.\<close>
  \<^item> Allocation succeeds; freeing is not modelled.  Objects are values: a pointer into the key space is
    its key, and a reference count that a command tests is an argument (\<open>e_argrefs\<close>, \<open>e_valrefs\<close>).
  \<^item> What a command reads of the clock, the configuration and the replication state is its environment
    \<open>env\<close>; the clock does not advance during a command.  Random numbers are arguments.
  \<^item> A member of a set is its text, as the dictionary identifies objects of the same text.  \<open>qsort\<close> is an
    insertion sort, of which the proofs use that it permutes.
  \<^item> There is one database.  The dictionary of watched keys is a map; the clients that a procedure
    touches are marked after it has run, in the order of its signals, as no procedure reads the marks.
  \<^item> A command name with a null byte is unknown (the code could find it when the hashes collide).
    \<open>freeMemoryIfNeeded\<close> is reduced to its failure (\<open>g_oom\<close>): it evicts nothing.  The commands fed to the
    append-only file and the slaves are a list (\<open>feed\<close>).  Monitors, the slow log and statistics of
    commands are left out.  The reply buffer of a client is a list of replies.
  \<^item> On the input side a context of \<open>cs\<close> holds what one command depends on besides the state.  The
    maximal query buffer is the default of 1 GB (\<open>querybuf_max\<close>).  \<open>deliver\<close> is the event loop: it calls the
    handler as long as the connection has bytes.  No client is ever blocked, as the blocking commands
    are not modelled.

  \<^bold>\<open>Bounds and fuel.\<close>  The conditions of the rows (\<open>a_cond\<close>) and \<open>in_range\<close> bound what the code can handle:
  at most \<open>2 ^ 29\<close> keys or members (\<open>room\<close>, \<open>fits\<close>; tables are sized in powers of two and counted by
  \<open>int\<close>), strings of at most \<open>2 ^ 29\<close> bytes (512 MB), expire times that do not overflow, and no text of the
  least \<open>long long\<close>, whose conversion negates it (\<open>printable\<close>).  The loop over the query buffer has as
  fuel the length of the buffer, as each pass consumes a byte or stops; the matcher has more fuel than
  the pattern is long, as each pass and each recursive call is further on in it.  All other loops
  recurse on a count or a measure; the draws of random elements end when their numbers do, and the
  lemmas show that there are numbers with which they succeed.

  \<^bold>\<open>What is proved.\<close>  The claims C1 to C40 stand in the theories of the components they are about:
  refinement of sets, maps, strings and the whole command table; the invariant of the reachable
  states, one reply for each command and the soundness of \<open>WATCH\<close>; safety of the parser on any input
  and the round trip of requests; what clients see of strings, counters, bits, sets, \<open>RENAME\<close> and \<open>MSETNX\<close>;
  termination of rehashing; and, where the code departs from what it means to do, theorems that show
  it (expired keys that come back, overlong indices and counts, comparisons that stop at a null byte,
  \<open>RANDOMKEY\<close> on a slave, the size of large integer sets, classes of patterns that end in a backslash).

  \<^bold>\<open>What is not modelled.\<close>  Hashes, lists and sorted sets with their encodings (\<open>ziplist.c\<close>, \<open>zipmap.c\<close>, \<open>adlist.c\<close>)
  are outside the core chosen here, as are floating point numbers, \<open>KEYS\<close>, \<open>MOVE\<close>, \<open>SELECT\<close>, \<open>SORT\<close>, scripts, publish
  and subscribe, and the blocking of clients.  The event loop, sockets, timers, configuration, persistence
  and replication are input and output around the data model.  The other programs of the repository
  are separate stores.
\<close>

end
